(* ===== verification/Prelude.thy ===== *)
theory Prelude
  imports Main
begin

text \<open>
  Shared vocabulary of the development: how a C computation can end, the part of
  \<^verbatim>\<open>string.h\<close> the programs of the repository are built on, and list lemmas that
  several components use.

  A C string is a \<^typ>\<open>string\<close> that holds the bytes before the terminator, so
  \<^verbatim>\<open>strlen\<close> is \<^const>\<open>length\<close>, \<^verbatim>\<open>strcpy\<close> is the identity and
  \<^verbatim>\<open>strcmp(a, b) == 0\<close> is equality.  A null \<^verbatim>\<open>char *\<close> is \<^const>\<open>None\<close>.
  Memory allocation is taken to succeed; the \<^verbatim>\<open>exit(12)\<close> that follows a failed
  \<^verbatim>\<open>malloc\<close> is not modelled.
\<close>

section \<open>How a computation ends\<close>

text \<open>
  \<open>ExitWith n\<close>: the code calls \<^verbatim>\<open>exit(n)\<close>.  \<open>Undefined\<close>: the code does something C gives
  no meaning to (a null dereference, a read outside an object, a signed overflow, freeing a
  literal).  \<open>Loops\<close>: a loop of the code never ends.  \<open>NoFuel\<close>: the bound of a recursion
  of the model ran out; it is not a behaviour of the code.
\<close>

datatype fault = ExitWith int | Undefined | Loops | NoFuel

type_synonym 'a outcome = "fault + 'a"

definition obind :: "'a outcome \<Rightarrow> ('a \<Rightarrow> 'b outcome) \<Rightarrow> 'b outcome" where
  "obind m f = (case m of Inl e \<Rightarrow> Inl e | Inr x \<Rightarrow> f x)"

named_theorems outcome_simps "evaluation and inversion of outcome-valued code"

lemma obind_simps [simp]:
  "obind (Inl e) f = Inl e"
  "obind (Inr x) f = f x"
  by (simp_all add: obind_def)

lemma obind_cong [fundef_cong]:
  "m = m' \<Longrightarrow> (\<And>x. m' = Inr x \<Longrightarrow> f x = f' x) \<Longrightarrow> obind m f = obind m' f'"
  by (auto simp: obind_def split: sum.splits)

lemma obind_eq_Inr [outcome_simps]:
  "obind m f = Inr y \<longleftrightarrow> (\<exists>x. m = Inr x \<and> f x = Inr y)"
  by (auto simp: obind_def split: sum.splits)

lemma obind_eq_Inl [outcome_simps]:
  "obind m f = Inl e \<longleftrightarrow> m = Inl e \<or> (\<exists>x. m = Inr x \<and> f x = Inl e)"
  by (auto simp: obind_def split: sum.splits)

lemma obind_assoc: "obind (obind m f) g = obind m (\<lambda>x. obind (f x) g)"
  by (auto simp: obind_def split: sum.splits)

text \<open>Reading through a pointer that may be null.\<close>

definition deref :: "'a option \<Rightarrow> 'a outcome" where
  "deref p = (case p of None \<Rightarrow> Inl Undefined | Some x \<Rightarrow> Inr x)"

lemma deref_simps [simp]: "deref None = Inl Undefined" "deref (Some x) = Inr x"
  by (simp_all add: deref_def)

lemma deref_eq [outcome_simps]:
  "deref p = Inr x \<longleftrightarrow> p = Some x"
  "deref p = Inl e \<longleftrightarrow> p = None \<and> e = Undefined"
  by (auto simp: deref_def split: option.splits)

lemma obind_eq_NoFuel:
  "obind m f = Inl NoFuel \<longleftrightarrow> m = Inl NoFuel \<or> (\<exists>x. m = Inr x \<and> f x = Inl NoFuel)"
  by (rule obind_eq_Inl)

section \<open>The string library\<close>

text \<open>The largest value of a 32-bit \<^verbatim>\<open>int\<close>.\<close>

definition INT_MAX :: int where
  "INT_MAX = 2147483647"

text \<open>
  \<^verbatim>\<open>strtok\<close> over the text that is left: skip delimiters, cut at the next one.  The second
  component is what the following \<^verbatim>\<open>strtok(NULL, ...)\<close> works on; glibc leaves the saved
  pointer at the terminator when the text is exhausted.
\<close>

definition strtok :: "string \<Rightarrow> string \<Rightarrow> string option \<times> string" where
  "strtok s d =
     (let t = dropWhile (\<lambda>c. c \<in> set d) s in
      if t = [] then (None, [])
      else (Some (takeWhile (\<lambda>c. c \<notin> set d) t), drop 1 (dropWhile (\<lambda>c. c \<notin> set d) t)))"

text \<open>\<^verbatim>\<open>strncmp(s, lit, strlen(lit)) == 0\<close>.\<close>

definition starts_with :: "string \<Rightarrow> string \<Rightarrow> bool" where
  "starts_with lit s \<longleftrightarrow> take (length lit) s = lit"

lemma strtok_nil [simp]: "strtok [] d = (None, [])"
  by (simp add: strtok_def)

lemma strtok_Some:
  assumes "strtok s d = (Some t, r)"
  shows "t \<noteq> []" "set t \<inter> set d = {}" "length t \<le> length s" "length r < length s"
    and "set t \<subseteq> set s" "set r \<subseteq> set s"
proof -
  define u where "u = dropWhile (\<lambda>c. c \<in> set d) s"
  from assms have u: "u \<noteq> []" and t: "t = takeWhile (\<lambda>c. c \<notin> set d) u"
    and r: "r = drop 1 (dropWhile (\<lambda>c. c \<notin> set d) u)"
    by (auto simp: strtok_def Let_def u_def split: if_splits)
  have hd: "hd u \<notin> set d"
    using u hd_dropWhile [of "\<lambda>c. c \<in> set d" s] by (simp add: u_def)
  obtain a v where a: "u = a # v" using u by (cases u) auto
  show "t \<noteq> []" using hd a t by auto
  show "set t \<inter> set d = {}" by (auto simp: t dest: set_takeWhileD)
  have len: "length u \<le> length s" by (simp add: u_def length_dropWhile_le)
  show "length t \<le> length s"
    using len length_takeWhile_le [of "\<lambda>c. c \<notin> set d" u] by (simp add: t)
  have "length (dropWhile (\<lambda>c. c \<notin> set d) u) \<le> length u"
    by (rule length_dropWhile_le)
  with len a show "length r < length s"
    by (simp add: r)
  have us: "set u \<subseteq> set s" by (auto simp: u_def dest: set_dropWhileD)
  then show "set t \<subseteq> set s" by (auto simp: t dest: set_takeWhileD)
  from us show "set r \<subseteq> set s"
    by (auto simp: r dest!: in_set_dropD set_dropWhileD)
qed

lemma strtok_rest_le: "length (snd (strtok s d)) \<le> length s"
proof (cases "strtok s d")
  case (Pair p r)
  show ?thesis
  proof (cases p)
    case None
    with Pair show ?thesis by (auto simp: strtok_def Let_def split: if_splits)
  next
    case (Some t)
    with Pair have "length r < length s" using strtok_Some(4) by blast
    with Pair show ?thesis by simp
  qed
qed

lemma strtok_None: "fst (strtok s d) = None \<longleftrightarrow> set s \<subseteq> set d"
  by (auto simp: strtok_def Let_def subset_iff)

text \<open>A text that begins with a delimiter-free word that is the whole text or is cut there.\<close>

lemma strtok_word:
  assumes "w \<noteq> []" and "set w \<inter> set d = {}" and "c \<in> set d"
  shows "strtok (w @ c # r) d = (Some w, r)" and "strtok w d = (Some w, [])"
proof -
  have 1: "dropWhile (\<lambda>c. c \<in> set d) (w @ x) = w @ x" for x
    using assms(1,2) by (cases w) auto
  have 2: "\<forall>x \<in> set w. x \<notin> set d" using assms(2) by auto
  show "strtok (w @ c # r) d = (Some w, r)"
    using assms(1,3) 2 1 [of "c # r"] by (simp add: strtok_def Let_def)
  show "strtok w d = (Some w, [])"
    using assms(1) 1 [of "[]"] by (simp add: strtok_def Let_def takeWhile_eq_all_conv [THEN iffD2, OF 2]
      dropWhile_eq_Nil_conv [THEN iffD2, OF 2])
qed

lemma starts_with_append [simp]: "starts_with lit (lit @ s)"
  by (simp add: starts_with_def)

lemma starts_withE:
  assumes "starts_with lit s"
  obtains r where "s = lit @ r"
  using assms append_take_drop_id [of "length lit" s] unfolding starts_with_def by metis

section \<open>Lists used as arrays\<close>

lemma take_update_last: "i < length xs \<Longrightarrow> take (Suc i) (xs[i := x]) = take i xs @ [x]"
  by (simp add: take_Suc_conv_app_nth)

lemma take_update_same: "n \<le> i \<Longrightarrow> take n (xs[i := x]) = take n xs"
  by simp

lemma drop_take_Suc: "i < n \<Longrightarrow> n \<le> length xs \<Longrightarrow> drop i (take n xs) = xs ! i # drop (Suc i) (take n xs)"
  by (metis Cons_nth_drop_Suc length_take min.absorb2 nth_take)

end
