(* ===== verification/PpText.thy ===== *)
theory PpText
  imports Prelude
begin

text \<open>
  The text functions of \<^verbatim>\<open>assignments/1-multi/helper.c\<close>: reading a line, splitting it into
  tokens, replacing a macro in it, finding an included file.  The preprocessor proper is in
  \<^verbatim>\<open>Preproc\<close>.
\<close>

section \<open>Constants\<close>

abbreviation NL :: char where "NL \<equiv> CHR 0x0A"
abbreviation TAB :: char where "TAB \<equiv> CHR 0x09"
abbreviation BSLASH :: char where "BSLASH \<equiv> CHR 0x5C"
abbreviation QUOTE :: char where "QUOTE \<equiv> CHR 0x22"
abbreviation NUL :: char where "NUL \<equiv> CHR 0x00"

definition MAXLEN :: nat where
  "MAXLEN = 256"

text \<open>The \<^verbatim>\<open>delimiters\<close> of \<^verbatim>\<open>ifelse\<close> and \<^verbatim>\<open>parseFile\<close>, those of \<^verbatim>\<open>defineMap\<close> and
  \<^verbatim>\<open>ifdef\<close> (with the newline), and \<^verbatim>\<open>multi_lines_delim\<close>, whose C spelling
  \<^verbatim>\<open>"\\t\n \\"\<close> is a backslash, the letter t, a newline, a space and a backslash.\<close>

definition delimiters :: string where
  "delimiters = TAB # '' []{}<>=+-*/%!&|^.,:;()'' @ [BSLASH]"

definition delimiters_nl :: string where
  "delimiters_nl = delimiters @ [NL]"

definition multi_lines_delim :: string where
  "multi_lines_delim = [BSLASH, CHR ''t'', NL, CHR '' '', BSLASH]"

section \<open>Reading\<close>

text \<open>\<^verbatim>\<open>fgets\<close> with room for \<open>n\<close> bytes: up to and including the first newline.\<close>

fun fgets :: "nat \<Rightarrow> string \<Rightarrow> string \<times> string" where
  "fgets 0 s = ([], s)"
| "fgets (Suc n) [] = ([], [])"
| "fgets (Suc n) (c # s) =
     (if c = NL then ([c], s) else (let (l, r) = fgets n s in (c # l, r)))"

text \<open>
  \<^verbatim>\<open>getLine\<close> on the unread part of a file: \<^const>\<open>None\<close> is the result -1 with a null
  \<^verbatim>\<open>*line\<close>.  The copy into \<^verbatim>\<open>*line\<close> stops at a NUL byte.
\<close>

definition getLine :: "string \<Rightarrow> (string \<times> string) option" where
  "getLine inp =
     (if inp = [] then None
      else let (l, r) = fgets (MAXLEN - 1) inp in Some (takeWhile (\<lambda>c. c \<noteq> NUL) l, r))"

section \<open>Splitting\<close>

text \<open>All the tokens that repeated calls of \<^verbatim>\<open>strtok\<close> with the same delimiters return.\<close>

function tokens :: "string \<Rightarrow> string \<Rightarrow> string list" where
  "tokens s d = (case strtok s d of (None, _) \<Rightarrow> [] | (Some t, r) \<Rightarrow> t # tokens r d)"
  by pat_completeness auto
termination
  by (relation "measure (\<lambda>(s, d). length s)") (auto intro: strtok_Some(4) strtok_Some(4) [OF sym])

declare tokens.simps [simp del]

section \<open>Replacing\<close>

text \<open>
  The inner loop of \<^verbatim>\<open>replace\<close>: from \<open>j\<close>, just after a quote, to just after the closing
  one.  Without a closing quote the loop reads past the end of the line.
\<close>

function skip_quoted :: "string \<Rightarrow> nat \<Rightarrow> nat outcome" where
  "skip_quoted line j =
     (if j < length line then (if line ! j = QUOTE then Inr (j + 1) else skip_quoted line (j + 1))
      else Inl Undefined)"
  by pat_completeness auto
termination
  by (relation "measure (\<lambda>(line, j). length line - j)") auto

declare skip_quoted.simps [simp del]

lemma skip_quoted_bounds: "skip_quoted line j = Inr i \<Longrightarrow> j < i \<and> i \<le> length line"
proof (induction line j rule: skip_quoted.induct)
  case (1 line j)
  then show ?case
    by (subst (asm) skip_quoted.simps) (auto split: if_splits)
qed

text \<open>The outer loop: the position of the first match that is not inside quotes.\<close>

function find_key :: "string \<Rightarrow> string \<Rightarrow> nat \<Rightarrow> nat option outcome" where
  "find_key line key i =
     (if i < length line then
        obind (if line ! i = QUOTE then skip_quoted line (i + 1) else Inr i) (\<lambda>i'.
          if starts_with key (drop i' line) then Inr (Some i') else find_key line key (i' + 1))
      else Inr None)"
  by pat_completeness auto
termination
  by (relation "measure (\<lambda>(line, key, i). length line - i)")
    (auto split: if_splits dest: skip_quoted_bounds)

declare find_key.simps [simp del]

definition replace :: "string \<Rightarrow> string \<Rightarrow> string \<Rightarrow> string outcome" where
  "replace line key value =
     obind (find_key line key 0) (\<lambda>found.
       case found of
         None \<Rightarrow> Inr line
       | Some i \<Rightarrow> Inr (take i line @ value @ drop (i + length key) line))"

section \<open>Joining\<close>

definition concatenate :: "string \<Rightarrow> string \<Rightarrow> string" where
  "concatenate dest src = dest @ '' '' @ src"

definition check_token :: "string option \<Rightarrow> string \<Rightarrow> string" where
  "check_token token res = (case token of None \<Rightarrow> res | Some t \<Rightarrow> concatenate res t)"

section \<open>Paths\<close>

text \<open>\<^verbatim>\<open>strrchr\<close>: the index of the last occurrence.\<close>

fun strrchr :: "string \<Rightarrow> char \<Rightarrow> nat option" where
  "strrchr [] c = None"
| "strrchr (a # s) c =
     (case strrchr s c of Some i \<Rightarrow> Some (Suc i) | None \<Rightarrow> if a = c then Some 0 else None)"

definition getDirectory :: "string \<Rightarrow> string" where
  "getDirectory path =
     (if path = '''' then path
      else case strrchr path (CHR ''/'') of
             None \<Rightarrow> ''''
           | Some i \<Rightarrow> take i path @ ''/'')"

text \<open>
  The files that can be opened for reading, by path, with their contents; a parameter of the
  model.  The directories of the \<^verbatim>\<open>-I\<close> options are an array, an entry of which is
  \<^const>\<open>None\<close> while it holds no string.
\<close>

type_synonym files = "string \<Rightarrow> string option"

fun search_dirs :: "files \<Rightarrow> string \<Rightarrow> string option list \<Rightarrow> string option outcome" where
  "search_dirs fs fileName [] = Inr None"
| "search_dirs fs fileName (d # ds) =
     obind (deref d) (\<lambda>dir.
       case fs (dir @ ''/'' @ fileName) of
         Some file \<Rightarrow> Inr (Some file)
       | None \<Rightarrow> search_dirs fs fileName ds)"

definition getIncFile :: "files \<Rightarrow> string \<Rightarrow> string option list \<Rightarrow> string \<Rightarrow> string option outcome" where
  "getIncFile fs fileName directories currentDir =
     (case fs (currentDir @ fileName) of
        Some file \<Rightarrow> Inr (Some file)
      | None \<Rightarrow> search_dirs fs fileName directories)"


section \<open>Facts about reading\<close>

lemma fgets_append: "fgets n s = (l, r) \<Longrightarrow> s = l @ r"
  by (induction n s arbitrary: l r rule: fgets.induct) (auto split: if_splits prod.splits)

lemma fgets_length: "fgets n s = (l, r) \<Longrightarrow> length l \<le> n"
  by (induction n s arbitrary: l r rule: fgets.induct) (auto split: if_splits prod.splits)

lemma fgets_nonempty: "fgets (Suc n) s = (l, r) \<Longrightarrow> s \<noteq> [] \<Longrightarrow> l \<noteq> []"
  by (cases s) (auto split: if_splits prod.splits)

lemma getLine_None [simp]: "getLine inp = None \<longleftrightarrow> inp = []"
  by (simp add: getLine_def split: prod.splits)

lemma getLine_Nil [simp]: "getLine [] = None"
  by simp

lemma getLine_consumes: "getLine inp = Some (line, rest) \<Longrightarrow> length rest < length inp"
  using fgets_append fgets_nonempty
  by (fastforce simp: getLine_def MAXLEN_def numeral_eq_Suc split: if_splits prod.splits)

lemma getLine_length: "getLine inp = Some (line, rest) \<Longrightarrow> length line < MAXLEN"
proof -
  assume a: "getLine inp = Some (line, rest)"
  then obtain l where l: "fgets (MAXLEN - 1) inp = (l, rest)" "line = takeWhile (\<lambda>c. c \<noteq> NUL) l"
    by (auto simp: getLine_def split: if_splits prod.splits)
  have "length line \<le> length l" by (simp add: l(2) length_takeWhile_le)
  then show ?thesis using fgets_length [OF l(1)] by (simp add: MAXLEN_def)
qed

text \<open>A line of fewer than \<^const>\<open>MAXLEN\<close> bytes, with its newline, is read whole.\<close>

lemma fgets_line: "length l < n \<Longrightarrow> NL \<notin> set l \<Longrightarrow> fgets n (l @ NL # r) = (l @ [NL], r)"
proof (induction l arbitrary: n)
  case Nil
  then show ?case by (cases n) auto
next
  case (Cons c l)
  then show ?case by (cases n) auto
qed

definition text_line :: "string \<Rightarrow> bool" where
  "text_line l \<longleftrightarrow> length l < MAXLEN - 1 \<and> NL \<notin> set l \<and> NUL \<notin> set l"

lemma getLine_line: "text_line l \<Longrightarrow> getLine (l @ NL # r) = Some (l @ [NL], r)"
proof -
  assume l: "text_line l"
  have "takeWhile (\<lambda>c. c \<noteq> NUL) (l @ [NL]) = l @ [NL]"
    using l by (subst takeWhile_eq_all_conv) (auto simp: text_line_def)
  then show ?thesis using l fgets_line [of l "MAXLEN - 1" r] by (simp add: getLine_def text_line_def)
qed

section \<open>Facts about tokens\<close>

lemma tokens_Nil [simp]: "tokens [] d = []"
  by (simp add: tokens.simps)

lemma tokens_props: "t \<in> set (tokens s d) \<Longrightarrow> t \<noteq> [] \<and> set t \<inter> set d = {} \<and> length t \<le> length s"
proof (induction s d rule: tokens.induct)
  case (1 s d)
  show ?case
  proof (cases "strtok s d")
    case (Pair p r)
    show ?thesis
    proof (cases p)
      case None
      with Pair "1.prems" show ?thesis by (simp add: tokens.simps [of s d])
    next
      case (Some u)
      with Pair have u: "strtok s d = (Some u, r)" by simp
      from "1.prems" u consider "t = u" | "t \<in> set (tokens r d)"
        by (auto simp: tokens.simps [of s d])
      then show ?thesis
      proof cases
        case 1
        with strtok_Some [OF u] show ?thesis by simp
      next
        case 2
        with "1.IH" u strtok_Some(4) [OF u] show ?thesis by fastforce
      qed
    qed
  qed
qed

lemma tokens_word:
  assumes "w \<noteq> []" "set w \<inter> set d = {}" "c \<in> set d"
  shows "tokens (w @ c # r) d = w # tokens r d" and "tokens w d = [w]"
  using strtok_word(1) [OF assms, of r] strtok_word(2) [OF assms] by (simp_all add: tokens.simps [of "w @ c # r"] tokens.simps [of w])

lemma tokens_skip: "c \<in> set d \<Longrightarrow> tokens (c # r) d = tokens r d"
  by (simp add: tokens.simps [of "c # r"] tokens.simps [of r] strtok_def)


section \<open>Facts about replacing\<close>

lemma skip_quoted_closed: "QUOTE \<notin> set q \<Longrightarrow> skip_quoted (a @ q @ QUOTE # b) (length a) = Inr (length a + length q + 1)"
proof (induction q arbitrary: a)
  case (Cons c q)
  have "skip_quoted ((a @ [c]) @ q @ QUOTE # b) (length (a @ [c])) = Inr (length (a @ [c]) + length q + 1)"
    using Cons.IH [of "a @ [c]"] Cons.prems by simp
  then show ?case using Cons.prems by (subst skip_quoted.simps) (auto simp: nth_append)
qed (subst skip_quoted.simps, simp)

lemma skip_quoted_open: "QUOTE \<notin> set q \<Longrightarrow> skip_quoted (a @ q) (length a) = Inl Undefined"
proof (induction q arbitrary: a)
  case (Cons c q)
  have "skip_quoted ((a @ [c]) @ q) (length (a @ [c])) = Inl Undefined"
    using Cons.IH [of "a @ [c]"] Cons.prems by simp
  then show ?case using Cons.prems by (subst skip_quoted.simps) (auto simp: nth_append)
qed (subst skip_quoted.simps, simp)

lemma skip_quoted_shift:
  "skip_quoted (p @ s) (length p + j) = obind (skip_quoted s j) (\<lambda>i. Inr (length p + i))"
proof (induction s j rule: skip_quoted.induct)
  case (1 s j)
  then show ?case
    by (simp add: skip_quoted.simps [of s j] skip_quoted.simps [of "p @ s" "length p + j"])
qed

lemma find_key_shift:
  "find_key (p @ s) key (length p + i)
   = obind (find_key s key i) (\<lambda>r. Inr (map_option (\<lambda>j. length p + j) r))"
proof (induction s key i rule: find_key.induct)
  case (1 s key i)
  show ?case
  proof (cases "i < length s")
    case True
    show ?thesis
    proof (cases "if s ! i = QUOTE then skip_quoted s (i + 1) else Inr i")
      case (Inl e)
      with True skip_quoted_shift [of p s "Suc i"] show ?thesis
        by (simp add: find_key.simps [of s key i] find_key.simps [of "p @ s" key "length p + i"] split: if_splits)
    next
      case (Inr i')
      have "(if (p @ s) ! (length p + i) = QUOTE then skip_quoted (p @ s) (length p + i + 1) else Inr (length p + i))
          = Inr (length p + i')"
        using Inr skip_quoted_shift [of p s "Suc i"] by (auto split: if_splits)
      with "1.IH" [OF True Inr] True Inr show ?thesis
        by (simp add: find_key.simps [of s key i] find_key.simps [of "p @ s" key "length p + i"])
    qed
  qed (simp add: find_key.simps)
qed

text \<open>Positions where neither a quote nor the key begins are passed over.\<close>

definition occurs :: "string \<Rightarrow> string \<Rightarrow> bool" where
  "occurs key s \<longleftrightarrow> (\<exists>a b. s = a @ key @ b)"

lemma starts_with_drop_occurs: "starts_with key (drop j s) \<Longrightarrow> occurs key s"
  unfolding occurs_def by (metis append_take_drop_id starts_withE)

lemma find_key_skip:
  assumes "\<And>j. i \<le> j \<Longrightarrow> j < k \<Longrightarrow> line ! j \<noteq> QUOTE \<and> \<not> starts_with key (drop j line)"
    and "i \<le> k" "k \<le> length line"
  shows "find_key line key i = find_key line key k"
  using assms
proof (induction "k - i" arbitrary: i)
  case (Suc n)
  then have "i < k" by simp
  with Suc.prems have "find_key line key i = find_key line key (i + 1)"
    by (subst find_key.simps) auto
  also have "\<dots> = find_key line key k" using Suc \<open>i < k\<close> by (intro Suc.hyps(1)) auto
  finally show ?case .
qed simp

lemma occurs_prefix:
  assumes "starts_with key (drop j (a @ QUOTE # s))" "j \<le> length a" "QUOTE \<notin> set key"
  shows "occurs key a"
proof (cases "j + length key \<le> length a")
  case True
  with assms(1,2) have "starts_with key (drop j a)"
    by (simp add: starts_with_def)
  then show ?thesis by (rule starts_with_drop_occurs)
next
  case False
  with assms(1,2) have "key = drop j a @ take (length key - (length a - j)) (QUOTE # s)"
    by (simp add: starts_with_def)
  moreover have "QUOTE \<in> set (take (length key - (length a - j)) (QUOTE # s))"
    using False assms(2) by (cases "length key - (length a - j)") auto
  ultimately have "QUOTE \<in> set key" by (metis Un_iff set_append)
  with assms(3) show ?thesis by simp
qed

lemma find_key_to_quote:
  assumes "QUOTE \<notin> set a" "QUOTE \<notin> set key" "\<not> occurs key a"
  shows "find_key (a @ QUOTE # s) key 0 = find_key (a @ QUOTE # s) key (length a)"
proof (rule find_key_skip)
  fix j assume j: "j < length a"
  then have "a ! j \<noteq> QUOTE" using assms(1) by (metis nth_mem)
  then show "(a @ QUOTE # s) ! j \<noteq> QUOTE \<and> \<not> starts_with key (drop j (a @ QUOTE # s))"
    using occurs_prefix [of key j a s] assms j by (auto simp: nth_append)
qed simp_all

lemma find_key_none: "QUOTE \<notin> set line \<Longrightarrow> \<not> occurs key line \<Longrightarrow> find_key line key 0 = Inr None"
proof -
  assume a: "QUOTE \<notin> set line" "\<not> occurs key line"
  have "find_key line key 0 = find_key line key (length line)"
    by (rule find_key_skip) (use a starts_with_drop_occurs nth_mem in fastforce)+
  then show ?thesis by (simp add: find_key.simps)
qed

lemma find_key_first:
  assumes "QUOTE \<notin> set line" "line = a @ key @ b" "key \<noteq> []"
    and "\<And>j. j < length a \<Longrightarrow> \<not> starts_with key (drop j line)"
  shows "find_key line key 0 = Inr (Some (length a))"
proof -
  have "line ! j \<noteq> QUOTE" if "j < length a" for j
    using assms(1,2) that nth_mem [of j line] by auto
  then have "find_key line key 0 = find_key line key (length a)"
    by (intro find_key_skip) (use assms(2,4) in auto)
  moreover have "line ! length a \<noteq> QUOTE" "length a < length line"
    using assms(1-3) by (auto simp: nth_append neq_Nil_conv)
  ultimately show ?thesis using assms(2) by (subst (asm) (2) find_key.simps) simp
qed


lemma find_key_enter:
  assumes "key \<noteq> []" "b = [] \<or> hd b \<noteq> QUOTE"
  shows "find_key (p @ b) key (length p)
    = (if starts_with key b then Inr (Some (length p)) else find_key (p @ b) key (length p + 1))"
proof (cases b)
  case Nil
  then show ?thesis
    using assms(1) find_key.simps [of "p @ b" key "length p"] find_key.simps [of "p @ b" key "length p + 1"]
    by (auto simp: starts_with_def)
next
  case (Cons c b')
  then show ?thesis using assms(2) by (subst find_key.simps) simp
qed

lemma find_key_past_literal:
  assumes "QUOTE \<notin> set a" "QUOTE \<notin> set q" "QUOTE \<notin> set key" "key \<noteq> []" "\<not> occurs key a"
    and "b = [] \<or> hd b \<noteq> QUOTE"
  shows "find_key (a @ QUOTE # q @ QUOTE # b) key 0
    = obind (find_key b key 0) (\<lambda>r. Inr (map_option (\<lambda>j. length a + length q + 2 + j) r))"
proof -
  let ?p = "a @ QUOTE # q @ [QUOTE]"
  have p: "a @ QUOTE # q @ QUOTE # b = ?p @ b" and l: "length ?p = length a + length q + 2" by simp_all
  have s: "skip_quoted (?p @ b) (length a + 1) = Inr (length ?p)"
    using skip_quoted_closed [OF assms(2), of "a @ [QUOTE]" b] by simp
  have "find_key (?p @ b) key 0 = find_key (?p @ b) key (length a)"
    using find_key_to_quote [OF assms(1,3,5), of "q @ QUOTE # b"] by simp
  also have "\<dots> = (if starts_with key b then Inr (Some (length ?p)) else find_key (?p @ b) key (length ?p + 1))"
    using s by (subst find_key.simps) (simp add: nth_append)
  also have "\<dots> = find_key (?p @ b) key (length ?p + 0)"
    using find_key_enter [OF assms(4,6), of ?p] by simp
  also have "\<dots> = obind (find_key b key 0) (\<lambda>r. Inr (map_option (\<lambda>j. length ?p + j) r))"
    by (rule find_key_shift)
  finally show ?thesis by (simp only: l p [symmetric])
qed

section \<open>Properties\<close>

text \<open>On a line without quotes \<^verbatim>\<open>replace\<close> substitutes the value for the first textual
  occurrence of the key (whether or not it is a token) and leaves a line without one alone.\<close>

theorem replace_first_occurrence:
  assumes "QUOTE \<notin> set line" and "key \<noteq> []"
  shows "(\<not> occurs key line \<longrightarrow> replace line key value = Inr line)
    \<and> (\<forall>a b. line = a @ key @ b \<and> (\<forall>j < length a. \<not> starts_with key (drop j line))
         \<longrightarrow> replace line key value = Inr (a @ value @ b))"
  using find_key_none [OF assms(1)] find_key_first [OF assms(1) _ assms(2)]
  by (auto simp: replace_def)

theorem replace_first_occurrence_witness:
  "replace ''int MAX = N;'' ''A'' ''7'' = Inr ''int M7X = N;''"
proof -
  have h: "\<forall>j < length ''int M''. \<not> starts_with ''A'' (drop j ''int MAX = N;'')"
    by (simp add: starts_with_def All_less_Suc numeral_eq_Suc)
  have q: "QUOTE \<notin> set ''int MAX = N;''" by simp
  have "replace ''int MAX = N;'' ''A'' ''7'' = Inr (''int M'' @ ''7'' @ ''X = N;'')"
    by (rule replace_first_occurrence [OF q, THEN conjunct2, rule_format]) (simp, intro conjI h, simp)
  then show ?thesis by simp
qed

text \<open>A string literal that comes before every occurrence is copied unchanged: the search
  goes on in the text after the closing quote.\<close>

theorem replace_keeps_literal:
  assumes "QUOTE \<notin> set a" "QUOTE \<notin> set q" "QUOTE \<notin> set key" "key \<noteq> []" "\<not> occurs key a"
    and "b = [] \<or> hd b \<noteq> QUOTE"
  shows "replace (a @ QUOTE # q @ QUOTE # b) key value
    = obind (replace b key value) (\<lambda>b'. Inr (a @ QUOTE # q @ QUOTE # b'))"
proof (cases "find_key b key 0")
  case (Inl e)
  then show ?thesis using find_key_past_literal [OF assms] by (simp add: replace_def)
next
  case (Inr r)
  then show ?thesis
    using find_key_past_literal [OF assms] by (cases r) (simp_all add: replace_def)
qed

theorem replace_keeps_literal_witness:
  "replace ([QUOTE] @ ''N'' @ QUOTE # '' N'') ''N'' ''1'' = Inr ([QUOTE] @ ''N'' @ QUOTE # '' 1'')"
proof -
  have "replace '' N'' ''N'' ''1'' = Inr '' 1''" by code_simp
  moreover have "\<not> occurs ''N'' []" by (simp add: occurs_def)
  ultimately show ?thesis
    using replace_keeps_literal [of "[]" "''N''" "''N''" "'' N''" "''1''"] by simp
qed

text \<open>A line whose quote is not closed (before any occurrence of the key) is read past its
  end.\<close>

theorem replace_unclosed_literal:
  assumes "QUOTE \<notin> set a" "QUOTE \<notin> set q" "QUOTE \<notin> set key" "\<not> occurs key a"
  shows "replace (a @ QUOTE # q) key value = Inl Undefined"
proof -
  have "find_key (a @ QUOTE # q) key (length a) = Inl Undefined"
    using skip_quoted_open [OF assms(2), of "a @ [QUOTE]"]
    by (subst find_key.simps) (simp add: nth_append)
  then show ?thesis
    using find_key_to_quote [OF assms(1,3,4), of q] by (simp add: replace_def)
qed

theorem replace_unclosed_literal_witness:
  "replace (QUOTE # ''it'') ''N'' ''1'' = Inl Undefined"
  using replace_unclosed_literal [of "[]" "''it''" "''N''" "''1''"] by (simp add: occurs_def)

text \<open>\<^verbatim>\<open>getLine\<close> loses nothing of a text file: the line and what is left make up the
  input, a line has at most 255 bytes and no newline but its last byte, and it is cut short
  only by the buffer or by the end of the file.\<close>

theorem getLine_splits:
  assumes "NUL \<notin> set inp" and "getLine inp = Some (line, rest)"
  shows "inp = line @ rest \<and> line \<noteq> [] \<and> length line < MAXLEN \<and> NL \<notin> set (butlast line)
    \<and> (last line = NL \<or> length line = MAXLEN - 1 \<or> rest = [])"
proof -
  obtain l where l: "fgets (MAXLEN - 1) inp = (l, rest)" "line = takeWhile (\<lambda>c. c \<noteq> NUL) l" "inp \<noteq> []"
    using assms(2) by (auto simp: getLine_def split: if_splits prod.splits)
  have app: "inp = l @ rest" by (rule fgets_append [OF l(1)])
  with assms(1) l(2) have line: "line = l" by (auto simp: takeWhile_eq_all_conv)
  have ne: "line \<noteq> []"
    using fgets_nonempty [of 254 inp l rest] l(1,3) line by (simp add: MAXLEN_def)
  have cut: "fgets n s = (x, y) \<Longrightarrow> s \<noteq> [] \<Longrightarrow> 0 < n \<Longrightarrow>
      NL \<notin> set (butlast x) \<and> (last x = NL \<or> length x = n \<or> y = [])" for n s x y
  proof (induction n s arbitrary: x y rule: fgets.induct)
    case (3 n c s)
    then show ?case by (cases n; cases s) (fastforce split: if_splits prod.splits)+
  qed auto
  from cut [OF l(1,3)] app line ne getLine_length [OF assms(2)]
  show ?thesis by (simp add: MAXLEN_def)
qed

theorem getLine_splits_witness: "getLine (''ab'' @ [NL] @ ''c'') = Some (''ab'' @ [NL], ''c'')"
  using getLine_splits [of "''ab'' @ [NL] @ ''c''" "''ab'' @ [NL]" "''c''"]
    getLine_line [of "''ab''" "''c''"] by (simp add: text_line_def MAXLEN_def)

end
