(* ===== verification/Hashmap.thy ===== *)
theory Hashmap
  imports Prelude
begin

text \<open>
  The open-addressing table of \<^verbatim>\<open>assignments/1-multi/hashmap.c\<close>, which keeps the macro
  definitions of the preprocessor.  A slot is \<^const>\<open>None\<close> when its key pointer is null.
  The file holds the operations, the cyclic probe they share, the weak invariant under which
  every operation returns, and the strong one under which the table is a finite map.
\<close>

section \<open>Data\<close>

text \<open>The two counters are of type \<^verbatim>\<open>int\<close> in C; the model leaves out that \<^verbatim>\<open>cnt * 4\<close> or twice the size would overflow in a table of
  half a billion slots.\<close>

type_synonym Elem = "(string \<times> string) option"

record HashMap =
  elem :: "Elem list"
  cnt :: nat
  size_of :: nat

definition createHashMap :: "nat \<Rightarrow> HashMap" where
  "createHashMap n = \<lparr>elem = replicate n None, cnt = 0, size_of = n\<rparr>"

section \<open>Operations\<close>

text \<open>
  The hash is the sum of the bytes of the key in a signed \<^verbatim>\<open>int\<close>: past \<^const>\<open>INT_MAX\<close> the
  addition is undefined, and so is the remainder by a zero size.
\<close>

fun hash_sum :: "int \<Rightarrow> string \<Rightarrow> int" where
  "hash_sum h [] = h"
| "hash_sum h (c # cs) = hash_sum (h + of_char c) cs"

definition hashFunc :: "string \<Rightarrow> nat \<Rightarrow> nat outcome" where
  "hashFunc key n =
     (let h = hash_sum 0 key in
      if INT_MAX < h \<or> n = 0 then Inl Undefined else Inr (nat (h mod int n)))"

text \<open>
  The \<^verbatim>\<open>while (1)\<close> that \<^verbatim>\<open>insert\<close>, \<^verbatim>\<open>get\<close> and \<^verbatim>\<open>deleteKey\<close> share: from the hash
  on, slot by slot and around the end, to the first slot that is empty or holds the key.
  \<^const>\<open>None\<close> is the loop that never ends.
\<close>

partial_function (option) probe :: "Elem list \<Rightarrow> string \<Rightarrow> nat \<Rightarrow> nat option" where
  "probe es key i =
     (case es ! i of
        None \<Rightarrow> Some i
      | Some (k, v) \<Rightarrow> if k = key then Some i else probe es key ((i + 1) mod length es))"

declare probe.simps [code]

definition find_slot :: "HashMap \<Rightarrow> string \<Rightarrow> nat outcome" where
  "find_slot m key =
     obind (hashFunc key (size_of m)) (\<lambda>i.
       case probe (elem m) key i of None \<Rightarrow> Inl Loops | Some j \<Rightarrow> Inr j)"

text \<open>The loop body of \<^verbatim>\<open>insert\<close> once the slot is found: fill it, or replace the value.\<close>

definition store_at :: "HashMap \<Rightarrow> nat \<Rightarrow> string \<Rightarrow> string \<Rightarrow> HashMap" where
  "store_at m j key value =
     (case elem m ! j of
        None \<Rightarrow> m\<lparr>elem := (elem m)[j := Some (key, value)], cnt := cnt m + 1\<rparr>
      | Some (k, v) \<Rightarrow> m\<lparr>elem := (elem m)[j := Some (k, value)]\<rparr>)"

text \<open>The copying loop of a resize, over the slots of the old table.\<close>

primrec copy_elems ::
  "(HashMap \<Rightarrow> string \<Rightarrow> string \<Rightarrow> HashMap outcome) \<Rightarrow> HashMap \<Rightarrow> Elem list \<Rightarrow> HashMap outcome" where
  "copy_elems ins nm [] = Inr nm"
| "copy_elems ins nm (e # es) =
     (case e of
        None \<Rightarrow> copy_elems ins nm es
      | Some (k, v) \<Rightarrow> obind (ins nm k v) (\<lambda>nm'. copy_elems ins nm' es))"

text \<open>
  \<^verbatim>\<open>insert\<close> calls itself on the new table while it copies.  The first argument bounds
  the depth of these calls; depth 2 is enough for every table (\<open>insert_depth\<close> below).
\<close>

primrec insert_d :: "nat \<Rightarrow> HashMap \<Rightarrow> string \<Rightarrow> string \<Rightarrow> HashMap outcome" where
  "insert_d 0 = (\<lambda>m key value. Inl NoFuel)"
| "insert_d (Suc d) = (\<lambda>m key value.
     obind
       (if cnt m * 4 > size_of m * 3
        then copy_elems (insert_d d) (createHashMap (2 * size_of m)) (elem m)
        else Inr m)
       (\<lambda>m'. obind (find_slot m' key) (\<lambda>j. Inr (store_at m' j key value))))"

definition insert_hm :: "HashMap \<Rightarrow> string \<Rightarrow> string \<Rightarrow> HashMap outcome" where
  "insert_hm = insert_d 2"

definition get_hm :: "HashMap \<Rightarrow> string \<Rightarrow> string option outcome" where
  "get_hm m key = obind (find_slot m key) (\<lambda>j. Inr (map_option snd (elem m ! j)))"

text \<open>\<^verbatim>\<open>deleteKey\<close> clears the slot; it neither decrements \<^verbatim>\<open>cnt\<close> nor moves other keys.\<close>

definition deleteKey :: "HashMap \<Rightarrow> string \<Rightarrow> HashMap outcome" where
  "deleteKey m key =
     obind (find_slot m key) (\<lambda>j.
       case elem m ! j of
         None \<Rightarrow> Inr m
       | Some _ \<Rightarrow> Inr (m\<lparr>elem := (elem m)[j := None]\<rparr>))"

text \<open>\<^verbatim>\<open>deleteMap\<close> gives back, in this order, the blocks of every used slot and the array.\<close>

datatype block = KeyOf nat | ValueOf nat | Table

definition deleteMap :: "HashMap \<Rightarrow> block list" where
  "deleteMap m =
     concat (map (\<lambda>i. case elem m ! i of None \<Rightarrow> [] | Some _ \<Rightarrow> [KeyOf i, ValueOf i]) [0..<size_of m])
     @ [Table]"

section \<open>The hash function\<close>

lemma hash_sum_acc: "hash_sum h cs = h + hash_sum 0 cs"
proof (induction cs arbitrary: h)
  case (Cons c cs)
  have "hash_sum h (c # cs) = h + of_char c + hash_sum 0 cs"
    by (subst hash_sum.simps, rule Cons)
  also have "\<dots> = h + hash_sum (0 + of_char c) cs"
    by (subst Cons [of "0 + of_char c"]) simp
  finally show ?case by simp
qed simp

lemma of_char_int_le: "(of_char c :: int) \<le> 255"
  using nat_of_char_less_256 [of c] of_nat_of_char [of c, where ?'a = int] by linarith

lemma hash_sum_bound: "hash_sum 0 cs \<le> 255 * int (length cs)"
proof (induction cs)
  case (Cons c cs)
  have "hash_sum 0 (c # cs) = of_char c + hash_sum 0 cs"
    using hash_sum_acc [of "of_char c" cs] by simp
  also have "\<dots> \<le> 255 + 255 * int (length cs)"
    using Cons of_char_int_le [of c] by linarith
  finally show ?case by simp
qed simp

text \<open>Keys for which the sum cannot overflow.\<close>

definition valid_key :: "string \<Rightarrow> bool" where
  "valid_key k \<longleftrightarrow> hash_sum 0 k \<le> INT_MAX"

lemma valid_key_short: "length k < 8421505 \<Longrightarrow> valid_key k"
  using hash_sum_bound [of k] by (simp add: valid_key_def INT_MAX_def)

definition home :: "nat \<Rightarrow> string \<Rightarrow> nat" where
  "home n k = nat (hash_sum 0 k mod int n)"

lemma hashFunc_valid: "valid_key k \<Longrightarrow> 0 < n \<Longrightarrow> hashFunc k n = Inr (home n k)"
  by (simp add: hashFunc_def valid_key_def home_def Let_def)

lemma home_less [simp]: "0 < n \<Longrightarrow> home n k < n"
  by (simp add: home_def nat_less_iff)

section \<open>The cyclic probe\<close>

definition stops :: "Elem list \<Rightarrow> string \<Rightarrow> nat \<Rightarrow> bool" where
  "stops es key j \<longleftrightarrow> (case es ! j of None \<Rightarrow> True | Some (k, v) \<Rightarrow> k = key)"

lemma probe_step:
  "probe es key i = (if stops es key i then Some i else probe es key ((i + 1) mod length es))"
  by (subst probe.simps) (auto simp: stops_def split: option.splits)

text \<open>The slot \<open>d\<close> steps after \<open>i\<close> on the ring of \<open>n\<close> slots.\<close>

definition ring :: "nat \<Rightarrow> nat \<Rightarrow> nat \<Rightarrow> nat" where
  "ring n i d = (i + d) mod n"

lemma ring_0 [simp]: "i < n \<Longrightarrow> ring n i 0 = i"
  by (simp add: ring_def)

lemma ring_less [simp]: "0 < n \<Longrightarrow> ring n i d < n"
  by (simp add: ring_def)

lemma ring_Suc: "ring n (Suc i mod n) d = ring n i (Suc d)"
  by (simp add: ring_def mod_simps)

text \<open>Every slot is met once in the first \<open>n\<close> steps.\<close>

lemma ring_surj:
  assumes "i < n" "j < n"
  obtains d where "d < n" "ring n i d = j"
proof -
  have "ring n i ((j + n - i) mod n) = j"
    using assms by (simp add: ring_def mod_simps)
  moreover have "(j + n - i) mod n < n" using assms by simp
  ultimately show thesis using that by blast
qed

lemma probe_first:
  assumes "i < length es"
    and "\<And>e. e < d \<Longrightarrow> \<not> stops es key (ring (length es) i e)"
    and "stops es key (ring (length es) i d)"
  shows "probe es key i = Some (ring (length es) i d)"
  using assms
proof (induction d arbitrary: i)
  case 0
  then show ?case by (simp add: probe_step)
next
  case (Suc d)
  let ?n = "length es" and ?i = "Suc i mod length es"
  have n: "0 < ?n" using Suc.prems(1) by auto
  have "\<not> stops es key i" using Suc.prems(1) Suc.prems(2) [of 0] by simp
  then have "probe es key i = probe es key ?i"
    by (subst probe_step) simp
  also have "\<dots> = Some (ring ?n ?i d)"
  proof (rule Suc.IH)
    show "?i < ?n" using n by simp
    show "\<not> stops es key (ring ?n ?i e)" if "e < d" for e
      using Suc.prems(2) [of "Suc e"] that by (simp add: ring_Suc)
    show "stops es key (ring ?n ?i d)" using Suc.prems(3) by (simp add: ring_Suc)
  qed
  finally show ?case by (simp add: ring_Suc)
qed

lemma probe_finds:
  assumes "i < length es" and "j < length es" and "stops es key j"
  obtains d where "d < length es" "probe es key i = Some (ring (length es) i d)"
    and "stops es key (ring (length es) i d)"
    and "\<And>e. e < d \<Longrightarrow> \<not> stops es key (ring (length es) i e)"
proof -
  let ?P = "\<lambda>d. stops es key (ring (length es) i d)"
  obtain d0 where d0: "d0 < length es" "ring (length es) i d0 = j"
    using ring_surj [OF assms(1,2)] by blast
  have P: "?P d0" using assms(3) d0(2) by simp
  define d where "d = (LEAST d. ?P d)"
  have 1: "?P d" unfolding d_def using P by (rule LeastI)
  have 2: "\<not> ?P e" if "e < d" for e using that not_less_Least unfolding d_def by blast
  have 3: "d < length es" using Least_le [of ?P, OF P] d0(1) by (simp add: d_def)
  from probe_first [OF assms(1) 2 1] 1 2 3 show thesis using that by blast
qed

text \<open>A ring without a stopping slot is walked for ever.\<close>

lemma probe_sound:
  assumes "probe es key i = Some j"
  shows "stops es key j"
proof (rule probe.raw_induct [where P = "\<lambda>es key i j. stops es key j", OF _ assms])
  fix f es key i j
  assume IH: "\<And>es key i j. f es key i = Some j \<Longrightarrow> stops es key j"
    and eq: "(case es ! i of None \<Rightarrow> Some i
       | Some (k, v) \<Rightarrow> if k = key then Some i else f es key ((i + 1) mod length es)) = Some j"
  show "stops es key j"
  proof (cases "stops es key i")
    case True
    with eq have "i = j" by (auto simp: stops_def split: option.splits if_splits)
    with True show ?thesis by simp
  next
    case False
    with eq have "f es key ((i + 1) mod length es) = Some j"
      by (auto simp: stops_def split: option.splits if_splits)
    then show ?thesis by (rule IH)
  qed
qed

lemma probe_less:
  assumes "probe es key i = Some j" and "i < length es"
  shows "j < length es"
proof (rule ccontr)
  have "i < length es \<longrightarrow> j < length es"
  proof (rule probe.raw_induct [where P = "\<lambda>es key i j. i < length es \<longrightarrow> j < length es", OF _ assms(1)])
    fix f es key i j
    assume "\<And>es key i j. f es key i = Some j \<Longrightarrow> i < length es \<longrightarrow> j < length es"
      and "(case es ! i of None \<Rightarrow> Some i
         | Some (k, v) \<Rightarrow> if k = key then Some i else f es key ((i + 1) mod length es)) = Some j"
    moreover have "i < length es \<Longrightarrow> (i + 1) mod length es < length es"
      by (cases es) simp_all
    ultimately show "i < length es \<longrightarrow> j < length es"
      by (fastforce split: option.splits if_splits prod.splits)
  qed
  moreover assume "\<not> j < length es"
  ultimately show False using assms(2) by simp
qed


section \<open>The weak invariant: every operation returns\<close>

definition used :: "Elem list \<Rightarrow> nat" where
  "used es = card {j. j < length es \<and> es ! j \<noteq> None}"

definition weak_inv :: "HashMap \<Rightarrow> bool" where
  "weak_inv m \<longleftrightarrow> length (elem m) = size_of m \<and> 5 \<le> size_of m \<and> used (elem m) \<le> cnt m
     \<and> 4 * cnt m \<le> 3 * size_of m + 4 \<and> (\<forall>k v. Some (k, v) \<in> set (elem m) \<longrightarrow> valid_key k)"

lemma used_fill: "j < length es \<Longrightarrow> es ! j = None \<Longrightarrow> used (es[j := Some x]) = Suc (used es)"
proof -
  assume j: "j < length es" "es ! j = None"
  have "{i. i < length (es[j := Some x]) \<and> es[j := Some x] ! i \<noteq> None}
      = insert j {i. i < length es \<and> es ! i \<noteq> None}"
    using j by (auto simp: nth_list_update)
  then show ?thesis using j by (simp add: used_def)
qed

lemma used_replace: "es ! j \<noteq> None \<Longrightarrow> used (es[j := Some x]) = used es"
proof -
  assume j: "es ! j \<noteq> None"
  have "(i < length (es[j := Some x]) \<and> es[j := Some x] ! i \<noteq> None) = (i < length es \<and> es ! i \<noteq> None)" for i
    using j by (cases "i = j") auto
  then show ?thesis by (simp add: used_def)
qed

lemma used_clear: "used (es[j := None]) \<le> used es"
proof -
  have "es[j := None] ! i = None" if "i < length es" "es ! i = None" for i
    using that by (cases "i = j") auto
  then show ?thesis unfolding used_def by (intro card_mono) (auto, metis option.distinct(1) not_None_eq surj_pair)
qed

lemma used_le: "used es \<le> length es"
  unfolding used_def using card_mono [of "{..<length es}" "{j. j < length es \<and> es ! j \<noteq> None}"] by auto

lemma empty_slot:
  assumes "used es < length es"
  obtains j where "j < length es" "es ! j = None"
proof (rule ccontr)
  assume "\<not> thesis"
  then have "{j. j < length es \<and> es ! j \<noteq> None} = {..<length es}" using that by (auto simp del: not_None_eq)
  with assms show False by (simp add: used_def)
qed

lemma weak_inv_free: "weak_inv m \<Longrightarrow> used (elem m) < length (elem m)"
  by (auto simp: weak_inv_def)

lemma find_slot_ok:
  assumes "length (elem m) = size_of m" and "used (elem m) < size_of m" and "valid_key k"
  obtains d where "find_slot m k = Inr (ring (size_of m) (home (size_of m) k) d)"
    and "stops (elem m) k (ring (size_of m) (home (size_of m) k) d)"
    and "\<And>e. e < d \<Longrightarrow> \<not> stops (elem m) k (ring (size_of m) (home (size_of m) k) e)"
    and "probe (elem m) k (home (size_of m) k) = Some (ring (size_of m) (home (size_of m) k) d)"
proof -
  have n: "0 < size_of m" using assms(2) by simp
  obtain j where "j < length (elem m)" "elem m ! j = None"
    using empty_slot [of "elem m"] assms(1,2) by auto
  then have "stops (elem m) k j" by (simp add: stops_def)
  with probe_finds [of "home (size_of m) k" "elem m" j k] assms(1) n \<open>j < length (elem m)\<close>
  obtain d where d: "probe (elem m) k (home (size_of m) k) = Some (ring (size_of m) (home (size_of m) k) d)"
    "stops (elem m) k (ring (size_of m) (home (size_of m) k) d)"
    "\<And>e. e < d \<Longrightarrow> \<not> stops (elem m) k (ring (size_of m) (home (size_of m) k) e)"
    by auto
  have "find_slot m k = Inr (ring (size_of m) (home (size_of m) k) d)"
    using assms(3) n d(1) by (simp add: find_slot_def hashFunc_valid)
  with d show thesis using that by blast
qed

lemma find_slot_weak:
  assumes "weak_inv m" "valid_key k"
  obtains j where "find_slot m k = Inr j" "j < size_of m" "stops (elem m) k j"
    "probe (elem m) k (home (size_of m) k) = Some j"
proof -
  have "length (elem m) = size_of m" "used (elem m) < size_of m" "0 < size_of m"
    using assms(1) weak_inv_free [OF assms(1)] by (auto simp: weak_inv_def)
  then show thesis
    using find_slot_ok [OF _ _ assms(2)] that by (metis ring_less)
qed

lemma store_at_weak:
  assumes "weak_inv m" "valid_key k" "j < size_of m" "stops (elem m) k j" "4 * cnt m \<le> 3 * size_of m"
  shows "weak_inv (store_at m j k v)"
  using assms unfolding weak_inv_def store_at_def
  by (auto simp: used_fill used_replace stops_def split: option.splits
      dest!: set_update_subset_insert [THEN subsetD])

lemma deleteKey_weak:
  assumes "weak_inv m" "valid_key k"
  shows "\<exists>m'. deleteKey m k = Inr m' \<and> weak_inv m' \<and> size_of m' = size_of m \<and> cnt m' = cnt m"
proof -
  obtain j where j: "find_slot m k = Inr j" "j < size_of m"
    using find_slot_weak [OF assms] by blast
  have "weak_inv (m\<lparr>elem := (elem m)[j := None]\<rparr>)"
    using assms(1) used_clear [of "elem m" j] unfolding weak_inv_def
    by (auto dest!: set_update_subset_insert [THEN subsetD])
  with j assms(1) show ?thesis by (auto simp: deleteKey_def split: option.splits)
qed

lemma get_hm_weak:
  assumes "weak_inv m" "valid_key k"
  shows "\<exists>p. get_hm m k = Inr p"
  using find_slot_weak [OF assms] by (metis get_hm_def obind_simps(2))


section \<open>The interface: a store with bounded or unbounded room\<close>

text \<open>
  \<open>fits m n\<close> says that \<open>n\<close> more insertions into \<open>m\<close> obey the contract.  The table without
  its resize is such a store, and so is the whole \<^verbatim>\<open>insert\<close>, for any number of insertions.
\<close>

primrec ins_list :: "('m \<Rightarrow> 'k \<Rightarrow> 'v \<Rightarrow> 'm outcome) \<Rightarrow> 'm \<Rightarrow> ('k \<times> 'v) list \<Rightarrow> 'm outcome" where
  "ins_list ins m [] = Inr m"
| "ins_list ins m (kv # kvs) = obind (ins m (fst kv) (snd kv)) (\<lambda>m'. ins_list ins m' kvs)"

locale bounded_store =
  fixes inv :: "'m \<Rightarrow> bool" and abs :: "'m \<Rightarrow> 'k \<Rightarrow> 'v option" and ok :: "'k \<Rightarrow> bool"
    and fits :: "'m \<Rightarrow> nat \<Rightarrow> bool"
    and ins :: "'m \<Rightarrow> 'k \<Rightarrow> 'v \<Rightarrow> 'm outcome" and get :: "'m \<Rightarrow> 'k \<Rightarrow> 'v option outcome"
  assumes ins_ok: "inv m \<Longrightarrow> ok k \<Longrightarrow> fits m (Suc n) \<Longrightarrow>
      \<exists>m'. ins m k v = Inr m' \<and> inv m' \<and> abs m' = (abs m)(k \<mapsto> v) \<and> fits m' n"
    and get_ok: "inv m \<Longrightarrow> ok k \<Longrightarrow> get m k = Inr (abs m k)"
begin

lemma ins_list_ok:
  assumes "inv m" "\<forall>kv \<in> set kvs. ok (fst kv)" "fits m (length kvs + n)"
  shows "\<exists>m'. ins_list ins m kvs = Inr m' \<and> inv m' \<and> abs m' = abs m ++ map_of (rev kvs) \<and> fits m' n"
  using assms
proof (induction kvs arbitrary: m)
  case (Cons kv kvs)
  obtain k v where kv: "kv = (k, v)" by (cases kv)
  obtain m1 where m1: "ins m k v = Inr m1" "inv m1" "abs m1 = (abs m)(k \<mapsto> v)" "fits m1 (length kvs + n)"
    using ins_ok [of m k "length kvs + n" v] Cons.prems kv by auto
  obtain m2 where "ins_list ins m1 kvs = Inr m2" "inv m2" "abs m2 = abs m1 ++ map_of (rev kvs)" "fits m2 n"
    using Cons.IH [OF m1(2) _ m1(4)] Cons.prems(2) by auto
  with m1 kv show ?case by (auto simp: map_add_def fun_eq_iff split: option.splits)
qed simp

lemma get_after_ins:
  assumes "inv m" "ok k" "ok k'" "fits m (Suc n)"
  shows "obind (ins m k v) (\<lambda>m'. get m' k') = Inr (if k' = k then Some v else abs m k')"
proof -
  obtain m' where "ins m k v = Inr m'" "inv m'" "abs m' = (abs m)(k \<mapsto> v)"
    using ins_ok [OF assms(1,2,4)] by blast
  then show ?thesis using get_ok [OF _ assms(3)] by simp
qed

end

locale store =
  fixes inv :: "'m \<Rightarrow> bool" and abs :: "'m \<Rightarrow> 'k \<Rightarrow> 'v option" and ok :: "'k \<Rightarrow> bool"
    and ins :: "'m \<Rightarrow> 'k \<Rightarrow> 'v \<Rightarrow> 'm outcome" and get :: "'m \<Rightarrow> 'k \<Rightarrow> 'v option outcome"
  assumes ins_any: "inv m \<Longrightarrow> ok k \<Longrightarrow> \<exists>m'. ins m k v = Inr m' \<and> inv m' \<and> abs m' = (abs m)(k \<mapsto> v)"
    and get_any: "inv m \<Longrightarrow> ok k \<Longrightarrow> get m k = Inr (abs m k)"

sublocale store \<subseteq> bounded_store inv abs ok "\<lambda>m n. True" ins get
  by unfold_locales (auto simp: ins_any get_any)

section \<open>The strong invariant: the table is a finite map\<close>

text \<open>
  Every stored key is where its own probe stops.  This holds of tables built by
  \<^verbatim>\<open>insert\<close>; \<^verbatim>\<open>deleteKey\<close> can break it.
\<close>

definition placed :: "HashMap \<Rightarrow> bool" where
  "placed m \<longleftrightarrow> (\<forall>j < length (elem m). \<forall>k v. elem m ! j = Some (k, v) \<longrightarrow>
     probe (elem m) k (home (size_of m) k) = Some j)"

definition hm_inv :: "HashMap \<Rightarrow> bool" where
  "hm_inv m \<longleftrightarrow> weak_inv m \<and> placed m"

definition entries :: "Elem list \<Rightarrow> (string \<times> string) list" where
  "entries es = List.map_filter (\<lambda>e. e) es"

definition hm_map :: "HashMap \<Rightarrow> string \<Rightarrow> string option" where
  "hm_map m = map_of (entries (elem m))"

lemma set_entries [simp]: "(k, v) \<in> set (entries es) \<longleftrightarrow> Some (k, v) \<in> set es"
  by (force simp: entries_def map_filter_def)

lemma hm_map_stored: "hm_map m k = Some v \<Longrightarrow> Some (k, v) \<in> set (elem m)"
  using map_of_SomeD [of "entries (elem m)" k v] by (simp add: hm_map_def)

lemma placed_unique:
  assumes "placed m" "i < length (elem m)" "j < length (elem m)"
    and "elem m ! i = Some (k, v)" "elem m ! j = Some (k, w)"
  shows "i = j"
  using assms unfolding placed_def by (metis option.inject)

lemma hm_map_iff:
  assumes "placed m"
  shows "hm_map m k = Some v \<longleftrightarrow> Some (k, v) \<in> set (elem m)"
proof
  assume v: "Some (k, v) \<in> set (elem m)"
  then have "(k, v) \<in> set (entries (elem m))" by simp
  then obtain w where w: "hm_map m k = Some w"
    unfolding hm_map_def by (metis weak_map_of_SomeI)
  from v hm_map_stored [OF w] have "v = w"
    by (auto simp: in_set_conv_nth) (metis assms option.inject placed_unique prod.inject)
  with w show "hm_map m k = Some v" by simp
qed (rule hm_map_stored)

lemma hm_map_eqI:
  assumes "placed m" "\<And>k v. Some (k, v) \<in> set (elem m) \<longleftrightarrow> f k = Some v"
  shows "hm_map m = f"
proof
  fix k
  show "hm_map m k = f k"
    using hm_map_iff [OF assms(1)] assms(2) by (metis not_Some_eq)
qed

lemma get_hm_correct:
  assumes "hm_inv m" "valid_key k"
  shows "get_hm m k = Inr (hm_map m k)"
proof -
  have m: "weak_inv m" "placed m" using assms(1) by (auto simp: hm_inv_def)
  obtain j where j: "find_slot m k = Inr j" "j < size_of m" "stops (elem m) k j"
    "probe (elem m) k (home (size_of m) k) = Some j"
    using find_slot_weak [OF m(1) assms(2)] by blast
  have len: "length (elem m) = size_of m" using m(1) by (simp add: weak_inv_def)
  have "map_option snd (elem m ! j) = hm_map m k"
  proof (cases "elem m ! j")
    case None
    have "hm_map m k \<noteq> Some v" for v
    proof
      assume "hm_map m k = Some v"
      then obtain i where "i < length (elem m)" "elem m ! i = Some (k, v)"
        using hm_map_stored by (metis in_set_conv_nth)
      with m(2) j(4) None show False by (auto simp: placed_def)
    qed
    with None show ?thesis by (cases "hm_map m k") auto
  next
    case (Some kv)
    with j(3) obtain v where v: "elem m ! j = Some (k, v)" by (cases kv) (auto simp: stops_def)
    then have "Some (k, v) \<in> set (elem m)" using j(2) len by (metis nth_mem)
    then have "hm_map m k = Some v" using hm_map_iff [OF m(2)] by simp
    with v show ?thesis by simp
  qed
  with j(1) show ?thesis by (simp add: get_hm_def)
qed


lemma probe_transfer:
  assumes "probe es k i = Some j" "i < length es" "length es' = length es"
    and "\<And>x. x < length es \<Longrightarrow> es ! x \<noteq> None \<Longrightarrow> \<not> stops es k x \<Longrightarrow> \<not> stops es' k x"
    and "stops es' k j"
  shows "probe es' k i = Some j"
proof -
  let ?n = "length es"
  obtain d where d: "j = ring ?n i d" "\<And>e. e < d \<Longrightarrow> \<not> stops es k (ring ?n i e)"
    using probe_finds [OF assms(2) probe_less [OF assms(1,2)] probe_sound [OF assms(1)]] assms(1)
    by (metis option.inject)
  have n: "0 < ?n" using assms(2) by auto
  have "\<not> stops es' k (ring ?n i e)" if "e < d" for e
  proof -
    have "es ! ring ?n i e \<noteq> None" using d(2) [OF that] by (auto simp: stops_def split: option.splits)
    then show ?thesis using assms(4) [OF ring_less [OF n]] d(2) [OF that] by blast
  qed
  then show ?thesis
    using probe_first [of i es' d k] assms(2,3,5) d(1) by simp
qed

lemma store_at_fields [simp]:
  "size_of (store_at m j k v) = size_of m"
  "length (elem (store_at m j k v)) = length (elem m)"
  "cnt (store_at m j k v) \<le> Suc (cnt m)"
  by (auto simp: store_at_def split: option.splits)

lemma elem_store_at:
  "stops (elem m) k j \<Longrightarrow> elem (store_at m j k v) = (elem m)[j := Some (k, v)]"
  by (auto simp: store_at_def stops_def split: option.splits)

lemma store_at_placed:
  assumes m: "hm_inv m" and k: "valid_key k"
    and j: "j < size_of m" "probe (elem m) k (home (size_of m) k) = Some j"
  shows "placed (store_at m j k v)" and "hm_map (store_at m j k v) = (hm_map m)(k \<mapsto> v)"
proof -
  let ?es = "elem m" and ?es' = "(elem m)[j := Some (k, v)]" and ?n = "size_of m"
  have pl: "placed m" and len: "length ?es = ?n" and n: "0 < ?n"
    using m by (auto simp: hm_inv_def weak_inv_def)
  have st: "stops ?es k j" by (rule probe_sound [OF j(2)])
  have mono: "\<not> stops ?es' k' x" if "x < length ?es" "?es ! x \<noteq> None" "\<not> stops ?es k' x" for k' x
    using that st j(1) len by (cases "x = j") (auto simp: stops_def split: option.splits)
  have main: "probe ?es' k' (home ?n k') = Some i"
    if "probe ?es k' (home ?n k') = Some i" "stops ?es' k' i" for k' i
    using probe_transfer [OF that(1) _ _ mono that(2)] len n by simp
  have probe_k: "probe ?es' k (home ?n k) = Some j"
    using main [OF j(2)] j(1) len by (simp add: stops_def)
  show pl': "placed (store_at m j k v)"
    unfolding placed_def elem_store_at [OF st] store_at_fields
  proof (intro allI impI)
    fix i k' v' assume i: "i < length ?es'" "?es' ! i = Some (k', v')"
    show "probe ?es' k' (home ?n k') = Some i"
    proof (cases "i = j")
      case True
      with i probe_k show ?thesis by simp
    next
      case False
      with i pl have "probe ?es k' (home ?n k') = Some i" by (auto simp: placed_def)
      then show ?thesis using main i(2) by (simp add: stops_def)
    qed
  qed
  show "hm_map (store_at m j k v) = (hm_map m)(k \<mapsto> v)"
  proof (rule hm_map_eqI [OF pl'])
    fix k' v'
    have "Some (k', v') \<in> set ?es' \<longleftrightarrow> (if k' = k then v' = v else Some (k', v') \<in> set ?es)"
    proof (cases "k' = k")
      case True
      have "i = j" if "i < length ?es'" "?es' ! i = Some (k, v')" for i
        using that pl j(2) by (cases "i = j") (auto simp: placed_def)
      then show ?thesis
        using True j(1) len by (auto simp: in_set_conv_nth) (metis nth_list_update_eq option.inject prod.inject)
    next
      case False
      have "?es' ! i = Some (k', v') \<longleftrightarrow> ?es ! i = Some (k', v')" if "i < ?n" for i
        using that False st len by (cases "i = j") (auto simp: stops_def split: option.splits)
      then show ?thesis using False len by (auto simp: in_set_conv_nth)
    qed
    then show "Some (k', v') \<in> set (elem (store_at m j k v)) \<longleftrightarrow> ((hm_map m)(k \<mapsto> v)) k' = Some v'"
      using hm_map_iff [OF pl] by (auto simp: elem_store_at [OF st])
  qed
qed

section \<open>Insertion\<close>

text \<open>The number of insertions that still need no resize.\<close>

definition fits_hm :: "HashMap \<Rightarrow> nat \<Rightarrow> bool" where
  "fits_hm m n \<longleftrightarrow> 4 * (cnt m + n) \<le> 3 * size_of m + 4"

lemma insert_no_resize:
  "cnt m * 4 \<le> size_of m * 3 \<Longrightarrow>
   insert_d (Suc d) m k v = obind (find_slot m k) (\<lambda>j. Inr (store_at m j k v))"
  by (simp add: insert_d.simps(2))

declare insert_d.simps(2) [simp del]

lemma insert_small:
  assumes "hm_inv m" "valid_key k" "cnt m * 4 \<le> size_of m * 3"
  shows "\<exists>m'. insert_d (Suc d) m k v = Inr m' \<and> hm_inv m' \<and> hm_map m' = (hm_map m)(k \<mapsto> v)
     \<and> cnt m' \<le> Suc (cnt m) \<and> size_of m' = size_of m"
proof -
  have w: "weak_inv m" using assms(1) by (simp add: hm_inv_def)
  obtain j where j: "find_slot m k = Inr j" "j < size_of m" "stops (elem m) k j"
    "probe (elem m) k (home (size_of m) k) = Some j"
    using find_slot_weak [OF w assms(2)] by blast
  have "weak_inv (store_at m j k v)"
    using store_at_weak [OF w assms(2) j(2,3)] assms(3) by simp
  then show ?thesis
    using store_at_placed [OF assms(1,2) j(2,4)] j(1) insert_no_resize [OF assms(3)]
    by (simp add: hm_inv_def)
qed

interpretation raw: bounded_store hm_inv hm_map valid_key fits_hm "insert_d (Suc d)" get_hm
proof
  fix m k n v
  assume "hm_inv m" "valid_key k" "fits_hm m (Suc n)"
  then show "\<exists>m'. insert_d (Suc d) m k v = Inr m' \<and> hm_inv m' \<and> hm_map m' = (hm_map m)(k \<mapsto> v) \<and> fits_hm m' n"
    using insert_small [of m k d v] by (fastforce simp: fits_hm_def)
qed (rule get_hm_correct)


lemma createHashMap_inv:
  "5 \<le> n \<Longrightarrow> hm_inv (createHashMap n)" "hm_map (createHashMap n) = Map.empty"
proof -
  have "entries (replicate n None) = []" for n
    by (induction n) (auto simp: entries_def map_filter_def)
  then show "hm_map (createHashMap n) = Map.empty" by (simp add: hm_map_def createHashMap_def)
qed (auto simp: hm_inv_def weak_inv_def placed_def createHashMap_def used_def)

lemma copy_elems_entries: "copy_elems ins nm es = ins_list ins nm (entries es)"
proof (induction es arbitrary: nm)
  case (Cons e es)
  then show ?case by (auto simp: entries_def map_filter_def split: option.splits)
qed (simp add: entries_def map_filter_def)

lemma length_entries: "length (entries es) = used es"
proof -
  have "length (entries es) = length (filter (\<lambda>e. e \<noteq> None) es)"
    by (induction es) (auto simp: entries_def map_filter_def)
  then show ?thesis by (simp add: used_def length_filter_conv_card)
qed

lemma rehash_ok:
  assumes "weak_inv m"
  shows "\<exists>m'. copy_elems (insert_d (Suc d)) (createHashMap (2 * size_of m)) (elem m) = Inr m' \<and> hm_inv m'
    \<and> hm_map m' = map_of (rev (entries (elem m))) \<and> cnt m' * 4 \<le> size_of m' * 3"
proof -
  let ?new = "createHashMap (2 * size_of m)"
  have w: "5 \<le> size_of m" "used (elem m) \<le> size_of m"
    using assms used_le [of "elem m"] by (auto simp: weak_inv_def)
  have keys: "\<forall>kv \<in> set (entries (elem m)). valid_key (fst kv)"
    using assms unfolding weak_inv_def by (metis prod.collapse set_entries)
  from w have "fits_hm ?new (length (entries (elem m)) + 1)"
    by (simp add: fits_hm_def createHashMap_def length_entries)
  from raw.ins_list_ok [where d = d, OF createHashMap_inv(1) keys this] w(1)
  show ?thesis by (auto simp: copy_elems_entries createHashMap_inv(2) fits_hm_def)
qed

lemma placed_rev_entries: "placed m \<Longrightarrow> map_of (rev (entries (elem m))) = hm_map m"
proof -
  assume pl: "placed m"
  show ?thesis
  proof (rule hm_map_eqI [OF pl, symmetric])
    fix k v
    show "Some (k, v) \<in> set (elem m) \<longleftrightarrow> map_of (rev (entries (elem m))) k = Some v"
    proof
      assume a: "Some (k, v) \<in> set (elem m)"
      then obtain w where w: "map_of (rev (entries (elem m))) k = Some w"
        by (metis set_entries set_rev weak_map_of_SomeI)
      then have "Some (k, w) \<in> set (elem m)" using map_of_SomeD by fastforce
      with a have "v = w" using hm_map_iff [OF pl] by (metis option.inject)
      with w show "map_of (rev (entries (elem m))) k = Some v" by simp
    qed (use map_of_SomeD in fastforce)
  qed
qed

text \<open>The whole \<^verbatim>\<open>insert\<close>, resize included, from any table that satisfies the weak invariant.\<close>

lemma insert_weak:
  assumes "weak_inv m" "valid_key k"
  shows "\<exists>m'. insert_d (Suc (Suc d)) m k v = Inr m' \<and> weak_inv m'"
proof (cases "cnt m * 4 > size_of m * 3")
  case True
  obtain m1 where m1: "copy_elems (insert_d (Suc d)) (createHashMap (2 * size_of m)) (elem m) = Inr m1"
    "hm_inv m1" "cnt m1 * 4 \<le> size_of m1 * 3"
    using rehash_ok [OF assms(1)] by blast
  then obtain m2 where "insert_d (Suc (Suc d)) m1 k v = Inr m2" "hm_inv m2"
    using insert_small [OF m1(2) assms(2) m1(3)] by blast
  with True m1 show ?thesis
    by (auto simp: hm_inv_def insert_d.simps(2) [of "Suc d"] insert_no_resize)
next
  case False
  obtain j where j: "find_slot m k = Inr j" "j < size_of m" "stops (elem m) k j"
    using find_slot_weak [OF assms] by blast
  with False store_at_weak [OF assms j(2,3)] show ?thesis by (simp add: insert_no_resize)
qed

lemma insert_strong:
  assumes "hm_inv m" "valid_key k"
  shows "\<exists>m'. insert_d (Suc (Suc d)) m k v = Inr m' \<and> hm_inv m' \<and> hm_map m' = (hm_map m)(k \<mapsto> v)"
proof (cases "cnt m * 4 > size_of m * 3")
  case True
  have m: "weak_inv m" "placed m" using assms(1) by (auto simp: hm_inv_def)
  obtain m1 where m1: "copy_elems (insert_d (Suc d)) (createHashMap (2 * size_of m)) (elem m) = Inr m1"
    "hm_inv m1" "hm_map m1 = hm_map m" "cnt m1 * 4 \<le> size_of m1 * 3"
    using rehash_ok [OF m(1)] placed_rev_entries [OF m(2)] by auto
  then obtain m2 where "insert_d (Suc (Suc d)) m1 k v = Inr m2" "hm_inv m2" "hm_map m2 = (hm_map m1)(k \<mapsto> v)"
    using insert_small [OF m1(2) assms(2) m1(4)] by blast
  with True m1 show ?thesis by (auto simp: insert_d.simps(2) [of "Suc d"] insert_no_resize)
next
  case False
  then show ?thesis using insert_small [OF assms, of "Suc d"] by fastforce
qed

interpretation hm: store hm_inv hm_map valid_key insert_hm get_hm
  using insert_strong [of _ _ 0] get_hm_correct
  by unfold_locales (auto simp: insert_hm_def numeral_2_eq_2)


text \<open>The depth bound of the recursion is not felt: any depth from 2 on gives the same table.\<close>

lemma cnt_store_at: "find_slot m k = Inr j \<Longrightarrow> cnt (store_at m j k v) \<le> Suc (cnt m)"
  by simp

lemma copy_depth:
  assumes "4 * (cnt nm + length kvs) \<le> 3 * size_of nm + 4"
  shows "ins_list (insert_d (Suc d)) nm kvs = ins_list (insert_d (Suc 0)) nm kvs"
  using assms
proof (induction kvs arbitrary: nm)
  case (Cons kv kvs)
  have small: "cnt nm * 4 \<le> size_of nm * 3" using Cons.prems by simp
  show ?case
  proof (cases "find_slot nm (fst kv)")
    case (Inl e)
    then show ?thesis by (simp add: insert_no_resize [OF small])
  next
    case (Inr j)
    have c: "cnt (store_at nm j (fst kv) (snd kv)) \<le> Suc (cnt nm)" by simp
    have "4 * (cnt (store_at nm j (fst kv) (snd kv)) + length kvs) \<le> 3 * size_of nm + 4"
      using Cons.prems c by (simp del: store_at_fields(3))
    then show ?thesis
      using Cons.IH Inr by (simp add: insert_no_resize [OF small])
  qed
qed simp

lemma insert_depth:
  assumes "length (elem m) = size_of m"
  shows "insert_d (Suc (Suc d)) m k v = insert_hm m k v"
proof -
  have "copy_elems (insert_d (Suc d)) (createHashMap (2 * size_of m)) (elem m)
      = copy_elems (insert_d (Suc 0)) (createHashMap (2 * size_of m)) (elem m)"
    unfolding copy_elems_entries
    by (rule copy_depth) (use used_le [of "elem m"] assms in \<open>simp add: length_entries createHashMap_def\<close>)
  then show ?thesis by (simp add: insert_hm_def numeral_2_eq_2 insert_d.simps(2))
qed

section \<open>Deletion\<close>

text \<open>
  A deletion is exact when the slot after the deleted one is empty: no probe continues
  through the hole.
\<close>

definition next_free :: "HashMap \<Rightarrow> string \<Rightarrow> bool" where
  "next_free m k \<longleftrightarrow> (case find_slot m k of Inl _ \<Rightarrow> False
     | Inr j \<Rightarrow> elem m ! ((j + 1) mod size_of m) = None)"

lemma probe_past_hole:
  assumes p: "probe es k i = Some x" and i: "i < length es" and x: "es ! x = Some (k, v)" "x \<noteq> j"
    and gap: "es ! (Suc j mod length es) = None"
  shows "probe (es[j := None]) k i = Some x"
proof -
  let ?n = "length es"
  obtain d where d: "x = ring ?n i d" "\<And>e. e < d \<Longrightarrow> \<not> stops es k (ring ?n i e)"
    using probe_finds [OF i probe_less [OF p i] probe_sound [OF p]] p by (metis option.inject)
  have nj: "j \<noteq> ring ?n i e" if e: "e < d" for e
  proof
    assume "j = ring ?n i e"
    then have s: "es ! ring ?n i (Suc e) = None"
      using gap by (metis add_Suc_right mod_Suc_eq ring_def)
    show False
    proof (cases "Suc e = d")
      case True
      with s d(1) x(1) show False by simp
    next
      case False
      with e d(2) [of "Suc e"] s show False by (simp add: stops_def)
    qed
  qed
  have "\<not> stops (es[j := None]) k (ring ?n i e)" if "e < d" for e
    using d(2) [OF that] nj [OF that] by (simp add: stops_def)
  moreover have "stops (es[j := None]) k x" using x by (simp add: stops_def)
  ultimately show ?thesis
    using probe_first [of i "es[j := None]" d k] d(1) i by simp
qed

lemma deleteKey_exact:
  assumes m: "hm_inv m" and k: "valid_key k" and free: "next_free m k"
  shows "\<exists>m'. deleteKey m k = Inr m' \<and> hm_inv m' \<and> hm_map m' = (hm_map m)(k := None)"
proof -
  have w: "weak_inv m" and pl: "placed m" and len: "length (elem m) = size_of m" and n: "0 < size_of m"
    using m by (auto simp: hm_inv_def weak_inv_def)
  let ?es = "elem m" and ?n = "size_of m"
  obtain j where j: "find_slot m k = Inr j" "j < ?n" "stops ?es k j" "probe ?es k (home ?n k) = Some j"
    using find_slot_weak [OF w k] by blast
  let ?m' = "m\<lparr>elem := ?es[j := None]\<rparr>"
  have gap: "?es ! (Suc j mod ?n) = None" using free j(1) by (simp add: next_free_def)
  have other: "?es[j := None] ! i = Some (k', v) \<longleftrightarrow> i \<noteq> j \<and> ?es ! i = Some (k', v)" for i k' v
    using j(2) len by (cases "i = j") auto
  have kj: "i = j" if "i < ?n" "?es ! i = Some (k, v)" for i v
    using that pl j(4) len by (auto simp: placed_def)
  have pl': "placed ?m'"
  proof -
    have "probe (?es[j := None]) k' (home ?n k') = Some i"
      if "i < ?n" "i \<noteq> j" "?es ! i = Some (k', v)" for i k' v
      using probe_past_hole [OF _ _ that(3,2)] pl that gap len n by (simp add: placed_def)
    then show ?thesis using len other by (auto simp: placed_def)
  qed
  have "hm_map ?m' = (hm_map m)(k := None)"
  proof (rule hm_map_eqI [OF pl'])
    fix k' v
    have "Some (k', v) \<in> set (?es[j := None]) \<longleftrightarrow> k' \<noteq> k \<and> Some (k', v) \<in> set ?es"
      using kj j(2,3) len by (auto simp: in_set_conv_nth other stops_def)
    then show "Some (k', v) \<in> set (elem ?m') \<longleftrightarrow> ((hm_map m)(k := None)) k' = Some v"
      using hm_map_iff [OF pl] by auto
  qed
  moreover have "hm_inv ?m'"
    using pl' w used_clear [of ?es j]
    by (auto simp: hm_inv_def weak_inv_def dest!: set_update_subset_insert [THEN subsetD])
  moreover have "?es ! j = None \<Longrightarrow> ?m' = m" using list_update_id [of ?es j] by simp
  ultimately show ?thesis using j(1) by (auto simp: deleteKey_def split: option.splits)
qed


text \<open>The three operations together: the form in which other theories use the weak invariant.\<close>

lemma table_ops_weak:
  assumes "weak_inv m" and "valid_key k"
  shows "(\<exists>p. get_hm m k = Inr p) \<and> (\<exists>m'. insert_hm m k v = Inr m' \<and> weak_inv m')
    \<and> (\<exists>m'. deleteKey m k = Inr m' \<and> weak_inv m')"
  using get_hm_weak [OF assms] insert_weak [OF assms, of 0 v] deleteKey_weak [OF assms]
  by (auto simp: insert_hm_def numeral_2_eq_2)

section \<open>Properties\<close>

text \<open>C2: On a table built by insertions, \<^verbatim>\<open>insert\<close> returns (resizing included), keeps the
  invariant and is the update of the finite map the table stands for: afterwards \<^verbatim>\<open>get\<close>
  returns the new value for the inserted key and the old answer for every other key.\<close>

theorem insert_get:
  assumes "hm_inv m" and "valid_key k"
  shows "\<exists>m'. insert_hm m k v = Inr m' \<and> hm_inv m' \<and> hm_map m' = (hm_map m)(k \<mapsto> v)
    \<and> get_hm m' k = Inr (Some v)
    \<and> (\<forall>k'. valid_key k' \<and> k' \<noteq> k \<longrightarrow> get_hm m' k' = get_hm m k')"
proof -
  obtain m' where m': "insert_hm m k v = Inr m'" "hm_inv m'" "hm_map m' = (hm_map m)(k \<mapsto> v)"
    using hm.ins_any [OF assms] by blast
  then show ?thesis using hm.get_any assms by simp
qed

lemma valid_keys_examples [simp]: "valid_key ''a''" "valid_key ''g''" "valid_key ''A''"
  by (auto intro!: valid_key_short)

theorem insert_get_witness:
  "\<exists>m'. insert_hm (createHashMap 6) ''a'' ''1'' = Inr m' \<and> get_hm m' ''a'' = Inr (Some ''1'')"
  using insert_get [of "createHashMap 6" "''a''" "''1''"] createHashMap_inv(1) [of 6] by auto

text \<open>On every table the program can build, also after deletions, \<^verbatim>\<open>get\<close>,
  \<^verbatim>\<open>insert\<close> and \<^verbatim>\<open>deleteKey\<close> return: an empty slot is always left, so no probe goes
  round for ever, and the invariant that guarantees it is kept.\<close>

theorem table_operations_return:
  assumes "weak_inv m" and "valid_key k"
  shows "(\<exists>p. get_hm m k = Inr p) \<and> (\<exists>m'. insert_hm m k v = Inr m' \<and> weak_inv m')
    \<and> (\<exists>m'. deleteKey m k = Inr m' \<and> weak_inv m')"
  by (rule table_ops_weak [OF assms])

theorem table_operations_return_witness:
  "weak_inv (createHashMap 6) \<and> (\<exists>m'. deleteKey (createHashMap 6) ''a'' = Inr m' \<and> weak_inv m')"
  using table_operations_return [of "createHashMap 6" "''a''" "''1''"] createHashMap_inv(1) [of 6]
  by (auto simp: hm_inv_def)

text \<open>Deleting a key whose next slot is empty removes exactly that key and keeps the
  strong invariant.\<close>

theorem delete_removes_key:
  assumes "hm_inv m" and "valid_key k" and "next_free m k"
  shows "\<exists>m'. deleteKey m k = Inr m' \<and> hm_inv m' \<and> hm_map m' = (hm_map m)(k := None)
    \<and> get_hm m' k = Inr None"
  using deleteKey_exact [OF assms] hm.get_any assms(2) by fastforce

theorem delete_removes_key_witness:
  "\<exists>m m'. insert_hm (createHashMap 6) ''a'' ''1'' = Inr m \<and> deleteKey m ''a'' = Inr m' \<and> get_hm m' ''a'' = Inr None"
proof -
  obtain m where m: "insert_hm (createHashMap 6) ''a'' ''1'' = Inr m" "hm_inv m"
    using hm.ins_any [of "createHashMap 6" "''a''" "''1''"] createHashMap_inv(1) [of 6] by auto
  have "insert_hm (createHashMap 6) ''a'' ''1''
      = Inr \<lparr>elem = [None, Some (''a'', ''1''), None, None, None, None], cnt = 1, size_of = 6\<rparr>"
    by code_simp
  with m(1) have "m = \<lparr>elem = [None, Some (''a'', ''1''), None, None, None, None], cnt = 1, size_of = 6\<rparr>"
    by simp
  then have "next_free m ''a''" by (simp only:) code_simp
  from delete_removes_key [OF m(2) _ this] m(1) show ?thesis by auto
qed

text \<open>Deletion is not exact in general.  It neither marks the slot nor moves later keys, so
  removing a key hides another key that was pushed past it by a collision: with \<open>a\<close> and \<open>g\<close>
  (equal hashes modulo 6) inserted, deleting \<open>a\<close> makes \<open>g\<close> undefined.\<close>

theorem delete_hides_colliding_key:
  "obind (insert_hm (createHashMap 6) ''a'' ''1'') (\<lambda>m1. obind (insert_hm m1 ''g'' ''2'') (\<lambda>m2.
     obind (get_hm m2 ''g'') (\<lambda>before. obind (deleteKey m2 ''a'') (\<lambda>m3.
       obind (get_hm m3 ''g'') (\<lambda>after. Inr (before, after))))))
   = Inr (Some ''2'', None)"
  by code_simp

text \<open>A table with no empty slot makes the search for an absent key loop for ever; it is the
  growth rule of \<^verbatim>\<open>insert\<close>, not the search, that prevents it.\<close>

theorem full_table_search_loops:
  assumes "length (elem m) = size_of m" and "valid_key k" and "0 < size_of m"
    and "\<And>j. j < size_of m \<Longrightarrow> \<exists>k' v. elem m ! j = Some (k', v) \<and> k' \<noteq> k"
  shows "get_hm m k = Inl Loops \<and> deleteKey m k = Inl Loops"
proof -
  have "probe (elem m) k (home (size_of m) k) = None"
  proof (rule ccontr)
    assume "probe (elem m) k (home (size_of m) k) \<noteq> None"
    then obtain j where j: "probe (elem m) k (home (size_of m) k) = Some j" by auto
    have "stops (elem m) k j" "j < size_of m"
      using probe_sound [OF j] probe_less [OF j] assms(1,3) by auto
    with assms(4) [of j] show False by (auto simp: stops_def)
  qed
  then have "find_slot m k = Inl Loops"
    using assms(2,3) by (simp add: find_slot_def hashFunc_valid)
  then show ?thesis by (simp add: get_hm_def deleteKey_def)
qed

theorem full_table_search_loops_witness:
  "get_hm \<lparr>elem = [Some (''a'', ''1'')], cnt = 1, size_of = 1\<rparr> ''g'' = Inl Loops"
  using full_table_search_loops [of "\<lparr>elem = [Some (''a'', ''1'')], cnt = 1, size_of = 1\<rparr>" "''g''"] by simp

text \<open>\<^verbatim>\<open>deleteMap\<close> gives back every block of the table once: the key and the value of
  each used slot and the array, nothing twice and nothing else.\<close>

theorem deleteMap_frees_once:
  "distinct (deleteMap m) \<and> set (deleteMap m) = {Table}
     \<union> {b. \<exists>i < size_of m. elem m ! i \<noteq> None \<and> (b = KeyOf i \<or> b = ValueOf i)}"
proof -
  let ?f = "\<lambda>i. case elem m ! i of None \<Rightarrow> [] | Some _ \<Rightarrow> [KeyOf i, ValueOf i]"
  have s: "b \<in> set (?f i) \<longleftrightarrow> elem m ! i \<noteq> None \<and> (b = KeyOf i \<or> b = ValueOf i)" for b i
    by (cases "elem m ! i") auto
  have set: "set (concat (map ?f [0..<n])) = {b. \<exists>i < n. elem m ! i \<noteq> None \<and> (b = KeyOf i \<or> b = ValueOf i)}" for n
    using s by (auto simp del: not_None_eq)
  have "distinct (concat (map ?f [0..<n]))" for n
  proof (induction n)
    case (Suc n)
    moreover have "distinct (?f n)" by (auto split: option.splits)
    moreover have "set (concat (map ?f [0..<n])) \<inter> set (?f n) = {}"
      using set [of n] s by auto
    ultimately show ?case by simp
  qed simp
  moreover have "Table \<notin> set (concat (map ?f [0..<size_of m]))"
    using set [of "size_of m"] by auto
  ultimately show ?thesis using set [of "size_of m"] unfolding deleteMap_def by auto
qed

text \<open>For keys shorter than 8421505 bytes the signed sum of \<^verbatim>\<open>hashFunc\<close> cannot overflow
  and the index is inside the table.\<close>

theorem hashFunc_in_range:
  assumes "length key < 8421505" and "0 < n"
  shows "\<exists>i < n. hashFunc key n = Inr i"
  using hashFunc_valid [OF valid_key_short] assms by (metis home_less)

theorem hashFunc_in_range_witness: "\<exists>i < (6::nat). hashFunc ''DEBUG'' 6 = Inr i"
  by (rule hashFunc_in_range) simp_all

end
