(* ===== verification/Preproc.thy ===== *)
theory Preproc
  imports PpText Hashmap
begin

text \<open>
  The directives of the preprocessor, \<^verbatim>\<open>assignments/1-multi/helper.c\<close>, and its main program,
  \<^verbatim>\<open>main.c\<close>.  A function that reads from a \<^verbatim>\<open>FILE *\<close> takes the unread text and
  returns what it leaves unread; the macro table and the text written so far are the fields
  of the state.  \<^verbatim>\<open>parseFile\<close> and \<^verbatim>\<open>ifdef\<close> call each other and include files without
  bound, so they carry fuel: one unit per line read or call made.
\<close>

section \<open>State\<close>

record pstate =
  pmap :: HashMap
  pout :: string

text \<open>What stays fixed during a run: the files, the \<^verbatim>\<open>-I\<close> directories, the input's name.\<close>

record penv =
  pfiles :: files
  directories :: "string option list"
  inFileName :: string

definition fputs :: "string \<Rightarrow> pstate \<Rightarrow> pstate" where
  "fputs s st = st\<lparr>pout := pout st @ s\<rparr>"

section \<open>\<^verbatim>\<open>#define\<close>\<close>

text \<open>\<^verbatim>\<open>while (get(map, another_value)) another_value = get(map, another_value);\<close>\<close>

partial_function (option) chase :: "HashMap \<Rightarrow> string \<Rightarrow> string outcome option" where
  "chase m a =
     (case get_hm m a of
        Inl e \<Rightarrow> Some (Inl e)
      | Inr None \<Rightarrow> Some (Inr a)
      | Inr (Some b) \<Rightarrow> chase m b)"

declare chase.simps [code]

definition final_value :: "HashMap \<Rightarrow> string \<Rightarrow> string outcome" where
  "final_value m a = (case chase m a of None \<Rightarrow> Inl Loops | Some r \<Rightarrow> r)"

text \<open>The loop over the tokens of the value of a one-line definition.\<close>

fun expand_value :: "HashMap \<Rightarrow> string list \<Rightarrow> string \<Rightarrow> string outcome" where
  "expand_value m [] parsed = Inr parsed"
| "expand_value m (t # ts) parsed =
     obind (get_hm m t) (\<lambda>a.
       case a of
         None \<Rightarrow> expand_value m ts parsed
       | Some v \<Rightarrow> obind (final_value m v) (\<lambda>w. obind (replace parsed t w) (expand_value m ts)))"

text \<open>
  The \<^verbatim>\<open>do ... while\<close> that gathers the lines of a definition: at the end of the file
  \<^verbatim>\<open>line_mdf\<close> is null when it is concatenated, and a line of fewer than two bytes makes the
  test read before its start.
\<close>

function gather_lines :: "string \<Rightarrow> string \<Rightarrow> (string \<times> string) outcome" where
  "gather_lines parsed inp =
     (case getLine inp of
        None \<Rightarrow> Inl Undefined
      | Some (l, inp') \<Rightarrow>
          if length l < 2 then Inl Undefined
          else if l ! (length l - 2) = BSLASH then gather_lines (concatenate parsed l) inp'
          else Inr (concatenate parsed l, inp'))"
  by pat_completeness auto
termination
  by (relation "measure (\<lambda>(p, inp). length inp)") (auto dest: getLine_consumes)

declare gather_lines.simps [simp del]

definition defineMap :: "HashMap \<Rightarrow> string \<Rightarrow> string \<Rightarrow> (HashMap \<times> string) outcome" where
  "defineMap m line inp =
     (let (_, r0) = strtok line delimiters_nl;
          (key, r1) = strtok r0 delimiters_nl;
          (val, _) = strtok r1 [NL]
      in case val of
           None \<Rightarrow> obind (deref key) (\<lambda>k. obind (insert_hm m k '''') (\<lambda>m'. Inr (m', inp)))
         | Some v \<Rightarrow> obind (deref key) (\<lambda>k.
             if last v = BSLASH then
               obind (gather_lines v inp) (\<lambda>(parsed, inp').
                 let (t0, r) = strtok parsed multi_lines_delim in
                 obind (deref t0) (\<lambda>t.
                   let result_m = foldl (\<lambda>res t. check_token (Some t) res) t (tokens r multi_lines_delim) in
                   obind (insert_hm m k result_m) (\<lambda>m'. Inr (m', inp'))))
             else
               obind (expand_value m (tokens v delimiters_nl) v) (\<lambda>parsed.
                 obind (insert_hm m k parsed) (\<lambda>m'. Inr (m', inp)))))"

section \<open>\<^verbatim>\<open>#if\<close>\<close>

text \<open>The truth of a condition: its value, or the token itself, is not the text 0.\<close>

definition condition :: "HashMap \<Rightarrow> string option \<Rightarrow> bool outcome" where
  "condition m token =
     obind (deref token) (\<lambda>t.
       obind (get_hm m t) (\<lambda>v. Inr ((case v of Some x \<Rightarrow> x | None \<Rightarrow> t) \<noteq> ''0'')))"

text \<open>
  The bodies of the three loops of \<^verbatim>\<open>ifelse\<close> on one line: \<^const>\<open>None\<close> is the return at
  \<^verbatim>\<open>#endif\<close>; otherwise the loop goes on, or \<^verbatim>\<open>ifelse\<close> is called and its caller returns,
  with the state, the unread input and the arguments \<^verbatim>\<open>cond\<close> and \<^verbatim>\<open>done\<close> given.
\<close>

definition ifelse_line ::
  "pstate \<Rightarrow> string \<Rightarrow> string \<Rightarrow> bool \<Rightarrow> bool \<Rightarrow> (pstate \<times> string \<times> bool \<times> bool) option outcome" where
  "ifelse_line st line inp cnd don =
     (if starts_with ''#endif'' line then Inr None
      else if don then Inr (Some (st, inp, cnd, don))
      else if \<not> cnd then
        if starts_with ''#else'' line then Inr (Some (st, inp, True, False))
        else if starts_with ''#elif'' line then
          obind (condition (pmap st) (fst (strtok (snd (strtok line delimiters)) [NL])))
            (\<lambda>c. Inr (Some (st, inp, c, False)))
        else Inr (Some (st, inp, cnd, don))
      else
        if starts_with ''#else'' line then Inr (Some (st, inp, True, True))
        else if starts_with ''#elif'' line then Inr (Some (st, inp, True, True))
        else if starts_with ''#define'' line then
          obind (defineMap (pmap st) line inp) (\<lambda>mi. Inr (Some (st\<lparr>pmap := fst mi\<rparr>, snd mi, cnd, don)))
        else if take 1 line \<noteq> [NL] then Inr (Some (fputs line st, inp, cnd, don))
        else Inr (Some (st, inp, cnd, don)))"

lemma strtok_rest [simp]: "strtok s d = (t, r) \<Longrightarrow> length r \<le> length s"
  using strtok_rest_le [of s d] by simp

lemma gather_lines_rest: "gather_lines p inp = Inr (q, rest) \<Longrightarrow> length rest \<le> length inp"
proof (induction p inp rule: gather_lines.induct)
  case (1 p inp)
  then show ?case
    by (subst (asm) (2) gather_lines.simps)
      (fastforce dest: getLine_consumes split: option.splits prod.splits if_splits)
qed

lemma defineMap_rest: "defineMap m line inp = Inr (m', rest) \<Longrightarrow> length rest \<le> length inp"
  by (auto simp: defineMap_def Let_def outcome_simps case_prod_beta dest: gather_lines_rest
      split: option.splits if_splits)

lemma ifelse_line_rest:
  "ifelse_line st line inp c d = Inr (Some (st', inp', c', d')) \<Longrightarrow> length inp' \<le> length inp"
  by (auto simp: ifelse_line_def outcome_simps split: if_splits dest: defineMap_rest)

function ifelse :: "pstate \<Rightarrow> string \<Rightarrow> bool \<Rightarrow> bool \<Rightarrow> (pstate \<times> string) outcome" where
  "ifelse st inp cnd don =
     (case getLine inp of
        None \<Rightarrow> Inr (st, inp)
      | Some (line, inp') \<Rightarrow>
          obind (ifelse_line st line inp' cnd don) (\<lambda>step.
            case step of
              None \<Rightarrow> Inr (st, inp')
            | Some (st1, inp1, cnd1, don1) \<Rightarrow> ifelse st1 inp1 cnd1 don1))"
  by pat_completeness auto
termination
  by (relation "measure (\<lambda>(st, inp, c, d). length inp)")
    (auto dest!: getLine_consumes ifelse_line_rest)

declare ifelse.simps [simp del]

section \<open>\<^verbatim>\<open>#include\<close>, \<^verbatim>\<open>#ifdef\<close> and the main loop\<close>

text \<open>The file name of an include line: \<^verbatim>\<open>strtok(line, "\"")\<close>, \<^verbatim>\<open>strtok(NULL, " \"")\<close>.\<close>

definition include_name :: "string \<Rightarrow> string option" where
  "include_name line = fst (strtok (snd (strtok line [QUOTE])) [CHR '' '', QUOTE])"

text \<open>
  The include branch of both functions; \<open>parse\<close> is the call of \<^verbatim>\<open>parseFile\<close>.  A missing file
  ends the program.  For an unnamed input (stdin) \<^verbatim>\<open>getDirectory\<close> returns its argument, the
  literal \<^verbatim>\<open>""\<close> of \<^verbatim>\<open>main\<close>, and freeing it is undefined.
\<close>

definition do_include ::
  "(pstate \<Rightarrow> string \<Rightarrow> pstate outcome) \<Rightarrow> penv \<Rightarrow> pstate \<Rightarrow> string \<Rightarrow> pstate outcome" where
  "do_include parse env st line =
     obind (deref (include_name line)) (\<lambda>name.
       obind (getIncFile (pfiles env) name (directories env) (getDirectory (inFileName env))) (\<lambda>file.
         case file of
           None \<Rightarrow> Inl (ExitWith 1)
         | Some content \<Rightarrow>
             obind (parse st content) (\<lambda>st'. if inFileName env = [] then Inl Undefined else Inr st')))"

text \<open>The second token of a directive line in \<^verbatim>\<open>ifdef\<close>.\<close>

definition second_token :: "string \<Rightarrow> string option" where
  "second_token line = fst (strtok (snd (strtok line delimiters_nl)) delimiters_nl)"

text \<open>The loop over the tokens of an ordinary line.\<close>

fun subst_tokens :: "HashMap \<Rightarrow> string list \<Rightarrow> string \<Rightarrow> string outcome" where
  "subst_tokens m [] result = Inr result"
| "subst_tokens m (t # ts) result =
     obind (get_hm m t) (\<lambda>v.
       case v of
         None \<Rightarrow> subst_tokens m ts result
       | Some val \<Rightarrow> obind (replace result t val) (subst_tokens m ts))"

text \<open>
  The body of the loop of \<^verbatim>\<open>parseFile\<close> on one line, with the state and the unread input it
  leaves.  \<open>parse\<close> and \<open>ifd\<close> are the calls of \<^verbatim>\<open>parseFile\<close> and \<^verbatim>\<open>ifdef\<close> it makes.
\<close>

definition parse_line ::
  "(pstate \<Rightarrow> string \<Rightarrow> pstate outcome) \<Rightarrow> (pstate \<Rightarrow> string \<Rightarrow> bool \<Rightarrow> (pstate \<times> string) outcome)
    \<Rightarrow> penv \<Rightarrow> pstate \<Rightarrow> string \<Rightarrow> string \<Rightarrow> (pstate \<times> string) outcome" where
  "parse_line parse ifd env st line inp =
     obind (deref (fst (strtok line delimiters))) (\<lambda>token.
       let r0 = snd (strtok line delimiters); arg = fst (strtok r0 [NL]) in
       if token = ''#define'' then
         obind (defineMap (pmap st) line inp) (\<lambda>mi. Inr (st\<lparr>pmap := fst mi\<rparr>, snd mi))
       else if token = ''#undef'' then
         obind (deref arg) (\<lambda>key. obind (deleteKey (pmap st) key) (\<lambda>m. Inr (st\<lparr>pmap := m\<rparr>, inp)))
       else if token = ''#if'' then
         obind (condition (pmap st) arg) (\<lambda>c. ifelse st inp c False)
       else if token = ''#ifdef'' then
         obind (deref arg) (\<lambda>key. obind (get_hm (pmap st) key) (\<lambda>v. ifd st inp (v \<noteq> None)))
       else if token = ''#ifndef'' then
         obind (deref arg) (\<lambda>key. obind (get_hm (pmap st) key) (\<lambda>v. ifd st inp (v = None)))
       else if token = ''#include'' then
         obind (do_include parse env st line) (\<lambda>st'. Inr (st', inp))
       else
         obind (subst_tokens (pmap st) (token # tokens r0 delimiters) line) (\<lambda>result.
           Inr (fputs result st, inp)))"

text \<open>
  The bodies of the loops of \<^verbatim>\<open>ifdef\<close> on one line: \<^const>\<open>None\<close> is the return at
  \<^verbatim>\<open>#endif\<close>; otherwise the loop goes on, or at \<^verbatim>\<open>#else\<close> \<^verbatim>\<open>ifdef\<close> is called with the
  opposite condition and its caller returns.
\<close>

definition ifdef_line ::
  "(pstate \<Rightarrow> string \<Rightarrow> pstate outcome) \<Rightarrow> (pstate \<Rightarrow> string \<Rightarrow> bool \<Rightarrow> (pstate \<times> string) outcome)
    \<Rightarrow> penv \<Rightarrow> pstate \<Rightarrow> string \<Rightarrow> string \<Rightarrow> bool \<Rightarrow> (pstate \<times> string \<times> bool) option outcome" where
  "ifdef_line parse ifd env st line inp cnd =
     (if starts_with ''#else'' line then Inr (Some (st, inp, \<not> cnd))
      else if starts_with ''#endif'' line then Inr None
      else if \<not> cnd then Inr (Some (st, inp, cnd))
      else if starts_with ''#define'' line then
        obind (defineMap (pmap st) line inp) (\<lambda>mi. Inr (Some (st\<lparr>pmap := fst mi\<rparr>, snd mi, cnd)))
      else if starts_with ''#undef'' line then
        obind (deref (second_token line)) (\<lambda>key. obind (deleteKey (pmap st) key) (\<lambda>m.
          Inr (Some (st\<lparr>pmap := m\<rparr>, inp, cnd))))
      else if starts_with ''#ifdef'' line then
        obind (deref (second_token line)) (\<lambda>key. obind (get_hm (pmap st) key) (\<lambda>v.
          obind (ifd st inp (v \<noteq> None)) (\<lambda>si. Inr (Some (fst si, snd si, cnd)))))
      else if starts_with ''#ifndef'' line then
        obind (deref (second_token line)) (\<lambda>key. obind (get_hm (pmap st) key) (\<lambda>v.
          obind (ifd st inp (v = None)) (\<lambda>si. Inr (Some (fst si, snd si, cnd)))))
      else if starts_with ''#include'' line then
        obind (do_include parse env st line) (\<lambda>st'. Inr (Some (st', inp, cnd)))
      else if starts_with ''#if'' line then
        obind (condition (pmap st) (fst (strtok (snd (strtok line delimiters_nl)) [NL]))) (\<lambda>c.
          obind (ifelse st inp c False) (\<lambda>si. Inr (Some (fst si, snd si, cnd))))
      else if take 1 line \<noteq> [NL] then Inr (Some (fputs line st, inp, cnd))
      else Inr (Some (st, inp, cnd)))"

fun parseFile :: "nat \<Rightarrow> penv \<Rightarrow> pstate \<Rightarrow> string \<Rightarrow> pstate outcome"
and ifdef :: "nat \<Rightarrow> penv \<Rightarrow> pstate \<Rightarrow> string \<Rightarrow> bool \<Rightarrow> (pstate \<times> string) outcome" where
  "parseFile 0 env st inp = Inl NoFuel"
| "parseFile (Suc n) env st inp =
     (case getLine inp of
        None \<Rightarrow> Inr st
      | Some (line, inp') \<Rightarrow>
          obind (parse_line (\<lambda>s i. parseFile n env s i) (\<lambda>s i c. ifdef n env s i c) env st line inp')
            (\<lambda>si. parseFile n env (fst si) (snd si)))"
| "ifdef 0 env st inp cnd = Inl NoFuel"
| "ifdef (Suc n) env st inp cnd =
     (case getLine inp of
        None \<Rightarrow> Inr (st, inp)
      | Some (line, inp') \<Rightarrow>
          obind (ifdef_line (\<lambda>s i. parseFile n env s i) (\<lambda>s i c. ifdef n env s i c) env st line inp' cnd)
            (\<lambda>step. case step of
               None \<Rightarrow> Inr (st, inp')
             | Some (st1, inp1, cnd1) \<Rightarrow> ifdef n env st1 inp1 cnd1))"

declare parseFile.simps(2) [simp del] ifdef.simps(2) [simp del]

end
