(* ===== verification/PpMain.thy ===== *)
theory PpMain
  imports Preproc
begin

text \<open>
  The command line and the main program of the preprocessor: \<^verbatim>\<open>getArgs\<close> of
  \<^verbatim>\<open>assignments/1-multi/helper.c\<close> and \<^verbatim>\<open>main.c\<close>.
\<close>

section \<open>\<^verbatim>\<open>getArgs\<close>\<close>

text \<open>
  What \<^verbatim>\<open>getArgs\<close> fills: the two file names, the table, the array of directories
  (allocated with one entry per argument that begins with \<^verbatim>\<open>-I\<close>, not initialised) and the
  index of its next free entry.
\<close>

record args =
  inputName :: "string option"
  outputName :: "string option"
  amap :: HashMap
  dirs :: "string option list"
  currDir :: nat

definition count_dirs :: "string list \<Rightarrow> nat" where
  "count_dirs argv = length (filter (starts_with ''-I'') argv)"

text \<open>The text of an option: the rest of the argument, or the next argument when there is none;
  past the last argument \<^verbatim>\<open>argv\<close> holds a null pointer.\<close>

definition option_text :: "string \<Rightarrow> string list \<Rightarrow> (string \<times> string list) outcome" where
  "option_text a rest =
     (if length a = 2 then (case rest of [] \<Rightarrow> Inl Undefined | b # rest' \<Rightarrow> Inr (b, rest'))
      else Inr (drop 2 a, rest))"

definition define_option :: "string \<Rightarrow> args \<Rightarrow> args outcome" where
  "define_option text a =
     (let (key, r) = strtok text ''='';
          val = (case strtok r [] of (Some v, _) \<Rightarrow> v | (None, _) \<Rightarrow> [])
      in obind (deref key) (\<lambda>k. obind (insert_hm (amap a) k val) (\<lambda>m. Inr (a\<lparr>amap := m\<rparr>))))"

definition add_dir :: "string \<Rightarrow> args \<Rightarrow> args outcome" where
  "add_dir text a =
     (if currDir a < length (dirs a)
      then Inr (a\<lparr>dirs := (dirs a)[currDir a := Some text], currDir := currDir a + 1\<rparr>)
      else Inl Undefined)"

definition positional :: "string \<Rightarrow> args \<Rightarrow> args outcome" where
  "positional s a =
     (if inputName a = None then Inr (a\<lparr>inputName := Some s\<rparr>)
      else if outputName a = None then Inr (a\<lparr>outputName := Some s\<rparr>)
      else Inl (ExitWith 1))"

text \<open>The second loop of \<^verbatim>\<open>getArgs\<close>; an option may take the next argument with it.\<close>

function scan_args :: "args \<Rightarrow> string list \<Rightarrow> args outcome" where
  "scan_args a [] = Inr a"
| "scan_args a (s # rest) =
     (if take 1 s = ''-'' then
        if take 1 (drop 1 s) = ''D'' then
          obind (option_text s rest) (\<lambda>(text, rest'). obind (define_option text a) (\<lambda>a'. scan_args a' rest'))
        else if take 1 (drop 1 s) = ''I'' then
          obind (option_text s rest) (\<lambda>(text, rest'). obind (add_dir text a) (\<lambda>a'. scan_args a' rest'))
        else if take 1 (drop 1 s) = ''o'' then
          obind (option_text s rest) (\<lambda>(text, rest'). scan_args (a\<lparr>outputName := Some text\<rparr>) rest')
        else scan_args a rest
      else obind (positional s a) (\<lambda>a'. scan_args a' rest))"
  by pat_completeness auto
termination
  by (relation "measure (\<lambda>(a, l). length l)") (auto simp: option_text_def split: if_splits list.splits)

declare scan_args.simps(2) [simp del]

text \<open>\<open>argv\<close> is the argument vector without the program's name.\<close>

definition getArgs :: "HashMap \<Rightarrow> string list \<Rightarrow> args outcome" where
  "getArgs m argv =
     scan_args \<lparr>inputName = None, outputName = None, amap = m, dirs = replicate (count_dirs argv) None, currDir = 0\<rparr> argv"

section \<open>\<^verbatim>\<open>main\<close>\<close>

text \<open>
  The exit status and, when the program runs to its end, the output file (stdout is
  \<^const>\<open>None\<close>) with its text.  Opening the output for writing is taken to succeed; it empties
  the file before the input is read.  The final loop frees every entry of the array of
  directories.
\<close>

record result =
  status :: int
  target :: "string option"
  text_out :: string

definition run_main :: "nat \<Rightarrow> files \<Rightarrow> string \<Rightarrow> string list \<Rightarrow> result outcome" where
  "run_main fuel fs stdin argv =
     obind (getArgs (createHashMap 6) argv) (\<lambda>a.
       let fs' = (case outputName a of None \<Rightarrow> fs | Some f \<Rightarrow> fs(f := Some [])) in
       case inputName a of
         Some f \<Rightarrow>
           (if fs f = None then Inr \<lparr>status = 1, target = None, text_out = []\<rparr>
            else obind (parseFile fuel \<lparr>pfiles = fs', directories = dirs a, inFileName = f\<rparr>
                   \<lparr>pmap = amap a, pout = []\<rparr> (case fs' f of Some c \<Rightarrow> c | None \<Rightarrow> []))
                 (\<lambda>st. if None \<in> set (dirs a) then Inl Undefined
                        else Inr \<lparr>status = 0, target = outputName a, text_out = pout st\<rparr>))
       | None \<Rightarrow>
           obind (parseFile fuel \<lparr>pfiles = fs', directories = dirs a, inFileName = []\<rparr>
              \<lparr>pmap = amap a, pout = []\<rparr> stdin)
             (\<lambda>st. if None \<in> set (dirs a) then Inl Undefined
                    else Inr \<lparr>status = 0, target = outputName a, text_out = pout st\<rparr>))"

end
