(* ===== verification/PpFuel.thy ===== *)
theory PpFuel
  imports PpMain
begin

text \<open>
  Two facts about every run of the preprocessor of \<^verbatim>\<open>assignments/1-multi\<close>: each directive
  keeps the table invariant, and the fuel of the model is only a bound (more of it never changes
  a result, and without included files a run needs no more than its input has bytes).
\<close>

section \<open>The table invariant\<close>

lemma valid_token: "length t < MAXLEN \<Longrightarrow> valid_key t"
  by (rule valid_key_short) (simp add: MAXLEN_def)

lemma strtok_short: "strtok s d = (Some t, r) \<Longrightarrow> length s < MAXLEN \<Longrightarrow> length t < MAXLEN"
  using strtok_Some(3) [of s d t r] by simp

lemma fst_strtok_short: "fst (strtok s d) = Some t \<Longrightarrow> length s < MAXLEN \<Longrightarrow> length t < MAXLEN"
  using strtok_short [of s d t "snd (strtok s d)"] by (simp add: prod_eq_iff)

lemma snd_strtok_short: "length s < MAXLEN \<Longrightarrow> length (snd (strtok s d)) < MAXLEN"
  using strtok_rest_le [of s d] by simp

lemma insert_weakD: "insert_hm m k v = Inr m' \<Longrightarrow> weak_inv m \<Longrightarrow> valid_key k \<Longrightarrow> weak_inv m'"
  using table_ops_weak [of m k v] by auto

lemma deleteKey_weakD: "deleteKey m k = Inr m' \<Longrightarrow> weak_inv m \<Longrightarrow> valid_key k \<Longrightarrow> weak_inv m'"
  using deleteKey_weak [of m k] by auto

lemma defineMap_weak:
  assumes "defineMap m line inp = Inr (m', inp')" "weak_inv m" "length line < MAXLEN"
  shows "weak_inv m'"
proof -
  have "\<exists>k v. fst (strtok (snd (strtok line delimiters_nl)) delimiters_nl) = Some k \<and> insert_hm m k v = Inr m'"
    using assms(1)
    by (auto simp: defineMap_def Let_def outcome_simps case_prod_beta split: option.splits if_splits)
  then obtain k v where k: "fst (strtok (snd (strtok line delimiters_nl)) delimiters_nl) = Some k"
    and v: "insert_hm m k v = Inr m'" by blast
  have "valid_key k"
    by (rule valid_token, rule fst_strtok_short [OF k snd_strtok_short [OF assms(3)]])
  then show ?thesis using insert_weakD [OF v assms(2)] by simp
qed

text \<open>A state is sound when its table is; every step of the three loops keeps that.\<close>

definition sound :: "pstate \<Rightarrow> bool" where
  "sound st \<longleftrightarrow> weak_inv (pmap st)"

lemma sound_fputs [simp]: "sound (fputs s st) = sound st"
  by (simp add: sound_def fputs_def)

lemma sound_define:
  "defineMap (pmap st) line inp = Inr (m, inp') \<Longrightarrow> sound st \<Longrightarrow> length line < MAXLEN \<Longrightarrow> sound (st\<lparr>pmap := m\<rparr>)"
  using defineMap_weak [of "pmap st" line inp m inp'] by (simp add: sound_def)

lemma sound_delete:
  "deleteKey (pmap st) key = Inr m \<Longrightarrow> sound st \<Longrightarrow> length key < MAXLEN \<Longrightarrow> sound (st\<lparr>pmap := m\<rparr>)"
  using deleteKey_weakD [of "pmap st" key m] valid_token by (simp add: sound_def)

lemma sound_include:
  assumes "do_include parse env st line = Inr st'" "sound st"
    and "\<And>s i s'. parse s i = Inr s' \<Longrightarrow> sound s \<Longrightarrow> sound s'"
  shows "sound st'"
  using assms by (auto simp: do_include_def outcome_simps split: option.splits if_splits)

lemma second_token_short: "second_token line = Some k \<Longrightarrow> length line < MAXLEN \<Longrightarrow> length k < MAXLEN"
  unfolding second_token_def using fst_strtok_short snd_strtok_short by blast

lemma ifelse_line_sound:
  "ifelse_line st line inp c d = Inr (Some (st', inp', c', d')) \<Longrightarrow> sound st \<Longrightarrow> length line < MAXLEN
   \<Longrightarrow> sound st'"
  by (auto simp: ifelse_line_def outcome_simps split: if_splits intro: sound_define)

lemma ifelse_sound: "ifelse st inp c d = Inr (st', inp') \<Longrightarrow> sound st \<Longrightarrow> sound st'"
proof (induction st inp c d arbitrary: st' inp' rule: ifelse.induct)
  case (1 st inp c d)
  show ?case
  proof (cases "getLine inp")
    case None
    with "1.prems" show ?thesis by (simp add: ifelse.simps [of st inp c d])
  next
    case (Some lr)
    obtain line r where lr: "lr = (line, r)" by (cases lr)
    then obtain step where step: "ifelse_line st line r c d = Inr step"
      "(case step of None \<Rightarrow> Inr (st, r) | Some (s1, i1, c1, d1) \<Rightarrow> ifelse s1 i1 c1 d1) = Inr (st', inp')"
      using "1.prems"(1) Some by (auto simp: ifelse.simps [of st inp c d] outcome_simps)
    show ?thesis
    proof (cases step)
      case None
      with step(2) "1.prems"(2) show ?thesis by simp
    next
      case (Some q)
      obtain s1 i1 c1 d1 where q: "q = (s1, i1, c1, d1)" by (cases q)
      have "sound s1"
        using ifelse_line_sound step(1) Some q "1.prems"(2) getLine_length \<open>getLine inp = Some lr\<close> lr by blast
      then show ?thesis
        using "1.IH" [OF \<open>getLine inp = Some lr\<close> lr [symmetric] step(1) Some] q step(2) Some by simp
    qed
  qed
qed

text \<open>One equation per branch of \<^const>\<open>parse_line\<close>.\<close>

lemma parse_line_simps:
  "fst (strtok line delimiters) = Some ''#define'' \<Longrightarrow> parse_line parse ifd env st line inp
     = obind (defineMap (pmap st) line inp) (\<lambda>mi. Inr (st\<lparr>pmap := fst mi\<rparr>, snd mi))"
  "fst (strtok line delimiters) = Some ''#undef'' \<Longrightarrow> parse_line parse ifd env st line inp
     = obind (deref (fst (strtok (snd (strtok line delimiters)) [NL]))) (\<lambda>key.
         obind (deleteKey (pmap st) key) (\<lambda>m. Inr (st\<lparr>pmap := m\<rparr>, inp)))"
  "fst (strtok line delimiters) = Some ''#if'' \<Longrightarrow> parse_line parse ifd env st line inp
     = obind (condition (pmap st) (fst (strtok (snd (strtok line delimiters)) [NL]))) (\<lambda>c. ifelse st inp c False)"
  "fst (strtok line delimiters) = Some ''#ifdef'' \<Longrightarrow> parse_line parse ifd env st line inp
     = obind (deref (fst (strtok (snd (strtok line delimiters)) [NL]))) (\<lambda>key.
         obind (get_hm (pmap st) key) (\<lambda>v. ifd st inp (v \<noteq> None)))"
  "fst (strtok line delimiters) = Some ''#ifndef'' \<Longrightarrow> parse_line parse ifd env st line inp
     = obind (deref (fst (strtok (snd (strtok line delimiters)) [NL]))) (\<lambda>key.
         obind (get_hm (pmap st) key) (\<lambda>v. ifd st inp (v = None)))"
  "fst (strtok line delimiters) = Some ''#include'' \<Longrightarrow> parse_line parse ifd env st line inp
     = obind (do_include parse env st line) (\<lambda>st'. Inr (st', inp))"
  by (simp_all add: parse_line_def)

definition plain_token :: "string \<Rightarrow> bool" where
  "plain_token t \<longleftrightarrow> t \<noteq> ''#define'' \<and> t \<noteq> ''#undef'' \<and> t \<noteq> ''#if'' \<and> t \<noteq> ''#ifdef''
     \<and> t \<noteq> ''#ifndef'' \<and> t \<noteq> ''#include''"

lemma parse_line_plain:
  "fst (strtok line delimiters) = Some t \<Longrightarrow> plain_token t \<Longrightarrow> parse_line parse ifd env st line inp
     = obind (subst_tokens (pmap st) (tokens line delimiters) line) (\<lambda>result. Inr (fputs result st, inp))"
  by (cases "strtok line delimiters")
    (simp add: parse_line_def plain_token_def Let_def tokens.simps [of line delimiters])

lemma token_cases [case_names Define Undef Cond Ifdef Ifndef Include Plain]:
  "(t = ''#define'' \<Longrightarrow> P) \<Longrightarrow> (t = ''#undef'' \<Longrightarrow> P) \<Longrightarrow> (t = ''#if'' \<Longrightarrow> P) \<Longrightarrow> (t = ''#ifdef'' \<Longrightarrow> P)
   \<Longrightarrow> (t = ''#ifndef'' \<Longrightarrow> P) \<Longrightarrow> (t = ''#include'' \<Longrightarrow> P) \<Longrightarrow> (plain_token t \<Longrightarrow> P) \<Longrightarrow> P"
  unfolding plain_token_def by satx

lemma parse_line_sound:
  assumes run: "parse_line parse ifd env st line inp = Inr (st', inp')"
    and st: "sound st" and line: "length line < MAXLEN"
    and P: "\<And>s i s'. parse s i = Inr s' \<Longrightarrow> sound s \<Longrightarrow> sound s'"
    and I: "\<And>s i c s' i'. ifd s i c = Inr (s', i') \<Longrightarrow> sound s \<Longrightarrow> sound s'"
  shows "sound st'"
proof -
  have arg: "length k < MAXLEN" if "fst (strtok (snd (strtok line delimiters)) [NL]) = Some k" for k
    using fst_strtok_short [OF that snd_strtok_short] line by simp
  obtain token where token: "fst (strtok line delimiters) = Some token"
    using run by (auto simp: parse_line_def outcome_simps)
  show ?thesis
  proof (cases token rule: token_cases)
    case Define
    with run token show ?thesis
      by (auto simp: parse_line_simps outcome_simps intro: sound_define [OF _ st line])
  next
    case Undef
    with run token show ?thesis
      by (auto simp: parse_line_simps outcome_simps intro: sound_delete [OF _ st arg])
  next
    case Cond
    with run token show ?thesis
      by (auto simp: parse_line_simps outcome_simps intro: ifelse_sound [OF _ st])
  next
    case Include
    with run token show ?thesis
      by (auto simp: parse_line_simps outcome_simps intro: sound_include [OF _ st P])
  next
    case Plain
    with run token st show ?thesis
      by (auto simp: parse_line_plain outcome_simps)
  qed (use run token in \<open>auto simp: parse_line_simps outcome_simps intro: I [OF _ st]\<close>)
qed

lemma ifdef_line_sound:
  assumes "ifdef_line parse ifd env st line inp cnd = Inr (Some (st', inp', c'))" "sound st" "length line < MAXLEN"
    and "\<And>s i s'. parse s i = Inr s' \<Longrightarrow> sound s \<Longrightarrow> sound s'"
    and "\<And>s i c s' i'. ifd s i c = Inr (s', i') \<Longrightarrow> sound s \<Longrightarrow> sound s'"
  shows "sound st'"
  using assms(1-3) second_token_short [of line]
  by (auto simp: ifdef_line_def outcome_simps split: if_splits
      dest: sound_define [OF _ assms(2,3)] sound_delete [OF _ assms(2)] sound_include [OF _ assms(2,4)]
        assms(5) [OF _ assms(2)] ifelse_sound [OF _ assms(2)])

lemma parse_sound:
  "(parseFile n env st inp = Inr st' \<longrightarrow> sound st \<longrightarrow> sound st')
   \<and> (ifdef n env st inp c = Inr (st2, inp2) \<longrightarrow> sound st \<longrightarrow> sound st2)"
proof (induction n arbitrary: st inp st' c st2 inp2)
  case (Suc n)
  have P: "sound s'" if "parseFile n env s i = Inr s'" "sound s" for s i s'
    using Suc.IH that by blast
  have I: "sound s'" if "ifdef n env s i c = Inr (s', i')" "sound s" for s i c s' i'
    using Suc.IH that by blast
  have "sound st'" if run: "parseFile (Suc n) env st inp = Inr st'" "sound st"
  proof (cases "getLine inp")
    case None
    with run show ?thesis by (simp add: parseFile.simps(2))
  next
    case (Some lr)
    obtain line r where lr: "lr = (line, r)" by (cases lr)
    with run(1) Some obtain s1 i1 where
      line: "parse_line (parseFile n env) (ifdef n env) env st line r = Inr (s1, i1)"
      and rest: "parseFile n env s1 i1 = Inr st'"
      by (auto simp: parseFile.simps(2) outcome_simps)
    have "sound s1"
      by (rule parse_line_sound [OF line _ _ P I]) (use getLine_length Some lr run(2) in auto)
    with P rest show ?thesis by blast
  qed
  moreover have "sound st2" if run: "ifdef (Suc n) env st inp c = Inr (st2, inp2)" "sound st"
  proof (cases "getLine inp")
    case None
    with run show ?thesis by (simp add: ifdef.simps(2))
  next
    case (Some lr)
    obtain line r where lr: "lr = (line, r)" by (cases lr)
    with run(1) Some obtain step where
      step: "ifdef_line (parseFile n env) (ifdef n env) env st line r c = Inr step"
      and rest: "(case step of None \<Rightarrow> Inr (st, r) | Some (s1, i1, c1) \<Rightarrow> ifdef n env s1 i1 c1) = Inr (st2, inp2)"
      by (auto simp: ifdef.simps(2) outcome_simps)
    show ?thesis
    proof (cases step)
      case None
      with rest run(2) show ?thesis by simp
    next
      case (Some q)
      obtain s1 i1 c1 where q: "q = (s1, i1, c1)" by (cases q)
      have "sound s1"
        by (rule ifdef_line_sound [OF step [unfolded Some q] run(2) _ P I])
          (use getLine_length \<open>getLine inp = Some lr\<close> lr in auto)
      with I rest Some q show ?thesis by simp
    qed
  qed
  ultimately show ?case by blast
qed simp

section \<open>Fuel\<close>

text \<open>\<open>below r r'\<close>: \<open>r'\<close> is what \<open>r\<close> becomes with more fuel.\<close>

definition below :: "'a outcome \<Rightarrow> 'a outcome \<Rightarrow> bool" where
  "below r r' \<longleftrightarrow> r = Inl NoFuel \<or> r = r'"

named_theorems below_intros

lemma below_refl [simp, below_intros]: "below r r"
  by (simp add: below_def)

lemma below_NoFuel [simp, below_intros]: "below (Inl NoFuel) r"
  by (simp add: below_def)

lemma below_obind [below_intros]:
  "below m m' \<Longrightarrow> (\<And>x. below (f x) (f' x)) \<Longrightarrow> below (obind m f) (obind m' f')"
proof -
  assume m: "below m m'" and f: "\<And>x. below (f x) (f' x)"
  show ?thesis
  proof (cases m)
    case (Inl e)
    with m show ?thesis by (auto simp: below_def)
  next
    case (Inr x)
    with m have "m' = Inr x" by (auto simp: below_def)
    with Inr f [of x] show ?thesis by simp
  qed
qed

lemma below_trans: "below a b \<Longrightarrow> below b c \<Longrightarrow> below a c"
  by (auto simp: below_def)

lemma do_include_below [below_intros]:
  "(\<And>s i. below (parse s i) (parse' s i)) \<Longrightarrow> below (do_include parse env st line) (do_include parse' env st line)"
  by (auto simp: do_include_def intro!: below_intros split: option.splits)

lemma parse_line_below:
  assumes "\<And>s i. below (parse s i) (parse' s i)" "\<And>s i c. below (ifd s i c) (ifd' s i c)"
  shows "below (parse_line parse ifd env st line inp) (parse_line parse' ifd' env st line inp)"
  unfolding parse_line_def Let_def using assms by (intro below_intros) (auto intro!: below_intros)

lemma ifdef_line_below:
  assumes "\<And>s i. below (parse s i) (parse' s i)" "\<And>s i c. below (ifd s i c) (ifd' s i c)"
  shows "below (ifdef_line parse ifd env st line inp c) (ifdef_line parse' ifd' env st line inp c)"
  unfolding ifdef_line_def using assms by (auto intro!: below_intros)

lemma fuel_step:
  "(\<forall>st inp. below (parseFile n env st inp) (parseFile (Suc n) env st inp))
   \<and> (\<forall>st inp c. below (ifdef n env st inp c) (ifdef (Suc n) env st inp c))"
proof (induction n)
  case (Suc n)
  have P: "below (parseFile n env s i) (parseFile (Suc n) env s i)"
    and I: "below (ifdef n env s i c) (ifdef (Suc n) env s i c)" for s i c
    using Suc.IH by auto
  have "below (parseFile (Suc n) env st inp) (parseFile (Suc (Suc n)) env st inp)" for st inp
  proof (cases "getLine inp")
    case (Some lr)
    have "below (obind (parse_line (parseFile n env) (ifdef n env) env st (fst lr) (snd lr))
                   (\<lambda>si. parseFile n env (fst si) (snd si)))
        (obind (parse_line (parseFile (Suc n) env) (ifdef (Suc n) env) env st (fst lr) (snd lr))
                   (\<lambda>si. parseFile (Suc n) env (fst si) (snd si)))"
      by (intro below_obind parse_line_below P I)
    with Some show ?thesis
      by (cases lr) (simp add: parseFile.simps(2) [of n env st inp] parseFile.simps(2) [of "Suc n" env st inp])
  qed (simp add: parseFile.simps(2))
  moreover have "below (ifdef (Suc n) env st inp c) (ifdef (Suc (Suc n)) env st inp c)" for st inp c
  proof (cases "getLine inp")
    case (Some lr)
    obtain line r where lr: "lr = (line, r)" by (cases lr)
    have "below (obind (ifdef_line (parseFile n env) (ifdef n env) env st line r c)
                   (\<lambda>step. case step of None \<Rightarrow> Inr (st, r) | Some (s1, i1, c1) \<Rightarrow> ifdef n env s1 i1 c1))
        (obind (ifdef_line (parseFile (Suc n) env) (ifdef (Suc n) env) env st line r c)
                   (\<lambda>step. case step of None \<Rightarrow> Inr (st, r) | Some (s1, i1, c1) \<Rightarrow> ifdef (Suc n) env s1 i1 c1))"
      by (intro below_obind ifdef_line_below P I) (auto intro: I split: option.splits)
    with Some lr show ?thesis
      by (simp add: ifdef.simps(2) [of n env st inp c] ifdef.simps(2) [of "Suc n" env st inp c])
  qed (simp add: ifdef.simps(2))
  ultimately show ?case by blast
qed simp

lemma more_fuel: "below (parseFile n env st inp) (parseFile (n + k) env st inp)"
proof (induction k)
  case (Suc k)
  then show ?case using below_trans fuel_step [of "n + k" env] by fastforce
qed simp

lemma more_fuel_ifdef: "below (ifdef n env st inp c) (ifdef (n + k) env st inp c)"
proof (induction k)
  case (Suc k)
  then show ?case using below_trans fuel_step [of "n + k" env] by fastforce
qed simp

text \<open>The rest of the model never runs out: only \<^const>\<open>parseFile\<close> and \<^const>\<open>ifdef\<close> have a bound.\<close>

lemma table_fuel [simp]:
  "find_slot m k \<noteq> Inl NoFuel" "get_hm m k \<noteq> Inl NoFuel" "deleteKey m k \<noteq> Inl NoFuel"
proof -
  show 1: "find_slot m k \<noteq> Inl NoFuel" for m k
    by (auto simp: find_slot_def hashFunc_def Let_def split: option.splits)
  show "get_hm m k \<noteq> Inl NoFuel" "deleteKey m k \<noteq> Inl NoFuel"
    using 1 by (auto simp: get_hm_def deleteKey_def obind_eq_NoFuel split: option.splits)
qed

lemma skip_quoted_fuel [simp]: "skip_quoted line j \<noteq> Inl NoFuel"
  by (induction line j rule: skip_quoted.induct) (subst skip_quoted.simps, simp)

lemma find_key_fuel [simp]: "find_key line key i \<noteq> Inl NoFuel"
proof (induction line key i rule: find_key.induct)
  case (1 line key i)
  then show ?case by (subst find_key.simps) (auto simp: obind_eq_NoFuel split: if_splits)
qed

lemma replace_fuel [simp]: "replace line key value \<noteq> Inl NoFuel"
  by (auto simp: replace_def obind_eq_NoFuel split: option.splits)

lemma chase_fuel: "chase m a = Some r \<Longrightarrow> r \<noteq> Inl NoFuel"
proof (rule chase.raw_induct [where P = "\<lambda>m a r. r \<noteq> Inl NoFuel"])
  fix f m a r
  assume "\<And>m a r. f m a = Some r \<Longrightarrow> r \<noteq> Inl NoFuel"
    and "(case get_hm m a of Inl e \<Rightarrow> Some (Inl e) | Inr None \<Rightarrow> Some (Inr a) | Inr (Some b) \<Rightarrow> f m b) = Some r"
  then show "r \<noteq> Inl NoFuel"
    using table_fuel(2) [of m a] by (auto split: sum.splits option.splits)
qed

lemma final_value_fuel [simp]: "final_value m a \<noteq> Inl NoFuel"
  using chase_fuel [of m a] by (auto simp: final_value_def split: option.splits)

lemma value_fuel [simp]:
  "expand_value m ts s \<noteq> Inl NoFuel" "subst_tokens m ts s \<noteq> Inl NoFuel"
  by (induction ts arbitrary: s) (auto simp: obind_eq_NoFuel split: option.splits)

lemma gather_lines_fuel [simp]: "gather_lines p inp \<noteq> Inl NoFuel"
proof (induction p inp rule: gather_lines.induct)
  case (1 p inp)
  then show ?case by (subst gather_lines.simps) (auto split: option.splits)
qed

lemma condition_fuel [simp]: "condition m t \<noteq> Inl NoFuel"
  by (auto simp: condition_def obind_eq_NoFuel outcome_simps)

lemma defineMap_fuel:
  assumes "weak_inv m" "length line < MAXLEN"
  shows "defineMap m line inp \<noteq> Inl NoFuel"
proof -
  have ins: "insert_hm m k v \<noteq> Inl NoFuel"
    if "fst (strtok (snd (strtok line delimiters_nl)) delimiters_nl) = Some k" for k v
    using table_ops_weak [OF assms(1) valid_token [OF fst_strtok_short [OF that snd_strtok_short [OF assms(2)]]], of v]
    by auto
  then show ?thesis
    by (auto simp: defineMap_def Let_def case_prod_beta obind_eq_NoFuel outcome_simps split: option.splits if_splits)
qed

lemma ifelse_line_fuel: "sound st \<Longrightarrow> length line < MAXLEN \<Longrightarrow> ifelse_line st line inp c d \<noteq> Inl NoFuel"
  using defineMap_fuel [of "pmap st" line inp]
  by (auto simp: ifelse_line_def sound_def obind_eq_NoFuel)

lemma ifelse_rest: "ifelse st inp c d = Inr (st', r) \<Longrightarrow> length r \<le> length inp"
proof (induction st inp c d rule: ifelse.induct)
  case (1 st inp c d)
  show ?case
  proof (cases "getLine inp")
    case None
    with "1.prems" show ?thesis by (simp add: ifelse.simps [of st inp c d])
  next
    case (Some lr)
    obtain line r1 where lr: "lr = (line, r1)" by (cases lr)
    then obtain step where step: "ifelse_line st line r1 c d = Inr step"
      "(case step of None \<Rightarrow> Inr (st, r1) | Some (s1, i1, c1, d1) \<Rightarrow> ifelse s1 i1 c1 d1) = Inr (st', r)"
      using "1.prems"(1) Some by (auto simp: ifelse.simps [of st inp c d] outcome_simps)
    have len: "length r1 < length inp" using getLine_consumes Some lr by simp
    show ?thesis
    proof (cases step)
      case None
      with step(2) len show ?thesis by simp
    next
      case (Some q)
      obtain s1 i1 c1 d1 where q: "q = (s1, i1, c1, d1)" by (cases q)
      have "length i1 \<le> length r1" using ifelse_line_rest step(1) Some q by simp
      moreover have "length r \<le> length i1"
        using "1.IH" [OF \<open>getLine inp = Some lr\<close> lr [symmetric] step(1) Some] q step(2) Some by simp
      ultimately show ?thesis using len by simp
    qed
  qed
qed

lemma ifelse_fuel: "sound st \<Longrightarrow> ifelse st inp c d \<noteq> Inl NoFuel"
proof (induction st inp c d rule: ifelse.induct)
  case (1 st inp c d)
  show ?case
  proof (cases "getLine inp")
    case None
    then show ?thesis by (simp add: ifelse.simps)
  next
    case (Some lr)
    obtain line r where lr: "lr = (line, r)" by (cases lr)
    have len: "length line < MAXLEN" using getLine_length Some lr by simp
    have "ifelse s1 i1 c1 d1 \<noteq> Inl NoFuel"
      if step: "ifelse_line st line r c d = Inr (Some (s1, i1, c1, d1))" for s1 i1 c1 d1
      using "1.IH" [OF Some lr [symmetric] step refl] ifelse_line_sound [OF step "1.prems" len] by simp
    then show ?thesis
      using Some lr ifelse_line_fuel [OF "1.prems" len]
      by (subst ifelse.simps) (auto simp: obind_eq_NoFuel split: option.splits)
  qed
qed

text \<open>Without a file to include, the recursion of the model is over the lines of the input.\<close>

definition no_files :: "penv \<Rightarrow> bool" where
  "no_files env \<longleftrightarrow> pfiles env = (\<lambda>_. None)"

lemma search_dirs_no_files: "search_dirs (\<lambda>_. None) f ds = Inr None \<or> search_dirs (\<lambda>_. None) f ds = Inl Undefined"
proof (induction ds)
  case (Cons d ds)
  then show ?case by (cases d) auto
qed simp

lemma do_include_no_files:
  "no_files env \<Longrightarrow> do_include parse env st line \<noteq> Inl NoFuel \<and> (\<forall>s. do_include parse env st line \<noteq> Inr s)"
  using search_dirs_no_files [of "the (include_name line)" "directories env"]
  by (cases "include_name line") (auto simp: do_include_def getIncFile_def no_files_def)

lemma parse_line_no_files:
  assumes env: "no_files env" and st: "sound st" and line: "length line < MAXLEN"
    and ifd: "\<And>c. ifd st inp c \<noteq> Inl NoFuel"
      "\<And>c s i. ifd st inp c = Inr (s, i) \<Longrightarrow> length i \<le> length inp"
  shows "parse_line parse ifd env st line inp \<noteq> Inl NoFuel
    \<and> (\<forall>s i. parse_line parse ifd env st line inp = Inr (s, i) \<longrightarrow> length i \<le> length inp)"
proof (cases "fst (strtok line delimiters)")
  case None
  then show ?thesis by (simp add: parse_line_def)
next
  case (Some token)
  then show ?thesis
  proof (cases token rule: token_cases)
    case Define
    with Some show ?thesis
      using defineMap_fuel [of "pmap st" line inp] st line
      by (auto simp: parse_line_simps obind_eq_NoFuel outcome_simps sound_def dest: defineMap_rest)
  next
    case Cond
    with Some show ?thesis
      using ifelse_fuel [OF st] by (auto simp: parse_line_simps obind_eq_NoFuel outcome_simps dest: ifelse_rest)
  next
    case Include
    with Some show ?thesis
      using do_include_no_files [OF env, of parse st line]
      by (auto simp: parse_line_simps obind_eq_NoFuel outcome_simps)
  qed (use ifd Some in \<open>auto simp: parse_line_simps parse_line_plain obind_eq_NoFuel outcome_simps\<close>)
qed

lemma ifdef_line_no_files:
  assumes env: "no_files env" and st: "sound st" and line: "length line < MAXLEN"
    and ifd: "\<And>c. ifd st inp c \<noteq> Inl NoFuel"
      "\<And>c s i. ifd st inp c = Inr (s, i) \<Longrightarrow> length i \<le> length inp"
  shows "ifdef_line parse ifd env st line inp cnd \<noteq> Inl NoFuel
    \<and> (\<forall>s i c. ifdef_line parse ifd env st line inp cnd = Inr (Some (s, i, c)) \<longrightarrow> length i \<le> length inp)"
proof -
  have "defineMap (pmap st) line inp \<noteq> Inl NoFuel"
    using defineMap_fuel st line by (simp add: sound_def)
  moreover have "ifelse st inp c False \<noteq> Inl NoFuel" for c by (rule ifelse_fuel [OF st])
  ultimately show ?thesis
    using do_include_no_files [OF env, of parse st line] ifd
    by (auto simp: ifdef_line_def obind_eq_NoFuel outcome_simps split: if_splits
        dest: ifelse_rest defineMap_rest)
qed

lemma enough_fuel:
  assumes env: "no_files env"
  shows "(sound st \<and> length inp < n \<longrightarrow> parseFile n env st inp \<noteq> Inl NoFuel)
    \<and> (sound st \<and> length inp < n \<longrightarrow> ifdef n env st inp c \<noteq> Inl NoFuel
       \<and> (\<forall>s i. ifdef n env st inp c = Inr (s, i) \<longrightarrow> length i \<le> length inp))"
proof (induction n arbitrary: st inp c)
  case (Suc n)
  show ?case
  proof (cases "getLine inp")
    case None
    then show ?thesis by (auto simp: parseFile.simps(2) ifdef.simps(2))
  next
    case (Some lr)
    obtain line r where lr: "lr = (line, r)" by (cases lr)
    have len: "length line < MAXLEN" "length r < length inp"
      using getLine_length getLine_consumes Some lr by auto
    show ?thesis
    proof (cases "sound st \<and> length inp < Suc n")
      case True
      then have st: "sound st" and n: "length r < n" using len by auto
      have ifd: "ifdef n env st r c' \<noteq> Inl NoFuel"
        "ifdef n env st r c' = Inr (s, i) \<Longrightarrow> length i \<le> length r" for c' s i
        using Suc.IH [of st r c'] st n by blast+
      have ifd1: "ifdef n env st r c' \<noteq> Inl NoFuel" for c' by (rule ifd)
      have ifd2: "length i \<le> length r" if "ifdef n env st r c' = Inr (s, i)" for c' s i
        using that by (rule ifd)
      have snd1: "sound s" if "parseFile n env s0 i0 = Inr s" "sound s0" for s s0 i0
        using parse_sound [of n env s0 i0 s] that by blast
      have snd2: "sound s" if "ifdef n env s0 i0 c0 = Inr (s, i)" "sound s0" for s s0 i0 c0 i
        using parse_sound [of n env s0 i0 _ c0 s i] that by blast
      have PL: "parse_line (parseFile n env) (ifdef n env) env st line r \<noteq> Inl NoFuel
        \<and> (\<forall>s i. parse_line (parseFile n env) (ifdef n env) env st line r = Inr (s, i) \<longrightarrow> length i \<le> length r)"
        by (rule parse_line_no_files [OF env st len(1)]) (use ifd1 ifd2 in blast)+
      have IL: "ifdef_line (parseFile n env) (ifdef n env) env st line r c \<noteq> Inl NoFuel
        \<and> (\<forall>s i c'. ifdef_line (parseFile n env) (ifdef n env) env st line r c = Inr (Some (s, i, c')) \<longrightarrow> length i \<le> length r)"
        by (rule ifdef_line_no_files [OF env st len(1)]) (use ifd1 ifd2 in blast)+
      have next1: "parseFile n env s i \<noteq> Inl NoFuel"
        if R: "parse_line (parseFile n env) (ifdef n env) env st line r = Inr (s, i)" for s i
      proof -
        have "sound s" by (rule parse_line_sound [OF R st len(1)]) (use snd1 snd2 in blast)+
        moreover have "length i < n" using PL R n by fastforce
        ultimately show ?thesis using Suc.IH [of s i] by blast
      qed
      have next2: "ifdef n env s i c1 \<noteq> Inl NoFuel \<and> (\<forall>s' i'. ifdef n env s i c1 = Inr (s', i') \<longrightarrow> length i' \<le> length inp)"
        if R: "ifdef_line (parseFile n env) (ifdef n env) env st line r c = Inr (Some (s, i, c1))" for s i c1
      proof -
        have "sound s" by (rule ifdef_line_sound [OF R st len(1)]) (use snd1 snd2 in blast)+
        moreover have i: "length i \<le> length r" using IL R by blast
        ultimately have "ifdef n env s i c1 \<noteq> Inl NoFuel \<and> (\<forall>s' i'. ifdef n env s i c1 = Inr (s', i') \<longrightarrow> length i' \<le> length i)"
          using Suc.IH [of s i c1] n by (meson le_less_trans)
        then show ?thesis using i len(2) by (meson dual_order.trans less_imp_le)
      qed
      show ?thesis
        using Some lr next1 next2 len(2) PL IL
        by (auto simp: parseFile.simps(2) ifdef.simps(2) obind_eq_NoFuel outcome_simps split: option.splits)
    qed blast
  qed
qed simp

end
