(* ===== verification/PpProps.thy ===== *)
theory PpProps
  imports PpFuel
begin

text \<open>
  What the preprocessor of \<^verbatim>\<open>assignments/1-multi\<close> does: text without macros is copied,
  conditionals select one branch, definitions are used; and the behaviours of the code that its
  README does not mean.
\<close>

section \<open>Text and conditionals\<close>

definition unlines :: "string list \<Rightarrow> string" where
  "unlines ls = concat (map (\<lambda>l. l @ [NL]) ls)"

lemma unlines_simps [simp]: "unlines [] = []" "unlines (l # ls) = l @ NL # unlines ls"
  by (simp_all add: unlines_def)

text \<open>A line whose tokens are no directive and not defined.\<close>

definition plain_line :: "HashMap \<Rightarrow> string \<Rightarrow> bool" where
  "plain_line m l \<longleftrightarrow> text_line l
     \<and> (case tokens (l @ [NL]) delimiters of [] \<Rightarrow> False | t # _ \<Rightarrow> plain_token t)
     \<and> (\<forall>t \<in> set (tokens (l @ [NL]) delimiters). hm_map m t = None)"

lemma line_token_valid:
  assumes "text_line l" "t \<in> set (tokens (l @ [NL]) d)"
  shows "valid_key t"
  using tokens_props [OF assms(2)] assms(1) by (intro valid_token) (auto simp: text_line_def MAXLEN_def)

lemma get_token:
  "hm_inv m \<Longrightarrow> text_line l \<Longrightarrow> t \<in> set (tokens (l @ [NL]) d) \<Longrightarrow> get_hm m t = Inr (hm_map m t)"
  by (rule hm.get_any) (auto intro: line_token_valid)

lemma subst_none:
  "(\<And>t. t \<in> set ts \<Longrightarrow> get_hm m t = Inr None) \<Longrightarrow> subst_tokens m ts s = Inr s"
  by (induction ts) auto

lemma subst_append:
  "(\<And>t. t \<in> set ts \<Longrightarrow> get_hm m t = Inr None) \<Longrightarrow> subst_tokens m (ts @ us) s = subst_tokens m us s"
  by (induction ts) auto

lemma hd_token: "tokens s d = t # ts \<Longrightarrow> fst (strtok s d) = Some t"
  by (cases "strtok s d"; cases "fst (strtok s d)") (auto simp: tokens.simps [of s d])

lemma parse_plain_line:
  assumes "hm_inv (pmap st)" "plain_line (pmap st) l"
  shows "parseFile (Suc n) env st (l @ NL # r) = parseFile n env (fputs (l @ [NL]) st) r"
proof -
  obtain t ts where t: "tokens (l @ [NL]) delimiters = t # ts" "plain_token t"
    using assms(2) by (auto simp: plain_line_def split: list.splits)
  have "subst_tokens (pmap st) (tokens (l @ [NL]) delimiters) (l @ [NL]) = Inr (l @ [NL])"
    using assms get_token by (intro subst_none) (auto simp: plain_line_def)
  then show ?thesis
    using assms(2) parse_line_plain [OF hd_token [OF t(1)] t(2)]
    by (simp add: parseFile.simps(2) getLine_line plain_line_def)
qed

lemma fputs_fputs [simp]: "fputs b (fputs a st) = fputs (a @ b) st"
  by (simp add: fputs_def)

lemma fputs_Nil [simp]: "fputs [] st = st"
  by (simp add: fputs_def)

lemma pmap_fputs [simp]: "pmap (fputs s st) = pmap st"
  by (simp add: fputs_def)

lemma parse_plain_lines:
  assumes "hm_inv (pmap st)" "\<forall>l \<in> set ls. plain_line (pmap st) l"
  shows "parseFile (length ls + k) env st (unlines ls @ r) = parseFile k env (fputs (unlines ls) st) r"
  using assms
proof (induction ls arbitrary: st)
  case (Cons l ls)
  have "parseFile (length (l # ls) + k) env st (unlines (l # ls) @ r)
      = parseFile (length ls + k) env (fputs (l @ [NL]) st) (unlines ls @ r)"
    using parse_plain_line [of st l "length ls + k" env] Cons.prems by simp
  also have "\<dots> = parseFile k env (fputs (unlines (l # ls)) st) r"
    using Cons by simp
  finally show ?case .
qed simp

text \<open>Body lines of conditionals that are not directives.\<close>

definition inert :: "string \<Rightarrow> bool" where
  "inert l \<longleftrightarrow> text_line l \<and> take 1 l \<noteq> ''#''"

lemma inert_not_directive: "inert l \<Longrightarrow> \<not> starts_with (CHR ''#'' # d) (l @ [NL])"
  by (cases l) (auto simp: inert_def starts_with_def)

definition nonblank :: "string list \<Rightarrow> string list" where
  "nonblank ls = filter (\<lambda>l. l \<noteq> []) ls"

lemma take1_line: "inert l \<Longrightarrow> (take 1 (l @ [NL]) \<noteq> [NL]) = (l \<noteq> [])"
  by (cases l) (auto simp: inert_def text_line_def)

lemma strtok_directive:
  assumes "d \<noteq> []" "set d \<inter> set delimiters = {}" "NL \<notin> set c" "c \<noteq> []"
  shows "fst (strtok (d @ CHR '' '' # c @ [NL]) delimiters) = Some d"
    and "fst (strtok (snd (strtok (d @ CHR '' '' # c @ [NL]) delimiters)) [NL]) = Some c"
proof -
  have 1: "strtok (d @ CHR '' '' # c @ [NL]) delimiters = (Some d, c @ [NL])"
    using assms(1,2) by (intro strtok_word) (auto simp: delimiters_def)
  have 2: "strtok (c @ NL # []) [NL] = (Some c, [])"
    using assms(3,4) by (intro strtok_word) auto
  from 1 2 show "fst (strtok (d @ CHR '' '' # c @ [NL]) delimiters) = Some d"
    "fst (strtok (snd (strtok (d @ CHR '' '' # c @ [NL]) delimiters)) [NL]) = Some c"
    by auto
qed

lemma text_line_append: "text_line (d @ c) \<Longrightarrow> text_line d" "text_line (d @ c) \<Longrightarrow> text_line c"
  by (auto simp: text_line_def)

text \<open>The name or condition of a directive line: the text after the first blank.\<close>

definition argument :: "string \<Rightarrow> string \<Rightarrow> bool" where
  "argument d c \<longleftrightarrow> c \<noteq> [] \<and> text_line (d @ CHR '' '' # c)"

lemma argument_line:
  assumes "argument d c"
  shows "getLine (d @ CHR '' '' # c @ NL # r) = Some (d @ CHR '' '' # c @ [NL], r)" "NL \<notin> set c" "c \<noteq> []" "valid_key c"
proof -
  show "getLine (d @ CHR '' '' # c @ NL # r) = Some (d @ CHR '' '' # c @ [NL], r)"
    using getLine_line [of "d @ CHR '' '' # c" r] assms by (simp add: argument_def)
  show "valid_key c" using assms by (intro valid_token) (auto simp: argument_def text_line_def MAXLEN_def)
qed (use assms in \<open>auto simp: argument_def text_line_def\<close>)

subsection \<open>\<^verbatim>\<open>ifdef\<close>\<close>

lemma ifdef_line_inert:
  "inert l \<Longrightarrow> ifdef_line parse ifd env st (l @ [NL]) r c = Inr (Some (if c \<and> l \<noteq> [] then fputs (l @ [NL]) st else st, r, c))"
  using take1_line [of l] by (simp add: ifdef_line_def inert_not_directive)

lemma ifdef_body:
  assumes "\<forall>l \<in> set A. inert l"
  shows "ifdef (length A + k) env st (unlines A @ r) c
    = ifdef k env (if c then fputs (unlines (nonblank A)) st else st) r c"
  using assms
proof (induction A arbitrary: st)
  case (Cons l A)
  have "text_line l" using Cons.prems by (simp add: inert_def)
  with Cons show ?case
    by (simp add: ifdef.simps(2) getLine_line ifdef_line_inert nonblank_def)
qed (simp add: nonblank_def)

lemma ifdef_else: "ifdef (Suc k) env st (''#else'' @ NL # r) c = ifdef k env st r (\<not> c)"
proof -
  have "getLine (''#else'' @ NL # r) = Some (''#else'' @ [NL], r)"
    by (rule getLine_line) (simp add: text_line_def MAXLEN_def)
  then show ?thesis by (simp add: ifdef.simps(2) ifdef_line_def starts_with_def)
qed

lemma ifdef_endif: "ifdef (Suc k) env st (''#endif'' @ NL # r) c = Inr (st, r)"
proof -
  have "getLine (''#endif'' @ NL # r) = Some (''#endif'' @ [NL], r)"
    by (rule getLine_line) (simp add: text_line_def MAXLEN_def)
  then show ?thesis by (simp add: ifdef.simps(2) ifdef_line_def starts_with_def)
qed

lemma ifdef_group:
  assumes "\<forall>l \<in> set A. inert l" "\<forall>l \<in> set B. inert l" "length A + length B + 2 \<le> n"
  shows "ifdef n env st (unlines A @ ''#else'' @ NL # unlines B @ ''#endif'' @ NL # r) c
    = Inr (fputs (unlines (nonblank (if c then A else B))) st, r)"
proof -
  define k where "k = n - (length A + length B + 2)"
  have n: "n = length A + Suc (length B + Suc k)" using assms(3) by (simp add: k_def)
  show ?thesis
    unfolding n ifdef_body [OF assms(1)] ifdef_else ifdef_body [OF assms(2)] ifdef_endif by simp
qed

text \<open>C9: A conditional on a macro name, \<^verbatim>\<open>#ifdef K\<close> or \<^verbatim>\<open>#ifndef K\<close> with its \<^verbatim>\<open>#else\<close> and
\<^verbatim>\<open>#endif\<close>, whose bodies hold no directive: the text written is the body that the table
selects, without its empty lines, unexpanded; the other body is read and dropped, and the
main loop goes on after the \<^verbatim>\<open>#endif\<close>.\<close>

theorem ifdef_selects_branch:
  assumes "hm_inv (pmap st)" "argument (if neg then ''#ifndef'' else ''#ifdef'') K"
    and "\<forall>l \<in> set A. inert l" "\<forall>l \<in> set B. inert l" "length A + length B + 2 \<le> n"
  shows "parseFile (Suc n) env st ((if neg then ''#ifndef'' else ''#ifdef'') @ CHR '' '' # K @ NL # unlines A
      @ ''#else'' @ NL # unlines B @ ''#endif'' @ NL # r)
    = parseFile n env (fputs (unlines (nonblank (if (hm_map (pmap st) K \<noteq> None) \<noteq> neg then A else B))) st) r"
proof -
  let ?d = "if neg then ''#ifndef'' else ''#ifdef''"
  note arg = argument_line [OF assms(2)]
  note dir = strtok_directive [of ?d K, OF _ _ arg(2,3)]
  have d: "?d \<noteq> []" "set ?d \<inter> set delimiters = {}" by (auto simp: delimiters_def)
  have get: "get_hm (pmap st) K = Inr (hm_map (pmap st) K)" by (rule hm.get_any [OF assms(1) arg(4)])
  show ?thesis
    using dir [OF d] get arg(1)
    by (cases neg) (simp_all add: parseFile.simps(2) parse_line_simps ifdef_group [OF assms(3-5), simplified])
qed

definition no_env :: penv where
  "no_env = \<lparr>pfiles = (\<lambda>_. None), directories = [], inFileName = []\<rparr>"

definition start :: pstate where
  "start = \<lparr>pmap = createHashMap 6, pout = []\<rparr>"

lemma start_inv [simp]: "hm_inv (pmap start)" "hm_map (pmap start) = Map.empty" "sound start"
  using createHashMap_inv [of 6] by (simp_all add: start_def sound_def hm_inv_def)

theorem ifdef_selects_branch_witness:
  "parseFile 7 no_env start (''#ifndef'' @ CHR '' '' # ''DEBUG'' @ NL # unlines [''a'', [], ''b'']
      @ ''#else'' @ NL # unlines [''c''] @ ''#endif'' @ NL # ''x'')
    = parseFile 6 no_env (fputs (''a'' @ NL # ''b'' @ [NL]) start) ''x''"
proof -
  have h: "argument (if True then ''#ifndef'' else ''#ifdef'') ''DEBUG''" "\<forall>l \<in> set [''a'', [], ''b'']. inert l" "\<forall>l \<in> set [''c'']. inert l"
    by (auto simp: argument_def text_line_def MAXLEN_def inert_def)
  show ?thesis
    using ifdef_selects_branch [OF start_inv(1) h, of 6 no_env "''x''"]
    by (simp add: nonblank_def)
qed

subsection \<open>\<^verbatim>\<open>ifelse\<close>\<close>

lemma ifelse_body:
  assumes "\<forall>l \<in> set A. inert l"
  shows "ifelse st (unlines A @ r) c d
    = ifelse (if c \<and> \<not> d then fputs (unlines (nonblank A)) st else st) r c d"
  using assms
proof (induction A arbitrary: st)
  case (Cons l A)
  have l: "inert l" "text_line l" using Cons.prems by (auto simp: inert_def)
  have "ifelse_line st (l @ [NL]) s c d
      = Inr (Some (if c \<and> \<not> d \<and> l \<noteq> [] then fputs (l @ [NL]) st else st, s, c, d))" for s
    using take1_line [OF l(1)] l(1) by (simp add: ifelse_line_def inert_not_directive)
  with Cons l show ?case
    by (simp add: ifelse.simps [of st "l @ NL # (unlines A @ r)"] getLine_line nonblank_def)
qed (simp add: nonblank_def)

lemma ifelse_endif: "ifelse st (''#endif'' @ NL # r) c d = Inr (st, r)"
proof -
  have "getLine (''#endif'' @ NL # r) = Some (''#endif'' @ [NL], r)"
    by (rule getLine_line) (simp add: text_line_def MAXLEN_def)
  then show ?thesis by (simp add: ifelse.simps [of st "CHR ''#'' # x" for x] ifelse_line_def starts_with_def)
qed

lemma ifelse_else: "ifelse st (''#else'' @ NL # r) c d = ifelse st r (c \<or> \<not> d) (c \<or> d)"
proof -
  have "getLine (''#else'' @ NL # r) = Some (''#else'' @ [NL], r)"
    by (rule getLine_line) (simp add: text_line_def MAXLEN_def)
  then show ?thesis
    by (cases d; cases c) (simp_all add: ifelse.simps [of st "CHR ''#'' # x" for x] ifelse_line_def starts_with_def)
qed

text \<open>The truth of a condition in a table.\<close>

definition truth :: "HashMap \<Rightarrow> string \<Rightarrow> bool" where
  "truth m c \<longleftrightarrow> (case hm_map m c of Some x \<Rightarrow> x | None \<Rightarrow> c) \<noteq> ''0''"

lemma condition_truth: "hm_inv m \<Longrightarrow> valid_key c \<Longrightarrow> condition m (Some c) = Inr (truth m c)"
  by (simp add: condition_def truth_def hm.get_any)

lemma ifelse_elif:
  assumes "hm_inv (pmap st)" "argument ''#elif'' e"
  shows "ifelse st (''#elif'' @ CHR '' '' # e @ NL # r) c d
    = ifelse st r (if c \<or> d then c else truth (pmap st) e) (c \<or> d)"
proof -
  note arg = argument_line [OF assms(2)]
  have dir: "fst (strtok (snd (strtok (''#elif'' @ CHR '' '' # e @ [NL]) delimiters)) [NL]) = Some e"
    using arg by (intro strtok_directive) (auto simp: delimiters_def)
  show ?thesis
    using dir arg(1) condition_truth [OF assms(1) arg(4)]
    by (cases d; cases c) (simp_all add: ifelse.simps [of st "CHR ''#'' # x" for x] ifelse_line_def starts_with_def)
qed

text \<open>The text of the \<^verbatim>\<open>#elif\<close>s with their bodies, the \<^verbatim>\<open>#else\<close> and the \<^verbatim>\<open>#endif\<close>, and
the body a table chooses.\<close>

primrec elifs :: "(string \<times> string list) list \<Rightarrow> string list \<Rightarrow> string" where
  "elifs [] B = ''#else'' @ NL # unlines B @ ''#endif'' @ [NL]"
| "elifs (eA # gs) B = ''#elif'' @ CHR '' '' # fst eA @ NL # unlines (snd eA) @ elifs gs B"

primrec chosen :: "HashMap \<Rightarrow> (string \<times> string list) list \<Rightarrow> string list \<Rightarrow> string list" where
  "chosen m [] B = B"
| "chosen m (eA # gs) B = (if truth m (fst eA) then snd eA else chosen m gs B)"

definition group_ok :: "(string \<times> string list) list \<Rightarrow> string list \<Rightarrow> bool" where
  "group_ok gs B \<longleftrightarrow> (\<forall>eA \<in> set gs. argument ''#elif'' (fst eA) \<and> (\<forall>l \<in> set (snd eA). inert l)) \<and> (\<forall>l \<in> set B. inert l)"

lemma elifs_done:
  "hm_inv (pmap st) \<Longrightarrow> group_ok gs B \<Longrightarrow> ifelse st (elifs gs B @ r) True d = Inr (st, r)"
proof (induction gs arbitrary: d)
  case Nil
  then show ?case
    using ifelse_else [of st "unlines B @ ''#endif'' @ NL # r" True d]
      ifelse_body [of B st "''#endif'' @ NL # r" True True] ifelse_endif [of st r True True]
    by (simp add: group_ok_def)
next
  case (Cons eA gs)
  then show ?case
    using ifelse_elif [of st "fst eA" "unlines (snd eA) @ elifs gs B @ r" True d]
      ifelse_body [of "snd eA" st "elifs gs B @ r" True True]
    by (simp add: group_ok_def)
qed

lemma elifs_choose:
  "hm_inv (pmap st) \<Longrightarrow> group_ok gs B
   \<Longrightarrow> ifelse st (elifs gs B @ r) False False = Inr (fputs (unlines (nonblank (chosen (pmap st) gs B))) st, r)"
proof (induction gs)
  case Nil
  then show ?case
    using ifelse_else [of st "unlines B @ ''#endif'' @ NL # r" False False]
      ifelse_body [of B st "''#endif'' @ NL # r" True False] ifelse_endif [of "fputs (unlines (nonblank B)) st" r True False]
    by (simp add: group_ok_def)
next
  case (Cons eA gs)
  have ok: "group_ok gs B" "argument ''#elif'' (fst eA)" "\<forall>l \<in> set (snd eA). inert l"
    using Cons.prems(2) by (auto simp: group_ok_def)
  have "ifelse st (elifs (eA # gs) B @ r) False False
      = ifelse st (unlines (snd eA) @ elifs gs B @ r) (truth (pmap st) (fst eA)) False"
    using ifelse_elif [OF Cons.prems(1) ok(2), of "unlines (snd eA) @ elifs gs B @ r" False False] by simp
  then show ?case
    using Cons.IH [OF Cons.prems(1) ok(1)] ifelse_body [OF ok(3), of st "elifs gs B @ r"]
      elifs_done [of "fputs (unlines (nonblank (snd eA))) st" gs B r False] Cons.prems(1) ok(1)
    by auto
qed

text \<open>C11: A conditional \<^verbatim>\<open>#if\<close> with any number of \<^verbatim>\<open>#elif\<close>s, an \<^verbatim>\<open>#else\<close> and bodies without
directives: the text written is the body of the first condition that is true in the table (the
body of the \<^verbatim>\<open>#else\<close> when none is) without its empty lines, and the main loop goes on after the
\<^verbatim>\<open>#endif\<close>.  A condition is false exactly when its value, or its own text, is 0.\<close>

theorem if_selects_first_true:
  assumes "hm_inv (pmap st)" "argument ''#if'' c" "\<forall>l \<in> set A. inert l" "group_ok gs B"
  shows "parseFile (Suc n) env st (''#if'' @ CHR '' '' # c @ NL # unlines A @ elifs gs B @ r)
    = parseFile n env (fputs (unlines (nonblank (chosen (pmap st) ((c, A) # gs) B))) st) r"
proof -
  note arg = argument_line [OF assms(2)]
  have "set ''#if'' \<inter> set delimiters = {}" by (simp add: delimiters_def)
  note dir = strtok_directive [of "''#if''" c, OF _ this arg(2,3)]
  have "ifelse st (unlines A @ elifs gs B @ r) (truth (pmap st) c) False
      = Inr (fputs (unlines (nonblank (chosen (pmap st) ((c, A) # gs) B))) st, r)"
    using ifelse_body [OF assms(3), of st "elifs gs B @ r"] elifs_choose [OF assms(1,4)]
      elifs_done [of "fputs (unlines (nonblank A)) st" gs B r False] assms(1,4) by auto
  then show ?thesis
    using dir arg(1) condition_truth [OF assms(1) arg(4)]
    by (simp add: parseFile.simps(2) parse_line_simps)
qed

theorem if_selects_first_true_witness:
  "parseFile 3 no_env start (''#if'' @ CHR '' '' # ''0'' @ NL # unlines [''a''] @ elifs [(''LEVEL'', [''b'', []])] [''c''] @ ''x'')
    = parseFile 2 no_env (fputs (''b'' @ [NL]) start) ''x''"
proof -
  have h: "argument ''#if'' ''0''" "\<forall>l \<in> set [''a'']. inert l" "group_ok [(''LEVEL'', [''b'', []])] [''c'']"
    by (auto simp: argument_def text_line_def MAXLEN_def inert_def group_ok_def)
  show ?thesis
    using if_selects_first_true [OF start_inv(1) h, of 2 no_env "''x''"]
    by (simp add: nonblank_def truth_def)
qed

end
