(* ===== verification/PpMacros.thy ===== *)
theory PpMacros
  imports PpProps
begin

text \<open>
  Properties of whole runs of the preprocessor of \<^verbatim>\<open>assignments/1-multi\<close>: macros, the fuel of
  the model, the command line, and the runs that its README does not mean.
\<close>

section \<open>Invariant and fuel\<close>

text \<open>C22: Whatever the input, the directives leave the table in order.  When a run of \<^verbatim>\<open>parseFile\<close> has
returned, every lookup, insertion and deletion of a key of a line returns: the count is still an
upper bound of the used slots, a slot is free, and every stored key can be hashed; and
the table after the insertion or the deletion is in order again.\<close>

theorem parse_keeps_table:
  assumes "parseFile n env st inp = Inr st'" "weak_inv (pmap st)"
  shows "weak_inv (pmap st')
    \<and> (\<forall>k v. length k < MAXLEN \<longrightarrow>
         (\<exists>p. get_hm (pmap st') k = Inr p)
       \<and> (\<exists>m. insert_hm (pmap st') k v = Inr m \<and> weak_inv m)
       \<and> (\<exists>m. deleteKey (pmap st') k = Inr m \<and> weak_inv m))"
proof -
  have w: "weak_inv (pmap st')"
    using parse_sound [of n env st inp st'] assms by (simp add: sound_def)
  then show ?thesis using table_ops_weak [OF w valid_token] by blast
qed

text \<open>A text that defines a macro and removes it again.\<close>

theorem parse_keeps_table_witness:
  "\<exists>st'. parseFile 4 no_env start (''#define A 1'' @ NL # ''#undef A'' @ NL # ''int x;'' @ [NL]) = Inr st'
    \<and> pout st' = ''int x;'' @ [NL] \<and> cnt (pmap st') = 1
    \<and> weak_inv (pmap st') \<and> (\<exists>m. deleteKey (pmap st') ''A'' = Inr m \<and> weak_inv m)"
proof -
  let ?text = "''#define A 1'' @ NL # ''#undef A'' @ NL # ''int x;'' @ [NL]"
  have "case parseFile 4 no_env start ?text of
      Inl _ \<Rightarrow> False | Inr st' \<Rightarrow> pout st' = ''int x;'' @ [NL] \<and> cnt (pmap st') = 1"
    by code_simp
  then obtain st' where st': "parseFile 4 no_env start ?text = Inr st'" "pout st' = ''int x;'' @ [NL]" "cnt (pmap st') = 1"
    by (cases "parseFile 4 no_env start ?text") (simp_all only: sum.case)
  have "weak_inv (pmap start)" using start_inv(3) by (simp add: sound_def)
  from parse_keeps_table [OF st'(1) this] st' show ?thesis by (simp add: MAXLEN_def)
qed

text \<open>Without files to include, as many units of fuel as the input has bytes, and one more,
are enough for \<^verbatim>\<open>parseFile\<close>, and more of them give the same result; so the bound of the
model is not felt.\<close>

lemma fuel_is_enough:
  assumes "no_files env" "weak_inv (pmap st)" "length inp < n"
  shows "parseFile n env st inp \<noteq> Inl NoFuel \<and> parseFile (n + k) env st inp = parseFile n env st inp"
  using enough_fuel [OF assms(1), of st inp n] more_fuel [of n env st inp k] assms(2,3)
  by (auto simp: sound_def below_def)

section \<open>Text and macros\<close>

text \<open>Text that names no macro and begins no line with a directive is copied to the output
byte by byte, whatever the table holds otherwise.\<close>

theorem plain_text_copied:
  assumes "hm_inv (pmap st)" "\<forall>l \<in> set ls. plain_line (pmap st) l" "length ls < n"
  shows "parseFile n env st (unlines ls) = Inr (fputs (unlines ls) st)"
proof -
  obtain k where n: "n = length ls + Suc k"
    using assms(3) less_imp_Suc_add by auto
  show ?thesis
    using parse_plain_lines [OF assms(1,2), of "Suc k" env "[]"] by (simp add: n parseFile.simps(2))
qed

theorem plain_text_copied_witness:
  "parseFile 3 no_env start (unlines [''int a;'', ''}'' @ '' b'']) = Inr (fputs (unlines [''int a;'', ''}'' @ '' b'']) start)"
proof -
  have "\<forall>l \<in> set [''int a;'', ''}'' @ '' b'']. plain_line (pmap start) l"
    by code_simp
  from plain_text_copied [OF start_inv(1) this, of 3 no_env] show ?thesis by simp
qed

text \<open>A line \<^verbatim>\<open>#define K V\<close> of one line, where no token of the value is a macro.\<close>

definition define_line :: "HashMap \<Rightarrow> string \<Rightarrow> string \<Rightarrow> bool" where
  "define_line m K V \<longleftrightarrow> K \<noteq> [] \<and> V \<noteq> [] \<and> set K \<inter> set delimiters = {}
     \<and> text_line (''#define '' @ K @ CHR '' '' # V) \<and> last V \<noteq> BSLASH
     \<and> (\<forall>t \<in> set (tokens V delimiters_nl). hm_map m t = None)"

lemma expand_none:
  "(\<And>t. t \<in> set ts \<Longrightarrow> get_hm m t = Inr None) \<Longrightarrow> expand_value m ts s = Inr s"
  by (induction ts) auto

lemma defineMap_line:
  assumes m: "hm_inv m" and d: "define_line m K V"
  shows "defineMap m (''#define '' @ K @ CHR '' '' # V @ [NL]) inp
    = obind (insert_hm m K V) (\<lambda>m'. Inr (m', inp))"
proof -
  have h: "K \<noteq> []" "V \<noteq> []" "set K \<inter> set delimiters = {}" "NL \<notin> set K" "NL \<notin> set V" "last V \<noteq> BSLASH"
    "length V < MAXLEN"
    using d by (auto simp: define_line_def text_line_def)
  have 1: "strtok (''#define'' @ CHR '' '' # K @ CHR '' '' # V @ [NL]) delimiters_nl = (Some ''#define'', K @ CHR '' '' # V @ [NL])"
    by (rule strtok_word) (auto simp: delimiters_nl_def delimiters_def)
  have 2: "strtok (K @ CHR '' '' # V @ [NL]) delimiters_nl = (Some K, V @ [NL])"
    using h by (intro strtok_word) (auto simp: delimiters_nl_def delimiters_def)
  have 3: "strtok (V @ NL # []) [NL] = (Some V, [])"
    using h by (intro strtok_word) auto
  have get: "get_hm m t = Inr None" if t: "t \<in> set (tokens V delimiters_nl)" for t
  proof -
    have "length t < MAXLEN" using tokens_props [OF t] h(7) by simp
    then have "get_hm m t = Inr (hm_map m t)" by (intro hm.get_any [OF m] valid_token)
    then show ?thesis using t d by (simp add: define_line_def)
  qed
  show ?thesis
    using 1 2 3 h(6) expand_none [OF get] by (simp add: defineMap_def)
qed

lemma parse_define:
  assumes st: "hm_inv (pmap st)" and d: "define_line (pmap st) K V"
  obtains m where "hm_inv m" "hm_map m = (hm_map (pmap st))(K \<mapsto> V)"
    "\<And>n env r. parseFile (Suc n) env st (''#define '' @ K @ CHR '' '' # V @ NL # r) = parseFile n env (st\<lparr>pmap := m\<rparr>) r"
proof -
  have line: "text_line (''#define '' @ K @ CHR '' '' # V)" using d by (simp add: define_line_def)
  have "valid_key K" using line by (intro valid_token) (auto simp: text_line_def MAXLEN_def)
  then obtain m where m: "insert_hm (pmap st) K V = Inr m" "hm_inv m" "hm_map m = (hm_map (pmap st))(K \<mapsto> V)"
    using hm.ins_any [OF st] by blast
  have 1: "strtok (''#define'' @ CHR '' '' # K @ CHR '' '' # V @ [NL]) delimiters = (Some ''#define'', K @ CHR '' '' # V @ [NL])"
    by (rule strtok_word) (auto simp: delimiters_def)
  have "parseFile (Suc n) env st (''#define '' @ K @ CHR '' '' # V @ NL # r) = parseFile n env (st\<lparr>pmap := m\<rparr>) r" for n env r
    using getLine_line [OF line, of r] defineMap_line [OF st d, of r] m(1) 1
    by (simp add: parseFile.simps(2) parse_line_simps)
  with m that show thesis by blast
qed

text \<open>A line \<open>p K q\<close> whose only macro is the token K, its first occurrence in the line.\<close>

definition use_line :: "HashMap \<Rightarrow> string \<Rightarrow> string \<Rightarrow> string \<Rightarrow> bool" where
  "use_line m K p q \<longleftrightarrow> K \<noteq> [] \<and> text_line (p @ K @ q) \<and> QUOTE \<notin> set (p @ K @ q)
     \<and> (\<forall>j < length p. \<not> starts_with K (drop j (p @ K @ q @ [NL])))
     \<and> plain_token (hd (tokens (p @ K @ q @ [NL]) delimiters))
     \<and> filter (\<lambda>t. t = K \<or> hm_map m t \<noteq> None) (tokens (p @ K @ q @ [NL]) delimiters) = [K]"

lemma subst_use:
  assumes m: "hm_inv m" "hm_map m = m0(K \<mapsto> V)"
    and ts: "filter (\<lambda>t. t = K \<or> m0 t \<noteq> None) ts = [K]" "\<forall>t \<in> set ts. length t < MAXLEN"
  shows "subst_tokens m ts s = replace s K V"
proof -
  obtain as bs where "ts = as @ K # bs" "\<forall>t \<in> set as. \<not> (t = K \<or> m0 t \<noteq> None)"
    and bs: "[] = filter (\<lambda>t. t = K \<or> m0 t \<noteq> None) bs"
    using ts(1) unfolding filter_eq_Cons_iff by blast
  moreover have "\<forall>t \<in> set bs. \<not> (t = K \<or> m0 t \<noteq> None)"
    using bs [symmetric] unfolding filter_empty_conv .
  ultimately have ab: "ts = as @ K # bs" "\<forall>t \<in> set as \<union> set bs. \<not> (t = K \<or> m0 t \<noteq> None)"
    by blast+
  have get: "get_hm m t = Inr ((m0(K \<mapsto> V)) t)" if "t \<in> set ts" for t
    using hm.get_any [OF m(1) valid_token] ts(2) that m(2) by simp
  have none: "get_hm m t = Inr None" if "t \<in> set as \<union> set bs" for t
    using get [of t] ab that by auto
  have "subst_tokens m ts s = subst_tokens m (K # bs) s"
    unfolding ab(1) by (rule subst_append) (use none in auto)
  also have "\<dots> = obind (replace s K V) (subst_tokens m bs)"
    using get [of K] ab(1) by simp
  also have "\<dots> = replace s K V"
    using subst_none [of bs m] none by (cases "replace s K V") auto
  finally show ?thesis .
qed

lemma parse_use:
  assumes m: "hm_inv (pmap st)" "hm_map (pmap st) = m0(K \<mapsto> V)" and u: "use_line m1 K p q" "hm_map m1 = m0"
  shows "parseFile (Suc n) env st (p @ K @ q @ NL # r) = parseFile n env (fputs (p @ V @ q @ [NL]) st) r"
proof -
  let ?l = "p @ K @ q"
  have h: "text_line ?l" "K \<noteq> []" "QUOTE \<notin> set (?l @ [NL])"
    "\<forall>j < length p. \<not> starts_with K (drop j (?l @ [NL]))" "plain_token (hd (tokens (?l @ [NL]) delimiters))"
    "filter (\<lambda>t. t = K \<or> m0 t \<noteq> None) (tokens (?l @ [NL]) delimiters) = [K]"
    using u by (auto simp: use_line_def)
  then obtain t ts where t: "tokens (?l @ [NL]) delimiters = t # ts" "plain_token t"
    by (cases "tokens (?l @ [NL]) delimiters") auto
  have "\<forall>t \<in> set (tokens (?l @ [NL]) delimiters). length t < MAXLEN"
    using tokens_props [of _ "?l @ [NL]" delimiters] h(1) by (fastforce simp: text_line_def MAXLEN_def)
  note subst = subst_use [OF m h(6) this, of "?l @ [NL]"]
  have "replace (?l @ [NL]) K V = Inr (p @ V @ q @ [NL])"
    using find_key_first [OF h(3), of p K "q @ [NL]"] h(2,4) by (simp add: replace_def)
  then show ?thesis
    using getLine_line [OF h(1), of r] subst parse_line_plain [OF hd_token [OF t(1)] t(2)]
    by (simp add: parseFile.simps(2))
qed

text \<open>A macro defined on one line is in the table with its value, and a later line whose
only macro token it is comes out with the value in place of that token (the value is not
expanded again).\<close>

theorem define_then_use:
  assumes "hm_inv (pmap st)" "define_line (pmap st) K V" "use_line (pmap st) K p q"
  shows "\<exists>m. hm_inv m \<and> hm_map m = (hm_map (pmap st))(K \<mapsto> V)
    \<and> parseFile (Suc (Suc n)) env st (''#define '' @ K @ CHR '' '' # V @ NL # p @ K @ q @ NL # r)
      = parseFile n env (fputs (p @ V @ q @ [NL]) (st\<lparr>pmap := m\<rparr>)) r"
proof -
  obtain m where m: "hm_inv m" "hm_map m = (hm_map (pmap st))(K \<mapsto> V)"
    "\<And>n env r. parseFile (Suc n) env st (''#define '' @ K @ CHR '' '' # V @ NL # r) = parseFile n env (st\<lparr>pmap := m\<rparr>) r"
    by (rule parse_define [OF assms(1,2)]) blast
  then show ?thesis
    using parse_use [of "st\<lparr>pmap := m\<rparr>" "hm_map (pmap st)" K V "pmap st" p q n env r] assms(3) by auto
qed

theorem define_then_use_witness:
  "\<exists>m. hm_map m ''N'' = Some ''10'' \<and> parseFile 3 no_env start (''#define '' @ ''N'' @ CHR '' '' # ''10'' @ NL # ''int a['' @ ''N'' @ ''];'' @ NL # [])
    = parseFile 1 no_env (fputs (''int a['' @ ''10'' @ ''];'' @ [NL]) (start\<lparr>pmap := m\<rparr>)) []"
proof -
  have "define_line (pmap start) ''N'' ''10''" "use_line (pmap start) ''N'' ''int a['' ''];''"
    by code_simp+
  from define_then_use [OF start_inv(1) this, of 1 no_env "[]"] obtain m where
    "hm_map m = (hm_map (pmap start))(''N'' \<mapsto> ''10'')"
    "parseFile (Suc (Suc 1)) no_env start (''#define '' @ ''N'' @ CHR '' '' # ''10'' @ NL # ''int a['' @ ''N'' @ ''];'' @ NL # [])
      = parseFile 1 no_env (fputs (''int a['' @ ''10'' @ ''];'' @ [NL]) (start\<lparr>pmap := m\<rparr>)) []"
    by blast
  then show ?thesis by (intro exI [of _ m]) (simp add: numeral_3_eq_3)
qed

section \<open>Runs that do not end\<close>

lemma chase_self:
  assumes "get_hm m K = Inr (Some K)"
  shows "chase m K = None"
proof -
  have "chase m' a = Some r \<Longrightarrow> \<not> (m' = m \<and> a = K)" for m' a r
  proof (rule chase.raw_induct [where P = "\<lambda>m' a r. \<not> (m' = m \<and> a = K)"])
    fix f m' a r
    assume "\<And>m' a r. f m' a = Some r \<Longrightarrow> \<not> (m' = m \<and> a = K)"
      and "(case get_hm m' a of Inl e \<Rightarrow> Some (Inl e) | Inr None \<Rightarrow> Some (Inr a) | Inr (Some b) \<Rightarrow> f m' b) = Some r"
    then show "\<not> (m' = m \<and> a = K)" using assms by (auto, blast)
  qed
  then show ?thesis by (cases "chase m K") auto
qed

text \<open>Once the table maps a macro to itself, which the line \<^verbatim>\<open>#define K K\<close> does, any later
one-line definition whose value begins with that macro never returns: the loop that follows
values through the table stays on the macro.\<close>

theorem self_macro_loops:
  assumes "hm_inv (pmap st)" "hm_map (pmap st) K = Some K" "K \<noteq> []" "set K \<inter> set delimiters_nl = {}"
    and "N \<noteq> []" "set N \<inter> set delimiters_nl = {}" "text_line (''#define '' @ N @ CHR '' '' # K)"
  shows "parseFile (Suc n) env st (''#define '' @ N @ CHR '' '' # K @ NL # r) = Inl Loops"
proof -
  have 1: "strtok (''#define'' @ CHR '' '' # N @ CHR '' '' # K @ [NL]) delimiters_nl = (Some ''#define'', N @ CHR '' '' # K @ [NL])"
    by (rule strtok_word) (auto simp: delimiters_nl_def delimiters_def)
  have 2: "strtok (N @ CHR '' '' # K @ [NL]) delimiters_nl = (Some N, K @ [NL])"
    using assms(5,6) by (intro strtok_word) (auto simp: delimiters_nl_def delimiters_def)
  have 3: "strtok (K @ NL # []) [NL] = (Some K, [])"
    using assms(3,7) by (intro strtok_word) (auto simp: text_line_def)
  have 4: "strtok (''#define'' @ CHR '' '' # N @ CHR '' '' # K @ [NL]) delimiters = (Some ''#define'', N @ CHR '' '' # K @ [NL])"
    by (rule strtok_word) (auto simp: delimiters_def)
  have 5: "tokens K delimiters_nl = [K]"
    using tokens_word(2) [OF assms(3,4), of NL] by (simp add: delimiters_nl_def)
  have last: "last K \<noteq> BSLASH"
  proof -
    have "BSLASH \<in> set delimiters_nl" by (simp add: delimiters_nl_def delimiters_def)
    then show ?thesis using assms(4) last_in_set [OF assms(3)] by (metis disjoint_iff)
  qed
  have "valid_key K" using assms(7) by (intro valid_token) (auto simp: text_line_def MAXLEN_def)
  then have get: "get_hm (pmap st) K = Inr (Some K)" using hm.get_any [OF assms(1)] assms(2) by simp
  have "defineMap (pmap st) (''#define '' @ N @ CHR '' '' # K @ [NL]) r = Inl Loops"
    using 1 2 3 5 last get chase_self [OF get] by (simp add: defineMap_def final_value_def)
  then show ?thesis
    using getLine_line [OF assms(7), of r] 4 by (simp add: parseFile.simps(2) parse_line_simps)
qed

theorem self_macro_loops_witness:
  "parseFile 3 no_env start (''#define '' @ ''B'' @ CHR '' '' # ''B'' @ NL # ''#define '' @ ''C'' @ CHR '' '' # ''B'' @ NL # ''x'')
    = Inl Loops"
proof -
  have d: "define_line (pmap start) ''B'' ''B''" by code_simp
  obtain m where m: "hm_inv m" "hm_map m = (hm_map (pmap start))(''B'' \<mapsto> ''B'')"
    "\<And>n no_env r. parseFile (Suc n) no_env start (''#define '' @ ''B'' @ CHR '' '' # ''B'' @ NL # r) = parseFile n no_env (start\<lparr>pmap := m\<rparr>) r"
    by (rule parse_define [OF start_inv(1) d]) blast
  have "parseFile (Suc 1) no_env (start\<lparr>pmap := m\<rparr>) (''#define '' @ ''C'' @ CHR '' '' # ''B'' @ NL # ''x'') = Inl Loops"
    by (rule self_macro_loops) (use m in \<open>simp_all add: delimiters_nl_def delimiters_def text_line_def MAXLEN_def\<close>)
  then show ?thesis using m(3) [of 2 no_env "''#define '' @ ''C'' @ CHR '' '' # ''B'' @ NL # ''x''"]
    by (simp add: numeral_3_eq_3 numeral_2_eq_2)
qed

text \<open>A file that includes itself on its first line is read for ever: no amount of fuel
makes \<^verbatim>\<open>parseFile\<close> return, and nothing in the code bounds the depth of inclusion.\<close>

theorem self_include_never_returns:
  assumes "text_line (''#include '' @ QUOTE # f @ [QUOTE])" "f \<noteq> []" "QUOTE \<notin> set f" "CHR '' '' \<notin> set f"
    and "pfiles env (getDirectory (inFileName env) @ f) = Some (''#include '' @ QUOTE # f @ QUOTE # NL # r)"
  shows "parseFile n env st (''#include '' @ QUOTE # f @ QUOTE # NL # r) = Inl NoFuel"
proof (induction n arbitrary: st)
  case (Suc n)
  let ?l = "''#include '' @ QUOTE # f @ [QUOTE]"
  have 1: "strtok (''#include '' @ QUOTE # f @ QUOTE # [NL]) [QUOTE] = (Some ''#include '', f @ QUOTE # [NL])"
    by (rule strtok_word) auto
  have 2: "strtok (f @ QUOTE # [NL]) [CHR '' '', QUOTE] = (Some f, [NL])"
    using assms(2-4) by (intro strtok_word) auto
  have 3: "strtok (''#include'' @ CHR '' '' # QUOTE # f @ QUOTE # [NL]) delimiters = (Some ''#include'', QUOTE # f @ QUOTE # [NL])"
    by (rule strtok_word) (auto simp: delimiters_def)
  have "do_include (parseFile n env) env st (?l @ [NL]) = Inl NoFuel"
    using 1 2 assms(5) Suc.IH by (simp add: do_include_def include_name_def getIncFile_def)
  then show ?case
    using getLine_line [OF assms(1), of r] 3 by (simp add: parseFile.simps(2) parse_line_simps)
qed simp

theorem self_include_never_returns_witness:
  "parseFile 1000 \<lparr>pfiles = [''d/a'' \<mapsto> ''#include '' @ QUOTE # ''a'' @ QUOTE # NL # ''x''], directories = [], inFileName = ''d/b''\<rparr>
    start (''#include '' @ QUOTE # ''a'' @ QUOTE # NL # ''x'') = Inl NoFuel"
  by (rule self_include_never_returns) (simp_all add: text_line_def MAXLEN_def getDirectory_def)

section \<open>Three runs the README does not mean\<close>

text \<open>The delimiters of a multi-line definition contain the letter t where a tab is meant:
the definition of MSG as the text not on two lines is stored without its t's.\<close>

theorem multi_line_define_drops_t:
  "obind (defineMap (createHashMap 6) (''#define MSG not '' @ [BSLASH, NL]) (''at'' @ [NL])) (\<lambda>(m, _). get_hm m ''MSG'')
    = Inr (Some ''no a'')"
  by code_simp

text \<open>\<^verbatim>\<open>ifelse\<close> does not nest: the \<^verbatim>\<open>#endif\<close> of a conditional inside a skipped body ends the
outer one, so the text after it, which should be skipped, is written, and so is the last
\<^verbatim>\<open>#endif\<close> itself.\<close>

theorem nested_if_ends_early:
  "obind (parseFile 9 no_env start
      (unlines [''#if 0'', ''#if 1'', ''a'', ''#endif'', ''b'', ''#endif''])) (\<lambda>st. Inr (pout st))
    = Inr (unlines [''b'', ''#endif''])"
  by code_simp

text \<open>Macros are not expanded in the text that a conditional selects, while the same line
outside a conditional is.\<close>

theorem conditional_body_not_expanded:
  "obind (parseFile 9 no_env start
      (unlines [''#define N 10'', ''#ifdef N'', ''int a[N];'', ''#endif'', ''int b[N];''])) (\<lambda>st. Inr (pout st))
    = Inr (unlines [''int a[N];'', ''int b[10];''])"
  by code_simp

end
