(* ===== verification/PpArgs.thy ===== *)
theory PpArgs
  imports PpMain
begin

text \<open>
  Properties of the command line of the preprocessor of \<^verbatim>\<open>assignments/1-multi\<close> and of the
  search for included files.
\<close>

section \<open>Options\<close>

text \<open>An option may carry its text or take it from the next argument: \<^verbatim>\<open>-DX\<close> and
\<^verbatim>\<open>-D X\<close> (and \<^verbatim>\<open>-I\<close>, \<^verbatim>\<open>-o\<close>) are read alike, as long as the text is not empty.\<close>

theorem option_forms_agree:
  assumes "c \<in> set ''DIo''" "text \<noteq> []"
  shows "scan_args a ((CHR ''-'' # c # text) # rest) = scan_args a ([CHR ''-'', c] # text # rest)"
  using assms by (auto simp: scan_args.simps(2) option_text_def)

theorem option_forms_agree_witness:
  "getArgs (createHashMap 6) (''-DN=1'' # [''f'']) = getArgs (createHashMap 6) (''-D'' # ''N=1'' # [''f''])"
  using option_forms_agree [of "CHR ''D''" "''N=1''" "\<lparr>inputName = None, outputName = None, amap = createHashMap 6, dirs = [], currDir = 0\<rparr>" "[''f'']"]
  by (simp add: getArgs_def count_dirs_def starts_with_def)

lemma scan_positional:
  "take 1 s \<noteq> ''-'' \<Longrightarrow> scan_args a (s # rest) = obind (positional s a) (\<lambda>a'. scan_args a' rest)"
  by (simp add: scan_args.simps(2))

lemma scan_include:
  "d \<noteq> [] \<Longrightarrow> scan_args a ((''-I'' @ d) # rest) = obind (add_dir d a) (\<lambda>a'. scan_args a' rest)"
  by (simp add: scan_args.simps(2) option_text_def)

definition define_arg :: "string \<times> string \<Rightarrow> string" where
  "define_arg kv = ''-D'' @ fst kv @ CHR ''='' # snd kv"

definition define_arg_ok :: "string \<times> string \<Rightarrow> bool" where
  "define_arg_ok kv \<longleftrightarrow> fst kv \<noteq> [] \<and> CHR ''='' \<notin> set (fst kv) \<and> valid_key (fst kv)"

lemma dropWhile_all [simp]: "dropWhile (\<lambda>c. True) s = []"
  by (induction s) auto

lemma strtok_rest_of: "strtok s [] = (if s = [] then (None, []) else (Some s, []))"
  by (simp add: strtok_def)

lemma scan_define:
  assumes "define_arg_ok kv"
  shows "scan_args a (define_arg kv # rest)
    = obind (insert_hm (amap a) (fst kv) (snd kv)) (\<lambda>m. scan_args (a\<lparr>amap := m\<rparr>) rest)"
proof -
  have "strtok (fst kv @ CHR ''='' # snd kv) ''='' = (Some (fst kv), snd kv)"
    using assms by (intro strtok_word) (auto simp: define_arg_ok_def)
  then show ?thesis
    using assms
    by (auto simp: scan_args.simps(2) define_arg_def define_arg_ok_def option_text_def define_option_def strtok_rest_of
        obind_assoc)
qed

lemma scan_includes:
  assumes "\<forall>d \<in> set ds. d \<noteq> []" "currDir a + length ds = length (dirs a)"
  shows "scan_args a (map (\<lambda>d. ''-I'' @ d) ds @ rest)
    = scan_args (a\<lparr>dirs := take (currDir a) (dirs a) @ map Some ds, currDir := length (dirs a)\<rparr>) rest"
  using assms
proof (induction ds arbitrary: a)
  case Nil
  then show ?case by (cases a) simp
next
  case (Cons d ds)
  have c: "currDir a < length (dirs a)" using Cons.prems(2) by simp
  let ?a = "a\<lparr>dirs := (dirs a)[currDir a := Some d], currDir := currDir a + 1\<rparr>"
  have "scan_args a (map (\<lambda>d. ''-I'' @ d) (d # ds) @ rest) = scan_args ?a (map (\<lambda>d. ''-I'' @ d) ds @ rest)"
    using scan_include [of d a "map (\<lambda>d. ''-I'' @ d) ds @ rest"] Cons.prems(1) c by (simp add: add_dir_def)
  also have "\<dots> = scan_args (?a\<lparr>dirs := take (currDir ?a) (dirs ?a) @ map Some ds, currDir := length (dirs ?a)\<rparr>) rest"
    using Cons.IH [of ?a] Cons.prems by simp
  finally show ?case using c by (simp add: take_update_last)
qed

lemma scan_defines:
  assumes "hm_inv (amap a)" "\<forall>kv \<in> set kvs. define_arg_ok kv"
  shows "\<exists>m. hm_inv m \<and> hm_map m = hm_map (amap a) ++ map_of (rev kvs)
    \<and> scan_args a (map define_arg kvs @ rest) = scan_args (a\<lparr>amap := m\<rparr>) rest"
proof -
  have "scan_args a (map define_arg kvs @ rest)
      = obind (ins_list insert_hm (amap a) kvs) (\<lambda>m. scan_args (a\<lparr>amap := m\<rparr>) rest)" for a
    using assms(2)
    by (induction kvs arbitrary: a) (auto simp: scan_define obind_assoc)
  moreover obtain m where "ins_list insert_hm (amap a) kvs = Inr m" "hm_inv m" "hm_map m = hm_map (amap a) ++ map_of (rev kvs)"
    using hm.ins_list_ok [OF assms(1), of kvs] assms(2) by (auto simp: define_arg_ok_def)
  ultimately show ?thesis by auto
qed

lemma count_dirs_command_line:
  assumes "take 1 i \<noteq> ''-''" "take 1 out \<noteq> ''-''"
  shows "count_dirs (map (\<lambda>d. ''-I'' @ d) ds @ map define_arg kvs @ [i, out]) = length ds"
proof -
  have "filter (starts_with ''-I'') (map (\<lambda>d. ''-I'' @ d) ds) = map (\<lambda>d. ''-I'' @ d) ds"
    by (induction ds) (auto simp: starts_with_def)
  moreover have "filter (starts_with ''-I'') (map define_arg kvs) = []"
    by (induction kvs) (auto simp: starts_with_def define_arg_def)
  moreover have "\<not> starts_with ''-I'' s" if "take 1 s \<noteq> ''-''" for s
    using that by (cases s) (auto simp: starts_with_def)
  ultimately show ?thesis using assms by (simp add: count_dirs_def)
qed

text \<open>A command line with directories, definitions, an input and an output: \<^verbatim>\<open>getArgs\<close>
stores the directories in their order in an array that they fill exactly, enters the definitions
into the table (the last one of a name counts) and takes the two names.\<close>

theorem getArgs_reads_command_line:
  assumes "hm_inv m" "\<forall>d \<in> set ds. d \<noteq> []" "\<forall>kv \<in> set kvs. define_arg_ok kv"
    and "take 1 i \<noteq> ''-''" "take 1 out \<noteq> ''-''"
  shows "\<exists>m'. hm_inv m' \<and> hm_map m' = hm_map m ++ map_of (rev kvs)
    \<and> getArgs m (map (\<lambda>d. ''-I'' @ d) ds @ map define_arg kvs @ [i, out])
      = Inr \<lparr>inputName = Some i, outputName = Some out, amap = m', dirs = map Some ds, currDir = length ds\<rparr>"
proof -
  let ?a = "\<lparr>inputName = None, outputName = None, amap = m, dirs = replicate (length ds) None, currDir = 0\<rparr>"
  let ?b = "?a\<lparr>dirs := map Some ds, currDir := length ds\<rparr>"
  have 1: "getArgs m (map (\<lambda>d. ''-I'' @ d) ds @ map define_arg kvs @ [i, out]) = scan_args ?b (map define_arg kvs @ [i, out])"
    using scan_includes [OF assms(2), of ?a "map define_arg kvs @ [i, out]"] count_dirs_command_line [OF assms(4,5)]
    by (simp add: getArgs_def)
  obtain m' where m': "hm_inv m'" "hm_map m' = hm_map m ++ map_of (rev kvs)"
    "scan_args ?b (map define_arg kvs @ [i, out]) = scan_args (?b\<lparr>amap := m'\<rparr>) [i, out]"
    using scan_defines [of ?b kvs "[i, out]"] assms(1,3) by auto
  have "scan_args (?b\<lparr>amap := m'\<rparr>) [i, out]
      = Inr \<lparr>inputName = Some i, outputName = Some out, amap = m', dirs = map Some ds, currDir = length ds\<rparr>"
    using assms(4,5) by (simp add: scan_positional positional_def)
  with 1 m' show ?thesis by auto
qed

theorem getArgs_reads_command_line_witness:
  "\<exists>m'. hm_map m' ''N'' = Some ''2'' \<and> getArgs (createHashMap 6) [''-Id'', ''-DN=1'', ''-DN=2'', ''a'', ''b'']
      = Inr \<lparr>inputName = Some ''a'', outputName = Some ''b'', amap = m', dirs = [Some ''d''], currDir = 1\<rparr>"
proof -
  have h: "hm_inv (createHashMap 6)" "\<forall>kv \<in> set [(''N'', ''1''), (''N'', ''2'')]. define_arg_ok kv"
    using createHashMap_inv(1) [of 6] by (auto simp: define_arg_ok_def intro: valid_key_short)
  from getArgs_reads_command_line [OF h(1) _ h(2), of "[''d'']" "''a''" "''b''"] obtain m' where
    "hm_map m' = hm_map (createHashMap 6) ++ map_of (rev [(''N'', ''1''), (''N'', ''2'')])"
    "getArgs (createHashMap 6) [''-Id'', ''-DN=1'', ''-DN=2'', ''a'', ''b'']
      = Inr \<lparr>inputName = Some ''a'', outputName = Some ''b'', amap = m', dirs = [Some ''d''], currDir = 1\<rparr>"
    by (auto simp: define_arg_def)
  then show ?thesis by (intro exI [of _ m']) simp
qed

text \<open>A third argument that is no option ends the program with status 1, whatever follows.\<close>

theorem third_name_exits:
  assumes "\<forall>s \<in> {i, out, x}. take 1 s \<noteq> ''-''"
  shows "getArgs m (i # out # x # rest) = Inl (ExitWith 1) \<and> run_main n fs inp (i # out # x # rest) = Inl (ExitWith 1)"
  using assms by (simp add: getArgs_def scan_positional positional_def run_main_def)

theorem third_name_exits_witness: "run_main 0 (\<lambda>_. None) [] [''a'', ''b'', ''c''] = Inl (ExitWith 1)"
  using third_name_exits [of "''a''" "''b''" "''c''" "createHashMap 6" "[]" 0 "\<lambda>_. None" "[]"] by simp

section \<open>Included files\<close>

lemma strrchr_none [simp]: "c \<notin> set b \<Longrightarrow> strrchr b c = None"
  by (induction b) auto

lemma strrchr_last: "c \<notin> set b \<Longrightarrow> strrchr (a @ c # b) c = Some (length a)"
  by (induction a) auto

text \<open>The directory of an input path, and the order of the search: the directory of the
input first, then the directories of the command line in their order; the first file that opens
is taken.\<close>

theorem include_search_order:
  assumes "CHR ''/'' \<notin> set base" "CHR ''/'' \<notin> set alone"
  shows "getDirectory (d @ CHR ''/'' # base) = d @ ''/'' \<and> getDirectory alone = []
    \<and> getIncFile fs f (map Some ds) cur
      = Inr (case filter (\<lambda>p. fs p \<noteq> None) ((cur @ f) # map (\<lambda>d. d @ ''/'' @ f) ds) of [] \<Rightarrow> None | p # _ \<Rightarrow> fs p)"
proof (intro conjI)
  show "getDirectory (d @ CHR ''/'' # base) = d @ ''/''"
    using strrchr_last [OF assms(1), of d] by (simp add: getDirectory_def)
  show "getDirectory alone = []" using assms(2) by (simp add: getDirectory_def)
  have "search_dirs fs f (map Some ds)
      = Inr (case filter (\<lambda>p. fs p \<noteq> None) (map (\<lambda>d. d @ ''/'' @ f) ds) of [] \<Rightarrow> None | p # _ \<Rightarrow> fs p)"
    by (induction ds) (auto split: option.splits)
  then show "getIncFile fs f (map Some ds) cur
      = Inr (case filter (\<lambda>p. fs p \<noteq> None) ((cur @ f) # map (\<lambda>d. d @ ''/'' @ f) ds) of [] \<Rightarrow> None | p # _ \<Rightarrow> fs p)"
    by (auto simp: getIncFile_def split: option.splits)
qed

theorem include_search_order_witness:
  "getDirectory ''src/a.c'' = ''src/'' \<and> getIncFile [''inc/h'' \<mapsto> ''1'', ''x/h'' \<mapsto> ''2''] ''h'' [Some ''lib'', Some ''inc'', Some ''x''] ''src/'' = Inr (Some ''1'')"
  using include_search_order [of "''a.c''" "''a''" "''src''" "[''inc/h'' \<mapsto> ''1'', ''x/h'' \<mapsto> ''2'']" "''h''" "[''lib'', ''inc'', ''x'']" "''src/''"]
  by simp

end
