(* ===== verification/PpEnds.thy ===== *)
theory PpEnds
  imports PpProps
begin

text \<open>
  When the preprocessor of \<^verbatim>\<open>assignments/1-multi\<close> ends.  Reading a definition, \<^verbatim>\<open>defineMap\<close> follows the values of
  macros until one is not a macro, and nothing in the code keeps two of them from naming each other.  If no
  macro is defined in terms of itself or of a later one, that is, if the names can be ranked such that
  each definition uses only names of lower rank, every loop ends.
\<close>

section \<open>Names and their ranks\<close>

definition is_name :: "string \<Rightarrow> bool" where
  "is_name s \<longleftrightarrow> s \<noteq> [] \<and> set s \<inter> set delimiters_nl = {}"

definition falls :: "(string \<Rightarrow> nat) \<Rightarrow> string \<Rightarrow> string \<Rightarrow> bool" where
  "falls rank k v \<longleftrightarrow> is_name k \<and> (is_name v \<longrightarrow> rank v < rank k)"

definition ranked :: "(string \<Rightarrow> nat) \<Rightarrow> HashMap \<Rightarrow> bool" where
  "ranked rank m \<longleftrightarrow> (\<forall>k v. Some (k, v) \<in> set (elem m) \<longrightarrow> falls rank k v)"

text \<open>
  A definition, in the line and what follows it: its key and the tokens of its value, which for a definition of many lines is what
  \<^verbatim>\<open>strtok\<close> makes of the lines joined.
\<close>

definition value_tokens :: "string \<Rightarrow> string \<Rightarrow> string list" where
  "value_tokens v inp =
     (if last v = BSLASH
      then case gather_lines v inp of Inl _ \<Rightarrow> [] | Inr (parsed, _) \<Rightarrow> tokens parsed multi_lines_delim
      else tokens v delimiters_nl)"

definition ordered_define :: "(string \<Rightarrow> nat) \<Rightarrow> string \<Rightarrow> string \<Rightarrow> bool" where
  "ordered_define rank line inp \<longleftrightarrow>
     (let (_, r0) = strtok line delimiters_nl; (key, r1) = strtok r0 delimiters_nl; (val, _) = strtok r1 [NL]
      in case (key, val) of (Some k, Some v) \<Rightarrow> list_all (\<lambda>t. rank t < rank k) (value_tokens v inp) | _ \<Rightarrow> True)"

text \<open>The lines that \<^verbatim>\<open>parseFile\<close>, \<^verbatim>\<open>ifdef\<close> or \<^verbatim>\<open>ifelse\<close> can take for definitions, and a text where all of them are ordered.\<close>

definition is_define :: "string \<Rightarrow> bool" where
  "is_define line \<longleftrightarrow> fst (strtok line delimiters) = Some ''#define'' \<or> starts_with ''#define'' line"

function ordered :: "(string \<Rightarrow> nat) \<Rightarrow> string \<Rightarrow> bool" where
  "ordered rank inp =
     (case getLine inp of
        None \<Rightarrow> True
      | Some (line, rest) \<Rightarrow> (is_define line \<longrightarrow> ordered_define rank line rest) \<and> ordered rank rest)"
  by pat_completeness auto
termination
  by (relation "measure (\<lambda>(rank, inp). length inp)") (auto dest: getLine_consumes getLine_consumes [OF sym])

declare ordered.simps [simp del]

lemma ordered_line:
  "getLine inp = Some (line, rest) \<Longrightarrow> ordered rank inp \<Longrightarrow> (is_define line \<longrightarrow> ordered_define rank line rest) \<and> ordered rank rest"
  by (subst (asm) ordered.simps) simp

section \<open>What is stored\<close>

lemma find_slot_stops: "find_slot m k = Inr j \<Longrightarrow> stops (elem m) k j"
  by (auto simp: find_slot_def outcome_simps split: option.splits intro: probe_sound)

lemma set_update: "Some x \<in> set (es[j := Some y]) \<Longrightarrow> x = y \<or> Some x \<in> set es"
  using set_update_subset_insert [of es j "Some y"] by auto

lemma stored_insert_d:
  "insert_d d m k v = Inr m' \<Longrightarrow> Some x \<in> set (elem m') \<Longrightarrow> x = (k, v) \<or> Some x \<in> set (elem m)"
proof (induction d arbitrary: m k v m' x)
  case (Suc d)
  have copied: "Some y \<in> set es \<or> Some y \<in> set (elem nm)"
    if "copy_elems (insert_d d) nm es = Inr nm'" "Some y \<in> set (elem nm')" for nm es nm' y
    using that
  proof (induction es arbitrary: nm)
    case (Cons e es)
    show ?case
    proof (cases e)
      case None
      with Cons.IH [of nm] Cons.prems show ?thesis by auto
    next
      case (Some kv)
      obtain a b where kv: "kv = (a, b)" by (cases kv)
      with Some Cons.prems(1) obtain nm1 where 1: "insert_d d nm a b = Inr nm1" "copy_elems (insert_d d) nm1 es = Inr nm'"
        by (auto simp: outcome_simps)
      from Cons.IH [OF 1(2) Cons.prems(2)] Suc.IH [OF 1(1), of y] Some kv show ?thesis by auto
    qed
  qed simp
  have "obind (if cnt m * 4 > size_of m * 3 then copy_elems (insert_d d) (createHashMap (2 * size_of m)) (elem m) else Inr m)
      (\<lambda>m1. obind (find_slot m1 k) (\<lambda>j. Inr (store_at m1 j k v))) = Inr m'"
    using Suc.prems(1) by (simp only: insert_d.simps)
  then obtain m1 j where m1: "(if cnt m * 4 > size_of m * 3
        then copy_elems (insert_d d) (createHashMap (2 * size_of m)) (elem m) else Inr m) = Inr m1"
    "find_slot m1 k = Inr j" "m' = store_at m1 j k v"
    unfolding outcome_simps by blast
  have "x = (k, v) \<or> Some x \<in> set (elem m1)"
    using Suc.prems(2) set_update [of x "elem m1" j "(k, v)"] elem_store_at [OF find_slot_stops [OF m1(2)], of v] m1(3) by simp
  then show ?case
    using m1(1) copied [of "createHashMap (2 * size_of m)" "elem m" m1 x] by (auto simp: createHashMap_def split: if_splits)
qed simp

lemma ranked_insert: "insert_hm m k v = Inr m' \<Longrightarrow> ranked rank m \<Longrightarrow> falls rank k v \<Longrightarrow> ranked rank m'"
  using stored_insert_d [of 2 m k v m'] unfolding ranked_def insert_hm_def by blast

lemma ranked_delete: "deleteKey m k = Inr m' \<Longrightarrow> ranked rank m \<Longrightarrow> ranked rank m'"
  by (auto simp: ranked_def deleteKey_def outcome_simps split: option.splits dest!: set_update_subset_insert [THEN subsetD])

lemma ranked_create: "ranked rank (createHashMap n)"
  by (simp add: ranked_def createHashMap_def)

lemma slot_valid: "find_slot m k \<noteq> Inl Undefined \<Longrightarrow> valid_key k"
  by (auto simp: find_slot_def hashFunc_def valid_key_def Let_def split: if_splits)

lemma table_no_loop:
  assumes "weak_inv m"
  shows "get_hm m k \<noteq> Inl Loops" "deleteKey m k \<noteq> Inl Loops"
proof -
  have "find_slot m k \<noteq> Inl Loops"
  proof (cases "find_slot m k = Inl Undefined")
    case False
    from find_slot_weak [OF assms slot_valid [OF this]] show ?thesis by (metis Inl_Inr_False)
  qed simp
  then show "get_hm m k \<noteq> Inl Loops" "deleteKey m k \<noteq> Inl Loops"
    by (auto simp: get_hm_def deleteKey_def outcome_simps split: option.splits)
qed

lemma get_stored:
  assumes "weak_inv m" "get_hm m k = Inr (Some v)"
  shows "Some (k, v) \<in> set (elem m)"
proof -
  obtain i where i: "find_slot m k = Inr i" using assms(2) by (auto simp: get_hm_def outcome_simps)
  then have "valid_key k" using slot_valid [of m k] by simp
  from find_slot_weak [OF assms(1) this] i obtain j where j: "find_slot m k = Inr j" "j < size_of m" "stops (elem m) k j"
    by metis
  with assms have "elem m ! j = Some (k, v)" "j < length (elem m)"
    by (auto simp: get_hm_def stops_def weak_inv_def split: option.splits)
  then show ?thesis by (metis nth_mem)
qed

section \<open>Following values\<close>

text \<open>The end of the chain of values is not a macro, and if it is a name it is of lower rank than the others.\<close>

definition below_rank :: "(string \<Rightarrow> nat) \<Rightarrow> nat \<Rightarrow> string \<Rightarrow> bool" where
  "below_rank rank n s \<longleftrightarrow> (is_name s \<longrightarrow> rank s < n)"

lemma chase_ends:
  assumes "weak_inv m" "ranked rank m" "below_rank rank n a"
  shows "\<exists>r. chase m a = Some r \<and> r \<noteq> Inl Loops \<and> (\<forall>w. r = Inr w \<longrightarrow> below_rank rank n w)"
  using assms(3)
proof (induction n arbitrary: a rule: less_induct)
  case (less n)
  show ?case
  proof (cases "get_hm m a")
    case (Inl e)
    with table_no_loop(1) [OF assms(1), of a] show ?thesis by (auto simp: chase.simps [of m a])
  next
    case (Inr p)
    show ?thesis
    proof (cases p)
      case None
      with Inr less.prems show ?thesis by (auto simp: chase.simps [of m a])
    next
      case (Some b)
      with Inr have "falls rank a b" using get_stored [OF assms(1), of a b] assms(2) by (auto simp: ranked_def)
      with less.prems have l: "rank a < n" "below_rank rank (rank a) b" by (auto simp: falls_def below_rank_def)
      from less.IH [OF this] obtain r where "chase m b = Some r" "r \<noteq> Inl Loops" "\<forall>w. r = Inr w \<longrightarrow> below_rank rank (rank a) w"
        by blast
      with Inr Some l show ?thesis by (auto simp: chase.simps [of m a] below_rank_def)
    qed
  qed
qed

lemma final_value_ends:
  assumes "weak_inv m" "ranked rank m" "get_hm m t = Inr (Some v)"
  shows "final_value m v \<noteq> Inl Loops" "final_value m v = Inr w \<Longrightarrow> below_rank rank (rank t) w"
proof -
  have "falls rank t v" using get_stored [OF assms(1,3)] assms(2) by (auto simp: ranked_def)
  then have "below_rank rank (rank t) v" by (simp add: falls_def below_rank_def)
  from chase_ends [OF assms(1,2) this] show "final_value m v \<noteq> Inl Loops" "final_value m v = Inr w \<Longrightarrow> below_rank rank (rank t) w"
    by (auto simp: final_value_def)
qed

lemma text_no_loop [simp]:
  "skip_quoted line j \<noteq> Inl Loops" "find_key line key i \<noteq> Inl Loops" "replace line key value \<noteq> Inl Loops"
proof -
  show 1: "skip_quoted line j \<noteq> Inl Loops" for line j
    by (induction line j rule: skip_quoted.induct) (subst skip_quoted.simps, simp)
  show 2: "find_key line key i \<noteq> Inl Loops" for line key i
  proof (induction line key i rule: find_key.induct)
    case (1 line key i)
    then show ?case using \<open>skip_quoted line (i + 1) \<noteq> Inl Loops\<close>
      by (subst find_key.simps) (auto simp: outcome_simps split: if_splits)
  qed
  show "replace line key value \<noteq> Inl Loops"
    using 2 by (auto simp: replace_def outcome_simps split: option.splits)
qed

lemma find_key_found: "find_key line key i = Inr (Some j) \<Longrightarrow> j \<le> length line \<and> starts_with key (drop j line)"
proof (induction line key i rule: find_key.induct)
  case (1 line key i)
  from "1.prems" have i: "i < length line" by (subst (asm) find_key.simps) (auto split: if_splits)
  with "1.prems" obtain i' where i': "(if line ! i = QUOTE then skip_quoted line (i + 1) else Inr i) = Inr i'"
    "(if starts_with key (drop i' line) then Inr (Some i') else find_key line key (i' + 1)) = Inr (Some j)"
    by (subst (asm) find_key.simps) (auto simp only: outcome_simps if_True)
  then have "i' \<le> length line" using i by (auto split: if_splits dest: skip_quoted_bounds)
  with i i' "1.IH" [OF i i'(1)] show ?case by (auto split: if_splits)
qed

text \<open>A delimiter stays where it is when a token is replaced, and a text that is one token becomes its value.\<close>

lemma replace_keeps:
  assumes "replace s t w = Inr s'" "d \<in> set s" "d \<notin> set t"
  shows "d \<in> set s'"
proof (cases "find_key s t 0")
  case (Inr f)
  show ?thesis
  proof (cases f)
    case (Some i)
    have s: "starts_with t (drop i s)" using find_key_found Inr Some by blast
    have "s = take i s @ take (length t) (drop i s) @ drop (length t) (drop i s)" by (simp only: append_take_drop_id)
    also have "\<dots> = take i s @ t @ drop (i + length t) s" using s by (simp add: starts_with_def add.commute)
    finally have "d \<in> set (take i s) \<union> set (drop (i + length t) s)" using assms(2,3) by (metis Un_iff set_append)
    with assms(1) Inr Some show ?thesis by (auto simp: replace_def)
  qed (use assms Inr in \<open>simp add: replace_def\<close>)
qed (use assms in \<open>simp add: replace_def\<close>)

lemma replace_all:
  assumes "replace t t w = Inr s'"
  shows "s' = t \<or> s' = w"
proof (cases "find_key t t 0")
  case (Inr f)
  show ?thesis
  proof (cases f)
    case (Some i)
    have i: "i \<le> length t" "starts_with t (drop i t)" using find_key_found Inr Some by blast+
    then have "drop i t = t" by (simp add: starts_with_def)
    then have "length t - i = length t" by (metis length_drop)
    with i(1) have "i = 0" by simp
    with assms Inr Some show ?thesis by (auto simp: replace_def)
  qed (use assms Inr in \<open>simp add: replace_def\<close>)
qed (use assms in \<open>simp add: replace_def\<close>)

lemma expand_keeps:
  "expand_value m ts s = Inr s' \<Longrightarrow> d \<in> set s \<Longrightarrow> (\<forall>t \<in> set ts. d \<notin> set t) \<Longrightarrow> d \<in> set s'"
proof (induction ts arbitrary: s)
  case (Cons t ts)
  obtain p where p: "get_hm m t = Inr p" using Cons.prems(1) by (auto simp: outcome_simps)
  show ?case
  proof (cases p)
    case None
    with p Cons show ?thesis by simp
  next
    case (Some v)
    with p Cons.prems(1) obtain w s1 where "replace s t w = Inr s1" "expand_value m ts s1 = Inr s'"
      by (auto simp: outcome_simps)
    with replace_keeps [of s t w s1 d] Cons.IH [of s1] Cons.prems show ?thesis by simp
  qed
qed simp

lemma expand_no_loop:
  assumes "weak_inv m" "ranked rank m"
  shows "expand_value m ts s \<noteq> Inl Loops"
proof (induction ts arbitrary: s)
  case (Cons t ts)
  show ?case
  proof (cases "get_hm m t")
    case (Inl e)
    with table_no_loop(1) [OF assms(1), of t] show ?thesis by auto
  next
    case (Inr p)
    with Cons final_value_ends(1) [OF assms, of t] show ?thesis by (cases p) (auto simp: outcome_simps)
  qed
qed simp

lemma tokens_name:
  assumes "is_name s" shows "tokens s delimiters_nl = [s]"
proof -
  have "NL \<in> set delimiters_nl" by (simp add: delimiters_nl_def)
  with assms strtok_word(2) [of s delimiters_nl NL] have "strtok s delimiters_nl = (Some s, [])" by (simp add: is_name_def)
  then show ?thesis by (simp add: tokens.simps [of s delimiters_nl] tokens.simps [of "[]" delimiters_nl])
qed

lemma expand_falls:
  assumes "weak_inv m" "ranked rank m" "v \<noteq> []" "\<forall>t \<in> set (tokens v delimiters_nl). rank t < n"
    and "expand_value m (tokens v delimiters_nl) v = Inr p"
  shows "below_rank rank n p"
proof (cases "is_name v")
  case True
  then have v: "tokens v delimiters_nl = [v]" "rank v < n" using tokens_name assms(4) by auto
  then obtain q where q: "get_hm m v = Inr q" using assms(5) by (auto simp: outcome_simps)
  show ?thesis
  proof (cases q)
    case None
    with q assms(5) v show ?thesis by (simp add: below_rank_def)
  next
    case (Some a)
    with q assms(5) v(1) obtain w where w: "final_value m a = Inr w" "replace v v w = Inr p"
      by (auto simp: outcome_simps)
    have "below_rank rank (rank v) w" using final_value_ends(2) [OF assms(1,2)] q Some w(1) by simp
    with replace_all [OF w(2)] v(2) show ?thesis by (auto simp: below_rank_def)
  qed
next
  case False
  then obtain d where "d \<in> set v" "d \<in> set delimiters_nl" using assms(3) by (auto simp: is_name_def)
  then have "d \<in> set p" using expand_keeps [OF assms(5), of d] tokens_props [of _ v delimiters_nl] by blast
  with \<open>d \<in> set delimiters_nl\<close> show ?thesis by (auto simp: below_rank_def is_name_def)
qed

text \<open>The value of a definition of many lines has a blank when it is more than one token.\<close>

lemma joined:
  "foldl (\<lambda>res t. check_token (Some t) res) t ts = t \<and> ts = [] \<or> CHR '' '' \<in> set (foldl (\<lambda>res t. check_token (Some t) res) t ts)"
proof -
  have blank: "CHR '' '' \<in> set s \<Longrightarrow> CHR '' '' \<in> set (foldl (\<lambda>res t. check_token (Some t) res) s us)" for s us
    by (induction us arbitrary: s) (auto simp: check_token_def concatenate_def)
  show ?thesis
  proof (cases ts)
    case (Cons a as)
    have "CHR '' '' \<in> set (check_token (Some a) t)" by (simp add: check_token_def concatenate_def)
    from blank [OF this, of as] Cons show ?thesis by simp
  qed simp
qed

lemma joined_falls:
  assumes "strtok parsed multi_lines_delim = (Some t, r)" "\<forall>t \<in> set (tokens parsed multi_lines_delim). rank t < n"
  shows "below_rank rank n (foldl (\<lambda>res t. check_token (Some t) res) t (tokens r multi_lines_delim))"
  using joined [of t "tokens r multi_lines_delim"] assms
  by (auto simp: below_rank_def is_name_def delimiters_nl_def delimiters_def tokens.simps [of parsed])

section \<open>What ends\<close>

text \<open>\<open>ends ok r\<close>: the computation is not caught in a loop, and what it returns is \<open>ok\<close>.\<close>

definition ends :: "('a \<Rightarrow> bool) \<Rightarrow> 'a outcome \<Rightarrow> bool" where
  "ends ok r \<longleftrightarrow> (case r of Inl e \<Rightarrow> e \<noteq> Loops | Inr x \<Rightarrow> ok x)"

lemma ends_simps [simp]: "ends ok (Inl e) \<longleftrightarrow> e \<noteq> Loops" "ends ok (Inr x) \<longleftrightarrow> ok x"
  by (simp_all add: ends_def)

lemma ends_obind: "ends ok m \<Longrightarrow> (\<And>x. ok x \<Longrightarrow> m = Inr x \<Longrightarrow> ends ok' (f x)) \<Longrightarrow> ends ok' (obind m f)"
  by (cases m) auto

lemma ends_obind_any: "m \<noteq> Inl Loops \<Longrightarrow> (\<And>x. m = Inr x \<Longrightarrow> ends ok (f x)) \<Longrightarrow> ends ok (obind m f)"
  by (cases m) auto

lemma ends_if: "(b \<Longrightarrow> ends ok x) \<Longrightarrow> (\<not> b \<Longrightarrow> ends ok y) \<Longrightarrow> ends ok (if b then x else y)"
  by simp

definition orderly :: "(string \<Rightarrow> nat) \<Rightarrow> pstate \<Rightarrow> string \<Rightarrow> bool" where
  "orderly rank st inp \<longleftrightarrow> sound st \<and> ranked rank (pmap st) \<and> ordered rank inp"

lemma orderly_fputs [simp]: "orderly rank (fputs s st) inp = orderly rank st inp"
  by (simp add: orderly_def fputs_def sound_def)

lemma gather_no_loop: "gather_lines p inp \<noteq> Inl Loops"
proof (induction p inp rule: gather_lines.induct)
  case (1 p inp)
  then show ?case by (subst gather_lines.simps) (auto split: option.splits)
qed

lemma gather_ordered: "gather_lines p inp = Inr (q, rest) \<Longrightarrow> ordered rank inp \<Longrightarrow> ordered rank rest"
proof (induction p inp rule: gather_lines.induct)
  case (1 p inp)
  show ?case
  proof (cases "getLine inp")
    case None
    with "1.prems"(1) show ?thesis by (simp add: gather_lines.simps [of p inp])
  next
    case (Some lr)
    obtain l r where lr: "lr = (l, r)" by (cases lr)
    with Some "1.prems"(2) have "ordered rank r" using ordered_line by blast
    with Some lr "1.prems"(1) "1.IH" [OF Some lr [symmetric]] show ?thesis
      by (simp add: gather_lines.simps [of p inp] split: if_splits)
  qed
qed

lemma defineMap_ends:
  assumes "orderly rank st inp" "ordered_define rank line inp" "length line < MAXLEN"
  shows "ends (\<lambda>(m, inp'). orderly rank (st\<lparr>pmap := m\<rparr>) inp') (defineMap (pmap st) line inp)"
proof -
  note w = assms(1)[unfolded orderly_def sound_def]
  obtain t0 r0 key r1 val r2 where s: "strtok line delimiters_nl = (t0, r0)" "strtok r0 delimiters_nl = (key, r1)"
    "strtok r1 [NL] = (val, r2)" by (metis surj_pair)
  have ins: "ends (\<lambda>(m, inp'). orderly rank (st\<lparr>pmap := m\<rparr>) inp') (obind (insert_hm (pmap st) k v) (\<lambda>m. Inr (m, inp')))"
    if "key = Some k" "below_rank rank (rank k) v" "ordered rank inp'" for k v inp'
  proof -
    have k: "is_name k" using strtok_Some(1,2) s(2) that(1) by (auto simp: is_name_def)
    have "length k < MAXLEN" using s(2) that(1) strtok_short [of r0] snd_strtok_short [OF assms(3), of delimiters_nl] s(1) by simp
    then obtain m where m: "insert_hm (pmap st) k v = Inr m" "weak_inv m"
      using table_ops_weak [OF _ valid_token, of "pmap st" k v] w by blast
    have "falls rank k v" using k that(2) by (simp add: falls_def below_rank_def)
    with m that(3) ranked_insert w show ?thesis by (auto simp: orderly_def sound_def)
  qed
  show ?thesis
  proof (cases key)
    case None
    with s show ?thesis by (simp add: defineMap_def split: option.splits)
  next
    case key: (Some k)
    show ?thesis
    proof (cases val)
      case None
      with s key ins [of k "[]" inp] w show ?thesis by (simp add: defineMap_def below_rank_def is_name_def)
    next
      case (Some v)
      have v: "v \<noteq> []" using strtok_Some(1) s(3) Some by blast
      have t: "\<forall>t \<in> set (value_tokens v inp). rank t < rank k"
        using assms(2) s key Some by (simp add: ordered_define_def list_all_iff)
      show ?thesis
      proof (cases "last v = BSLASH")
        case True
        show ?thesis
        proof (cases "gather_lines v inp")
          case (Inl e)
          with True s key Some gather_no_loop [of v inp] show ?thesis by (simp add: defineMap_def)
        next
          case (Inr q)
          obtain parsed inp' where q: "q = (parsed, inp')" by (cases q)
          obtain t1 r where t1: "strtok parsed multi_lines_delim = (t1, r)" by (cases "strtok parsed multi_lines_delim")
          have "ordered rank inp'" using gather_ordered [of v inp parsed inp' rank] Inr q w by simp
          moreover have "\<forall>t \<in> set (tokens parsed multi_lines_delim). rank t < rank k"
            using t True Inr q by (simp add: value_tokens_def)
          ultimately show ?thesis
            using True s key Some Inr q t1 ins joined_falls [of parsed _ r rank "rank k"]
            by (cases t1) (simp_all add: defineMap_def Let_def)
        qed
      next
        case False
        have "ends (\<lambda>(m, inp'). orderly rank (st\<lparr>pmap := m\<rparr>) inp')
          (obind (expand_value (pmap st) (tokens v delimiters_nl) v) (\<lambda>parsed.
             obind (insert_hm (pmap st) k parsed) (\<lambda>m'. Inr (m', inp))))"
          using t False w v key expand_no_loop [of "pmap st" rank] expand_falls [of "pmap st" rank v "rank k"]
          by (intro ends_obind_any ins) (auto simp: value_tokens_def)
        with False s key Some show ?thesis by (simp add: defineMap_def Let_def)
      qed
    qed
  qed
qed

lemma define_step:
  assumes "orderly rank st inp" "is_define line \<longrightarrow> ordered_define rank line inp" "length line < MAXLEN" "is_define line"
    and "\<And>m i. orderly rank (st\<lparr>pmap := m\<rparr>) i \<Longrightarrow> ok (f (m, i))"
  shows "ends ok (obind (defineMap (pmap st) line inp) (\<lambda>mi. Inr (f mi)))"
  using assms by (intro ends_obind [OF defineMap_ends [OF assms(1) _ assms(3)]]) auto

lemma condition_no_loop: "weak_inv m \<Longrightarrow> condition m t \<noteq> Inl Loops"
  using table_no_loop(1) [of m] by (cases t) (auto simp: condition_def outcome_simps)

lemma is_define_starts: "starts_with ''#define'' line \<Longrightarrow> is_define line"
  by (simp add: is_define_def)

lemma ifelse_line_ends:
  assumes "orderly rank st inp" "is_define line \<longrightarrow> ordered_define rank line inp" "length line < MAXLEN"
  shows "ends (\<lambda>step. case step of None \<Rightarrow> True | Some (st', inp', c', d') \<Rightarrow> orderly rank st' inp') (ifelse_line st line inp c d)"
proof -
  have def: "ends (\<lambda>step. case step of None \<Rightarrow> True | Some (st', inp', c', d') \<Rightarrow> orderly rank st' inp')
      (obind (defineMap (pmap st) line inp) (\<lambda>mi. Inr (Some (st\<lparr>pmap := fst mi\<rparr>, snd mi, c, d))))"
    if "starts_with ''#define'' line" for c d
    by (rule define_step [OF assms is_define_starts [OF that]]) simp
  have "condition (pmap st) t \<noteq> Inl Loops" for t
    using assms(1) by (intro condition_no_loop) (simp add: orderly_def sound_def)
  then have con: "ends (\<lambda>step. case step of None \<Rightarrow> True | Some (st', inp', c', d') \<Rightarrow> orderly rank st' inp')
      (obind (condition (pmap st) t) (\<lambda>c. Inr (Some (st, inp, c, False))))" for t
    using assms(1) by (intro ends_obind_any) auto
  show ?thesis using assms(1) by (auto simp: ifelse_line_def intro: def con)
qed

lemma ifelse_ends: "orderly rank st inp \<Longrightarrow> ends (\<lambda>(st', inp'). orderly rank st' inp') (ifelse st inp c d)"
proof (induction st inp c d rule: ifelse.induct)
  case (1 st inp c d)
  show ?case
  proof (cases "getLine inp")
    case None
    with "1.prems" show ?thesis by (subst ifelse.simps) simp
  next
    case (Some lr)
    obtain line r where lr: "lr = (line, r)" by (cases lr)
    with Some "1.prems" have r: "orderly rank st r" "is_define line \<longrightarrow> ordered_define rank line r" "length line < MAXLEN"
      using ordered_line getLine_length by (auto simp: orderly_def)
    from Some lr r(1) "1.IH" [OF Some lr [symmetric]] show ?thesis
      by (simp add: ifelse.simps [of st inp c d])
        (rule ends_obind [OF ifelse_line_ends [OF r]], auto split: option.splits)
  qed
qed

lemma subst_no_loop: "weak_inv m \<Longrightarrow> subst_tokens m ts s \<noteq> Inl Loops"
proof (induction ts arbitrary: s)
  case (Cons t ts)
  then show ?case using table_no_loop(1) [of m t] by (auto simp: outcome_simps split: option.splits)
qed simp

lemma do_include_ends: "no_files env \<Longrightarrow> ends ok (do_include parse env st line)"
  using search_dirs_no_files [of "the (include_name line)" "directories env"]
  by (cases "include_name line") (auto simp: do_include_def getIncFile_def no_files_def)

lemma delete_ends:
  assumes "orderly rank st inp" "length key < MAXLEN"
  shows "ends (\<lambda>m. orderly rank (st\<lparr>pmap := m\<rparr>) inp) (deleteKey (pmap st) key)"
  using deleteKey_weak [OF _ valid_token [OF assms(2)], of "pmap st"] assms(1) ranked_delete [of "pmap st" key]
  by (auto simp: orderly_def sound_def)

lemma delete_step:
  assumes "orderly rank st inp" "length key < MAXLEN" "\<And>m. orderly rank (st\<lparr>pmap := m\<rparr>) inp \<Longrightarrow> ok (f m)"
  shows "ends ok (obind (deleteKey (pmap st) key) (\<lambda>m. Inr (f m)))"
  by (rule ends_obind [OF delete_ends [OF assms(1,2)]]) (simp add: assms(3))

text \<open>What holds of the calls of \<^verbatim>\<open>ifdef\<close> on the rest of the input holds of a line.\<close>

lemma parse_line_ends:
  assumes env: "no_files env" and st: "orderly rank st inp" and line: "is_define line \<longrightarrow> ordered_define rank line inp" "length line < MAXLEN"
    and ifd: "\<And>c. ends (\<lambda>(st', inp'). orderly rank st' inp') (ifd st inp c)"
  shows "ends (\<lambda>(st', inp'). orderly rank st' inp') (parse_line parse ifd env st line inp)"
proof (cases "fst (strtok line delimiters)")
  case None
  then show ?thesis by (simp add: parse_line_def)
next
  case (Some token)
  have w: "weak_inv (pmap st)" using st by (simp add: orderly_def sound_def)
  note no_loop = table_no_loop [OF w] condition_no_loop [OF w] subst_no_loop [OF w]
  have arg: "length k < MAXLEN" if "fst (strtok (snd (strtok line delimiters)) [NL]) = Some k" for k
    using fst_strtok_short [OF that snd_strtok_short] line(2) by simp
  let ?key = "fst (strtok (snd (strtok line delimiters)) [NL])"
  show ?thesis
  proof (cases token rule: token_cases)
    case Define
    with Some have "is_define line" by (simp add: is_define_def)
    from define_step [OF st line this, of "\<lambda>(st', inp'). orderly rank st' inp'" "\<lambda>mi. (st\<lparr>pmap := fst mi\<rparr>, snd mi)"] Some Define
    show ?thesis by (simp add: parse_line_simps)
  next
    case Undef
    with Some show ?thesis
      by (cases ?key) (auto simp: parse_line_simps intro: delete_step [OF st arg])
  next
    case Cond
    with Some show ?thesis
      using ifelse_ends [OF st] no_loop by (simp add: parse_line_simps ends_obind_any)
  next
    case Ifdef
    with Some ifd show ?thesis
      using no_loop by (cases ?key) (simp_all add: parse_line_simps ends_obind_any)
  next
    case Ifndef
    with Some ifd show ?thesis
      using no_loop by (cases ?key) (simp_all add: parse_line_simps ends_obind_any)
  next
    case Include
    with Some show ?thesis
      using ends_obind [OF do_include_ends [OF env, of "\<lambda>_. False"]] by (simp add: parse_line_simps)
  next
    case Plain
    with Some st show ?thesis using no_loop by (simp add: parse_line_plain ends_obind_any)
  qed
qed

lemma ifdef_line_ends:
  assumes env: "no_files env" and st: "orderly rank st inp" and line: "is_define line \<longrightarrow> ordered_define rank line inp" "length line < MAXLEN"
    and ifd: "\<And>c. ends (\<lambda>(st', inp'). orderly rank st' inp') (ifd st inp c)"
  shows "ends (\<lambda>step. case step of None \<Rightarrow> True | Some (st', inp', c') \<Rightarrow> orderly rank st' inp')
    (ifdef_line parse ifd env st line inp cnd)" (is "ends ?ok _")
proof -
  have w: "weak_inv (pmap st)" using st by (simp add: orderly_def sound_def)
  note no_loop = table_no_loop [OF w] condition_no_loop [OF w]
  have 1: "ends ?ok (obind (defineMap (pmap st) line inp) (\<lambda>mi. Inr (Some (st\<lparr>pmap := fst mi\<rparr>, snd mi, cnd))))"
    if "starts_with ''#define'' line"
    by (rule define_step [OF st line is_define_starts [OF that]]) simp
  have 2: "ends ?ok (obind (deref (second_token line)) (\<lambda>key. obind (deleteKey (pmap st) key) (\<lambda>m. Inr (Some (st\<lparr>pmap := m\<rparr>, inp, cnd)))))"
    by (cases "second_token line") (auto intro: delete_step [OF st second_token_short [OF _ line(2)]])
  have ifds: "ends ?ok (obind (ifd st inp b) (\<lambda>si. Inr (Some (fst si, snd si, cnd))))" for b
    by (rule ends_obind [OF ifd]) auto
  have 3: "ends ?ok (obind (deref (second_token line)) (\<lambda>key. obind (get_hm (pmap st) key) (\<lambda>v.
      obind (ifd st inp (f v)) (\<lambda>si. Inr (Some (fst si, snd si, cnd))))))" for f
    using no_loop ifds by (cases "second_token line") (simp_all add: ends_obind_any)
  have 4: "ends ?ok (obind (do_include parse env st line) (\<lambda>st'. Inr (Some (st', inp, cnd))))"
    using ends_obind [OF do_include_ends [OF env, of "\<lambda>_. False"]] by simp
  have 5: "ends ?ok (obind (condition (pmap st) t) (\<lambda>c. obind (ifelse st inp c False) (\<lambda>si. Inr (Some (fst si, snd si, cnd)))))" for t
    by (rule ends_obind_any [OF no_loop(3)], rule ends_obind [OF ifelse_ends [OF st]]) auto
  show ?thesis unfolding ifdef_line_def by (intro ends_if 1 2 3 4 5) (simp_all add: st)
qed

lemma parse_ends:
  assumes env: "no_files env"
  shows "(orderly rank st inp \<longrightarrow> ends (\<lambda>_. True) (parseFile n env st inp))
    \<and> (orderly rank st inp \<longrightarrow> ends (\<lambda>(st', inp'). orderly rank st' inp') (ifdef n env st inp c))"
proof (induction n arbitrary: st inp c)
  case (Suc n)
  show ?case
  proof (cases "getLine inp")
    case None
    then show ?thesis by (auto simp: parseFile.simps(2) ifdef.simps(2))
  next
    case (Some lr)
    obtain line r where lr: "lr = (line, r)" by (cases lr)
    have P: "ends (\<lambda>_. True) (parseFile n env s i)" if "orderly rank s i" for s i
      using Suc.IH that by blast
    have I: "ends (\<lambda>(st', inp'). orderly rank st' inp') (ifdef n env s i c')" if "orderly rank s i" for s i c'
      using Suc.IH that by blast
    have r: "orderly rank st r" "is_define line \<longrightarrow> ordered_define rank line r" "length line < MAXLEN" if "orderly rank st inp"
      using ordered_line getLine_length Some lr that by (auto simp: orderly_def)
    have "ends (\<lambda>_. True) (parseFile (Suc n) env st inp)" if "orderly rank st inp"
    proof -
      have PL: "ends (\<lambda>(st', inp'). orderly rank st' inp') (parse_line (parseFile n env) (ifdef n env) env st line r)"
        by (rule parse_line_ends [OF env r [OF that]]) (rule I [OF r(1) [OF that]])
      show ?thesis using Some lr by (simp add: parseFile.simps(2)) (rule ends_obind [OF PL], auto intro: P)
    qed
    moreover have "ends (\<lambda>(st', inp'). orderly rank st' inp') (ifdef (Suc n) env st inp c)" if "orderly rank st inp"
    proof -
      have IL: "ends (\<lambda>step. case step of None \<Rightarrow> True | Some (st', inp', c') \<Rightarrow> orderly rank st' inp')
          (ifdef_line (parseFile n env) (ifdef n env) env st line r c)"
        by (rule ifdef_line_ends [OF env r [OF that]]) (rule I [OF r(1) [OF that]])
      show ?thesis using Some lr r(1) [OF that] I
        by (simp add: ifdef.simps(2)) (rule ends_obind [OF IL], auto split: option.splits)
    qed
    ultimately show ?thesis by blast
  qed
qed simp

text \<open>C27: The preprocessor ends on a text whose macros are not defined in terms of themselves.  Let the names be ranked such that
  each \<^verbatim>\<open>#define\<close> of the text, taken or not, uses only names of lower rank than the one it defines, and so the definitions that are
  there at the start.  Then without files to include \<^verbatim>\<open>parseFile\<close> does not run for ever in any of its loops, those that follow the
  values of macros and those that probe the table included: it comes to the end of the text, or
  stops the program, with one and the same result for any bound on the recursion above the length of the text.\<close>

theorem preprocessing_ends:
  assumes "no_files env" "weak_inv (pmap st)" "ranked rank (pmap st)" "ordered rank inp"
  shows "\<exists>r. r \<noteq> Inl Loops \<and> r \<noteq> Inl NoFuel \<and> (\<forall>n > length inp. parseFile n env st inp = r)"
proof -
  let ?n = "Suc (length inp)"
  have st: "sound st" "orderly rank st inp" using assms(2-4) by (simp_all add: sound_def orderly_def)
  have fuel: "parseFile ?n env st inp \<noteq> Inl NoFuel" using enough_fuel [OF assms(1), of st inp ?n] st(1) by simp
  have "parseFile n env st inp = parseFile ?n env st inp" if "n > length inp" for n
    using more_fuel [of ?n env st inp "n - ?n"] fuel that by (simp add: below_def)
  moreover have "parseFile ?n env st inp \<noteq> Inl Loops" using parse_ends [OF assms(1), of rank st inp ?n] st(2) by (auto simp: ends_def)
  ultimately show ?thesis using fuel by blast
qed

text \<open>Two names, one defined in terms of the other; the length of a name is its rank.\<close>

theorem preprocessing_ends_witness:
  "\<exists>r. r \<noteq> Inl Loops \<and> r \<noteq> Inl NoFuel
    \<and> (\<forall>n > 25. parseFile n no_env start (''#define A 1'' @ NL # ''#define AA A'' @ [NL]) = r)"
proof -
  let ?text = "''#define A 1'' @ NL # ''#define AA A'' @ [NL]"
  have env: "no_files no_env" by (simp add: no_files_def no_env_def)
  have weak: "weak_inv (pmap start)" using start_inv(3) by (simp add: sound_def)
  have table: "ranked rank (pmap start)" for rank by (simp add: start_def ranked_create)
  have "ordered (\<lambda>s. if s = ''1'' then 0 else length s) ?text" by code_simp
  from preprocessing_ends [OF env weak table this]
  have "\<exists>r. r \<noteq> Inl Loops \<and> r \<noteq> Inl NoFuel \<and> (\<forall>n > length ?text. parseFile n no_env start ?text = r)" .
  moreover have "length ?text = 25" by simp
  ultimately show ?thesis by (simp only:)
qed

end
