(* ===== verification/Channels.thy ===== *)
theory Channels
  imports Prelude "HOL-Library.Word"
begin

text \<open>
  Moving bytes through calls that may move fewer than asked: the loops around \<^verbatim>\<open>write\<close>,
  \<^verbatim>\<open>send\<close> and \<^verbatim>\<open>recv\<close> that several programs of the repository write out, and what any
  channel has to promise for such a loop to move everything.
\<close>

type_synonym byte = "8 word"

text \<open>How a coming call on a file or a socket is limited: it fails, or moves at most so many bytes.\<close>

datatype limit = Fails | AtMost nat

section \<open>The loops\<close>

text \<open>
  \<^verbatim>\<open>while (total < len) { n = put(buf + total, len - total); if (n < 0) fail; total += n; }\<close>:
  the second argument is what is left to send.  The loop need not end, when \<open>put\<close> goes on
  moving nothing.
\<close>

partial_function (option) put_all :: "('s \<Rightarrow> byte list \<Rightarrow> int \<times> 's) \<Rightarrow> 's \<Rightarrow> byte list \<Rightarrow> (bool \<times> 's) option" where
  "put_all put s bs =
     (if bs = [] then Some (True, s)
      else let (n, s') = put s bs in
           if n < 0 then Some (False, s') else put_all put s' (drop (nat n) bs))"

declare put_all.simps [code]

text \<open>
  The receiving loop: \<^const>\<open>None\<close> is an error of \<open>get\<close>, the empty list the end of the data.
\<close>

function get_all :: "('s \<Rightarrow> nat \<Rightarrow> byte list option \<times> 's) \<Rightarrow> 's \<Rightarrow> nat \<Rightarrow> byte list \<Rightarrow> byte list option \<times> 's" where
  "get_all get s n acc =
     (if n = 0 then (Some acc, s)
      else case get s n of
             (None, s') \<Rightarrow> (None, s')
           | (Some bs, s') \<Rightarrow>
               if bs = [] then (Some acc, s') else get_all get s' (n - length bs) (acc @ bs))"
  by pat_completeness auto
termination
  by (relation "measure (\<lambda>(get, s, n, acc). n)") auto

declare get_all.simps [simp del]

section \<open>Channels that take bytes\<close>

text \<open>What has been taken is an observation that grows with the bytes put.\<close>

locale action =
  fixes app :: "'o \<Rightarrow> byte list \<Rightarrow> 'o"
  assumes app_nil: "app x [] = x"
    and app_app: "app (app x a) b = app x (a @ b)"

locale sink = action app for app :: "'o \<Rightarrow> byte list \<Rightarrow> 'o" +
  fixes inv :: "'s \<Rightarrow> bool" and put :: "'s \<Rightarrow> byte list \<Rightarrow> int \<times> 's" and obs :: "'s \<Rightarrow> 'o"
    and patience :: "'s \<Rightarrow> nat"
  assumes put_moves: "inv s \<Longrightarrow> bs \<noteq> [] \<Longrightarrow> put s bs = (n, s') \<Longrightarrow> 0 \<le> n
      \<Longrightarrow> inv s' \<and> nat n \<le> length bs \<and> obs s' = app (obs s) (take (nat n) bs)
        \<and> patience s' \<le> patience s \<and> (n = 0 \<longrightarrow> patience s' < patience s)"
    and put_fails: "inv s \<Longrightarrow> bs \<noteq> [] \<Longrightarrow> put s bs = (n, s') \<Longrightarrow> n < 0 \<Longrightarrow> inv s' \<and> obs s' = obs s"
begin

lemma put_all_moves:
  assumes "inv s"
  shows "\<exists>b s' m. put_all put s bs = Some (b, s') \<and> inv s' \<and> m \<le> length bs
    \<and> obs s' = app (obs s) (take m bs) \<and> (b \<longleftrightarrow> m = length bs)"
  using assms
proof (induction "length bs + patience s" arbitrary: bs s rule: less_induct)
  case less
  show ?case
  proof (cases "bs = []")
    case True
    with less.prems show ?thesis by (auto simp: put_all.simps [of put s] app_nil)
  next
    case False
    obtain n s1 where p: "put s bs = (n, s1)" by (cases "put s bs")
    show ?thesis
    proof (cases "n < 0")
      case True
      with p False have "put_all put s bs = Some (False, s1)" by (simp add: put_all.simps [of put s])
      moreover have "inv s1" "obs s1 = app (obs s) (take 0 bs)"
        using put_fails [OF less.prems False p True] by (auto simp: app_nil)
      ultimately show ?thesis using False by (intro exI [of _ False] exI [of _ s1] exI [of _ 0]) simp
    next
      case n: False
      then have s1: "inv s1" "nat n \<le> length bs" "obs s1 = app (obs s) (take (nat n) bs)"
        "patience s1 \<le> patience s" "n = 0 \<longrightarrow> patience s1 < patience s"
        using put_moves [OF less.prems False p] by auto
      have "length (drop (nat n) bs) + patience s1 < length bs + patience s"
        using s1(2,4,5) n by (cases "n = 0") auto
      from less.hyps [OF this s1(1)] obtain b s' m where
        r: "put_all put s1 (drop (nat n) bs) = Some (b, s')" "inv s'" "m \<le> length bs - nat n"
        "obs s' = app (obs s1) (take m (drop (nat n) bs))" "b \<longleftrightarrow> m = length bs - nat n"
        by auto
      have "put_all put s bs = Some (b, s')"
        using p n False r(1) by (simp add: put_all.simps [of put s bs])
      moreover have "obs s' = app (obs s) (take (nat n + m) bs)"
        using r(4) s1(3) by (simp add: app_app take_add)
      moreover have "nat n + m \<le> length bs" "b \<longleftrightarrow> nat n + m = length bs"
        using r(3,5) s1(2) by auto
      ultimately show ?thesis using r(2) by blast
    qed
  qed
qed

end

text \<open>A channel that never fails in the states \<open>inv\<close>.\<close>

locale reliable_sink = sink +
  assumes put_succeeds: "inv s \<Longrightarrow> bs \<noteq> [] \<Longrightarrow> 0 \<le> fst (put s bs)"
begin

lemma put_all_succeeds:
  assumes "inv s"
  shows "\<exists>s'. put_all put s bs = Some (True, s') \<and> inv s' \<and> obs s' = app (obs s) bs"
proof -
  have no: "put_all put s bs \<noteq> Some (False, s')" if "inv s" for s s' bs
    using that
  proof (induction "length bs + patience s" arbitrary: bs s rule: less_induct)
    case less
    show ?case
    proof (cases "bs = []")
      case True
      then show ?thesis by (simp add: put_all.simps [of put s])
    next
      case False
      obtain n s1 where p: "put s bs = (n, s1)" by (cases "put s bs")
      have n: "0 \<le> n" using put_succeeds [OF less.prems False] p by simp
      note s1 = put_moves [OF less.prems False p n]
      have "length (drop (nat n) bs) + patience s1 < length bs + patience s"
        using s1 n False by (cases "n = 0") auto
      from less.hyps [OF this] s1 p n False show ?thesis by (simp add: put_all.simps [of put s bs])
    qed
  qed
  obtain b s' m where r: "put_all put s bs = Some (b, s')" "inv s'" "obs s' = app (obs s) (take m bs)"
    "b \<longleftrightarrow> m = length bs"
    using put_all_moves [OF assms, of bs] by blast
  with no [OF assms] have "m = length bs" by (cases b) auto
  with r show ?thesis by auto
qed

end

section \<open>Channels that give bytes\<close>

text \<open>\<open>rest s\<close> is what the channel still has to deliver.\<close>

locale reliable_source =
  fixes inv :: "'s \<Rightarrow> bool" and get :: "'s \<Rightarrow> nat \<Rightarrow> byte list option \<times> 's" and rest :: "'s \<Rightarrow> byte list"
  assumes get_moves: "inv s \<Longrightarrow> 0 < n \<Longrightarrow>
      \<exists>bs s'. get s n = (Some bs, s') \<and> inv s' \<and> rest s = bs @ rest s' \<and> length bs \<le> n \<and> (bs = [] \<longrightarrow> rest s = [])"
begin

lemma get_all_exact:
  assumes "inv s"
  shows "\<exists>s'. get_all get s n acc = (Some (acc @ take n (rest s)), s') \<and> inv s' \<and> rest s' = drop n (rest s)"
  using assms
proof (induction n arbitrary: s acc rule: less_induct)
  case (less n)
  show ?case
  proof (cases "n = 0")
    case False
    obtain bs s1 where b: "get s n = (Some bs, s1)" "inv s1" "rest s = bs @ rest s1" "length bs \<le> n"
      "bs = [] \<longrightarrow> rest s = []"
      using get_moves [OF less.prems, of n] False by auto
    show ?thesis
    proof (cases "bs = []")
      case True
      with b False show ?thesis by (simp add: get_all.simps [of get s])
    next
      case ne: False
      have "n - length bs < n" using ne False by simp
      from less.IH [OF this b(2), of "acc @ bs"] b ne False show ?thesis
        by (auto simp: get_all.simps [of get s])
    qed
  qed (use less.prems in \<open>simp add: get_all.simps\<close>)
qed

end

end
