(* ===== verification/OsFile.thy ===== *)
theory OsFile
  imports Channels
begin

text \<open>
  An open file as the system calls \<^verbatim>\<open>read\<close>, \<^verbatim>\<open>write\<close> and \<^verbatim>\<open>lseek\<close> see it: its bytes, the
  file offset, the access mode, and a plan of how the coming calls behave.  A call may fail or
  move fewer bytes than asked, as POSIX allows; when the plan is used up every call moves all
  it can.
\<close>

record kfile =
  content :: "byte list"
  koff :: nat
  kappend :: bool
  readable :: bool
  writable :: bool
  seekable :: bool
  plan :: "limit list"

definition next_limit :: "kfile \<Rightarrow> limit option \<times> kfile" where
  "next_limit k = (case plan k of [] \<Rightarrow> (None, k) | l # ls \<Rightarrow> (Some l, k\<lparr>plan := ls\<rparr>))"

text \<open>The bytes of a file after \<open>bs\<close> is written at position \<open>p\<close>; a gap is filled with zeros.\<close>

definition splice :: "byte list \<Rightarrow> nat \<Rightarrow> byte list \<Rightarrow> byte list" where
  "splice c p bs = take p c @ replicate (p - length c) 0 @ bs @ drop (p + length bs) c"

definition write_at :: "kfile \<Rightarrow> byte list \<Rightarrow> kfile" where
  "write_at k bs =
     (if bs = [] then k
      else let p = (if kappend k then length (content k) else koff k)
           in k\<lparr>content := splice (content k) p bs, koff := p + length bs\<rparr>)"

definition sys_write :: "kfile \<Rightarrow> byte list \<Rightarrow> int \<times> kfile" where
  "sys_write k bs =
     (case next_limit k of
        (Some Fails, k') \<Rightarrow> (-1, k')
      | (l, k') \<Rightarrow>
          if \<not> writable k then (-1, k')
          else let n = (case l of Some (AtMost m) \<Rightarrow> min m (length bs) | _ \<Rightarrow> length bs)
               in (int n, write_at k' (take n bs)))"

definition sys_read :: "kfile \<Rightarrow> nat \<Rightarrow> byte list option \<times> kfile" where
  "sys_read k n =
     (case next_limit k of
        (Some Fails, k') \<Rightarrow> (None, k')
      | (l, k') \<Rightarrow>
          if \<not> readable k then (None, k')
          else let bs = take (case l of Some (AtMost m) \<Rightarrow> min m n | _ \<Rightarrow> n) (drop (koff k) (content k))
               in (Some bs, k'\<lparr>koff := koff k + length bs\<rparr>))"

text \<open>\<^verbatim>\<open>lseek(fd, off, SEEK_SET)\<close>; its result is ignored by the code.\<close>

definition sys_lseek :: "kfile \<Rightarrow> int \<Rightarrow> kfile" where
  "sys_lseek k off = (if off < 0 \<or> \<not> seekable k then k else k\<lparr>koff := nat off\<rparr>)"

section \<open>Writing as a channel\<close>

type_synonym view = "bool \<times> byte list \<times> nat"

definition view :: "kfile \<Rightarrow> view" where
  "view k = (kappend k, content k, koff k)"

definition advance :: "view \<Rightarrow> byte list \<Rightarrow> view" where
  "advance v bs =
     (case v of (ap, c, p) \<Rightarrow>
        if bs = [] then v
        else let q = (if ap then length c else p) in (ap, splice c q bs, q + length bs))"

lemma view_write_at: "view (write_at k bs) = advance (view k) bs"
  by (simp add: view_def write_at_def advance_def Let_def)

lemma length_splice: "length (splice c p bs) = max (length c) (p + length bs)"
  by (auto simp: splice_def)

lemma splice_splice: "splice (splice c p a) (p + length a) b = splice c p (a @ b)"
proof -
  have 1: "take (p + length a) (splice c p a) = take p c @ replicate (p - length c) 0 @ a"
    by (simp add: splice_def)
  have 2: "drop (p + length a + length b) (splice c p a) = drop (p + length a + length b) c"
  proof -
    have "splice c p a = (take p c @ replicate (p - length c) 0 @ a) @ drop (p + length a) c"
      by (simp add: splice_def)
    moreover have "length (take p c @ replicate (p - length c) 0 @ a) = p + length a" by simp
    ultimately have "drop (p + length a + length b) (splice c p a) = drop (length b) (drop (p + length a) c)"
      by simp
    then show ?thesis by (simp add: add.commute add.left_commute)
  qed
  have 3: "p + length a - length (splice c p a) = 0"
    by (simp add: length_splice)
  show ?thesis
    unfolding splice_def [of "splice c p a"] 1 2 3 by (simp add: splice_def add.assoc)
qed

lemma splice_end [simp]: "splice c (length c) bs = c @ bs"
  by (simp add: splice_def)

lemma advance_append: "advance (advance v a) b = advance v (a @ b)"
proof -
  obtain ap c p where v: "v = (ap, c, p)" by (cases v)
  show ?thesis
  proof (cases ap)
    case True
    then show ?thesis using splice_end [of "c @ a" b] by (simp add: v advance_def Let_def)
  next
    case False
    then show ?thesis by (simp add: v advance_def Let_def splice_splice)
  qed
qed

lemma next_limit_props:
  "next_limit k = (l, k') \<Longrightarrow> view k' = view k \<and> writable k' = writable k \<and> readable k' = readable k
    \<and> seekable k' = seekable k \<and> set (plan k') \<subseteq> set (plan k) \<and> (l = None \<longrightarrow> k' = k) \<and> (l \<noteq> None \<longrightarrow> length (plan k') < length (plan k))
    \<and> (\<forall>x. l = Some x \<longrightarrow> x \<in> set (plan k))"
  by (auto simp: next_limit_def view_def split: list.splits)

lemma write_at_other [simp]:
  "writable (write_at k bs) = writable k" "readable (write_at k bs) = readable k"
  "seekable (write_at k bs) = seekable k" "plan (write_at k bs) = plan k" "kappend (write_at k bs) = kappend k"
  by (simp_all add: write_at_def Let_def)

lemma sys_write_props:
  assumes "sys_write k bs = (n, k')"
  shows "(n < 0 \<longrightarrow> view k' = view k)
    \<and> (0 \<le> n \<longrightarrow> nat n \<le> length bs \<and> view k' = advance (view k) (take (nat n) bs))
    \<and> length (plan k') \<le> length (plan k) \<and> (n = 0 \<longrightarrow> bs \<noteq> [] \<longrightarrow> length (plan k') < length (plan k))
    \<and> writable k' = writable k \<and> readable k' = readable k \<and> seekable k' = seekable k \<and> set (plan k') \<subseteq> set (plan k)"
proof -
  obtain l k1 where l: "next_limit k = (l, k1)" by (cases "next_limit k")
  note p = next_limit_props [OF l]
  have len: "length (plan k1) \<le> length (plan k)" using p by (cases l) auto
  show ?thesis
  proof (cases "l = Some Fails \<or> \<not> writable k")
    case True
    then have "n = -1" "k' = k1"
      using assms l by (auto simp: sys_write_def split: option.splits limit.splits)
    with p len show ?thesis by simp
  next
    case False
    define m where "m = (case l of Some (AtMost m) \<Rightarrow> min m (length bs) | _ \<Rightarrow> length bs)"
    have e: "n = int m" "k' = write_at k1 (take m bs)"
      using False assms l by (auto simp: sys_write_def m_def Let_def split: option.splits limit.splits)
    have "m \<le> length bs" by (simp add: m_def split: option.splits limit.splits)
    moreover have "m = 0 \<longrightarrow> bs \<noteq> [] \<longrightarrow> l \<noteq> None" by (cases l) (auto simp: m_def)
    ultimately show ?thesis using e p len by (simp add: view_write_at)
  qed
qed

definition sound_plan :: "kfile \<Rightarrow> bool" where
  "sound_plan k \<longleftrightarrow> writable k \<and> Fails \<notin> set (plan k)"

interpretation wr: sink advance "\<lambda>_. True" sys_write view "\<lambda>k. length (plan k)"
proof
  show "advance x [] = x" for x by (cases x) (simp add: advance_def)
  show "advance (advance x a) b = advance x (a @ b)" for x a b by (rule advance_append)
qed (use sys_write_props in \<open>fastforce\<close>)+

definition steady :: "bool \<Rightarrow> bool \<Rightarrow> limit set \<Rightarrow> kfile \<Rightarrow> bool" where
  "steady r q A k \<longleftrightarrow> sound_plan k \<and> readable k = r \<and> seekable k = q \<and> set (plan k) \<subseteq> A"

interpretation wr_ok: reliable_sink advance "steady r q A" sys_write view "\<lambda>k. length (plan k)"
proof
  fix k :: kfile and bs :: "byte list" and n k'
  assume k: "steady r q A k" "bs \<noteq> []" "sys_write k bs = (n, k')"
  note p = sys_write_props [OF k(3)]
  show "0 \<le> n \<Longrightarrow> steady r q A k' \<and> nat n \<le> length bs \<and> view k' = advance (view k) (take (nat n) bs)
      \<and> length (plan k') \<le> length (plan k) \<and> (n = 0 \<longrightarrow> length (plan k') < length (plan k))"
    "n < 0 \<Longrightarrow> steady r q A k' \<and> view k' = view k"
    using p k by (auto simp: steady_def sound_plan_def)
next
  fix k :: kfile and bs :: "byte list"
  assume k: "steady r q A k" "bs \<noteq> []"
  obtain l k1 where l: "next_limit k = (l, k1)" by (cases "next_limit k")
  with k(1) have "l \<noteq> Some Fails" using next_limit_props [OF l] by (auto simp: steady_def sound_plan_def)
  with k l show "0 \<le> fst (sys_write k bs)"
    by (auto simp: sys_write_def steady_def sound_plan_def Let_def split: option.splits limit.splits)
qed

text \<open>What stays of a file while it is written.\<close>

lemma steady_self: "sound_plan k \<Longrightarrow> steady (readable k) (seekable k) (set (plan k)) k"
  by (simp add: steady_def)

text \<open>Reading with no limits.\<close>

lemma sys_read_full:
  "plan k = [] \<Longrightarrow> readable k \<Longrightarrow>
   sys_read k n = (Some (take n (drop (koff k) (content k))), k\<lparr>koff := koff k + length (take n (drop (koff k) (content k)))\<rparr>)"
  by (simp add: sys_read_def next_limit_def)

lemma sys_lseek_koff [simp]: "0 \<le> off \<Longrightarrow> seekable k \<Longrightarrow> sys_lseek k off = k\<lparr>koff := nat off\<rparr>"
  by (simp add: sys_lseek_def)

section \<open>Reading\<close>

text \<open>What the file still has to deliver, and a file whose reads do not fail.\<close>

definition unread :: "kfile \<Rightarrow> byte list" where
  "unread k = drop (koff k) (content k)"

definition steady_read :: "byte list \<Rightarrow> kfile \<Rightarrow> bool" where
  "steady_read c k \<longleftrightarrow> readable k \<and> seekable k \<and> Fails \<notin> set (plan k) \<and> content k = c"

lemma sys_read_steady:
  assumes "steady_read c k"
  shows "\<exists>m k'. sys_read k n = (Some (take m (unread k)), k') \<and> m \<le> n \<and> steady_read c k'
    \<and> unread k' = drop m (unread k) \<and> (m = n \<or> length (plan k') < length (plan k))"
proof -
  obtain l k1 where l: "next_limit k = (l, k1)" by (cases "next_limit k")
  note p = next_limit_props [OF l]
  have "l \<noteq> Some Fails" using p assms by (auto simp: steady_read_def)
  define m where "m = (case l of Some (AtMost m) \<Rightarrow> min m n | _ \<Rightarrow> n)"
  have c: "content k1 = content k" "koff k1 = koff k" using p by (auto simp: view_def)
  have "sys_read k n = (Some (take m (unread k)), k1\<lparr>koff := koff k + length (take m (unread k))\<rparr>)"
    using \<open>l \<noteq> Some Fails\<close> assms l
    by (auto simp: sys_read_def m_def unread_def steady_read_def Let_def split: option.splits limit.splits)
  moreover have "m \<le> n" "m = n \<or> l \<noteq> None"
    by (auto simp: m_def split: option.splits limit.splits)
  moreover have "unread (k1\<lparr>koff := koff k + length (take m (unread k))\<rparr>) = drop m (unread k)"
    by (cases "m \<le> length (unread k)") (auto simp: unread_def c min_def add.commute)
  moreover have "length (plan k1) < length (plan k)" if "l \<noteq> None" using p that by simp
  moreover have "steady_read c (k1\<lparr>koff := koff k + length (take m (unread k))\<rparr>)"
    using p assms c by (auto simp: steady_read_def)
  ultimately show ?thesis by (intro exI [of _ m] exI conjI) (assumption | auto)+
qed

lemma seek_steady:
  "steady_read c k \<Longrightarrow> steady_read c (sys_lseek k (int p)) \<and> unread (sys_lseek k (int p)) = drop p c"
  by (auto simp: steady_read_def unread_def)

lemma take_drop_length: "xs = take m xs @ drop (length (take m xs)) xs"
  by (cases "m \<le> length xs") simp_all

text \<open>A file whose reads deliver something until its end is a source of bytes.\<close>

definition prompt :: "byte list \<Rightarrow> kfile \<Rightarrow> bool" where
  "prompt c k \<longleftrightarrow> steady_read c k \<and> AtMost 0 \<notin> set (plan k)"

interpretation rd: reliable_source "prompt c" sys_read unread
proof
  fix k :: kfile and n :: nat
  assume k: "prompt c k" "0 < n"
  obtain l k1 where l: "next_limit k = (l, k1)" by (cases "next_limit k")
  note p = next_limit_props [OF l]
  have lim: "l \<noteq> Some Fails" "l \<noteq> Some (AtMost 0)" using p k by (auto simp: prompt_def steady_read_def)
  define m where "m = (case l of Some (AtMost m) \<Rightarrow> min m n | _ \<Rightarrow> n)"
  have m: "0 < m" "m \<le> n" using lim k(2) by (auto simp: m_def split: option.splits limit.splits)
  let ?bs = "take m (unread k)" and ?k = "k1\<lparr>koff := koff k + length (take m (unread k))\<rparr>"
  have c: "content k1 = content k" using p by (auto simp: view_def)
  have "sys_read k n = (Some ?bs, ?k)"
    using lim(1) k l by (auto simp: sys_read_def m_def unread_def prompt_def steady_read_def Let_def split: option.splits limit.splits)
  moreover have "prompt c ?k" using p k c by (auto simp: prompt_def steady_read_def)
  moreover have "unread k = ?bs @ unread ?k"
    using take_drop_length [of "unread k" m] by (simp add: unread_def c add.commute)
  ultimately show "\<exists>bs s'. sys_read k n = (Some bs, s') \<and> prompt c s' \<and> unread k = bs @ unread s' \<and> length bs \<le> n
      \<and> (bs = [] \<longrightarrow> unread k = [])"
    using m by (intro exI [of _ ?bs] exI [of _ ?k]) auto
qed

end
