(* ===== verification/SoStdio.thy ===== *)
theory SoStdio
  imports OsFile
begin

text \<open>
  The buffered streams of \<^verbatim>\<open>assignments/2-stdio/checker-lin/libso_stdio.c\<close>.  Every operation
  takes the stream and the open file behind it and returns its result with both.
\<close>

section \<open>Numbers\<close>

definition BUFFER_SIZE :: int where "BUFFER_SIZE = 4096"
definition SO_EOF :: int where "SO_EOF = -1"
definition LONG_MAX :: int where "LONG_MAX = 9223372036854775807"

definition is_int :: "int \<Rightarrow> bool" where
  "is_int x \<longleftrightarrow> - INT_MAX - 1 \<le> x \<and> x \<le> INT_MAX"

definition is_long :: "int \<Rightarrow> bool" where
  "is_long x \<longleftrightarrow> - LONG_MAX - 1 \<le> x \<and> x \<le> LONG_MAX"

text \<open>The conversion of a \<^verbatim>\<open>long\<close> to \<^verbatim>\<open>int\<close> keeps the low 32 bits; division and remainder
  truncate toward zero.\<close>

definition to_int :: "int \<Rightarrow> int" where
  "to_int x = (x + 2147483648) mod 4294967296 - 2147483648"

definition c_div :: "int \<Rightarrow> int \<Rightarrow> int" where
  "c_div a b = (if a < 0 then - (- a div b) else a div b)"

definition c_mod :: "int \<Rightarrow> int \<Rightarrow> int" where
  "c_mod a b = (if a < 0 then - (- a mod b) else a mod b)"

section \<open>The stream\<close>

text \<open>\<^verbatim>\<open>struct _so_file\<close>; the field \<^verbatim>\<open>size\<close> is \<open>fsize\<close>.  \<open>buffer\<close> has 4096 bytes.\<close>

record SO_FILE =
  fd :: int
  cursor :: int
  buffer :: "byte list"
  buffer_pos :: int
  fsize :: int
  eof :: int
  err_ind :: int
  chunk_number :: int
  child_pid :: int
  last_op :: char

type_synonym 'a io = "('a \<times> SO_FILE \<times> kfile) outcome"

text \<open>What \<^verbatim>\<open>read(fd, buffer, 4096)\<close> leaves in the buffer.\<close>

definition fill :: "SO_FILE \<Rightarrow> byte list \<Rightarrow> SO_FILE" where
  "fill s bs = s\<lparr>buffer := bs @ drop (length bs) (buffer s)\<rparr>"

section \<open>Opening and closing\<close>

record open_flags =
  f_read :: bool
  f_write :: bool
  f_creat :: bool
  f_trunc :: bool
  f_append :: bool

definition mode_flags :: "string \<Rightarrow> open_flags option" where
  "mode_flags mode =
     (if mode = ''r'' then Some \<lparr>f_read = True, f_write = False, f_creat = False, f_trunc = False, f_append = False\<rparr>
      else if mode = ''r+'' then Some \<lparr>f_read = True, f_write = True, f_creat = False, f_trunc = False, f_append = False\<rparr>
      else if mode = ''w'' then Some \<lparr>f_read = False, f_write = True, f_creat = True, f_trunc = True, f_append = False\<rparr>
      else if mode = ''w+'' then Some \<lparr>f_read = True, f_write = True, f_creat = True, f_trunc = True, f_append = False\<rparr>
      else if mode = ''a'' then Some \<lparr>f_read = False, f_write = True, f_creat = True, f_trunc = False, f_append = True\<rparr>
      else if mode = ''a+'' then Some \<lparr>f_read = True, f_write = True, f_creat = True, f_trunc = False, f_append = True\<rparr>
      else None)"

text \<open>
  \<^verbatim>\<open>open\<close> of a path that holds \<open>old\<close> (or nothing) with the descriptor it returns; the coming
  calls on the file follow the given plan.
\<close>

definition sys_open :: "open_flags \<Rightarrow> byte list option \<Rightarrow> limit list \<Rightarrow> kfile option" where
  "sys_open fl old ls =
     (case (if f_trunc fl then map_option (\<lambda>_. []) old else old) of
        None \<Rightarrow> if f_creat fl then Some \<lparr>content = [], koff = 0, kappend = f_append fl, readable = f_read fl,
                  writable = f_write fl, seekable = True, plan = ls\<rparr> else None
      | Some c \<Rightarrow> Some \<lparr>content = c, koff = 0, kappend = f_append fl, readable = f_read fl,
                  writable = f_write fl, seekable = True, plan = ls\<rparr>)"

text \<open>
  \<open>mem\<close> is the block \<^verbatim>\<open>malloc\<close> returns, with whatever it holds; \<open>old\<close> is the content of the
  path (\<^const>\<open>None\<close>: no such file) and \<open>n\<close> the descriptor.
\<close>

definition so_fopen :: "SO_FILE \<Rightarrow> int \<Rightarrow> byte list option \<Rightarrow> limit list \<Rightarrow> string \<Rightarrow> (SO_FILE \<times> kfile) option" where
  "so_fopen mem n old ls mode =
     (case mode_flags mode of
        None \<Rightarrow> None
      | Some fl \<Rightarrow>
          (case sys_open fl old ls of
             None \<Rightarrow> None
           | Some k \<Rightarrow> Some (mem\<lparr>fd := n, cursor := 0, buffer_pos := 0, err_ind := 0, chunk_number := -1,
                 last_op := CHR ''r'', eof := 0, fsize := int (length (content k))\<rparr>, k)))"

definition so_fileno :: "SO_FILE \<Rightarrow> int" where
  "so_fileno s = fd s"

section \<open>Flushing\<close>

text \<open>
  \<^verbatim>\<open>so_fflush\<close>: the first \<^verbatim>\<open>write\<close>, then the loop over what it left.  A negative
  \<^verbatim>\<open>buffer_pos\<close> (after a failed read) is converted to a huge count.
\<close>

definition so_fflush :: "SO_FILE \<Rightarrow> kfile \<Rightarrow> int io" where
  "so_fflush s k =
     (if buffer_pos s < 0 then Inl Undefined
      else
        let bs = take (nat (buffer_pos s)) (buffer s);
            (n, k1) = (if buffer_pos s = 0 then (0, k) else sys_write k bs)
        in if n = -1 then Inr (SO_EOF, s\<lparr>err_ind := SO_EOF\<rparr>, k1)
           else (case put_all sys_write k1 (drop (nat n) bs) of
                   None \<Rightarrow> Inl Loops
                 | Some (False, k2) \<Rightarrow> Inr (SO_EOF, s\<lparr>err_ind := SO_EOF\<rparr>, k2)
                 | Some (True, k2) \<Rightarrow> Inr (0, s\<lparr>buffer_pos := 0, last_op := CHR ''r''\<rparr>, k2)))"

text \<open>\<^verbatim>\<open>so_fclose\<close> with the result of \<^verbatim>\<open>close\<close>; the stream is freed.\<close>

definition so_fclose :: "int \<Rightarrow> SO_FILE \<Rightarrow> kfile \<Rightarrow> (int \<times> kfile) outcome" where
  "so_fclose close_rc s k =
     obind (if last_op s = CHR ''w'' then so_fflush s k else Inr (0, s, k)) (\<lambda>(rc, s1, k1).
       let ret = (if rc < 0 then rc else 0)
       in Inr (if close_rc < 0 then close_rc else ret, k1))"

section \<open>Reading\<close>

text \<open>The end of \<^verbatim>\<open>so_fgetc\<close>, once the right chunk is in the buffer.\<close>

definition getc_at :: "int \<Rightarrow> SO_FILE \<Rightarrow> kfile \<Rightarrow> int io" where
  "getc_at pos s k =
     (if buffer_pos s \<le> pos then Inr (SO_EOF, s\<lparr>eof := 1, err_ind := SO_EOF\<rparr>, k)
      else if pos < 0 then Inl Undefined
      else Inr (uint (buffer s ! nat pos), s\<lparr>last_op := CHR ''r'', cursor := cursor s + 1\<rparr>, k))"

definition so_fgetc :: "SO_FILE \<Rightarrow> kfile \<Rightarrow> int io" where
  "so_fgetc s k =
     (let chunk = to_int (c_div (cursor s) BUFFER_SIZE);
          pos = c_mod (cursor s) BUFFER_SIZE
      in obind (if last_op s = CHR ''w'' then so_fflush s k else Inr (0, s, k)) (\<lambda>(rc, s1, k1).
           if rc < 0 then Inr (rc, s1, k1)
           else if chunk \<noteq> chunk_number s1 then
             if \<not> is_int (BUFFER_SIZE * chunk) then Inl Undefined
             else
               (case sys_read (sys_lseek k1 (BUFFER_SIZE * chunk)) (nat BUFFER_SIZE) of
                  (None, k2) \<Rightarrow> Inr (SO_EOF, s1\<lparr>chunk_number := chunk, buffer_pos := -1, err_ind := -2\<rparr>, k2)
                | (Some bs, k2) \<Rightarrow>
                    let s2 = (fill s1 bs)\<lparr>chunk_number := chunk, buffer_pos := int (length bs)\<rparr>
                    in if bs = [] then Inr (SO_EOF, s2\<lparr>eof := 1\<rparr>, k2) else getc_at pos s2 k2)
           else getc_at pos s1 k1))"

text \<open>
  The loop of \<^verbatim>\<open>so_fread\<close>: \<open>out\<close> is what stands at \<^verbatim>\<open>ptr\<close>, \<open>length out\<close> is \<^verbatim>\<open>cnt\<close>.
  \<^const>\<open>None\<close>: the loop never ends.
\<close>

partial_function (option) fread_loop ::
  "nat \<Rightarrow> nat \<Rightarrow> byte list \<Rightarrow> SO_FILE \<Rightarrow> kfile \<Rightarrow> (nat \<times> byte list) io option" where
  "fread_loop elt len out s k =
     (if length out < len then
        (case so_fgetc s k of
           Inl e \<Rightarrow> Some (Inl e)
         | Inr (var, s1, k1) \<Rightarrow>
             if var = SO_EOF then
               if err_ind s1 = -2 then Some (Inr ((0, out), s1, k1))
               else
                 (case sys_read (sys_lseek k1 (int (length out))) (nat BUFFER_SIZE) of
                    (None, k2) \<Rightarrow> Some (Inr ((0, out), s1\<lparr>err_ind := SO_EOF\<rparr>, k2))
                  | (Some bs, k2) \<Rightarrow>
                      let s2 = fill s1 bs
                      in if bs = [] then Some (Inr ((length out div elt, out), s2\<lparr>eof := 1\<rparr>, k2))
                         else let n = min (length bs) (len - length out - 1)
                              in fread_loop elt len (out @ take n bs)
                                   (s2\<lparr>eof := 0, cursor := cursor s2 + int n, buffer_pos := 0, chunk_number := -1\<rparr>) k2)
             else fread_loop elt len (out @ [word_of_int var]) s1 k1)
      else Some (if elt = 0 then Inl Undefined else Inr ((length out div elt, out), s, k)))"

declare fread_loop.simps [code]

text \<open>The product of the two \<^verbatim>\<open>size_t\<close>s wraps at 2 to the 64.\<close>

definition total_bytes :: "nat \<Rightarrow> nat \<Rightarrow> nat" where
  "total_bytes elt nmemb = elt * nmemb mod 18446744073709551616"

definition so_fread :: "nat \<Rightarrow> nat \<Rightarrow> SO_FILE \<Rightarrow> kfile \<Rightarrow> (nat \<times> byte list) io" where
  "so_fread elt nmemb s k =
     (case fread_loop elt (total_bytes elt nmemb) [] s k of None \<Rightarrow> Inl Loops | Some r \<Rightarrow> r)"

section \<open>Writing\<close>

definition so_fputc :: "int \<Rightarrow> SO_FILE \<Rightarrow> kfile \<Rightarrow> int io" where
  "so_fputc c s k =
     (let s1 = (if last_op s = CHR ''r'' then s\<lparr>buffer_pos := 0\<rparr> else s)
      in obind (if buffer_pos s1 = BUFFER_SIZE - 1 then so_fflush s1 k else Inr (0, s1, k)) (\<lambda>(rc, s2, k2).
           if rc < 0 then Inr (rc, s2\<lparr>err_ind := rc\<rparr>, k2)
           else if buffer_pos s2 < 0 \<or> BUFFER_SIZE \<le> buffer_pos s2 then Inl Undefined
           else Inr (c, s2\<lparr>buffer := (buffer s2)[nat (buffer_pos s2) := word_of_int c],
                     buffer_pos := buffer_pos s2 + 1, cursor := cursor s2 + 1, fsize := fsize s2 + 1,
                     last_op := CHR ''w''\<rparr>, k2)))"

text \<open>The loop of \<^verbatim>\<open>so_fwrite\<close> over the bytes at \<^verbatim>\<open>ptr\<close>; it ignores what \<^verbatim>\<open>so_fputc\<close>
  returns.\<close>

fun fwrite_loop :: "byte list \<Rightarrow> SO_FILE \<Rightarrow> kfile \<Rightarrow> (SO_FILE \<times> kfile) outcome" where
  "fwrite_loop [] s k = Inr (s, k)"
| "fwrite_loop (b # bs) s k = obind (so_fputc (uint b) s k) (\<lambda>(r, s1, k1). fwrite_loop bs s1 k1)"

definition so_fwrite :: "byte list \<Rightarrow> nat \<Rightarrow> nat \<Rightarrow> SO_FILE \<Rightarrow> kfile \<Rightarrow> nat io" where
  "so_fwrite ptr elt nmemb s k =
     (if length ptr < total_bytes elt nmemb \<or> elt = 0 then Inl Undefined
      else obind (fwrite_loop (take (total_bytes elt nmemb) ptr) s k) (\<lambda>(s1, k1).
        Inr (total_bytes elt nmemb div elt, s1, k1)))"

section \<open>Positioning and state\<close>

definition so_fseek :: "int \<Rightarrow> int \<Rightarrow> SO_FILE \<Rightarrow> kfile \<Rightarrow> int io" where
  "so_fseek offset whence s k =
     obind (if last_op s = CHR ''w'' then so_fflush s k else Inr (0, s, k)) (\<lambda>(rc, s1, k1).
       if rc < 0 then Inr (rc, s1\<lparr>err_ind := rc\<rparr>, k1)
       else if whence \<noteq> 0 \<and> whence \<noteq> 1 \<and> whence \<noteq> 2 then Inr (-1, s1, k1)
       else
         let c = (if whence = 0 then offset else if whence = 1 then cursor s1 + offset else fsize s1 + offset)
         in if \<not> is_long c then Inl Undefined
            else if c < 0 \<or> fsize s1 < c then Inr (-1, s1\<lparr>cursor := c\<rparr>, k1)
            else Inr (0, s1\<lparr>cursor := c, chunk_number := -1\<rparr>, sys_lseek k1 c))"

definition so_ftell :: "SO_FILE \<Rightarrow> int" where
  "so_ftell s = cursor s"

definition so_feof :: "SO_FILE \<Rightarrow> int" where
  "so_feof s = eof s"

definition so_ferror :: "SO_FILE \<Rightarrow> int" where
  "so_ferror s = err_ind s"

section \<open>Processes\<close>

text \<open>What the two sides of the \<^verbatim>\<open>fork\<close> do with the ends of the pipe.\<close>

datatype action = Close int | Dup2 int int | ExecShell string

text \<open>
  \<^verbatim>\<open>so_popen\<close> with the results of \<^verbatim>\<open>pipe\<close> and \<^verbatim>\<open>fork\<close>: in the child (\<open>pid\<close> 0) the value is
  what is returned when \<^verbatim>\<open>execl\<close> fails.
\<close>

definition so_popen :: "SO_FILE \<Rightarrow> int \<Rightarrow> int \<times> int \<Rightarrow> int \<Rightarrow> string \<Rightarrow> string \<Rightarrow> SO_FILE option \<times> action list" where
  "so_popen mem pipe_rc fds pid command mode =
     (if pipe_rc \<noteq> 0 then (None, [])
      else if pid = -1 then (None, [Close (fst fds), Close (snd fds)])
      else if pid = 0 then
        (None, (if mode = ''r'' then [Close (fst fds), Dup2 (snd fds) 1] else [Close (snd fds), Dup2 (fst fds) 0])
               @ [ExecShell command])
      else
        (Some (mem\<lparr>fd := (if mode = ''r'' then fst fds else snd fds), child_pid := pid, cursor := 0, buffer_pos := 0,
            err_ind := 0, chunk_number := -1, last_op := CHR ''r'', eof := 0, fsize := 0\<rparr>),
         [Close (if mode = ''r'' then snd fds else fst fds)]))"

text \<open>\<^verbatim>\<open>so_pclose\<close> with the result of \<^verbatim>\<open>waitpid\<close>.\<close>

definition so_pclose :: "int \<Rightarrow> SO_FILE \<Rightarrow> kfile \<Rightarrow> (int \<times> kfile) outcome" where
  "so_pclose wait_rc s k =
     obind (if last_op s = CHR ''w'' then so_fflush s k else Inr (0, s, k)) (\<lambda>(rc, s1, k1).
       Inr (if wait_rc = -1 then -1 else rc, k1))"

end
