(* ===== verification/SoProps.thy ===== *)
theory SoProps
  imports SoStdio
begin

text \<open>
  What writing to the streams of \<^verbatim>\<open>assignments/2-stdio\<close> promises: bytes written and flushed or
  closed reach the file once and in order, whatever the kernel's short writes; errors show in the
  result of \<^verbatim>\<open>so_fflush\<close> but not in that of \<^verbatim>\<open>so_fwrite\<close>.
\<close>

section \<open>Flushing\<close>

definition pending :: "SO_FILE \<Rightarrow> byte list" where
  "pending s = take (nat (buffer_pos s)) (buffer s)"

definition in_buffer :: "SO_FILE \<Rightarrow> bool" where
  "in_buffer s \<longleftrightarrow> 0 \<le> buffer_pos s \<and> buffer_pos s \<le> int (length (buffer s))"

lemma length_pending: "in_buffer s \<Longrightarrow> int (length (pending s)) = buffer_pos s"
  by (auto simp: pending_def in_buffer_def)

lemma so_fflush_put_all:
  assumes "in_buffer s"
  shows "so_fflush s k =
    (case put_all sys_write k (pending s) of
       None \<Rightarrow> Inl Loops
     | Some (False, k2) \<Rightarrow> Inr (SO_EOF, s\<lparr>err_ind := SO_EOF\<rparr>, k2)
     | Some (True, k2) \<Rightarrow> Inr (0, s\<lparr>buffer_pos := 0, last_op := CHR ''r''\<rparr>, k2))"
proof (cases "buffer_pos s = 0")
  case True
  then show ?thesis by (simp add: so_fflush_def pending_def put_all.simps [of sys_write])
next
  case False
  obtain n k1 where w: "sys_write k (pending s) = (n, k1)" by (cases "sys_write k (pending s)")
  have ne: "pending s \<noteq> []" using length_pending [OF assms] False by auto
  have "n < 0 \<Longrightarrow> n = -1"
    using w by (auto simp: sys_write_def Let_def split: prod.splits option.splits limit.splits if_splits)
  then consider "n = -1" | "0 \<le> n" by linarith
  moreover have "put_all sys_write k (pending s) = (if n < 0 then Some (False, k1) else put_all sys_write k1 (drop (nat n) (pending s)))"
    using ne w by (subst put_all.simps) simp
  moreover have "so_fflush s k = (if n = -1 then Inr (SO_EOF, s\<lparr>err_ind := SO_EOF\<rparr>, k1)
      else (case put_all sys_write k1 (drop (nat n) (pending s)) of
              None \<Rightarrow> Inl Loops
            | Some (False, k2) \<Rightarrow> Inr (SO_EOF, s\<lparr>err_ind := SO_EOF\<rparr>, k2)
            | Some (True, k2) \<Rightarrow> Inr (0, s\<lparr>buffer_pos := 0, last_op := CHR ''r''\<rparr>, k2)))"
    using False w assms by (simp add: so_fflush_def pending_def in_buffer_def)
  ultimately show ?thesis by cases simp_all
qed

text \<open>\<^verbatim>\<open>so_fflush\<close> on any file: it returns; of the pending bytes a prefix is written, once and
in order, at the file offset (at the end for append mode); the result is 0 exactly when the prefix
is everything, and then the buffer is empty; on a failed write the result is \<^verbatim>\<open>SO_EOF\<close>, the error
indicator is set and the buffer keeps all its bytes.\<close>

theorem fflush_writes_prefix:
  assumes "in_buffer s"
  shows "\<exists>m rc s' k'. so_fflush s k = Inr (rc, s', k') \<and> m \<le> length (pending s)
    \<and> view k' = advance (view k) (take m (pending s))
    \<and> (rc = 0 \<and> m = length (pending s) \<and> pending s' = [] \<and> err_ind s' = err_ind s
       \<or> rc = SO_EOF \<and> m < length (pending s) \<and> pending s' = pending s \<and> err_ind s' = SO_EOF)"
proof -
  obtain b k' m where r: "put_all sys_write k (pending s) = Some (b, k')" "m \<le> length (pending s)"
    "view k' = advance (view k) (take m (pending s))" "b \<longleftrightarrow> m = length (pending s)"
    using wr.put_all_moves [of k "pending s"] by auto
  show ?thesis
  proof (cases b)
    case True
    then show ?thesis
      using r so_fflush_put_all [OF assms, of k]
      by (intro exI [of _ m] exI [of _ 0] exI [of _ "s\<lparr>buffer_pos := 0, last_op := CHR ''r''\<rparr>"] exI [of _ k'])
        (simp add: pending_def)
  next
    case False
    then show ?thesis
      using r so_fflush_put_all [OF assms, of k]
      by (intro exI [of _ m] exI [of _ SO_EOF] exI [of _ "s\<lparr>err_ind := SO_EOF\<rparr>"] exI [of _ k'])
        (auto simp: pending_def)
  qed
qed

definition blank :: SO_FILE where
  "blank = \<lparr>fd = 0, cursor = 0, buffer = replicate 4096 0, buffer_pos = 0, fsize = 0, eof = 0, err_ind = 0,
     chunk_number = -1, child_pid = 0, last_op = CHR ''r''\<rparr>"

definition disk :: "byte list \<Rightarrow> limit list \<Rightarrow> kfile" where
  "disk c ls = \<lparr>content = c, koff = 0, kappend = False, readable = True, writable = True, seekable = True, plan = ls\<rparr>"

theorem fflush_writes_prefix_witness:
  "\<exists>m rc s' k'. so_fflush (blank\<lparr>buffer_pos := 3\<rparr>) (disk [] [AtMost 2, Fails]) = Inr (rc, s', k') \<and> m \<le> 3
    \<and> view k' = advance (view (disk [] [AtMost 2, Fails])) (take m [0, 0, 0])"
proof -
  have h: "in_buffer (blank\<lparr>buffer_pos := 3\<rparr>)" "pending (blank\<lparr>buffer_pos := 3\<rparr>) = [0, 0, 0]"
    by (simp_all add: in_buffer_def blank_def pending_def numeral_3_eq_3)
  obtain m rc s' k' where "so_fflush (blank\<lparr>buffer_pos := 3\<rparr>) (disk [] [AtMost 2, Fails]) = Inr (rc, s', k')"
    "m \<le> length [0 :: byte, 0, 0]" "view k' = advance (view (disk [] [AtMost 2, Fails])) (take m [0, 0, 0])"
    using fflush_writes_prefix [OF h(1), of "disk [] [AtMost 2, Fails]"] unfolding h(2) by blast
  then show ?thesis by (intro exI [of _ m] exI [of _ rc] exI [of _ s'] exI [of _ k']) simp
qed

lemma so_fflush_steady:
  assumes "in_buffer s" "steady r q A k"
  shows "\<exists>k'. so_fflush s k = Inr (0, s\<lparr>buffer_pos := 0, last_op := CHR ''r''\<rparr>, k') \<and> steady r q A k'
    \<and> view k' = advance (view k) (pending s)"
  using wr_ok.put_all_succeeds [OF assms(2), of "pending s"] so_fflush_put_all [OF assms(1), of k] by auto

section \<open>Writing\<close>

text \<open>\<open>written s k\<close>: the file once the pending bytes of a stream in write mode are flushed.\<close>

definition written :: "SO_FILE \<Rightarrow> kfile \<Rightarrow> view" where
  "written s k = (if last_op s = CHR ''w'' then advance (view k) (pending s) else view k)"

definition wr_inv :: "bool \<Rightarrow> bool \<Rightarrow> limit set \<Rightarrow> SO_FILE \<Rightarrow> kfile \<Rightarrow> bool" where
  "wr_inv r q A s k \<longleftrightarrow> steady r q A k \<and> length (buffer s) = 4096
     \<and> (last_op s = CHR ''w'' \<longrightarrow> 0 \<le> buffer_pos s \<and> buffer_pos s < 4096)
     \<and> (last_op s \<noteq> CHR ''w'' \<longrightarrow> last_op s = CHR ''r'')"

lemma wr_inv_in_buffer: "wr_inv r q A s k \<Longrightarrow> last_op s = CHR ''w'' \<Longrightarrow> in_buffer s"
  by (simp add: wr_inv_def in_buffer_def)

lemma so_fputc_ok:
  assumes "wr_inv r q A s k"
  shows "\<exists>s' k'. so_fputc c s k = Inr (c, s', k') \<and> wr_inv r q A s' k' \<and> last_op s' = CHR ''w''
    \<and> written s' k' = advance (written s k) [word_of_int c] \<and> cursor s' = cursor s + 1 \<and> fsize s' = fsize s + 1
    \<and> chunk_number s' = chunk_number s \<and> err_ind s' = err_ind s"
proof -
  define s1 where "s1 = (if last_op s = CHR ''r'' then s\<lparr>buffer_pos := 0\<rparr> else s)"
  have s1: "steady r q A k" "length (buffer s1) = 4096" "0 \<le> buffer_pos s1" "buffer_pos s1 < 4096" "in_buffer s1"
    "cursor s1 = cursor s" "fsize s1 = fsize s" "chunk_number s1 = chunk_number s" "err_ind s1 = err_ind s"
    using assms by (auto simp: wr_inv_def s1_def in_buffer_def)
  have w1: "advance (view k) (pending s1) = written s k"
    using assms by (auto simp: wr_inv_def s1_def written_def pending_def wr.app_nil)
  let ?put = "\<lambda>s2. s2\<lparr>buffer := (buffer s2)[nat (buffer_pos s2) := word_of_int c],
       buffer_pos := buffer_pos s2 + 1, cursor := cursor s2 + 1, fsize := fsize s2 + 1, last_op := CHR ''w''\<rparr>"
  have step: "\<exists>s' k'. (s' = ?put s2 \<and> k' = k2) \<and> wr_inv r q A s' k' \<and> last_op s' = CHR ''w''
    \<and> written s' k' = advance (written s k) [word_of_int c] \<and> cursor s' = cursor s + 1 \<and> fsize s' = fsize s + 1
    \<and> chunk_number s' = chunk_number s \<and> err_ind s' = err_ind s"
    if k2: "steady r q A k2" "advance (view k2) (pending s2) = written s k" "length (buffer s2) = 4096"
      "0 \<le> buffer_pos s2" "buffer_pos s2 < 4095"
      "cursor s2 = cursor s" "fsize s2 = fsize s" "chunk_number s2 = chunk_number s" "err_ind s2 = err_ind s" for s2 k2
  proof -
    have "nat (buffer_pos s2 + 1) = Suc (nat (buffer_pos s2))" using k2(4) by simp
    then have "pending (?put s2) = pending s2 @ [word_of_int c]"
      using k2(3-5) by (simp add: pending_def take_update_last)
    then have "written (?put s2) k2 = advance (written s k) [word_of_int c]"
      using k2(2) wr.app_app [of "view k2" "pending s2" "[word_of_int c]"] by (simp add: written_def)
    then show ?thesis using k2 by (simp add: wr_inv_def)
  qed
  show ?thesis
  proof (cases "buffer_pos s1 = 4095")
    case True
    obtain k2 where f: "so_fflush s1 k = Inr (0, s1\<lparr>buffer_pos := 0, last_op := CHR ''r''\<rparr>, k2)" "steady r q A k2"
      "view k2 = advance (view k) (pending s1)"
      using so_fflush_steady [OF s1(5,1)] by blast
    have "so_fputc c s k = Inr (c, ?put (s1\<lparr>buffer_pos := 0, last_op := CHR ''r''\<rparr>), k2)"
      using True f(1) by (simp add: so_fputc_def s1_def [symmetric] BUFFER_SIZE_def Let_def)
    moreover have "advance (view k2) (pending (s1\<lparr>buffer_pos := 0, last_op := CHR ''r''\<rparr>)) = written s k"
      using f(3) w1 by (simp add: pending_def wr.app_nil)
    ultimately show ?thesis
      using step [OF f(2), of "s1\<lparr>buffer_pos := 0, last_op := CHR ''r''\<rparr>"] s1 by auto
  next
    case False
    then have "so_fputc c s k = Inr (c, ?put s1, k)"
      using s1 by (simp add: so_fputc_def s1_def [symmetric] BUFFER_SIZE_def Let_def)
    then show ?thesis using step [OF s1(1) w1 s1(2,3)] False s1 by auto
  qed
qed

lemma fwrite_loop_ok:
  assumes "wr_inv r q A s k"
  shows "\<exists>s' k'. fwrite_loop bs s k = Inr (s', k') \<and> wr_inv r q A s' k'
    \<and> written s' k' = advance (written s k) bs \<and> cursor s' = cursor s + int (length bs)
    \<and> fsize s' = fsize s + int (length bs) \<and> chunk_number s' = chunk_number s \<and> err_ind s' = err_ind s"
  using assms
proof (induction bs arbitrary: s k)
  case Nil
  then show ?case by (simp add: wr.app_nil)
next
  case (Cons b bs)
  obtain s1 k1 where 1: "so_fputc (uint b) s k = Inr (uint b, s1, k1)" "wr_inv r q A s1 k1"
    "written s1 k1 = advance (written s k) [b]" "cursor s1 = cursor s + 1" "fsize s1 = fsize s + 1"
    "chunk_number s1 = chunk_number s" "err_ind s1 = err_ind s"
    using so_fputc_ok [OF Cons.prems, of "uint b"] by auto
  then show ?case using Cons.IH [OF 1(2)] wr.app_app [of "written s k" "[b]" bs] by auto
qed

lemma so_fwrite_ok:
  assumes "wr_inv r q A s k" "0 < elt" "total_bytes elt nmemb = length bs"
  shows "\<exists>s' k'. so_fwrite bs elt nmemb s k = Inr (length bs div elt, s', k') \<and> wr_inv r q A s' k'
    \<and> written s' k' = advance (written s k) bs \<and> cursor s' = cursor s + int (length bs)
    \<and> fsize s' = fsize s + int (length bs) \<and> chunk_number s' = chunk_number s \<and> err_ind s' = err_ind s"
  using fwrite_loop_ok [OF assms(1), of bs] assms(2,3) by (auto simp: so_fwrite_def)

lemma flush_if_writing:
  assumes "wr_inv r q A s k"
  shows "\<exists>s' k'. (if last_op s = CHR ''w'' then so_fflush s k else Inr (0, s, k)) = Inr (0, s', k')
    \<and> wr_inv r q A s' k' \<and> view k' = written s k \<and> last_op s' = CHR ''r'' \<and> cursor s' = cursor s
    \<and> fsize s' = fsize s \<and> chunk_number s' = chunk_number s \<and> err_ind s' = err_ind s"
proof (cases "last_op s = CHR ''w''")
  case True
  have "steady r q A k" using assms by (simp add: wr_inv_def)
  from so_fflush_steady [OF wr_inv_in_buffer [OF assms True] this] True assms show ?thesis
    by (auto simp: wr_inv_def written_def)
qed (use assms in \<open>auto simp: wr_inv_def written_def\<close>)

lemma so_fclose_ok:
  assumes "wr_inv r q A s k"
  shows "\<exists>k'. so_fclose 0 s k = Inr (0, k') \<and> view k' = written s k"
  using flush_if_writing [OF assms] unfolding so_fclose_def by fastforce

lemma wr_inv_open:
  assumes "so_fopen mem n old ls mode = Some (s, k)" "mode \<noteq> ''r''" "length (buffer mem) = 4096" "Fails \<notin> set ls"
  shows "wr_inv (readable k) True (set ls) s k" "last_op s = CHR ''r''" "chunk_number s = -1" "cursor s = 0"
    "fsize s = int (length (content k))" "koff k = 0"
    "mode = ''w'' \<or> mode = ''w+'' \<Longrightarrow> content k = [] \<and> \<not> kappend k"
    "mode = ''a'' \<or> mode = ''a+'' \<Longrightarrow> content k = (case old of None \<Rightarrow> [] | Some c \<Rightarrow> c) \<and> kappend k"
    "mode = ''r+'' \<Longrightarrow> old = Some (content k) \<and> \<not> kappend k"
  using assms
  by (auto simp: so_fopen_def sys_open_def mode_flags_def wr_inv_def steady_def sound_plan_def
      split: option.splits if_splits)

text \<open>C1: What is written to a freshly opened stream is in the file after \<^verbatim>\<open>so_fclose\<close>: the
whole content for the modes \<^verbatim>\<open>w\<close> and \<^verbatim>\<open>w+\<close>, after the old content for \<^verbatim>\<open>a\<close> and \<^verbatim>\<open>a+\<close>, over its
first bytes for \<^verbatim>\<open>r+\<close>.  It holds for any number of bytes and any sequence of short writes.\<close>

theorem write_then_close:
  assumes "so_fopen mem n old ls mode = Some (s, k)" "mode \<noteq> ''r''" "length (buffer mem) = 4096" "Fails \<notin> set ls"
    and "0 < elt" "total_bytes elt nmemb = length bs"
  shows "\<exists>s' k' k''. so_fwrite bs elt nmemb s k = Inr (length bs div elt, s', k') \<and> so_fclose 0 s' k' = Inr (0, k'')
    \<and> content k'' = (if mode = ''w'' \<or> mode = ''w+'' then bs
        else if mode = ''a'' \<or> mode = ''a+'' then (case old of None \<Rightarrow> [] | Some c \<Rightarrow> c) @ bs
        else bs @ drop (length bs) (the old))"
proof -
  note o = wr_inv_open [OF assms(1-4)]
  obtain s' k' where w: "so_fwrite bs elt nmemb s k = Inr (length bs div elt, s', k')"
    "wr_inv (readable k) True (set ls) s' k'" "written s' k' = advance (written s k) bs"
    using so_fwrite_ok [OF o(1) assms(5,6)] by blast
  obtain k'' where c: "so_fclose 0 s' k' = Inr (0, k'')" "view k'' = written s' k'"
    using so_fclose_ok [OF w(2)] by blast
  have v: "view k'' = advance (view k) bs" using c(2) w(3) o(2) by (simp add: written_def)
  consider "mode = ''w'' \<or> mode = ''w+''" | "mode = ''a'' \<or> mode = ''a+''" | "mode = ''r+''"
    using assms(1,2) by (auto simp: so_fopen_def mode_flags_def split: option.splits if_splits)
  then have "content k'' = (if mode = ''w'' \<or> mode = ''w+'' then bs
        else if mode = ''a'' \<or> mode = ''a+'' then (case old of None \<Rightarrow> [] | Some c \<Rightarrow> c) @ bs
        else bs @ drop (length bs) (the old))"
  proof cases
    case 1
    then show ?thesis using v o(6) o(7) by (simp add: view_def advance_def splice_def split: if_splits)
  next
    case 2
    then show ?thesis using v o(8) by (cases "bs = []") (auto simp: view_def advance_def)
  next
    case 3
    then show ?thesis using v o(6,9) by (cases "bs = []") (auto simp: view_def advance_def splice_def)
  qed
  with w(1) c(1) show ?thesis by blast
qed

theorem write_then_close_witness:
  "\<exists>s k s' k' k''. so_fopen blank 3 (Some [1, 2]) [AtMost 1, AtMost 0] ''a'' = Some (s, k)
    \<and> so_fwrite [7, 8, 9] 1 3 s k = Inr (3, s', k') \<and> so_fclose 0 s' k' = Inr (0, k'') \<and> content k'' = [1, 2, 7, 8, 9]"
proof -
  obtain s k where o: "so_fopen blank 3 (Some [1, 2]) [AtMost 1, AtMost 0] ''a'' = Some (s, k)"
    by (simp add: so_fopen_def mode_flags_def sys_open_def)
  show ?thesis
    using write_then_close [OF o, of 1 3 "[7, 8, 9]"] o
    by (simp add: blank_def total_bytes_def flip: numeral_3_eq_3)
qed

definition filled :: "SO_FILE \<Rightarrow> SO_FILE" where
  "filled s = s\<lparr>buffer_pos := 4095, last_op := CHR ''w''\<rparr>"

text \<open>\<^verbatim>\<open>so_fwrite\<close> does not look at the result of \<^verbatim>\<open>so_fputc\<close>: on a stream whose file
cannot be written it returns the full number of elements, also when every flush has failed.\<close>

theorem fwrite_hides_errors:
  assumes "last_op s = CHR ''w''" "buffer_pos s = BUFFER_SIZE - 1" "length (buffer s) = 4096" "\<not> writable k"
    and "0 < elt" "total_bytes elt nmemb = length bs"
  shows "\<exists>s' k'. so_fwrite bs elt nmemb s k = Inr (length bs div elt, s', k') \<and> view k' = view k
    \<and> pending s' = pending s \<and> (bs \<noteq> [] \<longrightarrow> so_ferror s' = SO_EOF)"
proof -
  have w: "\<exists>k1. sys_write k b = (-1, k1) \<and> view k1 = view k \<and> \<not> writable k1" if "\<not> writable k" for k b
  proof -
    obtain l k1 where l: "next_limit k = (l, k1)" by (cases "next_limit k")
    then show ?thesis using that next_limit_props [OF l] by (auto simp: sys_write_def split: option.splits limit.splits)
  qed
  have step: "\<exists>k1. so_fputc c s k = Inr (-1, s\<lparr>err_ind := SO_EOF\<rparr>, k1) \<and> view k1 = view k \<and> \<not> writable k1"
    if s: "last_op s = CHR ''w''" "buffer_pos s = BUFFER_SIZE - 1" "\<not> writable k" for c s k
    using s w [OF s(3), of "take (nat (buffer_pos s)) (buffer s)"]
    by (auto simp: so_fputc_def so_fflush_def SO_EOF_def BUFFER_SIZE_def)
  have "\<exists>s' k'. fwrite_loop bs s k = Inr (s', k') \<and> view k' = view k \<and> pending s' = pending s
      \<and> (bs \<noteq> [] \<longrightarrow> err_ind s' = SO_EOF)"
    if "last_op s = CHR ''w''" "buffer_pos s = BUFFER_SIZE - 1" "\<not> writable k" for s k
    using that
  proof (induction bs arbitrary: s k)
    case (Cons b bs)
    obtain k1 where 1: "so_fputc (uint b) s k = Inr (-1, s\<lparr>err_ind := SO_EOF\<rparr>, k1)" "view k1 = view k" "\<not> writable k1"
      using step [OF Cons.prems] by blast
    obtain s' k' where 2: "fwrite_loop bs (s\<lparr>err_ind := SO_EOF\<rparr>) k1 = Inr (s', k')" "view k' = view k1"
      "pending s' = pending (s\<lparr>err_ind := SO_EOF\<rparr>)" "bs \<noteq> [] \<longrightarrow> err_ind s' = SO_EOF"
      using Cons.IH [of "s\<lparr>err_ind := SO_EOF\<rparr>" k1] Cons.prems 1(3) by auto
    have "err_ind s' = SO_EOF" using 2(1,4) by (cases bs) auto
    with 1 2 show ?case by (simp add: pending_def)
  qed simp
  from this [OF assms(1,2,4)] assms(5,6) show ?thesis by (auto simp: so_fwrite_def so_ferror_def)
qed

theorem fwrite_hides_errors_witness:
  "\<exists>s' k'. so_fwrite [7] 1 1 (filled blank) ((disk [] [])\<lparr>writable := False\<rparr>) = Inr (1, s', k')
    \<and> view k' = view ((disk [] [])\<lparr>writable := False\<rparr>)"
  using fwrite_hides_errors [of "filled blank" "(disk [] [])\<lparr>writable := False\<rparr>" 1 1 "[7]"]
  by (auto simp: filled_def blank_def disk_def BUFFER_SIZE_def total_bytes_def)

end
