(* ===== verification/SoRead.thy ===== *)
theory SoRead
  imports SoProps
begin

text \<open>
  What reading from the streams of \<^verbatim>\<open>assignments/2-stdio\<close> promises: the bytes of the file in order
  from the cursor on, seeking, and reading back what was written; and the calls that break it.
\<close>

section \<open>Reading\<close>

text \<open>A stream in read mode on a file without limits: the buffer is empty of meaning
(\<^verbatim>\<open>chunk_number\<close> -1) or holds the chunk of that number.\<close>

definition chunk_of :: "byte list \<Rightarrow> int \<Rightarrow> byte list" where
  "chunk_of c n = take 4096 (drop (nat (4096 * n)) c)"

definition loaded :: "SO_FILE \<Rightarrow> kfile \<Rightarrow> int \<Rightarrow> bool" where
  "loaded s k n \<longleftrightarrow> chunk_number s = n \<and> buffer_pos s = int (length (chunk_of (content k) n))
     \<and> take (length (chunk_of (content k) n)) (buffer s) = chunk_of (content k) n"

definition rd_inv :: "SO_FILE \<Rightarrow> kfile \<Rightarrow> bool" where
  "rd_inv s k \<longleftrightarrow> last_op s = CHR ''r'' \<and> length (buffer s) = 4096 \<and> plan k = [] \<and> readable k \<and> seekable k
     \<and> 0 \<le> cursor s \<and> cursor s \<le> INT_MAX \<and> int (length (content k)) \<le> INT_MAX \<and> err_ind s \<noteq> -2
     \<and> (chunk_number s = -1 \<or> 0 \<le> chunk_number s \<and> loaded s k (chunk_number s))"

lemma chunk_of_cursor:
  assumes "0 \<le> c"
  shows "c mod 4096 < int (length (chunk_of cs (c div 4096))) \<longleftrightarrow> c < int (length cs)"
    and "c < int (length cs) \<Longrightarrow> chunk_of cs (c div 4096) ! nat (c mod 4096) = cs ! nat c"
    and "chunk_of cs (c div 4096) = [] \<Longrightarrow> int (length cs) \<le> c"
proof -
  have c: "c = 4096 * (c div 4096) + c mod 4096" "0 \<le> c mod 4096" "c mod 4096 < 4096" "0 \<le> c div 4096"
    using assms by auto
  have len: "int (length (chunk_of cs (c div 4096))) = max 0 (min (int (length cs) - 4096 * (c div 4096)) 4096)"
    using c(4) by (simp add: chunk_of_def)
  show 1: "c mod 4096 < int (length (chunk_of cs (c div 4096))) \<longleftrightarrow> c < int (length cs)"
    unfolding len using c(1-3) by linarith
  then show "chunk_of cs (c div 4096) = [] \<Longrightarrow> int (length cs) \<le> c"
    using c(2) by force
  assume "c < int (length cs)"
  then show "chunk_of cs (c div 4096) ! nat (c mod 4096) = cs ! nat c"
    using c by (simp add: chunk_of_def nat_add_distrib [symmetric])
qed

lemma to_int_small: "0 \<le> x \<Longrightarrow> x \<le> INT_MAX \<Longrightarrow> to_int x = x"
  by (simp add: to_int_def INT_MAX_def)

lemma rd_inv_cong:
  assumes "rd_inv s k" "loaded s' k' n" "0 \<le> n" "last_op s' = CHR ''r''" "length (buffer s') = 4096"
    and "plan k' = []" "readable k'" "seekable k'" "content k' = content k"
    and "0 \<le> cursor s'" "cursor s' \<le> INT_MAX" "err_ind s' \<noteq> -2"
  shows "rd_inv s' k'"
  using assms by (auto simp: rd_inv_def loaded_def)

lemma getc_loaded:
  assumes "rd_inv s k" "loaded s k (cursor s div 4096)"
  shows "getc_at (cursor s mod 4096) s k =
    (if cursor s < int (length (content k))
     then Inr (uint (content k ! nat (cursor s)), s\<lparr>last_op := CHR ''r'', cursor := cursor s + 1\<rparr>, k)
     else Inr (SO_EOF, s\<lparr>eof := 1, err_ind := SO_EOF\<rparr>, k))"
proof -
  let ?c = "cursor s"
  have c: "0 \<le> ?c" using assms(1) by (simp add: rd_inv_def)
  have bp: "buffer_pos s = int (length (chunk_of (content k) (?c div 4096)))"
    and bf: "take (length (chunk_of (content k) (?c div 4096))) (buffer s) = chunk_of (content k) (?c div 4096)"
    using assms(2) by (simp_all add: loaded_def)
  show ?thesis
  proof (cases "?c < int (length (content k))")
    case True
    then have lt: "?c mod 4096 < buffer_pos s" using chunk_of_cursor(1) [OF c] bp by simp
    then have "buffer s ! nat (?c mod 4096) = take (length (chunk_of (content k) (?c div 4096))) (buffer s) ! nat (?c mod 4096)"
      using bp by (simp add: nat_less_iff)
    also have "\<dots> = content k ! nat ?c" unfolding bf by (rule chunk_of_cursor(2) [OF c True])
    finally show ?thesis using lt True by (simp add: getc_at_def)
  next
    case False
    then have "buffer_pos s \<le> ?c mod 4096"
      unfolding bp using chunk_of_cursor(1) [OF c, of "content k"] by (simp only: not_less [symmetric] not_False_eq_True)
    then show ?thesis using False by (simp add: getc_at_def)
  qed
qed

text \<open>Bringing the chunk of the cursor into the buffer.\<close>

lemma fgetc_loads:
  assumes "rd_inv s k"
  obtains s1 k1 where "rd_inv s1 k1" "loaded s1 k1 (cursor s div 4096)" "cursor s1 = cursor s" "fsize s1 = fsize s"
    "content k1 = content k"
    "so_fgetc s k = (if chunk_of (content k) (cursor s div 4096) = [] \<and> cursor s div 4096 \<noteq> chunk_number s
       then Inr (SO_EOF, s1\<lparr>eof := 1\<rparr>, k1) else getc_at (cursor s mod 4096) s1 k1)"
proof -
  let ?c = "cursor s" and ?n = "cursor s div 4096"
  have i: "last_op s = CHR ''r''" "length (buffer s) = 4096" "plan k = []" "readable k" "seekable k"
    "0 \<le> ?c" "?c \<le> INT_MAX" "err_ind s \<noteq> -2"
    using assms by (auto simp: rd_inv_def)
  have n: "0 \<le> ?n" "to_int ?n = ?n" "is_int (4096 * ?n)"
  proof -
    show "0 \<le> ?n" using i(6) by simp
    then show "to_int ?n = ?n" using i(7) by (intro to_int_small) linarith+
    show "is_int (4096 * ?n)" using i(6,7) \<open>0 \<le> ?n\<close> by (simp add: is_int_def INT_MAX_def)
  qed
  have g: "so_fgetc s k =
      (if ?n \<noteq> chunk_number s then
         (case sys_read (sys_lseek k (4096 * ?n)) 4096 of
            (None, k2) \<Rightarrow> Inr (SO_EOF, s\<lparr>chunk_number := ?n, buffer_pos := -1, err_ind := -2\<rparr>, k2)
          | (Some bs, k2) \<Rightarrow>
              let s2 = (fill s bs)\<lparr>chunk_number := ?n, buffer_pos := int (length bs)\<rparr>
              in if bs = [] then Inr (SO_EOF, s2\<lparr>eof := 1\<rparr>, k2) else getc_at (?c mod 4096) s2 k2)
       else getc_at (?c mod 4096) s k)"
    using i n by (simp add: so_fgetc_def Let_def c_div_def c_mod_def BUFFER_SIZE_def)
  show thesis
  proof (cases "?n = chunk_number s")
    case True
    then have "loaded s k ?n" using assms n(1) by (auto simp: rd_inv_def)
    then show thesis using that [of s k] assms g True by simp
  next
    case False
    let ?bs = "chunk_of (content k) ?n"
    let ?k2 = "k\<lparr>koff := nat (4096 * ?n) + length ?bs\<rparr>"
    let ?s2 = "(fill s ?bs)\<lparr>chunk_number := ?n, buffer_pos := int (length ?bs)\<rparr>"
    have "sys_read (sys_lseek k (4096 * ?n)) 4096 = (Some ?bs, ?k2)"
      using i n(1) by (simp add: sys_read_full chunk_of_def)
    then have r: "so_fgetc s k = (if ?bs = [] then Inr (SO_EOF, ?s2\<lparr>eof := 1\<rparr>, ?k2) else getc_at (?c mod 4096) ?s2 ?k2)"
      using g False by simp
    have l: "loaded ?s2 ?k2 ?n" by (simp add: loaded_def fill_def)
    have "length ?bs \<le> 4096" by (simp add: chunk_of_def)
    then have "rd_inv ?s2 ?k2"
      using i by (intro rd_inv_cong [OF assms l n(1)]) (auto simp: fill_def)
    then show thesis using that [of ?s2 ?k2] l r False by (simp add: fill_def)
  qed
qed

lemma fgetc_rd:
  assumes "rd_inv s k"
  shows "\<exists>s' k'. so_fgetc s k = Inr (if cursor s < int (length (content k)) then uint (content k ! nat (cursor s)) else SO_EOF, s', k')
    \<and> rd_inv s' k' \<and> content k' = content k \<and> fsize s' = fsize s
    \<and> cursor s' = (if cursor s < int (length (content k)) then cursor s + 1 else cursor s)
    \<and> (int (length (content k)) \<le> cursor s \<longrightarrow> eof s' = 1)"
proof -
  obtain s1 k1 where 1: "rd_inv s1 k1" "loaded s1 k1 (cursor s div 4096)" "cursor s1 = cursor s" "fsize s1 = fsize s"
    "content k1 = content k"
    "so_fgetc s k = (if chunk_of (content k) (cursor s div 4096) = [] \<and> cursor s div 4096 \<noteq> chunk_number s
       then Inr (SO_EOF, s1\<lparr>eof := 1\<rparr>, k1) else getc_at (cursor s mod 4096) s1 k1)"
    by (rule fgetc_loads [OF assms])
  have c: "0 \<le> cursor s" and len: "int (length (content k)) \<le> INT_MAX" using assms by (auto simp: rd_inv_def)
  note get = getc_loaded [OF 1(1), unfolded 1(3,5), OF 1(2)]
  show ?thesis
  proof (cases "cursor s < int (length (content k))")
    case True
    then have "chunk_of (content k) (cursor s div 4096) \<noteq> []"
      using chunk_of_cursor(3) [OF c, of "content k"] by auto
    with 1 get True len show ?thesis
      by (auto simp: rd_inv_def loaded_def)
  next
    case False
    have "rd_inv (s1\<lparr>eof := 1\<rparr>) k1" "rd_inv (s1\<lparr>eof := 1, err_ind := SO_EOF\<rparr>) k1"
      using 1(1) by (auto simp: rd_inv_def loaded_def SO_EOF_def)
    with 1 get False show ?thesis by (auto simp: SO_EOF_def)
  qed
qed

text \<open>On a file without short reads \<^verbatim>\<open>so_fgetc\<close> returns the byte of the file at the cursor
and moves it by one, whatever chunk is in the buffer; at the end of the file it returns
\<^verbatim>\<open>SO_EOF\<close>, leaves the cursor and sets the end-of-file mark.\<close>

theorem fgetc_returns_byte:
  assumes "rd_inv s k"
  shows "\<exists>s' k'. so_fgetc s k = Inr (if cursor s < int (length (content k)) then uint (content k ! nat (cursor s)) else SO_EOF, s', k')
    \<and> rd_inv s' k' \<and> content k' = content k
    \<and> so_ftell s' = (if cursor s < int (length (content k)) then cursor s + 1 else cursor s)
    \<and> (int (length (content k)) \<le> cursor s \<longrightarrow> so_feof s' = 1)"
  using fgetc_rd [OF assms] by (auto simp: so_ftell_def so_feof_def)

lemma rd_inv_blank: "int (length c) \<le> INT_MAX \<Longrightarrow> rd_inv blank (disk c [])"
  by (simp add: rd_inv_def blank_def disk_def INT_MAX_def)

theorem fgetc_returns_byte_witness:
  "\<exists>s' k'. so_fgetc blank (disk [65, 66] []) = Inr (65, s', k') \<and> so_ftell s' = 1"
  using fgetc_returns_byte [OF rd_inv_blank [of "[65, 66]"]] by (fastforce simp: blank_def disk_def INT_MAX_def)

subsection \<open>\<^verbatim>\<open>so_fread\<close>\<close>

definition chunk_from :: "byte list \<Rightarrow> nat \<Rightarrow> byte list" where
  "chunk_from c n = take 4096 (drop n c)"

lemma sys_read_at:
  assumes "rd_inv s k"
  shows "sys_read (sys_lseek k (int n)) (nat BUFFER_SIZE) = (Some (chunk_from (content k) n), k\<lparr>koff := n + length (chunk_from (content k) n)\<rparr>)"
  using assms by (simp add: rd_inv_def sys_read_full BUFFER_SIZE_def chunk_from_def)

lemma fread_step_byte:
  assumes "rd_inv s k" "length out < len" "cursor s < int (length (content k))"
  shows "\<exists>s' k'. fread_loop elt len out s k = fread_loop elt len (out @ [content k ! nat (cursor s)]) s' k'
    \<and> rd_inv s' k' \<and> content k' = content k \<and> cursor s' = cursor s + 1"
proof -
  obtain s' k' where 1: "so_fgetc s k = Inr (uint (content k ! nat (cursor s)), s', k')" "rd_inv s' k'"
    "content k' = content k" "cursor s' = cursor s + 1"
    using fgetc_rd [OF assms(1)] assms(3) by auto
  have "uint (content k ! nat (cursor s)) \<noteq> SO_EOF"
  proof -
    have "0 \<le> uint (content k ! nat (cursor s))" by simp
    then show ?thesis unfolding SO_EOF_def by linarith
  qed
  then have "fread_loop elt len out s k = fread_loop elt len (out @ [content k ! nat (cursor s)]) s' k'"
    using assms(2) 1(1) by (subst fread_loop.simps) simp
  with 1 show ?thesis by blast
qed

lemma fread_bytes:
  assumes "rd_inv s k" "length out + n \<le> len" "cursor s + int n \<le> int (length (content k))"
  shows "\<exists>s' k'. fread_loop elt len out s k
      = fread_loop elt len (out @ take n (drop (nat (cursor s)) (content k))) s' k'
    \<and> rd_inv s' k' \<and> content k' = content k \<and> cursor s' = cursor s + int n"
  using assms
proof (induction n arbitrary: out s k)
  case (Suc n)
  have c: "0 \<le> cursor s" "cursor s < int (length (content k))" using Suc.prems by (auto simp: rd_inv_def)
  obtain s1 k1 where 1: "fread_loop elt len out s k = fread_loop elt len (out @ [content k ! nat (cursor s)]) s1 k1"
    "rd_inv s1 k1" "content k1 = content k" "cursor s1 = cursor s + 1"
    using fread_step_byte [OF Suc.prems(1) _ c(2), of out len elt] Suc.prems(2) by auto
  have "nat (cursor s) < length (content k)" using c by (simp add: nat_less_iff)
  then have d: "drop (nat (cursor s)) (content k) = content k ! nat (cursor s) # drop (nat (cursor s1)) (content k)"
    using c(1) 1(4) by (simp add: Cons_nth_drop_Suc nat_add_distrib)
  obtain s' k' where 2: "fread_loop elt len (out @ [content k ! nat (cursor s)]) s1 k1
      = fread_loop elt len ((out @ [content k ! nat (cursor s)]) @ take n (drop (nat (cursor s1)) (content k1))) s' k'"
    "rd_inv s' k'" "content k' = content k1" "cursor s' = cursor s1 + int n"
    using Suc.IH [OF 1(2), of "out @ [content k ! nat (cursor s)]"] Suc.prems(2,3) 1(3,4) by auto
  show ?case
    using 1 2 d by (intro exI [of _ s'] exI [of _ k']) simp
qed auto

text \<open>What happens at the end of the file: \<^verbatim>\<open>so_fread\<close> reads again, from the position \<^verbatim>\<open>cnt\<close>.\<close>

lemma fread_step_eof:
  assumes "rd_inv s k" "length out < len" "int (length (content k)) \<le> cursor s"
  obtains s1 k1 where "rd_inv s1 k1" "content k1 = content k" "cursor s1 = cursor s"
    "fread_loop elt len out s k =
       (let bs = chunk_from (content k) (length out); k2 = k1\<lparr>koff := length out + length bs\<rparr>; s2 = fill s1 bs in
        if bs = [] then Some (Inr ((length out div elt, out), s2\<lparr>eof := 1\<rparr>, k2))
        else let n = min (length bs) (len - length out - 1)
             in fread_loop elt len (out @ take n bs)
                  (s2\<lparr>eof := 0, cursor := cursor s2 + int n, buffer_pos := 0, chunk_number := -1\<rparr>) k2)"
proof -
  obtain s1 k1 where 1: "so_fgetc s k = Inr (SO_EOF, s1, k1)" "rd_inv s1 k1" "content k1 = content k" "cursor s1 = cursor s"
    using fgetc_rd [OF assms(1)] assms(3) by auto
  have "err_ind s1 \<noteq> -2" using 1(2) by (simp add: rd_inv_def)
  then have "fread_loop elt len out s k =
       (let bs = chunk_from (content k) (length out); k2 = k1\<lparr>koff := length out + length bs\<rparr>; s2 = fill s1 bs in
        if bs = [] then Some (Inr ((length out div elt, out), s2\<lparr>eof := 1\<rparr>, k2))
        else let n = min (length bs) (len - length out - 1)
             in fread_loop elt len (out @ take n bs)
                  (s2\<lparr>eof := 0, cursor := cursor s2 + int n, buffer_pos := 0, chunk_number := -1\<rparr>) k2)"
    using assms(2) 1(1,3) sys_read_at [OF 1(2)] by (subst fread_loop.simps) (simp add: Let_def)
  with 1 that show thesis by blast
qed

lemma fread_start:
  assumes "rd_inv s k" "cursor s = 0" "0 < elt"
  shows "\<exists>s' k'. so_fread elt nmemb s k
    = Inr ((min (total_bytes elt nmemb) (length (content k)) div elt, take (total_bytes elt nmemb) (content k)), s', k')
    \<and> so_ftell s' = int (min (total_bytes elt nmemb) (length (content k))) \<and> content k' = content k"
proof -
  let ?len = "total_bytes elt nmemb" and ?c = "content k"
  let ?n = "min ?len (length ?c)"
  obtain s1 k1 where 1: "fread_loop elt ?len [] s k = fread_loop elt ?len (take ?n ?c) s1 k1"
    "rd_inv s1 k1" "content k1 = ?c" "cursor s1 = int ?n"
    using fread_bytes [OF assms(1), of "[]" ?n ?len elt] assms(2) by auto
  show ?thesis
  proof (cases "?len \<le> length ?c")
    case True
    then have "fread_loop elt ?len [] s k = Some (Inr ((?n div elt, take ?len ?c), s1, k1))"
      unfolding 1(1) using assms(3) by (subst fread_loop.simps) (simp add: min_def)
    then show ?thesis using 1 by (simp add: so_fread_def so_ftell_def)
  next
    case False
    then have n: "?n = length ?c" "take ?n ?c = ?c" by auto
    obtain s2 k2 where 2: "rd_inv s2 k2" "content k2 = content k1" "cursor s2 = cursor s1"
      "fread_loop elt ?len ?c s1 k1 =
       (let bs = chunk_from (content k1) (length ?c); k3 = k2\<lparr>koff := length ?c + length bs\<rparr>; s3 = fill s2 bs in
        if bs = [] then Some (Inr ((length ?c div elt, ?c), s3\<lparr>eof := 1\<rparr>, k3))
        else let n = min (length bs) (?len - length ?c - 1)
             in fread_loop elt ?len (?c @ take n bs)
                  (s3\<lparr>eof := 0, cursor := cursor s3 + int n, buffer_pos := 0, chunk_number := -1\<rparr>) k3)"
      using fread_step_eof [OF 1(2), of ?c ?len elt] 1(3,4) n False by (metis linorder_not_le order_refl)
    have "chunk_from (content k1) (length ?c) = []" by (simp add: chunk_from_def 1(3))
    then have "fread_loop elt ?len [] s k = Some (Inr ((length ?c div elt, ?c), s2\<lparr>eof := 1\<rparr>, k2\<lparr>koff := length ?c\<rparr>))"
      using 1(1) 2(4) n(2) by (simp add: fill_def)
    then show ?thesis using 1(3,4) 2(2,3) n False by (simp add: so_fread_def so_ftell_def)
  qed
qed

lemma fread_start_all:
  assumes "rd_inv s k" "cursor s = 0" "0 < elt" "total_bytes elt nmemb = length bs" "content k = bs"
  shows "\<exists>s' k'. so_fread elt nmemb s k = Inr ((length bs div elt, bs), s', k')"
  using fread_start [OF assms(1-3), of nmemb] unfolding assms(4,5) by auto

text \<open>Read from the start of a file, \<^verbatim>\<open>so_fread\<close> delivers the first bytes of it, as many as
were asked for or as there are, and returns the number of whole elements.\<close>

theorem fread_from_start:
  assumes "rd_inv s k" "cursor s = 0" "0 < elt"
  shows "\<exists>s' k'. so_fread elt nmemb s k
    = Inr ((min (total_bytes elt nmemb) (length (content k)) div elt, take (total_bytes elt nmemb) (content k)), s', k')
    \<and> so_ftell s' = int (min (total_bytes elt nmemb) (length (content k))) \<and> content k' = content k"
  using assms by (rule fread_start)

theorem fread_from_start_witness:
  "\<exists>s' k'. so_fread 2 5 blank (disk [1, 2, 3] []) = Inr ((1, [1, 2, 3]), s', k')"
  using fread_from_start [OF rd_inv_blank [of "[1, 2, 3]"], of 2 5]
  by (auto simp: blank_def disk_def INT_MAX_def total_bytes_def)

text \<open>Asked for one more byte at the end of a file that is not empty, \<^verbatim>\<open>so_fread\<close> never
returns: it reads again from the position \<^verbatim>\<open>cnt\<close> (the start of the file), takes none of the
bytes it gets because it wants fewer than one more, and starts over.\<close>

theorem fread_at_end_never_returns:
  assumes "rd_inv s k" "int (length (content k)) \<le> cursor s" "content k \<noteq> []"
  shows "so_fread 1 1 s k = Inl Loops"
proof -
  have "fread_loop elt len out s' k' = Some r \<Longrightarrow>
      \<not> (len = 1 \<and> out = [] \<and> rd_inv s' k' \<and> int (length (content k')) \<le> cursor s' \<and> content k' \<noteq> [])" for elt len out s' k' r
  proof (rule fread_loop.raw_induct [where
      P = "\<lambda>elt len out s' k' r. \<not> (len = 1 \<and> out = [] \<and> rd_inv s' k' \<and> int (length (content k')) \<le> cursor s' \<and> content k' \<noteq> [])"])
    fix f :: "nat \<Rightarrow> nat \<Rightarrow> byte list \<Rightarrow> SO_FILE \<Rightarrow> kfile \<Rightarrow> (nat \<times> byte list) io option"
      and elt len out s' k' r
    assume IH: "\<And>elt len out s' k' r. f elt len out s' k' = Some r \<Longrightarrow>
        \<not> (len = 1 \<and> out = [] \<and> rd_inv s' k' \<and> int (length (content k')) \<le> cursor s' \<and> content k' \<noteq> [])"
      and eq: "(if length out < len then
        (case so_fgetc s' k' of
           Inl e \<Rightarrow> Some (Inl e)
         | Inr (var, s1, k1) \<Rightarrow>
             if var = SO_EOF then
               if err_ind s1 = -2 then Some (Inr ((0, out), s1, k1))
               else
                 (case sys_read (sys_lseek k1 (int (length out))) (nat BUFFER_SIZE) of
                    (None, k2) \<Rightarrow> Some (Inr ((0, out), s1\<lparr>err_ind := SO_EOF\<rparr>, k2))
                  | (Some bs, k2) \<Rightarrow>
                      let s2 = fill s1 bs
                      in if bs = [] then Some (Inr ((length out div elt, out), s2\<lparr>eof := 1\<rparr>, k2))
                         else let n = min (length bs) (len - length out - 1)
                              in f elt len (out @ take n bs)
                                   (s2\<lparr>eof := 0, cursor := cursor s2 + int n, buffer_pos := 0, chunk_number := -1\<rparr>) k2)
             else f elt len (out @ [word_of_int var]) s1 k1)
      else Some (if elt = 0 then Inl Undefined else Inr ((length out div elt, out), s', k'))) = Some r"
    show "\<not> (len = 1 \<and> out = [] \<and> rd_inv s' k' \<and> int (length (content k')) \<le> cursor s' \<and> content k' \<noteq> [])"
    proof
      assume h: "len = 1 \<and> out = [] \<and> rd_inv s' k' \<and> int (length (content k')) \<le> cursor s' \<and> content k' \<noteq> []"
      then have rd: "rd_inv s' k'" by blast
      obtain s1 k1 where 1: "so_fgetc s' k' = Inr (SO_EOF, s1, k1)" "rd_inv s1 k1" "content k1 = content k'" "cursor s1 = cursor s'"
        using fgetc_rd [OF rd] h by auto
      let ?bs = "chunk_from (content k1) 0"
      let ?s = "(fill s1 ?bs)\<lparr>eof := 0, cursor := cursor s1, buffer_pos := 0, chunk_number := -1\<rparr>"
      let ?k = "k1\<lparr>koff := length ?bs\<rparr>"
      have "?bs \<noteq> []" "length ?bs \<le> 4096" "err_ind s1 \<noteq> -2" using h 1(2,3) by (auto simp: chunk_from_def rd_inv_def)
      then have "f elt 1 [] ?s ?k = Some r"
        using eq h 1(1) sys_read_at [OF 1(2), of 0] by (simp add: Let_def fill_def)
      moreover have "rd_inv ?s ?k" using 1(2) \<open>length ?bs \<le> 4096\<close> by (simp add: rd_inv_def fill_def)
      ultimately show False using IH [of elt 1 "[]" ?s ?k r] h 1(3,4) by simp
    qed
  qed
  then have "fread_loop 1 1 [] s k = None"
    using assms by (cases "fread_loop 1 1 [] s k") auto
  then show ?thesis by (simp add: so_fread_def total_bytes_def)
qed

theorem fread_at_end_never_returns_witness:
  "so_fread 1 1 (blank\<lparr>cursor := 3\<rparr>) (disk [1, 2, 3] []) = Inl Loops"
  by (rule fread_at_end_never_returns) (simp_all add: rd_inv_def blank_def disk_def INT_MAX_def)

subsection \<open>Positioning\<close>

lemma rd_inv_seek:
  assumes "rd_inv s k" "0 \<le> off" "off \<le> fsize s" "off \<le> INT_MAX"
  shows "so_fseek off 0 s k = Inr (0, s\<lparr>cursor := off, chunk_number := -1\<rparr>, k\<lparr>koff := nat off\<rparr>)"
    and "rd_inv (s\<lparr>cursor := off, chunk_number := -1\<rparr>) (k\<lparr>koff := nat off\<rparr>)"
  using assms by (simp_all add: so_fseek_def rd_inv_def is_long_def LONG_MAX_def INT_MAX_def)

text \<open>\<^verbatim>\<open>so_fseek\<close> to a position inside the file moves the cursor there, \<^verbatim>\<open>so_ftell\<close> reports
it and \<^verbatim>\<open>so_fgetc\<close> returns the byte at it, also when the position is in another chunk.\<close>

theorem seek_then_getc:
  assumes "rd_inv s k" "fsize s = int (length (content k))" "0 \<le> off" "off < fsize s"
  shows "\<exists>s1 k1 s2 k2. so_fseek off 0 s k = Inr (0, s1, k1) \<and> so_ftell s1 = off
    \<and> so_fgetc s1 k1 = Inr (uint (content k ! nat off), s2, k2) \<and> so_ftell s2 = off + 1"
proof -
  have "off \<le> INT_MAX" using assms by (simp add: rd_inv_def)
  note sk = rd_inv_seek [OF assms(1,3) _ this]
  let ?s = "s\<lparr>cursor := off, chunk_number := -1\<rparr>" and ?k = "k\<lparr>koff := nat off\<rparr>"
  have 1: "so_fseek off 0 s k = Inr (0, ?s, ?k)" "rd_inv ?s ?k" using sk assms(4) by simp_all
  obtain s2 k2 where "so_fgetc ?s ?k = Inr (uint (content k ! nat off), s2, k2)" "cursor s2 = off + 1"
    using fgetc_rd [OF 1(2)] assms(2,4) by auto
  with 1(1) show ?thesis
    by (intro exI [of _ ?s] exI [of _ ?k] exI [of _ s2] exI [of _ k2]) (simp add: so_ftell_def)
qed

theorem seek_then_getc_witness:
  "\<exists>s1 k1 s2 k2. so_fseek 2 0 (blank\<lparr>fsize := 3\<rparr>) (disk [7, 8, 9] []) = Inr (0, s1, k1) \<and> so_fgetc s1 k1 = Inr (9, s2, k2)"
proof -
  have "rd_inv (blank\<lparr>fsize := 3\<rparr>) (disk [7, 8, 9] [])"
    by (simp add: rd_inv_def blank_def disk_def INT_MAX_def)
  from seek_then_getc [OF this, of 2] show ?thesis by (fastforce simp: blank_def disk_def)
qed

text \<open>\<^verbatim>\<open>so_fseek\<close> stores the new cursor before it checks it: after a seek to a position
before the start, which returns -1, the next \<^verbatim>\<open>so_fgetc\<close> on a file that is not empty reads
before the start of the buffer.\<close>

theorem failed_seek_breaks_getc:
  assumes "rd_inv s k" "content k \<noteq> []" "-4096 < off" "off < 0"
  shows "\<exists>s1. so_fseek off 0 s k = Inr (-1, s1, k) \<and> so_ftell s1 = off
    \<and> (chunk_number s \<noteq> 0 \<longrightarrow> so_fgetc s1 k = Inl Undefined)"
proof -
  let ?s = "s\<lparr>cursor := off\<rparr>"
  have 1: "so_fseek off 0 s k = Inr (-1, ?s, k)"
    using assms by (simp add: so_fseek_def rd_inv_def is_long_def LONG_MAX_def)
  have "so_fgetc ?s k = Inl Undefined" if "chunk_number s \<noteq> 0"
  proof -
    have d: "c_div off 4096 = 0" "c_mod off 4096 = off"
      using assms(3,4) by (simp_all add: c_div_def c_mod_def)
    have "sys_read (sys_lseek k 0) 4096 = (Some (chunk_from (content k) 0), k\<lparr>koff := length (chunk_from (content k) 0)\<rparr>)"
      using sys_read_at [OF assms(1), of 0] by (simp add: BUFFER_SIZE_def)
    moreover have "chunk_from (content k) 0 \<noteq> []" using assms(2) by (simp add: chunk_from_def)
    ultimately show ?thesis
      using assms that by (simp add: so_fgetc_def d to_int_def is_int_def INT_MAX_def BUFFER_SIZE_def rd_inv_def getc_at_def Let_def)
  qed
  with 1 show ?thesis by (intro exI [of _ ?s]) (simp add: so_ftell_def)
qed

theorem failed_seek_breaks_getc_witness:
  "\<exists>s1. so_fseek (-1) 0 blank (disk [7] []) = Inr (-1, s1, disk [7] []) \<and> so_fgetc s1 (disk [7] []) = Inl Undefined"
proof -
  have "rd_inv blank (disk [7] [])" by (rule rd_inv_blank) (simp add: INT_MAX_def)
  from failed_seek_breaks_getc [OF this, of "-1"] show ?thesis by (auto simp: blank_def disk_def)
qed

section \<open>Writing and reading back\<close>

text \<open>C21: Bytes written to a new stream of mode \<^verbatim>\<open>w+\<close> are read back unchanged after
\<^verbatim>\<open>so_fseek\<close> to the start, for any number of bytes up to 2 GiB, when no call of the system fails or
is cut short (the plan of the file is empty).\<close>

theorem write_seek_read:
  assumes "so_fopen mem n old [] ''w+'' = Some (s, k)" "length (buffer mem) = 4096"
    and "0 < elt" "total_bytes elt nmemb = length bs" "int (length bs) \<le> INT_MAX"
  shows "\<exists>s1 k1 s2 k2 s3 k3. so_fwrite bs elt nmemb s k = Inr (length bs div elt, s1, k1)
    \<and> so_fseek 0 0 s1 k1 = Inr (0, s2, k2) \<and> so_fread elt nmemb s2 k2 = Inr ((length bs div elt, bs), s3, k3)"
proof -
  note o = wr_inv_open [OF assms(1) _ assms(2)]
  have o': "wr_inv (readable k) True {} s k" "chunk_number s = -1" "fsize s = 0" "view k = (False, [], 0)" "readable k"
    "last_op s = CHR ''r''" "err_ind s = 0"
    using o assms(1) by (auto simp: view_def so_fopen_def sys_open_def mode_flags_def split: option.splits)
  obtain s1 k1 where w: "so_fwrite bs elt nmemb s k = Inr (length bs div elt, s1, k1)"
    "wr_inv (readable k) True {} s1 k1" "written s1 k1 = advance (written s k) bs"
    "fsize s1 = fsize s + int (length bs)" "chunk_number s1 = chunk_number s" "err_ind s1 = err_ind s"
    using so_fwrite_ok [OF o'(1) assms(3,4)] by blast
  obtain s2 k2 where f: "(if last_op s1 = CHR ''w'' then so_fflush s1 k1 else Inr (0, s1, k1)) = Inr (0, s2, k2)"
    "wr_inv (readable k) True {} s2 k2" "view k2 = written s1 k1" "last_op s2 = CHR ''r''" "fsize s2 = fsize s1"
    "chunk_number s2 = chunk_number s1" "err_ind s2 = err_ind s1"
    using flush_if_writing [OF w(2)] by blast
  have c: "content k2 = bs"
    using f(3) w(3) o'(4,6) by (simp add: written_def view_def advance_def splice_def split: if_splits)
  let ?s = "s2\<lparr>cursor := 0, chunk_number := -1\<rparr>" and ?k = "k2\<lparr>koff := 0\<rparr>"
  have k2: "seekable k2" "readable k2" "plan k2 = []" "length (buffer s2) = 4096"
    using f(2) o'(5) by (auto simp: wr_inv_def steady_def)
  have "so_fseek 0 0 s1 k1 = Inr (0, ?s, ?k)"
    unfolding so_fseek_def f(1) using f(5) w(4) o'(3) k2(1) by (simp add: is_long_def LONG_MAX_def)
  moreover have "rd_inv ?s ?k"
    using k2 c assms(5) f(4,7) w(6) o'(7) by (simp add: rd_inv_def INT_MAX_def)
  then obtain s3 k3 where "so_fread elt nmemb ?s ?k = Inr ((length bs div elt, bs), s3, k3)"
    using fread_start_all [of ?s ?k elt nmemb bs] assms(3,4) c by auto
  ultimately show ?thesis using w(1)
    by (intro exI [of _ s1] exI [of _ k1] exI [of _ ?s] exI [of _ ?k] exI [of _ s3] exI [of _ k3]) simp
qed

theorem write_seek_read_witness:
  "\<exists>s k s1 k1 s2 k2 s3 k3. so_fopen blank 3 None [] ''w+'' = Some (s, k) \<and> so_fwrite [7, 8, 9] 3 1 s k = Inr (1, s1, k1)
    \<and> so_fseek 0 0 s1 k1 = Inr (0, s2, k2) \<and> so_fread 3 1 s2 k2 = Inr ((1, [7, 8, 9]), s3, k3)"
proof -
  obtain s k where o: "so_fopen blank 3 None [] ''w+'' = Some (s, k)"
    by (simp add: so_fopen_def mode_flags_def sys_open_def)
  have h: "length (buffer blank) = 4096" "(0 :: nat) < 3" "total_bytes 3 1 = length [7 :: byte, 8, 9]"
    "int (length [7 :: byte, 8, 9]) \<le> INT_MAX" "length [7 :: byte, 8, 9] div 3 = 1"
    by (simp_all add: blank_def total_bytes_def INT_MAX_def)
  show ?thesis using o write_seek_read [OF o h(1-4)] unfolding h(5) by blast
qed

section \<open>Calls in an order the library does not expect\<close>

text \<open>\<^verbatim>\<open>so_fflush\<close> does not ask whether the buffer was read or written: on a stream of
mode \<^verbatim>\<open>r+\<close> that has been read from, it writes the chunk it has read at the file offset, here
doubling the file.\<close>

theorem flush_after_read_appends_chunk:
  "(case so_fopen blank 3 (Some [1, 2]) [] ''r+'' of None \<Rightarrow> None | Some (s, k) \<Rightarrow>
      (case obind (so_fgetc s k) (\<lambda>(c, s1, k1). so_fflush s1 k1) of Inl e \<Rightarrow> None | Inr (rc, s2, k2) \<Rightarrow> Some (content k2)))
    = Some [1, 2, 1, 2]"
  by code_simp

text \<open>A \<^verbatim>\<open>read\<close> that returns fewer bytes than the chunk holds is taken for the end of the
file: after it \<^verbatim>\<open>so_fgetc\<close> reports the end of a file of two bytes after the first.\<close>

theorem short_read_is_end_of_file:
  "(case so_fopen blank 3 (Some [1, 2]) [AtMost 1] ''r'' of None \<Rightarrow> None | Some (s, k) \<Rightarrow>
      (case obind (so_fgetc s k) (\<lambda>(c, s1, k1). obind (so_fgetc s1 k1) (\<lambda>(d, s2, k2). Inr (c, d, so_feof s2))) of
         Inl e \<Rightarrow> None | Inr r \<Rightarrow> Some r))
    = Some (1, SO_EOF, 1)"
  by code_simp

end
