(* ===== verification/LogWire.thy ===== *)
theory LogWire
  imports Channels
begin

text \<open>
  \<^verbatim>\<open>hackathon/skel/utils.c\<close>: the table of operations of the log cache and the framing of its
  messages (a length in network order, then the bytes) over a socket that may move fewer bytes
  than asked.
\<close>

section \<open>Constants\<close>

definition LINE_SIZE :: nat where "LINE_SIZE = 256"
definition COMMAND_SIZE :: nat where "COMMAND_SIZE = 1024"
definition CLIENT_MAX_NAME :: nat where "CLIENT_MAX_NAME = 16"
definition STATUS_MAX_SIZE :: nat where "STATUS_MAX_SIZE = 512"
definition TIME_SIZE :: nat where "TIME_SIZE = 20"
definition LOGLINE_SIZE :: nat where "LOGLINE_SIZE = LINE_SIZE - TIME_SIZE"

section \<open>Operations\<close>

datatype op_code = CONNECT | SUBSCRIBE | STAT | ADD | FLUSH | DISCONNECT | UNSUBSCRIBE | GETLOGS | UNKNOWN

text \<open>The value of the enumerator.\<close>

fun op_num :: "op_code \<Rightarrow> nat" where
  "op_num CONNECT = 0"
| "op_num SUBSCRIBE = 1"
| "op_num STAT = 2"
| "op_num ADD = 3"
| "op_num FLUSH = 4"
| "op_num DISCONNECT = 5"
| "op_num UNSUBSCRIBE = 6"
| "op_num GETLOGS = 7"
| "op_num UNKNOWN = 8"

lemma op_num_inject [simp]: "op_num a = op_num b \<longleftrightarrow> a = b"
  by (cases a; cases b) simp_all

text \<open>The codes are ordered as in the enumeration.\<close>

instantiation op_code :: linorder
begin

definition less_eq_op_code :: "op_code \<Rightarrow> op_code \<Rightarrow> bool" where
  "less_eq_op_code a b \<longleftrightarrow> op_num a \<le> op_num b"

definition less_op_code :: "op_code \<Rightarrow> op_code \<Rightarrow> bool" where
  "less_op_code a b \<longleftrightarrow> op_num a < op_num b"

instance
  by standard (auto simp: less_eq_op_code_def less_op_code_def dest: antisym)

end

record op =
  code :: op_code
  op_str :: "string option"
  op_reply :: string
  requires_auth :: bool

definition ops :: "op list" where
  "ops =
    [\<lparr>code = CONNECT, op_str = Some ''connect'', op_reply = ''client connected'', requires_auth = False\<rparr>,
     \<lparr>code = SUBSCRIBE, op_str = Some ''subscribe'', op_reply = ''client subscribed'', requires_auth = True\<rparr>,
     \<lparr>code = STAT, op_str = Some ''stat'', op_reply = ''received stats'', requires_auth = True\<rparr>,
     \<lparr>code = ADD, op_str = Some ''add'', op_reply = ''log added'', requires_auth = True\<rparr>,
     \<lparr>code = FLUSH, op_str = Some ''flush'', op_reply = ''logs flushed'', requires_auth = True\<rparr>,
     \<lparr>code = DISCONNECT, op_str = Some ''disconnect'', op_reply = ''client disconnected'', requires_auth = True\<rparr>,
     \<lparr>code = UNSUBSCRIBE, op_str = Some ''unsubcribe'', op_reply = ''client unsubscribed'', requires_auth = True\<rparr>,
     \<lparr>code = GETLOGS, op_str = Some ''getlogs'', op_reply = ''logs received'', requires_auth = True\<rparr>,
     \<lparr>code = UNKNOWN, op_str = None, op_reply = ''unknown command'', requires_auth = False\<rparr>]"

text \<open>The loops of the two searches; \<open>ops ! op_num UNKNOWN\<close> is \<^verbatim>\<open>&ops[UNKNOWN]\<close>.\<close>

definition get_op :: "op_code \<Rightarrow> op" where
  "get_op c = (case filter (\<lambda>p. code p = c) ops of p # _ \<Rightarrow> p | [] \<Rightarrow> ops ! op_num UNKNOWN)"

definition get_op_by_str :: "string \<Rightarrow> op" where
  "get_op_by_str s = (case filter (\<lambda>p. op_str p = Some s) ops of p # _ \<Rightarrow> p | [] \<Rightarrow> ops ! op_num UNKNOWN)"

section \<open>Sockets\<close>

text \<open>
  A connected socket: the bytes the peer has sent and that are not received yet (afterwards
  \<^verbatim>\<open>recv\<close> returns 0), the bytes sent so far, and the limits of the coming calls.  A limited
  \<^verbatim>\<open>recv\<close> moves at least one byte when there is one.
\<close>

record sock =
  inbox :: "byte list"
  outbox :: "byte list"
  limits :: "limit list"

definition take_limit :: "sock \<Rightarrow> limit option \<times> sock" where
  "take_limit s = (case limits s of [] \<Rightarrow> (None, s) | l # ls \<Rightarrow> (Some l, s\<lparr>limits := ls\<rparr>))"

definition sock_send :: "sock \<Rightarrow> byte list \<Rightarrow> int \<times> sock" where
  "sock_send s bs =
     (case take_limit s of
        (Some Fails, s') \<Rightarrow> (-1, s')
      | (l, s') \<Rightarrow>
          let n = (case l of Some (AtMost m) \<Rightarrow> min m (length bs) | _ \<Rightarrow> length bs)
          in (int n, s'\<lparr>outbox := outbox s' @ take n bs\<rparr>))"

definition sock_recv :: "sock \<Rightarrow> nat \<Rightarrow> byte list option \<times> sock" where
  "sock_recv s n =
     (case take_limit s of
        (Some Fails, s') \<Rightarrow> (None, s')
      | (l, s') \<Rightarrow>
          let m = (case l of Some (AtMost m) \<Rightarrow> min (max 1 m) n | _ \<Rightarrow> n)
          in (Some (take m (inbox s')), s'\<lparr>inbox := drop m (inbox s')\<rparr>))"

section \<open>Framing\<close>

definition htonl :: "nat \<Rightarrow> byte list" where
  "htonl n = [of_nat (n div 16777216), of_nat (n div 65536), of_nat (n div 256), of_nat n]"

definition ntohl :: "byte list \<Rightarrow> nat" where
  "ntohl bs = unat (bs ! 0) * 16777216 + unat (bs ! 1) * 65536 + unat (bs ! 2) * 256 + unat (bs ! 3)"

definition xsend :: "sock \<Rightarrow> byte list \<Rightarrow> (int \<times> sock) outcome" where
  "xsend s bs =
     (case put_all sock_send s bs of
        None \<Rightarrow> Inl Loops
      | Some (False, s') \<Rightarrow> Inr (-1, s')
      | Some (True, s') \<Rightarrow> Inr (int (length bs), s'))"

definition send_data :: "sock \<Rightarrow> byte list \<Rightarrow> (int \<times> sock) outcome" where
  "send_data s bs =
     obind (xsend s (htonl (length bs))) (\<lambda>(sent_now, s').
       if sent_now < 0 then Inr (sent_now, s') else xsend s' bs)"

definition xrecv :: "sock \<Rightarrow> nat \<Rightarrow> int \<times> byte list \<times> sock" where
  "xrecv s n =
     (case get_all sock_recv s n [] of
        (None, s') \<Rightarrow> (-1, [], s')
      | (Some bs, s') \<Rightarrow> (int (length bs), bs, s'))"

text \<open>
  \<^verbatim>\<open>recv_data\<close> into a buffer of \<open>len\<close> bytes: the result and the bytes stored.  The variable
  \<^verbatim>\<open>buf_l\<close> is not initialised; \<open>junk\<close> is what it holds.  (On an error in the middle the bytes
  received so far are in the buffer too; no caller looks at them.)
\<close>

definition recv_data :: "byte list \<Rightarrow> sock \<Rightarrow> nat \<Rightarrow> int \<times> byte list \<times> sock" where
  "recv_data junk s len =
     (case xrecv s 4 of (recv_now, hd4, s') \<Rightarrow>
        if recv_now < 0 then (recv_now, [], s')
        else
          let pack_size = ntohl (hd4 @ drop (length hd4) junk)
          in if len < pack_size then (-1, [], s') else xrecv s' pack_size)"

section \<open>Facts\<close>

lemma ops_sorted: "sorted_wrt (<) (map code ops)"
  by (simp add: ops_def less_op_code_def)

lemma get_op_simps [simp]:
  "op_str (get_op CONNECT) = Some ''connect''" "op_str (get_op SUBSCRIBE) = Some ''subscribe''"
  "op_str (get_op STAT) = Some ''stat''" "op_str (get_op ADD) = Some ''add''" "op_str (get_op FLUSH) = Some ''flush''"
  "op_str (get_op DISCONNECT) = Some ''disconnect''" "op_str (get_op UNSUBSCRIBE) = Some ''unsubcribe''"
  "op_str (get_op GETLOGS) = Some ''getlogs''" "op_str (get_op UNKNOWN) = None"
  by (simp_all add: get_op_def ops_def)

lemma unat_byte: "unat (of_nat n :: byte) = n mod 256"
  by (simp add: unat_of_nat)

lemma ntohl_htonl: "ntohl (htonl n @ r) = n mod 4294967296"
proof -
  have d: "n div 65536 = n div 256 div 256" "n div 16777216 = n div 256 div 256 div 256"
    by (simp_all add: div_mult2_eq [symmetric])
  have "n mod (256 * 16777216) = 256 * (n div 256 mod 16777216) + n mod 256"
    "n div 256 mod (256 * 65536) = 256 * (n div 256 div 256 mod 65536) + n div 256 mod 256"
    "n div 256 div 256 mod (256 * 256) = 256 * (n div 256 div 256 div 256 mod 256) + n div 256 div 256 mod 256"
    by (rule mod_mult2_eq)+
  then have "n mod 4294967296 = (n div 16777216 mod 256) * 16777216 + (n div 65536 mod 256) * 65536 + (n div 256 mod 256) * 256 + n mod 256"
    unfolding d by simp
  then show ?thesis by (simp add: ntohl_def htonl_def unat_byte)
qed

lemma length_htonl [simp]: "length (htonl n) = 4"
  by (simp add: htonl_def)

lemma take_limit_props:
  "take_limit s = (l, s') \<Longrightarrow> inbox s' = inbox s \<and> outbox s' = outbox s \<and> set (limits s') \<subseteq> set (limits s)
    \<and> (l = None \<longrightarrow> s' = s) \<and> (l \<noteq> None \<longrightarrow> length (limits s') < length (limits s)) \<and> (\<forall>x. l = Some x \<longrightarrow> x \<in> set (limits s))"
  by (auto simp: take_limit_def split: list.splits)

lemma sock_send_props:
  assumes "sock_send s bs = (n, s')"
  shows "inbox s' = inbox s \<and> set (limits s') \<subseteq> set (limits s) \<and> length (limits s') \<le> length (limits s)
    \<and> (n < 0 \<longrightarrow> outbox s' = outbox s \<and> Fails \<in> set (limits s))
    \<and> (0 \<le> n \<longrightarrow> nat n \<le> length bs \<and> outbox s' = outbox s @ take (nat n) bs)
    \<and> (n = 0 \<longrightarrow> bs \<noteq> [] \<longrightarrow> length (limits s') < length (limits s))"
proof -
  obtain l s1 where l: "take_limit s = (l, s1)" by (cases "take_limit s")
  note p = take_limit_props [OF l]
  have len: "length (limits s1) \<le> length (limits s)" using p by (cases l) auto
  show ?thesis
  proof (cases "l = Some Fails")
    case True
    then have "n = -1" "s' = s1" using assms l by (auto simp: sock_send_def)
    with p len True show ?thesis by simp
  next
    case False
    define m where "m = (case l of Some (AtMost m) \<Rightarrow> min m (length bs) | _ \<Rightarrow> length bs)"
    have e: "n = int m" "s' = s1\<lparr>outbox := outbox s1 @ take m bs\<rparr>"
      using False assms l by (auto simp: sock_send_def m_def Let_def split: option.splits limit.splits)
    have "m \<le> length bs" "m = 0 \<longrightarrow> bs \<noteq> [] \<longrightarrow> l \<noteq> None"
      by (cases l; auto simp: m_def split: option.splits limit.splits)+
    then show ?thesis using e p len by auto
  qed
qed

text \<open>Sending from a socket without failures.\<close>

definition calm :: "byte list \<Rightarrow> sock \<Rightarrow> bool" where
  "calm ib s \<longleftrightarrow> Fails \<notin> set (limits s) \<and> inbox s = ib"

interpretation snd_all: sink "(@)" "\<lambda>s. inbox s = ib" sock_send outbox "\<lambda>s. length (limits s)"
  by unfold_locales (use sock_send_props in fastforce)+

interpretation snd_ok: reliable_sink "(@)" "calm ib" sock_send outbox "\<lambda>s. length (limits s)"
proof
  fix s bs n s'
  assume s: "calm ib s" "bs \<noteq> []" "sock_send s bs = (n, s')"
  note p = sock_send_props [OF s(3)]
  show "0 \<le> n \<Longrightarrow> calm ib s' \<and> nat n \<le> length bs \<and> outbox s' = outbox s @ take (nat n) bs
      \<and> length (limits s') \<le> length (limits s) \<and> (n = 0 \<longrightarrow> length (limits s') < length (limits s))"
    "n < 0 \<Longrightarrow> calm ib s' \<and> outbox s' = outbox s"
    using p s by (auto simp: calm_def)
next
  fix s and bs :: "byte list"
  assume s: "calm ib s" "bs \<noteq> []"
  show "0 \<le> fst (sock_send s bs)"
    using sock_send_props [of s bs "fst (sock_send s bs)" "snd (sock_send s bs)"] s by (force simp: calm_def)
qed

lemma xsend_ok:
  assumes "calm ib s"
  shows "\<exists>s'. xsend s bs = Inr (int (length bs), s') \<and> calm ib s' \<and> outbox s' = outbox s @ bs"
  using snd_ok.put_all_succeeds [OF assms, of bs] by (auto simp: xsend_def)

lemma xsend_any: "\<exists>n s'. xsend s bs = Inr (n, s') \<and> inbox s' = inbox s"
proof -
  obtain b s' where "put_all sock_send s bs = Some (b, s')" "inbox s' = inbox s"
    using snd_all.put_all_moves [OF refl, of s bs] by blast
  then show ?thesis by (cases b) (auto simp: xsend_def)
qed

lemma send_data_ok:
  assumes "calm ib s"
  shows "\<exists>s'. send_data s bs = Inr (int (length bs), s') \<and> calm ib s' \<and> outbox s' = outbox s @ htonl (length bs) @ bs"
proof -
  obtain s1 where 1: "xsend s (htonl (length bs)) = Inr (4, s1)" "calm ib s1" "outbox s1 = outbox s @ htonl (length bs)"
    using xsend_ok [OF assms, of "htonl (length bs)"] by auto
  then show ?thesis using xsend_ok [OF 1(2), of bs] by (auto simp: send_data_def)
qed

lemma send_data_any: "\<exists>n s'. send_data s bs = Inr (n, s') \<and> inbox s' = inbox s"
proof -
  obtain n s1 where 1: "xsend s (htonl (length bs)) = Inr (n, s1)" "inbox s1 = inbox s"
    using xsend_any by blast
  then show ?thesis using xsend_any [of s1 bs] by (auto simp: send_data_def)
qed

text \<open>Receiving from a socket without failures.\<close>

definition quiet :: "byte list \<Rightarrow> sock \<Rightarrow> bool" where
  "quiet ob s \<longleftrightarrow> Fails \<notin> set (limits s) \<and> outbox s = ob"

interpretation rcv: reliable_source "quiet ob" sock_recv inbox
proof
  fix s and n :: nat
  assume s: "quiet ob s" "0 < n"
  obtain l s1 where l: "take_limit s = (l, s1)" by (cases "take_limit s")
  note p = take_limit_props [OF l]
  have nf: "l \<noteq> Some Fails" using p s(1) by (auto simp: quiet_def)
  define m where "m = (case l of Some (AtMost m) \<Rightarrow> min (max 1 m) n | _ \<Rightarrow> n)"
  have m: "0 < m" "m \<le> n" using s(2) by (auto simp: m_def split: option.splits limit.splits)
  have "sock_recv s n = (Some (take m (inbox s1)), s1\<lparr>inbox := drop m (inbox s1)\<rparr>)"
    using l nf by (auto simp: sock_recv_def m_def Let_def split: option.splits limit.splits)
  moreover have "quiet ob (s1\<lparr>inbox := drop m (inbox s1)\<rparr>)" using p s(1) by (auto simp: quiet_def)
  ultimately show "\<exists>bs s'. sock_recv s n = (Some bs, s') \<and> quiet ob s' \<and> inbox s = bs @ inbox s' \<and> length bs \<le> n \<and> (bs = [] \<longrightarrow> inbox s = [])"
    using p m by (intro exI [of _ "take m (inbox s1)"] exI [of _ "s1\<lparr>inbox := drop m (inbox s1)\<rparr>"]) auto
qed

lemma xrecv_ok:
  assumes "quiet ob s"
  shows "\<exists>s'. xrecv s n = (int (length (take n (inbox s))), take n (inbox s), s') \<and> quiet ob s' \<and> inbox s' = drop n (inbox s)"
  using rcv.get_all_exact [OF assms, of n "[]"] by (auto simp: xrecv_def)

lemma recv_data_frame:
  assumes "quiet ob s" "inbox s = htonl (length bs) @ bs @ r" "length bs \<le> len" "length bs < 4294967296"
  shows "\<exists>s'. recv_data junk s len = (int (length bs), bs, s') \<and> quiet ob s' \<and> inbox s' = r"
proof -
  obtain s1 where 1: "xrecv s 4 = (4, htonl (length bs), s1)" "quiet ob s1" "inbox s1 = bs @ r"
    using xrecv_ok [OF assms(1), of 4] assms(2) by auto
  obtain s2 where 2: "xrecv s1 (length bs) = (int (length bs), bs, s2)" "quiet ob s2" "inbox s2 = r"
    using xrecv_ok [OF 1(2), of "length bs"] 1(3) by auto
  have "ntohl (htonl (length bs) @ drop 4 junk) = length bs" using ntohl_htonl assms(4) by simp
  then show ?thesis using 1(1) 2 assms(3) by (simp add: recv_data_def)
qed

lemma xrecv_stored: "xrecv s n = (r, bs, s') \<Longrightarrow> 0 \<le> r \<Longrightarrow> r = int (length bs)"
  by (auto simp: xrecv_def split: prod.splits option.splits)

section \<open>Properties\<close>

text \<open>C10: A message sent with \<^verbatim>\<open>send_data\<close> and received with \<^verbatim>\<open>recv_data\<close> from what was sent
comes out unchanged, and the bytes after it stay for the next call, however the two sockets cut
the transfer into pieces.\<close>

theorem message_round_trip:
  assumes "calm ib s" "quiet ob t" "length bs \<le> len" "length bs < 4294967296" "outbox s = []"
  shows "\<exists>s' t'. send_data s bs = Inr (int (length bs), s')
    \<and> recv_data junk (t\<lparr>inbox := outbox s' @ r\<rparr>) len = (int (length bs), bs, t') \<and> inbox t' = r"
proof -
  obtain s' where s': "send_data s bs = Inr (int (length bs), s')" "outbox s' = htonl (length bs) @ bs"
    using send_data_ok [OF assms(1), of bs] assms(5) by auto
  have "quiet ob (t\<lparr>inbox := outbox s' @ r\<rparr>)" using assms(2) by (simp add: quiet_def)
  from recv_data_frame [OF this _ assms(3,4)] s' show ?thesis by auto
qed

theorem message_round_trip_witness:
  "\<exists>s' t'. send_data \<lparr>inbox = [], outbox = [], limits = [AtMost 1, AtMost 0, AtMost 3]\<rparr> [7, 8] = Inr (2, s')
    \<and> recv_data [9, 9, 9, 9] \<lparr>inbox = outbox s' @ [5], outbox = [], limits = [AtMost 1, AtMost 1]\<rparr> 16 = (2, [7, 8], t') \<and> inbox t' = [5]"
  using message_round_trip [of "[]" "\<lparr>inbox = [], outbox = [], limits = [AtMost 1, AtMost 0, AtMost 3]\<rparr>" "[]"
      "\<lparr>inbox = [], outbox = [], limits = [AtMost 1, AtMost 1]\<rparr>" "[7, 8]" 16 "[9, 9, 9, 9]" "[5]"]
  by (simp add: calm_def quiet_def)

text \<open>The table of operations is complete and consistent: \<^verbatim>\<open>get_op\<close> returns the entry of
its code, the entries stand in the order of the enumeration (so \<^verbatim>\<open>&ops[code]\<close> is the same entry),
and \<^verbatim>\<open>get_op_by_str\<close> maps the name of an operation back to it and every other text to the
unknown command.\<close>

theorem op_tables_agree:
  "code (get_op c) = c \<and> get_op c = ops ! op_num c
   \<and> (case op_str (get_op c) of Some s \<Rightarrow> get_op_by_str s = get_op c | None \<Rightarrow> c = UNKNOWN)
   \<and> (Some s \<notin> op_str ` set ops \<longrightarrow> get_op_by_str s = get_op UNKNOWN)"
proof -
  have "code (get_op c) = c" "get_op c = ops ! op_num c"
    by (cases c; simp add: get_op_def ops_def)+
  moreover have "case op_str (get_op c) of Some s \<Rightarrow> get_op_by_str s = get_op c | None \<Rightarrow> c = UNKNOWN"
    by (cases c) (simp_all add: get_op_def get_op_by_str_def ops_def)
  moreover have "get_op_by_str s = get_op UNKNOWN" if "Some s \<notin> op_str ` set ops"
  proof -
    have "filter (\<lambda>p. op_str p = Some s) ops = []" by (rule filter_False) (metis that image_eqI)
    then show ?thesis by (simp add: get_op_by_str_def get_op_def ops_def)
  qed
  ultimately show ?thesis by blast
qed

theorem op_tables_agree_witness: "get_op_by_str ''frobnicate'' = get_op UNKNOWN"
  using op_tables_agree [of CONNECT "''frobnicate''"] by (simp add: ops_def)

text \<open>When the peer has closed the connection \<^verbatim>\<open>recv_data\<close> uses the uninitialised
variable \<^verbatim>\<open>buf_l\<close> as the size, but whatever it holds the result is 0 or -1, so the caller does
not take it for a message.\<close>

theorem recv_at_end_of_stream:
  assumes "quiet ob s" "inbox s = []"
  shows "fst (recv_data junk s len) = (if len < ntohl junk then -1 else 0)"
proof -
  obtain s1 where 1: "xrecv s 4 = (0, [], s1)" "quiet ob s1" "inbox s1 = []"
    using xrecv_ok [OF assms(1), of 4] assms(2) by auto
  then show ?thesis using xrecv_ok [OF 1(2), of "ntohl junk"] by (auto simp: recv_data_def)
qed

theorem recv_at_end_of_stream_witness:
  "fst (recv_data [0, 0, 0, 7] \<lparr>inbox = [], outbox = [], limits = []\<rparr> 16) = 0"
  using recv_at_end_of_stream [of "[]" "\<lparr>inbox = [], outbox = [], limits = []\<rparr>" "[0, 0, 0, 7]" 16]
  by (simp add: quiet_def ntohl_def)

end
