(* ===== verification/LogServer.thy ===== *)
theory LogServer
  imports LogWire
begin

text \<open>
  \<^verbatim>\<open>hackathon/skel/server/server.c\<close> and the Linux part \<^verbatim>\<open>server/lin/server_os.c\<close>: the commands
  of a connected client.  The skeleton's empty handlers (they return 0) are as they are in the
  source.
\<close>

section \<open>State\<close>

text \<open>
  The array \<^verbatim>\<open>caches\<close> has room for \<^verbatim>\<open>DEFAULT_CLIENTS_NO\<close> entries; an entry is represented by
  its service name, and \<^verbatim>\<open>cache_count\<close> is the length of the list.  A client's \<^verbatim>\<open>cache\<close> pointer is
  the index of the entry, or null.
\<close>

definition DEFAULT_CLIENTS_NO :: nat where "DEFAULT_CLIENTS_NO = 20"

record client_st =
  client_sock :: sock
  cache :: "nat option"

type_synonym caches = "string list"

definition logmemcache_create_client :: "sock \<Rightarrow> client_st" where
  "logmemcache_create_client s = \<lparr>client_sock = s, cache = None\<rparr>"

section \<open>Text in buffers\<close>

definition byte_char :: "byte \<Rightarrow> char" where
  "byte_char b = char_of (unat b)"

definition char_byte :: "char \<Rightarrow> byte" where
  "char_byte c = of_nat (of_char c)"

text \<open>The string in a zeroed buffer of \<^const>\<open>COMMAND_SIZE\<close> bytes into which \<open>bs\<close> has been
received; a buffer without a NUL is read past its end.\<close>

definition buffer_string :: "byte list \<Rightarrow> string outcome" where
  "buffer_string bs =
     (if length bs < COMMAND_SIZE \<or> 0 \<in> set bs then Inr (map byte_char (takeWhile (\<lambda>b. b \<noteq> 0) bs))
      else Inl Undefined)"

section \<open>Handlers\<close>

text \<open>The operating system's part of setting up a cache returns 0.\<close>

definition logmemcache_init_client_cache :: "string \<Rightarrow> int" where
  "logmemcache_init_client_cache name = 0"

fun find_name :: "caches \<Rightarrow> string \<Rightarrow> nat option" where
  "find_name [] name = None"
| "find_name (c # cs) name = (if c = name then Some 0 else map_option Suc (find_name cs name))"

text \<open>\<^verbatim>\<open>logmemcache_add_client\<close>; a null name is passed to \<^verbatim>\<open>strcmp\<close> or, when there is no entry
yet, to \<^verbatim>\<open>strdup\<close>.\<close>

definition logmemcache_add_client :: "caches \<Rightarrow> client_st \<Rightarrow> string option \<Rightarrow> (int \<times> caches \<times> client_st) outcome" where
  "logmemcache_add_client cs cl name =
     (case name of
        None \<Rightarrow> Inl Undefined
      | Some n \<Rightarrow>
          (case find_name cs n of
             Some i \<Rightarrow> Inr (0, cs, cl\<lparr>cache := Some i\<rparr>)
           | None \<Rightarrow>
               if length cs = DEFAULT_CLIENTS_NO then Inr (-1, cs, cl)
               else Inr (logmemcache_init_client_cache n, cs @ [n], cl\<lparr>cache := Some (length cs)\<rparr>)))"

definition logmemcache_disconnect_client :: "client_st \<Rightarrow> int" where
  "logmemcache_disconnect_client cl = 0"

definition logmemcache_unsubscribe_client :: "client_st \<Rightarrow> int" where
  "logmemcache_unsubscribe_client cl = 0"

definition logmemcache_add_log :: "client_st \<Rightarrow> int" where
  "logmemcache_add_log cl = 0"

definition logmemcache_flush :: "client_st \<Rightarrow> int" where
  "logmemcache_flush cl = 0"

definition logmemcache_send_stats :: "client_st \<Rightarrow> int" where
  "logmemcache_send_stats cl = 0"

definition logmemcache_send_loglines :: "client_st \<Rightarrow> int" where
  "logmemcache_send_loglines cl = 0"

section \<open>Commands\<close>

text \<open>\<^verbatim>\<open>parse_command\<close>: the operation, the data after the first blank, and \<^verbatim>\<open>datalen\<close> less the
command and the blank.\<close>

definition parse_command :: "string \<Rightarrow> int \<Rightarrow> op \<times> string option \<times> int" where
  "parse_command str datalen =
     (let w = takeWhile (\<lambda>c. c \<noteq> CHR '' '') str; r = dropWhile (\<lambda>c. c \<noteq> CHR '' '') str
      in case r of
           [] \<Rightarrow> (get_op_by_str w, None, datalen)
         | _ # d \<Rightarrow> (get_op_by_str w, Some d, datalen - int (length w + 1)))"

definition isprint :: "char \<Rightarrow> bool" where
  "isprint c \<longleftrightarrow> 32 \<le> (of_char c :: nat) \<and> (of_char c :: nat) \<le> 126"

text \<open>\<^verbatim>\<open>validate_arg\<close> on a string and a length: past the end of the string it meets the
terminator, which is not printable.\<close>

definition validate_arg :: "string \<Rightarrow> nat \<Rightarrow> int" where
  "validate_arg s n = (if list_all isprint (take n s) \<and> n \<le> length s then 0 else -1)"

text \<open>The \<^verbatim>\<open>switch\<close> of \<^verbatim>\<open>get_command\<close>.\<close>

definition dispatch :: "op_code \<Rightarrow> caches \<Rightarrow> client_st \<Rightarrow> string option \<Rightarrow> (int \<times> caches \<times> client_st) outcome" where
  "dispatch c cs cl data =
     (case c of
        CONNECT \<Rightarrow> logmemcache_add_client cs cl data
      | SUBSCRIBE \<Rightarrow> logmemcache_add_client cs cl data
      | STAT \<Rightarrow> Inr (logmemcache_send_stats cl, cs, cl)
      | ADD \<Rightarrow> Inr (logmemcache_add_log cl, cs, cl)
      | FLUSH \<Rightarrow> Inr (logmemcache_flush cl, cs, cl)
      | DISCONNECT \<Rightarrow> Inr (logmemcache_disconnect_client cl, cs, cl)
      | UNSUBSCRIBE \<Rightarrow> Inr (logmemcache_unsubscribe_client cl, cs, cl)
      | GETLOGS \<Rightarrow> Inr (logmemcache_send_loglines cl, cs, cl)
      | UNKNOWN \<Rightarrow> Inr (-1, cs, cl))"

text \<open>The decision on a parsed command: the result, the reply text and the new state.  A cache
entry always has a name, so only a null \<^verbatim>\<open>cache\<close> is without one; it is dereferenced.\<close>

definition run_command ::
  "op \<Rightarrow> string option \<Rightarrow> int \<Rightarrow> caches \<Rightarrow> client_st \<Rightarrow> (int \<times> string \<times> caches \<times> client_st) outcome" where
  "run_command p data recv_size cs cl =
     (if int LINE_SIZE < recv_size then Inr (-1, ''message too long'', cs, cl)
      else if requires_auth p \<and> cache cl = None then Inl Undefined
      else if data \<noteq> None \<and> validate_arg (the data) (nat recv_size) \<noteq> 0 then Inr (-1, ''invalid argument provided'', cs, cl)
      else obind (dispatch (code p) cs cl data) (\<lambda>(err, cs', cl'). Inr (err, op_reply p, cs', cl')))"

text \<open>\<^verbatim>\<open>LINE_SIZE\<close> zeroed bytes with the reply printed into them.\<close>

definition response_of :: "int \<Rightarrow> string \<Rightarrow> byte list" where
  "response_of err reply =
     (let msg = map char_byte ((if err = 0 then [] else ''FAILED: '') @ reply)
      in msg @ replicate (LINE_SIZE - length msg) 0)"

definition get_command :: "byte list \<Rightarrow> caches \<Rightarrow> client_st \<Rightarrow> (int \<times> caches \<times> client_st) outcome" where
  "get_command junk cs cl =
     (case recv_data junk (client_sock cl) COMMAND_SIZE of (recv_size, bs, s1) \<Rightarrow>
        if recv_size \<le> 0 then Inr (-1, cs, cl\<lparr>client_sock := s1\<rparr>)
        else obind (buffer_string bs) (\<lambda>str.
          case parse_command str recv_size of (p, data, n) \<Rightarrow>
            obind (run_command p data n cs (cl\<lparr>client_sock := s1\<rparr>)) (\<lambda>(err, reply, cs', cl').
              obind (send_data (client_sock cl') (response_of err reply)) (\<lambda>(sent, s2).
                Inr (if sent < 0 then -1 else sent, cs', cl'\<lparr>client_sock := s2\<rparr>)))))"

text \<open>
  \<^verbatim>\<open>client_function\<close>: commands are handled until \<^verbatim>\<open>get_command\<close> returns -1; the socket is
  closed then.  \<open>junk\<close> gives the content of the uninitialised variable in each call.
\<close>

partial_function (option) client_loop :: "(sock \<Rightarrow> byte list) \<Rightarrow> caches \<Rightarrow> client_st \<Rightarrow> (caches \<times> client_st) outcome option" where
  "client_loop junk cs cl =
     (case get_command (junk (client_sock cl)) cs cl of
        Inl e \<Rightarrow> Some (Inl e)
      | Inr (rc, cs', cl') \<Rightarrow> if rc = -1 then Some (Inr (cs', cl')) else client_loop junk cs' cl')"

declare client_loop.simps [code]

definition client_function :: "(sock \<Rightarrow> byte list) \<Rightarrow> caches \<Rightarrow> sock \<Rightarrow> (caches \<times> client_st) outcome" where
  "client_function junk cs s =
     (case client_loop junk cs (logmemcache_create_client s) of None \<Rightarrow> Inl Loops | Some r \<Rightarrow> r)"

text \<open>The accept loop: the server handles one connection after the other.\<close>

inductive serves :: "caches \<Rightarrow> caches \<Rightarrow> bool" where
  start: "serves cs cs"
| accept: "serves cs cs1 \<Longrightarrow> client_function junk cs1 s = Inr (cs2, cl) \<Longrightarrow> serves cs cs2"

inductive_cases servesE: "serves cs cs'"

end
