(* ===== verification/LogProps.thy ===== *)
theory LogProps
  imports LogServer
begin

text \<open>
  Properties of the log cache server: sessions end, the table of caches keeps its invariant over
  any sequence of connections, a connect command is parsed, executed and answered; and the two
  messages that crash the server.
\<close>

section \<open>A command consumes input\<close>

lemma get_all_consumes:
  "get_all sock_recv s n acc = (r, s') \<Longrightarrow> length (inbox s') \<le> length (inbox s)
     \<and> (\<forall>bs. r = Some bs \<longrightarrow> length bs + length (inbox s') = length acc + length (inbox s))"
proof (induction n arbitrary: s acc rule: less_induct)
  case (less n)
  show ?case
  proof (cases "n = 0")
    case True
    with less.prems show ?thesis by (auto simp: get_all.simps)
  next
    case False
    obtain p s1 where p: "sock_recv s n = (p, s1)" by (cases "sock_recv s n")
    obtain l s0 where l: "take_limit s = (l, s0)" by (cases "take_limit s")
    have s0: "inbox s0 = inbox s" using take_limit_props [OF l] by simp
    show ?thesis
    proof (cases p)
      case None
      then have "inbox s1 = inbox s"
        using p l s0 by (auto simp: sock_recv_def Let_def split: option.splits limit.splits)
      with None less.prems False p show ?thesis by (auto simp: get_all.simps [of sock_recv s])
    next
      case (Some bs)
      then have e: "inbox s = bs @ inbox s1"
        using p l s0 by (auto simp: sock_recv_def Let_def split: option.splits limit.splits)
      show ?thesis
      proof (cases "bs = []")
        case True
        with Some less.prems False p e show ?thesis by (auto simp: get_all.simps [of sock_recv s])
      next
        case ne: False
        have "get_all sock_recv s1 (n - length bs) (acc @ bs) = (r, s')"
          using Some less.prems False p ne by (simp add: get_all.simps [of sock_recv s])
        moreover have "n - length bs < n" using ne False by simp
        ultimately show ?thesis using less.IH [of "n - length bs" s1 "acc @ bs"] e by auto
      qed
    qed
  qed
qed

lemma xrecv_consumes:
  "xrecv s n = (r, bs, s') \<Longrightarrow> length (inbox s') \<le> length (inbox s) \<and> (0 \<le> r \<longrightarrow> int (length (inbox s')) + r = int (length (inbox s)))"
  using get_all_consumes [of s n "[]"] by (auto simp: xrecv_def split: prod.splits option.splits)

lemma recv_data_consumes:
  assumes "recv_data junk s len = (r, bs, s')" "0 < r"
  shows "length (inbox s') < length (inbox s)"
proof -
  obtain q hd4 s1 where 1: "xrecv s 4 = (q, hd4, s1)" by (cases "xrecv s 4")
  with assms have "xrecv s1 (ntohl (hd4 @ drop (length hd4) junk)) = (r, bs, s')" "\<not> q < 0"
    by (auto simp: recv_data_def Let_def split: if_splits)
  with xrecv_consumes [OF 1] xrecv_consumes [of s1 _ r bs s'] assms(2) show ?thesis by fastforce
qed

lemma recv_data_le: "recv_data junk s len = (r, bs, s') \<Longrightarrow> length (inbox s') \<le> length (inbox s)"
proof -
  assume a: "recv_data junk s len = (r, bs, s')"
  obtain q hd4 s1 where 1: "xrecv s 4 = (q, hd4, s1)" by (cases "xrecv s 4")
  with a xrecv_consumes [OF 1] xrecv_consumes [of s1 _ r bs s'] show ?thesis
    by (fastforce simp: recv_data_def Let_def split: if_splits)
qed

lemma dispatch_keeps:
  "dispatch c cs cl data = Inr (err, cs', cl') \<Longrightarrow> client_sock cl' = client_sock cl
     \<and> (cs' = cs \<or> (\<exists>n. cs' = cs @ [n] \<and> find_name cs n = None \<and> length cs \<noteq> DEFAULT_CLIENTS_NO))"
  by (auto simp: dispatch_def logmemcache_add_client_def split: op_code.splits option.splits if_splits)

lemma run_command_keeps:
  "run_command p data n cs cl = Inr (err, reply, cs', cl') \<Longrightarrow> client_sock cl' = client_sock cl
     \<and> (cs' = cs \<or> (\<exists>n. cs' = cs @ [n] \<and> find_name cs n = None \<and> length cs \<noteq> DEFAULT_CLIENTS_NO))"
  by (auto simp: run_command_def outcome_simps split: if_splits dest: dispatch_keeps)

lemma get_command_keeps:
  assumes "get_command junk cs cl = Inr (rc, cs', cl')"
  shows "(rc \<noteq> -1 \<longrightarrow> length (inbox (client_sock cl')) < length (inbox (client_sock cl)))
     \<and> (cs' = cs \<or> (\<exists>n. cs' = cs @ [n] \<and> find_name cs n = None \<and> length cs \<noteq> DEFAULT_CLIENTS_NO))"
proof -
  obtain r bs s1 where r: "recv_data junk (client_sock cl) COMMAND_SIZE = (r, bs, s1)"
    by (cases "recv_data junk (client_sock cl) COMMAND_SIZE")
  show ?thesis
  proof (cases "r \<le> 0")
    case True
    with assms r show ?thesis by (auto simp: get_command_def)
  next
    case False
    obtain str where str: "buffer_string bs = Inr str"
      using assms r False by (auto simp: get_command_def outcome_simps)
    obtain p data n where p: "parse_command str r = (p, data, n)" by (cases "parse_command str r")
    obtain err reply cs1 cl1 where c: "run_command p data n cs (cl\<lparr>client_sock := s1\<rparr>) = Inr (err, reply, cs1, cl1)"
      "obind (send_data (client_sock cl1) (response_of err reply)) (\<lambda>(sent, s2).
         Inr (if sent < 0 then -1 else sent, cs1, cl1\<lparr>client_sock := s2\<rparr>)) = Inr (rc, cs', cl')"
      using assms r False str p by (auto simp: get_command_def outcome_simps)
    obtain m s2 where s2: "send_data (client_sock cl1) (response_of err reply) = Inr (m, s2)" "inbox s2 = inbox (client_sock cl1)"
      using send_data_any by blast
    from run_command_keeps [OF c(1)] recv_data_consumes [OF r] False c(2) s2 show ?thesis by auto
  qed
qed

section \<open>Sessions\<close>

lemma get_command_fault: "get_command junk cs cl = Inl e \<Longrightarrow> e = Undefined"
proof -
  assume a: "get_command junk cs cl = Inl e"
  have s: "obind (send_data s bs) (\<lambda>(sent, s2). Inr (f sent s2)) \<noteq> Inl e'" for s bs f e'
    using send_data_any [of s bs] by auto
  have b: "buffer_string x = Inl d \<Longrightarrow> d = Undefined" for x d
    by (auto simp: buffer_string_def split: if_splits)
  have d: "run_command p data n cs c = Inl d \<Longrightarrow> d = Undefined" for p data n c d
    by (auto simp: run_command_def outcome_simps dispatch_def logmemcache_add_client_def
        split: if_splits op_code.splits option.splits)
  obtain r bs s1 where r: "recv_data junk (client_sock cl) COMMAND_SIZE = (r, bs, s1)"
    by (cases "recv_data junk (client_sock cl) COMMAND_SIZE")
  show ?thesis
  proof (cases "buffer_string bs")
    case (Inl e')
    with a r b show ?thesis by (auto simp: get_command_def split: if_splits)
  next
    case (Inr str)
    obtain p data n where "parse_command str r = (p, data, n)" by (cases "parse_command str r")
    with Inr a r s show ?thesis
      by (auto simp: get_command_def outcome_simps split: if_splits dest: d)
  qed
qed

lemma client_loop_returns:
  "client_loop junk cs cl = Some (Inl Undefined) \<or> (\<exists>cs' cl'. client_loop junk cs cl = Some (Inr (cs', cl')))"
proof (induction "length (inbox (client_sock cl))" arbitrary: cs cl rule: less_induct)
  case less
  show ?case
  proof (cases "get_command (junk (client_sock cl)) cs cl")
    case (Inl e)
    then show ?thesis using get_command_fault [OF Inl] by (simp add: client_loop.simps [of junk cs cl])
  next
    case (Inr x)
    obtain rc cs' cl' where x: "x = (rc, cs', cl')" by (cases x)
    show ?thesis
    proof (cases "rc = -1")
      case True
      with Inr x show ?thesis by (simp add: client_loop.simps [of junk cs cl])
    next
      case False
      with Inr x get_command_keeps [of "junk (client_sock cl)" cs cl rc cs' cl']
      have "length (inbox (client_sock cl')) < length (inbox (client_sock cl))" by simp
      from less.hyps [OF this] Inr x False show ?thesis by (simp add: client_loop.simps [of junk cs cl])
    qed
  qed
qed

text \<open>The loop of a session ends for every client, whatever it sends and however the socket
behaves: each command that is answered takes at least one byte from what the client has sent.  It
ends with the server still running, or crashed.\<close>

theorem session_ends:
  "client_function junk cs s = Inl Undefined \<or> (\<exists>cs' cl. client_function junk cs s = Inr (cs', cl))"
  using client_loop_returns [of junk cs "logmemcache_create_client s"] by (auto simp: client_function_def)

section \<open>The table of caches\<close>

definition caches_inv :: "caches \<Rightarrow> bool" where
  "caches_inv cs \<longleftrightarrow> distinct cs \<and> length cs \<le> DEFAULT_CLIENTS_NO"

lemma find_name_None [simp]: "find_name cs n = None \<longleftrightarrow> n \<notin> set cs"
  by (induction cs) auto

lemma find_name_Some: "find_name cs n = Some i \<Longrightarrow> i < length cs \<and> cs ! i = n"
  by (induction cs arbitrary: i) (auto split: if_splits)

definition extends :: "caches \<Rightarrow> caches \<Rightarrow> bool" where
  "extends cs cs' \<longleftrightarrow> (\<exists>new. cs' = cs @ new) \<and> (caches_inv cs \<longrightarrow> caches_inv cs')"

lemma extends_refl [simp]: "extends cs cs"
  by (simp add: extends_def)

lemma extends_trans: "extends a b \<Longrightarrow> extends b c \<Longrightarrow> extends a c"
  by (auto simp: extends_def)

lemma get_command_extends: "get_command junk cs cl = Inr (rc, cs', cl') \<Longrightarrow> extends cs cs'"
  using get_command_keeps [of junk cs cl rc cs' cl'] by (auto simp: extends_def caches_inv_def)

lemma client_loop_extends: "client_loop junk cs cl = Some r \<Longrightarrow> r = Inr (cs', cl') \<Longrightarrow> extends cs cs'"
proof (induction "length (inbox (client_sock cl))" arbitrary: cs cl rule: less_induct)
  case less
  obtain rc cs1 cl1 where g: "get_command (junk (client_sock cl)) cs cl = Inr (rc, cs1, cl1)"
    using less.prems by (cases "get_command (junk (client_sock cl)) cs cl") (auto simp: client_loop.simps [of junk cs cl])
  note e = get_command_extends [OF g]
  show ?case
  proof (cases "rc = -1")
    case True
    with g less.prems e show ?thesis by (simp add: client_loop.simps [of junk cs cl])
  next
    case False
    then have l: "length (inbox (client_sock cl1)) < length (inbox (client_sock cl))"
      using get_command_keeps [OF g] by simp
    have "client_loop junk cs1 cl1 = Some r" using g False less.prems(1) by (simp add: client_loop.simps [of junk cs cl])
    from less.hyps [OF l this less.prems(2)] e show ?thesis by (rule extends_trans [rotated])
  qed
qed

text \<open>C15: Over any number of connections the table of caches only grows, holds a name once and
never more than the array has room for; an entry keeps its index, so the pointers of clients stay
valid.\<close>

theorem caches_invariant:
  assumes "serves cs cs'" "caches_inv cs"
  shows "caches_inv cs' \<and> (\<exists>new. cs' = cs @ new) \<and> (\<forall>i < length cs. cs' ! i = cs ! i)"
proof -
  have "extends cs cs'"
    using assms(1)
  proof (induction rule: serves.induct)
    case (accept cs cs1 junk s cs2 cl)
    have "extends cs1 cs2"
      using accept.hyps(2) client_loop_extends [of junk cs1 "logmemcache_create_client s" _ cs2 cl]
      by (auto simp: client_function_def split: option.splits)
    with accept.IH show ?case by (rule extends_trans)
  qed simp
  with assms(2) show ?thesis by (auto simp: extends_def nth_append)
qed

section \<open>One command\<close>

definition fine :: "sock \<Rightarrow> bool" where
  "fine s \<longleftrightarrow> Fails \<notin> set (limits s)"

lemma byte_char_byte [simp]: "byte_char (char_byte c) = c"
  by (simp add: byte_char_def char_byte_def unat_of_nat)

lemma char_byte_zero: "char_byte c = 0 \<Longrightarrow> c = CHR 0x00"
proof -
  assume "char_byte c = 0"
  then have "c = byte_char 0" by (metis byte_char_byte)
  also have "\<dots> = CHR 0x00" by code_simp
  finally show ?thesis .
qed

text \<open>The bytes of a text and its message on the wire.\<close>

definition bytes :: "string \<Rightarrow> byte list" where
  "bytes s = map char_byte s"

definition frame :: "string \<Rightarrow> byte list" where
  "frame s = htonl (length s) @ bytes s"

definition sendable :: "string \<Rightarrow> bool" where
  "sendable s \<longleftrightarrow> s \<noteq> [] \<and> CHR 0x00 \<notin> set s \<and> length s < COMMAND_SIZE"

lemma receive_text:
  assumes "fine s" "inbox s = frame str @ r" "sendable str"
  shows "\<exists>s1. recv_data junk s COMMAND_SIZE = (int (length str), bytes str, s1) \<and> fine s1
    \<and> inbox s1 = r \<and> outbox s1 = outbox s \<and> buffer_string (bytes str) = Inr str"
proof -
  have q: "quiet (outbox s) s" using assms(1) by (simp add: quiet_def fine_def)
  have len: "length (bytes str) = length str" by (simp add: bytes_def)
  obtain s1 where 1: "recv_data junk s COMMAND_SIZE = (int (length str), bytes str, s1)" "quiet (outbox s) s1" "inbox s1 = r"
    using recv_data_frame [OF q, of "bytes str" r COMMAND_SIZE junk] assms(2,3) len
    by (auto simp: frame_def sendable_def COMMAND_SIZE_def)
  have "takeWhile (\<lambda>b. b \<noteq> 0) (bytes str) = bytes str"
    using assms(3) char_byte_zero by (auto simp: takeWhile_eq_all_conv bytes_def sendable_def)
  moreover have "map byte_char (bytes str) = str" by (simp add: bytes_def comp_def)
  ultimately have "buffer_string (bytes str) = Inr str"
    using assms(3) len by (simp add: buffer_string_def sendable_def del: takeWhile_eq_all_conv)
  with 1 show ?thesis by (auto simp: quiet_def fine_def)
qed

lemma span_word:
  "c \<notin> set w \<Longrightarrow> takeWhile (\<lambda>x. x \<noteq> c) w = w \<and> dropWhile (\<lambda>x. x \<noteq> c) w = []
     \<and> takeWhile (\<lambda>x. x \<noteq> c) (w @ c # d) = w \<and> dropWhile (\<lambda>x. x \<noteq> c) (w @ c # d) = c # d"
  by (induction w) auto

lemma parse_plain: "CHR '' '' \<notin> set w \<Longrightarrow> parse_command w n = (get_op_by_str w, None, n)"
  by (simp add: parse_command_def span_word)

lemma parse_arg:
  "CHR '' '' \<notin> set w \<Longrightarrow> parse_command (w @ CHR '' '' # d) n = (get_op_by_str w, Some d, n - int (length w + 1))"
  by (simp add: parse_command_def span_word)

lemma connect_served:
  assumes "fine s" "inbox s = frame (''connect '' @ name) @ r" "cache cl = None" "client_sock cl = s"
    and "list_all isprint name" "length name < LINE_SIZE" "name \<in> set cs \<or> length cs < DEFAULT_CLIENTS_NO"
  shows "\<exists>cs' cl' i. get_command junk cs cl = Inr (256, cs', cl')
    \<and> cs' = (if name \<in> set cs then cs else cs @ [name]) \<and> cache cl' = Some i \<and> cs' ! i = name
    \<and> inbox (client_sock cl') = r \<and> outbox (client_sock cl') = outbox s @ htonl 256 @ response_of 0 ''client connected'' \<and> fine (client_sock cl')"
proof -
  let ?str = "''connect '' @ name"
  have printable: "c \<noteq> CHR 0x00" if "isprint c" for c using that by (auto simp: isprint_def)
  have send: "sendable ?str"
    using assms(5,6) printable by (auto simp: sendable_def list_all_iff LINE_SIZE_def COMMAND_SIZE_def)
  obtain s1 where s1: "recv_data junk s COMMAND_SIZE = (int (length ?str), bytes ?str, s1)" "fine s1"
    "inbox s1 = r" "outbox s1 = outbox s" "buffer_string (bytes ?str) = Inr ?str"
    using receive_text [OF assms(1,2) send] by blast
  have p: "parse_command ?str (int (length ?str)) = (get_op CONNECT, Some name, int (length name))"
    using parse_arg [of "''connect''" name "int (length ?str)"] by (simp add: get_op_by_str_def get_op_def ops_def)
  have v: "validate_arg name (length name) = 0" using assms(5) by (simp add: validate_arg_def)
  have a: "\<exists>cs' i. logmemcache_add_client cs (cl\<lparr>client_sock := s1\<rparr>) (Some name) = Inr (0, cs', cl\<lparr>client_sock := s1, cache := Some i\<rparr>)
      \<and> cs' = (if name \<in> set cs then cs else cs @ [name]) \<and> cs' ! i = name"
  proof (cases "find_name cs name")
    case None
    then have "name \<notin> set cs" by simp
    with None show ?thesis
      using assms(7) by (auto simp: logmemcache_add_client_def logmemcache_init_client_cache_def simp del: find_name_None)
  next
    case (Some i)
    then have "name \<in> set cs" by (metis find_name_None option.distinct(1))
    then show ?thesis using Some find_name_Some [OF Some] by (auto simp: logmemcache_add_client_def)
  qed
  then obtain cs' i where a: "logmemcache_add_client cs (cl\<lparr>client_sock := s1\<rparr>) (Some name) = Inr (0, cs', cl\<lparr>client_sock := s1, cache := Some i\<rparr>)"
    "cs' = (if name \<in> set cs then cs else cs @ [name])" "cs' ! i = name" by blast
  have run: "run_command (get_op CONNECT) (Some name) (int (length name)) cs (cl\<lparr>client_sock := s1\<rparr>)
      = Inr (0, ''client connected'', cs', cl\<lparr>client_sock := s1, cache := Some i\<rparr>)"
    using a v assms(6) by (simp add: run_command_def get_op_def ops_def dispatch_def)
  have "length (response_of 0 ''client connected'') = 256" by (simp add: response_of_def LINE_SIZE_def Let_def)
  moreover have "calm r s1" using s1(2,3) by (simp add: calm_def fine_def)
  ultimately obtain s2 where s2: "send_data s1 (response_of 0 ''client connected'') = Inr (256, s2)" "calm r s2"
    "outbox s2 = outbox s1 @ htonl 256 @ response_of 0 ''client connected''"
    using send_data_ok [of r s1 "response_of 0 ''client connected''"] by auto
  have "get_command junk cs cl = Inr (256, cs', cl\<lparr>client_sock := s2, cache := Some i\<rparr>)"
    using s1(1,5) p run s2(1) assms(4) by (simp add: get_command_def)
  with a s1(4) s2(2,3) show ?thesis
    by (intro exI [of _ cs'] exI [of _ "cl\<lparr>client_sock := s2, cache := Some i\<rparr>"] exI [of _ i]) (simp add: calm_def fine_def)
qed

text \<open>A client that hangs up.  The session ends, as the length that was not received is not positive.\<close>

lemma hung_up:
  assumes "quiet ob (client_sock cl)" "inbox (client_sock cl) = []"
  shows "\<exists>cl'. get_command [0, 0, 0, 0] cs cl = Inr (-1, cs, cl')"
proof -
  obtain s1 where 1: "xrecv (client_sock cl) 4 = (0, [], s1)" "quiet ob s1"
    using xrecv_ok [OF assms(1), of 4] assms(2) by auto
  obtain s2 where 2: "xrecv s1 0 = (0, [], s2)" using xrecv_ok [OF 1(2), of 0] by auto
  have "ntohl [0, 0, 0, 0] = 0" by (simp add: ntohl_def)
  with 1(1) 2 have "recv_data [0, 0, 0, 0] (client_sock cl) COMMAND_SIZE = (0, [], s2)" by (simp add: recv_data_def)
  then show ?thesis by (simp add: get_command_def)
qed

text \<open>A session of one \<^verbatim>\<open>connect\<close>, in which the table grows.\<close>

lemma connect_session:
  assumes "fine s" "inbox s = frame (''connect '' @ name)"
    and "list_all isprint name" "length name < LINE_SIZE" "name \<notin> set cs" "length cs < DEFAULT_CLIENTS_NO"
  shows "\<exists>cl. client_function (\<lambda>_. [0, 0, 0, 0]) cs s = Inr (cs @ [name], cl)"
proof -
  let ?cl = "logmemcache_create_client s"
  obtain cl1 where 1: "get_command [0, 0, 0, 0] cs ?cl = Inr (256, cs @ [name], cl1)" "inbox (client_sock cl1) = []" "fine (client_sock cl1)"
    using connect_served [of s name "[]" ?cl cs "[0, 0, 0, 0]"] assms by (auto simp: logmemcache_create_client_def)
  obtain cl2 where 2: "get_command [0, 0, 0, 0] (cs @ [name]) cl1 = Inr (-1, cs @ [name], cl2)"
    using hung_up [of "outbox (client_sock cl1)" cl1 "cs @ [name]"] 1(2,3) by (auto simp: quiet_def fine_def)
  show ?thesis
    using 1(1) 2 by (auto simp: client_function_def client_loop.simps [of _ cs ?cl] client_loop.simps [of _ "cs @ [name]" cl1])
qed

text \<open>Two connections: the first enters a second name, the other repeats the session under a third.\<close>

theorem caches_invariant_witness:
  "(\<exists>cl. client_function (\<lambda>_. [0, 0, 0, 0]) [''web''] \<lparr>inbox = frame ''connect db'', outbox = [], limits = [AtMost 2]\<rparr>
      = Inr ([''web'', ''db''], cl))
   \<and> serves [''web''] [''web'', ''db'', ''ftp'']
   \<and> caches_inv [''web'', ''db'', ''ftp''] \<and> [''web'', ''db'', ''ftp''] ! 0 = [''web''] ! 0"
proof -
  have p: "list_all isprint ''db''" "list_all isprint ''ftp''" by (simp_all add: isprint_def)
  obtain cl where 1: "client_function (\<lambda>_. [0, 0, 0, 0]) [''web''] \<lparr>inbox = frame ''connect db'', outbox = [], limits = [AtMost 2]\<rparr>
      = Inr ([''web'', ''db''], cl)"
    using connect_session [of "\<lparr>inbox = frame ''connect db'', outbox = [], limits = [AtMost 2]\<rparr>" "''db''" "[''web'']"] p
    by (auto simp: fine_def LINE_SIZE_def DEFAULT_CLIENTS_NO_def)
  obtain cl' where 2: "client_function (\<lambda>_. [0, 0, 0, 0]) [''web'', ''db''] \<lparr>inbox = frame ''connect ftp'', outbox = [], limits = []\<rparr>
      = Inr ([''web'', ''db'', ''ftp''], cl')"
    using connect_session [of "\<lparr>inbox = frame ''connect ftp'', outbox = [], limits = []\<rparr>" "''ftp''" "[''web'', ''db'']"] p
    by (auto simp: fine_def LINE_SIZE_def DEFAULT_CLIENTS_NO_def)
  have run: "serves [''web''] [''web'', ''db'', ''ftp'']"
    by (rule serves.accept [OF serves.accept [OF serves.start 1] 2])
  have "caches_inv [''web'']" by (simp add: caches_inv_def DEFAULT_CLIENTS_NO_def)
  from caches_invariant [OF run this] run 1 show ?thesis by auto
qed

text \<open>The message the client library sends to connect is handled by the server: the name is
entered once (a second connection under it gets the same entry), the client points to it, and one
message of \<^verbatim>\<open>LINE_SIZE\<close> bytes with the text of the operation goes back; what the client has sent
after it is untouched.\<close>

theorem connect_is_served:
  assumes "fine s" "inbox s = frame (''connect '' @ name) @ r" "cache cl = None" "client_sock cl = s"
    and "list_all isprint name" "length name < LINE_SIZE" "name \<in> set cs \<or> length cs < DEFAULT_CLIENTS_NO"
  shows "\<exists>cs' cl' i. get_command junk cs cl = Inr (256, cs', cl')
    \<and> cs' = (if name \<in> set cs then cs else cs @ [name]) \<and> cache cl' = Some i \<and> cs' ! i = name
    \<and> inbox (client_sock cl') = r \<and> outbox (client_sock cl') = outbox s @ htonl 256 @ response_of 0 ''client connected''"
  using connect_served [OF assms, of junk] by blast

theorem connect_is_served_witness:
  "\<exists>cs' cl'. get_command [0, 0, 0, 0] [''web''] (logmemcache_create_client \<lparr>inbox = frame (''connect db'') @ [1], outbox = [], limits = [AtMost 2]\<rparr>)
      = Inr (256, cs', cl') \<and> cs' = [''web'', ''db''] \<and> inbox (client_sock cl') = [1]"
proof -
  have h: "list_all isprint ''db''" by (simp add: isprint_def)
  show ?thesis
    using connect_is_served [of "\<lparr>inbox = frame (''connect db'') @ [1], outbox = [], limits = [AtMost 2]\<rparr>" "''db''" "[1]"
        "logmemcache_create_client \<lparr>inbox = frame (''connect db'') @ [1], outbox = [], limits = [AtMost 2]\<rparr>" "[''web'']" "[0, 0, 0, 0]"] h
    by (auto simp: fine_def logmemcache_create_client_def LINE_SIZE_def DEFAULT_CLIENTS_NO_def)
qed

text \<open>Two messages crash the server.  A command that needs authentication, sent before
\<^verbatim>\<open>connect\<close>, dereferences the null cache of the client; \<^verbatim>\<open>connect\<close> without a name passes a null
name on.\<close>

theorem crashing_messages:
  assumes "fine s" "cache cl = None" "client_sock cl = s"
    and "(\<exists>c. requires_auth (get_op c) \<and> msg = the (op_str (get_op c))) \<or> msg = ''connect''" "inbox s = frame msg @ r"
  shows "get_command junk cs cl = Inl Undefined"
proof -
  have msg: "\<exists>c. msg = the (op_str (get_op c)) \<and> c \<noteq> UNKNOWN \<and> (requires_auth (get_op c) \<or> c = CONNECT)"
  proof -
    have "\<not> requires_auth (get_op UNKNOWN)" by (simp add: get_op_def ops_def)
    then show ?thesis using assms(4) by (metis get_op_simps(1) op_code.distinct(15) option.sel)
  qed
  then obtain c where c: "msg = the (op_str (get_op c))" "c \<noteq> UNKNOWN" "requires_auth (get_op c) \<or> c = CONNECT" by blast
  have "sendable msg" "CHR '' '' \<notin> set msg" "get_op_by_str msg = get_op c" "code (get_op c) = c" "length msg \<le> LINE_SIZE"
    using c(1,2) by (cases c; simp add: sendable_def COMMAND_SIZE_def get_op_by_str_def get_op_def ops_def LINE_SIZE_def)+
  note m = this
  obtain s1 where s1: "recv_data junk s COMMAND_SIZE = (int (length msg), bytes msg, s1)" "buffer_string (bytes msg) = Inr msg"
    using receive_text [OF assms(1,5) m(1)] by blast
  have p: "parse_command msg (int (length msg)) = (get_op c, None, int (length msg))"
    using parse_plain [OF m(2)] m(3) by simp
  have "run_command (get_op c) None (int (length msg)) cs (cl\<lparr>client_sock := s1\<rparr>) = Inl Undefined"
    using c(3) m(4,5) assms(2) by (auto simp: run_command_def dispatch_def logmemcache_add_client_def)
  moreover have "msg \<noteq> []" using m(1) by (simp add: sendable_def)
  ultimately show ?thesis using s1 p assms(3) by (simp add: get_command_def)
qed

theorem crashing_messages_witness:
  "get_command [0, 0, 0, 0] [] (logmemcache_create_client \<lparr>inbox = frame ''flush'', outbox = [], limits = []\<rparr>) = Inl Undefined"
proof -
  have "\<exists>c. requires_auth (get_op c) \<and> ''flush'' = the (op_str (get_op c))"
    by (intro exI [of _ FLUSH]) (simp add: get_op_def ops_def)
  then show ?thesis
    using crashing_messages [of "\<lparr>inbox = frame ''flush'', outbox = [], limits = []\<rparr>"
        "logmemcache_create_client \<lparr>inbox = frame ''flush'', outbox = [], limits = []\<rparr>" "''flush''" "[]"]
    by (simp add: fine_def logmemcache_create_client_def)
qed

end
