(* ===== verification/LogClient.thy ===== *)
theory LogClient
  imports LogProps
begin

text \<open>
  The client library of the log cache: \<^verbatim>\<open>hackathon/skel/liblogmemcache/logmemcache.c\<close> and its
  Linux part \<^verbatim>\<open>lin/logmemcache_os.c\<close>.  The inbox of the socket is what the server will have
  sent; what is printed is left out.
\<close>

record logmemcache_st =
  socket :: sock
  name :: string

section \<open>Requests\<close>

text \<open>\<^verbatim>\<open>snprintf(buffer, COMMAND_SIZE, ...)\<close> and the \<^verbatim>\<open>len\<close> bytes that are sent of the zeroed
buffer: its result counts what would have been written, so a longer text is read past the end of
the buffer.\<close>

definition print_request :: "string \<Rightarrow> byte list outcome" where
  "print_request text =
     (if COMMAND_SIZE < length text then Inl Undefined
      else Inr (bytes (take (COMMAND_SIZE - 1) text) @ (if length text = COMMAND_SIZE then [0] else [])))"

text \<open>Receiving the response, which is printed as a string.\<close>

definition get_response :: "byte list \<Rightarrow> sock \<Rightarrow> (int \<times> sock) outcome" where
  "get_response junk s =
     (case recv_data junk s LINE_SIZE of (r, bs, s') \<Rightarrow>
        if r < 0 then Inr (-1, s')
        else if length bs < LINE_SIZE \<or> 0 \<in> set bs then Inr (0, s')
        else Inl Undefined)"

text \<open>Send a command and get its response.\<close>

definition request :: "byte list \<Rightarrow> logmemcache_st \<Rightarrow> string \<Rightarrow> (int \<times> logmemcache_st) outcome" where
  "request junk cl text =
     obind (print_request text) (\<lambda>msg.
       obind (send_data (socket cl) msg) (\<lambda>(n, s1).
         if n < 0 then Inr (-1, cl\<lparr>socket := s1\<rparr>)
         else obind (get_response junk s1) (\<lambda>(rc, s2). Inr (rc, cl\<lparr>socket := s2\<rparr>))))"

section \<open>Connecting\<close>

text \<open>\<^verbatim>\<open>logmemcache_client_init_os\<close>: \<open>conn\<close> is the connected socket, or \<^const>\<open>None\<close> when
\<^verbatim>\<open>socket\<close> or \<^verbatim>\<open>connect\<close> fails; \<open>prog\<close> is the name of the program.\<close>

definition logmemcache_client_init_os :: "string \<Rightarrow> sock option \<Rightarrow> logmemcache_st \<Rightarrow> string option \<Rightarrow> int \<times> logmemcache_st" where
  "logmemcache_client_init_os prog conn cl nm =
     (let cl1 = cl\<lparr>name := take (CLIENT_MAX_NAME - 1) (case nm of None \<Rightarrow> prog | Some n \<Rightarrow> n)\<rparr>
      in case conn of None \<Rightarrow> (-1, cl1) | Some s \<Rightarrow> (0, cl1\<lparr>socket := s\<rparr>))"

definition logmemcache_client_init ::
  "byte list \<Rightarrow> string \<Rightarrow> sock option \<Rightarrow> logmemcache_st \<Rightarrow> string option \<Rightarrow> (int \<times> logmemcache_st) outcome" where
  "logmemcache_client_init junk prog conn cl nm =
     (case logmemcache_client_init_os prog conn cl nm of (err, cl1) \<Rightarrow>
        if err \<noteq> 0 then Inr (err, cl1)
        else request junk cl1 (the (op_str (get_op CONNECT)) @ '' '' @ name cl1))"

definition logmemcache_create ::
  "byte list \<Rightarrow> string \<Rightarrow> sock option \<Rightarrow> logmemcache_st \<Rightarrow> string option \<Rightarrow> logmemcache_st option outcome" where
  "logmemcache_create junk prog conn mem nm =
     obind (logmemcache_client_init junk prog conn mem nm) (\<lambda>(rc, cl). Inr (if rc < 0 then None else Some cl))"

section \<open>Commands\<close>

text \<open>\<open>time\<close> is what \<^verbatim>\<open>current_time_to_string\<close> stores.\<close>

definition logmemcache_add_log :: "byte list \<Rightarrow> string \<Rightarrow> logmemcache_st \<Rightarrow> string \<Rightarrow> (int \<times> logmemcache_st) outcome" where
  "logmemcache_add_log junk time cl logline =
     request junk cl (the (op_str (get_op ADD)) @ '' '' @ time @ logline)"

definition logmemcache_flush :: "byte list \<Rightarrow> logmemcache_st \<Rightarrow> (int \<times> logmemcache_st) outcome" where
  "logmemcache_flush junk cl = request junk cl (the (op_str (get_op FLUSH)))"

definition logmemcache_disconnect :: "byte list \<Rightarrow> logmemcache_st \<Rightarrow> (int \<times> logmemcache_st) outcome" where
  "logmemcache_disconnect junk cl = request junk cl (the (op_str (get_op DISCONNECT)))"

definition logmemcache_unsubscribe :: "byte list \<Rightarrow> logmemcache_st \<Rightarrow> (int \<times> logmemcache_st) outcome" where
  "logmemcache_unsubscribe junk cl = request junk cl (the (op_str (get_op UNSUBSCRIBE)))"

text \<open>\<^verbatim>\<open>logmemcache_get_stats\<close>: the data (or null) it returns; failures to send or to get the
response are only printed.\<close>

definition logmemcache_get_stats :: "byte list \<Rightarrow> logmemcache_st \<Rightarrow> (byte list option \<times> logmemcache_st) outcome" where
  "logmemcache_get_stats junk cl =
     obind (print_request (the (op_str (get_op STAT)))) (\<lambda>msg.
       obind (send_data (socket cl) msg) (\<lambda>(n, s1).
         case recv_data junk s1 STATUS_MAX_SIZE of (r, bs, s2) \<Rightarrow>
           obind (get_response junk s2) (\<lambda>(rc, s3).
             Inr (if r < 0 then None else Some (bs @ replicate (STATUS_MAX_SIZE - length bs) 0), cl\<lparr>socket := s3\<rparr>))))"

text \<open>
  \<^verbatim>\<open>sscanf\<close> with the format of an unsigned 64-bit number: blanks, a sign, decimal digits.
  \<open>Inl rc\<close> is the result 0 (no number) or -1 (end of the text); too large a number is the
  greatest one.
\<close>

definition isspace :: "char \<Rightarrow> bool" where
  "isspace c \<longleftrightarrow> c = CHR '' '' \<or> (9 \<le> (of_char c :: nat) \<and> (of_char c :: nat) \<le> 13)"

definition isdigit :: "char \<Rightarrow> bool" where
  "isdigit c \<longleftrightarrow> 48 \<le> (of_char c :: nat) \<and> (of_char c :: nat) \<le> 57"

definition ULONG_MAX :: nat where "ULONG_MAX = 18446744073709551615"

definition decimal :: "string \<Rightarrow> nat" where
  "decimal ds = foldl (\<lambda>n c. n * 10 + (of_char c - 48)) 0 ds"

definition scan_u64 :: "string \<Rightarrow> int + nat" where
  "scan_u64 str =
     (let s = dropWhile isspace str;
          neg = take 1 s = ''-'';
          t = (if take 1 s = ''-'' \<or> take 1 s = ''+'' then drop 1 s else s);
          ds = takeWhile isdigit t
      in if s = [] then Inl (-1)
         else if ds = [] then Inl 0
         else Inr (if ULONG_MAX < decimal ds then ULONG_MAX
                   else if neg then (ULONG_MAX + 1 - decimal ds) mod (ULONG_MAX + 1) else decimal ds))"

text \<open>The loop that receives the lines: \<open>n\<close> are still to come; the count is \<^verbatim>\<open>i\<close>.  A line is
a zeroed structure of \<^const>\<open>LINE_SIZE\<close> bytes.\<close>

fun receive_lines :: "byte list \<Rightarrow> sock \<Rightarrow> nat \<Rightarrow> byte list list \<Rightarrow> bool \<times> byte list list \<times> sock" where
  "receive_lines junk s 0 got = (True, got, s)"
| "receive_lines junk s (Suc n) got =
     (case recv_data junk s LINE_SIZE of (r, bs, s') \<Rightarrow>
        if r < 0 then (False, got, s')
        else receive_lines junk s' n (got @ [bs @ replicate (LINE_SIZE - length bs) 0]))"

text \<open>\<^verbatim>\<open>logmemcache_get_logs\<close>: the lines received, whose number is stored in \<^verbatim>\<open>*logs\<close>;
\<^const>\<open>None\<close> is a null result before that.\<close>

definition logmemcache_get_logs :: "byte list \<Rightarrow> logmemcache_st \<Rightarrow> (byte list list option \<times> logmemcache_st) outcome" where
  "logmemcache_get_logs junk cl =
     obind (print_request (the (op_str (get_op GETLOGS)))) (\<lambda>msg.
       obind (send_data (socket cl) msg) (\<lambda>(n, s1).
         if n < 0 then Inr (None, cl\<lparr>socket := s1\<rparr>)
         else
           (case recv_data junk s1 LINE_SIZE of (r, bs, s2) \<Rightarrow>
              if r < 0 then Inr (None, cl\<lparr>socket := s2\<rparr>)
              else if \<not> (length bs < LINE_SIZE \<or> 0 \<in> set bs) then Inl Undefined
              else
                (case scan_u64 (map byte_char (takeWhile (\<lambda>b. b \<noteq> 0) bs)) of
                   Inl rc \<Rightarrow>
                     if rc = 0 then Inr (None, cl\<lparr>socket := s2\<rparr>)
                     else obind (get_response junk s2) (\<lambda>(rc, s3). Inr (Some [], cl\<lparr>socket := s3\<rparr>))
                 | Inr num_logs \<Rightarrow>
                     (case receive_lines junk s2 num_logs [] of
                        (False, got, s3) \<Rightarrow> Inr (Some got, cl\<lparr>socket := s3\<rparr>)
                      | (True, got, s3) \<Rightarrow> obind (get_response junk s3) (\<lambda>(rc, s4). Inr (Some got, cl\<lparr>socket := s4\<rparr>)))))))"

section \<open>Reading a line\<close>

text \<open>A line is the 20 bytes of the time and the 236 of the text; \<^verbatim>\<open>strncpy\<close> copies up to a NUL.\<close>

definition strncpy :: "byte list \<Rightarrow> nat \<Rightarrow> byte list" where
  "strncpy src n = takeWhile (\<lambda>b. b \<noteq> 0) (take n src)"

definition logmemcache_get_time :: "byte list \<Rightarrow> nat \<Rightarrow> byte list option" where
  "logmemcache_get_time line len = (if len < TIME_SIZE then None else Some (strncpy line (TIME_SIZE - 1)))"

text \<open>The text is taken from one byte before its field on.\<close>

definition logmemcache_get_logline :: "byte list \<Rightarrow> nat \<Rightarrow> byte list option" where
  "logmemcache_get_logline line len =
     (if len \<le> LOGLINE_SIZE then None else Some (strncpy (drop (TIME_SIZE - 1) line) LOGLINE_SIZE))"

section \<open>Properties\<close>

text \<open>A line as the server keeps the data of an \<^verbatim>\<open>add\<close>: the time, the text behind it, zeros.\<close>

definition stored_line :: "byte list \<Rightarrow> byte list" where
  "stored_line data = take LINE_SIZE data @ replicate (LINE_SIZE - length data) 0"

text \<open>The accessors fit what \<^verbatim>\<open>logmemcache_add_log\<close> sends: of the data of a line of 19 bytes
of time directly followed by the text, \<^verbatim>\<open>get_time\<close> returns the time and \<^verbatim>\<open>get_logline\<close>, which
starts one byte before its field, the whole text, up to 236 bytes.\<close>

theorem line_accessors:
  assumes "length time = TIME_SIZE - 1" "length body \<le> LOGLINE_SIZE" "0 \<notin> set (time @ body)" "LOGLINE_SIZE < len"
  shows "logmemcache_get_time (stored_line (time @ body)) len = Some time
    \<and> logmemcache_get_logline (stored_line (time @ body)) len = Some body"
proof -
  have tw: "takeWhile (\<lambda>b. b \<noteq> 0) xs = xs" if "0 \<notin> set xs" for xs :: "byte list"
    using that by (induction xs) auto
  have tz: "takeWhile (\<lambda>b. b \<noteq> 0) (xs @ replicate n 0) = xs" if "0 \<notin> set xs" for xs :: "byte list" and n
    using that by (induction xs) (auto simp: takeWhile_replicate)
  have len: "length (time @ body) \<le> LINE_SIZE" "TIME_SIZE \<le> len" using assms by (auto simp: TIME_SIZE_def LOGLINE_SIZE_def LINE_SIZE_def)
  then have l: "stored_line (time @ body) = time @ body @ replicate (LINE_SIZE - length (time @ body)) 0"
    by (simp add: stored_line_def)
  have "strncpy (stored_line (time @ body)) (TIME_SIZE - 1) = time"
    using assms(1,3) tw [of time] by (simp add: l strncpy_def)
  moreover have "strncpy (drop (TIME_SIZE - 1) (stored_line (time @ body))) LOGLINE_SIZE = body"
  proof -
    have "drop (TIME_SIZE - 1) (stored_line (time @ body)) = body @ replicate (LINE_SIZE - length (time @ body)) 0"
      using assms(1) by (simp add: l)
    then show ?thesis using assms(2,3) tz [of body] by (simp add: strncpy_def take_replicate)
  qed
  ultimately show ?thesis using assms(4) len(2) by (simp add: logmemcache_get_time_def logmemcache_get_logline_def)
qed

theorem line_accessors_witness:
  "logmemcache_get_logline (stored_line (replicate 19 48 @ [104, 105])) 237 = Some [104, 105]"
  using line_accessors [of "replicate 19 48" "[104, 105]" 237] by (simp add: TIME_SIZE_def LOGLINE_SIZE_def LINE_SIZE_def)

lemma print_request_short: "length text < COMMAND_SIZE \<Longrightarrow> print_request text = Inr (bytes text)"
  by (simp add: print_request_def)

lemma length_bytes [simp]: "length (bytes s) = length s"
  by (simp add: bytes_def)

lemma get_response_reply:
  assumes "fine s" "inbox s = htonl 256 @ response_of err reply @ r" "length reply < 240"
  shows "\<exists>s'. get_response junk s = Inr (0, s') \<and> fine s' \<and> inbox s' = r \<and> outbox s' = outbox s"
proof -
  let ?m = "map char_byte ((if err = 0 then [] else ''FAILED: '') @ reply)"
  have m: "length ?m < 256" using assms(3) by simp
  then have resp: "length (response_of err reply) = 256" "0 \<in> set (response_of err reply)"
    by (auto simp: response_of_def LINE_SIZE_def Let_def)
  have "quiet (outbox s) s" using assms(1) by (simp add: quiet_def fine_def)
  from recv_data_frame [OF this, of "response_of err reply" r LINE_SIZE junk] assms(2) resp(1)
  obtain s' where "recv_data junk s LINE_SIZE = (256, response_of err reply, s')" "quiet (outbox s) s'" "inbox s' = r"
    by (auto simp: LINE_SIZE_def)
  with resp show ?thesis by (auto simp: get_response_def quiet_def fine_def)
qed

lemma request_ok:
  assumes "fine (socket cl)" "inbox (socket cl) = htonl 256 @ response_of err reply @ r" "length reply < 240"
    and "length text < COMMAND_SIZE"
  shows "\<exists>s'. request junk cl text = Inr (0, cl\<lparr>socket := s'\<rparr>) \<and> fine s' \<and> inbox s' = r
    \<and> outbox s' = outbox (socket cl) @ frame text"
proof -
  obtain s1 where s1: "send_data (socket cl) (bytes text) = Inr (int (length text), s1)"
    "calm (inbox (socket cl)) s1" "outbox s1 = outbox (socket cl) @ frame text"
    using send_data_ok [of "inbox (socket cl)" "socket cl" "bytes text"] assms(1) by (auto simp: calm_def fine_def frame_def)
  have "fine s1" "inbox s1 = htonl 256 @ response_of err reply @ r" using s1(2) assms(2) by (auto simp: calm_def fine_def)
  from get_response_reply [OF this assms(3)] obtain s2 where s2: "get_response junk s1 = Inr (0, s2)" "fine s2"
    "inbox s2 = r" "outbox s2 = outbox s1" by blast
  then show ?thesis using s1
    by (auto simp: request_def print_request_short [OF assms(4)])
qed

text \<open>C23: The two sides fit: with the server's answer to come, \<^verbatim>\<open>logmemcache_create\<close> returns a
client, and what it has sent, a connect command with its name cut to 15 bytes, is what the server
needs to enter the name and give exactly that answer.\<close>

theorem client_and_server_connect:
  assumes "fine s" "inbox s = htonl 256 @ response_of 0 ''client connected'' @ r" "outbox s = []"
    and "list_all isprint nm" "length cs < DEFAULT_CLIENTS_NO" "fine t" "outbox t = []"
  shows "\<exists>cl cs' c. logmemcache_create junk prog (Some s) mem (Some nm) = Inr (Some cl) \<and> name cl = take 15 nm
    \<and> inbox (socket cl) = r
    \<and> get_command junk' cs (logmemcache_create_client (t\<lparr>inbox := outbox (socket cl)\<rparr>)) = Inr (256, cs', c)
    \<and> take 15 nm \<in> set cs' \<and> outbox (client_sock c) = htonl 256 @ response_of 0 ''client connected''"
proof -
  let ?nm = "take 15 nm"
  let ?cl = "mem\<lparr>name := ?nm, socket := s\<rparr>"
  obtain s' where s': "request junk ?cl (''connect '' @ ?nm) = Inr (0, ?cl\<lparr>socket := s'\<rparr>)" "inbox s' = r"
    "outbox s' = frame (''connect '' @ ?nm)"
  proof -
    have "length (''connect '' @ ?nm) < COMMAND_SIZE" by (simp add: COMMAND_SIZE_def)
    moreover have "inbox (socket ?cl) = htonl 256 @ response_of 0 ''client connected'' @ r" "fine (socket ?cl)" "outbox (socket ?cl) = []"
      using assms(1-3) by simp_all
    moreover have "length ''client connected'' < 240" by simp
    ultimately show thesis using request_ok [of ?cl 0 "''client connected''" r "''connect '' @ ?nm" junk] that by auto
  qed
  have create: "logmemcache_create junk prog (Some s) mem (Some nm) = Inr (Some (?cl\<lparr>socket := s'\<rparr>))"
    using s'(1) by (simp add: logmemcache_create_def logmemcache_client_init_def logmemcache_client_init_os_def
        CLIENT_MAX_NAME_def Let_def)
  let ?t = "t\<lparr>inbox := frame (''connect '' @ ?nm)\<rparr>"
  have n: "list_all isprint ?nm" "length ?nm < LINE_SIZE"
    using assms(4) in_set_takeD by (fastforce simp: list_all_iff LINE_SIZE_def)+
  have "fine ?t" "inbox ?t = frame (''connect '' @ ?nm) @ []" using assms(6) by (simp_all add: fine_def)
  from connect_served [OF this, of "logmemcache_create_client ?t" cs junk'] n assms(5,7)
  obtain cs' c where c: "get_command junk' cs (logmemcache_create_client ?t) = Inr (256, cs', c)"
    "cs' = (if ?nm \<in> set cs then cs else cs @ [?nm])" "outbox (client_sock c) = htonl 256 @ response_of 0 ''client connected''"
    by (auto simp: logmemcache_create_client_def)
  have "?nm \<in> set cs'" by (simp add: c(2))
  with create c(1,3) s'(2,3) show ?thesis
    by (intro exI [of _ "?cl\<lparr>socket := s'\<rparr>"] exI [of _ cs'] exI [of _ c]) simp
qed

theorem client_and_server_connect_witness:
  "\<exists>cl. logmemcache_create [0, 0, 0, 0] ''prog'' (Some \<lparr>inbox = htonl 256 @ response_of 0 ''client connected'', outbox = [], limits = [AtMost 1]\<rparr>)
     \<lparr>socket = \<lparr>inbox = [], outbox = [], limits = []\<rparr>, name = []\<rparr> (Some ''web'') = Inr (Some cl) \<and> name cl = ''web''"
proof -
  have h: "fine \<lparr>inbox = htonl 256 @ response_of 0 ''client connected'', outbox = [], limits = [AtMost 1]\<rparr>"
    "list_all isprint ''web''" "fine \<lparr>inbox = [], outbox = [], limits = []\<rparr>" "length ([] :: string list) < DEFAULT_CLIENTS_NO"
    by (simp_all add: fine_def isprint_def DEFAULT_CLIENTS_NO_def)
  from client_and_server_connect [OF h(1) _ _ h(2,4,3), of "[]"] show ?thesis by fastforce
qed

text \<open>\<^verbatim>\<open>logmemcache_add_log\<close> sends as many bytes as \<^verbatim>\<open>snprintf\<close> says the text would have,
so a log line of more than 1001 bytes makes it read past the end of its buffer.\<close>

theorem long_line_overreads:
  assumes "length time = TIME_SIZE - 1" "1001 < length logline"
  shows "logmemcache_add_log junk time cl logline = Inl Undefined"
  using assms by (simp add: logmemcache_add_log_def request_def print_request_def COMMAND_SIZE_def TIME_SIZE_def)

theorem long_line_overreads_witness:
  "logmemcache_add_log [0, 0, 0, 0] (replicate 19 CHR ''0'') \<lparr>socket = \<lparr>inbox = [], outbox = [], limits = []\<rparr>, name = []\<rparr> (replicate 1002 CHR ''x'')
    = Inl Undefined"
  by (rule long_line_overreads) (simp_all add: TIME_SIZE_def)

end
