(* ===== verification/LogOs.thy ===== *)
theory LogOs
  imports LogClient
begin

unbundle bit_operations_syntax

text \<open>
  The parts of the log cache around files and start-up: \<^verbatim>\<open>current_time_to_string\<close>,
  \<^verbatim>\<open>check_old_logfile\<close> and \<^verbatim>\<open>init_logdir\<close> of \<^verbatim>\<open>hackathon/skel/utils.c\<close> in their Unix and Windows
  forms, the start of the server (\<^verbatim>\<open>server.c\<close>, \<^verbatim>\<open>lin/server_os.c\<close>, \<^verbatim>\<open>win/server_os.c\<close>) and the
  Windows form of the client's connection.  What the operating system answers is an argument.
\<close>

section \<open>Time\<close>

text \<open>\<open>now\<close> is the formatted local time, or \<^const>\<open>None\<close> when \<^verbatim>\<open>localtime_r\<close> fails; a text that
does not fit \<open>len\<close> bytes with its terminator makes \<^verbatim>\<open>strftime\<close> return 0.\<close>

definition current_time_to_string :: "string option \<Rightarrow> nat \<Rightarrow> string option" where
  "current_time_to_string now len =
     (case now of None \<Rightarrow> None | Some t \<Rightarrow> if t = [] \<or> len \<le> length t then None else Some t)"

section \<open>Files\<close>

text \<open>Mode words of the paths that exist (\<^verbatim>\<open>st_mode\<close>), or the attributes on Windows.\<close>

type_synonym modes = "string \<Rightarrow> 32 word option"

definition S_IFREG :: "32 word" where "S_IFREG = 0x8000"
definition S_IFDIR :: "32 word" where "S_IFDIR = 0x4000"

definition move :: "string \<Rightarrow> string \<Rightarrow> modes \<Rightarrow> modes" where
  "move old new fs = (case fs old of None \<Rightarrow> fs | Some x \<Rightarrow> if old = new then fs else fs(new \<mapsto> x, old := None))"

text \<open>The size of the array \<^verbatim>\<open>new_name\<close>, into which \<^verbatim>\<open>sprintf\<close> prints without a bound.\<close>

definition NEW_NAME_SIZE :: nat where
  "NEW_NAME_SIZE = CLIENT_MAX_NAME * 4 + TIME_SIZE + 2"

definition check_old_logfile :: "string option \<Rightarrow> modes \<Rightarrow> string \<Rightarrow> (int \<times> modes) outcome" where
  "check_old_logfile now fs filepath =
     (case fs filepath of
        None \<Rightarrow> Inr (0, fs)
      | Some mode \<Rightarrow>
          if mode AND S_IFREG \<noteq> 0 then
            (case current_time_to_string now TIME_SIZE of
               None \<Rightarrow> Inr (-1, fs)
             | Some t \<Rightarrow>
                 if NEW_NAME_SIZE \<le> length (filepath @ ''.'' @ t) then Inl Undefined
                 else Inr (0, move filepath (filepath @ ''.'' @ t) fs))
          else Inr (-1, fs))"

text \<open>\<^verbatim>\<open>mkdir\<close> succeeds on a path that does not exist.\<close>

definition init_logdir :: "modes \<Rightarrow> string \<Rightarrow> int \<times> modes" where
  "init_logdir fs path =
     (if (case fs path of None \<Rightarrow> 0 | Some mode \<Rightarrow> mode) AND S_IFDIR \<noteq> 0 then (0, fs)
      else if fs path = None then (0, fs(path \<mapsto> S_IFDIR)) else (-1, fs))"

subsection \<open>Windows\<close>

definition INVALID_FILE_ATTRIBUTES :: "32 word" where "INVALID_FILE_ATTRIBUTES = 0xFFFFFFFF"
definition FILE_ATTRIBUTE_NORMAL :: "32 word" where "FILE_ATTRIBUTE_NORMAL = 0x80"
definition FILE_ATTRIBUTE_DIRECTORY :: "32 word" where "FILE_ATTRIBUTE_DIRECTORY = 0x10"
definition MAX_PATH :: nat where "MAX_PATH = 260"

definition GetFileAttributes :: "modes \<Rightarrow> string \<Rightarrow> 32 word" where
  "GetFileAttributes fs path = (case fs path of None \<Rightarrow> INVALID_FILE_ATTRIBUTES | Some a \<Rightarrow> a)"

text \<open>The bound \<^verbatim>\<open>MAX_PATH\<close> given to \<^verbatim>\<open>snprintf\<close> is larger than the array.\<close>

definition check_old_logfile_win :: "string option \<Rightarrow> modes \<Rightarrow> string \<Rightarrow> (int \<times> modes) outcome" where
  "check_old_logfile_win now fs filepath =
     (let fileAttribute = GetFileAttributes fs filepath in
      if fileAttribute \<noteq> INVALID_FILE_ATTRIBUTES then Inr (0, fs)
      else if fileAttribute AND FILE_ATTRIBUTE_NORMAL \<noteq> 0 then
        (case current_time_to_string now TIME_SIZE of
           None \<Rightarrow> Inr (-1, fs)
         | Some t \<Rightarrow>
             if NEW_NAME_SIZE \<le> length (take (MAX_PATH - 1) (filepath @ ''.'' @ t)) then Inl Undefined
             else Inr (0, move filepath (filepath @ ''.'' @ t) fs))
      else Inr (-1, fs))"

definition init_logdir_win :: "modes \<Rightarrow> string \<Rightarrow> int \<times> modes" where
  "init_logdir_win fs path =
     (let fileAttribute = GetFileAttributes fs path in
      if fileAttribute \<noteq> INVALID_FILE_ATTRIBUTES then
        (if fileAttribute AND FILE_ATTRIBUTE_DIRECTORY \<noteq> 0 then (0, fs) else (-1, fs))
      else if fs path = None then (0, fs(path \<mapsto> FILE_ATTRIBUTE_DIRECTORY)) else (-1, fs))"

section \<open>Start of the server\<close>

datatype startup = NoSocket | Serving

text \<open>\<^verbatim>\<open>logmemcache_init_server_os\<close> up to its accept loop, given whether the calls succeed.\<close>

definition logmemcache_init_server_os :: "bool \<Rightarrow> bool \<Rightarrow> bool \<Rightarrow> startup outcome" where
  "logmemcache_init_server_os socket_ok bind_ok listen_ok =
     (if \<not> socket_ok then Inr NoSocket
      else if \<not> bind_ok then Inl (ExitWith 1)
      else if \<not> listen_ok then Inl (ExitWith 1)
      else Inr Serving)"

definition logmemcache_init_server_os_win :: "bool \<Rightarrow> bool \<Rightarrow> bool \<Rightarrow> bool \<Rightarrow> startup outcome" where
  "logmemcache_init_server_os_win wsa_ok socket_ok bind_ok listen_ok =
     (if \<not> wsa_ok then Inr NoSocket
      else if \<not> socket_ok then Inr NoSocket
      else if \<not> bind_ok then Inl (ExitWith 1)
      else if \<not> listen_ok then Inl (ExitWith 1)
      else Inr Serving)"

text \<open>\<^verbatim>\<open>init_client_list\<close>: no caches yet.\<close>

definition init_client_list :: caches where
  "init_client_list = []"

definition server_main :: "string list \<Rightarrow> modes \<Rightarrow> bool \<Rightarrow> bool \<Rightarrow> bool \<Rightarrow> (startup \<times> caches \<times> modes) outcome" where
  "server_main argv fs socket_ok bind_ok listen_ok =
     (let logfile_path = (case argv of [] \<Rightarrow> ''logs_logmemcache'' | a # _ \<Rightarrow> a);
          (rc, fs') = init_logdir fs logfile_path
      in if rc < 0 then Inl (ExitWith (-1))
         else obind (logmemcache_init_server_os socket_ok bind_ok listen_ok) (\<lambda>st. Inr (st, init_client_list, fs')))"

section \<open>The Windows client\<close>

text \<open>The name of the process without \<^verbatim>\<open>.exe\<close>; a name of fewer than four bytes is compared from
before its start.\<close>

definition strip_exe :: "string \<Rightarrow> string outcome" where
  "strip_exe p =
     (if length p < 4 then Inl Undefined
      else if drop (length p - 4) p = ''.exe'' then Inr (take (length p - 4) p) else Inr p)"

definition logmemcache_client_init_os_win ::
  "bool \<Rightarrow> string \<Rightarrow> sock option \<Rightarrow> logmemcache_st \<Rightarrow> string option \<Rightarrow> (int \<times> logmemcache_st) outcome" where
  "logmemcache_client_init_os_win wsa_ok prog conn cl nm =
     (if \<not> wsa_ok then Inr (-1, cl)
      else obind (case nm of None \<Rightarrow> strip_exe prog | Some n \<Rightarrow> Inr n) (\<lambda>p.
        let cl1 = cl\<lparr>name := take (CLIENT_MAX_NAME - 1) p\<rparr>
        in case conn of None \<Rightarrow> Inr (-1, cl1) | Some s \<Rightarrow> Inr (0, cl1\<lparr>socket := s\<rparr>)))"

section \<open>Properties\<close>

text \<open>\<^verbatim>\<open>check_old_logfile\<close> on Unix moves a regular log file of at most 65 bytes of path to
its name with the time behind it, so the path is free afterwards and no other path but the new
one changes; on Windows the test is inverted, so a file that exists is never moved.\<close>

theorem old_logfile_is_moved:
  assumes "fs path = Some mode" "mode AND S_IFREG \<noteq> 0" "length t = TIME_SIZE - 1" "length path \<le> 65"
    and "mode \<noteq> INVALID_FILE_ATTRIBUTES"
  shows "(\<exists>fs'. check_old_logfile (Some t) fs path = Inr (0, fs') \<and> fs' path = None \<and> fs' (path @ ''.'' @ t) = Some mode
      \<and> (\<forall>p. p \<noteq> path \<and> p \<noteq> path @ ''.'' @ t \<longrightarrow> fs' p = fs p))
    \<and> check_old_logfile_win (Some t) fs path = Inr (0, fs)"
proof -
  have t: "current_time_to_string (Some t) TIME_SIZE = Some t"
    using assms(3) by (auto simp: current_time_to_string_def TIME_SIZE_def)
  have "check_old_logfile (Some t) fs path = Inr (0, move path (path @ ''.'' @ t) fs)"
    using assms t by (simp add: check_old_logfile_def NEW_NAME_SIZE_def CLIENT_MAX_NAME_def TIME_SIZE_def)
  moreover have "check_old_logfile_win (Some t) fs path = Inr (0, fs)"
    using assms by (simp add: check_old_logfile_win_def GetFileAttributes_def)
  ultimately show ?thesis using assms(1) by (auto simp: move_def)
qed

theorem old_logfile_is_moved_witness:
  "\<exists>fs'. check_old_logfile (Some ''2021.01.01-10.00.00'') [''db.log'' \<mapsto> 0x81A4] ''db.log'' = Inr (0, fs') \<and> fs' ''db.log'' = None"
proof -
  have "(0x81A4 :: 32 word) AND S_IFREG \<noteq> 0" "(0x81A4 :: 32 word) \<noteq> INVALID_FILE_ATTRIBUTES"
    by (simp_all add: S_IFREG_def INVALID_FILE_ATTRIBUTES_def)
  with old_logfile_is_moved [of "[''db.log'' \<mapsto> 0x81A4]" "''db.log''" "0x81A4" "''2021.01.01-10.00.00''"]
  show ?thesis by (auto simp: TIME_SIZE_def)
qed

text \<open>A regular log file whose path has more than 65 bytes makes the unbounded \<^verbatim>\<open>sprintf\<close> of
\<^verbatim>\<open>check_old_logfile\<close> write past its array, although \<^verbatim>\<open>LOGFILE_NAME_LEN\<close> allows 128.\<close>

theorem long_logfile_path_overflows:
  assumes "fs path = Some mode" "mode AND S_IFREG \<noteq> 0" "length t = TIME_SIZE - 1" "65 < length path"
  shows "check_old_logfile (Some t) fs path = Inl Undefined"
  using assms by (auto simp: check_old_logfile_def current_time_to_string_def NEW_NAME_SIZE_def CLIENT_MAX_NAME_def TIME_SIZE_def)

theorem long_logfile_path_overflows_witness:
  "check_old_logfile (Some ''2021.01.01-10.00.00'') [replicate 66 CHR ''x'' \<mapsto> 0x8000] (replicate 66 CHR ''x'') = Inl Undefined"
  by (rule long_logfile_path_overflows [where mode = "0x8000"]) (simp_all add: S_IFREG_def TIME_SIZE_def)

end
