(* ===== verification/LoaderElf.thy ===== *)
theory LoaderElf
  imports OsFile
begin

unbundle bit_operations_syntax

text \<open>
  The executable parser of the Linux loader, \<^verbatim>\<open>assignments/3-loader/skel-lin/loader/exec_parser.c\<close>,
  and \<^verbatim>\<open>loader.c\<close>.  The program is built for i386: pointers, \<^verbatim>\<open>uintptr_t\<close> and \<^verbatim>\<open>size_t\<close>
  have 32 bits.
\<close>

section \<open>Bytes and words\<close>

type_synonym u32 = "32 word"

text \<open>Little-endian fields at an offset of a byte array.\<close>

definition rd8 :: "byte list \<Rightarrow> nat \<Rightarrow> nat" where
  "rd8 m a = unat (m ! a)"

definition rd16 :: "byte list \<Rightarrow> nat \<Rightarrow> nat" where
  "rd16 m a = rd8 m a + 256 * rd8 m (a + 1)"

definition rd32 :: "byte list \<Rightarrow> nat \<Rightarrow> u32" where
  "rd32 m a = of_nat (rd16 m a + 65536 * rd16 m (a + 2))"

definition ALIGN_DOWN :: "u32 \<Rightarrow> u32 \<Rightarrow> u32" where
  "ALIGN_DOWN v a = v AND NOT (a - 1)"

definition ALIGN_UP :: "u32 \<Rightarrow> u32 \<Rightarrow> u32" where
  "ALIGN_UP v a = (v + (a - 1)) AND NOT (a - 1)"

definition pagesz :: u32 where "pagesz = 4096"
definition PERM_R :: u32 where "PERM_R = 1"
definition PERM_W :: u32 where "PERM_W = 2"
definition PERM_X :: u32 where "PERM_X = 4"
definition BUFSIZE :: nat where "BUFSIZE = 1024"

section \<open>Data\<close>

record so_seg =
  vaddr :: u32
  file_size :: u32
  mem_size :: u32
  offset :: u32
  perm :: u32

record so_exec =
  base_addr :: u32
  entry :: u32
  segments_no :: nat
  segments :: "so_seg list"

text \<open>The fields of \<^verbatim>\<open>Elf32_Ehdr\<close> and \<^verbatim>\<open>Elf32_Phdr\<close> the parser reads (52 and 32 bytes).\<close>

record phdr =
  p_type :: u32
  p_offset :: u32
  p_vaddr :: u32
  p_filesz :: u32
  p_memsz :: u32
  p_flags :: u32

definition phdr_at :: "byte list \<Rightarrow> nat \<Rightarrow> phdr" where
  "phdr_at m a = \<lparr>p_type = rd32 m a, p_offset = rd32 m (a + 4), p_vaddr = rd32 m (a + 8),
     p_filesz = rd32 m (a + 16), p_memsz = rd32 m (a + 20), p_flags = rd32 m (a + 24)\<rparr>"

section \<open>Parsing\<close>

text \<open>The checks on the ELF header, in the order of the code; \<open>hdr\<close> is the buffer.\<close>

definition header_ok :: "byte list \<Rightarrow> bool" where
  "header_ok hdr \<longleftrightarrow> rd8 hdr 0 = 127 \<and> rd8 hdr 1 = 69 \<and> rd8 hdr 2 = 76 \<and> rd8 hdr 3 = 70
     \<and> rd8 hdr 4 = 1 \<and> rd8 hdr 5 = 1 \<and> rd8 hdr 6 = 1 \<and> (rd8 hdr 7 = 3 \<or> rd8 hdr 7 = 0)
     \<and> rd16 hdr 16 = 2 \<and> rd16 hdr 18 = 3 \<and> rd32 hdr 20 = 1"

definition e_entry :: "byte list \<Rightarrow> u32" where "e_entry hdr = rd32 hdr 24"
definition e_phoff :: "byte list \<Rightarrow> nat" where "e_phoff hdr = unat (rd32 hdr 28)"
definition e_phentsize :: "byte list \<Rightarrow> nat" where "e_phentsize hdr = rd16 hdr 42"
definition e_phnum :: "byte list \<Rightarrow> nat" where "e_phnum hdr = rd16 hdr 44"

text \<open>The body of the second loop: a loadable program header becomes a segment.\<close>

definition so_segment :: "phdr \<Rightarrow> so_seg" where
  "so_segment p =
     (let va = ALIGN_DOWN (p_vaddr p) pagesz; diff = p_vaddr p - va
      in \<lparr>vaddr = va, file_size = p_filesz p + diff, mem_size = p_memsz p + diff, offset = p_offset p - diff,
          perm = (if p_flags p AND 1 \<noteq> 0 then PERM_X else 0) OR (if p_flags p AND 4 \<noteq> 0 then PERM_R else 0)
            OR (if p_flags p AND 2 \<noteq> 0 then PERM_W else 0)\<rparr>)"

text \<open>The two loops over the program headers.\<close>

primrec count_load :: "phdr list \<Rightarrow> nat" where
  "count_load [] = 0"
| "count_load (p # ps) = (if p_type p = 1 then Suc (count_load ps) else count_load ps)"

primrec add_segments :: "phdr list \<Rightarrow> u32 \<Rightarrow> so_seg list \<Rightarrow> u32 \<times> so_seg list" where
  "add_segments [] base segs = (base, segs)"
| "add_segments (p # ps) base segs =
     (if p_type p = 1 then
        let s = so_segment p in add_segments ps (if vaddr s < base then vaddr s else base) (segs @ [s])
      else add_segments ps base segs)"

text \<open>
  \<^verbatim>\<open>so_parse_exec\<close> on what \<^verbatim>\<open>open\<close> gives; \<open>junk\<close> is what the buffer holds before the
  \<^verbatim>\<open>read\<close>.  \<^const>\<open>None\<close> is the null result.  The product of the two 16-bit fields is an
  \<^verbatim>\<open>int\<close>; a program header outside the buffer is an access outside an object.
\<close>

definition so_parse_exec :: "byte list \<Rightarrow> kfile option \<Rightarrow> so_exec option outcome" where
  "so_parse_exec junk f =
     (case f of
        None \<Rightarrow> Inr None
      | Some k \<Rightarrow>
          (case sys_read k BUFSIZE of
             (None, _) \<Rightarrow> Inr None
           | (Some bs, _) \<Rightarrow>
               if length bs < 52 + 32 then Inr None
               else
                 let hdr = bs @ drop (length bs) junk; n = e_phnum hdr in
                 if \<not> header_ok hdr then Inr None
                 else if INT_MAX < int (n * e_phentsize hdr) then Inl Undefined
                 else if length bs < 52 + n * e_phentsize hdr then Inr None
                 else if 0 < n \<and> BUFSIZE < e_phoff hdr + 32 * n then Inl Undefined
                 else
                   let ps = map (\<lambda>i. phdr_at hdr (e_phoff hdr + 32 * i)) [0..<n];
                       (base, segs) = add_segments ps 0xffffffff []
                   in Inr (Some \<lparr>base_addr = base, entry = e_entry hdr, segments_no = count_load ps, segments = segs\<rparr>)))"

section \<open>Starting\<close>

text \<open>Memory of the process, by address.\<close>

type_synonym memory = "u32 \<Rightarrow> byte"

definition mem32 :: "memory \<Rightarrow> u32 \<Rightarrow> u32" where
  "mem32 m a = of_nat (unat (m a) + 256 * unat (m (a + 1)) + 65536 * unat (m (a + 2)) + 16777216 * unat (m (a + 3)))"

text \<open>
  \<^verbatim>\<open>fix_auxv\<close> works on the words of the stack.  \<^verbatim>\<open>environ\<close> is the index of the first
  environment pointer: the auxiliary vector, pairs of a type and a value up to the type 0,
  begins behind the null pointer that ends the environment.  A search that meets the end of the
  stack reads outside it.
\<close>

fun fix_pairs :: "memory \<Rightarrow> u32 \<Rightarrow> u32 list \<Rightarrow> u32 list outcome" where
  "fix_pairs m base [] = Inl Undefined"
| "fix_pairs m base [t] = (if t = 0 then Inr [t] else Inl Undefined)"
| "fix_pairs m base (t # v # rest) =
     (if t = 0 then Inr (t # v # rest)
      else obind (fix_pairs m base rest) (\<lambda>rest'.
        Inr (t # (if t = 3 then base + mem32 m (base + 28)
                  else if t = 7 then 0
                  else if t = 9 then mem32 m (base + 24)
                  else if t = 31 then 0
                  else v) # rest')))"

definition fix_auxv :: "memory \<Rightarrow> u32 \<Rightarrow> u32 list \<Rightarrow> nat \<Rightarrow> u32 list outcome" where
  "fix_auxv m base stack environ =
     (let n = environ + length (takeWhile (\<lambda>w. w \<noteq> 0) (drop environ stack)) in
      if length stack \<le> n then Inl Undefined
      else obind (fix_pairs m base (drop (n + 1) stack)) (\<lambda>auxv. Inr (take (n + 1) stack @ auxv)))"

text \<open>
  \<^verbatim>\<open>so_start_exec\<close>; \<^verbatim>\<open>argv\<close> is the index of its first argument pointer.  The word before
  it becomes the argument count, one less than the word before that, and the stack of the
  program starts there: the result is the stack, that index, and the address jumped to.
\<close>

definition so_start_exec :: "memory \<Rightarrow> so_exec \<Rightarrow> u32 list \<Rightarrow> nat \<Rightarrow> nat \<Rightarrow> (u32 list \<times> nat \<times> u32) outcome" where
  "so_start_exec m exec stack environ argv =
     obind (fix_auxv m (base_addr exec) stack environ) (\<lambda>stack'.
       if argv < 2 \<or> length stack' < argv \<or> stack' ! (argv - 2) = 0x80000000 then Inl Undefined
       else Inr (stack'[argv - 1 := stack' ! (argv - 2) - 1], argv - 1, entry exec))"

text \<open>\<^verbatim>\<open>loader.c\<close>: the loader is not initialised, and executing starts a parsed file.\<close>

definition so_init_loader :: int where
  "so_init_loader = -1"

definition so_execute :: "byte list \<Rightarrow> memory \<Rightarrow> kfile option \<Rightarrow> u32 list \<Rightarrow> nat \<Rightarrow> nat \<Rightarrow> (int + u32 list \<times> nat \<times> u32) outcome" where
  "so_execute junk m f stack environ argv =
     obind (so_parse_exec junk f) (\<lambda>exec.
       case exec of
         None \<Rightarrow> Inr (Inl (-1))
       | Some x \<Rightarrow> obind (so_start_exec m x stack environ argv) (\<lambda>st. Inr (Inr st)))"

section \<open>Facts\<close>

lemma count_load_filter: "count_load ps = length (filter (\<lambda>p. p_type p = 1) ps)"
  by (induction ps) auto

lemma add_segments_eq:
  "add_segments ps base segs =
     (fold (\<lambda>s b. min (vaddr s) b) (map so_segment (filter (\<lambda>p. p_type p = 1) ps)) base,
      segs @ map so_segment (filter (\<lambda>p. p_type p = 1) ps))"
  by (induction ps arbitrary: base segs) (auto simp: Let_def min_def)

lemma fold_min:
  fixes b :: "'a :: linorder"
  shows "fold (\<lambda>s b. min (f s) b) xs b = Min (insert b (f ` set xs))"
proof (induction xs arbitrary: b)
  case (Cons x xs)
  have "Min (insert (min (f x) b) (f ` set xs)) = Min (insert b (f ` set (x # xs)))"
    by (cases "xs = []") (simp_all add: min.assoc min.commute min.left_commute)
  with Cons show ?case by simp
qed simp

section \<open>Properties\<close>

lemma page_mask: "pagesz - 1 = mask 12"
  by (simp add: pagesz_def mask_eq_exp_minus_1)

lemma align_split: "take_bit 12 v + ALIGN_DOWN v pagesz = v"
proof -
  have "take_bit 12 v AND ALIGN_DOWN v pagesz = 0"
    unfolding ALIGN_DOWN_def page_mask by (rule bit_word_eqI) (simp add: bit_simps)
  then have "take_bit 12 v + ALIGN_DOWN v pagesz = take_bit 12 v OR ALIGN_DOWN v pagesz"
    by (rule disjunctive_add_eq_or)
  also have "\<dots> = v"
    unfolding ALIGN_DOWN_def page_mask by (rule bit_word_eqI) (auto simp: bit_simps)
  finally show ?thesis .
qed

lemma align_low: "take_bit 12 (ALIGN_DOWN v pagesz) = 0"
  unfolding ALIGN_DOWN_def page_mask by (rule bit_word_eqI) (auto simp: bit_simps)

lemma align_diff: "v - ALIGN_DOWN v pagesz = take_bit 12 v"
  using align_split [of v] by (metis add_diff_cancel_right')

lemma align_le: "ALIGN_DOWN v pagesz \<le> v"
  unfolding ALIGN_DOWN_def by (rule word_and_le2)

lemma take_bit_diff_page:
  assumes "(take_bit 12 a :: u32) = take_bit 12 b"
  shows "take_bit 12 (a - take_bit 12 b) = 0"
proof -
  have "a - take_bit 12 b = ALIGN_DOWN a pagesz"
    using align_diff [of a] assms by (simp add: algebra_simps)
  then show ?thesis by (simp add: align_low)
qed

text \<open>The geometry of a segment made from a program header: it starts on the page of
\<^verbatim>\<open>p_vaddr\<close>, less than a page before it, reaches to the same end in memory and in the file, and
begins in the file as far before \<^verbatim>\<open>p_offset\<close>; when the linker kept file offset and address
congruent modulo the page size, the file offset is page aligned, so the segment can be mapped.\<close>

theorem segment_geometry:
  "take_bit 12 (vaddr (so_segment p)) = 0 \<and> vaddr (so_segment p) \<le> p_vaddr p
   \<and> unat (p_vaddr p - vaddr (so_segment p)) < 4096
   \<and> vaddr (so_segment p) + mem_size (so_segment p) = p_vaddr p + p_memsz p
   \<and> offset (so_segment p) + file_size (so_segment p) = p_offset p + p_filesz p
   \<and> offset (so_segment p) + (p_vaddr p - vaddr (so_segment p)) = p_offset p
   \<and> (take_bit 12 (p_offset p) = take_bit 12 (p_vaddr p) \<longrightarrow> take_bit 12 (offset (so_segment p)) = 0)"
proof -
  have "unat (take_bit 12 (p_vaddr p)) < 4096"
    using take_bit_nat_less_exp [of 12 "unat (p_vaddr p)"] by (simp add: unsigned_take_bit_eq)
  moreover have "ALIGN_DOWN (p_vaddr p) pagesz + (x + take_bit 12 (p_vaddr p)) = p_vaddr p + x" for x
    using align_split [of "p_vaddr p"] by (metis add.assoc add.commute)
  ultimately show ?thesis
    using take_bit_diff_page [of "p_offset p" "p_vaddr p"]
    by (simp add: so_segment_def Let_def align_low align_le align_diff)
qed

lemma segment_geometry_witness:
  "take_bit 12 (offset (so_segment \<lparr>p_type = 1, p_offset = 0x1f08, p_vaddr = 0x804bf08, p_filesz = 0x120,
      p_memsz = 0x124, p_flags = 6\<rparr>)) = 0"
  using segment_geometry [of "\<lparr>p_type = 1, p_offset = 0x1f08, p_vaddr = 0x804bf08, p_filesz = 0x120,
      p_memsz = 0x124, p_flags = 6\<rparr>"] by simp

text \<open>The program headers of a file, by its bytes.\<close>

definition phdrs :: "byte list \<Rightarrow> phdr list" where
  "phdrs c = map (\<lambda>i. phdr_at c (e_phoff c + 32 * i)) [0..<e_phnum c]"

definition agree :: "nat \<Rightarrow> byte list \<Rightarrow> byte list \<Rightarrow> bool" where
  "agree n m m' \<longleftrightarrow> (\<forall>a<n. m ! a = m' ! a)"

lemma rd_agree:
  assumes "agree n m m'"
  shows "a < n \<Longrightarrow> rd8 m a = rd8 m' a" and "a + 1 < n \<Longrightarrow> rd16 m a = rd16 m' a"
    and "a + 3 < n \<Longrightarrow> rd32 m a = rd32 m' a"
  using assms by (auto simp: agree_def rd8_def rd16_def rd32_def)

lemma header_agree:
  assumes "agree n m m'" and "84 \<le> n"
  shows "header_ok m = header_ok m'" "e_entry m = e_entry m'" "e_phoff m = e_phoff m'"
    "e_phnum m = e_phnum m'" "e_phentsize m = e_phentsize m'"
  using assms(2) by (simp_all add: header_ok_def e_entry_def e_phoff_def e_phnum_def e_phentsize_def
    rd_agree [OF assms(1)])

lemma phdr_agree:
  "agree n m m' \<Longrightarrow> a + 32 \<le> n \<Longrightarrow> phdr_at m a = phdr_at m' a"
  by (simp add: phdr_at_def rd_agree [of n m m'])

lemma buffer_agree: "agree (min N (length c)) (take N c @ x) c"
  by (auto simp: agree_def nth_append)

lemma phdrs_agree:
  assumes "agree n m m'" and "84 \<le> n" and "e_phoff m' + 32 * e_phnum m' \<le> n"
  shows "phdrs m = phdrs m'"
proof -
  have "phdr_at m (e_phoff m' + 32 * i) = phdr_at m' (e_phoff m' + 32 * i)" if "i < e_phnum m'" for i
    using phdr_agree [OF assms(1), of "e_phoff m' + 32 * i"] assms(3) that by simp
  then show ?thesis by (simp add: phdrs_def header_agree [OF assms(1,2)])
qed

text \<open>What is left of the parser when the header is accepted.\<close>

lemma parse_accepted:
  assumes "plan k = []" "readable k" "koff k = 0" and "content k = c" and "84 \<le> length c"
    and "header_ok c" and "52 + e_phnum c * e_phentsize c \<le> min BUFSIZE (length c)"
  shows "so_parse_exec junk (Some k) =
      (if 0 < e_phnum c \<and> BUFSIZE < e_phoff c + 32 * e_phnum c then Inl Undefined
       else let ps = phdrs (take BUFSIZE c @ drop (length (take BUFSIZE c)) junk); (base, segs) = add_segments ps 0xffffffff []
         in Inr (Some \<lparr>base_addr = base, entry = e_entry c, segments_no = count_load ps, segments = segs\<rparr>))"
proof -
  let ?hdr = "take BUFSIZE c @ drop (length (take BUFSIZE c)) junk"
  have l: "84 \<le> min BUFSIZE (length c)" using assms(5) by (simp add: BUFSIZE_def)
  note g = header_agree [OF buffer_agree l]
  have r: "sys_read k BUFSIZE = (Some (take BUFSIZE c), k\<lparr>koff := length (take BUFSIZE c)\<rparr>)"
    using assms(1-4) by (simp add: sys_read_full)
  have "\<not> INT_MAX < int (e_phnum c * e_phentsize c)"
    using assms(7) by (simp add: INT_MAX_def BUFSIZE_def del: of_nat_mult)
  moreover have "\<not> length (take BUFSIZE c) < 52 + 32" "\<not> length (take BUFSIZE c) < 52 + e_phnum c * e_phentsize c"
    using l assms(7) by auto
  moreover have "phdrs ?hdr = map (\<lambda>i. phdr_at ?hdr (e_phoff c + 32 * i)) [0..<e_phnum c]"
    by (simp add: phdrs_def g)
  ultimately show ?thesis
    using assms(6) r by (simp add: so_parse_exec_def Let_def g del: of_nat_mult length_take)
qed

text \<open>C24: Parsing a file whose header is accepted and whose program headers lie in the part that
is read: the segments are made from the loadable headers, in their order, the count says how many
there are, the entry point is that of the header, and the base is the lowest segment address.\<close>

theorem parse_gives_segments:
  assumes "plan k = []" "readable k" "koff k = 0" and "content k = c" and "84 \<le> length c"
    and "header_ok c" and "52 + e_phnum c * e_phentsize c \<le> min BUFSIZE (length c)"
    and "e_phoff c + 32 * e_phnum c \<le> min BUFSIZE (length c)"
  shows "so_parse_exec junk (Some k) =
    (let segs = map so_segment (filter (\<lambda>p. p_type p = 1) (phdrs c)) in
     Inr (Some \<lparr>base_addr = Min (insert 0xffffffff (vaddr ` set segs)), entry = e_entry c,
       segments_no = length segs, segments = segs\<rparr>))"
proof -
  have "84 \<le> min BUFSIZE (length c)" using assms(5) by (simp add: BUFSIZE_def)
  note ph = phdrs_agree [OF buffer_agree this assms(8)]
  have "\<not> BUFSIZE < e_phoff c + 32 * e_phnum c" using assms(8) by simp
  then show ?thesis
    unfolding parse_accepted [OF assms(1-7)] ph
    by (simp add: add_segments_eq count_load_filter fold_min Let_def)
qed

text \<open>A file of two program headers: one loadable, at address 0x8048100, and a note.\<close>

definition sample_header :: "nat \<Rightarrow> byte list" where
  "sample_header phoff = [127, 69, 76, 70, 1, 1, 1, 0, 0, 0, 0, 0, 0, 0, 0, 0, 2, 0, 3, 0, 1, 0, 0, 0,
     0x50, 0x81, 4, 8, of_nat (phoff mod 256), of_nat (phoff div 256), 0, 0, 0, 0, 0, 0, 0, 0, 0, 0,
     52, 0, 32, 0, 2, 0, 0, 0, 0, 0, 0, 0]"

definition sample_elf :: "nat \<Rightarrow> byte list" where
  "sample_elf phoff = sample_header phoff
     @ [1, 0, 0, 0, 0, 1, 0, 0, 0, 0x81, 4, 8, 0, 0x81, 4, 8, 0x80, 0, 0, 0, 0, 1, 0, 0, 5, 0, 0, 0, 0, 0x10, 0, 0,
        4, 0, 0, 0, 0, 0, 0, 0, 0, 0, 0, 0, 0, 0, 0, 0, 0, 0, 0, 0, 0, 0, 0, 0, 0, 0, 0, 0, 0, 0, 0, 0]"

definition sample_file :: "nat \<Rightarrow> kfile" where
  "sample_file phoff = \<lparr>content = sample_elf phoff, koff = 0, kappend = False, readable = True, writable = False,
     seekable = True, plan = []\<rparr>"

lemmas elf_fields = header_ok_def e_entry_def e_phoff_def e_phnum_def e_phentsize_def phdr_at_def
  rd8_def rd16_def rd32_def sample_elf_def sample_header_def

lemma sample_fields:
  "header_ok (sample_elf 52)" "header_ok (sample_elf 8192)" "e_phnum (sample_elf n) = 2" "e_phentsize (sample_elf n) = 32"
  "e_phoff (sample_elf 52) = 52" "e_phoff (sample_elf 8192) = 8192" "length (sample_elf n) = 116"
  by (simp_all add: elf_fields)

lemma parse_gives_segments_witness:
  "\<exists>x. so_parse_exec [] (Some (sample_file 52)) = Inr (Some x) \<and> segments_no x = 1 \<and> base_addr x = 0x8048000"
proof -
  have p: "phdrs (sample_elf 52) = [phdr_at (sample_elf 52) 52, phdr_at (sample_elf 52) 84]"
    by (simp add: phdrs_def sample_fields upt_rec)
  have "p_type (phdr_at (sample_elf 52) 52) = 1" "p_vaddr (phdr_at (sample_elf 52) 52) = 0x8048100"
    "p_type (phdr_at (sample_elf 52) 84) = 4"
    by (simp_all add: elf_fields)
  then show ?thesis
    using parse_gives_segments [of "sample_file 52" "sample_elf 52" "[]"]
    by (simp add: sample_file_def sample_fields BUFSIZE_def p so_segment_def Let_def ALIGN_DOWN_def pagesz_def min_def)
qed

text \<open>The offset of the program headers is not checked: a file whose header passes every
check, and whose program headers are said to lie behind the buffer, makes the parser read outside
the buffer.\<close>

theorem phoff_is_trusted:
  assumes "plan k = []" "readable k" "koff k = 0" and "content k = c" and "84 \<le> length c"
    and "header_ok c" and "52 + e_phnum c * e_phentsize c \<le> min BUFSIZE (length c)"
    and "0 < e_phnum c" and "BUFSIZE < e_phoff c + 32 * e_phnum c"
  shows "so_parse_exec junk (Some k) = Inl Undefined"
  using parse_accepted [OF assms(1-7)] assms(8,9) by simp

lemma phoff_is_trusted_witness:
  "so_parse_exec [] (Some (sample_file 8192)) = Inl Undefined"
  by (rule phoff_is_trusted [of _ "sample_elf 8192"]) (simp_all add: sample_file_def sample_fields BUFSIZE_def)

section \<open>The auxiliary vector\<close>

text \<open>What an entry should become: the program headers and the entry point of the loaded image, no
interpreter and no file name.\<close>

definition fixed_value :: "memory \<Rightarrow> u32 \<Rightarrow> u32 \<times> u32 \<Rightarrow> u32" where
  "fixed_value m base tv =
     (if fst tv = 3 then base + mem32 m (base + 28) else if fst tv \<in> {7, 31} then 0
      else if fst tv = 9 then mem32 m (base + 24) else snd tv)"

definition flat :: "(u32 \<times> u32) list \<Rightarrow> u32 list" where
  "flat avs = concat (map (\<lambda>tv. [fst tv, snd tv]) avs)"

lemma fix_pairs_flat:
  "\<forall>tv \<in> set avs. fst tv \<noteq> 0 \<Longrightarrow>
   fix_pairs m base (flat avs @ 0 # r) = Inr (flat (map (\<lambda>tv. (fst tv, fixed_value m base tv)) avs) @ 0 # r)"
proof (induction avs)
  case Nil
  then show ?case by (cases r) (simp_all add: flat_def)
qed (simp_all add: flat_def fixed_value_def)

text \<open>Starting a program corrects exactly the four entries of the auxiliary vector that
describe the image, wherever they are, leaves the rest of the stack alone but for the argument
count, which it makes one less, and jumps to the entry point of the file.\<close>

theorem start_fixes_stack:
  assumes "0 \<notin> set env" and "\<forall>tv \<in> set avs. fst tv \<noteq> 0" and "argc \<noteq> 0x80000000"
  shows "so_start_exec m exec (argc # a0 # args @ 0 # env @ 0 # flat avs @ 0 # r) (length args + 3) 2
     = Inr (argc # (argc - 1) # args @ 0 # env @ 0 # flat (map (\<lambda>tv. (fst tv, fixed_value m (base_addr exec) tv)) avs) @ 0 # r,
         1, entry exec)"
proof -
  let ?pre = "argc # a0 # args @ [0]"
  have n: "length args + 3 = length ?pre" by simp
  have t: "takeWhile (\<lambda>w. w \<noteq> 0) (env @ 0 # x) = env" for x
    using assms(1) by (subst takeWhile_append2) auto
  have "fix_auxv m (base_addr exec) (?pre @ env @ 0 # flat avs @ 0 # r) (length ?pre)
      = Inr (?pre @ env @ 0 # flat (map (\<lambda>tv. (fst tv, fixed_value m (base_addr exec) tv)) avs) @ 0 # r)"
    unfolding fix_auxv_def by (simp add: Let_def t fix_pairs_flat [OF assms(2)])
  with assms(3) show ?thesis unfolding so_start_exec_def n by (simp add: list_update_append numeral_2_eq_2)
qed

lemma start_fixes_stack_witness:
  "so_start_exec (\<lambda>_. 0) \<lparr>base_addr = 0x8048000, entry = 0x8048150, segments_no = 0, segments = []\<rparr>
     [2, 100, 200, 0, 300, 0, 3, 77, 9, 88, 6, 4096, 0, 0] 4 2
   = Inr ([2, 1, 200, 0, 300, 0, 3, 0x8048000, 9, 0, 6, 4096, 0, 0], 1, 0x8048150)"
  using start_fixes_stack [of "[300]" "[(3, 77), (9, 88), (6, 4096)]" 2 "\<lambda>_. 0"
      "\<lparr>base_addr = 0x8048000, entry = 0x8048150, segments_no = 0, segments = []\<rparr>" 100 "[200]" "[0]"]
  by (simp add: flat_def fixed_value_def mem32_def)

end
