(* ===== verification/LoaderPe.thy ===== *)
theory LoaderPe
  imports LoaderElf
begin

text \<open>
  The executable parser of the Windows loader, \<^verbatim>\<open>assignments/3-loader/skel-win/loader/exec_parser.c\<close>.
  It is built for 32 bits; \<^verbatim>\<open>ReadFile\<close> is the \<^verbatim>\<open>read\<close> of the file model, and succeeds with no
  bytes at the end of a file.
\<close>

section \<open>Reading headers\<close>

text \<open>
  The loop of \<^verbatim>\<open>readHeader\<close>; \<open>n\<close> is \<^verbatim>\<open>size - totalBytesRead\<close>.  The inner \<^const>\<open>None\<close> is a
  failed call, the outer one a loop that never ends.
\<close>

partial_function (option) read_loop :: "kfile \<Rightarrow> nat \<Rightarrow> byte list \<Rightarrow> (byte list option \<times> kfile) option" where
  "read_loop k n acc =
     (case sys_read k n of
        (None, k') \<Rightarrow> Some (None, k')
      | (Some bs, k') \<Rightarrow>
          if length bs < n then read_loop k' (n - length bs) (acc @ bs) else Some (Some (acc @ bs), k'))"

declare read_loop.simps [code]

text \<open>
  \<^verbatim>\<open>SetFilePointer\<close> takes the offset as a signed number and refuses a negative one.  The
  last component counts the calls of \<^verbatim>\<open>CloseHandle\<close>: a failure closes the file.
\<close>

definition readHeader :: "kfile \<Rightarrow> u32 \<Rightarrow> nat \<Rightarrow> (byte list option \<times> kfile \<times> nat) option" where
  "readHeader k off n =
     (if sint off < 0 then Some (None, k, 1)
      else Option.bind (read_loop (sys_lseek k (sint off)) n [])
        (\<lambda>(r, k'). Some (r, k', if r = None then 1 else 0)))"

section \<open>Parsing\<close>

text \<open>Fields of the DOS header, the NT headers and a section header, by their offsets.\<close>

definition DOS_SIZE :: nat where "DOS_SIZE = 64"
definition NT_SIZE :: nat where "NT_SIZE = 248"
definition SECTION_SIZE :: nat where "SECTION_SIZE = 40"

definition pe_segment :: "u32 \<Rightarrow> byte list \<Rightarrow> nat \<Rightarrow> so_seg" where
  "pe_segment img sec a =
     \<lparr>vaddr = img + rd32 sec (a + 12), file_size = rd32 sec (a + 16), mem_size = rd32 sec (a + 8),
      offset = rd32 sec (a + 20),
      perm = (if rd32 sec (a + 36) AND 0x40000000 \<noteq> 0 then PERM_R else 0)
        OR (if rd32 sec (a + 36) AND 0x80000000 \<noteq> 0 then PERM_W else 0)
        OR (if rd32 sec (a + 36) AND 0x20000000 \<noteq> 0 then PERM_X else 0)\<rparr>"

text \<open>The structure made from the NT headers and the section headers.\<close>

definition pe_exec :: "byte list \<Rightarrow> byte list \<Rightarrow> so_exec" where
  "pe_exec nt sec =
     (let img = rd32 nt 52; n = rd16 nt 6 in
      \<lparr>base_addr = img, entry = img + rd32 nt 40, segments_no = n + 1,
       segments = map (\<lambda>i. pe_segment img sec (SECTION_SIZE * i)) [0..<n]
         @ [\<lparr>vaddr = img, file_size = rd32 nt 84, mem_size = rd32 nt 84, offset = 0, perm = PERM_R\<rparr>]\<rparr>)"

text \<open>\<^verbatim>\<open>so_parse_exec\<close>: the result and how often the handle was closed.\<close>

definition so_parse_exec_pe :: "kfile option \<Rightarrow> (so_exec option \<times> nat) option" where
  "so_parse_exec_pe f =
     (case f of
        None \<Rightarrow> Some (None, 0)
      | Some k \<Rightarrow>
          Option.bind (readHeader k 0 DOS_SIZE) (\<lambda>(dos, k1, c1).
            case dos of
              None \<Rightarrow> Some (None, c1 + 1)
            | Some dosHdr \<Rightarrow>
                if rd16 dosHdr 0 \<noteq> 0x5a4d then Some (None, c1 + 1)
                else
                  Option.bind (readHeader k1 (rd32 dosHdr 60) NT_SIZE) (\<lambda>(nt, k2, c2).
                    case nt of
                      None \<Rightarrow> Some (None, c1 + c2 + 1)
                    | Some peHdr \<Rightarrow>
                        if rd32 peHdr 0 \<noteq> 0x4550 then Some (None, c1 + c2 + 1)
                        else
                          Option.bind (readHeader k2 (rd32 dosHdr 60 + of_nat NT_SIZE) (rd16 peHdr 6 * SECTION_SIZE))
                            (\<lambda>(sec, k3, c3).
                              case sec of
                                None \<Rightarrow> Some (None, c1 + c2 + c3 + 1)
                              | Some secHdr \<Rightarrow> Some (Some (pe_exec peHdr secHdr), c1 + c2 + c3 + 1)))))"

section \<open>Imports\<close>

definition put32 :: "memory \<Rightarrow> u32 \<Rightarrow> u32 \<Rightarrow> memory" where
  "put32 m a v = m(a := ucast v, a + 1 := ucast (drop_bit 8 v), a + 2 := ucast (drop_bit 16 v), a + 3 := ucast (drop_bit 24 v))"

text \<open>
  The inner loop of \<^verbatim>\<open>SolveImports\<close>: one library, its table of names and its table of
  addresses.  \<open>proc\<close> is \<^verbatim>\<open>GetProcAddress\<close>: it sees the memory, the module, and an ordinal or
  the address of a name, and answers 0 when there is no such function.
\<close>

partial_function (option) solve_thunks :: "(memory \<Rightarrow> u32 \<Rightarrow> u32 \<Rightarrow> u32) \<Rightarrow> u32 \<Rightarrow> u32 \<Rightarrow> memory \<Rightarrow> u32 \<Rightarrow> u32 \<Rightarrow> (bool \<times> memory) option" where
  "solve_thunks proc base h m oft ft =
     (let w = mem32 m oft in
      if w = 0 then Some (True, m)
      else
        let addr = (if w AND 0x80000000 \<noteq> 0 then proc m h (w AND 0xffff) else proc m h (base + w + 2)) in
        if addr = 0 then Some (False, m)
        else solve_thunks proc base h (put32 m ft addr) (oft + 4) (ft + 4))"

partial_function (option) solve_descriptors :: "(memory \<Rightarrow> u32 \<Rightarrow> u32) \<Rightarrow> (memory \<Rightarrow> u32 \<Rightarrow> u32 \<Rightarrow> u32) \<Rightarrow> u32 \<Rightarrow> memory \<Rightarrow> u32 \<Rightarrow> (bool \<times> memory) option" where
  "solve_descriptors lib proc base m d =
     (if mem32 m d = 0 then Some (True, m)
      else
        let h = lib m (base + mem32 m (d + 12)) in
        if h = 0 then Some (False, m)
        else Option.bind (solve_thunks proc base h m (base + mem32 m d) (base + mem32 m (d + 16)))
          (\<lambda>(ok, m'). if ok then solve_descriptors lib proc base m' (d + 20) else Some (False, m')))"

declare solve_thunks.simps [code] solve_descriptors.simps [code]

text \<open>\<open>lib\<close> is \<^verbatim>\<open>LoadLibrary\<close>; \<open>pe\<close> is the address of the NT headers in memory.\<close>

definition SolveImports :: "(memory \<Rightarrow> u32 \<Rightarrow> u32) \<Rightarrow> (memory \<Rightarrow> u32 \<Rightarrow> u32 \<Rightarrow> u32) \<Rightarrow> u32 \<Rightarrow> u32 \<Rightarrow> memory \<Rightarrow> (bool \<times> memory) option" where
  "SolveImports lib proc base pe m =
     (if mem32 m (pe + 132) = 0 then Some (True, m)
      else solve_descriptors lib proc base m (base + mem32 m (pe + 128)))"

text \<open>\<^verbatim>\<open>so_start_exec\<close>: the memory and the address called; the result of \<^verbatim>\<open>SolveImports\<close> is not
looked at.\<close>

definition so_start_exec_pe :: "(memory \<Rightarrow> u32 \<Rightarrow> u32) \<Rightarrow> (memory \<Rightarrow> u32 \<Rightarrow> u32 \<Rightarrow> u32) \<Rightarrow> so_exec \<Rightarrow> memory \<Rightarrow> (memory \<times> u32) option" where
  "so_start_exec_pe lib proc exec m =
     map_option (\<lambda>(_, m'). (m', entry exec))
       (SolveImports lib proc (base_addr exec) (mem32 m (base_addr exec + 60) + base_addr exec) m)"

section \<open>Reading\<close>

lemma read_loop_ok:
  assumes "steady_read c k" and "n \<le> length (unread k)"
  shows "\<exists>k'. read_loop k n acc = Some (Some (acc @ take n (unread k)), k') \<and> steady_read c k'"
  using assms
proof (induction "n + length (plan k)" arbitrary: n k acc rule: less_induct)
  case less
  obtain m k1 where r: "sys_read k n = (Some (take m (unread k)), k1)" "m \<le> n" "steady_read c k1"
    "unread k1 = drop m (unread k)" "m = n \<or> length (plan k1) < length (plan k)"
    using sys_read_steady [OF less.prems(1)] by blast
  show ?case
  proof (cases "m = n")
    case True
    with r less.prems show ?thesis by (simp add: read_loop.simps [of k])
  next
    case False
    with r have lt: "n - m + length (plan k1) < n + length (plan k)" by simp
    obtain k' where "read_loop k1 (n - m) (acc @ take m (unread k))
        = Some (Some ((acc @ take m (unread k)) @ take (n - m) (unread k1)), k')" "steady_read c k'"
      using less.hyps [OF lt r(3), of "acc @ take m (unread k)"] r less.prems by fastforce
    moreover have "take m (unread k) @ take (n - m) (unread k1) = take n (unread k)"
      using r by (metis le_add_diff_inverse take_add)
    ultimately show ?thesis
      using False r less.prems by (simp add: read_loop.simps [of k])
  qed
qed

lemma read_loop_short:
  assumes "steady_read c k" and "length (unread k) < n"
  shows "read_loop k n acc = None"
proof -
  have "\<not> (steady_read c k \<and> length (unread k) < n)" if "read_loop k n acc = Some y" for y
  proof (rule read_loop.raw_induct [where P = "\<lambda>k n acc y. \<not> (steady_read c k \<and> length (unread k) < n)", OF _ that])
    fix f k n acc y
    assume ih: "\<And>k n acc y. f k n acc = Some y \<Longrightarrow> \<not> (steady_read c k \<and> length (unread k) < n)"
      and eq: "(case sys_read k n of (None, k') \<Rightarrow> Some (None, k')
        | (Some bs, k') \<Rightarrow> if length bs < n then f k' (n - length bs) (acc @ bs) else Some (Some (acc @ bs), k')) = Some y"
    show "\<not> (steady_read c k \<and> length (unread k) < n)"
    proof
      assume k: "steady_read c k \<and> length (unread k) < n"
      then obtain m k1 where r: "sys_read k n = (Some (take m (unread k)), k1)" "m \<le> n" "steady_read c k1"
        "unread k1 = drop m (unread k)"
        using sys_read_steady [of c k n] by blast
      from eq r k have "f k1 (n - length (take m (unread k))) (acc @ take m (unread k)) = Some y"
        by (auto split: if_splits)
      from ih [OF this] r k show False by auto
    qed
  qed
  with assms show ?thesis by (cases "read_loop k n acc") auto
qed

lemma sint_small: "unat w < 2147483648 \<Longrightarrow> sint (w :: u32) = int (unat w)"
proof -
  assume "unat w < 2147483648"
  then have "uint w < 2147483648" by (metis of_nat_less_iff of_nat_numeral uint_nat)
  moreover have "-2147483648 \<le> uint w" by (rule order_trans [OF _ uint_ge_0]) simp
  ultimately have "signed_take_bit 31 (uint w) = uint w"
    by (subst signed_take_bit_int_eq_self_iff) simp
  then show ?thesis by (simp add: sint_uint)
qed

lemma readHeader_at:
  assumes "steady_read c k" and "unat off < 2147483648" and "unat off + n \<le> length c"
  shows "\<exists>k'. readHeader k off n = Some (Some (take n (drop (unat off) c)), k', 0) \<and> steady_read c k'"
proof -
  note s = seek_steady [OF assms(1), of "unat off"]
  moreover from s assms(3) have "n \<le> length (unread (sys_lseek k (int (unat off))))" by simp
  ultimately obtain k' where "read_loop (sys_lseek k (int (unat off))) n [] = Some (Some (take n (drop (unat off) c)), k')"
    "steady_read c k'"
    using read_loop_ok [of c "sys_lseek k (int (unat off))" n "[]"] by auto
  with assms(2) show ?thesis
    by (simp add: readHeader_def sint_small [OF assms(2)] del: of_nat_unat int_nat_eq)
qed

lemma readHeader_short:
  assumes "steady_read c k" and "unat off < 2147483648" and "length c < unat off + n" and "0 < n"
  shows "readHeader k off n = None"
proof -
  note s = seek_steady [OF assms(1), of "unat off"]
  then have "read_loop (sys_lseek k (int (unat off))) n [] = None"
    using read_loop_short [of c "sys_lseek k (int (unat off))" n "[]"] assms(3,4) by auto
  then show ?thesis
    by (simp add: readHeader_def sint_small [OF assms(2)])
qed

section \<open>Properties of the parser\<close>

text \<open>Fields of a window of the file.\<close>

lemma rd_window:
  assumes "l + n \<le> length c"
  shows "a + 1 < n \<Longrightarrow> rd16 (take n (drop l c)) a = rd16 c (l + a)"
    and "a + 3 < n \<Longrightarrow> rd32 (take n (drop l c)) a = rd32 c (l + a)"
  using assms by (simp_all add: rd32_def rd16_def rd8_def add.assoc)

lemma dos_header:
  assumes "steady_read c k" and "64 \<le> length c"
  obtains k1 where "readHeader k 0 DOS_SIZE = Some (Some (take 64 c), k1, 0)" "steady_read c k1"
    "rd16 (take 64 c) 0 = rd16 c 0" "rd32 (take 64 c) 60 = rd32 c 60"
  using readHeader_at [OF assms(1), of 0 64] rd_window [of 0 64 c] assms(2) by (auto simp: DOS_SIZE_def)

text \<open>A file that ends before the NT headers, or before the section headers it announces, makes
the parser read for ever: \<^verbatim>\<open>readHeader\<close> does not stop when \<^verbatim>\<open>ReadFile\<close> delivers nothing.\<close>

theorem truncated_file_never_returns:
  assumes "steady_read c k" and "64 \<le> length c" and "rd16 c 0 = 0x5a4d" and "unat (rd32 c 60) < 2147483648"
    and "length c < unat (rd32 c 60) + 248"
  shows "so_parse_exec_pe (Some k) = None"
proof -
  obtain k1 where 1: "readHeader k 0 DOS_SIZE = Some (Some (take 64 c), k1, 0)" "steady_read c k1"
    "rd16 (take 64 c) 0 = rd16 c 0" "rd32 (take 64 c) 60 = rd32 c 60"
    by (rule dos_header [OF assms(1,2)])
  have "readHeader k1 (rd32 c 60) NT_SIZE = None"
    using readHeader_short [OF 1(2) assms(4), of 248] assms(5) by (simp add: NT_SIZE_def)
  with 1 assms(3) show ?thesis by (simp add: so_parse_exec_pe_def)
qed

text \<open>Parsing a complete PE file, whatever the short reads: the structure is made from the NT
headers and the section headers, a segment for each section and one for the headers, and the file
is closed once.\<close>

theorem parse_pe:
  assumes "steady_read c k" and "64 \<le> length c" and "rd16 c 0 = 0x5a4d" and "unat (rd32 c 60) + 248 < 2147483648"
    and "unat (rd32 c 60) = l" and "rd32 c l = 0x4550" and "l + 248 + 40 * rd16 c (l + 6) \<le> length c"
  shows "\<exists>x. so_parse_exec_pe (Some k) = Some (Some x, 1) \<and> base_addr x = rd32 c (l + 52)
    \<and> entry x = base_addr x + rd32 c (l + 40) \<and> segments_no x = length (segments x)
    \<and> (\<forall>i<rd16 c (l + 6). segments x ! i = pe_segment (base_addr x) c (l + 248 + 40 * i))
    \<and> last (segments x) = \<lparr>vaddr = base_addr x, file_size = rd32 c (l + 84), mem_size = rd32 c (l + 84), offset = 0, perm = PERM_R\<rparr>"
proof -
  have off: "unat (rd32 c 60 + of_nat NT_SIZE) = l + 248"
    using assms(4,5) by (simp add: NT_SIZE_def unat_word_ariths)
  obtain k1 where 1: "readHeader k 0 DOS_SIZE = Some (Some (take 64 c), k1, 0)" "steady_read c k1"
    "rd16 (take 64 c) 0 = rd16 c 0" "rd32 (take 64 c) 60 = rd32 c 60"
    by (rule dos_header [OF assms(1,2)])
  obtain k2 where 2: "readHeader k1 (rd32 c 60) NT_SIZE = Some (Some (take 248 (drop l c)), k2, 0)" "steady_read c k2"
    using readHeader_at [OF 1(2), of "rd32 c 60" 248] assms(4,5,7) by (auto simp: NT_SIZE_def)
  have "l + 248 \<le> length c" using assms(7) by simp
  note w = rd_window [OF this]
  obtain k3 where 3: "readHeader k2 (rd32 c 60 + of_nat NT_SIZE) (rd16 c (l + 6) * SECTION_SIZE)
      = Some (Some (take (40 * rd16 c (l + 6)) (drop (l + 248) c)), k3, 0)"
    using readHeader_at [OF 2(2), of "rd32 c 60 + of_nat NT_SIZE" "40 * rd16 c (l + 6)"] assms(4,5,7) off
    by (auto simp: SECTION_SIZE_def mult.commute)
  have sec: "pe_segment img (take (40 * rd16 c (l + 6)) (drop (l + 248) c)) (40 * i) = pe_segment img c (l + 248 + 40 * i)"
    if "i < rd16 c (l + 6)" for i img
    using rd_window(2) [OF assms(7) [folded add.assoc]] that by (simp add: pe_segment_def add.assoc)
  have "so_parse_exec_pe (Some k) = Some (Some (pe_exec (take 248 (drop l c)) (take (40 * rd16 c (l + 6)) (drop (l + 248) c))), 1)"
    using 1 2 3 assms(3,6) w by (simp add: so_parse_exec_pe_def)
  then show ?thesis
    by (simp add: pe_exec_def Let_def w sec SECTION_SIZE_def nth_append)
qed

lemma bind_negative:
  "sint off < 0 \<Longrightarrow> readHeader k off n = Some (None, k, 1)"
  by (simp add: readHeader_def)

text \<open>A negative offset of the NT headers makes the parser close the file twice.\<close>

theorem negative_offset_closes_twice:
  assumes "steady_read c k" and "64 \<le> length c" and "rd16 c 0 = 0x5a4d" and "sint (rd32 c 60) < 0"
  shows "so_parse_exec_pe (Some k) = Some (None, 2)"
proof -
  obtain k1 where 1: "readHeader k 0 DOS_SIZE = Some (Some (take 64 c), k1, 0)" "steady_read c k1"
    "rd16 (take 64 c) 0 = rd16 c 0" "rd32 (take 64 c) 60 = rd32 c 60"
    by (rule dos_header [OF assms(1,2)])
  with assms(3,4) show ?thesis by (simp add: so_parse_exec_pe_def bind_negative)
qed

text \<open>A DOS header, and a file of one with the NT headers of a program of one section.\<close>

definition sample_dos :: "nat \<Rightarrow> byte \<Rightarrow> byte list" where
  "sample_dos l b = [0x4d, 0x5a, 0, 0, 0, 0, 0, 0, 0, 0, 0, 0, 0, 0, 0, 0, 0, 0, 0, 0, 0, 0, 0, 0, 0, 0, 0, 0, 0, 0, 0, 0, 0, 0, 0, 0, 0, 0, 0, 0, 0, 0, 0, 0, 0, 0, 0, 0, 0, 0, 0, 0, 0, 0, 0, 0, 0, 0, 0, 0, of_nat l, 0, 0, b]"

definition sample_pe :: "byte list" where
  "sample_pe = sample_dos 64 0 @ [0x50, 0x45, 0, 0, 0, 0, 1, 0, 0, 0, 0, 0, 0, 0, 0, 0, 0, 0, 0, 0, 0, 0, 0, 0, 0, 0, 0, 0, 0, 0, 0, 0, 0, 0, 0, 0, 0, 0, 0, 0, 0, 0x10, 0, 0, 0, 0, 0, 0, 0, 0, 0, 0,
     0, 0, 64, 0, 0, 0, 0, 0, 0, 0, 0, 0, 0, 0, 0, 0, 0, 0, 0, 0, 0, 0, 0, 0, 0, 0, 0, 0, 0, 0, 0, 0, 0, 4, 0, 0, 0, 0, 0, 0, 0, 0, 0, 0, 0, 0, 0, 0, 0, 0, 0, 0, 0, 0, 0, 0, 0, 0, 0, 0, 0, 0, 0, 0, 0, 0, 0, 0, 0, 0, 0, 0, 0, 0, 0, 0, 0, 0, 0, 0, 0, 0, 0, 0, 0, 0, 0, 0, 0, 0, 0, 0, 0, 0, 0, 0, 0, 0, 0, 0, 0, 0, 0, 0, 0, 0, 0, 0, 0, 0, 0, 0, 0, 0, 0, 0, 0, 0, 0, 0, 0, 0, 0, 0, 0, 0, 0, 0, 0, 0, 0, 0, 0, 0, 0, 0, 0, 0, 0, 0, 0, 0, 0, 0, 0, 0, 0, 0, 0, 0, 0, 0, 0, 0, 0, 0, 0, 0, 0, 0, 0, 0, 0, 0, 0, 0, 0, 0, 0, 0, 0, 0, 0, 0, 0, 0, 0, 0, 0, 0, 0, 0, 0, 0, 0, 0, 0, 0, 0, 0, 0, 0, 0, 0, 0, 0,
     46, 116, 101, 120, 116, 0, 0, 0, 0, 2, 0, 0, 0, 0x10, 0, 0, 0, 2, 0, 0, 0, 4, 0, 0, 0, 0, 0, 0, 0, 0, 0, 0, 0, 0, 0, 0, 0x20, 0, 0, 0x60]"

definition sample_k :: "byte list \<Rightarrow> kfile" where
  "sample_k c = \<lparr>content = c, koff = 0, kappend = False, readable = True, writable = False, seekable = True,
     plan = [AtMost 10, AtMost 0]\<rparr>"

lemma sample_k_steady: "steady_read c (sample_k c)"
  by (simp add: steady_read_def sample_k_def)

lemma sample_dos_fields:
  "length (sample_dos 64 b) = 64" "rd16 (sample_dos 64 b) 0 = 0x5a4d" "rd32 (sample_dos 64 0) 60 = 64"
  "rd32 (sample_dos 64 255) 60 = 0xff000040"
  by (simp_all add: sample_dos_def rd32_def rd16_def rd8_def)

lemma truncated_file_never_returns_witness:
  "so_parse_exec_pe (Some (sample_k (sample_dos 64 0))) = None"
  by (rule truncated_file_never_returns [OF sample_k_steady]) (simp_all add: sample_dos_fields)

lemma negative_offset_closes_twice_witness:
  "so_parse_exec_pe (Some (sample_k (sample_dos 64 255))) = Some (None, 2)"
  by (rule negative_offset_closes_twice [OF sample_k_steady]) (simp_all add: sample_dos_fields)

lemma sample_pe_fields:
  "length sample_pe = 352" "rd16 sample_pe 0 = 0x5a4d" "rd32 sample_pe 60 = 64" "rd32 sample_pe 64 = 0x4550" "rd16 sample_pe 70 = 1" "rd32 sample_pe 116 = 0x400000"
  by (simp_all add: sample_pe_def sample_dos_def rd32_def rd16_def rd8_def)

lemma parse_pe_witness:
  "\<exists>x. so_parse_exec_pe (Some (sample_k sample_pe)) = Some (Some x, 1) \<and> base_addr x = 0x400000 \<and> segments_no x = length (segments x)"
  using parse_pe [OF sample_k_steady [of sample_pe], of 64] sample_pe_fields by auto

section \<open>Imports are bound\<close>

text \<open>The bytes of a table of \<open>n\<close> words, and what is asked of \<^verbatim>\<open>GetProcAddress\<close> for a table entry.\<close>

definition slots :: "u32 \<Rightarrow> nat \<Rightarrow> u32 set" where
  "slots a n = (\<lambda>j. a + of_nat j) ` {..<4 * n}"

definition thunk_arg :: "u32 \<Rightarrow> u32 \<Rightarrow> u32" where
  "thunk_arg base w = (if w AND 0x80000000 \<noteq> 0 then w AND 0xffff else base + w + 2)"

definition same_but :: "u32 set \<Rightarrow> memory \<Rightarrow> memory \<Rightarrow> bool" where
  "same_but S m m' \<longleftrightarrow> (\<forall>a. a \<notin> S \<longrightarrow> m a = m' a)"

lemma in_slots: "j < 4 * n \<Longrightarrow> a + of_nat j \<in> slots a n"
  by (auto simp: slots_def)

lemma slots_0 [simp]: "slots a 0 = {}"
  by (simp add: slots_def)

definition cell :: "u32 \<Rightarrow> u32 set" where
  "cell a = {a, a + 1, a + 2, a + 3}"

lemma cell_image: "cell a = (\<lambda>i. a + of_nat i) ` {..<4}"
proof -
  have "{..<4 :: nat} = {0, 1, 2, 3}" by auto
  then show ?thesis by (simp add: cell_def)
qed

lemma slots_Suc: "slots a (Suc n) = cell a \<union> slots (a + 4) n"
proof -
  have "x \<in> {..<4 * Suc n} \<longleftrightarrow> x \<in> {..<4} \<union> (\<lambda>j. j + 4) ` {..<4 * n}" for x :: nat
    by (cases "x < 4") (auto simp: image_iff intro: bexI [of _ "x - 4"])
  then have "{..<4 * Suc n} = {..<4} \<union> (\<lambda>j. j + 4) ` {..<4 * n}" by blast
  then show ?thesis
    by (simp add: slots_def cell_image image_Un image_image add.commute add.left_commute)
qed

lemma word_in_slots: 
  assumes "j < n"
  shows "cell (a + of_nat (4 * j)) \<subseteq> slots a n"
proof -
  have "a + of_nat (4 * j) + of_nat i \<in> slots a n" if "i < 4" for i
    using in_slots [of "4 * j + i" n a] assms that by (simp add: add.assoc)
  then show ?thesis by (auto simp: cell_image)
qed

lemma first_not_in_rest:
  assumes "Suc n < 2 ^ 30"
  shows "cell a \<inter> slots (a + 4) n = {}"
proof -
  have "a + of_nat i \<noteq> a + 4 + of_nat j" if "i < 4" "j < 4 * n" for i j
  proof
    assume "a + of_nat i = a + 4 + of_nat j"
    then have e: "(of_nat i :: u32) = of_nat (4 + j)" by (simp add: add.assoc)
    have "i < 2 ^ LENGTH(32)" "4 + j < 2 ^ LENGTH(32)" using that assms by simp_all
    then have "unat (of_nat i :: u32) = i" "unat (of_nat (4 + j) :: u32) = 4 + j"
      by (simp_all only: unat_of_nat mod_less)
    with e have "i = 4 + j" by metis
    with that show False by simp
  qed
  then show ?thesis by (auto simp: slots_def cell_image)
qed

lemma mem32_cong:
  "m a = m' a \<Longrightarrow> m (a + 1) = m' (a + 1) \<Longrightarrow> m (a + 2) = m' (a + 2) \<Longrightarrow> m (a + 3) = m' (a + 3)
   \<Longrightarrow> mem32 m a = mem32 m' a"
  by (simp add: mem32_def)

lemma mem32_outside:
  "same_but S m m' \<Longrightarrow> cell a \<inter> S = {} \<Longrightarrow> mem32 m a = mem32 m' a"
  by (rule mem32_cong) (auto simp: same_but_def cell_def)

lemma four_bytes:
  assumes "n < 4294967296"
  shows "n mod 256 + 256 * (n div 256 mod 256) + 65536 * (n div 65536 mod 256) + 16777216 * (n div 16777216 mod 256) = (n :: nat)"
proof -
  define a b c where "a = n div 256" and "b = a div 256" and "c = b div 256"
  have d: "n div 65536 = b" "n div 16777216 = c"
    by (simp_all add: a_def b_def c_def flip: div_mult2_eq)
  have "c mod 256 = c" using assms by (simp add: a_def b_def c_def flip: div_mult2_eq)
  moreover have "n = 256 * a + n mod 256" "a = 256 * b + a mod 256" "b = 256 * c + b mod 256"
    by (simp_all add: a_def b_def c_def)
  ultimately show ?thesis unfolding d a_def [symmetric] by linarith
qed

lemma bytes_of_word:
  "unat (ucast v :: byte) + 256 * unat (ucast (drop_bit 8 v) :: byte) + 65536 * unat (ucast (drop_bit 16 v) :: byte)
     + 16777216 * unat (ucast (drop_bit 24 v) :: byte) = unat (v :: u32)"
proof -
  have "unat v < 2 ^ LENGTH(32)" by (rule unsigned_less)
  then have "unat v < 4294967296" by simp
  moreover from this have "unat v div 16777216 mod 256 = unat v div 16777216" by simp
  ultimately show ?thesis
    using four_bytes [of "unat v"] by (simp add: unsigned_ucast_eq unsigned_drop_bit_eq take_bit_eq_mod drop_bit_eq_div [where 'a = nat])
qed

lemma mem32_put32: "mem32 (put32 m a v) a = v"
  using bytes_of_word [of v] by (simp add: mem32_def put32_def)

lemma put32_same_but: "same_but (cell a) m (put32 m a v)"
  by (simp add: same_but_def put32_def cell_def)

text \<open>The table of one library; \<open>S\<close> are the bytes that the loop may have written.\<close>

lemma solve_thunks_table:
  assumes "\<And>m' w. same_but S m0 m' \<Longrightarrow> w \<in> set ws \<Longrightarrow> proc m' h (thunk_arg base w) = resolve w"
    and "\<forall>w \<in> set ws. w \<noteq> 0 \<and> resolve w \<noteq> 0"
    and "\<forall>j \<le> length ws. cell (oft + of_nat (4 * j)) \<inter> S = {} \<and> mem32 m0 (oft + of_nat (4 * j)) = (ws @ [0]) ! j"
    and "slots ft (length ws) \<subseteq> S" and "length ws < 2 ^ 30" and "same_but S m0 m"
  shows "\<exists>m'. solve_thunks proc base h m oft ft = Some (True, m') \<and> same_but (slots ft (length ws)) m m'
    \<and> (\<forall>j < length ws. mem32 m' (ft + of_nat (4 * j)) = resolve (ws ! j))"
  using assms
proof (induction ws arbitrary: m oft ft)
  case Nil
  from Nil(3) have "cell oft \<inter> S = {}" "mem32 m0 oft = 0" by auto
  with mem32_outside [OF Nil(6)] have "mem32 m oft = 0" by simp
  then show ?case by (simp add: solve_thunks.simps [of proc base h m oft] same_but_def)
next
  case (Cons w ws)
  from Cons.prems(3) have "cell oft \<inter> S = {}" "mem32 m0 oft = w" by fastforce+
  with mem32_outside [OF Cons.prems(6)] have w: "mem32 m oft = w" by simp
  have nz: "w \<noteq> 0" "resolve w \<noteq> 0" using Cons.prems(2) by auto
  have pr: "proc m h (thunk_arg base w) = resolve w" using Cons.prems(1,6) by simp
  let ?m1 = "put32 m ft (resolve w)"
  have step: "solve_thunks proc base h m oft ft = solve_thunks proc base h ?m1 (oft + 4) (ft + 4)"
    using pr nz w by (simp add: solve_thunks.simps [of proc base h m oft] thunk_arg_def split: if_splits)
  have sub: "slots (ft + 4) (length ws) \<subseteq> S" "cell ft \<subseteq> S" using Cons.prems(4) by (auto simp: slots_Suc)
  have s1: "same_but (cell ft) m ?m1" by (rule put32_same_but)
  with Cons.prems(6) sub have "same_but S m0 ?m1" by (auto simp: same_but_def)
  moreover have "\<forall>j \<le> length ws. cell (oft + 4 + of_nat (4 * j)) \<inter> S = {} \<and> mem32 m0 (oft + 4 + of_nat (4 * j)) = (ws @ [0]) ! j"
  proof (intro allI impI)
    fix j assume "j \<le> length ws"
    with Cons.prems(3) [rule_format, of "Suc j"]
    show "cell (oft + 4 + of_nat (4 * j)) \<inter> S = {} \<and> mem32 m0 (oft + 4 + of_nat (4 * j)) = (ws @ [0]) ! j"
      by (simp add: add.assoc)
  qed
  ultimately obtain m' where m': "solve_thunks proc base h ?m1 (oft + 4) (ft + 4) = Some (True, m')"
    "same_but (slots (ft + 4) (length ws)) ?m1 m'" "\<forall>j < length ws. mem32 m' (ft + 4 + of_nat (4 * j)) = resolve (ws ! j)"
    using Cons.IH [of "oft + 4" "ft + 4" ?m1] Cons.prems(1,2,5) sub by auto
  have "cell ft \<inter> slots (ft + 4) (length ws) = {}" using first_not_in_rest [of "length ws" ft] Cons.prems(5) by simp
  from mem32_outside [OF m'(2) this] have "mem32 m' ft = resolve w" by (simp add: mem32_put32)
  then have "\<forall>j < length (w # ws). mem32 m' (ft + of_nat (4 * j)) = resolve ((w # ws) ! j)"
    using m'(3) by (auto simp: less_Suc_eq_0_disj add.assoc)
  moreover have "same_but (slots ft (length (w # ws))) m m'"
    using s1 m'(2) by (auto simp: same_but_def slots_Suc)
  ultimately show ?case using step m'(1) by auto
qed

text \<open>C25: Binding the imports of a library: when the table of names and the table of addresses do
not overlap and every function asked for exists, \<^verbatim>\<open>SolveImports\<close> ends, stores the address of the
function of each entry, by ordinal or by name, in the same place of the address table, and writes
nothing else.\<close>

theorem imports_are_bound:
  assumes "mem32 m (pe + 132) \<noteq> 0" and "d = base + mem32 m (pe + 128)" and "mem32 m d \<noteq> 0"
    and "oft = base + mem32 m d" and "ft = base + mem32 m (d + 16)" and "S = slots ft (length ws)"
    and "lib m (base + mem32 m (d + 12)) = h" and "h \<noteq> 0"
    and "\<And>m' w. same_but S m m' \<Longrightarrow> w \<in> set ws \<Longrightarrow> proc m' h (thunk_arg base w) = resolve w"
    and "\<forall>w \<in> set ws. w \<noteq> 0 \<and> resolve w \<noteq> 0"
    and "\<forall>j \<le> length ws. cell (oft + of_nat (4 * j)) \<inter> S = {} \<and> mem32 m (oft + of_nat (4 * j)) = (ws @ [0]) ! j"
    and "length ws < 2 ^ 30" and "cell (d + 20) \<inter> S = {}" and "mem32 m (d + 20) = 0"
  shows "\<exists>m'. SolveImports lib proc base pe m = Some (True, m') \<and> (\<forall>a. a \<notin> S \<longrightarrow> m' a = m a)
    \<and> (\<forall>j < length ws. mem32 m' (ft + of_nat (4 * j)) = resolve (ws ! j))"
proof -
  have "same_but S m m" by (simp add: same_but_def)
  then obtain m' where m': "solve_thunks proc base h m oft ft = Some (True, m')" "same_but S m m'"
    "\<forall>j < length ws. mem32 m' (ft + of_nat (4 * j)) = resolve (ws ! j)"
    using solve_thunks_table [of S m ws proc h base resolve oft ft m] assms(6,9-12) by blast
  have "mem32 m' (d + 20) = 0" using mem32_outside [OF m'(2) assms(13)] assms(14) by simp
  then have "solve_descriptors lib proc base m' (d + 20) = Some (True, m')"
    by (simp add: solve_descriptors.simps [of lib proc base m' "d + 20"])
  with m'(1) assms(3-5,7,8) have "solve_descriptors lib proc base m d = Some (True, m')"
    by (simp add: solve_descriptors.simps [of lib proc base m d] Let_def)
  with assms(1,2) have "SolveImports lib proc base pe m = Some (True, m')" by (simp add: SolveImports_def)
  with m' show ?thesis by (auto simp: same_but_def)
qed

text \<open>An image at 0x400000 that imports the function 7 and a named function of a library.\<close>

definition sample_image :: memory where
  "sample_image = put32 (put32 (put32 (put32 (put32 (put32 (put32 (\<lambda>_. 0) 0x4000c4 40) 0x4000c0 0x1000) 0x401000 0x2000)
     0x40100c 0x3000) 0x401010 0x4000) 0x402000 0x80000007) 0x402004 0x5000"

lemma sample_image_words:
  "mem32 sample_image 0x4000c4 = 40" "mem32 sample_image 0x4000c0 = 0x1000" "mem32 sample_image 0x401000 = 0x2000"
  "mem32 sample_image 0x40100c = 0x3000" "mem32 sample_image 0x401010 = 0x4000" "mem32 sample_image 0x402000 = 0x80000007"
  "mem32 sample_image 0x402004 = 0x5000" "mem32 sample_image 0x402008 = 0" "mem32 sample_image 0x401014 = 0"
  by (simp_all add: sample_image_def put32_def mem32_def)

lemma all_le_2: "(\<forall>j \<le> Suc (Suc 0). P j) \<longleftrightarrow> P 0 \<and> P 1 \<and> P 2"
  by (auto simp: le_Suc_eq numeral_2_eq_2)

lemma slots_2: "slots a (Suc (Suc 0)) = cell a \<union> cell (a + 4)"
  by (simp add: slots_Suc)

lemma imports_are_bound_witness:
  "\<exists>m'. SolveImports (\<lambda>_ _. 5) (\<lambda>_ _ a. a + 0x70000000) 0x400000 0x400040 sample_image = Some (True, m')
     \<and> mem32 m' 0x404000 = 0x70000007 \<and> mem32 m' 0x404004 = 0x70405002"
proof -
  have "\<exists>m'. SolveImports (\<lambda>_ _. 5) (\<lambda>_ _ a. a + 0x70000000) 0x400000 0x400040 sample_image = Some (True, m')
     \<and> (\<forall>a. a \<notin> slots 0x404000 (length [0x80000007, 0x5000 :: u32]) \<longrightarrow> m' a = sample_image a)
     \<and> (\<forall>j < length [0x80000007, 0x5000 :: u32]. mem32 m' (0x404000 + of_nat (4 * j))
          = thunk_arg 0x400000 ([0x80000007, 0x5000] ! j) + 0x70000000)"
    by (rule imports_are_bound [where d = "0x401000" and oft = "0x402000" and h = 5
        and resolve = "\<lambda>w. thunk_arg 0x400000 w + 0x70000000"])
      (simp_all add: sample_image_words all_le_2 slots_2 cell_def thunk_arg_def)
  then obtain m' where m': "SolveImports (\<lambda>_ _. 5) (\<lambda>_ _ a. a + 0x70000000) 0x400000 0x400040 sample_image = Some (True, m')"
    "\<forall>j < 2. mem32 m' (0x404000 + of_nat (4 * j)) = thunk_arg 0x400000 ([0x80000007, 0x5000] ! j) + 0x70000000"
    by auto
  from m'(2) [rule_format, of 0] m'(2) [rule_format, of 1] m'(1) show ?thesis by (simp add: thunk_arg_def)
qed

end
