(* ===== verification/Crc32.thy ===== *)
theory Crc32
  imports Channels
begin

unbundle bit_operations_syntax

text \<open>
  The checksum of the second laboratory, \<^verbatim>\<open>labs/lab02/sol/win/2-crc/crc32.c\<close>.  On Windows an
  \<^verbatim>\<open>unsigned long\<close> has 32 bits.
\<close>

type_synonym crc = "32 word"

definition crc_table :: "crc list" where
  "crc_table = [
   0x00000000, 0x77073096, 0xee0e612c, 0x990951ba, 0x076dc419, 0x706af48f, 0xe963a535, 0x9e6495a3,
   0x0edb8832, 0x79dcb8a4, 0xe0d5e91e, 0x97d2d988, 0x09b64c2b, 0x7eb17cbd, 0xe7b82d07, 0x90bf1d91,
   0x1db71064, 0x6ab020f2, 0xf3b97148, 0x84be41de, 0x1adad47d, 0x6ddde4eb, 0xf4d4b551, 0x83d385c7,
   0x136c9856, 0x646ba8c0, 0xfd62f97a, 0x8a65c9ec, 0x14015c4f, 0x63066cd9, 0xfa0f3d63, 0x8d080df5,
   0x3b6e20c8, 0x4c69105e, 0xd56041e4, 0xa2677172, 0x3c03e4d1, 0x4b04d447, 0xd20d85fd, 0xa50ab56b,
   0x35b5a8fa, 0x42b2986c, 0xdbbbc9d6, 0xacbcf940, 0x32d86ce3, 0x45df5c75, 0xdcd60dcf, 0xabd13d59,
   0x26d930ac, 0x51de003a, 0xc8d75180, 0xbfd06116, 0x21b4f4b5, 0x56b3c423, 0xcfba9599, 0xb8bda50f,
   0x2802b89e, 0x5f058808, 0xc60cd9b2, 0xb10be924, 0x2f6f7c87, 0x58684c11, 0xc1611dab, 0xb6662d3d,
   0x76dc4190, 0x01db7106, 0x98d220bc, 0xefd5102a, 0x71b18589, 0x06b6b51f, 0x9fbfe4a5, 0xe8b8d433,
   0x7807c9a2, 0x0f00f934, 0x9609a88e, 0xe10e9818, 0x7f6a0dbb, 0x086d3d2d, 0x91646c97, 0xe6635c01,
   0x6b6b51f4, 0x1c6c6162, 0x856530d8, 0xf262004e, 0x6c0695ed, 0x1b01a57b, 0x8208f4c1, 0xf50fc457,
   0x65b0d9c6, 0x12b7e950, 0x8bbeb8ea, 0xfcb9887c, 0x62dd1ddf, 0x15da2d49, 0x8cd37cf3, 0xfbd44c65,
   0x4db26158, 0x3ab551ce, 0xa3bc0074, 0xd4bb30e2, 0x4adfa541, 0x3dd895d7, 0xa4d1c46d, 0xd3d6f4fb,
   0x4369e96a, 0x346ed9fc, 0xad678846, 0xda60b8d0, 0x44042d73, 0x33031de5, 0xaa0a4c5f, 0xdd0d7cc9,
   0x5005713c, 0x270241aa, 0xbe0b1010, 0xc90c2086, 0x5768b525, 0x206f85b3, 0xb966d409, 0xce61e49f,
   0x5edef90e, 0x29d9c998, 0xb0d09822, 0xc7d7a8b4, 0x59b33d17, 0x2eb40d81, 0xb7bd5c3b, 0xc0ba6cad,
   0xedb88320, 0x9abfb3b6, 0x03b6e20c, 0x74b1d29a, 0xead54739, 0x9dd277af, 0x04db2615, 0x73dc1683,
   0xe3630b12, 0x94643b84, 0x0d6d6a3e, 0x7a6a5aa8, 0xe40ecf0b, 0x9309ff9d, 0x0a00ae27, 0x7d079eb1,
   0xf00f9344, 0x8708a3d2, 0x1e01f268, 0x6906c2fe, 0xf762575d, 0x806567cb, 0x196c3671, 0x6e6b06e7,
   0xfed41b76, 0x89d32be0, 0x10da7a5a, 0x67dd4acc, 0xf9b9df6f, 0x8ebeeff9, 0x17b7be43, 0x60b08ed5,
   0xd6d6a3e8, 0xa1d1937e, 0x38d8c2c4, 0x4fdff252, 0xd1bb67f1, 0xa6bc5767, 0x3fb506dd, 0x48b2364b,
   0xd80d2bda, 0xaf0a1b4c, 0x36034af6, 0x41047a60, 0xdf60efc3, 0xa867df55, 0x316e8eef, 0x4669be79,
   0xcb61b38c, 0xbc66831a, 0x256fd2a0, 0x5268e236, 0xcc0c7795, 0xbb0b4703, 0x220216b9, 0x5505262f,
   0xc5ba3bbe, 0xb2bd0b28, 0x2bb45a92, 0x5cb36a04, 0xc2d7ffa7, 0xb5d0cf31, 0x2cd99e8b, 0x5bdeae1d,
   0x9b64c2b0, 0xec63f226, 0x756aa39c, 0x026d930a, 0x9c0906a9, 0xeb0e363f, 0x72076785, 0x05005713,
   0x95bf4a82, 0xe2b87a14, 0x7bb12bae, 0x0cb61b38, 0x92d28e9b, 0xe5d5be0d, 0x7cdcefb7, 0x0bdbdf21,
   0x86d3d2d4, 0xf1d4e242, 0x68ddb3f8, 0x1fda836e, 0x81be16cd, 0xf6b9265b, 0x6fb077e1, 0x18b74777,
   0x88085ae6, 0xff0f6a70, 0x66063bca, 0x11010b5c, 0x8f659eff, 0xf862ae69, 0x616bffd3, 0x166ccf45,
   0xa00ae278, 0xd70dd2ee, 0x4e048354, 0x3903b3c2, 0xa7672661, 0xd06016f7, 0x4969474d, 0x3e6e77db,
   0xaed16a4a, 0xd9d65adc, 0x40df0b66, 0x37d83bf0, 0xa9bcae53, 0xdebb9ec5, 0x47b2cf7f, 0x30b5ffe9,
   0xbdbdf21c, 0xcabac28a, 0x53b39330, 0x24b4a3a6, 0xbad03605, 0xcdd70693, 0x54de5729, 0x23d967bf,
   0xb3667a2e, 0xc4614ab8, 0x5d681b02, 0x2a6f2b94, 0xb40bbe37, 0xc30c8ea1, 0x5a05df1b, 0x2d02ef8d]"

section \<open>The code\<close>

text \<open>The macros work on the register and the text that is left.\<close>

definition DO1 :: "crc \<times> byte list \<Rightarrow> crc \<times> byte list" where
  "DO1 st = (case st of (crc, buf) \<Rightarrow>
     (crc_table ! unat ((crc XOR ucast (hd buf)) AND 0xff) XOR drop_bit 8 crc, tl buf))"

definition DO2 :: "crc \<times> byte list \<Rightarrow> crc \<times> byte list" where "DO2 st = DO1 (DO1 st)"
definition DO4 :: "crc \<times> byte list \<Rightarrow> crc \<times> byte list" where "DO4 st = DO2 (DO2 st)"
definition DO8 :: "crc \<times> byte list \<Rightarrow> crc \<times> byte list" where "DO8 st = DO4 (DO4 st)"

text \<open>The two loops of \<^verbatim>\<open>update_crc\<close>; the second is a \<^verbatim>\<open>do\<close> loop entered for a length that is
not zero.\<close>

fun by_eights :: "crc \<times> byte list \<Rightarrow> nat \<Rightarrow> (crc \<times> byte list) \<times> nat" where
  "by_eights st len = (if 8 \<le> len then by_eights (DO8 st) (len - 8) else (st, len))"

primrec by_ones :: "crc \<times> byte list \<Rightarrow> nat \<Rightarrow> crc \<times> byte list" where
  "by_ones st 0 = st"
| "by_ones st (Suc n) = by_ones (DO1 st) n"

text \<open>A null buffer gives 0.\<close>

definition update_crc :: "crc \<Rightarrow> byte list option \<Rightarrow> nat \<Rightarrow> crc" where
  "update_crc crc buf len =
     (case buf of
        None \<Rightarrow> 0
      | Some bs \<Rightarrow>
          let (st, n) = by_eights (crc XOR 0xffffffff, bs) len in fst (by_ones st n) XOR 0xffffffff)"

section \<open>The reference\<close>

text \<open>The polynomial division bit by bit, lowest bit first.\<close>

definition bit_step :: "crc \<Rightarrow> crc" where
  "bit_step c = (if c AND 1 \<noteq> 0 then drop_bit 1 c XOR 0xedb88320 else drop_bit 1 c)"

definition byte_step :: "byte \<Rightarrow> crc \<Rightarrow> crc" where
  "byte_step b c = (bit_step ^^ 8) (c XOR ucast b)"

definition crc32 :: "crc \<Rightarrow> byte list \<Rightarrow> crc" where
  "crc32 c bs = fold byte_step bs (c XOR 0xffffffff) XOR 0xffffffff"

section \<open>The table\<close>

text \<open>Each entry is the remainder of its index: both are linear over exclusive or, so the 256
entries follow from the 8 powers of two.\<close>

definition remainder :: "crc \<Rightarrow> crc" where
  "remainder c = (bit_step ^^ 8) c"

lemma bit_step_xor: "bit_step (a XOR b) = bit_step a XOR bit_step b"
proof -
  have and_one: "x AND 1 = (if bit x 0 then 1 else 0)" for x :: crc
    by (simp add: bit_0 odd_iff_mod_2_eq_one and_one_eq)
  show ?thesis
    by (rule bit_word_eqI) (simp add: bit_step_def and_one bit_simps, blast)
qed

lemma remainder_xor: "remainder (a XOR b) = remainder a XOR remainder b"
  by (simp add: remainder_def numeral_eq_Suc bit_step_xor)

definition double :: "crc list \<Rightarrow> crc \<Rightarrow> crc list" where
  "double t b = t @ map (\<lambda>x. b XOR x) t"

lemma remainder_unfold:
  "remainder c = bit_step (bit_step (bit_step (bit_step (bit_step (bit_step (bit_step (bit_step c)))))))"
  by (simp add: remainder_def numeral_eq_Suc)

lemmas bit_step_numeral = bit_step_def [of "numeral n" for n] bit_step_def [of 1]

lemma powers:
  "remainder 1 = 0x77073096"
  "remainder 2 = 0xee0e612c"
  "remainder 4 = 0x076dc419"
  "remainder 8 = 0x0edb8832"
  "remainder 16 = 0x1db71064"
  "remainder 32 = 0x3b6e20c8"
  "remainder 64 = 0x76dc4190"
  "remainder 128 = 0xedb88320"
  by (simp_all add: remainder_unfold bit_step_numeral)

text \<open>Each half of a part of the table that has a power of two of entries follows from the other.\<close>

lemma table_halves:
  "take 2 crc_table = double (take 1 crc_table) (remainder 1)"
  "take 4 crc_table = double (take 2 crc_table) (remainder 2)"
  "take 8 crc_table = double (take 4 crc_table) (remainder 4)"
  "take 16 crc_table = double (take 8 crc_table) (remainder 8)"
  "take 32 crc_table = double (take 16 crc_table) (remainder 16)"
  "take 64 crc_table = double (take 32 crc_table) (remainder 32)"
  "take 128 crc_table = double (take 64 crc_table) (remainder 64)"
  "take 256 crc_table = double (take 128 crc_table) (remainder 128)"
  by (simp_all add: double_def crc_table_def powers)

text \<open>The same holds of the list of the remainders.\<close>

lemma remainders_double:
  assumes "k < 32"
  shows "map (\<lambda>i. remainder (of_nat i)) [0..<2 ^ Suc k] = double (map (\<lambda>i. remainder (of_nat i)) [0..<2 ^ k]) (remainder (2 ^ k))"
proof -
  have x: "(of_nat (2 ^ k + i) :: crc) = 2 ^ k XOR of_nat i" if "i < 2 ^ k" for i
  proof -
    have "\<not> bit i k" using that by (simp add: bit_iff_odd)
    then have "(2 ^ k :: crc) AND of_nat i = 0"
      by (intro bit_word_eqI) (auto simp: bit_simps)
    then show ?thesis by (simp add: disjunctive_xor_eq_or disjunctive_add_eq_or)
  qed
  have "[0..<2 ^ Suc k] = [0..<2 ^ k] @ map (\<lambda>i. 2 ^ k + i) [0..<2 ^ k]"
    using upt_add_eq_append [of 0 "2 ^ k" "2 ^ k"] map_add_upt [of "2 ^ k" "2 ^ k"]
    by (simp only: power_Suc mult_2 add_0 add.commute le0 simp_thms)
  then show ?thesis by (simp add: double_def x remainder_xor del: of_nat_add power_Suc upt.simps)
qed

lemma crc_table_remainders: "crc_table = map (\<lambda>i. remainder (of_nat i)) [0..<256]"
proof -
  have zero: "take 1 crc_table = [remainder 0]"
    by (simp add: crc_table_def remainder_unfold bit_step_def)
  have step: "take (2 ^ Suc k) crc_table = double (take (2 ^ k) crc_table) (remainder (2 ^ k))" if "k < 8" for k
  proof -
    have "k \<in> {0, 1, 2, 3, 4, 5, 6, 7}" using that by auto
    then show ?thesis using table_halves by auto
  qed
  have "take (2 ^ k) crc_table = map (\<lambda>i. remainder (of_nat i)) [0..<2 ^ k]" if "k \<le> 8" for k
    using that
  proof (induction k)
    case 0
    with zero show ?case by simp
  next
    case (Suc k)
    then show ?case using step [of k] remainders_double [of k] by simp
  qed
  from this [of 8] show ?thesis by (simp add: crc_table_def)
qed

section \<open>The loops\<close>

lemma ucast_byte_low: "(ucast (c XOR ucast b :: crc) :: byte) = ucast c XOR b"
  by (rule bit_word_eqI) (auto simp: bit_simps)

text \<open>Eight steps of the division shift the low byte out.\<close>

lemma bit_step_even: "\<not> bit c 0 \<Longrightarrow> bit_step c = drop_bit 1 c"
  by (simp add: bit_step_def bit_0 odd_iff_mod_2_eq_one and_one_eq)

lemma steps_shift:
  assumes "\<And>i. i < n \<Longrightarrow> \<not> bit c i"
  shows "(bit_step ^^ n) c = drop_bit n c"
  using assms
proof (induction n)
  case (Suc n)
  then have "\<not> bit (drop_bit n c) 0" by (simp add: bit_simps)
  with Suc show ?case by (simp add: bit_step_even)
qed simp

lemma shift_eight: "remainder c = remainder (c AND 0xff) XOR drop_bit 8 c"
proof -
  have m: "(0xff :: crc) = mask 8" by (simp add: mask_eq_exp_minus_1)
  have "c = (c AND 0xff) XOR (c AND NOT 0xff)"
    by (rule bit_word_eqI) (auto simp: bit_simps)
  then have "remainder c = remainder (c AND 0xff) XOR remainder (c AND NOT 0xff)"
    by (metis remainder_xor)
  also have "remainder (c AND NOT 0xff) = drop_bit 8 (c AND NOT 0xff)"
    unfolding remainder_def by (rule steps_shift) (simp add: m bit_simps)
  also have "\<dots> = drop_bit 8 c"
    by (rule bit_word_eqI) (auto simp: m bit_simps dest: bit_imp_le_length)
  finally show ?thesis .
qed

text \<open>A step of the code is a step of the reference.\<close>

lemma DO1_eq: "DO1 (c, b # bs) = (byte_step b c, bs)"
proof -
  let ?x = "c XOR ucast b"
  have "unat (?x AND 0xff) < 256"
    using word_and_le1 [of ?x "0xff"] by (simp add: word_le_nat_alt)
  then have "crc_table ! unat (?x AND 0xff) = remainder (?x AND 0xff)"
    by (simp add: crc_table_remainders)
  moreover have "drop_bit 8 ?x = drop_bit 8 c"
    by (rule bit_word_eqI) (auto simp: bit_simps dest: bit_imp_possible_bit)
  moreover have "byte_step b c = remainder (?x AND 0xff) XOR drop_bit 8 ?x"
    using shift_eight [of ?x] by (simp add: byte_step_def remainder_def)
  ultimately show ?thesis by (simp add: DO1_def)
qed

lemma by_ones_eq:
  "n \<le> length bs \<Longrightarrow> by_ones (c, bs) n = (fold byte_step (take n bs) c, drop n bs)"
proof (induction n arbitrary: c bs)
  case (Suc n)
  then show ?case by (cases bs) (simp_all add: DO1_eq)
qed simp

lemma DO8_eq: "DO8 st = by_ones st 8"
  by (simp add: DO8_def DO4_def DO2_def numeral_eq_Suc)

lemma by_eights_eq:
  "len \<le> length bs \<Longrightarrow>
   by_eights (c, bs) len = ((fold byte_step (take (len - len mod 8) bs) c, drop (len - len mod 8) bs), len mod 8)"
proof (induction len arbitrary: c bs rule: less_induct)
  case (less len)
  show ?case
  proof (cases "8 \<le> len")
    case True
    let ?m = "len - 8 - (len - 8) mod 8"
    have m: "len - len mod 8 = 8 + ?m" "(len - 8) mod 8 = len mod 8"
      using True by (simp_all add: le_mod_geq)
    have "by_eights (c, bs) len = by_eights (fold byte_step (take 8 bs) c, drop 8 bs) (len - 8)"
      using True less.prems by (simp add: DO8_eq by_ones_eq)
    also have "\<dots> = ((fold byte_step (take ?m (drop 8 bs)) (fold byte_step (take 8 bs) c), drop ?m (drop 8 bs)), (len - 8) mod 8)"
      using less True by (intro less.IH) auto
    also have "\<dots> = ((fold byte_step (take (8 + ?m) bs) c, drop (8 + ?m) bs), len mod 8)"
      by (simp add: take_add m(2) add.commute)
    finally show ?thesis unfolding m(1) .
  qed simp
qed

lemma update_crc_eq:
  assumes "len \<le> length bs"
  shows "update_crc c (Some bs) len = crc32 c (take len bs)"
proof -
  have "len - len mod 8 + len mod 8 = len" by simp
  then have "take len bs = take (len - len mod 8) bs @ take (len mod 8) (drop (len - len mod 8) bs)"
    by (metis take_add)
  with assms show ?thesis
    by (simp add: update_crc_def by_eights_eq by_ones_eq crc32_def del: by_eights.simps)
qed

text \<open>C14: The checksum the code computes with its table and its unrolled loop, over any number of
bytes that the buffer has, is the bit-by-bit division of the polynomial 0xedb88320.\<close>

theorem update_crc_is_crc32:
  assumes "len \<le> length bs"
  shows "update_crc c (Some bs) len = crc32 c (take len bs)"
  using assms by (rule update_crc_eq)

lemma update_crc_is_crc32_witness:
  "update_crc 0 (Some [49, 50, 51, 52, 53, 54, 55, 56, 57]) 9 = crc32 0 [49, 50, 51, 52, 53, 54, 55, 56, 57]"
  using update_crc_is_crc32 [of 9 "[49, 50, 51, 52, 53, 54, 55, 56, 57]" 0] by simp

text \<open>The checksum of a text in two parts is that of the whole.\<close>

lemma crc32_append: "crc32 (crc32 c a) b = crc32 c (a @ b)"
  by (simp add: crc32_def xor.assoc)

lemma crc32_nil [simp]: "crc32 c [] = c"
  by (simp add: crc32_def xor.assoc)

end
