(* ===== verification/CrcTool.thy ===== *)
theory CrcTool
  imports OsFile Crc32
begin

text \<open>
  The checksum program of the second laboratory, \<^verbatim>\<open>labs/lab02/sol/win/2-crc/crc.c\<close>.  The macro
  \<^verbatim>\<open>DIE\<close> ends the program with status 1.
\<close>

definition BUFSZ :: nat where "BUFSZ = 512"
definition CHUNKSIZE :: nat where "CHUNKSIZE = 32"

definition die :: "'a outcome" where "die = Inl (ExitWith 1)"

section \<open>Generating\<close>

text \<open>The bytes of an \<^verbatim>\<open>int\<close> in memory.\<close>

definition int_bytes :: "crc \<Rightarrow> byte list" where
  "int_bytes c = [ucast c, ucast (drop_bit 8 c), ucast (drop_bit 16 c), ucast (drop_bit 24 c)]"

text \<open>
  The loop of \<^verbatim>\<open>WriteCrc\<close>: every call gets the address of the checksum, whatever was written
  before.  \<^const>\<open>None\<close> is a loop that never ends.
\<close>

partial_function (option) write_loop :: "kfile \<Rightarrow> byte list \<Rightarrow> nat \<Rightarrow> kfile outcome option" where
  "write_loop k bs n =
     (case sys_write k (take n bs) of
        (r, k') \<Rightarrow>
          if r < 0 then Some die
          else if nat r < n then write_loop k' bs (n - nat r) else Some (Inr k'))"

declare write_loop.simps [code]

definition WriteCrc :: "crc \<Rightarrow> kfile \<Rightarrow> kfile outcome option" where
  "WriteCrc c k = write_loop k (int_bytes c) 4"

text \<open>Reading takes bytes away from what is left.\<close>

lemma sys_read_consumes:
  assumes "sys_read k n = (Some bs, k')"
  shows "unread k = bs @ unread k'" "length bs \<le> n" "content k' = content k"
proof -
  obtain l k1 where l: "next_limit k = (l, k1)" by (cases "next_limit k")
  then have k1: "content k1 = content k" "koff k1 = koff k"
    using next_limit_props [OF l] by (auto simp: view_def)
  define m where "m = (case l of Some (AtMost m) \<Rightarrow> min m n | _ \<Rightarrow> n)"
  have m: "m \<le> n" "bs = take m (drop (koff k) (content k))" "k' = k1\<lparr>koff := koff k + length bs\<rparr>"
    using assms l by (auto simp: sys_read_def m_def Let_def split: option.splits limit.splits if_splits)
  show "length bs \<le> n" using m by simp
  show "content k' = content k" using m k1 by simp
  show "unread k = bs @ unread k'"
    using take_drop_length [of "unread k" m] by (simp add: unread_def m(2,3) k1 add.commute)
qed

lemma sys_read_shorter: "(Some bs, k') = sys_read k n \<Longrightarrow> bs \<noteq> [] \<Longrightarrow> length (unread k') < length (unread k)"
  using sys_read_consumes(1) [of k n bs k'] by simp

text \<open>The reading loop of \<^verbatim>\<open>GenerateCrc\<close>; the buffer is cleared before every read.\<close>

function crc_loop :: "kfile \<Rightarrow> crc \<Rightarrow> crc outcome" where
  "crc_loop k c =
     (case sys_read k BUFSZ of
        (None, _) \<Rightarrow> die
      | (Some bs, k') \<Rightarrow>
          if bs = [] then Inr c
          else crc_loop k' (update_crc c (Some (bs @ replicate (BUFSZ - length bs) 0)) (length bs)))"
  by pat_completeness auto
termination
  by (relation "measure (\<lambda>(k, c). length (unread k))") (auto dest: sys_read_shorter)

declare crc_loop.simps [simp del]

definition GenerateCrc :: "kfile option \<Rightarrow> kfile option \<Rightarrow> kfile outcome option" where
  "GenerateCrc source dest =
     (case (source, dest) of
        (Some hRead, Some hWrite) \<Rightarrow>
          (case crc_loop hRead 0 of
             Inl e \<Rightarrow> Some (Inl e)
           | Inr c \<Rightarrow> WriteCrc c hWrite)
      | _ \<Rightarrow> Some die)"

section \<open>Comparing\<close>

text \<open>The size of a file in 32 bits; what cannot be positioned gives the error value.  The test of
a negative unsigned size is never true.\<close>

definition GetSize :: "kfile \<Rightarrow> 32 word \<times> kfile" where
  "GetSize k = (if seekable k then (of_nat (length (content k)), k\<lparr>koff := 0\<rparr>) else (0xffffffff, k))"

text \<open>The loop of \<^verbatim>\<open>ReadChunk\<close>: every read goes to the start of the chunk.\<close>

function chunk_loop :: "kfile \<Rightarrow> nat \<Rightarrow> nat \<Rightarrow> byte list \<Rightarrow> (nat \<times> byte list \<times> kfile) outcome" where
  "chunk_loop k n got chunk =
     (case sys_read k n of
        (None, _) \<Rightarrow> die
      | (Some bs, k') \<Rightarrow>
          let chunk' = bs @ drop (length bs) chunk in
          if bs = [] then Inr (got, chunk', k')
          else if length bs < n then chunk_loop k' (n - length bs) (got + length bs) chunk'
          else Inr (got + length bs, chunk', k'))"
  by pat_completeness auto
termination
  by (relation "measure (\<lambda>(k, n, got, chunk). n)") auto

declare chunk_loop.simps [simp del]

definition ReadChunk :: "byte list \<Rightarrow> kfile \<Rightarrow> (nat \<times> byte list \<times> kfile) outcome" where
  "ReadChunk chunk k = chunk_loop k CHUNKSIZE 0 chunk"

lemma chunk_loop_consumes:
  "chunk_loop k n got chunk = Inr (m, c, k') \<Longrightarrow> length (unread k') + m = length (unread k) + got"
proof (induction k n got chunk rule: chunk_loop.induct)
  case (1 k n got chunk)
  from 1(2) obtain bs k1 where r: "sys_read k n = (Some bs, k1)"
    by (subst (asm) chunk_loop.simps) (auto simp: die_def split: prod.splits option.splits)
  note u = sys_read_consumes [OF r]
  show ?case
  proof (cases "bs \<noteq> [] \<and> length bs < n")
    case True
    with 1(2) r have "chunk_loop k1 (n - length bs) (got + length bs) (bs @ drop (length bs) chunk) = Inr (m, c, k')"
      by (subst (asm) chunk_loop.simps) (simp add: Let_def)
    with 1(1) [OF r [symmetric] refl refl] True u(1) show ?thesis by simp
  next
    case False
    with 1(2) r u(1) show ?thesis
      by (subst (asm) chunk_loop.simps) (auto simp: Let_def split: if_splits)
  qed
qed

text \<open>The loop of \<^verbatim>\<open>CompareFiles\<close>.\<close>

function compare_loop :: "kfile \<Rightarrow> kfile \<Rightarrow> bool outcome" where
  "compare_loop k1 k2 =
     obind (ReadChunk (replicate CHUNKSIZE 0) k1) (\<lambda>(n1, chunk1, k1').
     obind (ReadChunk (replicate CHUNKSIZE 0) k2) (\<lambda>(n2, chunk2, k2').
       if n1 = 0 then Inr True
       else if chunk1 \<noteq> chunk2 then Inr False
       else compare_loop k1' k2'))"
  by pat_completeness auto
termination
  by (relation "measure (\<lambda>(k1, k2). length (unread k1))")
    (auto simp: ReadChunk_def dest: chunk_loop_consumes)

declare compare_loop.simps [simp del]

definition CompareFiles :: "kfile option \<Rightarrow> kfile option \<Rightarrow> (string \<times> bool) outcome" where
  "CompareFiles file1 file2 =
     (case (file1, file2) of
        (Some k1, Some k2) \<Rightarrow>
          let (size1, k1') = GetSize k1; (size2, k2') = GetSize k2 in
          if size1 \<noteq> size2 then Inr (''Files are of different sizes\<newline>'', False)
          else obind (compare_loop k1' k2') (\<lambda>r. Inr ([], r))
      | _ \<Rightarrow> die)"

section \<open>The program\<close>

text \<open>\<open>read\<close> and \<open>create\<close> open a file for reading and create an empty one; the result is what
is printed and the file that is written.\<close>

definition crc_main :: "(string \<Rightarrow> kfile option) \<Rightarrow> (string \<Rightarrow> kfile option) \<Rightarrow> string list \<Rightarrow> (string \<times> kfile option) outcome option" where
  "crc_main read create argv =
     (if length argv \<noteq> 4 then Some die
      else
        case (if argv ! 1 = ''-g'' then map_option (\<lambda>r. obind r (\<lambda>k. Inr (Some k))) (GenerateCrc (read (argv ! 2)) (create (argv ! 3)))
              else Some (Inr None)) of
          None \<Rightarrow> None
        | Some g \<Rightarrow> Some (obind g (\<lambda>out.
            if argv ! 1 = ''-c'' then
              obind (CompareFiles (read (argv ! 2)) (read (argv ! 3))) (\<lambda>(msg, equal).
                Inr (msg @ (if equal then ''Files are equal\<newline>'' else ''Files differ\<newline>''), out))
            else Inr ([], out))))"

section \<open>Properties\<close>

lemma crc_loop_eq:
  "prompt d k \<Longrightarrow> crc_loop k c = Inr (crc32 c (unread k))"
proof (induction k c rule: crc_loop.induct)
  case (1 k c)
  obtain bs k' where r: "sys_read k BUFSZ = (Some bs, k')" "prompt d k'" "unread k = bs @ unread k'"
    "bs = [] \<longrightarrow> unread k = []"
    using rd.get_moves [OF 1(2), of BUFSZ] by (auto simp: BUFSZ_def)
  show ?case
  proof (cases "bs = []")
    case True
    with r show ?thesis by (simp add: crc_loop.simps [of k])
  next
    case False
    have "update_crc c (Some (bs @ replicate (BUFSZ - length bs) 0)) (length bs) = crc32 c bs"
      using update_crc_eq [of "length bs" "bs @ replicate (BUFSZ - length bs) 0" c] by simp
    with 1(1) [OF r(1) [symmetric] refl False r(2)] False r show ?thesis
      by (simp add: crc_loop.simps [of k] crc32_append)
  qed
qed

text \<open>Generating the checksum of a file writes the four bytes of the checksum of its whole
content, lowest first, however the reads split the file.\<close>

theorem generate_writes_crc:
  assumes "prompt c k" and "koff k = 0" and "writable d" and "plan d = []" and "content d = []" and "koff d = 0"
  shows "\<exists>d'. GenerateCrc (Some k) (Some d) = Some (Inr d') \<and> content d' = int_bytes (crc32 0 c)"
proof -
  have "unread k = c" using assms(1,2) by (simp add: prompt_def steady_read_def unread_def)
  then have "GenerateCrc (Some k) (Some d) = write_loop d (int_bytes (crc32 0 c)) 4"
    using crc_loop_eq [OF assms(1)] by (simp add: GenerateCrc_def WriteCrc_def)
  moreover have "sys_write d (take 4 (int_bytes (crc32 0 c))) = (4, write_at d (int_bytes (crc32 0 c)))"
    using assms(3,4) by (simp add: sys_write_def next_limit_def int_bytes_def)
  ultimately have "GenerateCrc (Some k) (Some d) = Some (Inr (write_at d (int_bytes (crc32 0 c))))"
    by (simp add: write_loop.simps [of d])
  moreover have "content (write_at d (int_bytes (crc32 0 c))) = int_bytes (crc32 0 c)"
    using assms(5,6) by (simp add: write_at_def splice_def int_bytes_def)
  ultimately show ?thesis by blast
qed

definition disk_file :: "byte list \<Rightarrow> limit list \<Rightarrow> kfile" where
  "disk_file c ls = \<lparr>content = c, koff = 0, kappend = False, readable = True, writable = True, seekable = True, plan = ls\<rparr>"

lemma generate_writes_crc_witness:
  "\<exists>d'. GenerateCrc (Some (disk_file [49, 50] [AtMost 1])) (Some (disk_file [] [])) = Some (Inr d')
     \<and> content d' = int_bytes (crc32 0 [49, 50])"
  by (rule generate_writes_crc) (simp_all add: disk_file_def prompt_def steady_read_def)

text \<open>Chunks of a file that is read without limits.\<close>

lemma ReadChunk_full:
  assumes "plan k = []" "readable k"
  defines "t \<equiv> take CHUNKSIZE (unread k)"
  shows "ReadChunk (replicate CHUNKSIZE 0) k
    = Inr (length t, t @ replicate (CHUNKSIZE - length t) 0, k\<lparr>koff := koff k + length t\<rparr>)"
proof -
  let ?k = "k\<lparr>koff := koff k + length t\<rparr>"
  have r: "sys_read k CHUNKSIZE = (Some t, ?k)"
    using assms(1,2) by (simp add: sys_read_full t_def unread_def)
  have e: "sys_read ?k n = (Some [], ?k)" if "length t < CHUNKSIZE" for n
    using assms(1,2) that by (simp add: sys_read_full t_def unread_def min_def split: if_splits) arith
  have d: "drop (length t) (replicate CHUNKSIZE (0 :: byte)) = replicate (CHUNKSIZE - length t) 0" by simp
  have "length t \<le> CHUNKSIZE" by (simp add: t_def)
  then consider "t = []" | "t \<noteq> []" "length t < CHUNKSIZE" | "t \<noteq> []" "length t = CHUNKSIZE" by fastforce
  then show ?thesis
    unfolding ReadChunk_def
    by cases (use r d e in \<open>simp_all add: chunk_loop.simps [of k] chunk_loop.simps [of ?k] Let_def\<close>)
qed

lemma compare_loop_eq:
  assumes "plan k1 = []" "readable k1" "plan k2 = []" "readable k2" "length (unread k1) = length (unread k2)"
  shows "compare_loop k1 k2 = Inr (unread k1 = unread k2)"
  using assms
proof (induction "length (unread k1)" arbitrary: k1 k2 rule: less_induct)
  case less
  let ?t1 = "take CHUNKSIZE (unread k1)" and ?t2 = "take CHUNKSIZE (unread k2)"
  let ?k1 = "k1\<lparr>koff := koff k1 + length ?t1\<rparr>" and ?k2 = "k2\<lparr>koff := koff k2 + length ?t2\<rparr>"
  have l: "length ?t1 = length ?t2" using less.prems by simp
  have z: "unread k1 = [] \<longleftrightarrow> unread k2 = []" using less.prems(5) by (metis length_0_conv)
  have c: "compare_loop k1 k2 = (if ?t1 = [] then Inr True else if ?t1 \<noteq> ?t2 then Inr False else compare_loop ?k1 ?k2)"
    using l by (subst compare_loop.simps) (auto simp: ReadChunk_full less.prems z simp del: length_take)
  have u: "unread ?k1 = drop CHUNKSIZE (unread k1)" "unread ?k2 = drop CHUNKSIZE (unread k2)"
    by (auto simp: unread_def min_def add.commute)
  have eq: "unread k1 = unread k2 \<longleftrightarrow> ?t1 = ?t2 \<and> unread ?k1 = unread ?k2"
    unfolding u by (metis append_take_drop_id)
  show ?case
  proof (cases "?t1 = []")
    case True
    with less.prems(5) show ?thesis by (simp add: c CHUNKSIZE_def)
  next
    case False
    then have "length (unread ?k1) < length (unread k1)" unfolding u by (simp add: CHUNKSIZE_def)
    then have "compare_loop ?k1 ?k2 = Inr (unread ?k1 = unread ?k2)"
      by (rule less.hyps) (use less.prems in \<open>simp_all add: u del: length_take\<close>)
    with False show ?thesis unfolding c eq by (cases "?t1 = ?t2") (simp_all del: length_take)
  qed
qed

text \<open>Comparing two files that are read without short reads says that they are equal exactly when
their contents are, for sizes below 4 GB.\<close>

theorem compare_decides_equality:
  assumes "plan k1 = []" "readable k1" "seekable k1" "plan k2 = []" "readable k2" "seekable k2"
    and "length (content k1) < 2 ^ 32" "length (content k2) < 2 ^ 32"
  shows "\<exists>msg. CompareFiles (Some k1) (Some k2) = Inr (msg, content k1 = content k2)"
proof (cases "length (content k1) = length (content k2)")
  case True
  with assms show ?thesis
    by (simp add: CompareFiles_def GetSize_def compare_loop_eq unread_def)
next
  case False
  have u: "unat (of_nat n :: 32 word) = n" if "n < 2 ^ 32" for n
    using that by (simp add: unat_of_nat)
  from False u [OF assms(7)] u [OF assms(8)]
  have "(of_nat (length (content k1)) :: 32 word) \<noteq> of_nat (length (content k2))" by metis
  moreover from False have "content k1 \<noteq> content k2" by auto
  ultimately show ?thesis using assms by (simp add: CompareFiles_def GetSize_def)
qed

lemma compare_decides_equality_witness:
  "\<exists>msg. CompareFiles (Some (disk_file [1, 2] [])) (Some (disk_file [1, 3] [])) = Inr (msg, False)"
  using compare_decides_equality [of "disk_file [1, 2] []" "disk_file [1, 3] []"] by (simp add: disk_file_def)

text \<open>The loops start again from the beginning of their buffer after a short transfer: files that
differ are then said to be equal, and a checksum is written with its first byte twice and without
its last.\<close>

theorem short_transfers_break_crc:
  "CompareFiles (Some (disk_file [a, x] [AtMost 1])) (Some (disk_file [b, x] [AtMost 1])) = Inr ([], True)
   \<and> (\<exists>d. WriteCrc c (disk_file [] [AtMost 1]) = Some (Inr d) \<and> length (content d) = 4
        \<and> content d = hd (int_bytes c) # butlast (int_bytes c))"
proof -
  have read: "sys_read (disk_file [a, x] [AtMost 1]) 32 = (Some [a], (disk_file [a, x] [])\<lparr>koff := 1\<rparr>)" for a
    by (simp add: sys_read_def next_limit_def disk_file_def)
  have read1: "sys_read ((disk_file [a, x] [])\<lparr>koff := 1\<rparr>) 31 = (Some [x], (disk_file [a, x] [])\<lparr>koff := 2\<rparr>)" for a
    by (simp add: sys_read_full disk_file_def)
  have read2: "sys_read ((disk_file [a, x] [])\<lparr>koff := 2\<rparr>) n = (Some [], (disk_file [a, x] [])\<lparr>koff := 2\<rparr>)" for a n
    by (simp add: sys_read_full disk_file_def)
  have chunk: "ReadChunk (replicate CHUNKSIZE 0) (disk_file [a, x] [AtMost 1]) = Inr (2, x # replicate 31 0, (disk_file [a, x] [])\<lparr>koff := 2\<rparr>)" for a
    unfolding ReadChunk_def CHUNKSIZE_def
    by (simp add: chunk_loop.simps [of "disk_file [a, x] [AtMost 1]"] chunk_loop.simps [of "(disk_file [a, x] [])\<lparr>koff := 1\<rparr>"]
        chunk_loop.simps [of "(disk_file [a, x] [])\<lparr>koff := 2\<rparr>"] read read1 read2 Let_def del: One_nat_def)
  have last: "compare_loop ((disk_file [a, x] [])\<lparr>koff := 2\<rparr>) ((disk_file [b, x] [])\<lparr>koff := 2\<rparr>) = Inr True"
    by (subst compare_loop_eq) (simp_all add: disk_file_def unread_def)
  have size: "GetSize (disk_file [a, x] [AtMost 1]) = (2, disk_file [a, x] [AtMost 1])" for a
    by (simp add: GetSize_def disk_file_def)
  have "CompareFiles (Some (disk_file [a, x] [AtMost 1])) (Some (disk_file [b, x] [AtMost 1])) = Inr ([], True)"
    by (simp add: CompareFiles_def size compare_loop.simps [of "disk_file [a, x] [AtMost 1]"] chunk last del: One_nat_def)
  moreover have w: "sys_write (disk_file [] [AtMost 1]) (take 4 (int_bytes c))
      = (1, (disk_file [hd (int_bytes c)] [])\<lparr>koff := 1\<rparr>)"
    by (simp add: sys_write_def next_limit_def disk_file_def write_at_def splice_def int_bytes_def)
  moreover have w1: "sys_write ((disk_file [hd (int_bytes c)] [])\<lparr>koff := 1\<rparr>) (take 3 (int_bytes c))
      = (3, (disk_file (hd (int_bytes c) # butlast (int_bytes c)) [])\<lparr>koff := 4\<rparr>)"
    by (simp add: sys_write_def next_limit_def disk_file_def write_at_def splice_def int_bytes_def)
  moreover have "WriteCrc c (disk_file [] [AtMost 1]) = Some (Inr ((disk_file (hd (int_bytes c) # butlast (int_bytes c)) [])\<lparr>koff := 4\<rparr>))"
    using w w1 unfolding WriteCrc_def
    by (simp add: write_loop.simps [of "disk_file [] [AtMost 1]"] write_loop.simps [of "(disk_file [hd (int_bytes c)] [])\<lparr>koff := 1\<rparr>"]
        del: One_nat_def)
  moreover have "content ((disk_file (hd (int_bytes c) # butlast (int_bytes c)) [])\<lparr>koff := 4\<rparr>) = hd (int_bytes c) # butlast (int_bytes c)"
    "length (hd (int_bytes c) # butlast (int_bytes c)) = 4"
    by (simp_all add: disk_file_def int_bytes_def)
  ultimately show ?thesis by metis
qed

end
