(* ===== verification/ParSort.thy ===== *)
theory ParSort
  imports Prelude "HOL-Library.Word" "HOL-Library.Multiset"
begin

text \<open>
  The parallel merge sort of the ninth laboratory, \<^verbatim>\<open>labs/lab09/sol/win/7-sort/sort.c\<close>: each of
  eight threads sorts a chunk of a mapped file, then some of them wait for others and merge.
\<close>

type_synonym dword = "32 word"

definition NO_THREADS :: nat where "NO_THREADS = 8"

section \<open>Merging\<close>

definition CompareFunc :: "dword \<Rightarrow> dword \<Rightarrow> int" where
  "CompareFunc a b = (if a < b then -1 else if b < a then 1 else 0)"

text \<open>The loop of \<^verbatim>\<open>MergeChunks\<close> and the copy of what is left, on the parts not yet taken.\<close>

fun merge_loop :: "dword list \<Rightarrow> dword list \<Rightarrow> dword list" where
  "merge_loop (a # src) (b # dst) =
     (if CompareFunc a b < 0 then a # merge_loop src (b # dst) else b # merge_loop (a # src) dst)"
| "merge_loop src [] = src"
| "merge_loop [] dst = dst"

definition MergeChunks :: "dword list \<Rightarrow> dword list \<Rightarrow> dword list" where
  "MergeChunks src dst = merge_loop src dst"

section \<open>Threads\<close>

text \<open>
  \<^verbatim>\<open>thData\<close> of each thread, the variable \<^verbatim>\<open>pow2\<close> of each (0 before it has sorted its chunk), and
  which threads have ended.
\<close>

record threads =
  lpChunk :: "nat \<Rightarrow> dword list"
  pow2 :: "nat \<Rightarrow> nat"
  ended :: "nat \<Rightarrow> bool"

text \<open>The condition of the loop of \<^verbatim>\<open>ThreadFunc\<close>.\<close>

definition merges :: "nat \<Rightarrow> nat \<Rightarrow> bool" where
  "merges i p \<longleftrightarrow> i mod (2 * p) = 0 \<and> i + p < NO_THREADS"

text \<open>\<^verbatim>\<open>ThreadFunc\<close>: sorting the own chunk, one round of the loop once the other thread has ended,
and the end.  \<^verbatim>\<open>qsort\<close> of the C library sorts.\<close>

definition sort_chunk :: "nat \<Rightarrow> threads \<Rightarrow> threads" where
  "sort_chunk i s = s\<lparr>lpChunk := (lpChunk s)(i := sort (lpChunk s i)), pow2 := (pow2 s)(i := 1)\<rparr>"

definition merge_chunk :: "nat \<Rightarrow> threads \<Rightarrow> threads" where
  "merge_chunk i s =
     s\<lparr>lpChunk := (lpChunk s)(i := MergeChunks (lpChunk s i) (lpChunk s (i + pow2 s i))),
       pow2 := (pow2 s)(i := 2 * pow2 s i)\<rparr>"

inductive thread_step :: "threads \<Rightarrow> threads \<Rightarrow> bool" where
  sorts: "i < NO_THREADS \<Longrightarrow> pow2 s i = 0 \<Longrightarrow> thread_step s (sort_chunk i s)"
| merges: "i < NO_THREADS \<Longrightarrow> pow2 s i \<noteq> 0 \<Longrightarrow> \<not> ended s i \<Longrightarrow> merges i (pow2 s i) \<Longrightarrow> ended s (i + pow2 s i)
    \<Longrightarrow> thread_step s (merge_chunk i s)"
| ends: "i < NO_THREADS \<Longrightarrow> pow2 s i \<noteq> 0 \<Longrightarrow> \<not> ended s i \<Longrightarrow> \<not> merges i (pow2 s i)
    \<Longrightarrow> thread_step s (s\<lparr>ended := (ended s)(i := True)\<rparr>)"

inductive_cases thread_stepE: "thread_step s s'"

section \<open>Setting up\<close>

definition chunk_size :: "dword \<Rightarrow> dword" where
  "chunk_size N = (N - 1 + 8) div 8"

definition chunk_len :: "dword \<Rightarrow> nat \<Rightarrow> dword" where
  "chunk_len N i =
     (if (of_nat i + 1) * chunk_size N > N then N - of_nat i * chunk_size N else chunk_size N)"

text \<open>
  \<^verbatim>\<open>init_setup\<close> on a file of \<open>fsize\<close> bytes that is mapped to the words \<open>pmap\<close>; an empty file cannot be
  mapped, and a chunk that reaches out of the mapping is an access outside it.
\<close>

definition init_setup :: "dword \<Rightarrow> dword list \<Rightarrow> threads outcome" where
  "init_setup fsize pmap =
     (if fsize = 0xffffffff \<or> fsize = 0 then Inl (ExitWith 1)
      else
        let N = fsize div 4; start = (\<lambda>i. i * unat (chunk_size N)); len = (\<lambda>i. unat (chunk_len N i)) in
        if \<forall>i < NO_THREADS. len i = 0 \<or> start i + len i \<le> unat N then
          Inr \<lparr>lpChunk = (\<lambda>i. take (len i) (drop (start i) pmap)), pow2 = (\<lambda>_. 0), ended = (\<lambda>_. False)\<rparr>
        else Inl Undefined)"

text \<open>The check of \<^verbatim>\<open>main\<close>: the pairs that are reported as out of order; \<^verbatim>\<open>N - 1\<close> wraps around.\<close>

definition check_sorted :: "dword list \<Rightarrow> dword \<Rightarrow> (dword \<times> dword) list outcome" where
  "check_sorted xs N =
     (if N - 1 \<noteq> 0 \<and> length xs \<le> unat (N - 1) then Inl Undefined
      else Inr (map (\<lambda>i. (xs ! i, xs ! (i + 1))) (filter (\<lambda>i. xs ! i > xs ! (i + 1)) [0..<unat (N - 1)])))"

section \<open>Merging is correct\<close>

lemma mset_merge_loop: "mset (merge_loop xs ys) = mset xs + mset ys"
  by (induction xs ys rule: merge_loop.induct) auto

lemma set_merge_loop: "set (merge_loop xs ys) = set xs \<union> set ys"
  by (metis mset_merge_loop set_mset_mset set_mset_union)

lemma sorted_merge_loop: "sorted xs \<Longrightarrow> sorted ys \<Longrightarrow> sorted (merge_loop xs ys)"
  by (induction xs ys rule: merge_loop.induct) (auto simp: set_merge_loop CompareFunc_def not_less split: if_splits)

section \<open>Every schedule sorts\<close>

text \<open>The numbers of the threads whose chunks have been collected by thread \<open>i\<close>.\<close>

definition covered :: "nat \<Rightarrow> nat \<Rightarrow> nat set" where
  "covered i p = {i..<min (i + p) NO_THREADS}"

definition powers :: "nat set" where "powers = {1, 2, 4, 8}"

definition sort_inv :: "(nat \<Rightarrow> dword list) \<Rightarrow> threads \<Rightarrow> bool" where
  "sort_inv orig s \<longleftrightarrow> (\<forall>i < NO_THREADS.
     (pow2 s i = 0 \<longrightarrow> lpChunk s i = orig i \<and> \<not> ended s i) \<and>
     (pow2 s i \<noteq> 0 \<longrightarrow> pow2 s i \<in> powers \<and> i mod pow2 s i = 0 \<and> sorted (lpChunk s i)
        \<and> mset (lpChunk s i) = (\<Sum>j\<in>covered i (pow2 s i). mset (orig j))) \<and>
     (ended s i \<longrightarrow> \<not> merges i (pow2 s i)))"

lemma covered_1: "i < NO_THREADS \<Longrightarrow> covered i 1 = {i}"
  by (auto simp: covered_def)

text \<open>When a thread has ended it holds all that its merging partner expects.\<close>

lemma partner_complete:
  assumes "p \<in> powers" "q \<in> powers" "i mod p = 0" "merges i p" "(i + p) mod q = 0" "\<not> merges (i + p) q"
  shows "covered (i + p) q = covered (i + p) p" and "2 * p \<in> powers"
proof -
  have i: "i \<in> {0, 1, 2, 3, 4, 5, 6, 7}" using assms(4) by (auto simp: merges_def NO_THREADS_def)
  show "covered (i + p) q = covered (i + p) p"
    using assms(1,2) i assms(3-6)
    unfolding powers_def
    by (elim insertE emptyE) (simp_all add: merges_def NO_THREADS_def covered_def)
  show "2 * p \<in> powers" using assms(1) i assms(4) unfolding powers_def
    by (elim insertE emptyE) (simp_all add: merges_def NO_THREADS_def)
qed

lemma covered_double:
  assumes "i + p < NO_THREADS"
  shows "covered i (2 * p) = covered i p \<union> covered (i + p) p" "covered i p \<inter> covered (i + p) p = {}"
  using assms by (auto simp: covered_def)

lemma sort_inv_sorts:
  assumes "sort_inv orig s" "i < NO_THREADS" "pow2 s i = 0"
  shows "sort_inv orig (sort_chunk i s)"
proof -
  have "lpChunk s i = orig i" "\<not> ended s i" using assms by (auto simp: sort_inv_def)
  then show ?thesis
    using assms by (auto simp: sort_inv_def sort_chunk_def covered_1 powers_def simp del: One_nat_def)
qed

lemma sort_inv_merges:
  assumes "sort_inv orig s" "i < NO_THREADS" "pow2 s i \<noteq> 0" "\<not> ended s i" "merges i (pow2 s i)" "ended s (i + pow2 s i)"
  shows "sort_inv orig (merge_chunk i s)"
proof -
  let ?p = "pow2 s i" and ?k = "i + pow2 s i"
  let ?q = "pow2 s ?k"
  have k: "?k < NO_THREADS" using assms(5) by (simp add: merges_def)
  have own: "?p \<in> powers" "i mod ?p = 0" "sorted (lpChunk s i)" "mset (lpChunk s i) = (\<Sum>j\<in>covered i ?p. mset (orig j))"
    using assms(1-3) by (auto simp: sort_inv_def)
  have other: "?q \<in> powers" "?k mod ?q = 0" "sorted (lpChunk s ?k)" "mset (lpChunk s ?k) = (\<Sum>j\<in>covered ?k ?q. mset (orig j))"
    "\<not> merges ?k ?q"
    using assms(1,6) k by (auto simp: sort_inv_def)
  have same: "covered ?k ?q = covered ?k ?p" and pow: "2 * ?p \<in> powers"
    using partner_complete [OF own(1) other(1) own(2) assms(5) other(2,5)] by auto
  have "mset (MergeChunks (lpChunk s i) (lpChunk s ?k)) = (\<Sum>j\<in>covered i (2 * ?p). mset (orig j))"
    unfolding MergeChunks_def mset_merge_loop own(4) other(4) same covered_double(1) [OF k]
    by (rule sum.union_disjoint [symmetric]) (use covered_double(2) [OF k] in \<open>auto simp: covered_def\<close>)
  moreover have "i mod (2 * ?p) = 0" using assms(5) by (simp add: merges_def)
  moreover have "sorted (MergeChunks (lpChunk s i) (lpChunk s ?k))"
    unfolding MergeChunks_def by (rule sorted_merge_loop) (rule own other)+
  ultimately show ?thesis
    using assms(1,3,4) pow by (auto simp: sort_inv_def merge_chunk_def)
qed

lemma sort_inv_step: "thread_step s s' \<Longrightarrow> sort_inv orig s \<Longrightarrow> sort_inv orig s'"
proof (induction rule: thread_step.induct)
  case (sorts i s)
  then show ?case by (intro sort_inv_sorts)
next
  case (merges i s)
  then show ?case by (intro sort_inv_merges)
next
  case (ends i s)
  then show ?case by (auto simp: sort_inv_def)
qed

lemma sort_inv_run: "thread_step\<^sup>*\<^sup>* s s' \<Longrightarrow> sort_inv orig s \<Longrightarrow> sort_inv orig s'"
  by (induction rule: rtranclp_induct) (auto intro: sort_inv_step)

text \<open>What thread 0 holds at the end.\<close>

lemma sort_inv_result:
  assumes "sort_inv orig s" "ended s 0"
  shows "sorted (lpChunk s 0)" "mset (lpChunk s 0) = (\<Sum>j<8. mset (orig j))"
proof -
  note inv = assms(1) [unfolded sort_inv_def, THEN spec, of 0]
  have p: "pow2 s 0 \<noteq> 0" "\<not> merges 0 (pow2 s 0)"
    using inv assms(2) by (auto simp: NO_THREADS_def)
  then have "pow2 s 0 \<in> powers" using inv by (auto simp: NO_THREADS_def)
  with p have "covered 0 (pow2 s 0) = {..<8}" by (auto simp: merges_def powers_def covered_def NO_THREADS_def)
  with inv p show "sorted (lpChunk s 0)" "mset (lpChunk s 0) = (\<Sum>j<8. mset (orig j))"
    by (auto simp: NO_THREADS_def)
qed

section \<open>Every schedule ends\<close>

definition work_left :: "threads \<Rightarrow> nat \<Rightarrow> nat" where
  "work_left s i = (if ended s i then 0 else 17 - pow2 s i)"

lemma inv_bounds:
  assumes "sort_inv orig s" "i < NO_THREADS"
  shows "pow2 s i \<le> 8" "pow2 s i = 0 \<longrightarrow> \<not> ended s i"
  using assms(1) [unfolded sort_inv_def, THEN spec, of i] assms(2) by (auto simp: powers_def)

lemma work_decreases:
  assumes "thread_step s s'" "sort_inv orig s"
  shows "(\<Sum>i<8. work_left s' i) < (\<Sum>i<8. work_left s i)"
proof -
  have "\<exists>i < NO_THREADS. (\<forall>j. j \<noteq> i \<longrightarrow> work_left s' j = work_left s j) \<and> work_left s' i < work_left s i"
    using assms(1)
  proof (cases rule: thread_step.cases)
    case (sorts i)
    with inv_bounds [OF assms(2), of i] show ?thesis
      by (intro exI [of _ i]) (simp add: sort_chunk_def work_left_def)
  next
    case (merges i)
    then have "pow2 s i < 8" by (simp add: merges_def NO_THREADS_def)
    with merges show ?thesis by (intro exI [of _ i]) (simp add: merge_chunk_def work_left_def)
  next
    case (ends i)
    with inv_bounds [OF assms(2), of i] show ?thesis by (intro exI [of _ i]) (simp add: work_left_def)
  qed
  then obtain i where i: "i < NO_THREADS" "\<And>j. j \<noteq> i \<Longrightarrow> work_left s' j = work_left s j" "work_left s' i < work_left s i"
    by blast
  then have "work_left s' j \<le> work_left s j" for j by (cases "j = i") simp_all
  with i(1,3) show ?thesis by (intro sum_strict_mono_ex1) (auto simp: NO_THREADS_def)
qed

lemma step_possible:
  assumes "sort_inv orig s" "\<exists>i<NO_THREADS. \<not> ended s i"
  shows "\<exists>s'. thread_step s s'"
proof -
  define i where "i = Max {i. i < NO_THREADS \<and> \<not> ended s i}"
  have "i \<in> {i. i < NO_THREADS \<and> \<not> ended s i}" unfolding i_def using assms(2) by (intro Max_in) auto
  then have i: "i < NO_THREADS" "\<not> ended s i" by auto
  have above: "ended s j" if "i < j" "j < NO_THREADS" for j
    using that Max_ge [of "{i. i < NO_THREADS \<and> \<not> ended s i}" j] unfolding i_def by fastforce
  consider "pow2 s i = 0" | "pow2 s i \<noteq> 0" "\<not> merges i (pow2 s i)" | "pow2 s i \<noteq> 0" "merges i (pow2 s i)" by blast
  then show ?thesis
  proof cases
    case 3
    then have "ended s (i + pow2 s i)" by (intro above) (simp_all add: merges_def)
    with 3 i show ?thesis by (intro exI) (rule thread_step.merges)
  qed (use i in \<open>blast intro: thread_step.sorts thread_step.ends\<close>)+
qed

lemma run_to_end: "sort_inv orig s \<Longrightarrow> \<exists>s'. thread_step\<^sup>*\<^sup>* s s' \<and> (\<forall>i < NO_THREADS. ended s' i)"
proof (induction "\<Sum>i<8. work_left s i" arbitrary: s rule: less_induct)
  case less
  show ?case
  proof (cases "\<forall>i < NO_THREADS. ended s i")
    case False
    then obtain s1 where s1: "thread_step s s1" using step_possible [OF less.prems] by auto
    with less.hyps [OF work_decreases [OF s1 less.prems] sort_inv_step [OF s1 less.prems]]
    show ?thesis by (meson converse_rtranclp_into_rtranclp)
  qed auto
qed

section \<open>Properties\<close>

lemma chunk_numbers:
  fixes N :: dword
  assumes "unat N < 2 ^ 30"
  defines "c \<equiv> (unat N + 7) div 8"
  shows "unat (chunk_size N) = c"
    and "i < 8 \<Longrightarrow> unat (chunk_len N i) = 0 \<or> i * c + unat (chunk_len N i) \<le> unat N \<longleftrightarrow> i * c \<le> unat N"
    and "i < 8 \<Longrightarrow> i * c \<le> unat N \<Longrightarrow> unat (chunk_len N i) = min c (unat N - i * c)"
proof -
  have "N - 1 + 8 = N + 7" by simp
  then show size: "unat (chunk_size N) = c"
    using assms(1) by (simp add: chunk_size_def c_def unat_div unat_word_ariths)
  have c: "8 * c \<le> unat N + 7" by (simp add: c_def)
  have n: "unat N < 1073741824" using assms(1) by simp
  have prod: "unat (of_nat i * chunk_size N) = i * c" if "i \<le> 8" for i
  proof -
    have "i * c \<le> 8 * c" by (rule mult_le_mono1 [OF that])
    with c n have "i * c < 4294967296" by linarith
    with that show ?thesis by (simp add: unat_word_ariths size unat_of_nat)
  qed
  have next_start: "unat ((of_nat i + 1) * chunk_size N) = (i + 1) * c" if "i < 8" for i
    using prod [of "i + 1"] that by (simp add: add.commute)
  have wrap: "unat (N - of_nat i * chunk_size N) = (if i * c \<le> unat N then unat N - i * c else unat N + 2 ^ 32 - i * c)" if "i < 8" for i
    using that by (simp add: unat_sub_if' prod)
  have len: "unat (chunk_len N i) =
      (if unat N < (i + 1) * c then (if i * c \<le> unat N then unat N - i * c else unat N + 2 ^ 32 - i * c) else c)" if "i < 8" for i
    using wrap [OF that] next_start [OF that] by (simp add: chunk_len_def word_less_nat_alt size)
  have small: "i * c < 2 ^ 32" if "i < 8" for i
  proof -
    have "i * c \<le> 8 * c" by (rule mult_le_mono1) (use that in simp)
    with c n have "i * c < 4294967296" by linarith
    then show ?thesis by simp
  qed
  show "i < 8 \<Longrightarrow> unat (chunk_len N i) = 0 \<or> i * c + unat (chunk_len N i) \<le> unat N \<longleftrightarrow> i * c \<le> unat N"
    using len [of i] small [of i] by (auto split: if_splits)
  show "i < 8 \<Longrightarrow> i * c \<le> unat N \<Longrightarrow> unat (chunk_len N i) = min c (unat N - i * c)"
    using len [of i] by (auto simp: min_def split: if_splits)
qed

lemma fsize_words:
  fixes fsize :: dword
  shows "unat (fsize div 4) < 2 ^ 30"
proof -
  have "unat fsize < 2 ^ LENGTH(32)" by (rule unsigned_less)
  then show ?thesis by (simp add: unat_div)
qed

lemma init_setup_eq:
  assumes "fsize \<noteq> 0xffffffff" "fsize \<noteq> 0"
  defines "n \<equiv> unat (fsize div 4)"
  defines "c \<equiv> (n + 7) div 8"
  shows "init_setup fsize pmap =
    (if 7 * c \<le> n then Inr \<lparr>lpChunk = (\<lambda>i. take (unat (chunk_len (fsize div 4) i)) (drop (i * c) pmap)), pow2 = (\<lambda>_. 0), ended = (\<lambda>_. False)\<rparr>
     else Inl Undefined)"
proof -
  note f = chunk_numbers [OF fsize_words [of fsize], folded n_def, folded c_def]
  have "(\<forall>i < NO_THREADS. i * c \<le> n) \<longleftrightarrow> 7 * c \<le> n"
  proof
    assume "7 * c \<le> n"
    moreover have "i * c \<le> 7 * c" if "i < 8" for i by (rule mult_le_mono1) (use that in simp)
    ultimately show "\<forall>i < NO_THREADS. i * c \<le> n" unfolding NO_THREADS_def by (meson le_trans)
  qed (auto simp: NO_THREADS_def)
  with f(2) have "(\<forall>i < NO_THREADS. unat (chunk_len (fsize div 4) i) = 0 \<or> i * c + unat (chunk_len (fsize div 4) i) \<le> n) \<longleftrightarrow> 7 * c \<le> n"
    by (auto simp: NO_THREADS_def)
  with assms(1,2) show ?thesis
    by (simp add: init_setup_def Let_def f(1) n_def [symmetric])
qed

lemma chunks_are_all:
  "(\<Sum>i<k. mset (take c (drop (i * c) xs))) = mset (take (k * c) xs)"
proof (induction k)
  case (Suc k)
  have "take (Suc k * c) xs = take (k * c) xs @ take c (drop (k * c) xs)"
    unfolding mult_Suc add.commute [of c] by (rule take_add)
  with Suc show ?case by simp
qed simp

text \<open>The division of a file into chunks works exactly for the sizes of which seven chunks are
not too many; otherwise, as for nine numbers, the length of a chunk wraps around and a thread
sorts memory outside the mapping.\<close>

theorem chunks_fit:
  fixes fsize :: dword
  assumes "fsize \<noteq> 0xffffffff" "fsize \<noteq> 0" and "n = unat (fsize div 4)"
  shows "((\<exists>s. init_setup fsize pmap = Inr s) \<longleftrightarrow> 7 * ((n + 7) div 8) \<le> n) \<and> init_setup 36 pmap = Inl Undefined"
proof
  show "(\<exists>s. init_setup fsize pmap = Inr s) \<longleftrightarrow> 7 * ((n + 7) div 8) \<le> n"
    unfolding init_setup_eq [OF assms(1,2)] assms(3) [symmetric] by simp
  have "(36 :: dword) div 4 = 9" by simp
  then have "unat ((36 :: dword) div 4) = 9" by simp
  with init_setup_eq [of 36 pmap] show "init_setup 36 pmap = Inl Undefined" by simp
qed

lemma chunks_fit_witness: "\<not> (\<exists>s. init_setup 40 [] = Inr s)"
proof -
  have "(\<exists>s. init_setup 40 [] = Inr s) \<longleftrightarrow> 7 * ((10 + 7) div 8) \<le> (10 :: nat)"
    by (rule chunks_fit [THEN conjunct1]) simp_all
  then show ?thesis by simp
qed

text \<open>Where every run starts.\<close>

lemma sort_inv_init:
  assumes "init_setup fsize pmap = Inr s" and "length pmap = unat (fsize div 4)"
  shows "sort_inv (lpChunk s) s" and "(\<Sum>j<8. mset (lpChunk s j)) = mset pmap"
proof -
  define n c where "n = unat (fsize div 4)" and "c = (n + 7) div 8"
  from assms(1) have nz: "fsize \<noteq> 0xffffffff" "fsize \<noteq> 0" by (auto simp: init_setup_def split: if_splits)
  note f = init_setup_eq [OF this, of pmap, folded n_def, folded c_def]
  with assms(1) have le: "7 * c \<le> n"
    and s: "s = \<lparr>lpChunk = (\<lambda>i. take (unat (chunk_len (fsize div 4) i)) (drop (i * c) pmap)), pow2 = (\<lambda>_. 0), ended = (\<lambda>_. False)\<rparr>"
    by (auto split: if_splits)
  show "sort_inv (lpChunk s) s" by (simp add: s sort_inv_def)
  have "lpChunk s i = take c (drop (i * c) pmap)" if "i < 8" for i
  proof -
    have "i * c \<le> 7 * c" by (rule mult_le_mono1) (use that in simp)
    with le have "i * c \<le> n" by (rule order_trans [rotated])
    then have "unat (chunk_len (fsize div 4) i) = min c (n - i * c)"
      by (rule chunk_numbers(3) [OF fsize_words [of fsize] that, folded n_def, folded c_def])
    with assms(2) show ?thesis by (simp add: s n_def min_def)
  qed
  then have "(\<Sum>j<8. mset (lpChunk s j)) = (\<Sum>j<8. mset (take c (drop (j * c) pmap)))" by simp
  also have "\<dots> = mset (take (8 * c) pmap)" by (rule chunks_are_all)
  also have "take (8 * c) pmap = pmap" using assms(2) by (simp add: n_def c_def)
  finally show "(\<Sum>j<8. mset (lpChunk s j)) = mset pmap" .
qed

text \<open>C12: In every interleaving of the threads, when thread 0 has ended its chunk is the content of the
file in order, and the check of the main program reports nothing.\<close>

theorem every_schedule_sorts:
  assumes "init_setup fsize pmap = Inr s\<^sub>0" and "length pmap = unat (fsize div 4)" and "pmap \<noteq> []"
    and "thread_step\<^sup>*\<^sup>* s\<^sub>0 s" and "ended s 0"
  shows "lpChunk s 0 = sort pmap \<and> check_sorted (lpChunk s 0) (fsize div 4) = Inr []"
proof -
  note inv = sort_inv_run [OF assms(4) sort_inv_init(1) [OF assms(1,2)]]
  have m: "sorted (lpChunk s 0)" "mset (lpChunk s 0) = mset pmap"
    using sort_inv_result [OF inv assms(5)] sort_inv_init(2) [OF assms(1,2)] by simp_all
  then have e: "lpChunk s 0 = sort pmap" using properties_for_sort [OF m(2,1)] by simp
  have n: "unat (fsize div 4 - 1) = length pmap - 1"
    using assms(2,3) by (simp add: unat_sub_if' unat_eq_zero) (metis Suc_leI length_greater_0_conv)
  have "xs ! i \<le> xs ! Suc i" if "sorted xs" "Suc i < length xs" for xs :: "dword list" and i
    using that by (simp add: sorted_nth_mono)
  with e n assms(3) have "filter (\<lambda>i. lpChunk s 0 ! i > lpChunk s 0 ! (i + 1)) [0..<unat (fsize div 4 - 1)] = []"
    by (auto simp: filter_empty_conv not_less)
  moreover have "\<not> length pmap \<le> length pmap - 1" using assms(3) by (cases pmap) auto
  ultimately show ?thesis using e n by (simp add: check_sorted_def)
qed

definition sample_words :: "dword list" where "sample_words = [18, 17, 16, 15, 14, 13, 12, 11]"

lemma sample_init: "\<exists>s. init_setup 32 sample_words = Inr s" "length sample_words = unat ((32 :: dword) div 4)"
proof -
  have d: "(32 :: dword) div 4 = 8" by simp
  then have "unat ((32 :: dword) div 4) = 8" by simp
  then show "\<exists>s. init_setup 32 sample_words = Inr s" using init_setup_eq [of 32 sample_words] by simp
  show "length sample_words = unat ((32 :: dword) div 4)" unfolding d by (simp add: sample_words_def)
qed

lemma every_schedule_sorts_witness:
  "\<exists>s\<^sub>0 s. init_setup 32 sample_words = Inr s\<^sub>0 \<and> thread_step\<^sup>*\<^sup>* s\<^sub>0 s \<and> lpChunk s 0 = [11, 12, 13, 14, 15, 16, 17, 18]"
proof -
  obtain s0 where s0: "init_setup 32 sample_words = Inr s0" using sample_init(1) by blast
  obtain s where s: "thread_step\<^sup>*\<^sup>* s0 s" "\<forall>i < NO_THREADS. ended s i"
    using run_to_end [OF sort_inv_init(1) [OF s0 sample_init(2)]] by blast
  have "lpChunk s 0 = sort sample_words"
    by (rule every_schedule_sorts [OF s0 sample_init(2) _ s(1), THEN conjunct1])
      (use s(2) in \<open>simp_all add: sample_words_def NO_THREADS_def\<close>)
  with s0 s show ?thesis by (auto simp: sample_words_def)
qed

text \<open>C26: Every schedule ends: no run has more than 136 steps, and a run that cannot go on has brought
every thread to its end, so the threads never wait for each other in a circle.\<close>

theorem every_schedule_ends:
  assumes "init_setup fsize pmap = Inr s\<^sub>0" and "length pmap = unat (fsize div 4)" and "(thread_step ^^ n) s\<^sub>0 s"
  shows "n \<le> 136 \<and> ((\<exists>s'. thread_step s s') \<or> (\<forall>i < NO_THREADS. ended s i))"
proof -
  note inv = sort_inv_init(1) [OF assms(1,2)]
  have "sort_inv (lpChunk s\<^sub>0) s \<and> (\<Sum>i<8. work_left s i) + n \<le> (\<Sum>i<8. work_left s\<^sub>0 i)"
    using assms(3)
  proof (induction n arbitrary: s)
    case (Suc n)
    then obtain s1 where s1: "(thread_step ^^ n) s\<^sub>0 s1" "thread_step s1 s" by auto
    with Suc.IH [OF s1(1)] show ?case using sort_inv_step work_decreases [OF s1(2)] by fastforce
  qed (use inv in simp)
  moreover have "(\<Sum>i<8. work_left s\<^sub>0 i) \<le> (\<Sum>i<(8::nat). 17)" by (intro sum_mono) (simp add: work_left_def)
  ultimately show ?thesis using step_possible by fastforce
qed

lemma every_schedule_ends_witness:
  "\<exists>s\<^sub>0. init_setup 32 sample_words = Inr s\<^sub>0 \<and> ((\<exists>s'. thread_step s\<^sub>0 s') \<or> (\<forall>i < NO_THREADS. ended s\<^sub>0 i))"
proof -
  obtain s0 where s0: "init_setup 32 sample_words = Inr s0" using sample_init(1) by blast
  with every_schedule_ends [OF s0 sample_init(2), of 0 s0] show ?thesis by simp
qed

end
