(* ===== verification/ProdCons.thy ===== *)
theory ProdCons
  imports Prelude "HOL-Library.Multiset"
begin

text \<open>
  The producer and consumer of the eighth laboratory, \<^verbatim>\<open>labs/lab08/sol/lin/7-prodcons/prodcons.c\<close>:
  two threads, a buffer of three items, a mutex and two condition variables.
\<close>

section \<open>The buffer\<close>

definition BUFFER_SIZE :: nat where "BUFFER_SIZE = 3"
definition NR_ITERATIONS :: nat where "NR_ITERATIONS = 10"

record buffer_t =
  buff :: "int list"
  count :: nat

definition init_buffer :: buffer_t where
  "init_buffer = \<lparr>buff = replicate BUFFER_SIZE 0, count = 0\<rparr>"

text \<open>Outside the array the operations have no meaning.\<close>

definition insert_item :: "buffer_t \<Rightarrow> int \<Rightarrow> buffer_t outcome" where
  "insert_item b item =
     (if count b < BUFFER_SIZE then Inr (b\<lparr>buff := (buff b)[count b := item], count := count b + 1\<rparr>) else Inl Undefined)"

definition remove_item :: "buffer_t \<Rightarrow> (int \<times> buffer_t) outcome" where
  "remove_item b =
     (if 0 < count b \<and> count b \<le> BUFFER_SIZE then Inr (buff b ! (count b - 1), b\<lparr>count := count b - 1\<rparr>) else Inl Undefined)"

definition is_buffer_full :: "buffer_t \<Rightarrow> bool" where
  "is_buffer_full b \<longleftrightarrow> count b = BUFFER_SIZE"

definition is_buffer_empty :: "buffer_t \<Rightarrow> bool" where
  "is_buffer_empty b \<longleftrightarrow> count b = 0"

section \<open>The threads\<close>

text \<open>
  Where a thread is in round \<open>i\<close> of its loop: before the lock (after the last round: at its end),
  at the test of the inner loop with the mutex held, waiting on its condition variable, woken up and
  about to take the mutex again, and after it has changed the buffer.
\<close>

datatype place = Start nat | Test nat | Waits nat | Woken nat | Changed nat

datatype thread = Producer | Consumer

record pc_state =
  common_area :: buffer_t
  mutex :: "thread option"
  producer :: place
  consumer :: place
  inserted :: "int list"
  consumed :: "int list"

definition run_threads :: pc_state where
  "run_threads = \<lparr>common_area = init_buffer, mutex = None, producer = Start 0, consumer = Start 0, inserted = [], consumed = []\<rparr>"

text \<open>\<^verbatim>\<open>pthread_cond_signal\<close> wakes a thread that waits.\<close>

definition signalled :: "place \<Rightarrow> place" where
  "signalled p = (case p of Waits i \<Rightarrow> Woken i | _ \<Rightarrow> p)"

text \<open>
  \<^verbatim>\<open>producer_fn\<close>: \<^verbatim>\<open>pthread_cond_wait\<close> gives the mutex back and waits; the signal and the unlock are
  one step, since the mutex is held until its end.
\<close>

inductive producer_step :: "pc_state \<Rightarrow> pc_state \<Rightarrow> bool" where
  locks: "producer s = Start i \<Longrightarrow> i < NR_ITERATIONS \<Longrightarrow> mutex s = None
    \<Longrightarrow> producer_step s (s\<lparr>mutex := Some Producer, producer := Test i\<rparr>)"
| waits: "producer s = Test i \<Longrightarrow> is_buffer_full (common_area s)
    \<Longrightarrow> producer_step s (s\<lparr>mutex := None, producer := Waits i\<rparr>)"
| wakes: "producer s = Woken i \<Longrightarrow> mutex s = None
    \<Longrightarrow> producer_step s (s\<lparr>mutex := Some Producer, producer := Test i\<rparr>)"
| inserts: "producer s = Test i \<Longrightarrow> \<not> is_buffer_full (common_area s) \<Longrightarrow> insert_item (common_area s) (int i) = Inr b
    \<Longrightarrow> producer_step s (s\<lparr>common_area := b, producer := Changed i, inserted := inserted s @ [int i]\<rparr>)"
| signals: "producer s = Changed i
    \<Longrightarrow> producer_step s (s\<lparr>consumer := (if count (common_area s) = 1 then signalled (consumer s) else consumer s),
          mutex := None, producer := Start (i + 1)\<rparr>)"

text \<open>\<^verbatim>\<open>consumer_fn\<close>.\<close>

inductive consumer_step :: "pc_state \<Rightarrow> pc_state \<Rightarrow> bool" where
  locks: "consumer s = Start i \<Longrightarrow> i < NR_ITERATIONS \<Longrightarrow> mutex s = None
    \<Longrightarrow> consumer_step s (s\<lparr>mutex := Some Consumer, consumer := Test i\<rparr>)"
| waits: "consumer s = Test i \<Longrightarrow> is_buffer_empty (common_area s)
    \<Longrightarrow> consumer_step s (s\<lparr>mutex := None, consumer := Waits i\<rparr>)"
| wakes: "consumer s = Woken i \<Longrightarrow> mutex s = None
    \<Longrightarrow> consumer_step s (s\<lparr>mutex := Some Consumer, consumer := Test i\<rparr>)"
| removes: "consumer s = Test i \<Longrightarrow> \<not> is_buffer_empty (common_area s) \<Longrightarrow> remove_item (common_area s) = Inr (x, b)
    \<Longrightarrow> consumer_step s (s\<lparr>common_area := b, consumer := Changed i, consumed := consumed s @ [x]\<rparr>)"
| signals: "consumer s = Changed i
    \<Longrightarrow> consumer_step s (s\<lparr>producer := (if count (common_area s) = BUFFER_SIZE - 1 then signalled (producer s) else producer s),
          mutex := None, consumer := Start (i + 1)\<rparr>)"

text \<open>A thread that waits may also be woken without a signal.\<close>

inductive spurious :: "pc_state \<Rightarrow> pc_state \<Rightarrow> bool" where
  "producer s = Waits i \<Longrightarrow> spurious s (s\<lparr>producer := Woken i\<rparr>)"
| "consumer s = Waits i \<Longrightarrow> spurious s (s\<lparr>consumer := Woken i\<rparr>)"

definition pc_step :: "pc_state \<Rightarrow> pc_state \<Rightarrow> bool" where
  "pc_step s s' \<longleftrightarrow> producer_step s s' \<or> consumer_step s s' \<or> spurious s s'"

inductive_cases producerE: "producer_step s s'"
inductive_cases consumerE: "consumer_step s s'"
inductive_cases spuriousE: "spurious s s'"

section \<open>The invariant\<close>

text \<open>How many items a thread has moved, and whether it holds the mutex.\<close>

fun moved :: "place \<Rightarrow> nat" where
  "moved (Changed i) = i + 1"
| "moved (Start i) = i"
| "moved (Test i) = i"
| "moved (Waits i) = i"
| "moved (Woken i) = i"

fun holds :: "place \<Rightarrow> bool" where
  "holds (Test i) = True"
| "holds (Changed i) = True"
| "holds _ = False"

fun in_loop :: "place \<Rightarrow> bool" where
  "in_loop (Start i) \<longleftrightarrow> i \<le> NR_ITERATIONS"
| "in_loop (Test i) \<longleftrightarrow> i < NR_ITERATIONS"
| "in_loop (Waits i) \<longleftrightarrow> i < NR_ITERATIONS"
| "in_loop (Woken i) \<longleftrightarrow> i < NR_ITERATIONS"
| "in_loop (Changed i) \<longleftrightarrow> i < NR_ITERATIONS"

definition contents :: "buffer_t \<Rightarrow> int list" where
  "contents b = take (count b) (buff b)"

text \<open>What the buffer and the logs hold; who owns the mutex; and that a thread that waits has
either no reason to go on or is about to be signalled.\<close>

definition data_inv :: "pc_state \<Rightarrow> bool" where
  "data_inv s \<longleftrightarrow> length (buff (common_area s)) = BUFFER_SIZE \<and> count (common_area s) \<le> BUFFER_SIZE
     \<and> inserted s = map int [0..<moved (producer s)] \<and> length (consumed s) = moved (consumer s)
     \<and> mset (contents (common_area s)) + mset (consumed s) = mset (inserted s)
     \<and> in_loop (producer s) \<and> in_loop (consumer s)"

definition lock_inv :: "pc_state \<Rightarrow> bool" where
  "lock_inv s \<longleftrightarrow> (mutex s = Some Producer \<longleftrightarrow> holds (producer s)) \<and> (mutex s = Some Consumer \<longleftrightarrow> holds (consumer s))"

definition wake_inv :: "pc_state \<Rightarrow> bool" where
  "wake_inv s \<longleftrightarrow>
     (\<forall>i. producer s = Waits i \<longrightarrow> count (common_area s) = BUFFER_SIZE
        \<or> (\<exists>j. consumer s = Changed j) \<and> count (common_area s) = BUFFER_SIZE - 1)
     \<and> (\<forall>i. consumer s = Waits i \<longrightarrow> count (common_area s) = 0
        \<or> (\<exists>j. producer s = Changed j) \<and> count (common_area s) = 1)"

lemma insert_item_eq:
  "insert_item b x = Inr b' \<Longrightarrow> length (buff b) = BUFFER_SIZE \<Longrightarrow>
   contents b' = contents b @ [x] \<and> count b' = count b + 1 \<and> count b' \<le> BUFFER_SIZE \<and> length (buff b') = BUFFER_SIZE"
  by (auto simp: insert_item_def contents_def take_update_last split: if_splits)

lemma remove_item_eq:
  "remove_item b = Inr (x, b') \<Longrightarrow> length (buff b) = BUFFER_SIZE \<Longrightarrow>
   contents b = contents b' @ [x] \<and> count b = count b' + 1 \<and> count b' \<le> BUFFER_SIZE \<and> length (buff b') = BUFFER_SIZE"
  by (auto simp: remove_item_def contents_def simp flip: take_Suc_conv_app_nth split: if_splits)

lemma moved_signalled [simp]: "moved (signalled p) = moved p" "holds (signalled p) = holds p"
  "in_loop (signalled p) = in_loop p" "signalled p \<noteq> Waits i" "signalled p = Changed j \<longleftrightarrow> p = Changed j"
  by (cases p; auto simp: signalled_def)+

lemma data_inv_step: "pc_step s s' \<Longrightarrow> data_inv s \<Longrightarrow> data_inv s'"
  unfolding pc_step_def
  by (elim disjE producerE consumerE spuriousE) (auto simp: data_inv_def dest!: insert_item_eq remove_item_eq)

lemma lock_inv_step: "pc_step s s' \<Longrightarrow> lock_inv s \<Longrightarrow> lock_inv s'"
  unfolding pc_step_def
  by (elim disjE producerE consumerE spuriousE) (auto simp: lock_inv_def)

lemma exclusive: "lock_inv s \<Longrightarrow> holds (producer s) \<Longrightarrow> \<not> holds (consumer s)"
  by (auto simp: lock_inv_def)

lemma holds_iff: "producer s = Test i \<Longrightarrow> holds (producer s)" "producer s = Changed i \<Longrightarrow> holds (producer s)"
  "consumer s = Test i \<Longrightarrow> holds (consumer s)" "consumer s = Changed i \<Longrightarrow> holds (consumer s)"
  by simp_all

lemma wake_inv_producer:
  assumes "producer_step s s'" "data_inv s" "lock_inv s" "wake_inv s"
  shows "wake_inv s'"
  using assms(1)
proof cases
  case (inserts i b)
  then have "\<not> holds (consumer s)" using exclusive [OF assms(3)] by simp
  moreover have "count b = count (common_area s) + 1" using insert_item_eq [OF inserts(4)] assms(2) by (simp add: data_inv_def)
  ultimately show ?thesis using inserts assms(4) by (auto simp: wake_inv_def)
next
  case (signals i)
  then have "\<not> holds (consumer s)" using exclusive [OF assms(3)] by simp
  then show ?thesis using signals assms(4) by (auto simp: wake_inv_def)
qed (use assms(4) in \<open>auto simp: wake_inv_def is_buffer_full_def\<close>)

lemma wake_inv_consumer:
  assumes "consumer_step s s'" "data_inv s" "lock_inv s" "wake_inv s"
  shows "wake_inv s'"
  using assms(1)
proof cases
  case (removes i x b)
  then have "\<not> holds (producer s)" using exclusive [OF assms(3)] by auto
  moreover have "count (common_area s) = count b + 1" using remove_item_eq [OF removes(4)] assms(2) by (simp add: data_inv_def)
  ultimately show ?thesis using removes assms(4) by (auto simp: wake_inv_def)
next
  case (signals i)
  then have "\<not> holds (producer s)" using exclusive [OF assms(3)] by auto
  then show ?thesis using signals assms(4) by (auto simp: wake_inv_def)
qed (use assms(4) in \<open>auto simp: wake_inv_def is_buffer_empty_def\<close>)

definition pc_inv :: "pc_state \<Rightarrow> bool" where
  "pc_inv s \<longleftrightarrow> data_inv s \<and> lock_inv s \<and> wake_inv s"

lemma pc_inv_step: 
  assumes "pc_step s s'" "pc_inv s"
  shows "pc_inv s'"
proof -
  from assms(2) have i: "data_inv s" "lock_inv s" "wake_inv s" by (simp_all add: pc_inv_def)
  have "wake_inv s'" if "spurious s s'"
    using that i(3) by (cases) (simp_all add: wake_inv_def)
  then have "wake_inv s'"
    using assms(1) wake_inv_producer [OF _ i] wake_inv_consumer [OF _ i] unfolding pc_step_def by blast
  with assms data_inv_step lock_inv_step show ?thesis by (auto simp: pc_inv_def)
qed

lemma pc_inv_init: "pc_inv run_threads"
  by (simp add: pc_inv_def data_inv_def lock_inv_def wake_inv_def run_threads_def init_buffer_def contents_def)

lemma pc_inv_run: "pc_step\<^sup>*\<^sup>* run_threads s \<Longrightarrow> pc_inv s"
  by (induction rule: rtranclp_induct) (auto intro: pc_inv_init pc_inv_step)

section \<open>Properties\<close>

text \<open>In every interleaving, the operations on the buffer stay inside the array, the two threads
never hold the mutex together, and every item that was produced is consumed once or still in the
buffer.\<close>

theorem buffer_is_safe:
  assumes "pc_step\<^sup>*\<^sup>* run_threads s"
  shows "count (common_area s) \<le> BUFFER_SIZE \<and> \<not> (holds (producer s) \<and> holds (consumer s))
    \<and> mset (contents (common_area s)) + mset (consumed s) = mset (inserted s)
    \<and> (producer s = Test i \<longrightarrow> \<not> is_buffer_full (common_area s) \<longrightarrow> (\<exists>b. insert_item (common_area s) (int i) = Inr b))
    \<and> (consumer s = Test j \<longrightarrow> \<not> is_buffer_empty (common_area s) \<longrightarrow> (\<exists>r. remove_item (common_area s) = Inr r))"
  using pc_inv_run [OF assms] exclusive [of s]
  by (auto simp: pc_inv_def data_inv_def insert_item_def remove_item_def is_buffer_full_def is_buffer_empty_def)

lemma buffer_is_safe_witness:
  "count (common_area run_threads) \<le> BUFFER_SIZE \<and> \<not> (holds (producer run_threads) \<and> holds (consumer run_threads))"
  using buffer_is_safe [of run_threads 0 0] by simp

lemma producer_can_step:
  assumes "data_inv s" "lock_inv s"
  shows "holds (producer s) \<Longrightarrow> \<exists>s'. producer_step s s'"
    and "mutex s = None \<Longrightarrow> producer s = Start i \<Longrightarrow> i < NR_ITERATIONS \<Longrightarrow> \<exists>s'. producer_step s s'"
    and "mutex s = None \<Longrightarrow> producer s = Woken i \<Longrightarrow> \<exists>s'. producer_step s s'"
proof -
  assume h: "holds (producer s)"
  show "\<exists>s'. producer_step s s'"
  proof (cases "producer s")
    case (Test i)
    show ?thesis
    proof (cases "is_buffer_full (common_area s)")
      case True
      with Test show ?thesis by (blast intro: producer_step.waits)
    next
      case False
      with assms(1) have "\<exists>b. insert_item (common_area s) (int i) = Inr b"
        by (auto simp: data_inv_def insert_item_def is_buffer_full_def)
      with Test False show ?thesis by (blast intro: producer_step.inserts)
    qed
  next
    case (Changed i)
    then show ?thesis by (blast intro: producer_step.signals)
  qed (use h in simp_all)
qed (blast intro: producer_step.locks producer_step.wakes)+

lemma consumer_can_step:
  assumes "data_inv s" "lock_inv s"
  shows "holds (consumer s) \<Longrightarrow> \<exists>s'. consumer_step s s'"
    and "mutex s = None \<Longrightarrow> consumer s = Start i \<Longrightarrow> i < NR_ITERATIONS \<Longrightarrow> \<exists>s'. consumer_step s s'"
    and "mutex s = None \<Longrightarrow> consumer s = Woken i \<Longrightarrow> \<exists>s'. consumer_step s s'"
proof -
  assume h: "holds (consumer s)"
  show "\<exists>s'. consumer_step s s'"
  proof (cases "consumer s")
    case (Test i)
    show ?thesis
    proof (cases "is_buffer_empty (common_area s)")
      case True
      with Test show ?thesis by (blast intro: consumer_step.waits)
    next
      case False
      with assms(1) have "\<exists>x b. remove_item (common_area s) = Inr (x, b)"
        by (auto simp: data_inv_def remove_item_def is_buffer_empty_def)
      with Test False show ?thesis by (blast intro: consumer_step.removes)
    qed
  next
    case (Changed i)
    then show ?thesis by (blast intro: consumer_step.signals)
  qed (use h in simp_all)
qed (blast intro: consumer_step.locks consumer_step.wakes)+

text \<open>The buffer holds what was produced and not consumed.\<close>

lemma count_eq: "data_inv s \<Longrightarrow> count (common_area s) + moved (consumer s) = moved (producer s)"
proof -
  assume d: "data_inv s"
  then have "mset (contents (common_area s)) + mset (consumed s) = mset (inserted s)"
    by (simp add: data_inv_def)
  from arg_cong [OF this, of size] have "length (contents (common_area s)) + length (consumed s) = length (inserted s)"
    by simp
  with d show ?thesis by (simp add: data_inv_def contents_def)
qed

lemma not_holding:
  assumes "\<not> holds p" "in_loop p" "\<not> (\<exists>i. p = Start i \<and> i < NR_ITERATIONS)" "\<not> (\<exists>i. p = Woken i)"
  shows "p = Start NR_ITERATIONS \<or> (\<exists>i. p = Waits i \<and> i < NR_ITERATIONS)"
  using assms by (cases p) auto

lemma no_deadlock_lemma:
  assumes "pc_inv s"
  shows "(\<exists>s'. producer_step s s' \<or> consumer_step s s') \<or> (producer s = Start NR_ITERATIONS \<and> consumer s = Start NR_ITERATIONS)"
proof (rule ccontr)
  assume stuck: "\<not> ?thesis"
  from assms have d: "data_inv s" and l: "lock_inv s" and w: "wake_inv s" by (auto simp: pc_inv_def)
  note p = producer_can_step [OF d l] and c = consumer_can_step [OF d l]
  from p(1) c(1) stuck have "\<not> holds (producer s)" "\<not> holds (consumer s)" by auto
  with l have m: "mutex s = None" by (metis (full_types) lock_inv_def not_None_eq thread.exhaust)
  have P: "producer s = Start NR_ITERATIONS \<or> (\<exists>i. producer s = Waits i \<and> i < NR_ITERATIONS)"
    using not_holding [of "producer s"] p(2) [OF m] p(3) [OF m] stuck d \<open>\<not> holds (producer s)\<close>
    by (auto simp: data_inv_def)
  have C: "consumer s = Start NR_ITERATIONS \<or> (\<exists>i. consumer s = Waits i \<and> i < NR_ITERATIONS)"
    using not_holding [of "consumer s"] c(2) [OF m] c(3) [OF m] stuck d \<open>\<not> holds (consumer s)\<close>
    by (auto simp: data_inv_def)
  from P C stuck w count_eq [OF d] show False
    by (auto simp: wake_inv_def BUFFER_SIZE_def)
qed

text \<open>C16: No interleaving blocks both threads: as long as they have not both ended, one of them can go
on without a spurious wake-up, so the signals at a buffer that becomes non-empty or non-full are
enough; and when both have ended every item was consumed exactly once.\<close>

theorem no_lost_wakeup:
  assumes "pc_step\<^sup>*\<^sup>* run_threads s"
  shows "(\<exists>s'. producer_step s s' \<or> consumer_step s s')
    \<or> (producer s = Start NR_ITERATIONS \<and> consumer s = Start NR_ITERATIONS
        \<and> mset (consumed s) = mset (map int [0..<NR_ITERATIONS]) \<and> count (common_area s) = 0)"
proof -
  note inv = pc_inv_run [OF assms]
  then have d: "data_inv s" by (simp add: pc_inv_def)
  from no_deadlock_lemma [OF inv] show ?thesis
  proof
    assume e: "producer s = Start NR_ITERATIONS \<and> consumer s = Start NR_ITERATIONS"
    with count_eq [OF d] have "count (common_area s) = 0" by simp
    with e d show ?thesis by (simp add: data_inv_def contents_def)
  qed simp
qed

lemma no_lost_wakeup_witness: "\<exists>s'. producer_step run_threads s' \<or> consumer_step run_threads s'"
  using no_lost_wakeup [of run_threads] by (simp add: run_threads_def NR_ITERATIONS_def)

end
