(* ===== verification/IpcTable.thy ===== *)
theory IpcTable
  imports Prelude "HOL-Library.Word" "HOL-Library.Multiset"
begin

unbundle bit_operations_syntax

text \<open>
  The shared hash table of the laboratory on inter-process communication,
  \<^verbatim>\<open>labs/lab05.ipc/skel/lin/2-ipc\<close> (\<^verbatim>\<open>hash.c\<close>, \<^verbatim>\<open>hashtable.c\<close>, \<^verbatim>\<open>server.c\<close>, \<^verbatim>\<open>client.c\<close>).  The queue,
  semaphore and shared-memory functions of the skeleton are empty; a queue is the list of the
  messages that are received.
\<close>

definition MAX_WORD_SIZE :: nat where "MAX_WORD_SIZE = 16"
definition BUCKET_COUNT :: nat where "BUCKET_COUNT = 256"
definition MAX_WORDS_PER_BUCKET :: nat where "MAX_WORDS_PER_BUCKET = 256"

section \<open>The hash function\<close>

text \<open>A \<^verbatim>\<open>char\<close> is signed.\<close>

definition char_value :: "char \<Rightarrow> 32 word" where
  "char_value c = (if of_char c < (128 :: nat) then of_nat (of_char c) else of_nat (of_char c) - 256)"

primrec hash_loop :: "32 word \<Rightarrow> string \<Rightarrow> 32 word" where
  "hash_loop h [] = h"
| "hash_loop h (c # str) = hash_loop ((push_bit 5 h + h) + char_value c) str"

definition hash :: "string \<Rightarrow> nat" where
  "hash str = unat (hash_loop 5381 str) mod BUCKET_COUNT"

section \<open>The table\<close>

text \<open>
  A slot is the text before its terminator; a text of 16 characters has none.  All slots are in
  \<^verbatim>\<open>words\<close>, \<^verbatim>\<open>first_free\<close> says how many of a bucket are used.
\<close>

record htable =
  words :: "nat \<Rightarrow> nat \<Rightarrow> string"
  first_free :: "nat \<Rightarrow> nat"

text \<open>\<^verbatim>\<open>strncpy\<close> of a word into a slot.\<close>

definition slot_of :: "string \<Rightarrow> string" where
  "slot_of word = take MAX_WORD_SIZE word"

definition set_word :: "htable \<Rightarrow> nat \<Rightarrow> nat \<Rightarrow> string \<Rightarrow> htable" where
  "set_word t key pos w = t\<lparr>words := (words t)(key := (words t key)(pos := w))\<rparr>"

definition htable_clear :: "htable option \<Rightarrow> htable option" where
  "htable_clear table =
     map_option (\<lambda>t. t\<lparr>words := (\<lambda>i. if i < BUCKET_COUNT then (\<lambda>_. []) else words t i),
       first_free := (\<lambda>i. if i < BUCKET_COUNT then 0 else first_free t i)\<rparr>) table"

definition htable_insert :: "htable option \<Rightarrow> string \<Rightarrow> int \<times> htable option" where
  "htable_insert table word =
     (case table of
        None \<Rightarrow> (0, None)
      | Some t \<Rightarrow>
          let key = hash word; pos = first_free t key in
          if pos = MAX_WORDS_PER_BUCKET then (0, Some t)
          else (1, Some ((set_word t key pos (slot_of word))\<lparr>first_free := (first_free t)(key := pos + 1)\<rparr>)))"

text \<open>The search loop and the loop that moves the following words down.\<close>

function find_word :: "htable \<Rightarrow> nat \<Rightarrow> string \<Rightarrow> nat \<Rightarrow> nat" where
  "find_word t key word i =
     (if first_free t key \<le> i then i
      else if slot_of word = words t key i then i
      else find_word t key word (i + 1))"
  by pat_completeness auto
termination
  by (relation "measure (\<lambda>(t, key, word, i). first_free t key - i)") auto

declare find_word.simps [simp del]

function shift_down :: "htable \<Rightarrow> nat \<Rightarrow> nat \<Rightarrow> htable" where
  "shift_down t key j =
     (if j < first_free t key - 1 then shift_down (set_word t key j (slot_of (words t key (j + 1)))) key (j + 1) else t)"
  by pat_completeness auto
termination
  by (relation "measure (\<lambda>(t, key, j). first_free t key - 1 - j)") (auto simp: set_word_def)

declare shift_down.simps [simp del]

text \<open>The slot that is cleared is the one behind the last word; of a full bucket there is none.\<close>

definition htable_delete :: "htable option \<Rightarrow> string \<Rightarrow> (int \<times> htable option) outcome" where
  "htable_delete table word =
     (case table of
        None \<Rightarrow> Inr (0, None)
      | Some t \<Rightarrow>
          let key = hash word; i = find_word t key word 0 in
          if i = first_free t key then Inr (0, Some t)
          else
            let t' = shift_down t key i; last = first_free t key in
            if MAX_WORDS_PER_BUCKET \<le> last then Inl Undefined
            else Inr (1, Some ((set_word t' key last [])\<lparr>first_free := (first_free t)(key := last - 1)\<rparr>)))"

text \<open>What \<^verbatim>\<open>htable_print\<close> prints; a text without a terminator is read past its slot.\<close>

definition htable_print :: "htable option \<Rightarrow> string outcome" where
  "htable_print table =
     (case table of
        None \<Rightarrow> Inr []
      | Some t \<Rightarrow>
          if \<exists>i<BUCKET_COUNT. \<exists>j<first_free t i. length (words t i j) = MAX_WORD_SIZE then Inl Undefined
          else Inr (concat (map (\<lambda>i. if 0 < first_free t i
                  then concat (map (\<lambda>j. words t i j @ '' '') [0..<first_free t i]) @ [CHR 0x0A] else [])
                [0..<BUCKET_COUNT])))"

section \<open>The server and the client\<close>

type_synonym message = "char \<times> string"

text \<open>One turn of the loop of the server on a message that is not \<^verbatim>\<open>e\<close>; hashing a value that fills
its array reads past the message.\<close>

definition serve :: "htable \<Rightarrow> message \<Rightarrow> htable outcome" where
  "serve h msg =
     (case msg of (cmd, val) \<Rightarrow>
        if cmd = CHR ''a'' then
          if length val = MAX_WORD_SIZE then Inl Undefined else obind (deref (snd (htable_insert (Some h) val))) Inr
        else if cmd = CHR ''r'' then
          if length val = MAX_WORD_SIZE then Inl Undefined
          else obind (htable_delete (Some h) val) (\<lambda>(_, t). deref t)
        else if cmd = CHR ''c'' then deref (htable_clear (Some h))
        else Inr h)"

text \<open>The loop: the second component says whether the server has ended; otherwise it waits.\<close>

fun server_loop :: "htable \<Rightarrow> message list \<Rightarrow> (htable \<times> bool) outcome" where
  "server_loop h [] = Inr (h, False)"
| "server_loop h (msg # msgs) =
     (if fst msg = CHR ''e'' then Inr (h, True) else obind (serve h msg) (\<lambda>h'. server_loop h' msgs))"

text \<open>The shared memory is cleared before the loop.\<close>

definition server_main :: "htable \<Rightarrow> message list \<Rightarrow> (htable \<times> bool) outcome" where
  "server_main shared msgs = obind (deref (htable_clear (Some shared))) (\<lambda>h. server_loop h msgs)"

text \<open>The commands of the client: what it sends and what it prints; \<open>shared i\<close> is the table it sees
when \<open>i\<close> arguments are left.\<close>

fun client_loop :: "(nat \<Rightarrow> htable) \<Rightarrow> string list \<Rightarrow> (message list \<times> string) outcome" where
  "client_loop shared [] = Inr ([], [])"
| "client_loop shared (arg # argv) =
     (let c = (case arg of [] \<Rightarrow> CHR 0x00 | x # _ \<Rightarrow> x) in
      if c = CHR ''p'' then
        obind (htable_print (Some (shared (length argv)))) (\<lambda>out.
          obind (client_loop shared argv) (\<lambda>(ms, out'). Inr (ms, out @ out')))
      else if c = CHR ''a'' \<or> c = CHR ''r'' then
        (case argv of
           [] \<Rightarrow> Inl (ExitWith 1)
         | val # rest \<Rightarrow> obind (client_loop shared rest) (\<lambda>(ms, out). Inr ((c, slot_of val) # ms, out)))
      else obind (client_loop shared argv) (\<lambda>(ms, out). Inr ((c, []) # ms, out)))"

section \<open>Buckets\<close>

definition bucket :: "htable \<Rightarrow> nat \<Rightarrow> string list" where
  "bucket t k = map (words t k) [0..<first_free t k]"

lemma find_word_spec:
  "i \<le> first_free t key \<Longrightarrow> find_word t key word i = r \<Longrightarrow>
   i \<le> r \<and> r \<le> first_free t key \<and> (r < first_free t key \<longrightarrow> words t key r = slot_of word)
   \<and> (\<forall>j. i \<le> j \<longrightarrow> j < r \<longrightarrow> words t key j \<noteq> slot_of word)"
proof (induction t key word i rule: find_word.induct)
  case (1 t key word i)
  show ?case
  proof (cases "first_free t key \<le> i \<or> slot_of word = words t key i")
    case True
    with 1(2,3) show ?thesis by (auto simp: find_word.simps [of t key word i] split: if_splits)
  next
    case False
    then have "find_word t key word (i + 1) = r" using 1(3) by (simp add: find_word.simps [of t key word i])
    with 1(1) False have "i + 1 \<le> r \<and> r \<le> first_free t key \<and> (r < first_free t key \<longrightarrow> words t key r = slot_of word)
        \<and> (\<forall>j. i + 1 \<le> j \<longrightarrow> j < r \<longrightarrow> words t key j \<noteq> slot_of word)" by simp
    with False show ?thesis by (metis Suc_eq_plus1 Suc_leD Suc_leI le_neq_implies_less)
  qed
qed

lemma shift_down_eq:
  "first_free (shift_down t key j) = first_free t \<and>
   words (shift_down t key j) = (words t)(key := (\<lambda>k. if j \<le> k \<and> k < first_free t key - 1 then slot_of (words t key (k + 1)) else words t key k))"
proof (induction t key j rule: shift_down.induct)
  case (1 t key j)
  show ?case
  proof (cases "j < first_free t key - 1")
    case True
    with 1 show ?thesis by (auto simp: shift_down.simps [of t key j] set_word_def fun_eq_iff)
  next
    case False
    then show ?thesis by (auto simp: shift_down.simps [of t key j] fun_eq_iff)
  qed
qed

lemma remove1_first:
  "r < length xs \<Longrightarrow> xs ! r = w \<Longrightarrow> (\<forall>j < r. xs ! j \<noteq> w) \<Longrightarrow> remove1 w xs = take r xs @ drop (Suc r) xs"
proof (induction xs arbitrary: r)
  case (Cons x xs)
  show ?case
  proof (cases r)
    case (Suc n)
    have "x \<noteq> w" using Cons.prems(3) Suc by force
    moreover have "\<forall>j < n. xs ! j \<noteq> w" using Cons.prems(3) Suc by fastforce
    ultimately show ?thesis using Cons Suc by simp
  qed (use Cons.prems in simp)
qed simp

text \<open>The words of the table; what is promised of a table.\<close>

definition bag :: "htable \<Rightarrow> string multiset" where
  "bag t = (\<Sum>k<BUCKET_COUNT. mset (bucket t k))"

definition table_inv :: "htable \<Rightarrow> bool" where
  "table_inv t \<longleftrightarrow> (\<forall>k < BUCKET_COUNT. \<forall>x \<in> set (bucket t k). hash x = k \<and> length x < MAX_WORD_SIZE)"

lemma hash_less: "hash w < BUCKET_COUNT"
  by (simp add: hash_def BUCKET_COUNT_def)

lemma slot_of_short: "length w < MAX_WORD_SIZE \<Longrightarrow> slot_of w = w"
  by (simp add: slot_of_def)

text \<open>A change of one bucket.\<close>

lemma bag_update:
  assumes "k < BUCKET_COUNT" and "\<And>i. i \<noteq> k \<Longrightarrow> bucket t' i = bucket t i"
  shows "bag t' + mset (bucket t k) = bag t + mset (bucket t' k)"
proof -
  have "bag t = mset (bucket t k) + (\<Sum>i\<in>{..<BUCKET_COUNT} - {k}. mset (bucket t i))" for t
    unfolding bag_def using assms(1) by (intro sum.remove) auto
  moreover have "(\<Sum>i\<in>{..<BUCKET_COUNT} - {k}. mset (bucket t' i)) = (\<Sum>i\<in>{..<BUCKET_COUNT} - {k}. mset (bucket t i))"
    using assms(2) by (intro sum.cong) auto
  ultimately show ?thesis by (simp add: ac_simps)
qed

lemma bucket_le_bag: "k < BUCKET_COUNT \<Longrightarrow> mset (bucket t k) \<subseteq># bag t"
  unfolding bag_def by (subst sum.remove [of _ k]) auto

lemma insert_bucket:
  assumes "first_free t (hash w) < MAX_WORDS_PER_BUCKET"
  shows "\<exists>t'. htable_insert (Some t) w = (1, Some t') \<and> bucket t' (hash w) = bucket t (hash w) @ [slot_of w]
    \<and> (\<forall>k. k \<noteq> hash w \<longrightarrow> bucket t' k = bucket t k)"
  using assms by (simp add: htable_insert_def Let_def bucket_def set_word_def)

lemma delete_bucket:
  assumes "table_inv t" "length w < MAX_WORD_SIZE" "first_free t (hash w) < MAX_WORDS_PER_BUCKET"
  shows "\<exists>t'. htable_delete (Some t) w = Inr (if w \<in> set (bucket t (hash w)) then 1 else 0, Some t')
    \<and> bucket t' (hash w) = remove1 w (bucket t (hash w)) \<and> (\<forall>k. k \<noteq> hash w \<longrightarrow> bucket t' k = bucket t k)"
proof -
  define key where "key = hash w"
  define r where "r = find_word t key w 0"
  have f: "r \<le> first_free t key" "r < first_free t key \<longrightarrow> words t key r = w" "\<forall>j < r. words t key j \<noteq> w"
    using find_word_spec [of 0 t key w r] r_def assms(2) by (auto simp: slot_of_short)
  show ?thesis
  proof (cases "r = first_free t key")
    case True
    with f(3) have "w \<notin> set (bucket t key)" by (auto simp: bucket_def)
    with True show ?thesis
      by (simp add: htable_delete_def Let_def remove1_idem flip: key_def r_def)
  next
    case False
    with f(1) have r: "r < first_free t key" by simp
    let ?t = "(set_word (shift_down t key r) key (first_free t key) [])\<lparr>first_free := (first_free t)(key := first_free t key - 1)\<rparr>"
    have short: "slot_of (words t key i) = words t key i" if "i < first_free t key" for i
      using assms(1) that hash_less [of w] by (intro slot_of_short) (auto simp: table_inv_def bucket_def key_def)
    have "bucket ?t key = map (\<lambda>k. if r \<le> k then words t key (k + 1) else words t key k) [0..<first_free t key - 1]"
      using r by (auto simp: bucket_def set_word_def shift_down_eq short)
    also have "\<dots> = take r (bucket t key) @ drop (Suc r) (bucket t key)"
      using r by (auto simp: bucket_def list_eq_iff_nth_eq nth_append min_def)
    also have "\<dots> = remove1 w (bucket t key)"
      using r f by (intro remove1_first [symmetric]) (auto simp: bucket_def)
    finally have b: "bucket ?t key = remove1 w (bucket t key)" .
    have "w \<in> set (bucket t key)" using r f(2) by (auto simp: bucket_def)
    moreover have "htable_delete (Some t) w = Inr (1, Some ?t)"
      using False assms(3) by (simp add: htable_delete_def Let_def flip: key_def r_def)
    moreover have "\<forall>k. k \<noteq> key \<longrightarrow> bucket ?t k = bucket t k"
      by (simp add: bucket_def set_word_def shift_down_eq)
    ultimately show ?thesis using b by (auto simp flip: key_def)
  qed
qed

section \<open>The table as a multiset of words\<close>

text \<open>What a message means for the words.\<close>

definition meaning :: "message \<Rightarrow> string multiset \<Rightarrow> string multiset" where
  "meaning msg b =
     (if fst msg = CHR ''a'' then add_mset (snd msg) b
      else if fst msg = CHR ''r'' then b - {#snd msg#}
      else if fst msg = CHR ''c'' then {#}
      else b)"

primrec serve_all :: "('s \<Rightarrow> message \<Rightarrow> 's outcome) \<Rightarrow> 's \<Rightarrow> message list \<Rightarrow> 's outcome" where
  "serve_all srv s [] = Inr s"
| "serve_all srv s (msg # msgs) = obind (srv s msg) (\<lambda>s'. serve_all srv s' msgs)"

lemma size_meaning: "size (meaning msg b) \<le> Suc (size b)"
  using size_mset_mono [OF diff_subset_eq_self, of b "{#snd msg#}"] by (auto simp: meaning_def)

text \<open>What the server needs of the store it serves messages on.\<close>

locale word_store =
  fixes inv :: "'s \<Rightarrow> bool" and store :: "'s \<Rightarrow> string multiset" and srv :: "'s \<Rightarrow> message \<Rightarrow> 's outcome" and room :: nat
  assumes srv_means: "inv s \<Longrightarrow> size (store s) < room \<Longrightarrow> length (snd msg) < MAX_WORD_SIZE \<Longrightarrow>
    \<exists>s'. srv s msg = Inr s' \<and> inv s' \<and> store s' = meaning msg (store s)"
begin

lemma serve_all_means:
  "inv s \<Longrightarrow> size (store s) + length msgs \<le> room \<Longrightarrow> \<forall>msg \<in> set msgs. length (snd msg) < MAX_WORD_SIZE \<Longrightarrow>
   \<exists>s'. serve_all srv s msgs = Inr s' \<and> inv s' \<and> store s' = fold meaning msgs (store s)"
proof (induction msgs arbitrary: s)
  case (Cons msg msgs)
  then obtain s1 where s1: "srv s msg = Inr s1" "inv s1" "store s1 = meaning msg (store s)"
    using srv_means [of s msg] by fastforce
  have "size (store s1) + length msgs \<le> room"
    using Cons.prems(2) size_meaning [of msg "store s"] s1(3) by simp
  from Cons.IH [OF s1(2) this] Cons.prems(3) s1 show ?case by simp
qed simp

end

lemma first_free_bag: "k < BUCKET_COUNT \<Longrightarrow> first_free t k \<le> size (bag t)"
  using size_mset_mono [OF bucket_le_bag [of k t]] by (simp add: bucket_def)

lemma table_inv_update:
  "table_inv t \<Longrightarrow> (\<forall>k. k \<noteq> key \<longrightarrow> bucket t' k = bucket t k) \<Longrightarrow> (\<forall>x \<in> set (bucket t' key). hash x = key \<and> length x < MAX_WORD_SIZE)
   \<Longrightarrow> table_inv t'"
  unfolding table_inv_def by metis

lemma not_elsewhere:
  assumes "table_inv t"
  shows "w \<in># bag t \<longleftrightarrow> w \<in> set (bucket t (hash w))"
proof -
  have "w \<in># bag t \<longleftrightarrow> (\<exists>k < BUCKET_COUNT. w \<in> set (bucket t k))"
    by (auto simp: bag_def set_mset_sum)
  with assms hash_less [of w] show ?thesis unfolding table_inv_def by metis
qed

lemma serve_means:
  assumes "table_inv t" "size (bag t) < MAX_WORDS_PER_BUCKET" "length (snd msg) < MAX_WORD_SIZE"
  shows "\<exists>t'. serve t msg = Inr t' \<and> table_inv t' \<and> bag t' = meaning msg (bag t)"
proof -
  obtain c w where msg: "msg = (c, w)" by (cases msg)
  have w: "length w < MAX_WORD_SIZE" using assms(3) msg by simp
  have room: "first_free t (hash w) < MAX_WORDS_PER_BUCKET"
    using first_free_bag [OF hash_less, of t w] assms(2) by simp
  consider (add) "c = CHR ''a''" | (remove) "c = CHR ''r''" | (clear) "c = CHR ''c''" | (other) "c \<notin> {CHR ''a'', CHR ''r'', CHR ''c''}" by blast
  then show ?thesis
  proof cases
    case add
    obtain t' where t': "htable_insert (Some t) w = (1, Some t')" "bucket t' (hash w) = bucket t (hash w) @ [w]"
      "\<forall>k. k \<noteq> hash w \<longrightarrow> bucket t' k = bucket t k"
      using insert_bucket [OF room] slot_of_short [OF w] by auto
    have "table_inv t'"
      by (rule table_inv_update [OF assms(1) t'(3)]) (use assms(1) w t'(2) hash_less [of w] in \<open>auto simp: table_inv_def\<close>)
    moreover have "bag t' = add_mset w (bag t)"
      using bag_update [of "hash w" t' t] hash_less [of w] t'(2,3) by simp
    ultimately show ?thesis using add msg t'(1) w by (simp add: serve_def meaning_def)
  next
    case remove
    obtain t' r where t': "htable_delete (Some t) w = Inr (r, Some t')" "bucket t' (hash w) = remove1 w (bucket t (hash w))"
      "\<forall>k. k \<noteq> hash w \<longrightarrow> bucket t' k = bucket t k"
      using delete_bucket [OF assms(1) w room] by blast
    have "table_inv t'"
      by (rule table_inv_update [OF assms(1) t'(3)])
        (use assms(1) t'(2) hash_less [of w] in \<open>auto simp: table_inv_def dest: notin_set_remove1 set_remove1_subset [THEN subsetD]\<close>)
    moreover have "bag t' = bag t - {#w#}"
    proof -
      have "bag t' + mset (bucket t (hash w)) = bag t + (mset (bucket t (hash w)) - {#w#})"
        using bag_update [of "hash w" t' t] hash_less [of w] t'(2,3) by simp
      moreover have "bag t' = bag t - {#w#}" if in1: "w \<in># bag t" and in2: "w \<in># mset (bucket t (hash w))"
      proof -
        obtain C where C: "bag t = add_mset w C" using multi_member_split [OF in1] by blast
        obtain B where B: "mset (bucket t (hash w)) = add_mset w B" using multi_member_split [OF in2] by blast
        from calculation show ?thesis unfolding C B by simp
      qed
      moreover have "bag t' = bag t - {#w#}" if "w \<notin># bag t" "w \<notin> set (bucket t (hash w))"
        using calculation(1) that by (simp add: diff_single_trivial)
      ultimately show ?thesis using not_elsewhere [OF assms(1), of w] by (metis set_mset_mset)
    qed
    ultimately show ?thesis using remove msg t'(1) w by (simp add: serve_def meaning_def)
  next
    case clear
    then show ?thesis using msg
      by (simp add: serve_def meaning_def htable_clear_def table_inv_def bag_def bucket_def)
  next
    case other
    then show ?thesis using assms(1) msg by (simp add: serve_def meaning_def)
  qed
qed

interpretation ipc: word_store table_inv bag serve MAX_WORDS_PER_BUCKET
  by unfold_locales (rule serve_means)

section \<open>Properties\<close>

lemma server_loop_serve_all:
  "\<forall>msg \<in> set msgs. fst msg \<noteq> CHR ''e'' \<Longrightarrow>
   server_loop h (msgs @ (CHR ''e'', v) # rest) = obind (serve_all serve h msgs) (\<lambda>h'. Inr (h', True))"
  by (induction msgs arbitrary: h) (auto simp: obind_assoc)

lemma clear_inv: "table_inv t' \<and> bag t' = {#}" if "htable_clear (Some t) = Some t'"
  using that by (auto simp: htable_clear_def table_inv_def bag_def bucket_def)

lemma server_bag:
  assumes "length msgs \<le> MAX_WORDS_PER_BUCKET" and "\<forall>msg \<in> set msgs. length (snd msg) < MAX_WORD_SIZE \<and> fst msg \<noteq> CHR ''e''"
  shows "\<exists>t. server_main shared (msgs @ (CHR ''e'', v) # rest) = Inr (t, True)
    \<and> bag t = fold meaning msgs {#} \<and> (\<forall>k < BUCKET_COUNT. \<forall>x \<in> set (bucket t k). hash x = k)"
proof -
  obtain t0 where t0: "htable_clear (Some shared) = Some t0" by (simp add: htable_clear_def)
  note c = clear_inv [OF t0]
  obtain t where t: "serve_all serve t0 msgs = Inr t" "table_inv t" "bag t = fold meaning msgs {#}"
    using ipc.serve_all_means [of t0 msgs] c assms by auto
  have "server_main shared (msgs @ (CHR ''e'', v) # rest) = Inr (t, True)"
    using assms(2) t(1) by (simp add: server_main_def t0 server_loop_serve_all)
  with t(2,3) show ?thesis by (auto simp: table_inv_def)
qed

text \<open>C13: The server refines a multiset of words: whatever the shared memory holds at the start, after
fewer than 256 messages that add, remove or clear words of at most 15 characters, and the message
that ends it, the table holds exactly the words the messages mean, each in the bucket of its hash.\<close>

theorem server_is_a_multiset:
  assumes "length msgs \<le> MAX_WORDS_PER_BUCKET" and "\<forall>msg \<in> set msgs. length (snd msg) < MAX_WORD_SIZE \<and> fst msg \<noteq> CHR ''e''"
  shows "\<exists>t. server_main shared (msgs @ (CHR ''e'', v) # rest) = Inr (t, True)
    \<and> bag t = fold meaning msgs {#} \<and> (\<forall>k < BUCKET_COUNT. \<forall>x \<in> set (bucket t k). hash x = k)"
  using assms by (rule server_bag)

lemma server_is_a_multiset_witness:
  "\<exists>t. server_main \<lparr>words = (\<lambda>_ _. ''x''), first_free = (\<lambda>_. 9)\<rparr>
      ([(CHR ''a'', ''foo''), (CHR ''a'', ''bar''), (CHR ''r'', ''foo'')] @ (CHR ''e'', []) # []) = Inr (t, True)
    \<and> bag t = {#''bar''#}"
  using server_is_a_multiset [of "[(CHR ''a'', ''foo''), (CHR ''a'', ''bar''), (CHR ''r'', ''foo'')]"
      "\<lparr>words = (\<lambda>_ _. ''x''), first_free = (\<lambda>_. 9)\<rparr>" "[]" "[]"]
  by (auto simp: MAX_WORDS_PER_BUCKET_def MAX_WORD_SIZE_def meaning_def)

text \<open>Deleting a word from a full bucket clears a slot behind the bucket: outside the array.\<close>

theorem delete_from_full_bucket:
  assumes "first_free t (hash w) = MAX_WORDS_PER_BUCKET" and "slot_of w \<in> set (bucket t (hash w))"
  shows "htable_delete (Some t) w = Inl Undefined"
proof -
  have "find_word t (hash w) w 0 \<noteq> first_free t (hash w)"
    using find_word_spec [of 0 t "hash w" w] assms(2) by (auto simp: bucket_def)
  with assms(1) show ?thesis by (simp add: htable_delete_def Let_def)
qed

lemma delete_from_full_bucket_witness:
  "htable_delete (Some \<lparr>words = (\<lambda>_ _. ''foo''), first_free = (\<lambda>_. 256)\<rparr>) ''foo'' = Inl Undefined"
  by (rule delete_from_full_bucket)
    (simp_all add: MAX_WORDS_PER_BUCKET_def bucket_def slot_of_def MAX_WORD_SIZE_def image_constant_conv)

fun command_line :: "message list \<Rightarrow> string list" where
  "command_line [] = [''e'']"
| "command_line ((c, w) # msgs) = [c] # w # command_line msgs"

lemma client_sends:
  "\<forall>msg \<in> set msgs. fst msg \<in> {CHR ''a'', CHR ''r''} \<and> length (snd msg) < MAX_WORD_SIZE \<Longrightarrow>
   client_loop shared (command_line msgs) = Inr (msgs @ [(CHR ''e'', [])], [])"
  by (induction msgs rule: command_line.induct) (auto simp: slot_of_short)

text \<open>The commands of the client reach the server: adding and removing words of at most 15
characters and ending the server with \<^verbatim>\<open>e\<close> leaves in the table what was added and not removed.\<close>

theorem client_updates_server:
  assumes "length msgs \<le> MAX_WORDS_PER_BUCKET"
    and "\<forall>msg \<in> set msgs. fst msg \<in> {CHR ''a'', CHR ''r''} \<and> length (snd msg) < MAX_WORD_SIZE"
  shows "\<exists>sent t. client_loop shared (command_line msgs) = Inr (sent, []) \<and> server_main h sent = Inr (t, True)
    \<and> bag t = fold meaning msgs {#}"
proof -
  have "\<forall>msg \<in> set msgs. length (snd msg) < MAX_WORD_SIZE \<and> fst msg \<noteq> CHR ''e''" using assms(2) by auto
  from server_bag [OF assms(1) this, of h "[]" "[]"] client_sends [OF assms(2), of shared] show ?thesis by auto
qed

lemma client_updates_server_witness:
  "\<exists>sent t. client_loop (\<lambda>_. \<lparr>words = (\<lambda>_ _. []), first_free = (\<lambda>_. 0)\<rparr>) [''a'', ''foo'', ''a'', ''bar'', ''r'', ''foo'', ''e''] = Inr (sent, [])
     \<and> server_main \<lparr>words = (\<lambda>_ _. []), first_free = (\<lambda>_. 0)\<rparr> sent = Inr (t, True) \<and> bag t = {#''bar''#}"
proof -
  let ?msgs = "[(CHR ''a'', ''foo''), (CHR ''a'', ''bar''), (CHR ''r'', ''foo'')]"
  have "command_line ?msgs = [''a'', ''foo'', ''a'', ''bar'', ''r'', ''foo'', ''e'']" "fold meaning ?msgs {#} = {#''bar''#}"
    by (simp_all add: meaning_def)
  then show ?thesis
    using client_updates_server [of ?msgs "\<lambda>_. \<lparr>words = (\<lambda>_ _. []), first_free = (\<lambda>_. 0)\<rparr>" "\<lparr>words = (\<lambda>_ _. []), first_free = (\<lambda>_. 0)\<rparr>"]
    by (simp only: MAX_WORDS_PER_BUCKET_def MAX_WORD_SIZE_def) simp
qed

end
