(* ===== verification/Fgrep.thy ===== *)
theory Fgrep
  imports Channels
begin

text \<open>
  The parallel search of the eighth laboratory, \<^verbatim>\<open>labs/lab08/sol/lin/4-pfgrep/parallel_fgrep.c\<close>:
  a file is mapped into memory and divided into four chunks that overlap by the length of the
  string, a thread counts the occurrences in each, and the counts are added.  Sizes are 64 bits
  wide (\<^verbatim>\<open>size_t\<close>), the counters of the loop 32 (\<^verbatim>\<open>unsigned int\<close>).
\<close>

definition NUM_THREADS :: nat where "NUM_THREADS = 4"

section \<open>The mapping\<close>

text \<open>
  A mapping covers whole pages; what follows the file in its last page is zero.  A pointer into
  it is an offset; reading outside of it has no meaning.
\<close>

definition PAGE :: nat where "PAGE = 4096"

record file_mapping =
  mem :: "byte list"
  msize :: "64 word"

record params =
  chunk_mem :: "64 word"
  chunk_size :: "64 word"

text \<open>\<^verbatim>\<open>open\<close> fails when there is no such file, \<^verbatim>\<open>mmap\<close> when the file is empty; \<^verbatim>\<open>DIE\<close> ends the program.\<close>

definition map_file :: "(byte list \<Rightarrow> byte list option) \<Rightarrow> byte list \<Rightarrow> file_mapping outcome" where
  "map_file fs filename =
     (case fs filename of
        None \<Rightarrow> Inl (ExitWith 1)
      | Some bs \<Rightarrow>
          if bs = [] then Inl (ExitWith 1)
          else Inr \<lparr>mem = bs @ replicate ((PAGE - length bs mod PAGE) mod PAGE) 0, msize = of_nat (length bs)\<rparr>)"

definition memcmp_at :: "byte list \<Rightarrow> 64 word \<Rightarrow> byte list \<Rightarrow> bool outcome" where
  "memcmp_at m p what =
     (if unat p + length what \<le> length m then Inr (take (length what) (drop (unat p) m) = what) else Inl Undefined)"

section \<open>Counting in a chunk\<close>

text \<open>The loop of \<^verbatim>\<open>count\<close>, which need not end.\<close>

partial_function (option) count_loop ::
  "byte list \<Rightarrow> 64 word \<Rightarrow> byte list \<Rightarrow> 64 word \<Rightarrow> 64 word \<Rightarrow> 32 word \<Rightarrow> 32 word \<Rightarrow> 64 word outcome option" where
  "count_loop what what_size m p where_size i tot =
     (if ucast i < where_size - what_size + 1 then
        (case memcmp_at m (p + ucast i) what of
           Inl e \<Rightarrow> Some (Inl e)
         | Inr same \<Rightarrow>
             if same then count_loop what what_size m p where_size (ucast (ucast i + what_size)) (tot + 1)
             else count_loop what what_size m p where_size (i + 1) tot)
      else Some (Inr (ucast tot)))"

definition count_in :: "byte list \<Rightarrow> 64 word \<Rightarrow> byte list \<Rightarrow> 64 word \<Rightarrow> 64 word \<Rightarrow> 64 word outcome option" where
  "count_in what what_size m p where_size = count_loop what what_size m p where_size 0 0"

definition thread_code :: "byte list \<Rightarrow> byte list \<Rightarrow> params \<Rightarrow> 64 word outcome option" where
  "thread_code string m p = count_in string (of_nat (length string)) m (chunk_mem p) (chunk_size p)"

section \<open>Dividing the file\<close>

definition split_file_mapping :: "64 word \<Rightarrow> file_mapping \<Rightarrow> params list" where
  "split_file_mapping string_size fmap =
     (let csize = (msize fmap + of_nat NUM_THREADS - 1) div of_nat NUM_THREADS;
          th = map (\<lambda>i. \<lparr>chunk_mem = of_nat i * csize, chunk_size = csize + string_size - 1\<rparr>) [0..<NUM_THREADS - 1];
          i = NUM_THREADS - 1;
          last_size = min csize (msize fmap - of_nat i * csize);
          th = th @ [\<lparr>chunk_mem = of_nat i * csize, chunk_size = last_size\<rparr>] in
      if last_size < string_size - 1 then th[i - 1 := (th ! (i - 1))\<lparr>chunk_size := csize + last_size\<rparr>] else th)"

section \<open>The program\<close>

text \<open>
  The threads only read, so the order in which they run does not matter.  A thread that reads
  outside the mapping ends the process; otherwise a thread that does not end keeps \<^verbatim>\<open>pthread_join\<close>
  waiting.
\<close>

definition join_all :: "64 word outcome option list \<Rightarrow> 64 word outcome option" where
  "join_all rs =
     (if Some (Inl Undefined) \<in> set rs then Some (Inl Undefined)
      else if None \<in> set rs then None
      else Some (Inr (sum_list (map (case_option 0 (case_sum (\<lambda>_. 0) id)) rs))))"

text \<open>What \<^verbatim>\<open>main\<close> prints as the total; the arguments are strings, without zero bytes.\<close>

definition pfgrep_main :: "(byte list \<Rightarrow> byte list option) \<Rightarrow> byte list list \<Rightarrow> 64 word outcome option" where
  "pfgrep_main fs argv =
     (case argv of
        [prog, s, filename] \<Rightarrow>
          (case map_file fs filename of
             Inl e \<Rightarrow> Some (Inl e)
           | Inr fmap \<Rightarrow>
               join_all (map (thread_code s (mem fmap)) (split_file_mapping (of_nat (length s)) fmap)))
      | _ \<Rightarrow> Some (Inl (ExitWith 1)))"

section \<open>What is counted\<close>

text \<open>
  The positions where the string stands, and what a search from left to right counts when an
  occurrence is skipped whole.  A string is \<open>unbordered\<close> when two of its occurrences cannot overlap.
\<close>

definition match_at :: "byte list \<Rightarrow> byte list \<Rightarrow> nat \<Rightarrow> bool" where
  "match_at what s i \<longleftrightarrow> take (length what) (drop i s) = what"

definition occ :: "byte list \<Rightarrow> byte list \<Rightarrow> nat \<Rightarrow> nat \<Rightarrow> nat" where
  "occ what s a b = length (filter (match_at what s) [a..<b])"

definition occurrences :: "byte list \<Rightarrow> byte list \<Rightarrow> nat" where
  "occurrences what s = occ what s 0 (length s)"

definition unbordered :: "byte list \<Rightarrow> bool" where
  "unbordered what \<longleftrightarrow> (\<forall>k\<in>set [1..<length what]. drop k what \<noteq> take (length what - k) what)"

function greedy :: "byte list \<Rightarrow> byte list \<Rightarrow> nat \<Rightarrow> nat \<Rightarrow> nat" where
  "greedy what s lo hi =
     (if hi \<le> lo \<or> what = [] then 0
      else if match_at what s lo then 1 + greedy what s (lo + length what) hi
      else greedy what s (lo + 1) hi)"
  by pat_completeness auto
termination
  by (relation "measure (\<lambda>(what, s, lo, hi). hi - lo)") (auto intro!: diff_less_mono2)

declare greedy.simps [simp del]

lemma occ_split: "a \<le> b \<Longrightarrow> b \<le> c \<Longrightarrow> occ what s a c = occ what s a b + occ what s b c"
  by (auto simp: occ_def simp flip: filter_append length_append upt_add_eq_append dest!: le_Suc_ex)

lemma occ_none: "(\<And>i. a \<le> i \<Longrightarrow> i < b \<Longrightarrow> \<not> match_at what s i) \<Longrightarrow> occ what s a b = 0"
  by (simp add: occ_def filter_empty_conv)

lemma occ_cong: "(\<And>i. a \<le> i \<Longrightarrow> i < b \<Longrightarrow> match_at what s i = match_at what t i) \<Longrightarrow> occ what s a b = occ what t a b"
  unfolding occ_def by (intro arg_cong [where f = length] filter_cong) auto

lemma occ_first: "a < b \<Longrightarrow> occ what s a b = (if match_at what s a then 1 else 0) + occ what s (a + 1) b"
  by (simp add: occ_def upt_conv_Cons)

lemma matches_apart:
  assumes "unbordered what" "match_at what s i" "match_at what s j" "i < j"
  shows "i + length what \<le> j"
proof (rule ccontr)
  assume "\<not> i + length what \<le> j"
  then obtain k where k: "j = i + k" "0 < k" "k < length what"
    using assms(4) by (metis add_less_cancel_left less_imp_add_positive not_le)
  have "drop k what = drop k (take (length what) (drop i s))"
    using assms(2) by (simp add: match_at_def)
  also have "\<dots> = take (length what - k) (drop j s)"
    by (simp add: k drop_take add.commute)
  also have "\<dots> = take (length what - k) (take (length what) (drop j s))" by simp
  also have "\<dots> = take (length what - k) what" using assms(3) by (simp add: match_at_def)
  finally show False using assms(1) k by (auto simp: unbordered_def)
qed

lemma greedy_occ:
  assumes "unbordered what" "what \<noteq> []"
  shows "greedy what s lo hi = occ what s lo hi"
  using assms
proof (induction what s lo hi rule: greedy.induct)
  case (1 what s lo hi)
  show ?case
  proof (cases "lo < hi \<and> match_at what s lo")
    case True
    let ?m = "min hi (lo + length what)"
    have "occ what s (lo + 1) ?m = 0"
      using matches_apart [OF "1.prems"(1)] True by (intro occ_none) force
    moreover have "occ what s (lo + 1) hi = occ what s (lo + 1) ?m + occ what s ?m hi"
      using True "1.prems"(2) by (intro occ_split) (auto simp: Suc_le_eq)
    moreover have "occ what s ?m hi = occ what s (lo + length what) hi"
      by (auto simp: min_def occ_def)
    ultimately show ?thesis
      using 1 True by (simp add: greedy.simps [of what s lo] occ_first [of lo hi])
  next
    case False
    show ?thesis
    proof (cases "lo < hi")
      case True
      with 1 False show ?thesis by (auto simp: greedy.simps [of what s lo] occ_first [of lo hi])
    qed (simp add: greedy.simps [of what s lo] occ_def)
  qed
qed

lemma greedy_le: "what \<noteq> [] \<Longrightarrow> greedy what s lo hi \<le> hi - lo"
proof (induction what s lo hi rule: greedy.induct)
  case (1 what s lo hi)
  have "Suc n \<le> hi - lo" if "lo < hi" "n \<le> hi - (lo + length what)" for n
    using that "1.prems" by (cases what) auto
  with 1 show ?case
    by (cases "hi \<le> lo"; cases "match_at what s lo") (simp_all add: greedy.simps [of what s lo])
qed

section \<open>A chunk\<close>

lemma ucast_count: "k < 2 ^ 32 \<Longrightarrow> (ucast (of_nat k :: 32 word) :: 64 word) = of_nat k"
  by (simp add: unsigned_of_nat take_bit_nat_eq_self)

lemma back_count: "(ucast (of_nat k :: 64 word) :: 32 word) = of_nat k"
  by (simp add: unsigned_of_nat word_of_nat_eq_iff)

lemma word_less_nat: "a < 2 ^ 64 \<Longrightarrow> b < 2 ^ 64 \<Longrightarrow> (of_nat a :: 64 word) < of_nat b \<longleftrightarrow> a < b"
  by (simp add: word_less_nat_alt unat_of_nat)

lemma unat_size: "k < 2 ^ 64 \<Longrightarrow> unat (of_nat k :: 64 word) = k"
  by (simp add: unat_of_nat)

lemma memcmp_match:
  "P + length what \<le> length m \<Longrightarrow> length m < 2 ^ 64 \<Longrightarrow> memcmp_at m (of_nat P) what = Inr (match_at what m P)"
  by (simp add: memcmp_at_def match_at_def unat_of_nat)

text \<open>Inside the mapping the loop counts as the search from left to right does.\<close>

lemma count_loop_greedy:
  assumes "0 < length what" "w + 1 = h + length what" "w + length what < 2 ^ 32" "P + w \<le> length m" "length m < 2 ^ 64"
    and "k \<le> w + length what"
  shows "count_loop what (of_nat (length what)) m (of_nat P) (of_nat w) (of_nat k) tot
    = Some (Inr (ucast (tot + of_nat (greedy what m (P + k) (P + h)))))"
  using assms(6)
proof (induction "w + length what - k" arbitrary: k tot rule: less_induct)
  case less
  let ?n = "length what"
  have "of_nat w + 1 = (of_nat (h + ?n) :: 64 word)" using arg_cong [OF assms(2), of "of_nat :: nat \<Rightarrow> 64 word"] by (simp add: add.commute)
  then have lim: "(of_nat w - of_nat ?n + 1 :: 64 word) = of_nat h" by (simp add: algebra_simps)
  have k: "(ucast (of_nat k :: 32 word) :: 64 word) = of_nat k"
    using less.prems assms(3) by (intro ucast_count) simp
  have c: "(of_nat k :: 64 word) < of_nat h \<longleftrightarrow> k < h"
    using less.prems assms by (intro word_less_nat) auto
  have ne: "what \<noteq> []" using assms(1) by auto
  show ?case
  proof (cases "k < h")
    case True
    have at: "memcmp_at m (of_nat P + of_nat k) what = Inr (match_at what m (P + k))"
      using memcmp_match [of "P + k" what m] assms True by simp
    have step: "count_loop what (of_nat ?n) m (of_nat P) (of_nat w) (of_nat k) tot
      = (if match_at what m (P + k) then count_loop what (of_nat ?n) m (of_nat P) (of_nat w) (of_nat (k + ?n)) (tot + 1)
         else count_loop what (of_nat ?n) m (of_nat P) (of_nat w) (of_nat (k + 1)) tot)"
      using at c k True lim back_count [of "k + ?n"]
      by (simp add: count_loop.simps [of what _ m _ _ "of_nat k"] add.commute)
    have le: "k + ?n \<le> w + ?n" "k + 1 \<le> w + ?n" "w + ?n - (k + ?n) < w + ?n - k" "w + ?n - (k + 1) < w + ?n - k"
      using True assms(1,2) by linarith+
    show ?thesis
      unfolding step using less.hyps [OF le(3,1)] less.hyps [OF le(4,2)] True ne
      by (simp add: greedy.simps [of what m "P + k"] ac_simps)
  next
    case False
    then have "greedy what m (P + k) (P + h) = 0" by (simp add: greedy.simps)
    with False c k lim show ?thesis by (simp add: count_loop.simps [of what _ m _ _ "of_nat k"])
  qed
qed

lemma count_in_greedy:
  assumes "0 < length what" "w + 1 = h + length what" "w + length what < 2 ^ 32" "P + w \<le> length m" "length m < 2 ^ 64"
  shows "count_in what (of_nat (length what)) m (of_nat P) (of_nat w) = Some (Inr (of_nat (greedy what m P (P + h))))"
proof -
  have "greedy what m P (P + h) < 2 ^ 32"
  proof -
    have "h < 2 ^ 32" "what \<noteq> []" using assms(1,2,3) by (linarith, auto)
    then show ?thesis using greedy_le [of what m P "P + h"] by simp
  qed
  with count_loop_greedy [OF assms, of 0 0] show ?thesis
    by (simp add: count_in_def ucast_count)
qed

section \<open>The whole file\<close>

text \<open>The length of a chunk, and of the last one; the wrap-around of \<^verbatim>\<open>size - i * chunk_size\<close> makes
the last chunk of a file of one, two or five bytes as long as the others.\<close>

definition chunk_len :: "nat \<Rightarrow> nat" where
  "chunk_len s = (s + 3) div 4"

definition last_len :: "nat \<Rightarrow> nat" where
  "last_len s = (if 3 * chunk_len s \<le> s then s - 3 * chunk_len s else chunk_len s)"

lemma chunk_len_bounds: "s \<le> 4 * chunk_len s" "4 * chunk_len s \<le> s + 3"
  by (simp_all add: chunk_len_def)

lemma csize_word:
  assumes "s < 2 ^ 32"
  shows "((of_nat s + of_nat NUM_THREADS - 1) div of_nat NUM_THREADS :: 64 word) = of_nat (chunk_len s)"
proof -
  have "(of_nat s + of_nat NUM_THREADS - 1 :: 64 word) = of_nat (s + 3)" by (simp add: NUM_THREADS_def)
  moreover have "(of_nat (s + 3) div 4 :: 64 word) = of_nat (chunk_len s)"
    using assms unat_size [of "s + 3"] by (simp add: word_arith_nat_div chunk_len_def del: of_nat_add)
  ultimately show ?thesis by (simp add: NUM_THREADS_def add.commute)
qed

lemma last_size_word:
  assumes "s < 2 ^ 32"
  shows "min (of_nat (chunk_len s)) (of_nat s - of_nat 3 * of_nat (chunk_len s) :: 64 word) = of_nat (last_len s)"
proof (cases "3 * chunk_len s \<le> s")
  case True
  then have "(of_nat s - of_nat 3 * of_nat (chunk_len s) :: 64 word) = of_nat (s - 3 * chunk_len s)"
    by (simp add: of_nat_diff)
  moreover have "(of_nat (s - 3 * chunk_len s) :: 64 word) \<le> of_nat (chunk_len s)"
    unfolding word_le_nat_alt using chunk_len_bounds [of s] assms by (subst (1 2) unat_size) auto
  ultimately show ?thesis using True by (simp add: last_len_def min_def)
next
  case False
  define d where "d = 3 * chunk_len s - s"
  have d: "0 < d" "d < 2 ^ 32" "chunk_len s < 2 ^ 32" using False chunk_len_bounds [of s] assms by (auto simp: d_def)
  have "(of_nat (3 * chunk_len s) :: 64 word) = of_nat (s + d)" using False by (simp add: d_def)
  then have "(of_nat s - of_nat 3 * of_nat (chunk_len s) :: 64 word) = - of_nat d" by (simp add: algebra_simps)
  moreover have "- of_nat d = (of_nat (2 ^ 64 - d) :: 64 word)" using d by (simp add: of_nat_diff)
  moreover have "(of_nat (chunk_len s) :: 64 word) \<le> of_nat (2 ^ 64 - d)"
    unfolding word_le_nat_alt using d by (subst (1 2) unat_size) auto
  ultimately show ?thesis using False by (simp add: last_len_def)
qed

lemma split_eq:
  assumes "s < 2 ^ 32"
  shows "split_file_mapping n \<lparr>mem = m, msize = of_nat s\<rparr>
    = (let c = of_nat (chunk_len s); l = of_nat (last_len s) in
       [\<lparr>chunk_mem = 0, chunk_size = c + n - 1\<rparr>, \<lparr>chunk_mem = c, chunk_size = c + n - 1\<rparr>,
        \<lparr>chunk_mem = 2 * c, chunk_size = (if l < n - 1 then c + l else c + n - 1)\<rparr>, \<lparr>chunk_mem = 3 * c, chunk_size = l\<rparr>])"
proof -
  have 3: "NUM_THREADS - 1 = 3" "[0..<3] = [0, 1, 2]" by (simp_all add: NUM_THREADS_def upt_rec)
  show ?thesis
    unfolding split_file_mapping_def Let_def file_mapping.simps 3 csize_word [OF assms] last_size_word [OF assms] by simp
qed

lemma split_fits:
  assumes "s < 2 ^ 32" "0 < n" "n \<le> last_len s + 1"
  shows "split_file_mapping (of_nat n) \<lparr>mem = m, msize = of_nat s\<rparr>
    = map (\<lambda>i. \<lparr>chunk_mem = of_nat (i * chunk_len s), chunk_size = of_nat (chunk_len s + n - 1)\<rparr>) [0..<3]
      @ [\<lparr>chunk_mem = of_nat (3 * chunk_len s), chunk_size = of_nat (last_len s)\<rparr>]"
proof -
  have l: "last_len s < 2 ^ 32" using chunk_len_bounds [of s] assms(1) by (auto simp: last_len_def)
  have n: "of_nat n - 1 = (of_nat (n - 1) :: 64 word)" using assms(2) by (simp add: of_nat_diff)
  have "\<not> (of_nat (last_len s) < (of_nat (n - 1) :: 64 word))"
    using l assms by (subst word_less_nat) auto
  moreover have "of_nat (chunk_len s) + of_nat n - 1 = (of_nat (chunk_len s + n - 1) :: 64 word)"
    using assms(2) by (simp add: of_nat_diff)
  ultimately show ?thesis
    using assms(1) by (simp add: split_eq Let_def n) (simp add: upt_rec)
qed

definition mapping :: "byte list \<Rightarrow> byte list" where
  "mapping bs = bs @ replicate ((PAGE - length bs mod PAGE) mod PAGE) 0"

lemma map_file_eq: "fs f = Some bs \<Longrightarrow> bs \<noteq> [] \<Longrightarrow> map_file fs f = Inr \<lparr>mem = mapping bs, msize = of_nat (length bs)\<rparr>"
  by (simp add: map_file_def mapping_def)

lemma mapping_covers:
  assumes "0 < length bs"
  shows "3 * chunk_len (length bs) + last_len (length bs) \<le> length (mapping bs)" "length (mapping bs) < length bs + PAGE"
proof -
  show "length (mapping bs) < length bs + PAGE" by (simp add: mapping_def PAGE_def)
  show "3 * chunk_len (length bs) + last_len (length bs) \<le> length (mapping bs)"
  proof (cases "3 * chunk_len (length bs) \<le> length bs")
    case True
    then show ?thesis by (simp add: last_len_def mapping_def)
  next
    case False
    then have s: "length bs \<le> 5" using chunk_len_bounds [of "length bs"] by linarith
    then have "length (mapping bs) = PAGE" using assms by (simp add: mapping_def PAGE_def)
    then show ?thesis using False s chunk_len_bounds [of "length bs"] by (simp add: last_len_def PAGE_def)
  qed
qed

lemma match_bounds:
  assumes "match_at what s i" "what \<noteq> []"
  shows "i + length what \<le> length s"
proof -
  have "min (length s - i) (length what) = length what"
    using arg_cong [OF assms(1) [unfolded match_at_def], of length] by (simp add: min.commute)
  then have "length what \<le> length s - i" by (simp add: min_def split: if_splits)
  moreover have "0 < length what" using assms(2) by simp
  ultimately show ?thesis by linarith
qed

lemma match_in_file:
  assumes "0 \<notin> set what" "what \<noteq> []" "match_at what (mapping bs) i"
  shows "i + length what \<le> length bs"
proof (rule ccontr)
  assume "\<not> i + length what \<le> length bs"
  then have i: "length bs < i + length what" by simp
  define j where "j = i + length what - 1"
  have eq: "take (length what) (drop i (mapping bs)) = what" using assms(3) by (simp add: match_at_def)
  have len: "i + length what \<le> length (mapping bs)" using match_bounds assms(2,3) by blast
  have "last what = mapping bs ! j"
    using eq len assms(2) by (metis (no_types, lifting) One_nat_def Suc_diff_1 add_diff_assoc j_def last_conv_nth length_greater_0_conv
      lessI nth_drop nth_take add_leD1 Suc_leI)
  also have "\<dots> = 0" using i len assms(2) by (auto simp: mapping_def j_def nth_append)
  finally show False using assms(1,2) last_in_set by metis
qed

lemma match_mapping:
  "i + length what \<le> length bs \<Longrightarrow> match_at what (mapping bs) i = match_at what bs i"
  by (simp add: match_at_def mapping_def)

lemma occ_mapping:
  assumes "0 \<notin> set what" "what \<noteq> []" "length bs + 1 \<le> hi + length what"
  shows "occ what (mapping bs) 0 hi = occurrences what bs"
proof -
  let ?k = "length bs + 1 - length what"
  have none: "\<not> match_at what (mapping bs) i" if "?k \<le> i" for i
    using match_in_file [OF assms(1,2), of bs i] that by (auto simp: not_le)
  have "\<not> match_at what bs i" if "?k \<le> i" for i
    using that match_bounds [of what bs i] assms(2) by auto
  then have "occ what bs ?k (length bs) = 0" by (intro occ_none) simp
  moreover have "?k \<le> length bs" "?k \<le> hi" using assms(2,3) by (cases what; simp)+
  moreover have "occ what (mapping bs) ?k hi = 0" using none by (intro occ_none) simp
  moreover have "occ what (mapping bs) 0 ?k = occ what bs 0 ?k"
    by (intro occ_cong match_mapping) auto
  ultimately show ?thesis
    using occ_split [of 0 ?k hi what "mapping bs"] occ_split [of 0 ?k "length bs" what bs] by (simp add: occurrences_def)
qed

lemma thread_counts:
  assumes "length bs < 2 ^ 31" "what \<noteq> []" "unbordered what"
    and "w + 1 = h + length what" "w + length what < 2 ^ 32" "P + w \<le> length (mapping bs)"
  shows "thread_code what (mapping bs) \<lparr>chunk_mem = of_nat P, chunk_size = of_nat w\<rparr>
    = Some (Inr (of_nat (occ what (mapping bs) P (P + h))))"
proof -
  have "length (mapping bs) < length bs + PAGE" by (simp add: mapping_def PAGE_def)
  then have "length (mapping bs) < 2 ^ 64" using assms(1) by (simp add: PAGE_def)
  with count_in_greedy [OF _ assms(4,5,6)] assms(2,3) show ?thesis
    by (simp add: thread_code_def greedy_occ)
qed

text \<open>C17: When the last chunk is not shorter than the string less one byte, and occurrences of the
string cannot overlap, the four threads find together each occurrence in the file once, as one search
through the whole file does.\<close>

theorem threads_count_as_one:
  assumes "fs f = Some bs" "bs \<noteq> []" "length bs < 2 ^ 31"
    and "what \<noteq> []" "0 \<notin> set what" "unbordered what" "length what \<le> last_len (length bs) + 1"
  shows "pfgrep_main fs [prog, what, f] = Some (Inr (of_nat (occurrences what bs)))
    \<and> count_in what (of_nat (length what)) (mapping bs) 0 (of_nat (length bs)) = Some (Inr (of_nat (occurrences what bs)))"
proof
  let ?s = "length bs" and ?n = "length what" and ?m = "mapping bs"
  define c where "c = chunk_len ?s"
  define l where "l = last_len ?s"
  have n: "0 < ?n" "?n \<le> l + 1" using assms(4,7) by (simp_all add: l_def)
  have c: "l \<le> c" "1 \<le> c" "c \<le> ?s" "l \<le> ?s" "?s \<le> 3 * c + l"
    using chunk_len_bounds [of ?s] assms(2) by (auto simp: c_def l_def last_len_def Suc_le_eq)
      (metis gr0I le_zero_eq length_0_conv mult_0_right)+
  have cover: "3 * c + l \<le> length ?m" using mapping_covers [of bs] assms(2) by (simp add: c_def l_def)
  have cc: "c + c = 2 * c" by simp
  note th = thread_counts [OF assms(3,4,6)]
  have t: "thread_code what ?m \<lparr>chunk_mem = of_nat (j * c), chunk_size = of_nat (c + ?n - 1)\<rparr>
      = Some (Inr (of_nat (occ what ?m (j * c) (j * c + c))))" if "j \<le> 2" for j
  proof (rule th)
    have "j * c \<le> 2 * c" using that by simp
    then show "j * c + (c + ?n - 1) \<le> length ?m" using n cover by linarith
    show "c + ?n - 1 + ?n < 2 ^ 32" using c n assms(3) chunk_len_bounds(2) [of ?s] by (simp add: c_def)
  qed (use n in simp)
  have "thread_code what ?m \<lparr>chunk_mem = of_nat (3 * c), chunk_size = of_nat l\<rparr>
      = Some (Inr (of_nat (occ what ?m (3 * c) (3 * c + (l + 1 - ?n)))))"
    using c n assms(3) cover by (intro th) auto
  moreover have "map_file fs f = Inr \<lparr>mem = ?m, msize = of_nat ?s\<rparr>" using assms(1,2) by (rule map_file_eq)
  moreover have "split_file_mapping (of_nat ?n) \<lparr>mem = ?m, msize = of_nat ?s\<rparr>
    = map (\<lambda>i. \<lparr>chunk_mem = of_nat (i * c), chunk_size = of_nat (c + ?n - 1)\<rparr>) [0..<3]
      @ [\<lparr>chunk_mem = of_nat (3 * c), chunk_size = of_nat l\<rparr>]"
    unfolding c_def l_def using n assms(3) by (intro split_fits) (auto simp: l_def)
  ultimately have "pfgrep_main fs [prog, what, f] = Some (Inr (of_nat (occ what ?m 0 c + occ what ?m c (2 * c)
      + occ what ?m (2 * c) (3 * c) + occ what ?m (3 * c) (3 * c + (l + 1 - ?n)))))"
    using t [of 0] t [of 1] t [of 2] cc by (simp add: pfgrep_main_def join_all_def upt_rec [of _ 3] add.assoc)
  also have "occ what ?m 0 c + occ what ?m c (2 * c) + occ what ?m (2 * c) (3 * c) + occ what ?m (3 * c) (3 * c + (l + 1 - ?n))
    = occ what ?m 0 (3 * c + (l + 1 - ?n))"
    using occ_split [of 0 c "3 * c + (l + 1 - ?n)"] occ_split [of c "2 * c" "3 * c + (l + 1 - ?n)"]
      occ_split [of "2 * c" "3 * c" "3 * c + (l + 1 - ?n)"] by simp
  also have "\<dots> = occurrences what bs"
    using occ_mapping [OF assms(5,4)] c n by simp
  finally show "pfgrep_main fs [prog, what, f] = Some (Inr (of_nat (occurrences what bs)))" .
  have "thread_code what ?m \<lparr>chunk_mem = of_nat 0, chunk_size = of_nat ?s\<rparr>
      = Some (Inr (of_nat (occ what ?m 0 (0 + (?s + 1 - ?n)))))"
  proof (rule th)
    show "0 + ?s \<le> length ?m" by (simp add: mapping_def)
  qed (use c n assms(3) in auto)
  then show "count_in what (of_nat ?n) ?m 0 (of_nat ?s) = Some (Inr (of_nat (occurrences what bs)))"
    using occ_mapping [OF assms(5,4), of bs "?s + 1 - ?n"] c n by (simp add: thread_code_def)
qed

text \<open>A file of thirteen bytes with three occurrences, one of them across two chunks.\<close>

definition sample_text :: "byte list" where
  "sample_text = [97, 98, 120, 97, 98, 120, 120, 120, 120, 120, 97, 98, 120]"

theorem threads_count_as_one_witness:
  "pfgrep_main (\<lambda>f. if f = [102] then Some sample_text else None) [[112], [97, 98], [102]] = Some (Inr (of_nat (occurrences [97, 98] sample_text)))
    \<and> count_in [97, 98] (of_nat (length [97 :: byte, 98])) (mapping sample_text) 0 (of_nat (length sample_text))
      = Some (Inr (of_nat (occurrences [97, 98] sample_text)))"
  by (rule threads_count_as_one) (simp_all add: sample_text_def unbordered_def last_len_def chunk_len_def)

section \<open>Strings the division does not fit\<close>

text \<open>With a limit of the loop beyond the mapping, the loop runs out of it.\<close>

lemma count_loop_runs_out:
  assumes "what \<noteq> []" "length m + length what < 2 ^ 32" "P + k \<le> length m"
    and lim: "\<And>j. j < 2 ^ 32 \<Longrightarrow> of_nat j < ws - of_nat (length what) + 1"
  shows "count_loop what (of_nat (length what)) m (of_nat P) ws (of_nat k) tot = Some (Inl Undefined)"
  using assms(3)
proof (induction "length m - k" arbitrary: k tot rule: less_induct)
  case less
  let ?n = "length what"
  have k: "(ucast (of_nat k :: 32 word) :: 64 word) = of_nat k" "of_nat k < ws - of_nat ?n + 1"
    using less.prems assms(2) by (auto intro: ucast_count lim)
  have p: "unat (of_nat P + of_nat k :: 64 word) = P + k"
    using unat_size [of "P + k"] less.prems assms(2) by simp
  show ?case
  proof (cases "P + k + ?n \<le> length m")
    case False
    then show ?thesis using k p by (simp add: count_loop.simps [of what _ m _ _ "of_nat k"] memcmp_at_def)
  next
    case True
    have n: "0 < ?n" using assms(1) by simp
    have "memcmp_at m (of_nat P + of_nat k) what = Inr (match_at what m (P + k))"
      using True p by (simp add: memcmp_at_def match_at_def)
    then have step: "count_loop what (of_nat ?n) m (of_nat P) ws (of_nat k) tot
      = (if match_at what m (P + k) then count_loop what (of_nat ?n) m (of_nat P) ws (of_nat (k + ?n)) (tot + 1)
         else count_loop what (of_nat ?n) m (of_nat P) ws (of_nat (k + 1)) tot)"
      using k back_count [of "k + ?n"] by (simp add: count_loop.simps [of what _ m _ _ "of_nat k"] add.commute)
    have d: "length m - (k + ?n) < length m - k" "length m - (k + 1) < length m - k" "P + (k + ?n) \<le> length m"
      "P + (k + 1) \<le> length m"
      using True n by linarith+
    show ?thesis unfolding step using less.hyps [OF d(1,3)] less.hyps [OF d(2,4)] by simp
  qed
qed

text \<open>An empty string is found at the same place forever.\<close>

lemma count_loop_empty:
  assumes "p + 0 = of_nat P" "P \<le> length m" "length m < 2 ^ 64" "ws + 1 \<noteq> 0"
  shows "count_loop [] 0 m p ws 0 tot = None"
proof -
  let ?Q = "\<lambda>what n mm q w i (tot :: 32 word) (r :: 64 word outcome). \<not> (what = [] \<and> n = 0 \<and> mm = m \<and> q = p \<and> w = ws \<and> i = (0 :: 32 word))"
  have here: "memcmp_at m (p + 0) [] = Inr True" using assms by (simp add: memcmp_at_def unat_size)
  have pos: "(0 :: 64 word) < ws + 1" using assms(4) by (simp add: word_neq_0_conv)
  have "?Q what n mm q w i tot r" if "count_loop what n mm q w i tot = Some r" for what n mm q w i tot r
    using that
  proof (rule count_loop.raw_induct [where P = ?Q, rotated])
    fix f :: "byte list \<Rightarrow> 64 word \<Rightarrow> byte list \<Rightarrow> 64 word \<Rightarrow> 64 word \<Rightarrow> 32 word \<Rightarrow> 32 word \<Rightarrow> 64 word outcome option"
      and what n mm q w i tot r
    assume IH: "\<And>what n mm q w i tot r. f what n mm q w i tot = Some r \<Longrightarrow> ?Q what n mm q w i tot r"
      and eq: "(if ucast i < w - n + 1 then
        (case memcmp_at mm (q + ucast i) what of
           Inl e \<Rightarrow> Some (Inl e)
         | Inr same \<Rightarrow> if same then f what n mm q w (ucast (ucast i + n)) (tot + 1) else f what n mm q w (i + 1) tot)
        else Some (Inr (ucast tot))) = Some r"
    show "?Q what n mm q w i tot r"
    proof
      assume a: "what = [] \<and> n = 0 \<and> mm = m \<and> q = p \<and> w = ws \<and> i = 0"
      with eq here pos have "f what n mm q w i (tot + 1) = Some r" by simp
      with IH a show False by blast
    qed
  qed
  then show ?thesis by (metis option.exhaust)
qed

text \<open>A string longer than the last chunk by more than a byte makes the last thread read past the
mapping, since \<^verbatim>\<open>where_size - what_size + 1\<close> wraps around: the program is undefined even where the
string occurs.  An empty string makes it wait forever.\<close>

theorem unfit_strings_break_search:
  assumes "fs f = Some bs" "bs \<noteq> []" "length bs < 2 ^ 31"
    and what: "last_len (length bs) + 1 < length what" "length what < 2 ^ 30"
  shows "pfgrep_main fs [prog, what, f] = Some (Inl Undefined) \<and> pfgrep_main fs [prog, [], f] = None"
proof -
  let ?s = "length bs" and ?m = "mapping bs"
  define c where "c = chunk_len ?s"
  define l where "l = last_len ?s"
  have s: "?s < 2 ^ 32" using assms(3) by simp
  have c: "1 \<le> c" "4 * c \<le> ?s + 3" "l \<le> c" "3 * c + l \<le> length ?m" "length ?m < ?s + PAGE"
  proof -
    have pos: "0 < ?s" using assms(2) by simp
    then show "1 \<le> c" using chunk_len_bounds(1) [of ?s] unfolding c_def by linarith
    show "3 * c + l \<le> length ?m" "length ?m < ?s + PAGE" using mapping_covers [OF pos] by (simp_all add: c_def l_def)
    show "4 * c \<le> ?s + 3" "l \<le> c" using chunk_len_bounds [of ?s] by (auto simp: c_def l_def last_len_def)
  qed
  have map: "map_file fs f = Inr \<lparr>mem = ?m, msize = of_nat ?s\<rparr>" using assms(1,2) by (rule map_file_eq)
  note sp = split_eq [OF s, folded c_def l_def, unfolded Let_def]
  have "pfgrep_main fs [prog, what, f] = Some (Inl Undefined)"
  proof -
    let ?n = "length what"
    define d where "d = ?n - 1 - l"
    have d: "0 < d" "d < 2 ^ 30" "?n = l + d + 1" using what by (auto simp: d_def l_def)
    have "(of_nat j :: 64 word) < of_nat l - of_nat ?n + 1" if "j < 2 ^ 32" for j
    proof -
      have "of_nat l - of_nat ?n + 1 = (of_nat (2 ^ 64 - d) :: 64 word)" using d by (simp add: of_nat_diff)
      moreover have "(of_nat j :: 64 word) < of_nat (2 ^ 64 - d)" using d that by (subst word_less_nat) auto
      ultimately show ?thesis by simp
    qed
    then have "count_loop what (of_nat ?n) ?m (of_nat (3 * c)) (of_nat l) (of_nat 0) 0 = Some (Inl Undefined)"
      using what c assms(3) by (intro count_loop_runs_out) (auto simp: PAGE_def)
    then show ?thesis using map sp by (simp add: pfgrep_main_def join_all_def thread_code_def count_in_def)
  qed
  have lim: "length ?m < 2 ^ 64" using c assms(3) by (simp add: PAGE_def)
  have ne: "(of_nat k :: 64 word) \<noteq> 0" if "0 < k" "k < 2 ^ 64" for k
    using unat_size [of k] that by (metis less_irrefl unat_0)
  have no: "thread_code [] ?m \<lparr>chunk_mem = of_nat P, chunk_size = w\<rparr> = None" if "P \<le> 3 * c" "w + 1 = of_nat k" "0 < k" "k < 2 ^ 64" for P w k
  proof -
    have "P \<le> length ?m" using that(1) c(4) by linarith
    with count_loop_empty [of "of_nat P" P ?m w] lim ne [OF that(3,4)] that(2) show ?thesis
      by (simp add: thread_code_def count_in_def)
  qed
  have "thread_code [] ?m p = None" if "p \<in> set (split_file_mapping 0 \<lparr>mem = ?m, msize = of_nat ?s\<rparr>)" for p
    using that no [of 0 _ c] no [of c _ c] no [of "2 * c" _ c] no [of "2 * c" _ "c + l + 1"] no [of "3 * c" _ "l + 1"] c assms(3)
    by (auto simp: sp add.commute split: if_splits)
  then have "pfgrep_main fs [prog, [], f] = None"
    using map sp [of 0 ?m] by (simp add: pfgrep_main_def join_all_def)
  with \<open>pfgrep_main fs [prog, what, f] = Some (Inl Undefined)\<close> show ?thesis by simp
qed

theorem unfit_strings_break_search_witness:
  "pfgrep_main (\<lambda>f. if f = [102] then Some [97, 98, 99, 97, 98, 99, 97, 98] else None) [[112], [97, 98, 99, 97], [102]] = Some (Inl Undefined)
    \<and> pfgrep_main (\<lambda>f. if f = [102] then Some [97, 98, 99, 97, 98, 99, 97, 98] else None) [[112], [], [102]] = None"
  by (rule unfit_strings_break_search [of _ _ "[97, 98, 99, 97, 98, 99, 97, 98]"]) (simp_all add: last_len_def chunk_len_def)

text \<open>The program is not a parallel \<^verbatim>\<open>fgrep -o\<close> for a string whose occurrences can overlap: of twelve
equal bytes, a search from left to right finds six pairs, the threads find seven.\<close>

theorem overlaps_counted_twice:
  "pfgrep_main (\<lambda>f. if f = [102] then Some (replicate 12 97) else None) [[112], [97, 97], [102]] = Some (Inr 7)
    \<and> count_in [97, 97] 2 (mapping (replicate 12 97)) 0 12 = Some (Inr 6)"
proof -
  let ?b = "replicate 12 (97 :: byte)" and ?w = "[97, 97] :: byte list"
  have len: "length (mapping ?b) = 4096" by (simp add: mapping_def PAGE_def)
  have m: "match_at ?w (mapping ?b) i" if "i \<le> 10" for i
  proof -
    have "[97, 97] = replicate 2 (97 :: byte)" by (simp add: numeral_2_eq_2)
    then show ?thesis using that match_mapping [of i ?w ?b] by (simp add: match_at_def)
  qed
  have g: "greedy ?w (mapping ?b) lo hi = (if hi \<le> lo then 0 else 1 + greedy ?w (mapping ?b) (lo + 2) hi)"
    if "hi \<le> 11" for lo hi
    using that m [of lo] by (simp add: greedy.simps [of ?w "mapping ?b" lo])
  have k: "count_in ?w 2 (mapping ?b) (of_nat P) (of_nat w) = Some (Inr (of_nat (greedy ?w (mapping ?b) P (P + h))))"
    if "w + 1 = h + 2" "P + w \<le> 12" for P w h
    using count_in_greedy [of ?w w h P "mapping ?b"] that len by simp
  have th: "thread_code ?w (mapping ?b) \<lparr>chunk_mem = p, chunk_size = q\<rparr> = count_in ?w 2 (mapping ?b) p q" for p q
    by (simp add: thread_code_def)
  have sp: "split_file_mapping 2 \<lparr>mem = mapping ?b, msize = 12\<rparr>
    = [\<lparr>chunk_mem = 0, chunk_size = 4\<rparr>, \<lparr>chunk_mem = 3, chunk_size = 4\<rparr>, \<lparr>chunk_mem = 6, chunk_size = 4\<rparr>,
       \<lparr>chunk_mem = 9, chunk_size = 3\<rparr>]"
    using split_eq [of 12 2 "mapping ?b"] by (simp add: Let_def chunk_len_def last_len_def)
  have mf: "map_file (\<lambda>f. if f = [102] then Some ?b else None) [102] = Inr \<lparr>mem = mapping ?b, msize = 12\<rparr>"
    by (subst map_file_eq [where bs = ?b]) simp_all
  show ?thesis
    using k [of 4 3 0] k [of 4 3 3] k [of 4 3 6] k [of 3 2 9] k [of 12 11 0]
    by (simp add: pfgrep_main_def mf sp th join_all_def g)
qed

end
