(* ===== verification/DormRoom.thy ===== *)
theory DormRoom
  imports Prelude
begin

text \<open>
  The dorm room problem of the ninth laboratory, \<^verbatim>\<open>labs/lab09/sol/win/8-dean/dorm_room.c\<close>: students
  party until the dean enters; the dean enters when the party is wild or nobody is there, and
  waits until all have left.  Threads run in any interleaving; both mutexes protect every
  section of the code.
\<close>

definition MAX_STUDENTS :: nat where "MAX_STUDENTS = 15"
definition wild_party :: int where "wild_party = 7"

section \<open>The sections of the code\<close>

text \<open>
  What a thread does while it holds both mutexes: \<^verbatim>\<open>enter_room\<close>, the loop of \<^verbatim>\<open>party\<close>, and the two
  loops of \<^verbatim>\<open>break_party\<close>.  The result is the new \<^verbatim>\<open>students_at_party\<close> and \<^verbatim>\<open>dean_in_room\<close>, and the
  section that follows, if any.
\<close>

datatype part = Enter | Party | Watch | Clear

definition enter_room :: "int \<Rightarrow> int \<Rightarrow> int \<times> int \<times> part option" where
  "enter_room sap dir = (if dir = 0 then (sap + 1, dir, Some Party) else (sap, dir, None))"

definition party :: "int \<Rightarrow> int \<Rightarrow> int \<times> int \<times> part option" where
  "party sap dir = (if dir \<noteq> 0 then (sap - 1, dir, None) else (sap, dir, Some Party))"

definition break_party :: "int \<Rightarrow> int \<Rightarrow> int \<times> int \<times> part option" where
  "break_party sap dir = (if sap > wild_party \<or> sap = 0 then (sap, 1, Some Clear) else (sap, dir, Some Watch))"

definition wait_for_students :: "int \<Rightarrow> int \<Rightarrow> int \<times> int \<times> part option" where
  "wait_for_students sap dir = (if sap = 0 then (sap, dir, None) else (sap, dir, Some Clear))"

fun body :: "part \<Rightarrow> int \<Rightarrow> int \<Rightarrow> int \<times> int \<times> part option" where
  "body Enter = enter_room"
| "body Party = party"
| "body Watch = break_party"
| "body Clear = wait_for_students"

section \<open>Threads\<close>

text \<open>
  Where a thread is: before a section, with the first mutex, with both, with both after the
  section, with the first after the second was released, or ended.
\<close>

datatype place = At part | First part | Both part | Done2 "part option" | Done1 "part option" | Ended

datatype thread = Student nat | Dean

record dorm =
  students_at_party :: int
  dean_in_room :: int
  stud_mutex :: "thread option"
  dean_mutex :: "thread option"
  places :: "thread \<Rightarrow> place"

text \<open>
  The students that the two tests of \<^verbatim>\<open>main\<close> start, by the index of the handle that is stored; \<open>rand i\<close> is what \<^verbatim>\<open>rand()\<close> returns
  in round \<open>i\<close> of the first loop of \<^verbatim>\<open>test2\<close>.  The loop ends before \<^verbatim>\<open>++i\<close>, and the next one begins with the same index.
\<close>

definition test1_starts :: "nat list" where
  "test1_starts = [0..<MAX_STUDENTS]"

function test2_starts :: "(nat \<Rightarrow> nat) \<Rightarrow> nat \<Rightarrow> nat list" where
  "test2_starts rand i =
     (if i < MAX_STUDENTS
      then i # (if rand i mod (MAX_STUDENTS - i) < 5 then [i..<MAX_STUDENTS] else test2_starts rand (i + 1))
      else [])"
  by pat_completeness auto
termination
  by (relation "measure (\<lambda>(rand, i). MAX_STUDENTS - i)") auto

declare test2_starts.simps [simp del]

text \<open>The start of a test with \<open>n\<close> students: all threads are created, in an order that the interleaving decides.\<close>

definition dorm_init :: "nat \<Rightarrow> dorm" where
  "dorm_init n = \<lparr>students_at_party = 0, dean_in_room = 0, stud_mutex = None, dean_mutex = None,
     places = (\<lambda>t. case t of Student i \<Rightarrow> if i < n then At Enter else Ended | Dean \<Rightarrow> At Watch)\<rparr>"

definition goes :: "thread \<Rightarrow> place \<Rightarrow> dorm \<Rightarrow> dorm" where
  "goes t p s = s\<lparr>places := (places s)(t := p)\<rparr>"

inductive dorm_step :: "thread \<Rightarrow> dorm \<Rightarrow> dorm \<Rightarrow> bool" where
  lock_stud: "places s t = At x \<Longrightarrow> stud_mutex s = None \<Longrightarrow> dorm_step t s (goes t (First x) (s\<lparr>stud_mutex := Some t\<rparr>))"
| lock_dean: "places s t = First x \<Longrightarrow> dean_mutex s = None \<Longrightarrow> dorm_step t s (goes t (Both x) (s\<lparr>dean_mutex := Some t\<rparr>))"
| act: "places s t = Both x \<Longrightarrow> body x (students_at_party s) (dean_in_room s) = (sap, dir, y)
    \<Longrightarrow> dorm_step t s (goes t (Done2 y) (s\<lparr>students_at_party := sap, dean_in_room := dir\<rparr>))"
| unlock_dean: "places s t = Done2 y \<Longrightarrow> dorm_step t s (goes t (Done1 y) (s\<lparr>dean_mutex := None\<rparr>))"
| unlock_stud: "places s t = Done1 y
    \<Longrightarrow> dorm_step t s (goes t (case y of None \<Rightarrow> Ended | Some x \<Rightarrow> At x) (s\<lparr>stud_mutex := None\<rparr>))"

inductive_cases dorm_stepE: "dorm_step t s s'"

definition step_any :: "dorm \<Rightarrow> dorm \<Rightarrow> bool" where
  "step_any s s' \<longleftrightarrow> (\<exists>t. dorm_step t s s')"

section \<open>The invariant\<close>

fun part_of :: "place \<Rightarrow> part option" where
  "part_of (At x) = Some x"
| "part_of (First x) = Some x"
| "part_of (Both x) = Some x"
| "part_of (Done2 y) = y"
| "part_of (Done1 y) = y"
| "part_of Ended = None"

fun has_stud :: "place \<Rightarrow> bool" where
  "has_stud (At x) = False"
| "has_stud Ended = False"
| "has_stud _ = True"

fun has_dean :: "place \<Rightarrow> bool" where
  "has_dean (Both x) = True"
| "has_dean (Done2 y) = True"
| "has_dean _ = False"

definition locks_inv :: "dorm \<Rightarrow> bool" where
  "locks_inv s \<longleftrightarrow> (\<forall>t. stud_mutex s = Some t \<longleftrightarrow> has_stud (places s t)) \<and> (\<forall>t. dean_mutex s = Some t \<longleftrightarrow> has_dean (places s t))"

text \<open>The students in the party, and what the counter and the dean know of them.\<close>

definition partying :: "nat \<Rightarrow> dorm \<Rightarrow> nat set" where
  "partying n s = {i. i < n \<and> part_of (places s (Student i)) = Some Party}"

definition party_inv :: "nat \<Rightarrow> dorm \<Rightarrow> bool" where
  "party_inv n s \<longleftrightarrow> students_at_party s = int (card (partying n s))
     \<and> (\<forall>i. part_of (places s (Student i)) \<in> {None, Some Enter, Some Party} \<and> (n \<le> i \<longrightarrow> places s (Student i) = Ended))
     \<and> part_of (places s Dean) \<in> {None, Some Watch, Some Clear}
     \<and> dean_in_room s = (if part_of (places s Dean) = Some Watch then 0 else 1)
     \<and> (part_of (places s Dean) = None \<longrightarrow> partying n s = {})
     \<and> (dean_in_room s = 0 \<longrightarrow> (\<forall>i<n. part_of (places s (Student i)) \<noteq> None))"

lemma goes_simps [simp]:
  "places (goes t p s) = (places s)(t := p)" "students_at_party (goes t p s) = students_at_party s"
  "dean_in_room (goes t p s) = dean_in_room s" "stud_mutex (goes t p s) = stud_mutex s" "dean_mutex (goes t p s) = dean_mutex s"
  by (simp_all add: goes_def)

lemma locks_inv_step: "dorm_step t s s' \<Longrightarrow> locks_inv s \<Longrightarrow> locks_inv s'"
proof (erule dorm_stepE, goal_cases)
  case (4 y)
  moreover have "\<not> has_dean (places s u)" if "u \<noteq> t" for u
    using that 4 by (metis has_dean.simps(2) locks_inv_def option.inject)
  ultimately show ?case by (auto simp: locks_inv_def)
next
  case (5 y)
  moreover have "\<not> has_stud (places s u)" if "u \<noteq> t" for u
    using that 5 by (metis has_stud.simps(6) locks_inv_def option.inject)
  ultimately show ?case by (auto simp: locks_inv_def split: option.split)
qed (auto simp: locks_inv_def)

lemma part_of_after [simp]: "part_of (case y of None \<Rightarrow> Ended | Some x \<Rightarrow> At x) = y"
  by (cases y) simp_all

lemma finite_partying [simp]: "finite (partying n s)"
  by (simp add: partying_def)

text \<open>A step that stays in its section changes nothing that the invariant speaks of.\<close>

lemma party_inv_same:
  assumes inv: "party_inv n s" and same: "students_at_party s1 = students_at_party s" "dean_in_room s1 = dean_in_room s" "places s1 = places s"
    and p: "part_of p = part_of (places s t)" "places s t \<noteq> Ended"
  shows "party_inv n (goes t p s1)"
proof -
  have part: "part_of (places (goes t p s1) u) = part_of (places s u)" for u using same p by simp
  have idle: "places (goes t p s1) (Student i) = Ended" if "n \<le> i" for i
    using inv that same p(2) by (auto simp: party_inv_def)
  have pe: "partying n (goes t p s1) = partying n s" unfolding partying_def part ..
  have fields: "students_at_party (goes t p s1) = students_at_party s" "dean_in_room (goes t p s1) = dean_in_room s"
    using same by simp_all
  show ?thesis using inv idle unfolding party_inv_def part pe fields by simp
qed

lemma partying_goes:
  "partying n (goes (Student i) p s) =
     (if i < n \<and> part_of p = Some Party then insert i (partying n s) else partying n s - {i})"
  "partying n (goes Dean p s) = partying n s"
  by (auto simp: partying_def)

lemma student_part:
  assumes "party_inv n s" "part_of (places s (Student i)) = Some x"
  shows "i < n" "x = Enter \<or> x = Party"
proof -
  have *: "part_of (places s (Student i)) \<in> {None, Some Enter, Some Party}" "n \<le> i \<Longrightarrow> places s (Student i) = Ended"
    using assms(1) unfolding party_inv_def by blast+
  show "x = Enter \<or> x = Party" using *(1) assms(2) by simp
  show "i < n" using *(2) assms(2) by (cases "i < n") auto
qed

lemma party_inv_act:
  assumes inv: "party_inv n s" and at: "places s t = Both x"
    and b: "body x (students_at_party s) (dean_in_room s) = (sap, dir, y)"
  shows "party_inv n (goes t (Done2 y) (s\<lparr>students_at_party := sap, dean_in_room := dir\<rparr>))"
proof (cases t)
  case (Student i)
  then have i: "i < n" "x = Enter \<or> x = Party"
    using student_part [OF inv, of i x] at by simp_all
  have fresh: "partying n (s\<lparr>students_at_party := sap, dean_in_room := dir\<rparr>) = partying n s" by (simp add: partying_def)
  have mem: "i \<in> partying n s \<longleftrightarrow> x = Party" using i at Student by (auto simp: partying_def)
  have cd: "i \<in> partying n s \<Longrightarrow> int (card (partying n s) - Suc 0) = int (card (partying n s)) - 1"
    using card_gt_0_iff [of "partying n s"] by fastforce
  show ?thesis
    using inv i b mem at cd unfolding Student
    by (auto simp: party_inv_def partying_goes fresh enter_room_def party_def card_insert_if card_Diff_singleton_if
        split: if_splits) 
next
  case Dean
  then have x: "x = Watch \<or> x = Clear" using inv at by (auto simp: party_inv_def)
  have fresh: "partying n (s\<lparr>students_at_party := sap, dean_in_room := dir\<rparr>) = partying n s" by (simp add: partying_def)
  show ?thesis
    using inv x b at unfolding Dean
    by (auto simp: party_inv_def partying_goes fresh break_party_def wait_for_students_def split: if_splits)
qed

lemma party_inv_step:
  assumes "dorm_step t s s'" "party_inv n s"
  shows "party_inv n s'"
  using assms(1)
proof cases
  case (act x sap dir y)
  then show ?thesis using party_inv_act [OF assms(2)] by simp
next
  case (lock_stud x)
  then show ?thesis using party_inv_same [OF assms(2), where p = "First x" and t = t] by simp
next
  case (lock_dean x)
  then show ?thesis using party_inv_same [OF assms(2), where p = "Both x" and t = t] by simp
next
  case (unlock_dean y)
  then show ?thesis using party_inv_same [OF assms(2), where p = "Done1 y" and t = t] by simp
next
  case (unlock_stud y)
  then show ?thesis using party_inv_same [OF assms(2), where p = "case y of None \<Rightarrow> Ended | Some x \<Rightarrow> At x" and t = t] by simp
qed

definition dorm_inv :: "nat \<Rightarrow> dorm \<Rightarrow> bool" where
  "dorm_inv n s \<longleftrightarrow> locks_inv s \<and> party_inv n s"

lemma dorm_inv_init: "dorm_inv n (dorm_init n)"
proof -
  have "partying n (dorm_init n) = {}" by (auto simp: partying_def dorm_init_def)
  then show ?thesis
    by (auto simp: dorm_inv_def locks_inv_def party_inv_def dorm_init_def split: thread.splits)
qed

lemma dorm_inv_run: "step_any\<^sup>*\<^sup>* s s' \<Longrightarrow> dorm_inv n s \<Longrightarrow> dorm_inv n s'"
  by (induction rule: rtranclp_induct) (auto simp: step_any_def dorm_inv_def intro: locks_inv_step party_inv_step)

section \<open>Safety\<close>

lemma partying_step:
  assumes "dorm_step t s s'" "dean_in_room s \<noteq> 0"
  shows "partying n s' \<subseteq> partying n s"
  using assms(1)
proof cases
  case (act x sap dir y)
  then show ?thesis using assms(2)
    by (cases x) (auto simp: partying_def enter_room_def party_def break_party_def wait_for_students_def split: if_splits)
qed (auto simp: partying_def split: if_splits)

lemma dean_enters:
  assumes "dorm_step t s s'" "dean_in_room s' \<noteq> dean_in_room s" "party_inv n s"
  shows "t = Dean \<and> (students_at_party s = 0 \<or> wild_party < students_at_party s)"
  using assms(1)
proof cases
  case (act x sap dir y)
  then have x: "x = Watch" "students_at_party s = 0 \<or> wild_party < students_at_party s" using assms(2)
    by (cases x; auto simp: enter_room_def party_def break_party_def wait_for_students_def split: if_splits)+
  then have "t = Dean" using act(2) student_part(2) [OF assms(3), of _ Watch]
    by (cases t) (metis part_of.simps(3) part.distinct(3) part.distinct(7), simp)
  with x show ?thesis by simp
qed (use assms(2) in auto)

text \<open>C19: However many students a test starts, in every interleaving the counter is the number of students in the party, only one thread
is in a section, the dean enters only a wild party or an empty room, nobody joins while the dean is
there, and when the dean goes the room is empty.\<close>

theorem dean_ends_the_party:
  assumes "step_any\<^sup>*\<^sup>* (dorm_init n) s"
  shows "students_at_party s = int (card (partying n s)) \<and> students_at_party s \<le> int n
    \<and> (\<forall>t u. has_dean (places s t) \<and> has_dean (places s u) \<longrightarrow> t = u)
    \<and> (\<forall>t s'. dorm_step t s s' \<and> dean_in_room s' \<noteq> dean_in_room s
          \<longrightarrow> t = Dean \<and> (students_at_party s = 0 \<or> wild_party < students_at_party s))
    \<and> (\<forall>t s'. dorm_step t s s' \<and> dean_in_room s \<noteq> 0 \<longrightarrow> partying n s' \<subseteq> partying n s)
    \<and> (places s Dean = Ended \<longrightarrow> partying n s = {})"
proof -
  have inv: "locks_inv s" "party_inv n s" using dorm_inv_run [OF assms dorm_inv_init] by (simp_all add: dorm_inv_def)
  have "partying n s \<subseteq> {..<n}" by (auto simp: partying_def)
  then have "card (partying n s) \<le> n" using card_mono [of "{..<n}"] by fastforce
  moreover have "students_at_party s = int (card (partying n s))" "places s Dean = Ended \<Longrightarrow> partying n s = {}"
    using inv(2) by (auto simp: party_inv_def)
  moreover have "t = u" if "has_dean (places s t)" "has_dean (places s u)" for t u
    using inv(1) that by (metis locks_inv_def option.inject)
  moreover have "\<forall>t s'. dorm_step t s s' \<and> dean_in_room s' \<noteq> dean_in_room s
      \<longrightarrow> t = Dean \<and> (students_at_party s = 0 \<or> wild_party < students_at_party s)"
    using dean_enters [OF _ _ inv(2)] by blast
  moreover have "\<forall>t s'. dorm_step t s s' \<and> dean_in_room s \<noteq> 0 \<longrightarrow> partying n s' \<subseteq> partying n s"
    using partying_step by blast
  ultimately show ?thesis by simp
qed

text \<open>A state in which a student holds the first mutex.\<close>

definition sample_dorm :: dorm where
  "sample_dorm = goes (Student 0) (First Enter) ((dorm_init MAX_STUDENTS)\<lparr>stud_mutex := Some (Student 0)\<rparr>)"

theorem dean_ends_the_party_witness:
  "students_at_party sample_dorm = int (card (partying MAX_STUDENTS sample_dorm)) \<and> students_at_party sample_dorm \<le> int MAX_STUDENTS"
proof -
  have "dorm_step (Student 0) (dorm_init MAX_STUDENTS) sample_dorm"
    unfolding sample_dorm_def by (rule lock_stud) (simp_all add: dorm_init_def MAX_STUDENTS_def)
  then have "step_any (dorm_init MAX_STUDENTS) sample_dorm" by (auto simp: step_any_def)
  then show ?thesis using dean_ends_the_party [OF r_into_rtranclp] by blast
qed

text \<open>The second test starts a student more than there are handles, and one handle is lost: \<^verbatim>\<open>wait_all\<close> does not wait for its
thread.\<close>

lemma test2_sixteen:
  "length test1_starts = 15" "length (test2_starts rand 0) = 16 \<and> \<not> distinct (test2_starts rand 0)"
proof -
  have "i \<le> 10 \<Longrightarrow> length (test2_starts rand i) = 16 - i \<and> \<not> distinct (test2_starts rand i)" for i
  proof (induction "10 - i" arbitrary: i)
    case 0
    then have "i = 10" by simp
    then show ?case by (simp add: test2_starts.simps [of rand 10] MAX_STUDENTS_def)
  next
    case (Suc k)
    then have i: "i < 10" "k = 10 - (i + 1)" by simp_all
    with Suc.hyps(1) [OF i(2)] show ?case by (subst (1 2) test2_starts.simps) (auto simp: MAX_STUDENTS_def)
  qed
  from this [of 0] show "length (test2_starts rand 0) = 16 \<and> \<not> distinct (test2_starts rand 0)" by simp
  show "length test1_starts = 15" by (simp add: test1_starts_def MAX_STUDENTS_def)
qed

section \<open>Progress\<close>

definition unlocked :: "dorm \<Rightarrow> bool" where
  "unlocked s \<longleftrightarrow> stud_mutex s = None \<and> dean_mutex s = None"

definition after :: "part option \<Rightarrow> place" where
  "after y = (case y of None \<Rightarrow> Ended | Some x \<Rightarrow> At x)"

text \<open>A thread that holds a mutex can go on until it gives both back.\<close>

lemma done1_runs: "places s t = Done1 y \<Longrightarrow> locks_inv s \<Longrightarrow> \<exists>s'. step_any\<^sup>*\<^sup>* s s' \<and> unlocked s'"
proof -
  assume p: "places s t = Done1 y" "locks_inv s"
  then have "stud_mutex s = Some t" by (simp add: locks_inv_def)
  have "dean_mutex s = None"
  proof (rule ccontr)
    assume "dean_mutex s \<noteq> None"
    then obtain u where "has_dean (places s u)" using p(2) by (auto simp: locks_inv_def)
    then have "has_stud (places s u)" "u \<noteq> t" using p(1) by (cases "places s u"; auto)+
    then show False using p by (metis has_stud.simps(6) locks_inv_def option.inject)
  qed
  then have "unlocked (goes t (case y of None \<Rightarrow> Ended | Some x \<Rightarrow> At x) (s\<lparr>stud_mutex := None\<rparr>))" by (simp add: unlocked_def)
  moreover have "step_any s (goes t (case y of None \<Rightarrow> Ended | Some x \<Rightarrow> At x) (s\<lparr>stud_mutex := None\<rparr>))"
    using unlock_stud [OF p(1)] by (auto simp: step_any_def)
  ultimately show ?thesis by blast
qed

lemma run_step:
  assumes "dorm_step t s s1" "locks_inv s" "locks_inv s1 \<Longrightarrow> \<exists>s'. step_any\<^sup>*\<^sup>* s1 s' \<and> unlocked s'"
  shows "\<exists>s'. step_any\<^sup>*\<^sup>* s s' \<and> unlocked s'"
  using assms locks_inv_step [OF assms(1,2)] by (metis converse_rtranclp_into_rtranclp step_any_def)

lemma done2_runs: "places s t = Done2 y \<Longrightarrow> locks_inv s \<Longrightarrow> \<exists>s'. step_any\<^sup>*\<^sup>* s s' \<and> unlocked s'"
  using run_step [OF unlock_dean] done1_runs by (metis fun_upd_same goes_simps(1))

lemma both_runs: "places s t = Both x \<Longrightarrow> locks_inv s \<Longrightarrow> \<exists>s'. step_any\<^sup>*\<^sup>* s s' \<and> unlocked s'"
  using run_step [OF act] done2_runs by (metis fun_upd_same goes_simps(1) prod.exhaust)

lemma first_runs:
  assumes "places s t = First x" "locks_inv s"
  shows "\<exists>s'. step_any\<^sup>*\<^sup>* s s' \<and> unlocked s'"
proof -
  have "dean_mutex s = None"
  proof (rule ccontr)
    assume "dean_mutex s \<noteq> None"
    then obtain u where "has_dean (places s u)" using assms(2) by (auto simp: locks_inv_def)
    then have "has_stud (places s u)" "u \<noteq> t" using assms(1) by (cases "places s u"; auto)+
    then show False using assms by (metis has_stud.simps(3) locks_inv_def option.inject)
  qed
  then show ?thesis using run_step [OF lock_dean [OF assms(1)] assms(2)] both_runs by (metis fun_upd_same goes_simps(1))
qed

lemma reaches_unlocked:
  assumes "locks_inv s"
  shows "\<exists>s'. step_any\<^sup>*\<^sup>* s s' \<and> unlocked s'"
proof (cases "stud_mutex s")
  case None
  have "\<not> has_dean (places s u)" for u
    using None assms by (cases "places s u") (auto simp: locks_inv_def, (metis has_stud.simps option.distinct(1))+)
  then have "dean_mutex s = None" using assms by (auto simp: locks_inv_def)
  with None have "unlocked s" by (simp add: unlocked_def)
  then show ?thesis by blast
next
  case (Some t)
  then have "has_stud (places s t)" using assms unfolding locks_inv_def by blast
  then show ?thesis
    using assms by (cases "places s t") (simp_all, (blast intro: first_runs both_runs done2_runs done1_runs)+)
qed

text \<open>With the mutexes free, a thread can run through one section.\<close>

lemma turn:
  assumes "unlocked s" "places s t = At x" "body x (students_at_party s) (dean_in_room s) = (sap, dir, y)"
  shows "step_any\<^sup>*\<^sup>* s (goes t (after y) (s\<lparr>students_at_party := sap, dean_in_room := dir\<rparr>))"
proof -
  have free: "stud_mutex s = None" "dean_mutex s = None" using assms(1) by (simp_all add: unlocked_def)
  define s1 where "s1 = goes t (First x) (s\<lparr>stud_mutex := Some t\<rparr>)"
  define s2 where "s2 = goes t (Both x) (s1\<lparr>dean_mutex := Some t\<rparr>)"
  define s3 where "s3 = goes t (Done2 y) (s2\<lparr>students_at_party := sap, dean_in_room := dir\<rparr>)"
  define s4 where "s4 = goes t (Done1 y) (s3\<lparr>dean_mutex := None\<rparr>)"
  define s5 where "s5 = goes t (after y) (s4\<lparr>stud_mutex := None\<rparr>)"
  have "dorm_step t s s1" unfolding s1_def using assms free by (intro lock_stud)
  moreover have "dorm_step t s1 s2" unfolding s2_def by (rule lock_dean) (simp_all add: s1_def free)
  moreover have "dorm_step t s2 s3" unfolding s3_def by (rule act [where x = x]) (simp_all add: s2_def s1_def assms(3))
  moreover have "dorm_step t s3 s4" unfolding s4_def by (rule unlock_dean) (simp add: s3_def)
  moreover have "dorm_step t s4 s5" unfolding s5_def after_def by (rule unlock_stud) (simp add: s4_def)
  ultimately have "step_any\<^sup>*\<^sup>* s s5"
    by (meson converse_rtranclp_into_rtranclp rtranclp.rtrancl_refl step_any_def)
  moreover have "s5 = goes t (after y) (s\<lparr>students_at_party := sap, dean_in_room := dir\<rparr>)"
    using free by (simp add: s5_def s4_def s3_def s2_def s1_def goes_def)
  ultimately show ?thesis by simp
qed

text \<open>How much is left to do.\<close>

fun weight :: "part option \<Rightarrow> nat" where
  "weight None = 0"
| "weight (Some Party) = 1"
| "weight (Some Clear) = 1"
| "weight _ = 2"

definition togo :: "nat \<Rightarrow> dorm \<Rightarrow> nat" where
  "togo n s = weight (part_of (places s Dean)) + (\<Sum>i<n. weight (part_of (places s (Student i))))"

lemma togo_decreases:
  assumes "places s' = (places s)(t := after y)" "weight y < weight (part_of (places s t))"
    and "\<And>i. t = Student i \<Longrightarrow> i < n"
  shows "togo n s' < togo n s"
proof (cases t)
  case Dean
  then show ?thesis using assms by (simp add: togo_def after_def)
next
  case (Student i)
  have "(\<Sum>j<n. weight (part_of (places s' (Student j)))) < (\<Sum>j<n. weight (part_of (places s (Student j))))"
    using assms Student by (intro sum_strict_mono_ex1) (auto simp: after_def)
  then show ?thesis using assms(1) Student by (simp add: togo_def)
qed

lemma unlocked_place:
  assumes "unlocked s" "locks_inv s" "part_of (places s t) = Some x"
  shows "places s t = At x"
proof -
  have "\<not> has_stud (places s t)" using assms(1,2) by (auto simp: unlocked_def locks_inv_def)
  then show ?thesis using assms(3) by (cases "places s t") auto
qed

text \<open>Some thread has a useful turn, unless all have ended.\<close>

lemma useful_turn:
  assumes "unlocked s" "dorm_inv n s" "\<exists>t. places s t \<noteq> Ended" "wild_party < int n"
  shows "\<exists>t x sap dir y. places s t = At x \<and> body x (students_at_party s) (dean_in_room s) = (sap, dir, y)
    \<and> weight y < weight (Some x) \<and> (\<forall>i. t = Student i \<longrightarrow> i < n)"
proof (cases "dean_in_room s = 0 \<and> \<not> (\<exists>i. part_of (places s (Student i)) = Some Enter)")
  case True
  have inv: "party_inv n s" "locks_inv s" using assms(2) by (simp_all add: dorm_inv_def)
  have "part_of (places s (Student i)) = Some Party" if "i < n" for i
    using student_part [OF inv(1)] True that inv(1) by (fastforce simp: party_inv_def)
  then have "partying n s = {..<n}" by (auto simp: partying_def)
  then have "students_at_party s = int n" using inv(1) by (simp add: party_inv_def)
  moreover have "places s Dean = At Watch"
    using unlocked_place [OF assms(1) inv(2), of Dean Watch] inv(1) True by (simp add: party_inv_def split: if_splits)
  ultimately show ?thesis
    using assms(4) by (intro exI [of _ Dean] exI [of _ Watch]) (simp add: break_party_def)
next
  case False
  have inv: "party_inv n s" "locks_inv s" using assms(2) by (simp_all add: dorm_inv_def)
  note at = unlocked_place [OF assms(1) inv(2)]
  show ?thesis
  proof (cases "\<exists>i x. part_of (places s (Student i)) = Some x \<and> (dean_in_room s \<noteq> 0 \<or> x = Enter)")
    case True
    then obtain i x where i: "part_of (places s (Student i)) = Some x" "dean_in_room s \<noteq> 0 \<or> x = Enter" by blast
    note p = student_part [OF inv(1) i(1)]
    show ?thesis
      using i(2) p at [OF i(1)]
      by (intro exI [of _ "Student i"] exI [of _ x]) (cases "dean_in_room s = 0"; auto simp: enter_room_def party_def)
  next
    case idle: False
    then have dir: "dean_in_room s \<noteq> 0" using False by blast
    have none: "part_of (places s (Student i)) = None" for i using idle dir by (meson not_None_eq)
    then have "partying n s = {}" by (simp add: partying_def)
    then have sap: "students_at_party s = 0" using inv(1) by (simp add: party_inv_def)
    have ended: "places s t = Ended" if "part_of (places s t) = None" for t
    proof -
      have "\<not> has_stud (places s t)" using assms(1) inv(2) by (auto simp: unlocked_def locks_inv_def)
      then show ?thesis using that by (cases "places s t") auto
    qed
    have "part_of (places s Dean) \<noteq> None" using assms(3) ended none by (metis thread.exhaust)
    then have "part_of (places s Dean) = Some Clear" using inv(1) dir by (auto simp: party_inv_def split: if_splits)
    then show ?thesis using at [of Dean Clear] sap
      by (intro exI [of _ Dean] exI [of _ Clear]) (simp add: wait_for_students_def)
  qed
qed

lemma unlocked_finishes:
  assumes "dorm_inv n s" "unlocked s" "wild_party < int n"
  shows "\<exists>s'. step_any\<^sup>*\<^sup>* s s' \<and> (\<forall>t. places s' t = Ended)"
  using assms(1,2)
proof (induction "togo n s" arbitrary: s rule: less_induct)
  case less
  show ?case
  proof (cases "\<exists>t. places s t \<noteq> Ended")
    case True
    obtain t x sap dir y where t: "places s t = At x" "body x (students_at_party s) (dean_in_room s) = (sap, dir, y)"
      "weight y < weight (Some x)" "\<forall>i. t = Student i \<longrightarrow> i < n"
      using useful_turn [OF less.prems(2,1) True assms(3)] by blast
    let ?s = "goes t (after y) (s\<lparr>students_at_party := sap, dean_in_room := dir\<rparr>)"
    have run: "step_any\<^sup>*\<^sup>* s ?s" using turn [OF less.prems(2) t(1,2)] .
    have "togo n ?s < togo n s" using t by (intro togo_decreases [of _ _ t y]) auto
    moreover have "unlocked ?s" using less.prems(2) by (simp add: unlocked_def)
    moreover have "dorm_inv n ?s" using dorm_inv_run [OF run less.prems(1)] .
    ultimately show ?thesis using less.hyps run by (meson rtranclp_trans)
  qed auto
qed

text \<open>C20: When there are more students than make a party wild, as in both tests, no interleaving leads into a deadlock or a state that
cannot end: from every reachable state the threads can all run to their end, and then nobody is in the room.\<close>

theorem party_can_end:
  assumes "step_any\<^sup>*\<^sup>* (dorm_init n) s" "wild_party < int n"
  shows "\<exists>s'. step_any\<^sup>*\<^sup>* s s' \<and> (\<forall>t. places s' t = Ended) \<and> students_at_party s' = 0"
proof -
  have inv: "dorm_inv n s" using dorm_inv_run [OF assms(1) dorm_inv_init] .
  then obtain s0 where s0: "step_any\<^sup>*\<^sup>* s s0" "unlocked s0" using reaches_unlocked by (auto simp: dorm_inv_def)
  obtain s' where s': "step_any\<^sup>*\<^sup>* s0 s'" "\<forall>t. places s' t = Ended"
    using unlocked_finishes dorm_inv_run [OF s0(1) inv] s0(2) assms(2) by blast
  have run: "step_any\<^sup>*\<^sup>* s s'" using s0(1) s'(1) by (rule rtranclp_trans)
  have "party_inv n s'" using dorm_inv_run [OF run inv] by (simp add: dorm_inv_def)
  moreover have "partying n s' = {}" using s'(2) by (simp add: partying_def)
  ultimately have "students_at_party s' = 0" by (simp add: party_inv_def)
  with run s'(2) show ?thesis by blast
qed

theorem party_can_end_witness:
  "(\<exists>s'. step_any\<^sup>*\<^sup>* (dorm_init (length test1_starts)) s' \<and> (\<forall>t. places s' t = Ended) \<and> students_at_party s' = 0) \<and>
   (\<exists>s'. step_any\<^sup>*\<^sup>* (dorm_init (length (test2_starts (\<lambda>i. 7 * i) 0))) s' \<and> (\<forall>t. places s' t = Ended) \<and> students_at_party s' = 0)"
  using party_can_end [OF rtranclp.rtrancl_refl, of "length test1_starts"]
    party_can_end [OF rtranclp.rtrancl_refl, of "length (test2_starts (\<lambda>i. 7 * i) 0)"] test2_sixteen
  by (simp add: wild_party_def)

end
