(* ===== verification/Barrier.thy ===== *)
theory Barrier
  imports Prelude
begin

text \<open>
  The threshold barrier of the ninth laboratory, \<^verbatim>\<open>labs/lab09/sol/win/6-barrier/barrier.c\<close>, and
  its five threads, which meet at it twice.  \<^verbatim>\<open>SignalObjectAndWait\<close> releases a mutex and waits for
  an event; whether these are one step is left to Windows, which does not promise it, so it is a
  parameter of the model.
\<close>

definition NO_THREADS :: nat where "NO_THREADS = 5"

text \<open>How often a thread meets the others.\<close>

definition ROUNDS :: nat where "ROUNDS = 2"

section \<open>State\<close>

text \<open>
  Where a thread is: on its way to the barrier for the \<open>n\<close>-th time, inside with the mutex, with
  the mutex released but not yet waiting, waiting for the event, or ended.
\<close>

datatype place = Works nat | Inside nat | Released nat | Waits nat | Ended

record threshold_barrier =
  hGuard :: "nat option"
  dwCount :: nat
  dwThreshold :: nat
  threads :: "place list"

text \<open>Each answer says whether \<^verbatim>\<open>malloc\<close>, \<^verbatim>\<open>CreateMutex\<close> and \<^verbatim>\<open>CreateEvent\<close> succeed.\<close>

definition CreateThresholdBarrier :: "bool \<Rightarrow> bool \<Rightarrow> bool \<Rightarrow> nat \<Rightarrow> threshold_barrier option" where
  "CreateThresholdBarrier mem_ok mutex_ok event_ok b_value =
     (if \<not> mem_ok then None
      else if \<not> mutex_ok then None
      else if \<not> event_ok then None
      else Some \<lparr>hGuard = None, dwCount = 0, dwThreshold = b_value, threads = []\<rparr>)"

text \<open>\<^verbatim>\<open>main\<close> up to the wait for the threads.\<close>

definition barrier_main :: "bool \<Rightarrow> bool \<Rightarrow> bool \<Rightarrow> threshold_barrier outcome" where
  "barrier_main mem_ok mutex_ok event_ok =
     (case CreateThresholdBarrier mem_ok mutex_ok event_ok NO_THREADS of
        None \<Rightarrow> Inl (ExitWith 1)
      | Some b \<Rightarrow> Inr (b\<lparr>threads := replicate NO_THREADS (Works 0)\<rparr>))"

section \<open>Steps\<close>

text \<open>The rest of \<^verbatim>\<open>ThreadFunc\<close> after the barrier was passed.\<close>

definition onward :: "nat \<Rightarrow> place" where
  "onward n = (if n + 1 < ROUNDS then Works (n + 1) else Ended)"

text \<open>\<^verbatim>\<open>PulseEvent\<close> on an event that is reset by hand lets every thread go that waits at this moment.\<close>

fun pulse :: "place \<Rightarrow> place" where
  "pulse (Waits n) = onward n"
| "pulse p = p"

definition WaitThresholdBarrier :: "bool \<Rightarrow> nat \<Rightarrow> nat \<Rightarrow> threshold_barrier \<Rightarrow> threshold_barrier" where
  "WaitThresholdBarrier atomic t n s =
     (if dwCount s + 1 < dwThreshold s then
        s\<lparr>dwCount := dwCount s + 1, hGuard := None, threads := (threads s)[t := (if atomic then Waits n else Released n)]\<rparr>
      else
        s\<lparr>dwCount := 0, hGuard := None, threads := (map pulse (threads s))[t := onward n]\<rparr>)"

definition barrier_step :: "bool \<Rightarrow> nat \<Rightarrow> threshold_barrier \<Rightarrow> threshold_barrier option" where
  "barrier_step atomic t s =
     (if t < length (threads s) then
        (case threads s ! t of
           Works n \<Rightarrow> if hGuard s = None then Some (s\<lparr>hGuard := Some t, threads := (threads s)[t := Inside n]\<rparr>) else None
         | Inside n \<Rightarrow> Some (WaitThresholdBarrier atomic t n s)
         | Released n \<Rightarrow> Some (s\<lparr>threads := (threads s)[t := Waits n]\<rparr>)
         | Waits n \<Rightarrow> None
         | Ended \<Rightarrow> None)
      else None)"

text \<open>A schedule names the thread that moves next.\<close>

fun run :: "bool \<Rightarrow> nat list \<Rightarrow> threshold_barrier \<Rightarrow> threshold_barrier option" where
  "run atomic [] s = Some s"
| "run atomic (t # ts) s = (case barrier_step atomic t s of None \<Rightarrow> None | Some s' \<Rightarrow> run atomic ts s')"

definition stuck :: "bool \<Rightarrow> threshold_barrier \<Rightarrow> bool" where
  "stuck atomic s \<longleftrightarrow> (\<forall>t\<in>{..<length (threads s)}. barrier_step atomic t s = None)"

section \<open>The invariant\<close>

text \<open>How often a thread was counted, and how often it has passed the barrier.\<close>

fun arrived :: "place \<Rightarrow> nat" where
  "arrived (Works n) = n"
| "arrived (Inside n) = n"
| "arrived (Released n) = n + 1"
| "arrived (Waits n) = n + 1"
| "arrived Ended = ROUNDS"

fun passed :: "place \<Rightarrow> nat" where
  "passed (Works n) = n"
| "passed (Inside n) = n"
| "passed (Released n) = n"
| "passed (Waits n) = n"
| "passed Ended = ROUNDS"

fun in_rounds :: "place \<Rightarrow> bool" where
  "in_rounds Ended = True"
| "in_rounds p = (passed p < ROUNDS)"

text \<open>In round \<open>k\<close> every thread was counted \<open>k\<close> times or once more, and nobody has passed more often.\<close>

definition round_inv :: "nat \<Rightarrow> threshold_barrier \<Rightarrow> bool" where
  "round_inv k s \<longleftrightarrow> length (threads s) = NO_THREADS \<and> dwThreshold s = NO_THREADS
     \<and> (\<forall>p\<in>set (threads s). in_rounds p \<and> (arrived p = k \<or> arrived p = k + 1) \<and> passed p \<le> k)
     \<and> dwCount s = length (filter (\<lambda>p. arrived p = k + 1) (threads s)) \<and> dwCount s < NO_THREADS"

lemma length_filter_update:
  "i < length xs \<Longrightarrow>
   length (filter P (xs[i := y])) + (if P (xs ! i) then 1 else 0) = length (filter P xs) + (if P y then 1 else 0)"
proof (induction xs arbitrary: i)
  case (Cons x xs)
  then show ?case by (cases i) (fastforce split: if_splits)+
qed simp

lemma all_of_filter: "length (filter P xs) = length xs \<Longrightarrow> x \<in> set xs \<Longrightarrow> P x"
  using length_filter_less [of x xs P] by fastforce

lemma round_inv_move:
  assumes "round_inv k s" "t < length (threads s)" "threads s' = (threads s)[t := p]"
    and "dwThreshold s' = dwThreshold s" "dwCount s' = dwCount s"
    and "arrived p = arrived (threads s ! t)" "passed p = passed (threads s ! t)" "in_rounds p"
  shows "round_inv k s'"
proof -
  have "threads s ! t \<in> set (threads s)" using assms(2) by simp
  then have "\<forall>q\<in>set (threads s'). in_rounds q \<and> (arrived q = k \<or> arrived q = k + 1) \<and> passed q \<le> k"
    using assms set_update_subset_insert [of "threads s" t p] by (auto simp: round_inv_def dest!: subsetD)
  moreover have "length (filter (\<lambda>p. arrived p = k + 1) (threads s')) = length (filter (\<lambda>p. arrived p = k + 1) (threads s))"
    using length_filter_update [OF assms(2), of "\<lambda>p. arrived p = k + 1" p] assms(3,6) by simp
  ultimately show ?thesis using assms by (simp add: round_inv_def)
qed

lemma onward_counts: "k < ROUNDS \<Longrightarrow> arrived (onward k) = k + 1 \<and> passed (onward k) = k + 1 \<and> in_rounds (onward k)"
  by (auto simp: onward_def)

lemma round_inv_wait:
  assumes inv: "round_inv k s" and t: "t < length (threads s)" "threads s ! t = Inside n"
  shows "round_inv (if dwCount s + 1 < dwThreshold s then k else k + 1) (WaitThresholdBarrier atomic t n s)"
    and "n = k" "k < ROUNDS"
proof -
  let ?P = "\<lambda>p. arrived p = k + 1"
  have "Inside n \<in> set (threads s)" using t nth_mem by metis
  with inv have n: "n = k" "k < ROUNDS" by (auto simp: round_inv_def)
  have cnt: "length (filter ?P ((threads s)[t := p])) = dwCount s + 1" if "arrived p = k + 1" for p
    using length_filter_update [OF t(1), of ?P p] t(2) n inv that by (simp add: round_inv_def)
  show "n = k" "k < ROUNDS" using n by auto
  show "round_inv (if dwCount s + 1 < dwThreshold s then k else k + 1) (WaitThresholdBarrier atomic t n s)"
  proof (cases "dwCount s + 1 < dwThreshold s")
    case True
    let ?p = "if atomic then Waits n else Released n"
    have "in_rounds q \<and> (arrived q = k \<or> arrived q = k + 1) \<and> passed q \<le> k" if "q \<in> set ((threads s)[t := ?p])" for q
      using set_update_subset_insert [of "threads s" t ?p] that inv n by (auto simp: round_inv_def split: if_splits)
    then have "round_inv k (WaitThresholdBarrier atomic t n s)"
      using True inv cnt [of "Waits k"] cnt [of "Released k"] n
      by (cases atomic) (simp_all add: round_inv_def WaitThresholdBarrier_def)
    then show ?thesis using True by simp
  next
    case False
    let ?xs = "(threads s)[t := Waits k]"
    have "dwCount s < NO_THREADS" "dwThreshold s = NO_THREADS" "length ?xs = NO_THREADS"
      using inv unfolding round_inv_def length_list_update by blast+
    moreover have "length (filter ?P ?xs) = dwCount s + 1" by (rule cnt) simp
    ultimately have "length (filter ?P ?xs) = length ?xs" using False by linarith
    then have all: "arrived q = k + 1" if "q \<in> set ?xs" for q
      by (rule all_of_filter [where P = ?P, OF _ that])
    have old: "in_rounds q \<and> passed q \<le> k" if "q \<in> set ?xs" for q
      using set_update_subset_insert [of "threads s" t "Waits k"] that inv n by (auto simp: round_inv_def)
    have new: "in_rounds (pulse q) \<and> arrived (pulse q) = k + 1 \<and> passed (pulse q) \<le> k + 1" if "q \<in> set ?xs" for q
      using all [OF that] old [OF that] n onward_counts [of k] by (cases q) auto
    have ts: "(map pulse (threads s))[t := onward n] = map pulse ?xs"
      using n by (simp add: map_update)
    have "filter (\<lambda>p. arrived p = k + 1 + 1) (map pulse ?xs) = []"
      using new by (auto simp: filter_empty_conv)
    then have "round_inv (k + 1) (WaitThresholdBarrier atomic t n s)"
      using False inv new by (simp add: round_inv_def WaitThresholdBarrier_def ts NO_THREADS_def del: filter_empty_conv)
    then show ?thesis using False by simp
  qed
qed

lemma round_inv_step:
  assumes "barrier_step atomic t s = Some s'" "round_inv k s"
  shows "\<exists>k'\<ge>k. round_inv k' s'"
proof -
  have t: "t < length (threads s)" using assms(1) by (auto simp: barrier_step_def split: if_splits)
  have r: "in_rounds (threads s ! t)" using assms(2) t by (auto simp: round_inv_def)
  show ?thesis
  proof (cases "threads s ! t")
    case (Inside n)
    then have "s' = WaitThresholdBarrier atomic t n s" using assms(1) t by (simp add: barrier_step_def)
    then show ?thesis using round_inv_wait(1) [OF assms(2) t Inside] by (metis le_add1 order_refl)
  next
    case (Works n)
    then have "s' = s\<lparr>hGuard := Some t, threads := (threads s)[t := Inside n]\<rparr>"
      using assms(1) t by (auto simp: barrier_step_def split: if_splits)
    with Works r show ?thesis by (intro exI [of _ k] conjI round_inv_move [OF assms(2) t]) auto
  next
    case (Released n)
    then have "s' = s\<lparr>threads := (threads s)[t := Waits n]\<rparr>" using assms(1) t by (auto simp: barrier_step_def)
    with Released r show ?thesis by (intro exI [of _ k] conjI round_inv_move [OF assms(2) t]) auto
  qed (use assms(1) t in \<open>auto simp: barrier_step_def\<close>)
qed

section \<open>Safety\<close>

definition start :: threshold_barrier where
  "start = \<lparr>hGuard = None, dwCount = 0, dwThreshold = NO_THREADS, threads = replicate NO_THREADS (Works 0)\<rparr>"

lemma barrier_main_start: "barrier_main True True True = Inr s \<longleftrightarrow> s = start"
  by (auto simp: barrier_main_def CreateThresholdBarrier_def start_def)

lemma run_keeps:
  assumes "run atomic ts s = Some s'" "P s" "\<And>t s s'. barrier_step atomic t s = Some s' \<Longrightarrow> P s \<Longrightarrow> P s'"
  shows "P s'"
  using assms by (induction atomic ts s rule: run.induct) (auto split: option.splits)

lemma run_round: "run atomic ts start = Some s \<Longrightarrow> \<exists>k. round_inv k s"
proof (rule run_keeps [where P = "\<lambda>s. \<exists>k. round_inv k s"])
  show "\<exists>k. round_inv k start"
    by (intro exI [of _ 0]) (simp add: round_inv_def start_def NO_THREADS_def ROUNDS_def)
qed (auto dest: round_inv_step)

text \<open>C18: In every schedule no thread passes the barrier for the n-th time before all threads have arrived
there for the n-th time, in both rounds and whatever Windows does between the release and the wait.\<close>

theorem nobody_passes_early:
  assumes "barrier_main True True True = Inr s0" "run atomic ts s0 = Some s" "p \<in> set (threads s)" "q \<in> set (threads s)"
  shows "passed p \<le> arrived q \<and> dwCount s < NO_THREADS"
proof -
  obtain k where k: "round_inv k s" using run_round [of atomic ts s] assms(1,2) by (auto simp: barrier_main_start)
  then have "passed p \<le> k" "k \<le> arrived q" using assms(3,4) by (auto simp: round_inv_def)
  with k show ?thesis by (simp add: round_inv_def)
qed

text \<open>Four threads wait, the fifth has passed and is on its way to the second round.\<close>

definition all_meet :: "nat list" where
  "all_meet = [0, 0, 1, 1, 2, 2, 3, 3, 4, 4]"

theorem nobody_passes_early_witness:
  "passed (Works 1) \<le> arrived (Works 1) \<and> dwCount (start\<lparr>threads := replicate 5 (Works 1)\<rparr>) < NO_THREADS"
proof (rule nobody_passes_early)
  show "barrier_main True True True = Inr start" by (simp add: barrier_main_start)
  show "run True all_meet start = Some (start\<lparr>threads := replicate 5 (Works 1)\<rparr>)"
    by (simp add: all_meet_def start_def NO_THREADS_def barrier_step_def WaitThresholdBarrier_def onward_def ROUNDS_def numeral_eq_Suc)
qed simp_all

section \<open>Progress\<close>

text \<open>The steps a thread has left.\<close>

fun rank :: "place \<Rightarrow> nat" where
  "rank (Works n) = 4 * (ROUNDS - n)"
| "rank (Inside n) = 4 * (ROUNDS - n) - 1"
| "rank (Released n) = 4 * (ROUNDS - n) - 2"
| "rank (Waits n) = 4 * (ROUNDS - n) - 3"
| "rank Ended = 0"

definition steps_left :: "threshold_barrier \<Rightarrow> nat" where
  "steps_left s = sum_list (map rank (threads s))"

lemma sum_list_less:
  "i < length xs \<Longrightarrow> f y < f (xs ! i) \<Longrightarrow> (\<And>x. x \<in> set xs \<Longrightarrow> f (g x) \<le> f x)
   \<Longrightarrow> sum_list (map f ((map g xs)[i := y])) < sum_list (map f xs)" for f :: "'a \<Rightarrow> nat"
proof (induction xs arbitrary: i)
  case (Cons x xs)
  have le: "sum_list (map f (map g xs)) \<le> sum_list (map f xs)"
    unfolding map_map using Cons.prems(3) by (intro sum_list_mono) simp
  show ?case
  proof (cases i)
    case 0
    then show ?thesis using Cons.prems le by simp
  next
    case (Suc j)
    then show ?thesis using Cons.prems Cons.IH [of j] by (simp add: add_le_less_mono)
  qed
qed simp

lemma rank_onward: "n < ROUNDS \<Longrightarrow> rank (onward n) < rank (Waits n)"
  by (auto simp: onward_def)

lemma rank_pulse: "in_rounds p \<Longrightarrow> rank (pulse p) \<le> rank p"
  using rank_onward less_imp_le by (cases p) auto

lemma step_ranks:
  assumes "barrier_step atomic t s = Some s'" "round_inv k s"
  shows "steps_left s' < steps_left s"
proof -
  have t: "t < length (threads s)" using assms(1) by (auto simp: barrier_step_def split: if_splits)
  have r: "in_rounds q" if "q \<in> set (threads s)" for q using assms(2) that by (simp add: round_inv_def)
  have rt: "in_rounds (threads s ! t)" using r t by simp
  have move: "steps_left (s1\<lparr>threads := (threads s)[t := p]\<rparr>) < steps_left s" if "rank p < rank (threads s ! t)" for p and s1 :: threshold_barrier
    using sum_list_less [of t "threads s" rank p "\<lambda>x. x"] t that by (simp add: steps_left_def)
  have pulses: "steps_left (s1\<lparr>threads := (map pulse (threads s))[t := p]\<rparr>) < steps_left s" if "rank p < rank (threads s ! t)" for p and s1 :: threshold_barrier
    using sum_list_less [of t "threads s" rank p pulse] t that rank_pulse r by (simp add: steps_left_def)
  show ?thesis
  proof (cases "threads s ! t")
    case (Works n)
    then have "rank (Inside n) < rank (threads s ! t)" using rt by simp
    from move [OF this, of "s\<lparr>hGuard := Some t\<rparr>"] Works t assms(1) show ?thesis
      by (auto simp: barrier_step_def split: if_splits)
  next
    case (Inside n)
    then have le: "rank (if atomic then Waits n else Released n) < rank (threads s ! t)" "rank (onward n) < rank (threads s ! t)"
      using rt rank_onward [of n] by auto
    from move [OF le(1), of "s\<lparr>dwCount := dwCount s + 1, hGuard := None\<rparr>"]
      pulses [OF le(2), of "s\<lparr>dwCount := 0, hGuard := None\<rparr>"] Inside t assms(1) show ?thesis
      by (auto simp: barrier_step_def WaitThresholdBarrier_def split: if_splits)
  next
    case (Released n)
    then have "rank (Waits n) < rank (threads s ! t)" using rt by simp
    from move [OF this, of s] Released t assms(1) show ?thesis by (auto simp: barrier_step_def)
  qed (use assms(1) t in \<open>auto simp: barrier_step_def\<close>)
qed

lemma run_bounded:
  "run atomic ts s = Some s' \<Longrightarrow> round_inv k s \<Longrightarrow> length ts + steps_left s' \<le> steps_left s"
proof (induction atomic ts s arbitrary: k rule: run.induct)
  case (2 atomic t ts s)
  obtain s1 where s1: "barrier_step atomic t s = Some s1" "run atomic ts s1 = Some s'"
    using "2.prems"(1) by (auto split: option.splits)
  obtain k1 where "round_inv k1 s1" using round_inv_step [OF s1(1) "2.prems"(2)] by blast
  with "2.IH" [OF s1] step_ranks [OF s1(1) "2.prems"(2)] show ?case by fastforce
qed simp

text \<open>With an atomic \<^verbatim>\<open>SignalObjectAndWait\<close> everybody is in the same round, and the mutex is held by the
thread inside.\<close>

definition atomic_inv :: "threshold_barrier \<Rightarrow> bool" where
  "atomic_inv s \<longleftrightarrow> (\<exists>k. round_inv k s \<and> (\<forall>p\<in>set (threads s). passed p = k \<and> (\<forall>n. p \<noteq> Released n)))
     \<and> (\<forall>t<length (threads s). hGuard s = Some t \<longleftrightarrow> (\<exists>n. threads s ! t = Inside n))
     \<and> (\<forall>t. hGuard s = Some t \<longrightarrow> t < length (threads s))"

lemma atomic_inv_wait:
  assumes inv: "atomic_inv s" and t: "t < length (threads s)" "threads s ! t = Inside n"
  shows "atomic_inv (WaitThresholdBarrier True t n s)"
proof -
  let ?s = "WaitThresholdBarrier True t n s"
  obtain k where k: "round_inv k s" "\<forall>p\<in>set (threads s). passed p = k \<and> (\<forall>n. p \<noteq> Released n)"
    using inv by (auto simp: atomic_inv_def)
  note w = round_inv_wait(1) [OF k(1) t, of True] round_inv_wait(2,3) [OF k(1) t]
  have "hGuard s = Some t" using inv t by (auto simp: atomic_inv_def)
  then have alone: "threads s ! u \<noteq> Inside m" if "u < length (threads s)" "u \<noteq> t" for u m
    using inv that by (auto simp: atomic_inv_def)
  have guard: "hGuard ?s = None" "length (threads ?s) = length (threads s)" by (simp_all add: WaitThresholdBarrier_def)
  have outside: "threads ?s ! u \<noteq> Inside m" if "u < length (threads s)" for u m
  proof (cases "u = t")
    case False
    have "pulse p \<noteq> Inside m" if "p \<noteq> Inside m" for p using that by (cases p) (auto simp: onward_def)
    then show ?thesis using alone [OF that False] that False by (simp add: WaitThresholdBarrier_def)
  qed (use that in \<open>simp add: WaitThresholdBarrier_def onward_def\<close>)
  have "passed p = (if dwCount s + 1 < dwThreshold s then k else k + 1) \<and> (\<forall>n. p \<noteq> Released n)" if "p \<in> set (threads ?s)" for p
  proof (cases "dwCount s + 1 < dwThreshold s")
    case True
    then have "p = Waits n \<or> p \<in> set (threads s)"
      using that set_update_subset_insert [of "threads s" t "Waits n"] by (auto simp: WaitThresholdBarrier_def)
    then show ?thesis using True k(2) w(2) by auto
  next
    case False
    have arr: "arrived p \<ge> k + 1" using w(1) False that by (auto simp: round_inv_def)
    have "p = onward k \<or> p \<in> pulse ` set (threads s)"
      using that False w(2) set_update_subset_insert [of "map pulse (threads s)" t "onward k"] by (auto simp: WaitThresholdBarrier_def)
    then show ?thesis
    proof
      assume "p \<in> pulse ` set (threads s)"
      then obtain q where q: "p = pulse q" "passed q = k" "\<forall>n. q \<noteq> Released n" using k(2) by blast
      then show ?thesis using arr False w(3) onward_counts [of k]
        by (cases q) (auto simp: onward_def)
    qed (use False w(3) onward_counts [of k] in \<open>auto simp: onward_def\<close>)
  qed
  then show ?thesis using w(1) guard outside unfolding atomic_inv_def by auto
qed

lemma atomic_inv_step:
  assumes "barrier_step True t s = Some s'" "atomic_inv s"
  shows "atomic_inv s'"
proof -
  have t: "t < length (threads s)" using assms(1) by (auto simp: barrier_step_def split: if_splits)
  obtain k where k: "round_inv k s" "\<forall>p\<in>set (threads s). passed p = k \<and> (\<forall>n. p \<noteq> Released n)"
    using assms(2) by (auto simp: atomic_inv_def)
  show ?thesis
  proof (cases "threads s ! t")
    case (Inside n)
    then show ?thesis using atomic_inv_wait [OF assms(2) t] assms(1) t by (simp add: barrier_step_def)
  next
    case (Works n)
    then have s': "s' = s\<lparr>hGuard := Some t, threads := (threads s)[t := Inside n]\<rparr>" "hGuard s = None"
      using assms(1) t by (auto simp: barrier_step_def split: if_splits)
    have r: "in_rounds (Works n)" "passed (Works n) = k"
      using k t Works by (metis nth_mem round_inv_def)+
    have "round_inv k s'" using r s'(1) Works by (intro round_inv_move [OF k(1) t, where p = "Inside n"]) auto
    moreover have "passed p = k \<and> (\<forall>n. p \<noteq> Released n)" if "p \<in> set (threads s')" for p
      using that s'(1) k(2) r(2) set_update_subset_insert [of "threads s" t "Inside n"] by auto
    moreover have "threads s ! u \<noteq> Inside m" if "u < length (threads s)" for u m
      using assms(2) s'(2) that by (auto simp: atomic_inv_def)
    ultimately show ?thesis using s'(1) t by (auto simp: atomic_inv_def nth_list_update)
  next
    case (Released n)
    then show ?thesis using k(2) t by (metis nth_mem)
  qed (use assms(1) t in \<open>auto simp: barrier_step_def\<close>)
qed

lemma atomic_inv_start: "atomic_inv start"
proof -
  have "round_inv 0 start" by (simp add: round_inv_def start_def NO_THREADS_def ROUNDS_def)
  moreover have "\<forall>p\<in>set (threads start). passed p = 0 \<and> (\<forall>n. p \<noteq> Released n)"
    by (simp add: start_def)
  ultimately show ?thesis by (auto simp: atomic_inv_def start_def)
qed

lemma atomic_stuck:
  assumes "atomic_inv s" "stuck True s" "p \<in> set (threads s)"
  shows "p = Ended"
proof (rule ccontr)
  assume ne: "p \<noteq> Ended"
  obtain k where k: "round_inv k s" "\<forall>p\<in>set (threads s). passed p = k \<and> (\<forall>n. p \<noteq> Released n)"
    using assms(1) by (auto simp: atomic_inv_def)
  have idle: "barrier_step True t s = None" if "t < length (threads s)" for t
    using assms(2) that by (simp add: stuck_def)
  have noin: "threads s ! t \<noteq> Inside n" if "t < length (threads s)" for t n
    using idle [OF that] that by (auto simp: barrier_step_def)
  then have "hGuard s = None" using assms(1) by (cases "hGuard s") (auto simp: atomic_inv_def)
  then have nowork: "threads s ! t \<noteq> Works n" if "t < length (threads s)" for t n
    using idle [OF that] that by (auto simp: barrier_step_def)
  have waits: "q = Waits k \<or> q = Ended" if q: "q \<in> set (threads s)" for q
  proof -
    obtain t where "t < length (threads s)" "threads s ! t = q" using q by (auto simp: in_set_conv_nth)
    then show ?thesis using noin nowork k(2) q by (cases q) auto
  qed
  have "k < ROUNDS" using waits [OF assms(3)] ne k(1) assms(3) by (auto simp: round_inv_def)
  then have "arrived q = k + 1" if "q \<in> set (threads s)" for q
    using waits [OF that] k(2) that by auto
  then have "filter (\<lambda>p. arrived p = k + 1) (threads s) = threads s" by simp
  then show False using k(1) by (auto simp: round_inv_def)
qed

text \<open>Every schedule of the five threads ends after at most forty steps, and when the release and the
wait are atomic it can only end with all threads through both rounds.\<close>

theorem atomic_barrier_lets_all_through:
  assumes "barrier_main True True True = Inr s0" "run atomic ts s0 = Some s"
  shows "length ts \<le> 40 \<and> (atomic \<and> stuck atomic s \<longrightarrow> set (threads s) = {Ended})"
proof -
  have s0: "s0 = start" using assms(1) by (simp add: barrier_main_start)
  have "round_inv 0 start" by (simp add: round_inv_def start_def NO_THREADS_def ROUNDS_def)
  moreover have "steps_left start = 40" by (simp add: steps_left_def start_def NO_THREADS_def ROUNDS_def sum_list_replicate)
  ultimately have "length ts \<le> 40" using run_bounded assms(2) s0 by fastforce
  moreover have "set (threads s) = {Ended}" if "atomic" "stuck atomic s"
  proof -
    have "atomic_inv s"
      using run_keeps [of atomic ts start s atomic_inv] assms(2) that(1) s0 atomic_inv_start atomic_inv_step by simp
    then have "threads s \<noteq> []" "\<forall>p\<in>set (threads s). p = Ended"
      using atomic_stuck that by (auto simp: atomic_inv_def round_inv_def NO_THREADS_def)
    then show ?thesis by (cases "threads s") auto
  qed
  ultimately show ?thesis by blast
qed

theorem atomic_barrier_lets_all_through_witness:
  "length (all_meet @ all_meet) \<le> 40 \<and> set (threads (start\<lparr>threads := replicate 5 Ended\<rparr>)) = {Ended}"
proof -
  have "barrier_main True True True = Inr start" by (simp add: barrier_main_start)
  moreover have "run True (all_meet @ all_meet) start = Some (start\<lparr>threads := replicate 5 Ended\<rparr>)"
    by (simp add: all_meet_def start_def NO_THREADS_def barrier_step_def WaitThresholdBarrier_def onward_def ROUNDS_def numeral_eq_Suc)
  moreover have "stuck True (start\<lparr>threads := replicate 5 Ended\<rparr>)" by (simp add: stuck_def barrier_step_def)
  ultimately show ?thesis using atomic_barrier_lets_all_through by blast
qed

text \<open>When they are not atomic, a thread can miss the pulse: there is a schedule after which nobody can
go on and nobody has ended.\<close>

theorem lost_wakeup:
  "barrier_main True True True = Inr start
    \<and> (\<exists>ts s. run False ts start = Some s \<and> stuck False s \<and> Ended \<notin> set (threads s))"
proof (intro exI conjI)
  show "barrier_main True True True = Inr start" by (simp add: barrier_main_start)
  show "run False [0, 0, 1, 1, 1, 2, 2, 2, 3, 3, 3, 4, 4, 0, 1, 1, 1, 2, 2, 2, 3, 3, 3, 4, 4, 4] start
    = Some (start\<lparr>dwCount := 4, threads := [Waits 0, Waits 1, Waits 1, Waits 1, Waits 1]\<rparr>)"
    by (simp add: start_def NO_THREADS_def barrier_step_def WaitThresholdBarrier_def onward_def ROUNDS_def numeral_eq_Suc)
qed (auto simp: stuck_def barrier_step_def start_def less_Suc_eq)

end
