(* ===== verification/Mcat.thy ===== *)
theory Mcat
  imports OsFile
begin

text \<open>
  The cat and cp program of the second laboratory, \<^verbatim>\<open>labs/lab02/sol/lin/3-mcat/\<close> with
  \<^verbatim>\<open>xfile.c\<close> and \<^verbatim>\<open>mcat.c\<close>: a file is copied to the standard output, or to a second file, in
  pieces of \<^verbatim>\<open>BUFSIZE\<close> bytes, by loops that repeat short reads and writes.
\<close>

definition BUFSIZE :: nat where "BUFSIZE = 32"

section \<open>Full reads and writes\<close>

text \<open>\<^verbatim>\<open>xread\<close>: the bytes read, or \<^const>\<open>None\<close> for \<^verbatim>\<open>-1\<close>.\<close>

definition xread :: "kfile \<Rightarrow> nat \<Rightarrow> byte list option \<times> kfile" where
  "xread fd n = get_all sys_read fd n []"

text \<open>\<^verbatim>\<open>xwrite\<close>: unlike the loops of the other programs it takes a write of nothing for an error.\<close>

function xwrite :: "kfile \<Rightarrow> byte list \<Rightarrow> bool \<times> kfile" where
  "xwrite fd bs =
     (if bs = [] then (True, fd)
      else case sys_write fd bs of
             (n, fd') \<Rightarrow> if n \<le> 0 then (False, fd') else xwrite fd' (drop (nat n) bs))"
  by pat_completeness auto
termination
  by (relation "measure (\<lambda>(fd, bs). length bs)") auto

declare xwrite.simps [simp del]

section \<open>The program\<close>

text \<open>
  The loop of \<^verbatim>\<open>main\<close> from the source to the standard output.  The zero after the bytes read is
  written into \<^verbatim>\<open>buffer\<close>, which has room for \<^const>\<open>BUFSIZE\<close> bytes.
\<close>

partial_function (option) mcat_loop :: "kfile \<Rightarrow> kfile \<Rightarrow> (kfile \<times> kfile) outcome option" where
  "mcat_loop fd std =
     (case xread fd BUFSIZE of
        (None, fd') \<Rightarrow> Some (Inl (ExitWith 1))
      | (Some bs, fd') \<Rightarrow>
          if bs = [] then Some (Inr (fd', std))
          else if length bs < BUFSIZE then
            (case xwrite std bs of
               (ok, std') \<Rightarrow> if ok then mcat_loop fd' std' else Some (Inl (ExitWith 1)))
          else Some (Inl Undefined))"

text \<open>
  \<^verbatim>\<open>main\<close>: \<open>src\<close> and \<open>dst\<close> are what \<^verbatim>\<open>open\<close> gives for a name to be read and for one to be written
  (and emptied).  The result is the standard output and the exit code; the usage message also ends with 0.
  With no argument \<^verbatim>\<open>argv[1]\<close> is a null pointer, which \<^verbatim>\<open>open\<close> refuses.
\<close>

definition mcat_main :: "(string \<Rightarrow> kfile option) \<Rightarrow> (string \<Rightarrow> kfile option) \<Rightarrow> kfile \<Rightarrow> string list \<Rightarrow> (int \<times> kfile) outcome option" where
  "mcat_main src dst std argv =
     (if length argv < 1 \<or> length argv > 3 then Some (Inr (0, std))
      else if length argv = 1 then Some (Inl (ExitWith 1))
      else case src (argv ! 1) of
             None \<Rightarrow> Some (Inl (ExitWith 1))
           | Some fd \<Rightarrow>
               (case (if length argv = 3 then dst (argv ! 2) else Some std) of
                  None \<Rightarrow> Some (Inl (ExitWith 1))
                | Some to \<Rightarrow>
                    (case mcat_loop fd to of
                       None \<Rightarrow> None
                     | Some (Inl e) \<Rightarrow> Some (Inl e)
                     | Some (Inr (fd', to')) \<Rightarrow> Some (Inr (0, to')))))"

section \<open>Copying\<close>

text \<open>A file to write to that never refuses and never takes nothing.\<close>

definition willing :: "kfile \<Rightarrow> bool" where
  "willing k \<longleftrightarrow> sound_plan k \<and> AtMost 0 \<notin> set (plan k)"

lemma sys_write_willing:
  assumes "willing k" "bs \<noteq> []"
  shows "\<exists>n k'. sys_write k bs = (n, k') \<and> 0 < n \<and> willing k' \<and> nat n \<le> length bs \<and> view k' = advance (view k) (take (nat n) bs)"
proof -
  obtain n k' where w: "sys_write k bs = (n, k')" by (cases "sys_write k bs")
  note p = sys_write_props [OF w]
  obtain l k1 where l: "next_limit k = (l, k1)" by (cases "next_limit k")
  have "l \<noteq> Some Fails" "l \<noteq> Some (AtMost 0)" "writable k"
    using next_limit_props [OF l] assms(1) by (auto simp: willing_def sound_plan_def)
  then have "0 < n" using w l assms(2)
    by (auto simp: sys_write_def Let_def split: option.splits limit.splits)
  moreover have "willing k'" using p assms(1) by (auto simp: willing_def sound_plan_def)
  ultimately show ?thesis using p w by auto
qed

lemma xwrite_all:
  "willing k \<Longrightarrow> \<exists>k'. xwrite k bs = (True, k') \<and> willing k' \<and> view k' = advance (view k) bs"
proof (induction bs arbitrary: k rule: length_induct)
  case (1 bs)
  show ?case
  proof (cases "bs = []")
    case True
    then show ?thesis using "1.prems" wr.app_nil by (simp add: xwrite.simps)
  next
    case False
    obtain n k1 where w: "sys_write k bs = (n, k1)" "0 < n" "willing k1" "nat n \<le> length bs"
      "view k1 = advance (view k) (take (nat n) bs)"
      using sys_write_willing [OF "1.prems" False] by blast
    have "length (drop (nat n) bs) < length bs" using w(2) False by simp
    with "1.IH" w(3) obtain k' where r: "xwrite k1 (drop (nat n) bs) = (True, k')" "willing k'"
      "view k' = advance (view k1) (drop (nat n) bs)" by blast
    have "view k' = advance (view k) bs" using r(3) w(5) wr.app_app by simp
    then show ?thesis using r w False by (simp add: xwrite.simps [of k bs])
  qed
qed

text \<open>However reads and writes are split, a file of fewer than 32 bytes is copied whole; from 32 bytes on
the program writes the terminating zero past the end of its buffer.\<close>

theorem mcat_copies_short_files:
  assumes "src f = Some k" "prompt c k" "koff k = 0" "dst g = Some out" "willing out"
  shows "if length c < 32
     then \<exists>out'. mcat_main src dst std [prog, f, g] = Some (Inr (0, out')) \<and> view out' = advance (view out) c
     else mcat_main src dst std [prog, f, g] = Some (Inl Undefined)"
proof -
  have u: "unread k = c" using assms(2,3) by (simp add: unread_def prompt_def steady_read_def)
  obtain k1 where k1: "get_all sys_read k BUFSIZE [] = (Some (take BUFSIZE c), k1)" "prompt c k1" "unread k1 = drop BUFSIZE c"
    using rd.get_all_exact [OF assms(2), of BUFSIZE "[]"] u by auto
  show ?thesis
  proof (cases "length c < 32")
    case True
    obtain k2 where k2: "get_all sys_read k1 BUFSIZE [] = (Some [], k2)"
      using rd.get_all_exact [OF k1(2), of BUFSIZE "[]"] k1(3) True by (auto simp: BUFSIZE_def)
    obtain out1 where o: "xwrite out c = (True, out1)" "view out1 = advance (view out) c"
      using xwrite_all [OF assms(5)] by blast
    have "mcat_loop k out = Some (Inr (if c = [] then (k1, out) else (k2, out1)))"
      using k1(1) k2 o(1) True by (simp add: mcat_loop.simps [of k] mcat_loop.simps [of k1] xread_def BUFSIZE_def)
    then show ?thesis using assms(1,4) o(2) True wr.app_nil by (auto simp: mcat_main_def)
  next
    case False
    then show ?thesis using k1 assms(1,4)
      by (auto simp: mcat_main_def mcat_loop.simps [of k] xread_def BUFSIZE_def)
  qed
qed

definition note_file :: "byte list \<Rightarrow> limit list \<Rightarrow> kfile" where
  "note_file c ls = \<lparr>content = c, koff = 0, kappend = False, readable = True, writable = True, seekable = True, plan = ls\<rparr>"

theorem mcat_copies_short_files_witness:
  "if length [1 :: byte, 2, 3] < 32
   then \<exists>out'. mcat_main (\<lambda>f. Some (note_file [1, 2, 3] [AtMost 2])) (\<lambda>g. Some (note_file [] [AtMost 1])) (note_file [] []) [''mcat'', ''a'', ''b'']
       = Some (Inr (0, out')) \<and> view out' = advance (view (note_file [] [AtMost 1])) [1, 2, 3]
   else mcat_main (\<lambda>f. Some (note_file [1, 2, 3] [AtMost 2])) (\<lambda>g. Some (note_file [] [AtMost 1])) (note_file [] []) [''mcat'', ''a'', ''b'']
       = Some (Inl Undefined)"
  by (rule mcat_copies_short_files [where k = "note_file [1, 2, 3] [AtMost 2]" and out = "note_file [] [AtMost 1]"])
    (simp_all add: note_file_def prompt_def steady_read_def willing_def sound_plan_def)

end
