(* ===== verification/Tiny.thy ===== *)
theory Tiny
  imports PpText
begin

text \<open>
  The minimal shell of the third laboratory, \<^verbatim>\<open>labs/lab03/sol/lin/3-tiny/tiny.c\<close>.  The environment
  is a map; running a command is an event, with what the new process is given.
\<close>

definition MAX_LINE_SIZE :: nat where "MAX_LINE_SIZE = 256"
definition MAX_ARGS :: nat where "MAX_ARGS = 8"

definition ERROR_LINE :: int where "ERROR_LINE = 0"
definition SIMPLE :: int where "SIMPLE = 1"
definition SET_VAR :: int where "SET_VAR = 4"
definition EXIT_CMD :: int where "EXIT_CMD = 5"

section \<open>State\<close>

text \<open>The globals; \<^verbatim>\<open>args\<close> is an array of \<^const>\<open>MAX_ARGS\<close> pointers.\<close>

record shell =
  verb :: "string option"
  args :: "string option list"
  stdout_file :: "string option"
  var :: "string option"
  val :: "string option"
  env :: "string \<Rightarrow> string option"

definition alloc_mem :: "(string \<Rightarrow> string option) \<Rightarrow> shell" where
  "alloc_mem e = \<lparr>verb = None, args = replicate MAX_ARGS None, stdout_file = None, var = None, val = None, env = e\<rparr>"

definition set_var :: "string \<Rightarrow> string \<Rightarrow> shell \<Rightarrow> shell" where
  "set_var x v sh = sh\<lparr>env := (env sh)(x := Some v)\<rparr>"

definition expand :: "shell \<Rightarrow> string \<Rightarrow> string option" where
  "expand sh key = env sh key"

section \<open>Parsing\<close>

definition blanks :: string where "blanks = [CHR '' '', CHR 0x09, NL]"

definition set_arg :: "nat \<Rightarrow> string option \<Rightarrow> shell \<Rightarrow> shell outcome" where
  "set_arg i a sh = (if i < MAX_ARGS then Inr (sh\<lparr>args := (args sh)[i := a]\<rparr>) else Inl Undefined)"

lemma strtok_left:
  assumes "strtok s d = (tok, r)"
  shows "length r + (if tok = None then 0 else 1) < length s + 1"
proof (cases tok)
  case None
  then show ?thesis using assms strtok_rest_le [of s d] by simp
next
  case (Some t)
  then show ?thesis using assms strtok_Some(4) [of s d t r] by simp
qed

text \<open>
  The loop over the tokens, from the token \<open>token\<close> on: \<open>rem\<close> is what \<^verbatim>\<open>strtok\<close> still has.  The
  name of a file may be missing, and \<^verbatim>\<open>strdup\<close> of a null pointer has no meaning.  The result
  also says what is printed.
\<close>

function copy_args :: "nat \<Rightarrow> string option \<Rightarrow> string \<Rightarrow> shell \<Rightarrow> (int \<times> string \<times> shell) outcome" where
  "copy_args idx None rem sh = obind (set_arg idx None sh) (\<lambda>sh'. Inr (SIMPLE, [], sh'))"
| "copy_args idx (Some tok) rem sh =
     (case (if take 1 tok = ''$'' then expand sh (drop 1 tok) else Some tok) of
        None \<Rightarrow> Inr (ERROR_LINE, '' Expansion failed\<newline>'', sh)
      | Some t \<Rightarrow>
          if starts_with ''>'' t then
            if length t > 1 then
              (case strtok rem blanks of (nxt, rem') \<Rightarrow> copy_args idx nxt rem' (sh\<lparr>stdout_file := Some (drop 1 t)\<rparr>))
            else
              (case strtok rem blanks of
                 (None, _) \<Rightarrow> Inl Undefined
               | (Some f, rem') \<Rightarrow>
                   (case strtok rem' blanks of (nxt, rem'') \<Rightarrow> copy_args idx nxt rem'' (sh\<lparr>stdout_file := Some f\<rparr>)))
          else
            obind (set_arg idx (Some t) sh) (\<lambda>sh'.
              case strtok rem blanks of (nxt, rem') \<Rightarrow> copy_args (idx + 1) nxt rem' sh'))"
  by pat_completeness auto
termination
proof (relation "measure (\<lambda>(idx, tok, rem, sh). length rem + (if tok = None then 0 else 1))", goal_cases)
  case (2 idx tok rem sh t nxt rem')
  then show ?case using strtok_left [of rem blanks nxt rem'] by simp
next
  case (3 idx tok rem sh t a rem' f nxt rem'')
  then show ?case using strtok_left [of rem blanks a rem'] strtok_left [of rem' blanks nxt rem''] by simp
next
  case (4 idx tok rem sh t sh' nxt rem')
  then show ?case using strtok_left [of rem blanks nxt rem'] by simp
qed simp

text \<open>\<^verbatim>\<open>parse_line\<close>: the kind of the line, what is printed, and the state.\<close>

definition parse_line :: "string \<Rightarrow> shell \<Rightarrow> (int \<times> string \<times> shell) outcome" where
  "parse_line line sh =
     (let sh1 = sh\<lparr>stdout_file := None\<rparr> in
      if starts_with ''exit'' line then Inr (EXIT_CMD, [], sh1)
      else if CHR ''='' \<in> set line then
        (case strtok line [CHR ''='', NL] of
           (None, _) \<Rightarrow> Inr (ERROR_LINE, [], sh1)
         | (Some x, rem) \<Rightarrow>
             (case strtok rem [CHR ''='', NL] of
                (None, _) \<Rightarrow> Inr (ERROR_LINE, [], sh1\<lparr>var := Some x\<rparr>)
              | (Some v, _) \<Rightarrow> Inr (SET_VAR, [], sh1\<lparr>var := Some x, val := Some v\<rparr>)))
      else
        (case strtok line blanks of
           (None, _) \<Rightarrow> Inr (ERROR_LINE, [], sh1)
         | (Some tok, rem) \<Rightarrow> copy_args 0 (Some tok) rem (sh1\<lparr>verb := Some tok\<rparr>)))"

section \<open>The shell\<close>

text \<open>
  What the operating system decides: whether a file can be opened for writing, and how a program
  ends that is run with its arguments, its output file and the environment.  Starting a process
  and waiting for it are taken to succeed.
\<close>

datatype ending = NotFound | Exits int | Killed

record os =
  opens :: "string \<Rightarrow> bool"
  runs :: "string list \<Rightarrow> string option \<Rightarrow> (string \<Rightarrow> string option) \<Rightarrow> ending"

text \<open>What the user sees, and the programs that are run.\<close>

datatype event = Prompt | Print string | Exec "string list" "string option" | Failed string | Ended int

definition argv_of :: "shell \<Rightarrow> string list" where
  "argv_of sh = map the (takeWhile (\<lambda>a. a \<noteq> None) (args sh))"

text \<open>\<^verbatim>\<open>simple_cmd\<close>, and \<^verbatim>\<open>do_redirect\<close> in the new process; a command without a name passes a null
pointer on.\<close>

definition do_redirect :: "os \<Rightarrow> string option \<Rightarrow> bool" where
  "do_redirect w f = (case f of None \<Rightarrow> True | Some n \<Rightarrow> opens w n)"

definition simple_cmd :: "os \<Rightarrow> shell \<Rightarrow> event list outcome" where
  "simple_cmd w sh =
     (if \<not> do_redirect w (stdout_file sh) then Inr [Ended 1]
      else case argv_of sh of
          [] \<Rightarrow> Inl Undefined
        | name # _ \<Rightarrow>
            (case runs w (argv_of sh) (stdout_file sh) (env sh) of
               NotFound \<Rightarrow> Inr [Failed name, Ended 1]
             | Exits code \<Rightarrow> Inr [Exec (argv_of sh) (stdout_file sh), Ended code]
             | Killed \<Rightarrow> Inr [Exec (argv_of sh) (stdout_file sh)]))"

function tiny_loop :: "os \<Rightarrow> shell \<Rightarrow> string \<Rightarrow> event list outcome" where
  "tiny_loop w sh inp =
     (case fgets (MAX_LINE_SIZE - 1) inp of (l, rem) \<Rightarrow>
        if l = [] then Inr [Prompt]
        else
          obind (parse_line (takeWhile (\<lambda>c. c \<noteq> NUL) l) sh) (\<lambda>(ty, out, sh1).
            let shown = Prompt # (if out = [] then [] else [Print out]) in
            if ty = EXIT_CMD then Inr shown
            else
              let sh2 = (if ty = SET_VAR then set_var (the (var sh1)) (the (val sh1)) sh1 else sh1) in
              obind (if ty = SIMPLE then simple_cmd w sh1 else Inr []) (\<lambda>ran.
              obind (tiny_loop w sh2 rem) (\<lambda>es. Inr (shown @ ran @ es)))))"
  by pat_completeness auto
termination
proof (relation "measure (\<lambda>(w, sh, inp). length inp)", goal_cases)
  case (2 w sh inp l rem p ty p' out sh1 sh2 es)
  then have "inp = l @ rem" by (metis fgets_append)
  with 2 show ?case by simp
qed simp

declare tiny_loop.simps [simp del]

definition tiny_main :: "os \<Rightarrow> (string \<Rightarrow> string option) \<Rightarrow> string \<Rightarrow> event list outcome" where
  "tiny_main w e inp = tiny_loop w (alloc_mem e) inp"

section \<open>Command lines\<close>

text \<open>The parts of a command as a user means them, and how they are written.\<close>

datatype item = Word string | Use string | To string | Into string

primrec tokens_of :: "item \<Rightarrow> string list" where
  "tokens_of (Word w) = [w]"
| "tokens_of (Use x) = [CHR ''$'' # x]"
| "tokens_of (To f) = [CHR ''>'' # f]"
| "tokens_of (Into f) = [''>'', f]"

fun line_of :: "string list \<Rightarrow> string" where
  "line_of [] = []"
| "line_of (t # ts) = t @ (if ts = [] then [NL] else CHR '' '' # line_of ts)"

definition plain :: "string \<Rightarrow> bool" where
  "plain w \<longleftrightarrow> set w \<inter> set (CHR ''='' # NUL # blanks) = {}"

fun good_item :: "(string \<Rightarrow> string option) \<Rightarrow> item \<Rightarrow> bool" where
  "good_item e (Word w) \<longleftrightarrow> w \<noteq> [] \<and> plain w \<and> hd w \<noteq> CHR ''$'' \<and> hd w \<noteq> CHR ''>''"
| "good_item e (Use x) \<longleftrightarrow> plain x \<and> (\<exists>v. e x = Some v \<and> \<not> starts_with ''>'' v)"
| "good_item e (To f) \<longleftrightarrow> f \<noteq> [] \<and> plain f"
| "good_item e (Into f) \<longleftrightarrow> f \<noteq> [] \<and> plain f"

fun arguments :: "(string \<Rightarrow> string option) \<Rightarrow> item list \<Rightarrow> string list" where
  "arguments e [] = []"
| "arguments e (Word w # is) = w # arguments e is"
| "arguments e (Use x # is) = the (e x) # arguments e is"
| "arguments e (_ # is) = arguments e is"

fun target :: "string option \<Rightarrow> item list \<Rightarrow> string option" where
  "target f [] = f"
| "target f (To g # is) = target (Some g) is"
| "target f (Into g # is) = target (Some g) is"
| "target f (_ # is) = target f is"

definition all_tokens :: "item list \<Rightarrow> string list" where
  "all_tokens is = concat (map tokens_of is)"

lemma strtok_line:
  assumes "t \<noteq> []" "set t \<inter> set blanks = {}"
  shows "strtok (line_of (t # ts)) blanks = (Some t, line_of ts)"
  using strtok_word(1) [OF assms, of "CHR '' ''" "line_of ts"] strtok_word(1) [OF assms, of NL "[]"]
  by (auto simp: blanks_def)

lemma plain_blanks: "plain w \<Longrightarrow> set w \<inter> set blanks = {}"
  by (auto simp: plain_def)

text \<open>The token at the front of a line and what is left of it.\<close>

abbreviation first_tok :: "string list \<Rightarrow> string option" where
  "first_tok ts \<equiv> fst (strtok (line_of ts) blanks)"

abbreviation rest_of :: "string list \<Rightarrow> string" where
  "rest_of ts \<equiv> snd (strtok (line_of ts) blanks)"

lemma blank_chars: "CHR ''$'' \<notin> set blanks" "CHR ''>'' \<notin> set blanks"
  by (simp_all add: blanks_def)

lemma set_arg_ok: "i < 8 \<Longrightarrow> set_arg i a sh = Inr (sh\<lparr>args := (args sh)[i := a]\<rparr>)"
  by (simp add: set_arg_def MAX_ARGS_def)

lemma argv_of_end:
  assumes "take i (args sh) = map Some acc" "i < length (args sh)"
  shows "argv_of (sh\<lparr>args := (args sh)[i := None]\<rparr>) = acc"
proof -
  have "(args sh)[i := None] = map Some acc @ None # drop (Suc i) (args sh)"
    using assms by (simp add: upd_conv_take_nth_drop)
  moreover have "takeWhile (\<lambda>a. a \<noteq> None) (map Some acc @ None # r) = map Some acc" for r
    by (subst takeWhile_append2) auto
  ultimately show ?thesis by (simp add: argv_of_def comp_def)
qed

lemma copy_items:
  assumes "\<forall>i \<in> set is. good_item e i" "env sh = e" "length (args sh) = 8"
    and "take idx (args sh) = map Some acc" "idx + length (arguments e is) < 8"
  shows "\<exists>sh'. copy_args idx (first_tok (all_tokens is)) (rest_of (all_tokens is)) sh = Inr (SIMPLE, [], sh')
    \<and> argv_of sh' = acc @ arguments e is \<and> stdout_file sh' = target (stdout_file sh) is \<and> env sh' = e"
  using assms
proof (induction "is" arbitrary: idx sh acc)
  case Nil
  then show ?case using argv_of_end [of idx sh acc] by (simp add: all_tokens_def set_arg_ok)
next
  case (Cons i "is")
  let ?ts = "all_tokens is"
  have step: "copy_args idx (first_tok (all_tokens (i # is))) (rest_of (all_tokens (i # is))) sh
      = (case i of
           Word w \<Rightarrow> copy_args (idx + 1) (first_tok ?ts) (rest_of ?ts) (sh\<lparr>args := (args sh)[idx := Some w]\<rparr>)
         | Use x \<Rightarrow> copy_args (idx + 1) (first_tok ?ts) (rest_of ?ts) (sh\<lparr>args := (args sh)[idx := Some (the (e x))]\<rparr>)
         | To f \<Rightarrow> copy_args idx (first_tok ?ts) (rest_of ?ts) (sh\<lparr>stdout_file := Some f\<rparr>)
         | Into f \<Rightarrow> copy_args idx (first_tok ?ts) (rest_of ?ts) (sh\<lparr>stdout_file := Some f\<rparr>))"
  proof (cases i)
    case (Word w)
    with Cons.prems(1) have w: "w \<noteq> []" "plain w" "hd w \<noteq> CHR ''$''" "hd w \<noteq> CHR ''>''" by auto
    then have "strtok (line_of (w # ?ts)) blanks = (Some w, line_of ?ts)" by (intro strtok_line plain_blanks)
    moreover have "take 1 w \<noteq> ''$''" "\<not> starts_with ''>'' w" using w by (cases w; simp add: starts_with_def)+
    moreover have "idx < 8" using Cons.prems(5) Word by simp
    ultimately show ?thesis using Word by (simp add: all_tokens_def set_arg_ok case_prod_unfold)
  next
    case (Use x)
    with Cons.prems(1) obtain v where v: "plain x" "e x = Some v" "\<not> starts_with ''>'' v" by auto
    then have "strtok (line_of ((CHR ''$'' # x) # ?ts)) blanks = (Some (CHR ''$'' # x), line_of ?ts)"
      using plain_blanks [OF v(1)] blank_chars by (intro strtok_line) auto
    moreover have "idx < 8" using Cons.prems(5) Use by simp
    ultimately show ?thesis using Use v Cons.prems(2) by (simp add: all_tokens_def set_arg_ok expand_def case_prod_unfold)
  next
    case (To f)
    with Cons.prems(1) have f: "f \<noteq> []" "plain f" by auto
    then have "strtok (line_of ((CHR ''>'' # f) # ?ts)) blanks = (Some (CHR ''>'' # f), line_of ?ts)"
      using plain_blanks [OF f(2)] blank_chars by (intro strtok_line) auto
    then show ?thesis using To f by (simp add: all_tokens_def starts_with_def case_prod_unfold)
  next
    case (Into f)
    with Cons.prems(1) have f: "f \<noteq> []" "plain f" by auto
    then have "strtok (line_of (f # ?ts)) blanks = (Some f, line_of ?ts)" by (intro strtok_line plain_blanks)
    moreover have "strtok (line_of (''>'' # f # ?ts)) blanks = (Some ''>'', line_of (f # ?ts))"
      using blank_chars by (intro strtok_line) auto
    ultimately show ?thesis using Into by (simp add: all_tokens_def starts_with_def case_prod_unfold)
  qed
  have good: "\<forall>i \<in> set is. good_item e i" using Cons.prems(1) by simp
  have next_arg: ?case if "arguments e (i # is) = w # arguments e is" "target (stdout_file sh) (i # is) = target (stdout_file sh) is"
    "copy_args idx (first_tok (all_tokens (i # is))) (rest_of (all_tokens (i # is))) sh
      = copy_args (idx + 1) (first_tok ?ts) (rest_of ?ts) (sh\<lparr>args := (args sh)[idx := Some w]\<rparr>)" for w
    using Cons.IH [of "sh\<lparr>args := (args sh)[idx := Some w]\<rparr>" "idx + 1" "acc @ [w]", OF good] Cons.prems(2-5) that
    by (auto simp: take_update_last)
  have next_file: ?case if "arguments e (i # is) = arguments e is" "target (stdout_file sh) (i # is) = target (Some f) is"
    "copy_args idx (first_tok (all_tokens (i # is))) (rest_of (all_tokens (i # is))) sh
      = copy_args idx (first_tok ?ts) (rest_of ?ts) (sh\<lparr>stdout_file := Some f\<rparr>)" for f
    using Cons.IH [of "sh\<lparr>stdout_file := Some f\<rparr>" idx acc, OF good] Cons.prems(2-5) that by simp
  show ?case
  proof (cases i)
    case (Word w)
    with step show ?thesis by - (rule next_arg [of w], simp_all)
  next
    case (Use x)
    with step show ?thesis by - (rule next_arg [of "the (e x)"], simp_all)
  next
    case (To f)
    with step show ?thesis by - (rule next_file [of f], simp_all)
  next
    case (Into f)
    with step show ?thesis by - (rule next_file [of f], simp_all)
  qed
qed

lemma tokens_head:
  "good_item e i \<Longrightarrow> \<exists>t ts. tokens_of i = t # ts \<and> t \<noteq> [] \<and> set t \<inter> set blanks = {}"
  using blank_chars plain_blanks by (cases i) fastforce+

lemma line_of_body:
  assumes "ts \<noteq> []" "\<forall>t \<in> set ts. NL \<notin> set t \<and> NUL \<notin> set t"
  shows "\<exists>b. line_of ts = b @ [NL] \<and> NL \<notin> set b \<and> NUL \<notin> set b"
  using assms
proof (induction ts)
  case (Cons t ts)
  show ?case
  proof (cases "ts = []")
    case True
    with Cons.prems show ?thesis by auto
  next
    case False
    with Cons obtain b where "line_of ts = b @ [NL]" "NL \<notin> set b" "NUL \<notin> set b" by auto
    with Cons.prems False show ?thesis by (intro exI [of _ "t @ CHR '' '' # b"]) auto
  qed
qed simp

text \<open>The characters of a line that is written from items.\<close>

lemma line_chars:
  assumes "\<forall>i \<in> set is. good_item e i" "is \<noteq> []"
  shows "CHR ''='' \<notin> set (line_of (all_tokens is))"
    and "\<exists>b. line_of (all_tokens is) = b @ [NL] \<and> NL \<notin> set b \<and> NUL \<notin> set b"
proof -
  have toks: "CHR ''='' \<notin> set t \<and> NL \<notin> set t \<and> NUL \<notin> set t" if "t \<in> set (all_tokens is)" for t
  proof -
    obtain i where i: "i \<in> set is" "t \<in> set (tokens_of i)" using \<open>t \<in> set (all_tokens is)\<close> by (auto simp: all_tokens_def)
    have "good_item e i" using assms(1) i(1) by blast
    then show ?thesis using i(2) by (cases i) (auto simp: plain_def blanks_def)
  qed
  have "CHR ''='' \<notin> set (line_of ts)" if "\<forall>t \<in> set ts. CHR ''='' \<notin> set t" for ts
    using that by (induction ts) auto
  then show "CHR ''='' \<notin> set (line_of (all_tokens is))" using toks by blast
  obtain i js where "is = i # js" using assms(2) by (cases "is") auto
  then have "all_tokens is \<noteq> []" by (cases i) (simp_all add: all_tokens_def)
  then show "\<exists>b. line_of (all_tokens is) = b @ [NL] \<and> NL \<notin> set b \<and> NUL \<notin> set b"
    using line_of_body toks by blast
qed

lemma first_tok_some:
  assumes "\<forall>i \<in> set is. good_item e i" "is \<noteq> []"
  shows "\<exists>tok. first_tok (all_tokens is) = Some tok"
proof -
  obtain i js where "is": "is = i # js" using assms(2) by (cases "is") auto
  with assms(1) obtain tok ts where "tokens_of i = tok # ts" "tok \<noteq> []" "set tok \<inter> set blanks = {}"
    using tokens_head [of e i] by auto
  then show ?thesis using strtok_line [of tok "ts @ all_tokens js"] by (simp add: "is" all_tokens_def)
qed

lemma parse_items:
  assumes "\<forall>i \<in> set is. good_item (env sh) i" "is \<noteq> []" "length (args sh) = 8" "length (arguments (env sh) is) < 8"
    and "\<not> starts_with ''exit'' (line_of (all_tokens is))" 
  shows "\<exists>sh'. parse_line (line_of (all_tokens is)) sh = Inr (SIMPLE, [], sh')
    \<and> argv_of sh' = arguments (env sh) is \<and> stdout_file sh' = target None is \<and> env sh' = env sh"
proof -
  have n: "CHR ''='' \<notin> set (line_of (all_tokens is))" using line_chars(1) assms(1,2) .
  obtain tok where tok: "first_tok (all_tokens is) = Some tok" using first_tok_some assms(1,2) by blast
  let ?sh = "sh\<lparr>stdout_file := None, verb := Some tok\<rparr>"
  have "parse_line (line_of (all_tokens is)) sh = copy_args 0 (first_tok (all_tokens is)) (rest_of (all_tokens is)) ?sh"
    using assms(5) n tok by (simp add: parse_line_def case_prod_unfold split: option.splits prod.splits)
  with copy_items [of "is" "env sh" ?sh 0 "[]"] assms show ?thesis by simp
qed

lemma parse_assignment:
  assumes "x \<noteq> []" "v \<noteq> []" "set (x @ v) \<inter> {CHR ''='', NL} = {}" "\<not> starts_with ''exit'' (x @ CHR ''='' # v @ [NL])"
  shows "parse_line (x @ CHR ''='' # v @ [NL]) sh = Inr (SET_VAR, [], sh\<lparr>stdout_file := None, var := Some x, val := Some v\<rparr>)"
proof -
  have "strtok (x @ CHR ''='' # v @ [NL]) [CHR ''='', NL] = (Some x, v @ [NL])"
    by (rule strtok_word(1)) (use assms in auto)
  moreover have "strtok (v @ [NL]) [CHR ''='', NL] = (Some v, [])"
    by (rule strtok_word(1)) (use assms in auto)
  ultimately show ?thesis using assms(4) by (simp add: parse_line_def)
qed

text \<open>A line that is read whole.\<close>

lemma tiny_loop_line:
  assumes "NL \<notin> set b" "NUL \<notin> set b" "length b < 255"
  shows "tiny_loop w sh (b @ NL # rem) =
    obind (parse_line (b @ [NL]) sh) (\<lambda>(ty, out, sh1).
      let shown = Prompt # (if out = [] then [] else [Print out]) in
      if ty = EXIT_CMD then Inr shown
      else
        obind (if ty = SIMPLE then simple_cmd w sh1 else Inr []) (\<lambda>ran.
        obind (tiny_loop w (if ty = SET_VAR then set_var (the (var sh1)) (the (val sh1)) sh1 else sh1) rem)
          (\<lambda>es. Inr (shown @ ran @ es))))"
proof -
  have "fgets (MAX_LINE_SIZE - 1) (b @ NL # rem) = (b @ [NL], rem)"
    using fgets_line [of b 255 rem] assms by (simp add: MAX_LINE_SIZE_def)
  moreover have "takeWhile (\<lambda>c. c \<noteq> NUL) (b @ [NL]) = b @ [NL]"
    using assms(2) by (subst takeWhile_append2) auto
  ultimately show ?thesis
    unfolding tiny_loop.simps [of w sh "b @ NL # rem"] Let_def by simp
qed

lemma tiny_loop_end: "tiny_loop w sh [] = Inr [Prompt]"
  by (simp add: tiny_loop.simps [of w sh] MAX_LINE_SIZE_def eval_nat_numeral)

text \<open>A session: a variable that is set in one line is replaced by its value in the command of the
next, the words of the command become its arguments in their order, and its output goes to the
last file that is named.\<close>

theorem variable_then_command:
  assumes "x \<noteq> []" "v \<noteq> []" "set (x @ v) \<inter> {CHR ''='', NL, NUL} = {}" "\<not> starts_with ''exit'' (x @ CHR ''='' # v @ [NL])"
    and "length x + length v < 254" and "is \<noteq> []"
    and "\<forall>i \<in> set is. good_item (e(x \<mapsto> v)) i" and "length (arguments (e(x \<mapsto> v)) is) < 8"
    and "arguments (e(x \<mapsto> v)) is \<noteq> []" and "do_redirect w (target None is)"
    and "runs w (arguments (e(x \<mapsto> v)) is) (target None is) (e(x \<mapsto> v)) = Exits code"
    and "length (line_of (all_tokens is)) < 256" and "\<not> starts_with ''exit'' (line_of (all_tokens is))"
  shows "tiny_main w e (x @ CHR ''='' # v @ NL # line_of (all_tokens is))
    = Inr [Prompt, Prompt, Exec (arguments (e(x \<mapsto> v)) is) (target None is), Ended code, Prompt]"
proof -
  let ?sh = "set_var x v ((alloc_mem e)\<lparr>stdout_file := None, var := Some x, val := Some v\<rparr>)"
  have env: "env ?sh = e(x \<mapsto> v)" "length (args ?sh) = 8" by (simp_all add: set_var_def alloc_mem_def MAX_ARGS_def)
  obtain b where b: "line_of (all_tokens is) = b @ [NL]" "NL \<notin> set b" "NUL \<notin> set b"
    using line_chars(2) [OF assms(7,6)] by blast
  obtain sh' where sh': "parse_line (b @ [NL]) ?sh = Inr (SIMPLE, [], sh')"
    "argv_of sh' = arguments (e(x \<mapsto> v)) is" "stdout_file sh' = target None is" "env sh' = e(x \<mapsto> v)"
    using parse_items [of "is" ?sh] assms(6-8,13) env b(1) by auto
  have first: "parse_line ((x @ CHR ''='' # v) @ [NL]) (alloc_mem e)
      = Inr (SET_VAR, [], (alloc_mem e)\<lparr>stdout_file := None, var := Some x, val := Some v\<rparr>)"
    using parse_assignment [of x v "alloc_mem e"] assms(1-4) by auto
  have "tiny_loop w (alloc_mem e) ((x @ CHR ''='' # v) @ NL # b @ NL # []) =
      obind (tiny_loop w ?sh (b @ NL # [])) (\<lambda>es. Inr (Prompt # es))"
    by (subst tiny_loop_line) (use assms(3,5) first in \<open>auto simp: SET_VAR_def EXIT_CMD_def SIMPLE_def\<close>)
  moreover have run: "simple_cmd w sh' = Inr [Exec (arguments (e(x \<mapsto> v)) is) (target None is), Ended code]"
    using assms(9-11) sh'(2-4) by (auto simp: simple_cmd_def split: list.splits)
  moreover have "tiny_loop w ?sh (b @ NL # []) = Inr [Prompt, Exec (arguments (e(x \<mapsto> v)) is) (target None is), Ended code, Prompt]"
    by (subst tiny_loop_line)
      (use assms(12) b sh' run in \<open>auto simp: SET_VAR_def EXIT_CMD_def SIMPLE_def tiny_loop_end\<close>)
  ultimately show ?thesis using b(1) by (simp add: tiny_main_def)
qed

lemma variable_then_command_witness:
  "tiny_main \<lparr>opens = (\<lambda>_. True), runs = (\<lambda>_ _ _. Exits 0)\<rparr> (\<lambda>_. None) (''dir=/tmp\<newline>ls -l $dir > out\<newline>'')
     = Inr [Prompt, Prompt, Exec [''ls'', ''-l'', ''/tmp''] (Some ''out''), Ended 0, Prompt]"
  using variable_then_command [of "''dir''" "''/tmp''" "[Word ''ls'', Word ''-l'', Use ''dir'', Into ''out'']" "\<lambda>_. None"
      "\<lparr>opens = (\<lambda>_. True), runs = (\<lambda>_ _ _. Exits 0)\<rparr>" 0]
  by (simp add: plain_def blanks_def starts_with_def all_tokens_def do_redirect_def)

text \<open>Lines the shell misreads: a redirection without a file name and a command of eight words
are accesses outside an object, a word that begins with \<^verbatim>\<open>exit\<close> ends the shell, and a command with
an argument that contains an equals sign is taken for an assignment and not run.\<close>

theorem misread_lines:
  "parse_line ''ls >\<newline>'' sh = Inl Undefined
   \<and> parse_line ''a b c d e f g h\<newline>'' sh = Inl Undefined
   \<and> tiny_main w e ''exitcode\<newline>ls\<newline>'' = Inr [Prompt]
   \<and> tiny_main w e ''ls --color=auto\<newline>'' = Inr [Prompt, Prompt]"
proof (intro conjI)
  show "parse_line ''ls >\<newline>'' sh = Inl Undefined"
    by (simp add: parse_line_def starts_with_def strtok_def blanks_def set_arg_ok Let_def)
  show "parse_line ''a b c d e f g h\<newline>'' sh = Inl Undefined"
    by (simp add: parse_line_def starts_with_def strtok_def blanks_def set_arg_def MAX_ARGS_def Let_def)
  show "tiny_main w e ''exitcode\<newline>ls\<newline>'' = Inr [Prompt]"
    using tiny_loop_line [of "''exitcode''" w "alloc_mem e" "''ls\<newline>''"]
    by (simp add: tiny_main_def parse_line_def starts_with_def Let_def)
  show "tiny_main w e ''ls --color=auto\<newline>'' = Inr [Prompt, Prompt]"
    using tiny_loop_line [of "''ls --color=auto''" w "alloc_mem e" "[]"]
    by (simp add: tiny_main_def parse_line_def starts_with_def strtok_def Let_def tiny_loop_end SET_VAR_def EXIT_CMD_def SIMPLE_def)
qed

end
