(* ===== verification/TinyWin.thy ===== *)
theory TinyWin
  imports Tiny
begin

text \<open>
  The minimal shell of the third laboratory on Windows, \<^verbatim>\<open>labs/lab03/sol/win/2-tiny/tiny.c\<close>: a command
  line is kept as one string, and two commands can be joined by a pipe.  The vocabulary of command
  lines is that of the Linux shell.
\<close>

definition MAX_CMD_SIZE :: nat where "MAX_CMD_SIZE = 32"

definition ERROR_LINE :: int where "ERROR_LINE = 0"
definition SIMPLE :: int where "SIMPLE = 1"
definition PIPE :: int where "PIPE = 2"
definition SET_VAR :: int where "SET_VAR = 3"
definition EXIT_CMD :: int where "EXIT_CMD = 4"

section \<open>State\<close>

text \<open>The globals, and the environment of the process.\<close>

record wshell =
  command1 :: string
  command2 :: string
  stdoutFilename :: "string option"
  wvar :: "string option"
  wvalue :: "string option"
  wenv :: "string \<Rightarrow> string option"

definition AllocateMemory :: "(string \<Rightarrow> string option) \<Rightarrow> wshell" where
  "AllocateMemory e =
     \<lparr>command1 = [], command2 = [], stdoutFilename = None, wvar = None, wvalue = None, wenv = e\<rparr>"

text \<open>What Windows decides: which names of variables are the same (those with the same \<open>canon\<close>), and
whether a file can be created, a program started, a pipe made.\<close>

record windows =
  canon :: "string \<Rightarrow> string"
  creates :: "string \<Rightarrow> bool"
  starts :: "string \<Rightarrow> bool"
  pipes :: bool

text \<open>\<^verbatim>\<open>GetEnvironmentVariable\<close> gives 0 for a variable that is not there and for an empty one, and leaves
a buffer that is too small without a meaning.\<close>

definition ExpandVariable :: "(string \<Rightarrow> string option) \<Rightarrow> string \<Rightarrow> string outcome" where
  "ExpandVariable e key =
     (case e key of
        None \<Rightarrow> Inl (ExitWith 1)
      | Some v \<Rightarrow> if v = [] then Inl (ExitWith 1) else if length v < MAX_CMD_SIZE then Inr v else Inl Undefined)"

section \<open>Parsing\<close>

text \<open>\<^verbatim>\<open>strcat_s\<close> ends the program (here without a meaning) when the result does not fit.\<close>

definition strcat_s :: "string \<Rightarrow> string \<Rightarrow> string outcome" where
  "strcat_s dst s = (if length dst + length s < MAX_CMD_SIZE then Inr (dst @ s) else Inl Undefined)"

text \<open>
  The loop of \<^verbatim>\<open>ParseSimpleCommand\<close> from the token \<open>token\<close> on: the command so far and the file for
  the output.  \<^verbatim>\<open>_strdup\<close> of a null pointer is a null pointer.
\<close>

function simple_tokens :: "(string \<Rightarrow> string option) \<Rightarrow> string option \<Rightarrow> string \<Rightarrow> string \<Rightarrow> string option
    \<Rightarrow> (string \<times> string option) outcome" where
  "simple_tokens e None rem cmd f = Inr (cmd, f)"
| "simple_tokens e (Some tok) rem cmd f =
     obind (if take 1 tok = ''$'' then ExpandVariable e (drop 1 tok) else Inr tok) (\<lambda>t.
       if starts_with ''>'' t then
         if length t > 1 then
           (case strtok rem blanks of (nxt, rem') \<Rightarrow> simple_tokens e nxt rem' cmd (Some (drop 1 t)))
         else
           (case strtok rem blanks of (name, rem') \<Rightarrow>
            case strtok rem' blanks of (nxt, rem'') \<Rightarrow> simple_tokens e nxt rem'' cmd name)
       else
         obind (strcat_s cmd t) (\<lambda>c1. obind (strcat_s c1 '' '') (\<lambda>c2.
           case strtok rem blanks of (nxt, rem') \<Rightarrow> simple_tokens e nxt rem' c2 f)))"
  by pat_completeness auto
termination
proof (relation "measure (\<lambda>(e, tok, rem, cmd, f). length rem + (if tok = None then 0 else 1))", goal_cases)
  case (2 e tok rem cmd f t nxt rem')
  then show ?case using strtok_left [of rem blanks nxt rem'] by simp
next
  case (3 e tok rem cmd f t name rem' nxt rem'')
  then show ?case using strtok_left [of rem blanks name rem'] strtok_left [of rem' blanks nxt rem''] by simp
next
  case (4 e tok rem cmd f t c1 c2 nxt rem')
  then show ?case using strtok_left [of rem blanks nxt rem'] by simp
qed simp

definition ParseSimpleCommand :: "(string \<Rightarrow> string option) \<Rightarrow> string \<Rightarrow> string \<Rightarrow> string option \<Rightarrow> (string \<times> string option) outcome" where
  "ParseSimpleCommand e line cmd f =
     (case strtok line blanks of
        (None, _) \<Rightarrow> Inr (cmd, f)
      | (Some tok, rem) \<Rightarrow> simple_tokens e (Some tok) rem cmd f)"

text \<open>\<^verbatim>\<open>ParseLine\<close>; the result of \<^verbatim>\<open>ParseSimpleCommand\<close> is not looked at.\<close>

definition ParseLine :: "windows \<Rightarrow> string \<Rightarrow> wshell \<Rightarrow> (int \<times> wshell) outcome" where
  "ParseLine w line sh =
     (let sh1 = sh\<lparr>stdoutFilename := None, command1 := [], command2 := []\<rparr>;
          getenv = (\<lambda>key. wenv sh1 (canon w key)) in
      if line = [NL] then Inr (ERROR_LINE, sh1)
      else if starts_with ''exit'' line then Inr (EXIT_CMD, sh1)
      else if CHR ''='' \<in> set line then
        (case strtok line [CHR ''='', NL] of
           (None, _) \<Rightarrow> Inr (ERROR_LINE, sh1)
         | (Some x, rem) \<Rightarrow>
             (case strtok rem [CHR ''='', NL] of
                (None, _) \<Rightarrow> Inr (ERROR_LINE, sh1\<lparr>wvar := Some x\<rparr>)
              | (Some v, _) \<Rightarrow> Inr (SET_VAR, sh1\<lparr>wvar := Some x, wvalue := Some v\<rparr>)))
      else if CHR ''|'' \<in> set line then
        obind (strcat_s (command1 sh1) (takeWhile (\<lambda>c. c \<noteq> CHR ''|'') line)) (\<lambda>c1.
        obind (ParseSimpleCommand getenv (drop 1 (dropWhile (\<lambda>c. c \<noteq> CHR ''|'') line)) (command2 sh1) None) (\<lambda>(c2, f).
        Inr (PIPE, sh1\<lparr>command1 := c1, command2 := c2, stdoutFilename := f\<rparr>)))
      else
        obind (ParseSimpleCommand getenv line (command1 sh1) None) (\<lambda>(c1, f).
        Inr (SIMPLE, sh1\<lparr>command1 := c1, stdoutFilename := f\<rparr>)))"

section \<open>Running commands\<close>

text \<open>The handles a process can be given, and the part of \<^verbatim>\<open>STARTUPINFO\<close> that the code sets.\<close>

datatype handle = Console nat | OutFile string | PipeRead | PipeWrite

datatype std = STD_INPUT_HANDLE | STD_OUTPUT_HANDLE | STD_ERROR_HANDLE

record startupinfo =
  use_handles :: bool
  hStdInput :: handle
  hStdOutput :: handle
  hStdError :: handle

definition zeroed :: startupinfo where
  "zeroed = \<lparr>use_handles = False, hStdInput = Console 0, hStdOutput = Console 1, hStdError = Console 2\<rparr>"

definition RedirectHandle :: "startupinfo \<Rightarrow> handle option \<Rightarrow> std \<Rightarrow> startupinfo" where
  "RedirectHandle psi hFile opt =
     (case hFile of
        None \<Rightarrow> psi
      | Some h \<Rightarrow>
          let p = zeroed\<lparr>use_handles := True\<rparr> in
          case opt of
            STD_INPUT_HANDLE \<Rightarrow> p\<lparr>hStdInput := h\<rparr>
          | STD_OUTPUT_HANDLE \<Rightarrow> p\<lparr>hStdOutput := h\<rparr>
          | STD_ERROR_HANDLE \<Rightarrow> p\<lparr>hStdError := h\<rparr>)"

datatype wevent = Prompt | Start string handle handle handle

text \<open>What was started, and how the shell ended, if it did; a failed \<^verbatim>\<open>DIE\<close> ends it.\<close>

type_synonym events = "wevent list \<times> fault option"

definition and_then :: "events \<Rightarrow> events \<Rightarrow> events" where
  "and_then r q = (case r of (es, Some e) \<Rightarrow> (es, Some e) | (es, None) \<Rightarrow> (es @ fst q, snd q))"

definition CreateProcess :: "windows \<Rightarrow> string \<Rightarrow> startupinfo \<Rightarrow> events" where
  "CreateProcess w cmd si =
     (if starts w cmd then ([Start cmd (hStdInput si) (hStdOutput si) (hStdError si)], None) else ([], Some (ExitWith 1)))"

definition MyOpenFile :: "windows \<Rightarrow> string \<Rightarrow> handle option" where
  "MyOpenFile w f = (if creates w f then Some (OutFile f) else None)"

definition RunSimpleCommand :: "windows \<Rightarrow> wshell \<Rightarrow> events" where
  "RunSimpleCommand w sh =
     CreateProcess w (command1 sh)
       (case stdoutFilename sh of
          None \<Rightarrow> zeroed
        | Some f \<Rightarrow> RedirectHandle zeroed (MyOpenFile w f) STD_OUTPUT_HANDLE)"

text \<open>The two structures are not initialised before \<^verbatim>\<open>RedirectHandle\<close> clears them.\<close>

definition PipeCommands :: "windows \<Rightarrow> startupinfo \<Rightarrow> string \<Rightarrow> string \<Rightarrow> events" where
  "PipeCommands w junk c1 c2 =
     (if \<not> pipes w then ([], Some (ExitWith 1))
      else and_then (CreateProcess w c1 (RedirectHandle junk (Some PipeWrite) STD_OUTPUT_HANDLE))
             (CreateProcess w c2 (RedirectHandle junk (Some PipeRead) STD_INPUT_HANDLE)))"

section \<open>The shell\<close>

function shell_loop :: "windows \<Rightarrow> startupinfo \<Rightarrow> wshell \<Rightarrow> string \<Rightarrow> events" where
  "shell_loop w junk sh inp =
     (case fgets (MAX_LINE_SIZE - 1) inp of (l, rem) \<Rightarrow>
        if l = [] then ([Prompt], None)
        else and_then ([Prompt], None)
          (case ParseLine w (takeWhile (\<lambda>c. c \<noteq> NUL) l) sh of
             Inl e \<Rightarrow> ([], Some e)
           | Inr (ty, sh1) \<Rightarrow>
               if ty = EXIT_CMD then ([], None)
               else
                 let sh2 = (if ty = SET_VAR then sh1\<lparr>wenv := (wenv sh1)(canon w (the (wvar sh1)) \<mapsto> the (wvalue sh1))\<rparr> else sh1) in
                 and_then
                   (if ty = PIPE then PipeCommands w junk (command1 sh1) (command2 sh1)
                    else if ty = SIMPLE then RunSimpleCommand w sh1
                    else ([], None))
                   (shell_loop w junk sh2 rem)))"
  by pat_completeness auto
termination
proof (relation "measure (\<lambda>(w, junk, sh, inp). length inp)", goal_cases)
  case (2 w junk sh inp l rem)
  then show ?case by (auto dest!: fgets_append sym [of "(_, _)"])
qed simp

declare shell_loop.simps [simp del]

definition wtiny_main :: "windows \<Rightarrow> startupinfo \<Rightarrow> (string \<Rightarrow> string option) \<Rightarrow> string \<Rightarrow> events" where
  "wtiny_main w junk e inp = shell_loop w junk (AllocateMemory e) inp"

section \<open>Command lines\<close>

definition cmdline :: "string list \<Rightarrow> string" where
  "cmdline as = concat (map (\<lambda>a. a @ '' '') as)"

definition fits_buffer :: "(string \<Rightarrow> string option) \<Rightarrow> item \<Rightarrow> bool" where
  "fits_buffer e i = (case i of Use x \<Rightarrow> (\<exists>v. e x = Some v \<and> v \<noteq> [] \<and> length v < MAX_CMD_SIZE) | _ \<Rightarrow> True)"

lemma cmdline_Cons: "cmdline (a # as) = a @ '' '' @ cmdline as"
  by (simp add: cmdline_def)

lemma strcat_word:
  "length (cmd @ cmdline (a # as)) < MAX_CMD_SIZE \<Longrightarrow>
   obind (strcat_s cmd a) (\<lambda>c1. obind (strcat_s c1 '' '') k) = k (cmd @ a @ '' '')"
  by (simp add: strcat_s_def cmdline_Cons)

lemma simple_items:
  assumes "\<forall>i \<in> set is. good_item e i \<and> fits_buffer e i" "length (cmd @ cmdline (arguments e is)) < MAX_CMD_SIZE"
  shows "simple_tokens e (first_tok (all_tokens is)) (rest_of (all_tokens is)) cmd f
    = Inr (cmd @ cmdline (arguments e is), target f is)"
  using assms
proof (induction "is" arbitrary: cmd f)
  case Nil
  then show ?case by (simp add: all_tokens_def cmdline_def)
next
  case (Cons i "is")
  let ?ts = "all_tokens is"
  have IH: "simple_tokens e (first_tok ?ts) (rest_of ?ts) c g = Inr (c @ cmdline (arguments e is), target g is)"
    if "length (c @ cmdline (arguments e is)) < MAX_CMD_SIZE" for c g
    using Cons.IH Cons.prems(1) that by simp
  show ?case
  proof (cases i)
    case (Word w)
    with Cons.prems(1) have w: "w \<noteq> []" "plain w" "hd w \<noteq> CHR ''$''" "hd w \<noteq> CHR ''>''" by auto
    then have "strtok (line_of (w # ?ts)) blanks = (Some w, line_of ?ts)" by (intro strtok_line plain_blanks)
    moreover have "take 1 w \<noteq> ''$''" "\<not> starts_with ''>'' w" using w by (cases w; simp add: starts_with_def)+
    ultimately show ?thesis using Word Cons.prems(2) IH [of "cmd @ w @ '' ''" f]
      by (simp add: all_tokens_def case_prod_unfold strcat_word [of _ _ "arguments e is"] cmdline_Cons)
  next
    case (Use x)
    with Cons.prems(1) obtain v where v: "plain x" "e x = Some v" "\<not> starts_with ''>'' v" "v \<noteq> []" "length v < MAX_CMD_SIZE"
      by (auto simp: fits_buffer_def)
    then have "strtok (line_of ((CHR ''$'' # x) # ?ts)) blanks = (Some (CHR ''$'' # x), line_of ?ts)"
      using plain_blanks [OF v(1)] blank_chars by (intro strtok_line) auto
    then show ?thesis using Use v Cons.prems(2) IH [of "cmd @ v @ '' ''" f]
      by (simp add: all_tokens_def ExpandVariable_def case_prod_unfold strcat_word [of _ _ "arguments e is"] cmdline_Cons)
  next
    case (To g)
    with Cons.prems(1) have g: "g \<noteq> []" "plain g" by auto
    then have "strtok (line_of ((CHR ''>'' # g) # ?ts)) blanks = (Some (CHR ''>'' # g), line_of ?ts)"
      using plain_blanks [OF g(2)] blank_chars by (intro strtok_line) auto
    then show ?thesis using To g Cons.prems(2) IH [of cmd "Some g"]
      by (simp add: all_tokens_def starts_with_def case_prod_unfold)
  next
    case (Into g)
    with Cons.prems(1) have g: "g \<noteq> []" "plain g" by auto
    then have "strtok (line_of (g # ?ts)) blanks = (Some g, line_of ?ts)" by (intro strtok_line plain_blanks)
    moreover have "strtok (line_of (''>'' # g # ?ts)) blanks = (Some ''>'', line_of (g # ?ts))"
      using blank_chars by (intro strtok_line) auto
    ultimately show ?thesis using Into Cons.prems(2) IH [of cmd "Some g"]
      by (simp add: all_tokens_def starts_with_def case_prod_unfold)
  qed
qed

lemma ParseSimpleCommand_items:
  assumes "\<forall>i \<in> set is. good_item e i \<and> fits_buffer e i" "is \<noteq> []" "length (cmdline (arguments e is)) < MAX_CMD_SIZE"
  shows "ParseSimpleCommand e (line_of (all_tokens is)) [] None = Inr (cmdline (arguments e is), target None is)"
proof -
  obtain tok where "first_tok (all_tokens is) = Some tok" using first_tok_some assms(1,2) by blast
  with simple_items [of "is" e "[]" None] assms(1,3) show ?thesis
    by (simp add: ParseSimpleCommand_def case_prod_unfold split: option.splits prod.splits)
qed

lemma and_then_simps [simp]:
  "and_then (es, None) q = (es @ fst q, snd q)" "and_then (es, Some e) q = (es, Some e)"
  by (simp_all add: and_then_def)

lemma shell_loop_line:
  assumes "NL \<notin> set b" "NUL \<notin> set b" "length b < 255" "ParseLine w (b @ [NL]) sh = Inr (ty, sh1)" "ty \<in> {SIMPLE, PIPE}"
  shows "shell_loop w junk sh (b @ NL # rem) = and_then ([Prompt], None) (and_then
      (if ty = PIPE then PipeCommands w junk (command1 sh1) (command2 sh1) else RunSimpleCommand w sh1)
      (shell_loop w junk sh1 rem))"
proof -
  have "fgets (MAX_LINE_SIZE - 1) (b @ NL # rem) = (b @ [NL], rem)"
    using fgets_line [of b 255 rem] assms by (simp add: MAX_LINE_SIZE_def)
  moreover have "takeWhile (\<lambda>c. c \<noteq> NUL) (b @ [NL]) = b @ [NL]"
    using assms(2) by (subst takeWhile_append2) auto
  moreover have "ty \<noteq> EXIT_CMD" "ty \<noteq> SET_VAR" "ty \<noteq> PIPE \<longrightarrow> ty = SIMPLE"
    using assms(5) by (auto simp: SIMPLE_def PIPE_def EXIT_CMD_def SET_VAR_def)
  ultimately show ?thesis
    unfolding shell_loop.simps [of w junk sh "b @ NL # rem"] Let_def by (simp add: assms(4))
qed

lemma shell_loop_end: "shell_loop w junk sh [] = ([Prompt], None)"
  by (simp add: shell_loop.simps [of w junk sh] MAX_LINE_SIZE_def eval_nat_numeral)

text \<open>A line with a pipe starts the text before the bar with its output in the pipe, and the expanded
command after it with its input from the pipe; all other handles are those of the console, whatever
the uninitialised structures held.  A file that is named for the output is not used.\<close>

theorem pipe_joins_commands:
  assumes "set left \<inter> {CHR ''='', CHR ''|'', NL, NUL} = {}" "length left < 32" "\<not> starts_with ''exit'' (left @ ''|'' @ line_of (all_tokens is))"
    and "is \<noteq> []" "\<forall>i \<in> set is. good_item (\<lambda>k. e (canon w k)) i \<and> fits_buffer (\<lambda>k. e (canon w k)) i"
    and "length (cmdline (arguments (\<lambda>k. e (canon w k)) is)) < 32" "length left + length (line_of (all_tokens is)) < 255"
    and "pipes w" "starts w left" "starts w (cmdline (arguments (\<lambda>k. e (canon w k)) is))"
  shows "wtiny_main w junk e (left @ ''|'' @ line_of (all_tokens is))
    = ([Prompt, Start left (Console 0) PipeWrite (Console 2),
        Start (cmdline (arguments (\<lambda>k. e (canon w k)) is)) PipeRead (Console 1) (Console 2), Prompt], None)"
proof -
  let ?e = "\<lambda>k. e (canon w k)" and ?l = "line_of (all_tokens is)"
  have good: "\<forall>i \<in> set is. good_item ?e i" using assms(5) by blast
  obtain b where b: "?l = b @ [NL]" "NL \<notin> set b" "NUL \<notin> set b" using line_chars(2) [OF good assms(4)] by blast
  have eq: "CHR ''='' \<notin> set (left @ ''|'' @ ?l)" using line_chars(1) [OF good assms(4)] assms(1) by auto
  have tw: "takeWhile (\<lambda>c. c \<noteq> CHR ''|'') (left @ ''|'' @ ?l) = left" "dropWhile (\<lambda>c. c \<noteq> CHR ''|'') (left @ ''|'' @ ?l) = ''|'' @ ?l"
    using assms(1) by (auto simp: takeWhile_append dropWhile_append)
  have len: "length (cmdline (arguments ?e is)) < MAX_CMD_SIZE" using assms(6) by (simp add: MAX_CMD_SIZE_def)
  have "\<exists>sh1. ParseLine w ((left @ ''|'' @ b) @ [NL]) (AllocateMemory e) = Inr (PIPE, sh1) \<and> command1 sh1 = left
      \<and> command2 sh1 = cmdline (arguments ?e is)"
    using eq tw assms(2,3) ParseSimpleCommand_items [OF assms(5,4) len] b(1)
    by (simp add: ParseLine_def AllocateMemory_def strcat_s_def MAX_CMD_SIZE_def Let_def)
  then obtain sh1 where sh1: "ParseLine w ((left @ ''|'' @ b) @ [NL]) (AllocateMemory e) = Inr (PIPE, sh1)"
    "command1 sh1 = left" "command2 sh1 = cmdline (arguments ?e is)" by blast
  have "shell_loop w junk (AllocateMemory e) ((left @ ''|'' @ b) @ NL # []) = and_then ([Prompt], None)
      (and_then (PipeCommands w junk (command1 sh1) (command2 sh1)) (shell_loop w junk sh1 []))"
    by (subst shell_loop_line [OF _ _ _ sh1(1)]) (use assms(1,7) b in auto)
  then show ?thesis
    using b(1) sh1(2,3) assms(8-10)
    by (simp add: wtiny_main_def PipeCommands_def CreateProcess_def RedirectHandle_def zeroed_def Let_def shell_loop_end)
qed

theorem pipe_joins_commands_witness:
  "wtiny_main \<lparr>canon = id, creates = (\<lambda>_. True), starts = (\<lambda>c. c \<noteq> []), pipes = True\<rparr> zeroed [''pat'' \<mapsto> ''main''] (''type a.c|find $pat > out\<newline>'')
     = ([Prompt, Start ''type a.c'' (Console 0) PipeWrite (Console 2), Start ''find main '' PipeRead (Console 1) (Console 2), Prompt], None)"
  using pipe_joins_commands [of "''type a.c''" "[Word ''find'', Use ''pat'', Into ''out'']" "[''pat'' \<mapsto> ''main'']"
      "\<lparr>canon = id, creates = (\<lambda>_. True), starts = (\<lambda>c. c \<noteq> []), pipes = True\<rparr>" zeroed]
  by (simp add: plain_def blanks_def starts_with_def all_tokens_def fits_buffer_def cmdline_def MAX_CMD_SIZE_def)

lemma AllocateMemory_env: "wenv (AllocateMemory e) = e"
  by (simp add: AllocateMemory_def)

text \<open>Lines that end the shell: blanks only (an empty command is started), a variable that is not set,
and a command that does not fit its 32 bytes.\<close>

theorem lines_that_end_the_shell:
  assumes "\<not> starts w []" "e (canon w ''x'') = None"
  shows "wtiny_main w junk e (''  \<newline>exit\<newline>'') = ([Prompt], Some (ExitWith 1))
    \<and> wtiny_main w junk e (''echo $x\<newline>exit\<newline>'') = ([Prompt], Some (ExitWith 1))
    \<and> wtiny_main w junk e (''echo aaaaaaaaaaaaaaaaaaaaaaaaaaaa\<newline>exit\<newline>'') = ([Prompt], Some Undefined)"
  using assms
  by (intro conjI; simp add: wtiny_main_def shell_loop.simps [of w junk "AllocateMemory e"] MAX_LINE_SIZE_def eval_nat_numeral
      ParseLine_def AllocateMemory_env ParseSimpleCommand_def strtok_def blanks_def starts_with_def strcat_s_def
      ExpandVariable_def MAX_CMD_SIZE_def Let_def RunSimpleCommand_def CreateProcess_def
      SIMPLE_def PIPE_def EXIT_CMD_def SET_VAR_def ERROR_LINE_def)

theorem lines_that_end_the_shell_witness:
  "wtiny_main \<lparr>canon = id, creates = (\<lambda>_. True), starts = (\<lambda>c. c \<noteq> []), pipes = True\<rparr> zeroed (\<lambda>_. None) (''  \<newline>exit\<newline>'')
      = ([Prompt], Some (ExitWith 1))
    \<and> wtiny_main \<lparr>canon = id, creates = (\<lambda>_. True), starts = (\<lambda>c. c \<noteq> []), pipes = True\<rparr> zeroed (\<lambda>_. None) (''echo $x\<newline>exit\<newline>'')
      = ([Prompt], Some (ExitWith 1))
    \<and> wtiny_main \<lparr>canon = id, creates = (\<lambda>_. True), starts = (\<lambda>c. c \<noteq> []), pipes = True\<rparr> zeroed (\<lambda>_. None)
        (''echo aaaaaaaaaaaaaaaaaaaaaaaaaaaa\<newline>exit\<newline>'') = ([Prompt], Some Undefined)"
  by (rule lines_that_end_the_shell) simp_all

end
