(* ===== verification/EchoServer.thy ===== *)
theory EchoServer
  imports Channels
begin

text \<open>
  The echo server that the web-server assignment hands out as its sample,
  \<^verbatim>\<open>5-aws/util/lin/samples/epoll_echo_server.c\<close>, with the wrappers of \<^verbatim>\<open>w_epoll.h\<close>.  The state of the
  program is a heap of connections, the descriptors that are open and what \<^verbatim>\<open>epoll\<close> was asked to
  watch.  The environment is a sequence of actions of clients and of events that \<^verbatim>\<open>epoll_wait\<close>
  reports; an event also names the descriptor that \<^verbatim>\<open>accept\<close> and the address that \<^verbatim>\<open>malloc\<close> return,
  which may be used again after they were given back.
\<close>

definition BUFSIZ :: nat where "BUFSIZ = 8192"

definition EXIT_FAILURE :: int where "EXIT_FAILURE = 1"

text \<open>The descriptor of the listening socket; 3 is the one of \<^verbatim>\<open>epoll\<close>.\<close>

definition listenfd :: nat where "listenfd = 4"

section \<open>State\<close>

datatype connection_state = STATE_DATA_RECEIVED | STATE_DATA_SENT | STATE_CONNECTION_CLOSED

text \<open>A field that \<^verbatim>\<open>connection_create\<close> leaves without a value is \<^const>\<open>None\<close>.\<close>

record connection =
  sockfd :: nat
  recv_buffer :: "byte list"
  recv_len :: "nat option"
  send_buffer :: "byte list"
  send_len :: "nat option"
  state :: "connection_state option"

text \<open>
  A TCP connection as the server's kernel sees it: the bytes that have come, whether the client
  has ended its side, whether the peer is still known (\<^verbatim>\<open>getpeername\<close>), how the coming calls are
  limited; then what the client has said so far and what was sent to it.
\<close>

record wire =
  inbox :: "byte list"
  ended :: bool
  up :: bool
  recvs :: "limit list"
  sends :: "limit list"
  said :: "byte list"
  outbox :: "byte list"

text \<open>What is watched for a descriptor: the \<^verbatim>\<open>data\<close> of the event, and the bits \<^verbatim>\<open>EPOLLIN\<close> and \<^verbatim>\<open>EPOLLOUT\<close>.\<close>

record interest =
  data :: nat
  epollin :: bool
  epollout :: bool

record server =
  conns :: "nat \<Rightarrow> connection option"
  fds :: "nat \<Rightarrow> nat option"
  wires :: "nat \<Rightarrow> wire option"
  watched :: "nat \<Rightarrow> interest option"
  backlog :: "nat list"

section \<open>System calls\<close>

text \<open>\<^verbatim>\<open>epoll_ctl\<close> with \<^verbatim>\<open>EPOLL_CTL_ADD\<close>, \<^verbatim>\<open>EPOLL_CTL_MOD\<close> and \<^verbatim>\<open>EPOLL_CTL_DEL\<close>; -1 is a failure.\<close>

definition ctl_add :: "nat \<Rightarrow> interest \<Rightarrow> server \<Rightarrow> int \<times> server" where
  "ctl_add fd i s = (if watched s fd = None then (0, s\<lparr>watched := (watched s)(fd \<mapsto> i)\<rparr>) else (-1, s))"

definition ctl_mod :: "nat \<Rightarrow> interest \<Rightarrow> server \<Rightarrow> int \<times> server" where
  "ctl_mod fd i s = (if watched s fd \<noteq> None then (0, s\<lparr>watched := (watched s)(fd \<mapsto> i)\<rparr>) else (-1, s))"

definition ctl_del :: "nat \<Rightarrow> server \<Rightarrow> int \<times> server" where
  "ctl_del fd s = (if watched s fd \<noteq> None then (0, s\<lparr>watched := (watched s)(fd := None)\<rparr>) else (-1, s))"

definition w_epoll_add_fd_in :: "nat \<Rightarrow> server \<Rightarrow> int \<times> server" where
  "w_epoll_add_fd_in fd s = ctl_add fd \<lparr>data = fd, epollin = True, epollout = False\<rparr> s"

definition w_epoll_add_ptr_in :: "nat \<Rightarrow> nat \<Rightarrow> server \<Rightarrow> int \<times> server" where
  "w_epoll_add_ptr_in fd p s = ctl_add fd \<lparr>data = p, epollin = True, epollout = False\<rparr> s"

definition w_epoll_update_ptr_in :: "nat \<Rightarrow> nat \<Rightarrow> server \<Rightarrow> int \<times> server" where
  "w_epoll_update_ptr_in fd p s = ctl_mod fd \<lparr>data = p, epollin = True, epollout = False\<rparr> s"

definition w_epoll_update_ptr_inout :: "nat \<Rightarrow> nat \<Rightarrow> server \<Rightarrow> int \<times> server" where
  "w_epoll_update_ptr_inout fd p s = ctl_mod fd \<lparr>data = p, epollin = True, epollout = True\<rparr> s"

definition w_epoll_remove_ptr :: "nat \<Rightarrow> nat \<Rightarrow> server \<Rightarrow> int \<times> server" where
  "w_epoll_remove_ptr fd p s = ctl_del fd s"

text \<open>The wrappers that the sample does not use.\<close>

definition w_epoll_add_fd_out :: "nat \<Rightarrow> server \<Rightarrow> int \<times> server" where
  "w_epoll_add_fd_out fd s = ctl_add fd \<lparr>data = fd, epollin = False, epollout = True\<rparr> s"

definition w_epoll_add_fd_inout :: "nat \<Rightarrow> server \<Rightarrow> int \<times> server" where
  "w_epoll_add_fd_inout fd s = ctl_add fd \<lparr>data = fd, epollin = True, epollout = True\<rparr> s"

definition w_epoll_update_fd_in :: "nat \<Rightarrow> server \<Rightarrow> int \<times> server" where
  "w_epoll_update_fd_in fd s = ctl_mod fd \<lparr>data = fd, epollin = True, epollout = False\<rparr> s"

definition w_epoll_update_fd_out :: "nat \<Rightarrow> server \<Rightarrow> int \<times> server" where
  "w_epoll_update_fd_out fd s = ctl_mod fd \<lparr>data = fd, epollin = False, epollout = True\<rparr> s"

definition w_epoll_update_fd_inout :: "nat \<Rightarrow> server \<Rightarrow> int \<times> server" where
  "w_epoll_update_fd_inout fd s = ctl_mod fd \<lparr>data = fd, epollin = True, epollout = True\<rparr> s"

definition w_epoll_add_ptr_out :: "nat \<Rightarrow> nat \<Rightarrow> server \<Rightarrow> int \<times> server" where
  "w_epoll_add_ptr_out fd p s = ctl_add fd \<lparr>data = p, epollin = False, epollout = True\<rparr> s"

definition w_epoll_add_ptr_inout :: "nat \<Rightarrow> nat \<Rightarrow> server \<Rightarrow> int \<times> server" where
  "w_epoll_add_ptr_inout fd p s = ctl_add fd \<lparr>data = p, epollin = True, epollout = True\<rparr> s"

definition w_epoll_update_ptr_out :: "nat \<Rightarrow> nat \<Rightarrow> server \<Rightarrow> int \<times> server" where
  "w_epoll_update_ptr_out fd p s = ctl_mod fd \<lparr>data = p, epollin = False, epollout = True\<rparr> s"

definition w_epoll_remove_fd :: "nat \<Rightarrow> server \<Rightarrow> int \<times> server" where
  "w_epoll_remove_fd fd s = ctl_del fd s"

text \<open>\<^verbatim>\<open>close\<close> also ends the watching of the descriptor.\<close>

definition sys_close :: "nat \<Rightarrow> server \<Rightarrow> server" where
  "sys_close fd s = s\<lparr>fds := (fds s)(fd := None), watched := (watched s)(fd := None)\<rparr>"

definition wire_of :: "server \<Rightarrow> nat \<Rightarrow> wire option" where
  "wire_of s fd = (case fds s fd of None \<Rightarrow> None | Some c \<Rightarrow> wires s c)"

definition set_wire :: "nat \<Rightarrow> wire \<Rightarrow> server \<Rightarrow> server" where
  "set_wire fd w s = (case fds s fd of None \<Rightarrow> s | Some c \<Rightarrow> s\<lparr>wires := (wires s)(c \<mapsto> w)\<rparr>)"

text \<open>0 when the address of the peer is known.\<close>

definition get_peer_address :: "nat \<Rightarrow> server \<Rightarrow> int" where
  "get_peer_address fd s = (case wire_of s fd of None \<Rightarrow> -1 | Some w \<Rightarrow> if up w then 0 else -1)"

text \<open>\<^const>\<open>None\<close> is a failure, the empty list the end of the stream; without either \<^verbatim>\<open>recv\<close> blocks.\<close>

definition sys_recv :: "nat \<Rightarrow> nat \<Rightarrow> server \<Rightarrow> (byte list option \<times> server) outcome" where
  "sys_recv fd n s =
     (case wire_of s fd of
        None \<Rightarrow> Inr (None, s)
      | Some w \<Rightarrow>
          (case recvs w of
             Fails # ls \<Rightarrow> Inr (None, set_wire fd (w\<lparr>recvs := ls\<rparr>) s)
           | ls \<Rightarrow>
               if inbox w = [] then (if ended w then Inr (Some [], s) else Inl Loops)
               else let k = (case ls of AtMost m # _ \<Rightarrow> max 1 (min m n) | _ \<Rightarrow> n)
                    in Inr (Some (take k (inbox w)), set_wire fd (w\<lparr>inbox := drop k (inbox w), recvs := tl ls\<rparr>) s)))"

definition sys_send :: "nat \<Rightarrow> byte list \<Rightarrow> server \<Rightarrow> int \<times> server" where
  "sys_send fd bs s =
     (case wire_of s fd of
        None \<Rightarrow> (-1, s)
      | Some w \<Rightarrow>
          (case sends w of
             Fails # ls \<Rightarrow> (-1, set_wire fd (w\<lparr>sends := ls\<rparr>) s)
           | ls \<Rightarrow>
               let k = (case ls of AtMost m # _ \<Rightarrow> min m (length bs) | _ \<Rightarrow> length bs)
               in (int k, set_wire fd (w\<lparr>outbox := outbox w @ take k bs, sends := tl ls\<rparr>) s)))"

text \<open>\<^verbatim>\<open>accept\<close> takes the client that has waited longest; without one it blocks.\<close>

definition sys_accept :: "nat \<Rightarrow> server \<Rightarrow> (int \<times> server) outcome" where
  "sys_accept fd s =
     (case backlog s of
        [] \<Rightarrow> Inl Loops
      | c # cs \<Rightarrow> Inr (int fd, s\<lparr>backlog := cs, fds := (fds s)(fd \<mapsto> c)\<rparr>))"

text \<open>\<^verbatim>\<open>printf\<close> with \<^verbatim>\<open>%s\<close> reads up to the first zero; a full buffer without one is read beyond its end.\<close>

definition print_string :: "byte list \<Rightarrow> unit outcome" where
  "print_string buf = (if 0 \<in> set buf then Inr () else Inl Undefined)"

definition DIE :: "bool \<Rightarrow> unit outcome" where
  "DIE b = (if b then Inl (ExitWith EXIT_FAILURE) else Inr ())"

section \<open>Connections\<close>

definition connection_create :: "nat \<Rightarrow> connection" where
  "connection_create fd =
     \<lparr>sockfd = fd, recv_buffer = replicate BUFSIZ 0, recv_len = None,
      send_buffer = replicate BUFSIZ 0, send_len = None, state = None\<rparr>"

text \<open>Access to a connection through its address; freed memory has no meaning.\<close>

definition load :: "nat \<Rightarrow> server \<Rightarrow> connection outcome" where
  "load p s = deref (conns s p)"

definition store :: "nat \<Rightarrow> connection \<Rightarrow> server \<Rightarrow> server" where
  "store p c s = s\<lparr>conns := (conns s)(p \<mapsto> c)\<rparr>"

text \<open>The buffer after \<open>bs\<close> was written at its beginning.\<close>

definition overlay :: "byte list \<Rightarrow> byte list \<Rightarrow> byte list" where
  "overlay bs buf = bs @ drop (length bs) buf"

definition connection_copy_buffers :: "nat \<Rightarrow> server \<Rightarrow> server outcome" where
  "connection_copy_buffers p s =
     obind (load p s) (\<lambda>c.
     obind (deref (recv_len c)) (\<lambda>n.
     Inr (store p (c\<lparr>send_len := Some n, send_buffer := overlay (take n (recv_buffer c)) (send_buffer c)\<rparr>) s)))"

definition connection_remove :: "nat \<Rightarrow> server \<Rightarrow> server outcome" where
  "connection_remove p s =
     obind (load p s) (\<lambda>c.
     Inr ((sys_close (sockfd c) s)\<lparr>conns := (conns s)(p := None)\<rparr>))"

definition handle_new_connection :: "nat \<Rightarrow> nat \<Rightarrow> server \<Rightarrow> server outcome" where
  "handle_new_connection new_fd new_addr s =
     obind (sys_accept new_fd s) (\<lambda>(fd, s).
     obind (DIE (fd < 0)) (\<lambda>_.
     let s = store new_addr (connection_create (nat fd)) s;
         (rc, s) = w_epoll_add_ptr_in (nat fd) new_addr s
     in obind (DIE (rc < 0)) (\<lambda>_. Inr s)))"

text \<open>The label \<^verbatim>\<open>remove_connection\<close>, which ends both \<^verbatim>\<open>receive_message\<close> and \<^verbatim>\<open>send_message\<close>.\<close>

definition remove_connection :: "nat \<Rightarrow> server \<Rightarrow> (connection_state \<times> server) outcome" where
  "remove_connection p s =
     obind (load p s) (\<lambda>c.
     let (rc, s) = w_epoll_remove_ptr (sockfd c) p s in
     obind (DIE (rc < 0)) (\<lambda>_.
     obind (connection_remove p s) (\<lambda>s. Inr (STATE_CONNECTION_CLOSED, s))))"

definition receive_message :: "nat \<Rightarrow> server \<Rightarrow> (connection_state \<times> server) outcome" where
  "receive_message p s =
     obind (load p s) (\<lambda>c.
     if get_peer_address (sockfd c) s < 0 then remove_connection p s
     else obind (sys_recv (sockfd c) BUFSIZ s) (\<lambda>(r, s).
       case r of
         None \<Rightarrow> remove_connection p s
       | Some bs \<Rightarrow>
           if bs = [] then remove_connection p s
           else let buf = overlay bs (recv_buffer c) in
             obind (print_string buf) (\<lambda>_.
             Inr (STATE_DATA_RECEIVED,
                  store p (c\<lparr>recv_buffer := buf, recv_len := Some (length bs), state := Some STATE_DATA_RECEIVED\<rparr>) s))))"

definition send_message :: "nat \<Rightarrow> server \<Rightarrow> (connection_state \<times> server) outcome" where
  "send_message p s =
     obind (load p s) (\<lambda>c.
     if get_peer_address (sockfd c) s < 0 then remove_connection p s
     else obind (deref (send_len c)) (\<lambda>n.
       let (sent, s) = sys_send (sockfd c) (take n (send_buffer c)) s in
       if sent < 0 then remove_connection p s
       else if sent = 0 then remove_connection p s
       else obind (print_string (send_buffer c)) (\<lambda>_.
         let (rc, s) = w_epoll_update_ptr_in (sockfd c) p s in
         obind (DIE (rc < 0)) (\<lambda>_.
         Inr (STATE_DATA_SENT, store p (c\<lparr>state := Some STATE_DATA_SENT\<rparr>) s)))))"

definition handle_client_request :: "nat \<Rightarrow> server \<Rightarrow> server outcome" where
  "handle_client_request p s =
     obind (receive_message p s) (\<lambda>(ret, s).
     if ret = STATE_CONNECTION_CLOSED then Inr s
     else obind (connection_copy_buffers p s) (\<lambda>s.
       obind (load p s) (\<lambda>c.
       let (rc, s) = w_epoll_update_ptr_inout (sockfd c) p s in
       obind (DIE (rc < 0)) (\<lambda>_. Inr s))))"

section \<open>The main loop\<close>

text \<open>
  One turn of the loop.  \<^verbatim>\<open>rev.data\<close> is a union: \<^verbatim>\<open>rev.data.fd\<close> is the lower half of what was
  stored, also where a pointer was stored.
\<close>

definition data_fd :: "nat \<Rightarrow> nat" where
  "data_fd d = d mod 2 ^ 32"

definition serve :: "interest \<Rightarrow> nat \<Rightarrow> nat \<Rightarrow> server \<Rightarrow> server outcome" where
  "serve ev new_fd new_addr s =
     (if data_fd (data ev) = listenfd then
        (if epollin ev then handle_new_connection new_fd new_addr s else Inr s)
      else
        obind (if epollin ev then handle_client_request (data ev) s else Inr s) (\<lambda>s.
        if epollout ev then obind (send_message (data ev) s) (\<lambda>(_, s). Inr s) else Inr s))"

definition server_start :: server where
  "server_start = snd (w_epoll_add_fd_in listenfd
     \<lparr>conns = \<lambda>_. None, fds = \<lambda>_. None, wires = \<lambda>_. None, watched = \<lambda>_. None, backlog = []\<rparr>)"

text \<open>
  What can happen: a client connects, sends, ends its side, is reset; or the event is reported
  that the descriptor \<open>fd\<close> can be read or written.
\<close>

datatype action =
    Connects nat "limit list" "limit list"
  | Says nat "byte list"
  | Hangs_up nat
  | Resets nat
  | Event nat bool bool nat nat

definition client_step :: "nat \<Rightarrow> (wire \<Rightarrow> wire) \<Rightarrow> server \<Rightarrow> server" where
  "client_step c f s = (case wires s c of None \<Rightarrow> s | Some w \<Rightarrow> s\<lparr>wires := (wires s)(c \<mapsto> f w)\<rparr>)"

fun act :: "action \<Rightarrow> server \<Rightarrow> server outcome" where
  "act (Connects c rs ss) s =
     Inr (s\<lparr>backlog := backlog s @ [c],
            wires := (wires s)(c \<mapsto> \<lparr>inbox = [], ended = False, up = True, recvs = rs, sends = ss, said = [], outbox = []\<rparr>)\<rparr>)"
| "act (Says c bs) s = Inr (client_step c (\<lambda>w. w\<lparr>inbox := inbox w @ bs, said := said w @ bs\<rparr>) s)"
| "act (Hangs_up c) s = Inr (client_step c (\<lambda>w. w\<lparr>ended := True\<rparr>) s)"
| "act (Resets c) s = Inr (client_step c (\<lambda>w. w\<lparr>ended := True, up := False\<rparr>) s)"
| "act (Event fd inb outb new_fd new_addr) s =
     (case watched s fd of
        None \<Rightarrow> Inr s
      | Some i \<Rightarrow> serve \<lparr>data = data i, epollin = inb, epollout = outb\<rparr> new_fd new_addr s)"

text \<open>A descriptor is readable when \<^verbatim>\<open>recv\<close> or \<^verbatim>\<open>accept\<close> would not block.\<close>

definition can_read :: "nat \<Rightarrow> server \<Rightarrow> bool" where
  "can_read fd s =
     (if fd = listenfd then backlog s \<noteq> []
      else case wire_of s fd of None \<Rightarrow> False | Some w \<Rightarrow> inbox w \<noteq> [] \<or> ended w \<or> \<not> up w)"

text \<open>\<^verbatim>\<open>malloc\<close> returns addresses that are not in use and are multiples of 16.\<close>

definition may_grant :: "nat \<Rightarrow> nat \<Rightarrow> server \<Rightarrow> bool" where
  "may_grant new_fd new_addr s \<longleftrightarrow> listenfd < new_fd \<and> fds s new_fd = None
     \<and> conns s new_addr = None \<and> 0 < new_addr \<and> 16 dvd new_addr"

fun possible :: "action \<Rightarrow> server \<Rightarrow> bool" where
  "possible (Connects c rs ss) s \<longleftrightarrow> wires s c = None"
| "possible (Says c bs) s \<longleftrightarrow> (case wires s c of None \<Rightarrow> False | Some w \<Rightarrow> \<not> ended w)"
| "possible (Hangs_up c) s \<longleftrightarrow> wires s c \<noteq> None"
| "possible (Resets c) s \<longleftrightarrow> wires s c \<noteq> None"
| "possible (Event fd inb outb new_fd new_addr) s \<longleftrightarrow>
     (case watched s fd of
        None \<Rightarrow> False
      | Some i \<Rightarrow> (inb \<longrightarrow> epollin i \<and> can_read fd s) \<and> (outb \<longrightarrow> epollout i))
     \<and> (fd = listenfd \<longrightarrow> may_grant new_fd new_addr s)"

text \<open>A schedule; an action that is not admitted when its turn comes is left out.\<close>

fun schedule :: "(action \<Rightarrow> server \<Rightarrow> bool) \<Rightarrow> action list \<Rightarrow> server \<Rightarrow> server outcome" where
  "schedule ok [] s = Inr s"
| "schedule ok (a # as) s = (if ok a s then obind (act a s) (schedule ok as) else schedule ok as s)"

section \<open>Well-formed servers\<close>

text \<open>Between two events both buffers hold the same, a text that can be printed.\<close>

definition conn_ok :: "connection \<Rightarrow> bool" where
  "conn_ok c \<longleftrightarrow> length (recv_buffer c) = BUFSIZ \<and> send_buffer c = recv_buffer c \<and> 0 \<in> set (recv_buffer c)
     \<and> (case recv_len c of None \<Rightarrow> True | Some n \<Rightarrow> 0 < n \<and> n \<le> BUFSIZ)
     \<and> (case send_len c of None \<Rightarrow> True | Some n \<Rightarrow> 0 < n \<and> n \<le> BUFSIZ)"

text \<open>
  Connections, open sockets and watched descriptors belong together one to one: the data of an
  event is the address of a connection that is still allocated and whose socket is the descriptor;
  who is watched for output has something to send.
\<close>

definition paired :: "server \<Rightarrow> nat \<Rightarrow> nat \<Rightarrow> connection \<Rightarrow> interest \<Rightarrow> bool" where
  "paired s fd p c i \<longleftrightarrow> conns s p = Some c \<and> watched s fd = Some i \<and> fds s fd \<noteq> None
     \<and> sockfd c = fd \<and> data i = p \<and> epollin i \<and> (epollout i \<longrightarrow> send_len c \<noteq> None) \<and> conn_ok c
     \<and> fd \<noteq> listenfd \<and> 0 < p \<and> 16 dvd p"

definition tables_ok :: "server \<Rightarrow> bool" where
  "tables_ok s \<longleftrightarrow> watched s listenfd = Some \<lparr>data = listenfd, epollin = True, epollout = False\<rparr>
     \<and> fds s listenfd = None
     \<and> (\<forall>p c. conns s p = Some c \<longrightarrow> (\<exists>i. paired s (sockfd c) p c i))
     \<and> (\<forall>fd i. watched s fd = Some i \<longrightarrow> fd \<noteq> listenfd \<longrightarrow> (\<exists>c. paired s fd (data i) c i))
     \<and> (\<forall>fd. fds s fd \<noteq> None \<longrightarrow> watched s fd \<noteq> None)"

text \<open>Every client waits at most once or is served on at most one socket.\<close>

definition clients_ok :: "server \<Rightarrow> bool" where
  "clients_ok s \<longleftrightarrow> (\<forall>c. c \<in> ran (fds s) \<longrightarrow> wires s c \<noteq> None) \<and> (\<forall>c\<in>set (backlog s). wires s c \<noteq> None)
     \<and> inj_on (fds s) (dom (fds s)) \<and> distinct (backlog s) \<and> set (backlog s) \<inter> ran (fds s) = {}"

definition server_ok :: "server \<Rightarrow> bool" where
  "server_ok s \<longleftrightarrow> tables_ok s \<and> clients_ok s"

lemma server_ok_conn: "server_ok s \<Longrightarrow> conns s p = Some c \<Longrightarrow> \<exists>i. paired s (sockfd c) p c i"
  unfolding server_ok_def tables_ok_def by blast

lemma server_ok_watched: "server_ok s \<Longrightarrow> watched s fd = Some i \<Longrightarrow> fd \<noteq> listenfd \<Longrightarrow> \<exists>c. paired s fd (data i) c i"
  unfolding server_ok_def tables_ok_def by blast

lemma tables_okI:
  assumes "watched s listenfd = Some \<lparr>data = listenfd, epollin = True, epollout = False\<rparr>" "fds s listenfd = None"
    and "\<And>p c. conns s p = Some c \<Longrightarrow> \<exists>i. paired s (sockfd c) p c i"
    and "\<And>fd i. watched s fd = Some i \<Longrightarrow> fd \<noteq> listenfd \<Longrightarrow> \<exists>c. paired s fd (data i) c i"
    and "\<And>fd. fds s fd \<noteq> None \<Longrightarrow> watched s fd \<noteq> None"
  shows "tables_ok s"
  using assms unfolding tables_ok_def by blast

lemma tables_okD:
  assumes "tables_ok s"
  shows "watched s listenfd = Some \<lparr>data = listenfd, epollin = True, epollout = False\<rparr>" "fds s listenfd = None"
    and "fds s fd \<noteq> None \<Longrightarrow> watched s fd \<noteq> None"
  using assms unfolding tables_ok_def by blast+

named_theorems server_defs "the operations of the server on its state"

lemmas [server_defs] = load_def store_def ctl_add_def ctl_mod_def ctl_del_def
  w_epoll_add_ptr_in_def w_epoll_update_ptr_in_def w_epoll_update_ptr_inout_def w_epoll_remove_ptr_def
  sys_close_def DIE_def

lemma data_fd_conn:
  assumes "16 dvd p" shows "data_fd p \<noteq> listenfd"
proof
  assume "data_fd p = listenfd"
  then have "p mod 4294967296 = 4" by (simp add: data_fd_def listenfd_def)
  moreover have "(16::nat) dvd p mod 4294967296" using assms by (simp add: dvd_mod)
  ultimately show False by simp
qed

lemma data_fd_listen: "data_fd listenfd = listenfd"
  by (simp add: data_fd_def listenfd_def)

lemma wires_ok:
  assumes "server_ok s" "paired s fd p c i"
  obtains cl w where "fds s fd = Some cl" "wires s cl = Some w" "wire_of s fd = Some w"
  using assms by (force simp: server_ok_def clients_ok_def paired_def wire_of_def ran_def)

lemma server_ok_wires:
  assumes "server_ok s" "\<And>c. wires s c \<noteq> None \<Longrightarrow> f c \<noteq> None"
  shows "server_ok (s\<lparr>wires := f\<rparr>)"
  using assms unfolding server_ok_def tables_ok_def clients_ok_def paired_def by simp

lemma server_ok_set_wire: "server_ok s \<Longrightarrow> server_ok (set_wire fd w s)"
  by (auto simp: set_wire_def split: option.split intro: server_ok_wires)

lemma paired_set_wire [simp]: "paired (set_wire fd w s) fd' p c i = paired s fd' p c i"
  by (simp add: paired_def set_wire_def split: option.split)

lemma set_wire_simps [simp]:
  "conns (set_wire fd w s) = conns s" "watched (set_wire fd w s) = watched s"
  "fds (set_wire fd w s) = fds s" "backlog (set_wire fd w s) = backlog s"
  by (simp_all add: set_wire_def split: option.split)

text \<open>A connection and its interest may change as long as they still fit each other.\<close>

lemma server_ok_change:
  assumes "server_ok s" "paired s fd p c i"
    and "conn_ok c'" "sockfd c' = fd" "data i' = p" "epollin i'" "epollout i' \<longrightarrow> send_len c' \<noteq> None"
  shows "server_ok (s\<lparr>conns := (conns s)(p \<mapsto> c'), watched := (watched s)(fd \<mapsto> i')\<rparr>)" (is "server_ok ?s")
    and "paired (s\<lparr>conns := (conns s)(p \<mapsto> c'), watched := (watched s)(fd \<mapsto> i')\<rparr>) fd p c' i'"
proof -
  show new: "paired ?s fd p c' i'" using assms by (simp add: paired_def)
  have old: "paired ?s fd2 p2 c2 i2" if "paired s fd2 p2 c2 i2" "p2 \<noteq> p" for fd2 p2 c2 i2
  proof -
    from that assms(2) have "fd2 \<noteq> fd" by (auto simp: paired_def)
    with that show ?thesis by (simp add: paired_def)
  qed
  have "\<exists>i. paired ?s (sockfd c2) p2 c2 i" if "conns ?s p2 = Some c2" for p2 c2
  proof (cases "p2 = p")
    case True
    with that new assms(4) show ?thesis by auto
  next
    case False
    with that obtain i2 where "paired s (sockfd c2) p2 c2 i2" using server_ok_conn [OF assms(1)] by auto
    with old False show ?thesis by blast
  qed
  moreover have "\<exists>c. paired ?s fd2 (data i2) c i2" if "watched ?s fd2 = Some i2" "fd2 \<noteq> listenfd" for fd2 i2
  proof (cases "fd2 = fd")
    case True
    with that new assms(5) show ?thesis by auto
  next
    case False
    with that obtain c2 where c2: "paired s fd2 (data i2) c2 i2" using server_ok_watched [OF assms(1)] by auto
    with False assms(2) have "data i2 \<noteq> p" by (auto simp: paired_def)
    with old c2 show ?thesis by blast
  qed
  ultimately have "tables_ok ?s"
    using assms(1,2) tables_okD [of s] by (intro tables_okI) (auto simp: paired_def server_ok_def)
  moreover have "clients_ok ?s" using assms(1) by (simp add: server_ok_def clients_ok_def)
  ultimately show "server_ok ?s" by (simp add: server_ok_def)
qed

text \<open>What an event of one socket changes: its wire, its connection, its interest.\<close>

definition changes :: "server \<Rightarrow> nat \<Rightarrow> nat \<Rightarrow> wire \<Rightarrow> connection option \<Rightarrow> interest option \<Rightarrow> server \<Rightarrow> bool" where
  "changes s fd p w c i s' \<longleftrightarrow> conns s' = (conns s)(p := c) \<and> watched s' = (watched s)(fd := i)
     \<and> fds s' = (if c = None then (fds s)(fd := None) else fds s)
     \<and> backlog s' = backlog s \<and> wires s' = wires (set_wire fd w s)"

lemma remove_connection_ok:
  assumes "server_ok s" "paired s fd p c i"
  shows "\<exists>s'. remove_connection p s = Inr (STATE_CONNECTION_CLOSED, s') \<and> server_ok s'
    \<and> conns s' = (conns s)(p := None) \<and> fds s' = (fds s)(fd := None) \<and> watched s' = (watched s)(fd := None)
    \<and> wires s' = wires s \<and> backlog s' = backlog s"
proof -
  let ?s = "s\<lparr>conns := (conns s)(p := None), fds := (fds s)(fd := None), watched := (watched s)(fd := None)\<rparr>"
  have run: "remove_connection p s = Inr (STATE_CONNECTION_CLOSED, ?s)"
    using assms(2) by (simp add: remove_connection_def connection_remove_def server_defs paired_def)
  have old: "paired ?s fd2 p2 c2 i2" if "paired s fd2 p2 c2 i2" "p2 \<noteq> p" for fd2 p2 c2 i2
  proof -
    from that assms(2) have "fd2 \<noteq> fd" by (auto simp: paired_def)
    with that show ?thesis by (simp add: paired_def)
  qed
  have "\<exists>i. paired ?s (sockfd c2) p2 c2 i" if "conns ?s p2 = Some c2" for p2 c2
  proof -
    from that have "p2 \<noteq> p" "conns s p2 = Some c2" by (auto split: if_splits)
    with server_ok_conn [OF assms(1)] old show ?thesis by blast
  qed
  moreover have "\<exists>c. paired ?s fd2 (data i2) c i2" if "watched ?s fd2 = Some i2" "fd2 \<noteq> listenfd" for fd2 i2
  proof -
    from that have "fd2 \<noteq> fd" and w: "watched s fd2 = Some i2" by (auto split: if_splits)
    with that obtain c2 where c2: "paired s fd2 (data i2) c2 i2" using server_ok_watched [OF assms(1)] by auto
    with \<open>fd2 \<noteq> fd\<close> assms(2) have "data i2 \<noteq> p" by (auto simp: paired_def)
    with old c2 show ?thesis by blast
  qed
  ultimately have "tables_ok ?s"
    using assms tables_okD [of s] by (intro tables_okI) (auto simp: paired_def server_ok_def)
  moreover have "clients_ok ?s"
    using assms(1) by (auto simp: server_ok_def clients_ok_def inj_on_def dom_def ran_def)
  ultimately show ?thesis using run by (simp add: server_ok_def)
qed

section \<open>What an event does\<close>

text \<open>What \<^verbatim>\<open>receive_message\<close> gets, nothing when the connection is to be removed.\<close>

definition arriving :: "nat \<Rightarrow> server \<Rightarrow> byte list" where
  "arriving fd s =
     (if get_peer_address fd s < 0 then []
      else case sys_recv fd BUFSIZ s of Inr (Some bs, _) \<Rightarrow> bs | _ \<Rightarrow> [])"

lemma overlay_simps:
  "length bs \<le> length buf \<Longrightarrow> length (overlay bs buf) = length buf"
  "length bs \<le> length buf \<Longrightarrow> overlay (take (length bs) (overlay bs buf)) buf = overlay bs buf"
  "take (length bs) (overlay bs buf) = bs"
  by (simp_all add: overlay_def)

lemma set_wire_same: "wire_of s fd = Some w \<Longrightarrow> set_wire fd w s = s"
  by (auto simp: wire_of_def set_wire_def fun_upd_idem split: option.splits)

lemma sys_recv_result:
  assumes "wire_of s fd = Some w" "up w" "inbox w \<noteq> [] \<or> ended w"
  obtains (closed) r w' where "sys_recv fd BUFSIZ s = Inr (r, set_wire fd w' s)" "r = None \<or> r = Some []" "arriving fd s = []"
  | (data) bs w' where "sys_recv fd BUFSIZ s = Inr (Some bs, set_wire fd w' s)" "bs \<noteq> []" "length bs \<le> BUFSIZ"
      "arriving fd s = bs"
proof -
  have peer: "\<not> get_peer_address fd s < 0" using assms(1,2) by (simp add: get_peer_address_def)
  show ?thesis
  proof (cases "(\<exists>ls. recvs w = Fails # ls) \<or> inbox w = []")
    case True
    with assms have "\<exists>r w'. sys_recv fd BUFSIZ s = Inr (r, set_wire fd w' s) \<and> (r = None \<or> r = Some [])"
      by (auto simp: sys_recv_def split: list.split limit.split intro: set_wire_same [symmetric])
    with peer closed show ?thesis by (auto simp: arriving_def)
  next
    case False
    define k where "k = (case recvs w of AtMost m # _ \<Rightarrow> max 1 (min m BUFSIZ) | _ \<Rightarrow> BUFSIZ)"
    have k: "0 < k" "k \<le> BUFSIZ" by (auto simp: k_def BUFSIZ_def split: list.split limit.split)
    have "\<exists>w'. sys_recv fd BUFSIZ s = Inr (Some (take k (inbox w)), set_wire fd w' s)"
      using False assms(1) by (auto simp: sys_recv_def k_def Let_def split: list.split limit.split)
    with peer data [of "take k (inbox w)"] k False show ?thesis by (auto simp: arriving_def)
  qed
qed

lemma remove_after_wire:
  assumes "server_ok s" "paired s fd p c i"
  shows "\<exists>s'. remove_connection p (set_wire fd w s) = Inr (STATE_CONNECTION_CLOSED, s') \<and> server_ok s' \<and> changes s fd p w None None s'"
  using remove_connection_ok [of "set_wire fd w s" fd p c i] server_ok_set_wire [OF assms(1)] assms(2)
  by (auto simp: changes_def)

text \<open>A request either removes the connection, or cannot be printed, or is copied and awaits sending.\<close>

lemma handle_client_request_cases:
  assumes "server_ok s" "paired s fd p c i" "can_read fd s"
  defines "bs \<equiv> arriving fd s"
  obtains (closed) s' w where "bs = []" "handle_client_request p s = Inr s'" "server_ok s'" "changes s fd p w None None s'"
      "get_peer_address fd s < 0 \<or> (\<exists>r. sys_recv fd BUFSIZ s = Inr (r, set_wire fd w s))"
  | (unprintable) "bs \<noteq> []" "0 \<notin> set (overlay bs (recv_buffer c))" "handle_client_request p s = Inl Undefined"
  | (received) s' c' w where "bs \<noteq> []" "0 \<in> set (overlay bs (recv_buffer c))" "handle_client_request p s = Inr s'"
      "server_ok s'" "paired s' fd p c' \<lparr>data = p, epollin = True, epollout = True\<rparr>"
      "send_len c' = Some (length bs)" "take (length bs) (send_buffer c') = bs"
      "changes s fd p w (Some c') (Some \<lparr>data = p, epollin = True, epollout = True\<rparr>) s'" "recv_buffer c' = overlay bs (recv_buffer c)"
      "sys_recv fd BUFSIZ s = Inr (Some bs, set_wire fd w s)"
proof -
  obtain cl w where w: "wire_of s fd = Some w" using wires_ok [OF assms(1,2)] by blast
  have p: "conns s p = Some c" "sockfd c = fd" "fd \<noteq> listenfd" using assms(2) by (auto simp: paired_def)
  show ?thesis
  proof (cases "up w")
    case False
    then have "get_peer_address fd s < 0" using w by (simp add: get_peer_address_def)
    with remove_after_wire [OF assms(1,2), of w] p closed [of _ w] set_wire_same [OF w] show ?thesis
      by (auto simp: handle_client_request_def receive_message_def load_def bs_def arriving_def)
  next
    case True
    have peer: "\<not> get_peer_address fd s < 0" using True w by (simp add: get_peer_address_def)
    have ready: "inbox w \<noteq> [] \<or> ended w" using assms(3) p(3) w True by (simp add: can_read_def)
    show ?thesis
      using w True ready
    proof (cases rule: sys_recv_result)
      case closed: (closed r w')
      with remove_after_wire [OF assms(1,2), of w'] p peer that(1) show ?thesis
        by (fastforce simp: handle_client_request_def receive_message_def load_def bs_def)
    next
      case data: (data bs' w')
      show ?thesis
      proof (cases "0 \<in> set (overlay bs (recv_buffer c))")
        case False
        with data p peer that(2) show ?thesis
          by (simp add: handle_client_request_def receive_message_def load_def bs_def print_string_def)
      next
        case True
        have buf: "length (recv_buffer c) = BUFSIZ" "send_buffer c = recv_buffer c"
          using assms(2) by (auto simp: paired_def conn_ok_def)
        let ?c = "c\<lparr>recv_buffer := overlay bs (recv_buffer c), recv_len := Some (length bs),
          state := Some STATE_DATA_RECEIVED, send_len := Some (length bs), send_buffer := overlay bs (recv_buffer c)\<rparr>"
        let ?i = "\<lparr>data = p, epollin = True, epollout = True\<rparr>"
        let ?t = "set_wire fd w' s"
        let ?s = "?t\<lparr>conns := (conns ?t)(p \<mapsto> ?c), watched := (watched ?t)(fd \<mapsto> ?i)\<rparr>"
        have bs: "bs = bs'" "bs \<noteq> []" "length bs \<le> BUFSIZ" using data by (auto simp: bs_def)
        have "handle_client_request p s = Inr ?s"
          using data p peer True buf bs assms(2)
          by (simp add: handle_client_request_def receive_message_def load_def store_def print_string_def
              connection_copy_buffers_def overlay_simps w_epoll_update_ptr_inout_def ctl_mod_def DIE_def paired_def)
        moreover have "conn_ok ?c" using buf bs True assms(2)
          by (simp add: conn_ok_def overlay_simps)
        moreover have "server_ok ?t" "paired ?t fd p c i" using assms(1,2) server_ok_set_wire by auto
        ultimately show ?thesis
          using that(3) [of ?s ?c w'] server_ok_change [of ?t fd p c i ?c ?i] bs True data p
          by (simp add: overlay_simps changes_def)
      qed
    qed
  qed
qed

lemma sys_send_all:
  "wire_of s fd = Some w \<Longrightarrow> sends w = [] \<Longrightarrow>
   sys_send fd bs s = (int (length bs), set_wire fd (w\<lparr>outbox := outbox w @ bs, sends := []\<rparr>) s)"
  by (simp add: sys_send_def)

lemma sys_send_wire:
  "wire_of s fd = Some w \<Longrightarrow> \<exists>m w'. sys_send fd bs s = (m, set_wire fd w' s)"
  by (auto simp: sys_send_def Let_def split: list.split limit.split)

lemma send_message_ok:
  assumes "server_ok s" "paired s fd p c i" "epollout i"
  obtains (closed) s' m w where "send_message p s = Inr (STATE_CONNECTION_CLOSED, s')" "server_ok s'"
      "get_peer_address fd s < 0 \<or> sys_send fd (take (the (send_len c)) (send_buffer c)) s = (m, set_wire fd w s) \<and> m \<le> 0"
  | (sent) s' m w where "send_message p s = Inr (STATE_DATA_SENT, s')" "server_ok s'"
      "changes s fd p w (Some (c\<lparr>state := Some STATE_DATA_SENT\<rparr>)) (Some \<lparr>data = p, epollin = True, epollout = False\<rparr>) s'"
      "sys_send fd (take (the (send_len c)) (send_buffer c)) s = (m, set_wire fd w s)"
proof -
  obtain cl w where w: "wire_of s fd = Some w" using wires_ok [OF assms(1,2)] by blast
  have p: "conns s p = Some c" "sockfd c = fd" "conn_ok c" "0 \<in> set (send_buffer c)" using assms(2) by (auto simp: paired_def conn_ok_def)
  obtain n where n: "send_len c = Some n" using assms(2,3) by (auto simp: paired_def)
  show ?thesis
  proof (cases "get_peer_address fd s < 0")
    case True
    with remove_connection_ok [OF assms(1,2)] p that(1) show ?thesis
      by (auto simp: send_message_def load_def)
  next
    case peer: False
    obtain m w' where snd: "sys_send fd (take n (send_buffer c)) s = (m, set_wire fd w' s)"
      using sys_send_wire [OF w] by blast
    show ?thesis
    proof (cases "m \<le> 0")
      case True
      with remove_after_wire [OF assms(1,2), of w'] p peer n snd that(1) show ?thesis
        by (cases "m < 0") (auto simp: send_message_def load_def)
    next
      case False
      let ?c = "c\<lparr>state := Some STATE_DATA_SENT\<rparr>"
      let ?i = "\<lparr>data = p, epollin = True, epollout = False\<rparr>"
      let ?t = "set_wire fd w' s"
      let ?s = "?t\<lparr>conns := (conns ?t)(p \<mapsto> ?c), watched := (watched ?t)(fd \<mapsto> ?i)\<rparr>"
      have "send_message p s = Inr (STATE_DATA_SENT, ?s)"
        using False p peer n snd assms(2)
        by (simp add: send_message_def load_def store_def print_string_def w_epoll_update_ptr_in_def ctl_mod_def
            DIE_def paired_def)
      moreover have "conn_ok ?c" using p(3) by (simp add: conn_ok_def)
      moreover have "server_ok ?t" "paired ?t fd p c i" using assms(1,2) server_ok_set_wire by auto
      ultimately show ?thesis
        using that(2) [of ?s w' m] server_ok_change [of ?t fd p c i ?c ?i] p n snd by (simp add: changes_def)
    qed
  qed
qed

lemma send_message_returns:
  assumes "server_ok s" "paired s fd p c i" "epollout i"
  shows "\<exists>r s'. send_message p s = Inr (r, s') \<and> server_ok s'"
  using assms by (rule send_message_ok) auto

lemma handle_new_connection_ok:
  assumes "server_ok s" "backlog s = c # cs" "may_grant fd p s"
  shows "\<exists>s'. handle_new_connection fd p s = Inr s' \<and> server_ok s' \<and> wires s' = wires s \<and> backlog s' = cs
    \<and> fds s' = (fds s)(fd \<mapsto> c) \<and> paired s' fd p (connection_create fd) \<lparr>data = p, epollin = True, epollout = False\<rparr>
    \<and> conns s' = (conns s)(p \<mapsto> connection_create fd)
    \<and> watched s' = (watched s)(fd \<mapsto> \<lparr>data = p, epollin = True, epollout = False\<rparr>)"
proof -
  let ?i = "\<lparr>data = p, epollin = True, epollout = False\<rparr>" and ?c = "connection_create fd"
  let ?s = "s\<lparr>backlog := cs, fds := (fds s)(fd \<mapsto> c), conns := (conns s)(p \<mapsto> ?c), watched := (watched s)(fd \<mapsto> ?i)\<rparr>"
  have g: "fd \<noteq> listenfd" "fds s fd = None" "conns s p = None" "0 < p" "16 dvd p"
    using assms(3) by (auto simp: may_grant_def)
  have un: "watched s fd = None"
  proof (cases "watched s fd")
    case (Some j)
    with server_ok_watched [OF assms(1) _ g(1)] g(2) show ?thesis by (auto simp: paired_def)
  qed simp
  have run: "handle_new_connection fd p s = Inr ?s"
    using assms(2) un by (simp add: handle_new_connection_def sys_accept_def server_defs)
  have new: "paired ?s fd p ?c ?i"
    using g by (auto simp: paired_def connection_create_def conn_ok_def BUFSIZ_def)
  have old: "paired ?s fd2 p2 c2 i2" if "paired s fd2 p2 c2 i2" for fd2 p2 c2 i2
    using that g by (auto simp: paired_def)
  have "\<exists>i. paired ?s (sockfd c2) p2 c2 i" if "conns ?s p2 = Some c2" for p2 c2
  proof (cases "p2 = p")
    case True
    with that have "c2 = ?c" by simp
    with True new show ?thesis by (auto simp: connection_create_def)
  next
    case False
    with that obtain i2 where "paired s (sockfd c2) p2 c2 i2" using server_ok_conn [OF assms(1)] by auto
    with old show ?thesis by blast
  qed
  moreover have "\<exists>c. paired ?s fd2 (data i2) c i2" if "watched ?s fd2 = Some i2" "fd2 \<noteq> listenfd" for fd2 i2
  proof (cases "fd2 = fd")
    case True
    with that new show ?thesis by auto
  next
    case False
    with that obtain c2 where "paired s fd2 (data i2) c2 i2" using server_ok_watched [OF assms(1)] by auto
    with old show ?thesis by blast
  qed
  ultimately have "tables_ok ?s"
    using assms g tables_okD [of s] by (intro tables_okI) (auto simp: server_ok_def)
  moreover have "clients_ok ?s"
    using assms g by (auto simp: server_ok_def clients_ok_def inj_on_def ran_def dom_def)
  ultimately show ?thesis using run new by (simp add: server_ok_def)
qed

text \<open>
  The events that the server does not survive: the connection was closed while the same event also says that
  it can be written, or what has come leaves no zero in the buffer that is printed.
\<close>

fun faulty :: "action \<Rightarrow> server \<Rightarrow> bool" where
  "faulty (Event fd inb outb new_fd new_addr) s =
     (if \<not> inb \<or> fd = listenfd then False
      else case watched s fd of
             None \<Rightarrow> False
           | Some i \<Rightarrow>
               (case conns s (data i) of
                  None \<Rightarrow> False
                | Some c \<Rightarrow>
                    if arriving fd s = [] then outb
                    else 0 \<notin> set (overlay (arriving fd s) (recv_buffer c))))"
| "faulty a s = False"

lemma server_ok_start: "server_ok server_start"
  unfolding server_ok_def
proof
  show "tables_ok server_start"
    by (rule tables_okI) (auto simp: server_start_def w_epoll_add_fd_in_def ctl_add_def split: if_splits)
  show "clients_ok server_start"
    by (simp add: clients_ok_def server_start_def w_epoll_add_fd_in_def ctl_add_def)
qed

lemma server_ok_client_step: "server_ok s \<Longrightarrow> server_ok (client_step c f s)"
  by (auto simp: client_step_def split: option.split intro!: server_ok_wires)

lemma server_ok_connects:
  assumes "server_ok s" "wires s c = None"
  shows "server_ok (s\<lparr>backlog := backlog s @ [c], wires := (wires s)(c \<mapsto> w)\<rparr>)"
proof -
  have "tables_ok s" "clients_ok s" using assms(1) by (auto simp: server_ok_def)
  then have "tables_ok (s\<lparr>backlog := backlog s @ [c], wires := (wires s)(c \<mapsto> w)\<rparr>)"
    unfolding tables_ok_def paired_def by simp
  moreover have "clients_ok (s\<lparr>backlog := backlog s @ [c], wires := (wires s)(c \<mapsto> w)\<rparr>)"
    using \<open>clients_ok s\<close> assms(2) by (auto simp: clients_ok_def)
  ultimately show ?thesis by (simp add: server_ok_def)
qed

lemma serve_listen:
  assumes "server_ok s" "possible (Event listenfd inb outb fd p) s"
  shows "\<exists>s'. act (Event listenfd inb outb fd p) s = Inr s' \<and> server_ok s'"
proof -
  have "watched s listenfd = Some \<lparr>data = listenfd, epollin = True, epollout = False\<rparr>"
    using assms(1) by (auto simp: server_ok_def tables_ok_def)
  moreover have g: "may_grant fd p s" using assms(2) by (simp split: option.splits)
  moreover have "\<exists>s'. handle_new_connection fd p s = Inr s' \<and> server_ok s'" if "backlog s = x # xs" for x xs
    using handle_new_connection_ok [OF assms(1) that g] by blast
  ultimately show ?thesis
    using assms by (cases "backlog s") (auto simp: serve_def data_fd_listen can_read_def)
qed

lemma serve_connection:
  assumes "server_ok s" "possible (Event fd inb outb a b) s" "fd \<noteq> listenfd"
  shows "if faulty (Event fd inb outb a b) s then act (Event fd inb outb a b) s = Inl Undefined
    else \<exists>s'. act (Event fd inb outb a b) s = Inr s' \<and> server_ok s'"
proof -
  from assms(2) obtain i where i: "watched s fd = Some i" "inb \<longrightarrow> can_read fd s" "outb \<longrightarrow> epollout i"
    by (auto split: option.splits)
  obtain c where c: "paired s fd (data i) c i" using server_ok_watched [OF assms(1) i(1) assms(3)] by blast
  then have conn: "conns s (data i) = Some c" "data_fd (data i) \<noteq> listenfd" using data_fd_conn by (auto simp: paired_def)
  show ?thesis
  proof (cases inb)
    case False
    with send_message_returns [OF assms(1) c] i conn assms(1) show ?thesis by (auto simp: serve_def)
  next
    case True
    with i have "can_read fd s" by simp
    from assms(1) c this show ?thesis
    proof (cases rule: handle_client_request_cases)
      case (closed s' w)
      then have "send_message (data i) s' = Inl Undefined" by (simp add: send_message_def load_def changes_def)
      with closed i conn True assms(3) show ?thesis by (auto simp: serve_def)
    next
      case unprintable
      with i conn True assms(3) show ?thesis by (simp add: serve_def)
    next
      case (received s' c' w)
      with i conn True assms(3) show ?thesis
        using send_message_returns [OF received(4,5)] by (auto simp: serve_def)
    qed
  qed
qed

lemma act_ok:
  assumes "server_ok s" "possible a s"
  shows "if faulty a s then act a s = Inl Undefined else \<exists>s'. act a s = Inr s' \<and> server_ok s'"
proof (cases a)
  case (Event fd inb outb nfd p)
  then show ?thesis
    using serve_connection [OF assms(1)] serve_listen [OF assms(1)] assms(2)
    by (cases "fd = listenfd") (simp_all del: act.simps possible.simps)
qed (use assms in \<open>auto intro: server_ok_client_step server_ok_connects\<close>)

lemma schedule_keeps:
  assumes "P s" "\<And>a s. P s \<Longrightarrow> ok a s \<Longrightarrow> \<exists>s'. act a s = Inr s' \<and> P s'"
  shows "\<exists>s'. schedule ok as s = Inr s' \<and> P s'"
  using assms(1)
proof (induction "as" arbitrary: s)
  case (Cons a "as")
  show ?case
  proof (cases "ok a s")
    case True
    with assms(2) [OF Cons.prems] Cons.IH show ?thesis by fastforce
  qed (use Cons in simp)
qed simp

text \<open>C6: The server is sound in the sense of a type system.  However clients connect, send, end and are
  reset, and whatever events are reported, as long as no event is one of the two faulty kinds the
  server goes on and its tables stay well formed; a faulty event is an access without a meaning,
  and no other action is.  So no \<^verbatim>\<open>DIE\<close> after \<^verbatim>\<open>epoll_ctl\<close> is reached, no \<^verbatim>\<open>recv\<close> or
  \<^verbatim>\<open>accept\<close> blocks the loop, no connection is freed while it is watched and no socket leaks.\<close>

theorem server_type:
  "\<exists>s. schedule (\<lambda>a s. possible a s \<and> \<not> faulty a s) as server_start = Inr s \<and> server_ok s
     \<and> (if possible a s
        then if faulty a s then act a s = Inl Undefined else \<exists>s'. act a s = Inr s' \<and> server_ok s'
        else True)"
proof -
  have "\<exists>s. schedule (\<lambda>a s. possible a s \<and> \<not> faulty a s) as server_start = Inr s \<and> server_ok s"
    by (rule schedule_keeps [where P = server_ok, OF server_ok_start]) (use act_ok in fastforce)
  then obtain s where s: "schedule (\<lambda>a s. possible a s \<and> \<not> faulty a s) as server_start = Inr s" "server_ok s" by blast
  with act_ok [of s a] show ?thesis by (intro exI [of _ s]) simp
qed

section \<open>Clients that wait for their echo\<close>

text \<open>
  A polite client sends a message that leaves room in the buffer, and the next one or the end of
  its side only after all was echoed; its messages come and go in one piece.
\<close>

fun polite :: "action \<Rightarrow> server \<Rightarrow> bool" where
  "polite (Connects c rs ss) s \<longleftrightarrow> possible (Connects c rs ss) s \<and> rs = [] \<and> ss = []"
| "polite (Says c bs) s \<longleftrightarrow> possible (Says c bs) s \<and> 0 < length bs \<and> length bs < BUFSIZ
     \<and> (case wires s c of None \<Rightarrow> False | Some w \<Rightarrow> outbox w = said w)"
| "polite (Hangs_up c) s \<longleftrightarrow> (case wires s c of None \<Rightarrow> False | Some w \<Rightarrow> outbox w = said w)"
| "polite (Resets c) s \<longleftrightarrow> False"
| "polite (Event fd inb outb new_fd new_addr) s \<longleftrightarrow> possible (Event fd inb outb new_fd new_addr) s"

definition wire_ok :: "wire \<Rightarrow> bool" where
  "wire_ok w \<longleftrightarrow> up w \<and> recvs w = [] \<and> sends w = []
     \<and> (\<exists>m. said w = outbox w @ m \<and> length m < BUFSIZ \<and> (ended w \<longrightarrow> m = []))"

text \<open>Where the bytes are that a client is still owed: not yet read, or in the buffer to be sent.\<close>

definition owed :: "connection \<Rightarrow> interest \<Rightarrow> wire \<Rightarrow> bool" where
  "owed c i w \<longleftrightarrow> last (recv_buffer c) = 0
     \<and> (if epollout i then inbox w = [] \<and> \<not> ended w \<and> said w = outbox w @ take (the (send_len c)) (send_buffer c)
        else said w = outbox w @ inbox w)"

definition polite_ok :: "server \<Rightarrow> bool" where
  "polite_ok s \<longleftrightarrow> server_ok s
     \<and> (\<forall>c w. wires s c = Some w \<longrightarrow> wire_ok w)
     \<and> (\<forall>c w. wires s c = Some w \<longrightarrow> c \<in> set (backlog s) \<longrightarrow> said w = outbox w @ inbox w)
     \<and> (\<forall>c w. wires s c = Some w \<longrightarrow> c \<notin> set (backlog s) \<longrightarrow> c \<notin> ran (fds s) \<longrightarrow> ended w \<and> inbox w = [])
     \<and> (\<forall>fd p cn i c w. paired s fd p cn i \<longrightarrow> fds s fd = Some c \<longrightarrow> wires s c = Some w \<longrightarrow> owed cn i w)"

lemma polite_okI:
  assumes "server_ok s" "\<And>c w. wires s c = Some w \<Longrightarrow> wire_ok w"
    and "\<And>c w. wires s c = Some w \<Longrightarrow> c \<in> set (backlog s) \<Longrightarrow> said w = outbox w @ inbox w"
    and "\<And>c w. wires s c = Some w \<Longrightarrow> c \<notin> set (backlog s) \<Longrightarrow> c \<notin> ran (fds s) \<Longrightarrow> ended w \<and> inbox w = []"
    and "\<And>fd p cn i c w. paired s fd p cn i \<Longrightarrow> fds s fd = Some c \<Longrightarrow> wires s c = Some w \<Longrightarrow> owed cn i w"
  shows "polite_ok s"
  unfolding polite_ok_def using assms by blast

lemma polite_okD:
  assumes "polite_ok s"
  shows "server_ok s" "wires s c = Some w \<Longrightarrow> wire_ok w"
    and "wires s c = Some w \<Longrightarrow> c \<in> set (backlog s) \<Longrightarrow> said w = outbox w @ inbox w"
    and "wires s c = Some w \<Longrightarrow> c \<notin> set (backlog s) \<Longrightarrow> c \<notin> ran (fds s) \<Longrightarrow> ended w \<and> inbox w = []"
    and "paired s fd p cn i \<Longrightarrow> fds s fd = Some c \<Longrightarrow> wires s c = Some w \<Longrightarrow> owed cn i w"
  using assms unfolding polite_ok_def by blast+

lemma polite_ok_start: "polite_ok server_start"
  by (rule polite_okI [OF server_ok_start])
    (simp_all add: server_start_def w_epoll_add_fd_in_def ctl_add_def)

text \<open>A client acts on a wire on which nothing is owed.\<close>

lemma polite_ok_client_step:
  assumes "polite_ok s" "wires s c = Some w" "outbox w = said w"
    and "wire_ok (f w)" "said (f w) = outbox (f w) @ inbox (f w)" "ended w \<longrightarrow> ended (f w) \<and> inbox (f w) = []"
  shows "polite_ok (client_step c f s)"
proof -
  note ok = polite_okD [OF assms(1)]
  let ?s = "s\<lparr>wires := (wires s)(c \<mapsto> f w)\<rparr>"
  have "server_ok ?s" by (rule server_ok_wires [OF ok(1)]) auto
  moreover have "owed cn i w2" if "paired ?s fd p cn i" "fds ?s fd = Some c2" "wires ?s c2 = Some w2" for fd p cn i c2 w2
  proof (cases "c2 = c")
    case True
    have "paired s fd p cn i" using that(1) by (simp add: paired_def)
    moreover from this ok(5) [OF this, of c w] that True assms(2) have "owed cn i w" by simp
    moreover have "take n (send_buffer cn) \<noteq> []" if "send_len cn = Some n" for n
      using \<open>paired s fd p cn i\<close> that by (auto simp: paired_def conn_ok_def)
    ultimately have "\<not> epollout i" "last (recv_buffer cn) = 0"
      using assms(3) by (auto simp: owed_def paired_def split: if_splits)
    with True that(3) assms(5) show ?thesis by (auto simp: owed_def)
  next
    case False
    with that ok(5) [of fd p cn i c2 w2] show ?thesis by (simp add: paired_def)
  qed
  ultimately have "polite_ok ?s"
    by (intro polite_okI) (use ok assms in \<open>auto split: if_splits\<close>)
  with assms(2) show ?thesis by (simp add: client_step_def)
qed

lemma changes_wires:
  assumes "changes s fd p w cn i s'" "fds s fd = Some c"
  shows "wires s' = (wires s)(c \<mapsto> w)"
  using assms by (simp add: changes_def set_wire_def)

lemma other_pairs:
  assumes "changes s fd p w cn i s'" "paired s fd p c0 i0" "paired s' fd2 p2 c2 i2" "fd2 \<noteq> fd"
    and "\<And>c'. cn = Some c' \<Longrightarrow> sockfd c' = fd"
  shows "paired s fd2 p2 c2 i2"
  using assms by (auto simp: changes_def paired_def split: if_splits)

lemma polite_ok_changes:
  assumes "polite_ok s" "paired s fd p c0 i0" "fds s fd = Some c" "server_ok s'" "changes s fd p w cn i s'" "wire_ok w"
    and "cn = None \<Longrightarrow> ended w \<and> inbox w = []"
    and "\<And>cn'. cn = Some cn' \<Longrightarrow> sockfd cn' = fd \<and> (\<exists>i'. i = Some i' \<and> owed cn' i' w)"
  shows "polite_ok s'"
proof (rule polite_okI [OF assms(4)])
  note ok = polite_okD [OF assms(1)]
  have w: "wires s' = (wires s)(c \<mapsto> w)" by (rule changes_wires [OF assms(5,3)])
  have b: "backlog s' = backlog s" using assms(5) by (simp add: changes_def)
  have inj: "fd2 = fd" if "fds s fd2 = Some c" for fd2
    using ok(1) that assms(3) by (auto simp: server_ok_def clients_ok_def inj_on_def dom_def)
  have c: "c \<notin> set (backlog s)" using ok(1) assms(3) by (auto simp: server_ok_def clients_ok_def ran_def)
  fix d v
  assume v: "wires s' d = Some v"
  show "wire_ok v" using v w ok(2) assms(6) by (auto split: if_splits)
  show "said v = outbox v @ inbox v" if "d \<in> set (backlog s')"
    using that v w b c ok(3) by (auto split: if_splits)
  show "ended v \<and> inbox v = []" if "d \<notin> set (backlog s')" "d \<notin> ran (fds s')"
  proof (cases "d = c")
    case True
    with that assms(3,5) have "cn = None" by (auto simp: changes_def ran_def split: if_splits)
    with assms(7) True v w show ?thesis by simp
  next
    case False
    have "d \<notin> ran (fds s)"
    proof
      assume "d \<in> ran (fds s)"
      then obtain fd2 where fd2: "fds s fd2 = Some d" by (auto simp: ran_def)
      with assms(3) False have "fd2 \<noteq> fd" by auto
      with fd2 assms(5) have "fds s' fd2 = Some d" by (simp add: changes_def)
      with that(2) show False by (auto simp: ran_def)
    qed
    with False that v w b ok(4) show ?thesis by simp
  qed
  show "owed c2 i2 v" if pr: "paired s' fd2 p2 c2 i2" "fds s' fd2 = Some d" for fd2 p2 c2 i2
  proof (cases "fd2 = fd")
    case True
    with pr assms(3,5) have "cn \<noteq> None" and d: "d = c" by (auto simp: changes_def split: if_splits)
    then obtain cn' i' where n: "cn = Some cn'" "sockfd cn' = fd" "i = Some i'" "owed cn' i' w" using assms(8) by blast
    from pr(1) True n assms(5) have "i2 = i'" by (simp add: changes_def paired_def)
    have "conns s' p2 = Some c2" "watched s' fd = Some i2" "sockfd c2 = fd" "data i2 = p2" using pr(1) True by (auto simp: paired_def)
    moreover obtain i3 where "paired s' (sockfd cn') p cn' i3"
      using server_ok_conn [OF assms(4), of p cn'] n assms(5) by (auto simp: changes_def)
    ultimately have "p2 = p" using n by (simp add: paired_def)
    with \<open>conns s' p2 = Some c2\<close> n assms(5) have "c2 = cn'" by (simp add: changes_def)
    with n d v w \<open>i2 = i'\<close> show ?thesis by simp
  next
    case False
    then have "paired s fd2 p2 c2 i2" using other_pairs [OF assms(5,2) pr(1)] assms(8) by blast
    moreover have "fds s fd2 = Some d" using pr(2) False assms(5) by (simp add: changes_def split: if_splits)
    moreover from this inj False have "d \<noteq> c" by blast
    ultimately show ?thesis using ok(5) v w by simp
  qed
qed

lemma polite_receive:
  assumes ok: "polite_ok s" and pr: "paired s fd p cn i" and read: "can_read fd s"
    and c: "fds s fd = Some c" "wires s c = Some w"
  obtains (ends) s' where "handle_client_request p s = Inr s'" "polite_ok s'" "epollout i = False"
      "watched s' fd = None" "wires s' = wires s" "outbox w = said w"
  | (got) s' c' w' where "handle_client_request p s = Inr s'" "polite_ok s'" "epollout i = False" "fds s' = fds s"
      "paired s' fd p c' \<lparr>data = p, epollin = True, epollout = True\<rparr>" "wires s' c = Some w'" "said w' = said w"
proof -
  note okD = polite_okD [OF ok]
  have c: "fds s fd = Some c" "wires s c = Some w" "wire_of s fd = Some w" using c by (simp_all add: wire_of_def)
  have fd: "fd \<noteq> listenfd" using pr by (simp add: paired_def)
  note w = okD(2) [OF c(2)] and o = okD(5) [OF pr c(1,2)]
  have "inbox w \<noteq> [] \<or> ended w" using read fd c(3) w by (simp add: can_read_def wire_ok_def)
  with o have no: "\<not> epollout i" by (auto simp: owed_def)
  then have said: "said w = outbox w @ inbox w" using o by (simp add: owed_def)
  have len: "length (inbox w) < BUFSIZ" "ended w \<longrightarrow> inbox w = []" using w said by (auto simp: wire_ok_def)
  have peer: "\<not> get_peer_address fd s < 0" using c(3) w by (simp add: get_peer_address_def wire_ok_def)
  have buf: "length (recv_buffer cn) = BUFSIZ" "last (recv_buffer cn) = 0" "sockfd cn = fd"
    using pr o by (auto simp: paired_def conn_ok_def owed_def)
  have over: "last (overlay (inbox w) (recv_buffer cn)) = 0" "overlay (inbox w) (recv_buffer cn) \<noteq> []"
    using buf len by (auto simp: overlay_def last_append)
  from okD(1) pr read show ?thesis
  proof (cases rule: handle_client_request_cases)
    case (closed s' w')
    with peer obtain r where r: "sys_recv fd BUFSIZ s = Inr (r, set_wire fd w' s)" by blast
    have inb: "inbox w = []"
    proof (rule ccontr)
      assume "inbox w \<noteq> []"
      with c(3) w peer have "arriving fd s \<noteq> []"
        by (auto simp: arriving_def sys_recv_def wire_ok_def BUFSIZ_def)
      with closed(1) show False by simp
    qed
    with \<open>inbox w \<noteq> [] \<or> ended w\<close> have e: "ended w" by simp
    have "set_wire fd w' s = s"
      using r inb e c(3) w by (simp add: sys_recv_def wire_ok_def)
    then have "w' = w" using c(1,2) by (auto simp: set_wire_def dest!: arg_cong [where f = "\<lambda>s. wires s c"])
    with polite_ok_changes [OF ok pr c(1) closed(3,4)] w e inb have "polite_ok s'" by simp
    moreover have "wires s' = wires s" using closed(4) c \<open>w' = w\<close> changes_wires by (metis fun_upd_triv)
    moreover have "watched s' fd = None" using closed(4) by (simp add: changes_def)
    moreover have "outbox w = said w" using said inb by simp
    ultimately show ?thesis using ends closed(2) no by blast
  next
    case unprintable
    then have "arriving fd s = inbox w"
      using c(3) w peer len by (auto simp: arriving_def sys_recv_def wire_ok_def split: if_splits)
    with unprintable(2) over show ?thesis by (metis last_in_set)
  next
    case (received s' c' w')
    have inb: "inbox w \<noteq> []" "arriving fd s = inbox w" "w' = w\<lparr>inbox := []\<rparr>"
    proof -
      show 1: "inbox w \<noteq> []" using received(1) c(3) w peer by (auto simp: arriving_def sys_recv_def wire_ok_def split: if_splits)
      then show 2: "arriving fd s = inbox w"
        using c(3) w peer len by (auto simp: arriving_def sys_recv_def wire_ok_def)
      have rs: "w\<lparr>inbox := [], recvs := []\<rparr> = w\<lparr>inbox := []\<rparr>" using w by (simp add: wire_ok_def)
      have "set_wire fd w' s = set_wire fd (w\<lparr>inbox := [], recvs := []\<rparr>) s"
        using received(10) 1 c(3) w len by (simp add: sys_recv_def wire_ok_def)
      then show "w' = w\<lparr>inbox := []\<rparr>"
        using c(1) rs by (auto simp: set_wire_def dest!: arg_cong [where f = "\<lambda>s. wires s c"])
    qed
    have "sockfd c' = fd" using received(5) by (simp add: paired_def)
    moreover have "owed c' \<lparr>data = p, epollin = True, epollout = True\<rparr> w'"
      using received inb said over len by (auto simp: owed_def)
    moreover have "wire_ok w'" using w inb by (simp add: wire_ok_def)
    ultimately have "polite_ok s'" using polite_ok_changes [OF ok pr c(1) received(4,8)] by simp
    moreover have "wires s' = (wires s)(c \<mapsto> w')" by (rule changes_wires [OF received(8) c(1)])
    moreover from this have "wires s' c = Some w'" by simp
    moreover have "fds s' = fds s" using received(8) by (simp add: changes_def)
    ultimately show ?thesis using got [of s' c' w'] received(3,5) inb(3) no by simp
  qed
qed

lemma polite_send:
  assumes ok: "polite_ok s" and pr: "paired s fd p cn i" and out: "epollout i"
    and c: "fds s fd = Some c" "wires s c = Some w"
  shows "\<exists>s' w'. send_message p s = Inr (STATE_DATA_SENT, s') \<and> polite_ok s'
    \<and> wires s' c = Some w' \<and> outbox w' = said w' \<and> said w' = said w"
proof -
  note okD = polite_okD [OF ok]
  note w = okD(2) [OF c(2)] and o = okD(5) [OF pr c]
  have wo: "wire_of s fd = Some w" using c by (simp add: wire_of_def)
  have peer: "\<not> get_peer_address fd s < 0" using wo w by (simp add: get_peer_address_def wire_ok_def)
  obtain n where n: "send_len cn = Some n" "0 < n" "length (send_buffer cn) = BUFSIZ"
    using pr out by (auto simp: paired_def conn_ok_def)
  have b: "0 < BUFSIZ" by (simp add: BUFSIZ_def)
  let ?m = "take n (send_buffer cn)"
  have m: "?m \<noteq> []" using n b by auto
  have said: "said w = outbox w @ ?m" "inbox w = []" "\<not> ended w" "last (recv_buffer cn) = 0" using o out n by (auto simp: owed_def)
  have snd: "sys_send fd ?m s = (int (length ?m), set_wire fd (w\<lparr>outbox := outbox w @ ?m, sends := []\<rparr>) s)"
    by (rule sys_send_all [OF wo]) (use w in \<open>simp add: wire_ok_def\<close>)
  from okD(1) pr out show ?thesis
  proof (cases rule: send_message_ok)
    case (closed s' m' w')
    with peer snd n m b show ?thesis by (auto simp: min_def split: if_splits)
  next
    case (sent s' m' w')
    have eq: "set_wire fd w' s = set_wire fd (w\<lparr>outbox := outbox w @ ?m, sends := []\<rparr>) s"
      using sent(4) snd n by simp
    then have w': "w' = w\<lparr>outbox := outbox w @ ?m, sends := []\<rparr>"
      using c by (auto simp: set_wire_def dest!: arg_cong [where f = "\<lambda>s. wires s c"])
    moreover have "wires s' = (wires s)(c \<mapsto> w')" by (rule changes_wires [OF sent(3) c(1)])
    moreover have "polite_ok s'"
      by (rule polite_ok_changes [OF ok pr c(1) sent(2,3)])
        (use w w' said pr in \<open>auto simp: wire_ok_def owed_def paired_def\<close>)
    ultimately show ?thesis using sent(1) said by auto
  qed
qed

lemma polite_connection_event:
  assumes ok: "polite_ok s" and pos: "possible (Event fd inb outb a b) s" and fd: "fd \<noteq> listenfd"
  shows "\<exists>s'. act (Event fd inb outb a b) s = Inr s' \<and> polite_ok s'"
proof -
  note okD = polite_okD [OF ok]
  from pos obtain i where i: "watched s fd = Some i" "inb \<longrightarrow> can_read fd s" "outb \<longrightarrow> epollout i"
    by (auto split: option.splits)
  obtain cn where pr: "paired s fd (data i) cn i" using server_ok_watched [OF okD(1) i(1) fd] by blast
  have d: "data_fd (data i) \<noteq> listenfd" using pr data_fd_conn by (auto simp: paired_def)
  obtain c w where c: "fds s fd = Some c" "wires s c = Some w" using wires_ok [OF okD(1) pr] by blast
  show ?thesis
  proof (cases inb)
    case True
    with i have "can_read fd s" by simp
    from ok pr this c show ?thesis
      by (rule polite_receive) (use i d True in \<open>auto simp: serve_def\<close>)
  next
    case False
    with i d ok polite_send [OF ok pr _ c] show ?thesis by (auto simp: serve_def)
  qed
qed

lemma polite_accept:
  assumes ok: "polite_ok s" and pos: "possible (Event listenfd inb outb fd p) s"
  shows "\<exists>s'. act (Event listenfd inb outb fd p) s = Inr s' \<and> polite_ok s'"
proof -
  note okD = polite_okD [OF ok]
  have w: "watched s listenfd = Some \<lparr>data = listenfd, epollin = True, epollout = False\<rparr>"
    using okD(1) by (auto simp: server_ok_def tables_ok_def)
  have g: "may_grant fd p s" using pos by (simp split: option.splits)
  show ?thesis
  proof (cases inb)
    case False
    with w ok show ?thesis by (auto simp: serve_def data_fd_listen)
  next
    case True
    with pos w have "backlog s \<noteq> []" by (simp add: can_read_def)
    then obtain c cs where b: "backlog s = c # cs" by (cases "backlog s") auto
    from handle_new_connection_ok [OF okD(1) b g] obtain s' where s':
      "handle_new_connection fd p s = Inr s'" "server_ok s'" "wires s' = wires s" "backlog s' = cs"
      "fds s' = (fds s)(fd \<mapsto> c)" "paired s' fd p (connection_create fd) \<lparr>data = p, epollin = True, epollout = False\<rparr>"
      "conns s' = (conns s)(p \<mapsto> connection_create fd)"
      "watched s' = (watched s)(fd \<mapsto> \<lparr>data = p, epollin = True, epollout = False\<rparr>)"
      by blast
    have "polite_ok s'"
    proof (rule polite_okI [OF s'(2)])
      fix d v
      assume v: "wires s' d = Some v"
      show "wire_ok v" using v s'(3) okD(2) by simp
      show "said v = outbox v @ inbox v" if "d \<in> set (backlog s')"
        using that v s'(3,4) b okD(3) by simp
      show "ended v \<and> inbox v = []" if "d \<notin> set (backlog s')" "d \<notin> ran (fds s')"
      proof -
        have "ran (fds s') = insert c (ran (fds s))" using s'(5) g by (simp add: may_grant_def)
        then show ?thesis using that v s'(3,4) b okD(4) by auto
      qed
      show "owed c2 i2 v" if pr: "paired s' fd2 p2 c2 i2" "fds s' fd2 = Some d" for fd2 p2 c2 i2
      proof (cases "fd2 = fd")
        case True
        with pr s'(5,7,8) have e: "d = c" "i2 = \<lparr>data = p, epollin = True, epollout = False\<rparr>" "c2 = connection_create fd"
          by (auto simp: paired_def)
        have "said v = outbox v @ inbox v" using okD(3) [of c v] b e(1) v s'(3) by simp
        with e show ?thesis by (simp add: owed_def connection_create_def BUFSIZ_def)
      next
        case False
        have "sockfd (connection_create fd) = fd" by (simp add: connection_create_def)
        with pr(1) False s'(7) have "p2 \<noteq> p" by (auto simp: paired_def)
        with False pr s'(5,7,8) have "paired s fd2 p2 c2 i2" "fds s fd2 = Some d" by (auto simp: paired_def)
        with okD(5) v s'(3) show ?thesis by simp
      qed
    qed
    with s'(1) w True show ?thesis by (auto simp: serve_def data_fd_listen)
  qed
qed

lemma polite_ok_connects:
  assumes ok: "polite_ok s" and new: "wires s c = None"
  shows "polite_ok (s\<lparr>backlog := backlog s @ [c],
    wires := (wires s)(c \<mapsto> \<lparr>inbox = [], ended = False, up = True, recvs = [], sends = [], said = [], outbox = []\<rparr>)\<rparr>)"
    (is "polite_ok ?s")
proof (rule polite_okI)
  note okD = polite_okD [OF ok]
  show "server_ok ?s" by (rule server_ok_connects [OF okD(1) new])
  fix d v
  assume v: "wires ?s d = Some v"
  show "wire_ok v" using v okD(2) by (auto simp: wire_ok_def BUFSIZ_def split: if_splits)
  show "said v = outbox v @ inbox v" if "d \<in> set (backlog ?s)"
    using that v okD(3) by (auto split: if_splits)
  show "ended v \<and> inbox v = []" if "d \<notin> set (backlog ?s)" "d \<notin> ran (fds ?s)"
    using that v okD(4) by (auto split: if_splits)
  show "owed c2 i2 v" if pr: "paired ?s fd2 p2 c2 i2" "fds ?s fd2 = Some d" for fd2 p2 c2 i2
  proof -
    have "paired s fd2 p2 c2 i2" "fds s fd2 = Some d" using pr by (simp_all add: paired_def)
    moreover have "d \<noteq> c" using okD(1) new \<open>fds s fd2 = Some d\<close> by (auto simp: server_ok_def clients_ok_def ran_def)
    ultimately show ?thesis using okD(5) v by simp
  qed
qed

lemma polite_quiet:
  assumes ok: "polite_ok s" and w: "wires s c = Some w" "outbox w = said w"
  shows "inbox w = []"
proof (cases "c \<in> ran (fds s)")
  case True
  note okD = polite_okD [OF ok]
  from True obtain fd where fd: "fds s fd = Some c" by (auto simp: ran_def)
  have t: "tables_ok s" using okD(1) by (simp add: server_ok_def)
  from tables_okD(3) [OF t, of fd] fd obtain i where i: "watched s fd = Some i" by auto
  moreover have "fd \<noteq> listenfd" using tables_okD(2) [OF t] fd by auto
  ultimately obtain cn where "paired s fd (data i) cn i" using server_ok_watched [OF okD(1)] by blast
  from okD(5) [OF this fd w(1)] w(2) show ?thesis by (auto simp: owed_def split: if_splits)
next
  case False
  with polite_okD(3,4) [OF ok w(1)] w(2) show ?thesis by (cases "c \<in> set (backlog s)") auto
qed

lemma polite_act:
  assumes ok: "polite_ok s" and a: "polite a s"
  shows "\<exists>s'. act a s = Inr s' \<and> polite_ok s'"
proof (cases a)
  case (Connects c rs ss)
  with assms polite_ok_connects show ?thesis by simp
next
  case (Says c bs)
  then obtain w where w: "wires s c = Some w" "outbox w = said w" "0 < length bs" "length bs < BUFSIZ" "\<not> ended w"
    using a by (auto split: option.splits)
  have "polite_ok (client_step c (\<lambda>w. w\<lparr>inbox := inbox w @ bs, said := said w @ bs\<rparr>) s)"
    by (rule polite_ok_client_step [OF ok w(1,2)])
      (use w polite_quiet [OF ok w(1,2)] polite_okD(2) [OF ok w(1)] in \<open>auto simp: wire_ok_def\<close>)
  with Says show ?thesis by simp
next
  case (Hangs_up c)
  then obtain w where w: "wires s c = Some w" "outbox w = said w" using a by (auto split: option.splits)
  have "polite_ok (client_step c (\<lambda>w. w\<lparr>ended := True\<rparr>) s)"
    by (rule polite_ok_client_step [OF ok w])
      (use w polite_quiet [OF ok w] polite_okD(2) [OF ok w(1)] in \<open>auto simp: wire_ok_def\<close>)
  with Hangs_up show ?thesis by simp
next
  case (Event fd inb outb a b)
  with assms polite_connection_event [OF ok] polite_accept [OF ok] show ?thesis
    by (cases "fd = listenfd") (simp_all del: act.simps possible.simps)
qed (use assms in simp)

text \<open>Two events at the socket of a client, as far as they are due, give the client all it is owed.\<close>

lemma polite_round:
  assumes ok: "polite_ok s" and c: "fds s fd = Some c"
  shows "\<exists>s' w w'. schedule polite [Event fd True False a b, Event fd False True a b] s = Inr s'
    \<and> wires s c = Some w \<and> wires s' c = Some w' \<and> said w' = said w \<and> outbox w' = said w"
proof -
  note okD = polite_okD [OF ok]
  have t: "tables_ok s" using okD(1) by (simp add: server_ok_def)
  from tables_okD(3) [OF t, of fd] c obtain i where i: "watched s fd = Some i" by auto
  have fd: "fd \<noteq> listenfd" using tables_okD(2) [OF t] c by auto
  obtain cn where pr: "paired s fd (data i) cn i" using server_ok_watched [OF okD(1) i fd] by blast
  have d: "data_fd (data i) \<noteq> listenfd" "epollin i" using pr data_fd_conn by (auto simp: paired_def)
  obtain w where w: "wires s c = Some w" "wire_of s fd = Some w" using wires_ok [OF okD(1) pr] c by auto
  note o = okD(5) [OF pr c w(1)] and wo = okD(2) [OF w(1)]
  show ?thesis
  proof (cases "can_read fd s")
    case True
    from ok pr True c w(1) show ?thesis
    proof (cases rule: polite_receive)
      case (ends s')
      with i d True fd w show ?thesis by (simp add: serve_def)
    next
      case (got s' c' w')
      have i': "watched s' fd = Some \<lparr>data = data i, epollin = True, epollout = True\<rparr>" using got(5) by (simp add: paired_def)
      have "fds s' fd = Some c" using got(4) c by simp
      from polite_send [OF got(2,5) _ this got(6)] got i i' d True fd w show ?thesis
        by (auto simp: serve_def)
    qed
  next
    case False
    then have e: "inbox w = []" using w fd wo by (simp add: can_read_def)
    show ?thesis
    proof (cases "epollout i")
      case True
      from polite_send [OF ok pr True c w(1)] False i d fd w True show ?thesis by (auto simp: serve_def)
    next
      case no: False
      with o e have "outbox w = said w" by (simp add: owed_def)
      with False i d fd w no show ?thesis by simp
    qed
  qed
qed

lemma polite_ok_schedule: "\<exists>s. schedule polite as server_start = Inr s \<and> polite_ok s"
  by (rule schedule_keeps [where P = polite_ok, OF polite_ok_start polite_act])

text \<open>C5: Clients that wait for their echo get it.  In every interleaving of any number of clients that
  send less than the buffer holds and then wait, the server never fails; what each client was sent
  is at every moment a beginning of what it said, at most one message behind; and at the
  socket of any client two more events (read, then write, as far as they are due) suffice that it has
  received exactly what it said.\<close>

theorem polite_clients_get_their_echo:
  "\<exists>s. schedule polite as server_start = Inr s
     \<and> (\<forall>c. case wires s c of None \<Rightarrow> True | Some w \<Rightarrow> \<exists>m. said w = outbox w @ m \<and> length m < BUFSIZ)
     \<and> (case fds s fd of None \<Rightarrow> True
        | Some c \<Rightarrow> \<exists>s' w w'. schedule polite [Event fd True False a b, Event fd False True a b] s = Inr s'
            \<and> wires s c = Some w \<and> wires s' c = Some w' \<and> said w' = said w \<and> outbox w' = said w)"
proof -
  obtain s where s: "schedule polite as server_start = Inr s" "polite_ok s" using polite_ok_schedule by blast
  have "case wires s c of None \<Rightarrow> True | Some w \<Rightarrow> \<exists>m. said w = outbox w @ m \<and> length m < BUFSIZ" for c
    using polite_okD(2) [OF s(2), of c] by (auto simp: wire_ok_def split: option.split)
  moreover have "case fds s fd of None \<Rightarrow> True
        | Some c \<Rightarrow> \<exists>s' w w'. schedule polite [Event fd True False a b, Event fd False True a b] s = Inr s'
            \<and> wires s c = Some w \<and> wires s' c = Some w' \<and> said w' = said w \<and> outbox w' = said w"
    using polite_round [OF s(2)] by (auto split: option.split)
  ultimately show ?thesis using s(1) by blast
qed

section \<open>Clients that do not\<close>

text \<open>One client, connected, whose first message was read.\<close>

definition one_client :: "byte list \<Rightarrow> byte list \<Rightarrow> bool \<Rightarrow> server" where
  "one_client m inb e =
     (let buf = overlay m (replicate BUFSIZ 0) in
      \<lparr>conns = [16 \<mapsto> \<lparr>sockfd = 5, recv_buffer = buf, recv_len = Some (length m), send_buffer = buf,
         send_len = Some (length m), state = Some STATE_DATA_RECEIVED\<rparr>],
       fds = [5 \<mapsto> 0],
       wires = [0 \<mapsto> \<lparr>inbox = inb, ended = e, up = True, recvs = [], sends = [], said = m @ inb, outbox = []\<rparr>],
       watched = [4 \<mapsto> \<lparr>data = 4, epollin = True, epollout = False\<rparr>, 5 \<mapsto> \<lparr>data = 16, epollin = True, epollout = True\<rparr>],
       backlog = []\<rparr>)"

lemmas echo_run = handle_new_connection_def sys_accept_def server_defs connection_create_def serve_def data_fd_def
  handle_client_request_def receive_message_def send_message_def connection_copy_buffers_def print_string_def
  get_peer_address_def sys_recv_def sys_send_def wire_of_def set_wire_def client_step_def can_read_def may_grant_def
  remove_connection_def connection_remove_def listenfd_def

lemma overlay_zero: "length bs < length buf \<Longrightarrow> last buf = 0 \<Longrightarrow> 0 \<in> set (overlay bs buf) \<and> last (overlay bs buf) = 0"
  using last_in_set [of "drop (length bs) buf"] by (auto simp: overlay_def last_append)

definition first_message :: "byte list \<Rightarrow> action list" where
  "first_message m = [Connects 0 [] [], Event 4 True False 5 16, Says 0 m, Event 5 True False 0 0]"

lemma first_message_read:
  assumes "0 < length m" "length m < BUFSIZ"
  shows "schedule possible (first_message m) server_start = Inr (one_client m [] False)"
proof -
  have "0 \<in> set (overlay m (replicate BUFSIZ 0))" using overlay_zero [of m "replicate BUFSIZ 0"] assms by (simp add: last_replicate)
  moreover have "overlay (take (length m) (overlay m (replicate BUFSIZ 0))) (replicate BUFSIZ 0) = overlay m (replicate BUFSIZ 0)"
    using assms by (intro overlay_simps) simp
  ultimately show ?thesis using assms
    by (auto simp: echo_run first_message_def server_start_def w_epoll_add_fd_in_def one_client_def Let_def fun_eq_iff)
qed

lemma schedule_append: "schedule ok (as @ bs) s = obind (schedule ok as s) (schedule ok bs)"
  by (induction "as" arbitrary: s) (auto simp: obind_def split: sum.splits)

text \<open>C28: A second message that comes before the first was sent back replaces it: the client gets the
  second only, however long the first was.  And when the client ends its side at that
  moment, the connection is removed in the middle of an event that also says that it can be
  written, and \<^verbatim>\<open>send_message\<close> uses the memory that was just freed.\<close>

theorem impatient_clients_lose:
  assumes "0 < length m1" "length m1 < BUFSIZ" "0 < length m2" "length m2 < BUFSIZ"
  shows "(\<exists>s w. schedule possible (first_message m1 @ [Says 0 m2, Event 5 True True 0 0]) server_start = Inr s
      \<and> wires s 0 = Some w \<and> said w = m1 @ m2 \<and> inbox w = [] \<and> outbox w = m2)
    \<and> schedule possible (first_message m1 @ [Hangs_up 0, Event 5 True True 0 0]) server_start = Inl Undefined"
proof -
  let ?b1 = "overlay m1 (replicate BUFSIZ 0)"
  have z1: "0 \<in> set ?b1" "last ?b1 = 0" "length ?b1 = BUFSIZ"
    using overlay_zero [of m1 "replicate BUFSIZ 0"] assms by (simp_all add: last_replicate overlay_simps)
  have z2: "0 \<in> set (overlay m2 ?b1)" using overlay_zero [of m2 ?b1] assms z1 by simp
  have eq: "overlay (take (length m2) (overlay m2 ?b1)) ?b1 = overlay m2 ?b1"
    using assms z1 by (intro overlay_simps) simp
  have 1: "\<exists>s w. schedule possible [Says 0 m2, Event 5 True True 0 0] (one_client m1 [] False) = Inr s
      \<and> wires s 0 = Some w \<and> said w = m1 @ m2 \<and> inbox w = [] \<and> outbox w = m2"
    using assms(1-4) z1 z2 eq by (simp add: echo_run one_client_def Let_def overlay_simps)
  have 2: "schedule possible [Hangs_up 0, Event 5 True True 0 0] (one_client m1 [] False) = Inl Undefined"
    using assms(1-4) by (simp add: echo_run one_client_def Let_def)
  show ?thesis unfolding schedule_append first_message_read [OF assms(1,2)] obind_simps
    using 1 2 by blast
qed

theorem impatient_clients_lose_witness:
  "schedule possible (first_message [65] @ [Hangs_up 0, Event 5 True True 0 0]) server_start = Inl Undefined"
  using impatient_clients_lose [of "[65]" "[66]"] by (simp add: BUFSIZ_def)

end
