(* ===== verification/IocpEcho.thy ===== *)
theory IocpEcho
  imports Channels
begin

text \<open>
  The Windows sample of the web-server assignment, \<^verbatim>\<open>5-aws/util/win/samples/iocp_echo_server.c\<close>: an echo
  server over a completion port.  Operations are started and complete later; a completion names
  the key of the socket and the overlapped structure of the operation.  The model keeps which
  operation the kernel still holds for each structure, so that freeing a connection
  while the kernel may write to it is visible.
\<close>

definition BUFSIZ :: nat where "BUFSIZ = 512"

definition EXIT_FAILURE :: int where "EXIT_FAILURE = 1"

definition ERROR_NETNAME_DELETED :: nat where "ERROR_NETNAME_DELETED = 64"

section \<open>State\<close>

datatype overlapped = Recv_ov | Send_ov | Accept_ov

record connection =
  sockfd :: nat
  recv_buffer :: "byte list"
  send_buffer :: "byte list"
  send_len :: nat
  bytes_recv :: nat

text \<open>
  \<open>conns\<close>: the connections allocated with \<^verbatim>\<open>malloc\<close>.  \<open>accepting\<close>: the socket of the
  accept that is under way, \<open>pending\<close>: the operations under way on a connection, as many as were started.  \<open>ports\<close>: the key
  under which a socket was added to the completion port.  \<open>ac_sockfd\<close> is the field of the
  anonymous structure \<^verbatim>\<open>ac\<close>.  \<open>heard\<close> and \<open>sent\<close> record what went through a socket.
\<close>

record server =
  listenfd :: nat
  ac_sockfd :: nat
  conns :: "nat \<Rightarrow> connection option"
  socks :: "nat set"
  ports :: "nat \<Rightarrow> nat option"
  accepting :: "nat option"
  pending :: "nat \<Rightarrow> overlapped list"
  heard :: "nat \<Rightarrow> byte list"
  sent :: "nat \<Rightarrow> byte list"

text \<open>
  What \<^verbatim>\<open>GetQueuedCompletionStatus\<close> returns, and how the calls made in response behave: whether
  \<^verbatim>\<open>setsockopt\<close> and \<^verbatim>\<open>getpeername\<close> succeed, whether the next operation can be started, the results of
  \<^verbatim>\<open>socket\<close> and \<^verbatim>\<open>malloc\<close>.  \<open>moved\<close> is what a receive has put into the buffer; of a send it
  is what has left.
\<close>

record completion =
  okay :: bool
  err :: nat
  key :: nat
  ovp :: overlapped
  moved :: "byte list"
  opt_ok :: bool
  peer_ok :: bool
  start_ok :: bool
  new_sock :: nat
  new_addr :: nat

definition DIE :: "bool \<Rightarrow> unit outcome" where
  "DIE b = (if b then Inl (ExitWith EXIT_FAILURE) else Inr ())"

section \<open>Connections\<close>

definition overlay :: "byte list \<Rightarrow> byte list \<Rightarrow> byte list" where
  "overlay bs buf = bs @ drop (length bs) buf"

definition connection_create :: "nat \<Rightarrow> connection" where
  "connection_create fd = \<lparr>sockfd = fd, recv_buffer = replicate BUFSIZ 0, send_buffer = replicate BUFSIZ 0,
     send_len = BUFSIZ, bytes_recv = 0\<rparr>"

definition load :: "nat \<Rightarrow> server \<Rightarrow> connection outcome" where
  "load p s = deref (conns s p)"

definition store :: "nat \<Rightarrow> connection \<Rightarrow> server \<Rightarrow> server" where
  "store p c s = s\<lparr>conns := (conns s)(p \<mapsto> c)\<rparr>"

text \<open>Memory that the kernel still uses must not be freed.\<close>

definition connection_remove :: "nat \<Rightarrow> server \<Rightarrow> server outcome" where
  "connection_remove p s =
     obind (load p s) (\<lambda>c.
     if pending s p \<noteq> [] then Inl Undefined
     else Inr (s\<lparr>conns := (conns s)(p := None), socks := socks s - {sockfd c}, ports := (ports s)(sockfd c := None)\<rparr>))"

definition connection_copy_buffers :: "nat \<Rightarrow> server \<Rightarrow> server outcome" where
  "connection_copy_buffers p s =
     obind (load p s) (\<lambda>c.
     if BUFSIZ < bytes_recv c then Inl Undefined
     else Inr (store p (c\<lparr>send_buffer := overlay (take (bytes_recv c) (recv_buffer c)) (send_buffer c),
                          send_len := bytes_recv c\<rparr>) s))"

definition connection_prepare_socket_send :: "nat \<Rightarrow> server \<Rightarrow> server outcome" where
  "connection_prepare_socket_send p s = connection_copy_buffers p s"

text \<open>
  Both functions clear \<^verbatim>\<open>send_ov\<close> with \<^verbatim>\<open>memset\<close>, and hand one of the two structures to the kernel, which
  keeps it until the operation has completed.  A structure that the kernel has must not be written or used again.
\<close>

definition in_use :: "overlapped \<Rightarrow> nat \<Rightarrow> server \<Rightarrow> bool" where
  "in_use ov p s \<longleftrightarrow> ov \<in> set (pending s p)"

definition to_kernel :: "overlapped \<Rightarrow> nat \<Rightarrow> server \<Rightarrow> server" where
  "to_kernel ov p s = s\<lparr>pending := (pending s)(p := pending s p @ [ov])\<rparr>"

definition connection_schedule_socket_send :: "bool \<Rightarrow> nat \<Rightarrow> server \<Rightarrow> server outcome" where
  "connection_schedule_socket_send started p s =
     obind (load p s) (\<lambda>c.
     if in_use Send_ov p s then Inl Undefined
     else if \<not> started then Inl (ExitWith EXIT_FAILURE)
     else Inr (to_kernel Send_ov p s))"

definition connection_schedule_socket_receive :: "bool \<Rightarrow> nat \<Rightarrow> server \<Rightarrow> server outcome" where
  "connection_schedule_socket_receive started p s =
     obind (load p s) (\<lambda>c.
     if in_use Send_ov p s \<or> in_use Recv_ov p s then Inl Undefined
     else if \<not> started then Inl (ExitWith EXIT_FAILURE)
     else Inr (to_kernel Recv_ov p s))"

definition connection_complete_socket_send :: "nat \<Rightarrow> server \<Rightarrow> server outcome" where
  "connection_complete_socket_send p s = connection_remove p s"

text \<open>\<^verbatim>\<open>WSAGetOverlappedResult\<close> gives the number of bytes that were moved.\<close>

definition connection_complete_socket_receive :: "completion \<Rightarrow> nat \<Rightarrow> server \<Rightarrow> server outcome" where
  "connection_complete_socket_receive co p s =
     obind (load p s) (\<lambda>c.
     let s = store p (c\<lparr>bytes_recv := length (moved co)\<rparr>) s in
     if length (moved co) = 0 then connection_remove p s
     else obind (connection_prepare_socket_send p s) (\<lambda>s.
          connection_schedule_socket_send (start_ok co) p s))"

section \<open>Accepting\<close>

text \<open>A new socket and an overlapped accept on it.\<close>

definition create_iocp_accept :: "nat \<Rightarrow> server \<Rightarrow> server" where
  "create_iocp_accept fd s = s\<lparr>ac_sockfd := fd, socks := insert fd (socks s), accepting := Some fd\<rparr>"

definition handle_new_connection :: "completion \<Rightarrow> server \<Rightarrow> server outcome" where
  "handle_new_connection co s =
     obind (DIE (\<not> opt_ok co)) (\<lambda>_.
     if \<not> peer_ok co then Inr s
     else
       let p = new_addr co;
           s = store p (connection_create (ac_sockfd s)) s;
           s = s\<lparr>ports := (ports s)(ac_sockfd s \<mapsto> p)\<rparr>
       in obind (connection_schedule_socket_receive (start_ok co) p s) (\<lambda>s.
          Inr (create_iocp_accept (new_sock co) s)))"

definition handle_aio :: "completion \<Rightarrow> nat \<Rightarrow> server \<Rightarrow> server outcome" where
  "handle_aio co p s =
     obind (load p s) (\<lambda>_.
     if ovp co = Send_ov then connection_complete_socket_send p s
     else if ovp co = Recv_ov then connection_complete_socket_receive co p s
     else Inr s)"

section \<open>The main loop\<close>

text \<open>
  Before the program sees the completion the kernel has moved the data and has let go of the
  structure.
\<close>

definition kernel_completes :: "completion \<Rightarrow> server \<Rightarrow> server" where
  "kernel_completes co s =
     (if key co = listenfd s then s\<lparr>accepting := None\<rparr>
      else case conns s (key co) of
             None \<Rightarrow> s
           | Some c \<Rightarrow>
               let s = s\<lparr>pending := (pending s)(key co := remove1 (ovp co) (pending s (key co)))\<rparr> in
               if \<not> okay co then s
               else if ovp co = Recv_ov then
                 (store (key co) (c\<lparr>recv_buffer := overlay (moved co) (recv_buffer c)\<rparr>) s)
                   \<lparr>heard := (heard s)(sockfd c := heard s (sockfd c) @ moved co)\<rparr>
               else s\<lparr>sent := (sent s)(sockfd c := sent s (sockfd c) @ moved co)\<rparr>)"

definition main_turn :: "completion \<Rightarrow> server \<Rightarrow> server outcome" where
  "main_turn co s =
     (if \<not> okay co then
        (if err co = ERROR_NETNAME_DELETED then connection_remove (key co) s else Inl (ExitWith EXIT_FAILURE))
      else if key co = listenfd s then handle_new_connection co s
      else handle_aio co (key co) s)"

text \<open>The state when the loop begins: the listening socket is its own key.\<close>

definition server_start :: "nat \<Rightarrow> nat \<Rightarrow> server" where
  "server_start lfd fd = create_iocp_accept fd
     \<lparr>listenfd = lfd, ac_sockfd = 0, conns = \<lambda>_. None, socks = {lfd}, ports = [lfd \<mapsto> lfd], accepting = None,
      pending = \<lambda>_. [], heard = \<lambda>_. [], sent = \<lambda>_. []\<rparr>"

text \<open>
  The completions that may be reported: of operations that are under way; a receive moves at most what the
  buffer holds, a successful send all of its buffer, as \<^verbatim>\<open>WSASend\<close> does on a blocking socket.
  Addresses and handles that are given out are not in use; every socket has a fresh handle here, so that
  what went through it can be told apart.
\<close>

definition possible :: "completion \<Rightarrow> server \<Rightarrow> bool" where
  "possible co s \<longleftrightarrow>
     (if key co = listenfd s then accepting s \<noteq> None \<and> ovp co = Accept_ov
      else ovp co \<in> set (pending s (key co))
        \<and> (case conns s (key co) of
             None \<Rightarrow> False
           | Some c \<Rightarrow> (if ovp co = Recv_ov then length (moved co) \<le> BUFSIZ else moved co = take (send_len c) (send_buffer c))))
     \<and> conns s (new_addr co) = None \<and> new_addr co \<noteq> listenfd s
     \<and> new_sock co \<notin> socks s \<and> heard s (new_sock co) = [] \<and> sent s (new_sock co) = []"

fun run :: "(completion \<Rightarrow> server \<Rightarrow> bool) \<Rightarrow> completion list \<Rightarrow> server \<Rightarrow> server outcome" where
  "run ok [] s = Inr s"
| "run ok (co # cs) s =
     (if ok co s then obind (main_turn co (kernel_completes co s)) (run ok cs) else run ok cs s)"

section \<open>One operation per connection\<close>

text \<open>
  A connection waits for exactly one operation: first to hear something, then until what it has heard is
  sent.
\<close>

definition serving :: "server \<Rightarrow> nat \<Rightarrow> connection \<Rightarrow> bool" where
  "serving s p c \<longleftrightarrow> ports s (sockfd c) = Some p \<and> sockfd c \<in> socks s \<and> sockfd c \<noteq> listenfd s \<and> p \<noteq> listenfd s
     \<and> length (recv_buffer c) = BUFSIZ \<and> length (send_buffer c) = BUFSIZ \<and> sent s (sockfd c) = []
     \<and> (pending s p = [Recv_ov] \<and> heard s (sockfd c) = []
        \<or> pending s p = [Send_ov] \<and> heard s (sockfd c) \<noteq> [] \<and> heard s (sockfd c) = take (send_len c) (send_buffer c))"

definition owned :: "server \<Rightarrow> bool" where
  "owned s \<longleftrightarrow> (\<forall>p c. conns s p = Some c \<longrightarrow> serving s p c) \<and> (\<forall>p. conns s p = None \<longrightarrow> pending s p = [])
     \<and> (case accepting s of None \<Rightarrow> True
        | Some fd \<Rightarrow> fd = ac_sockfd s \<and> fd \<in> socks s \<and> fd \<noteq> listenfd s \<and> heard s fd = [] \<and> sent s fd = []
            \<and> (\<forall>p c. conns s p = Some c \<longrightarrow> sockfd c \<noteq> fd))
     \<and> listenfd s \<in> socks s \<and> conns s (listenfd s) = None"

lemma owned_start: "fd \<noteq> lfd \<Longrightarrow> owned (server_start lfd fd)"
  by (simp add: owned_def server_start_def create_iocp_accept_def)

lemma owned_serving: "owned s \<Longrightarrow> conns s p = Some c \<Longrightarrow> serving s p c"
  unfolding owned_def by blast

lemma owned_not_accepting: "owned s \<Longrightarrow> conns s p = Some c \<Longrightarrow> accepting s \<noteq> Some (sockfd c)"
  unfolding owned_def by auto

lemma other_socket:
  assumes "owned s" "conns s p = Some c" "conns s q = Some d" "p \<noteq> q"
  shows "sockfd c \<noteq> sockfd d"
  using owned_serving [OF assms(1,2)] owned_serving [OF assms(1,3)] assms(4) by (auto simp: serving_def)

text \<open>So what completes on a connection is the one operation that it waits for.\<close>

lemma possible_pending:
  assumes "owned s" "possible co s" "key co \<noteq> listenfd s"
  shows "pending s (key co) = [ovp co]"
  using assms owned_serving [OF assms(1), of "key co"] by (auto simp: possible_def serving_def split: option.splits)

lemma owned_pending: "owned s \<Longrightarrow> pending s p \<in> (if conns s p = None then {[]} else {[Recv_ov], [Send_ov]})"
  by (auto simp: owned_def serving_def)

text \<open>Freeing a connection whose operation has completed.\<close>

lemma owned_remove:
  assumes "owned s" "conns s p = Some c" "sent' = sent s \<or> (\<exists>bs. sent' = (sent s)(sockfd c := bs))"
  shows "owned (s\<lparr>pending := (pending s)(p := []), sent := sent', conns := (conns s)(p := None),
    socks := socks s - {sockfd c}, ports := (ports s)(sockfd c := None)\<rparr>)" (is "owned ?s")
proof -
  have "serving ?s q d" if "conns ?s q = Some d" for q d
  proof -
    from that have q: "q \<noteq> p" "conns s q = Some d" by (auto split: if_splits)
    with other_socket [OF assms(1,2) q(2)] owned_serving [OF assms(1) q(2)] assms(3) show ?thesis
      by (auto simp: serving_def)
  qed
  moreover have "sockfd c \<noteq> listenfd s" using owned_serving [OF assms(1,2)] by (simp add: serving_def)
  ultimately show ?thesis
    using assms owned_not_accepting [OF assms(1,2)] unfolding owned_def by (auto split: option.splits)
qed

text \<open>A connection that has heard \<open>bs\<close> and is to send it.\<close>

lemma owned_answer:
  assumes "owned s" "conns s p = Some c" "pending s p = [Recv_ov]" "bs \<noteq> []" "length bs \<le> BUFSIZ"
  shows "owned (s\<lparr>heard := (heard s)(sockfd c := bs), conns := (conns s)(p \<mapsto> c\<lparr>recv_buffer := overlay bs (recv_buffer c), bytes_recv := length bs,
      send_buffer := overlay bs (send_buffer c), send_len := length bs\<rparr>),
    pending := (pending s)(p := [Send_ov])\<rparr>)" (is "owned ?s")
proof -
  note sp = owned_serving [OF assms(1,2)]
  have "serving ?s q d" if "conns ?s q = Some d" for q d
  proof (cases "q = p")
    case True
    with that sp assms(3-5) show ?thesis by (auto simp: serving_def overlay_def)
  next
    case False
    with that have q: "conns s q = Some d" by simp
    with other_socket [OF assms(1,2) q] False owned_serving [OF assms(1) q] show ?thesis by (auto simp: serving_def)
  qed
  then show ?thesis
    using assms(1,2) owned_not_accepting [OF assms(1,2)] unfolding owned_def by (auto split: option.splits if_splits)
qed

text \<open>A client is accepted and the next accept is under way.\<close>

lemma owned_accept:
  assumes "owned s" "accepting s = Some fd" "conns s p = None" "p \<noteq> listenfd s" "k \<notin> socks s" "heard s k = []" "sent s k = []"
  shows "owned (s\<lparr>conns := (conns s)(p \<mapsto> connection_create fd), ports := (ports s)(fd \<mapsto> p),
    pending := (pending s)(p := [Recv_ov]), ac_sockfd := k, socks := insert k (socks s), accepting := Some k\<rparr>)" (is "owned ?s")
proof -
  have fd: "fd = ac_sockfd s" "fd \<in> socks s" "fd \<noteq> listenfd s" "heard s fd = []" "sent s fd = []"
    "\<And>q d. conns s q = Some d \<Longrightarrow> sockfd d \<noteq> fd"
    using assms(1,2) unfolding owned_def by auto
  have "serving ?s q d" if "conns ?s q = Some d" for q d
  proof (cases "q = p")
    case True
    with that fd assms show ?thesis by (auto simp: serving_def connection_create_def)
  next
    case False
    with that have q: "conns s q = Some d" by simp
    with fd(6) [OF q] False owned_serving [OF assms(1) q] show ?thesis by (auto simp: serving_def)
  qed
  moreover have "sockfd d \<noteq> k" if "conns ?s q = Some d" for q d
    using that fd assms(5) owned_serving [OF assms(1), of q d]
    by (auto simp: serving_def connection_create_def split: if_splits)
  ultimately show ?thesis
    using assms fd unfolding owned_def by auto
qed

section \<open>What a completion does\<close>

text \<open>The event that the main loop takes for one of a connection although it is one of the listening socket.\<close>

definition accept_reset :: "completion \<Rightarrow> server \<Rightarrow> bool" where
  "accept_reset co s \<longleftrightarrow> \<not> okay co \<and> err co = ERROR_NETNAME_DELETED \<and> key co = listenfd s"

text \<open>Nothing fails but the question for the address of the peer.\<close>

definition healthy :: "completion \<Rightarrow> bool" where
  "healthy co \<longleftrightarrow> okay co \<and> opt_ok co \<and> start_ok co"

text \<open>What a client got is nothing or what it said; when its socket is closed in good health, what it said.\<close>

definition echoing :: "bool \<Rightarrow> server \<Rightarrow> bool" where
  "echoing good s \<longleftrightarrow> (\<forall>k. sent s k = [] \<or> sent s k = heard s k) \<and> (\<forall>k. k \<in> socks s \<longrightarrow> sent s k = [])
     \<and> (good \<longrightarrow> (\<forall>k. k \<notin> socks s \<longrightarrow> sent s k = heard s k))"

definition after_turn :: "bool \<Rightarrow> completion \<Rightarrow> server \<Rightarrow> bool" where
  "after_turn good co s \<longleftrightarrow>
     (case main_turn co (kernel_completes co s) of
        Inr s' \<Rightarrow> owned s' \<and> echoing good s'
      | Inl f \<Rightarrow> f = ExitWith 1 \<and> \<not> healthy co \<or> f = Undefined \<and> accept_reset co s)"

lemma turn_failed:
  assumes "owned s" "echoing good s" "possible co s" "\<not> okay co" "\<not> good"
  shows "after_turn good co s"
proof (cases "err co = ERROR_NETNAME_DELETED \<and> key co \<noteq> listenfd s")
  case False
  with assms show ?thesis
    by (auto simp: after_turn_def main_turn_def kernel_completes_def connection_remove_def load_def owned_def
        accept_reset_def healthy_def EXIT_FAILURE_def)
next
  case True
  with assms(3) obtain c where c: "conns s (key co) = Some c" by (auto simp: possible_def split: option.splits)
  from owned_remove [OF assms(1) c, of "sent s"] possible_pending [OF assms(1,3)] assms c True show ?thesis
    by (auto simp: after_turn_def main_turn_def kernel_completes_def connection_remove_def load_def Let_def echoing_def)
qed

lemma turn_accept:
  assumes "owned s" "echoing good s" "possible co s" "okay co" "key co = listenfd s"
  shows "after_turn good co s"
proof -
  obtain fd where a: "accepting s = Some fd" using assms(3,5) by (auto simp: possible_def)
  then have fd: "fd = ac_sockfd s" using assms(1) by (simp add: owned_def)
  have new: "conns s (new_addr co) = None" "new_addr co \<noteq> listenfd s" "new_sock co \<notin> socks s"
    "heard s (new_sock co) = []" "sent s (new_sock co) = []"
    using assms(3) by (auto simp: possible_def)
  have "pending s (new_addr co) = []" using assms(1) new(1) by (simp add: owned_def)
  have "owned (s\<lparr>accepting := None\<rparr>)" using assms(1) by (simp add: owned_def serving_def)
  with \<open>pending s (new_addr co) = []\<close> owned_accept [OF assms(1) a new] fd new(5) assms(2,4,5) show ?thesis
    by (auto simp: after_turn_def main_turn_def kernel_completes_def handle_new_connection_def DIE_def Let_def store_def
        connection_schedule_socket_receive_def in_use_def to_kernel_def load_def create_iocp_accept_def echoing_def healthy_def EXIT_FAILURE_def)
qed

lemma turn_received:
  assumes "owned s" "echoing good s" "possible co s" "okay co" "key co \<noteq> listenfd s" "ovp co = Recv_ov"
  shows "after_turn good co s"
proof -
  from assms(3,5,6) obtain c where c: "conns s (key co) = Some c" "pending s (key co) = [Recv_ov]" "length (moved co) \<le> BUFSIZ"
    using possible_pending [OF assms(1,3,5)] by (auto simp: possible_def split: option.splits)
  note sc = owned_serving [OF assms(1) c(1)]
  have h: "heard s (sockfd c) = []" "sent s (sockfd c) = []" "sockfd c \<in> socks s" using sc c(2) by (auto simp: serving_def)
  let ?c = "c\<lparr>recv_buffer := overlay (moved co) (recv_buffer c)\<rparr>"
  show ?thesis
  proof (cases "moved co = []")
    case True
    have ov: "overlay [] (recv_buffer c) = recv_buffer c" by (simp add: overlay_def)
    have hd: "(heard s)(sockfd c := []) = heard s" using h by auto
    from owned_remove [OF assms(1) c(1), of "sent s"] assms(2,4-6) c True h show ?thesis
      by (auto simp: after_turn_def main_turn_def kernel_completes_def handle_aio_def connection_complete_socket_receive_def
          connection_remove_def load_def store_def Let_def echoing_def ov hd)
  next
    case False
    have take: "take (length bs) (overlay bs buf) = bs" for bs buf by (simp add: overlay_def)
    from owned_answer [OF assms(1) c(1,2) False c(3)] assms(2,4-6) c False h show ?thesis
      by (auto simp: after_turn_def main_turn_def kernel_completes_def handle_aio_def connection_complete_socket_receive_def
          connection_prepare_socket_send_def connection_copy_buffers_def connection_schedule_socket_send_def in_use_def to_kernel_def
          load_def store_def Let_def echoing_def healthy_def EXIT_FAILURE_def take)
  qed
qed

lemma turn_sent:
  assumes "owned s" "echoing good s" "possible co s" "okay co" "key co \<noteq> listenfd s" "ovp co = Send_ov"
  shows "after_turn good co s"
proof -
  from assms(3,5,6) obtain c where c: "conns s (key co) = Some c" "pending s (key co) = [Send_ov]"
    "moved co = take (send_len c) (send_buffer c)"
    using possible_pending [OF assms(1,3,5)] by (auto simp: possible_def split: option.splits)
  note sc = owned_serving [OF assms(1) c(1)]
  have h: "heard s (sockfd c) = moved co" "sent s (sockfd c) = []" using sc c(2,3) by (auto simp: serving_def)
  from owned_remove [OF assms(1) c(1), of "(sent s)(sockfd c := moved co)"] assms(2,4-6) c h show ?thesis
    by (auto simp: after_turn_def main_turn_def kernel_completes_def handle_aio_def connection_complete_socket_send_def
        connection_remove_def load_def Let_def echoing_def)
qed

lemma turn_ok:
  assumes "owned s" "echoing good s" "possible co s" "good \<Longrightarrow> healthy co"
  shows "after_turn good co s"
proof -
  have ov: "ovp co \<noteq> Accept_ov" if "key co \<noteq> listenfd s"
    using possible_pending [OF assms(1,3) that] owned_serving [OF assms(1), of "key co"] assms(3) that
    by (auto simp: possible_def serving_def split: option.splits)
  show ?thesis
  proof (cases "okay co")
    case True
    show ?thesis
    proof (cases "key co = listenfd s")
      case False
      with assms ov True turn_received turn_sent show ?thesis by (cases "ovp co") auto
    qed (use assms True turn_accept in auto)
  next
    case False
    with assms(4) have "\<not> good" by (auto simp: healthy_def)
    with turn_failed [OF assms(1-3) False] show ?thesis by simp
  qed
qed

lemma iocp_run_keeps:
  assumes "owned s" "echoing good s" "\<And>co s. ok co s \<Longrightarrow> possible co s \<and> \<not> accept_reset co s \<and> (good \<longrightarrow> healthy co)"
  shows "case run ok cs s of Inr s' \<Rightarrow> owned s' \<and> echoing good s' | Inl f \<Rightarrow> f = ExitWith 1 \<and> \<not> good"
  using assms(1,2)
proof (induction cs arbitrary: s)
  case (Cons co cs)
  show ?case
  proof (cases "ok co s")
    case True
    note o = assms(3) [OF True]
    then have "after_turn good co s" using turn_ok [OF Cons.prems] by blast
    show ?thesis
    proof (cases "main_turn co (kernel_completes co s)")
      case (Inl f)
      with \<open>after_turn good co s\<close> o True show ?thesis by (auto simp: after_turn_def)
    next
      case (Inr s')
      with \<open>after_turn good co s\<close> have "owned s'" "echoing good s'" by (auto simp: after_turn_def)
      from Cons.IH [OF this] Inr True show ?thesis by simp
    qed
  qed (use Cons in simp)
qed simp

lemma echoing_start: "lfd \<noteq> fd \<Longrightarrow> echoing good (server_start lfd fd)"
  by (simp add: echoing_def server_start_def create_iocp_accept_def)

text \<open>C29: As long as nothing fails but, perhaps, the question for the address of a peer, the server never
  stops and every connection is an echo of one message: until the client is heard nothing is sent;
  then exactly one send of what was heard is under way; and when the socket is closed the client was sent
  exactly the bytes the first receive had got, in every order of completions and for any number of
  clients.\<close>

theorem iocp_echoes_once:
  "\<exists>s. run (\<lambda>co s. possible co s \<and> healthy co) cs (server_start lfd (Suc lfd)) = Inr s
     \<and> (\<forall>k. (if k \<in> socks s then sent s k = [] else sent s k = heard s k))
     \<and> (\<forall>p. case conns s p of
          None \<Rightarrow> pending s p = []
        | Some c \<Rightarrow> pending s p = [Recv_ov] \<and> heard s (sockfd c) = []
            \<or> pending s p = [Send_ov] \<and> heard s (sockfd c) = take (send_len c) (send_buffer c))"
proof -
  have o: "owned (server_start lfd (Suc lfd))" "echoing True (server_start lfd (Suc lfd))"
    using owned_start echoing_start by simp_all
  have "case run (\<lambda>co s. possible co s \<and> healthy co) cs (server_start lfd (Suc lfd)) of
      Inr s' \<Rightarrow> owned s' \<and> echoing True s' | Inl f \<Rightarrow> f = ExitWith 1 \<and> \<not> True"
    by (rule iocp_run_keeps [OF o]) (auto simp: accept_reset_def healthy_def)
  then obtain s where s: "run (\<lambda>co s. possible co s \<and> healthy co) cs (server_start lfd (Suc lfd)) = Inr s"
    "owned s" "echoing True s"
    by (auto split: sum.splits)
  have "case conns s p of None \<Rightarrow> pending s p = []
      | Some c \<Rightarrow> pending s p = [Recv_ov] \<and> heard s (sockfd c) = []
          \<or> pending s p = [Send_ov] \<and> heard s (sockfd c) = take (send_len c) (send_buffer c)" for p
  proof (cases "conns s p")
    case None
    with s(2) show ?thesis by (simp add: owned_def)
  next
    case (Some c)
    with owned_serving [OF s(2) this] show ?thesis by (auto simp: serving_def)
  qed
  with s show ?thesis unfolding echoing_def by (intro exI [of _ s]) simp
qed

text \<open>C30: No completion, in whatever order and with whatever failures, makes the server free or use a
  connection that the kernel still works on, or a connection that was freed: it goes on with one operation per
  connection, or leaves with an error.  The exception is a client that is gone before it was
  accepted: the main loop frees the handle of the listening socket as if it were a connection.\<close>

theorem iocp_ownership:
  "(case run (\<lambda>co s. possible co s \<and> \<not> accept_reset co s) cs (server_start lfd (Suc lfd)) of
      Inl f \<Rightarrow> f = ExitWith 1
    | Inr s \<Rightarrow> (\<forall>p. pending s p \<in> (if conns s p = None then {[]} else {[Recv_ov], [Send_ov]}))
        \<and> (if accept_reset co s \<and> possible co s then run possible [co] s = Inl Undefined else True))"
proof -
  have o: "owned (server_start lfd (Suc lfd))" "echoing False (server_start lfd (Suc lfd))"
    using owned_start echoing_start by simp_all
  have keeps: "case run (\<lambda>co s. possible co s \<and> \<not> accept_reset co s) cs (server_start lfd (Suc lfd)) of
      Inr s' \<Rightarrow> owned s' \<and> echoing False s' | Inl f \<Rightarrow> f = ExitWith 1 \<and> \<not> False"
    by (rule iocp_run_keeps [OF o]) auto
  have "run possible [co] s = Inl Undefined" if "owned s" "accept_reset co s" "possible co s" for s
    using that by (auto simp: accept_reset_def main_turn_def kernel_completes_def connection_remove_def load_def owned_def)
  with keeps owned_pending show ?thesis
    by (cases "run (\<lambda>co s. possible co s \<and> \<not> accept_reset co s) cs (server_start lfd (Suc lfd))")
      (simp_all del: run.simps split del: if_split, simp del: run.simps)
qed

lemma deaf_turn:
  assumes "accepting s = None" "possible co s" "main_turn co (kernel_completes co s) = Inr s'"
  shows "accepting s' = None \<and> listenfd s' = listenfd s \<and> (conns s p = None \<longrightarrow> conns s' p = None)"
proof -
  from assms(1,2) have k: "key co \<noteq> listenfd s" by (auto simp: possible_def)
  with assms(2) obtain c where "conns s (key co) = Some c" by (auto simp: possible_def split: option.splits)
  with assms k show ?thesis
    by (auto simp: main_turn_def kernel_completes_def connection_remove_def handle_aio_def load_def store_def Let_def
        connection_complete_socket_send_def connection_complete_socket_receive_def connection_prepare_socket_send_def
        connection_copy_buffers_def connection_schedule_socket_send_def in_use_def to_kernel_def outcome_simps split: if_splits)
qed

lemma deaf_run:
  "accepting s = None \<Longrightarrow> run possible cs s = Inr s' \<Longrightarrow> accepting s' = None \<and> (conns s p = None \<longrightarrow> conns s' p = None)"
proof (induction cs arbitrary: s)
  case (Cons co cs)
  show ?case
  proof (cases "possible co s")
    case True
    with Cons.prems obtain s1 where s1: "main_turn co (kernel_completes co s) = Inr s1" "run possible cs s1 = Inr s'"
      by (auto simp: outcome_simps)
    from deaf_turn [OF Cons.prems(1) True s1(1), of p] Cons.IH [OF _ s1(2)] show ?thesis by blast
  qed (use Cons in simp)
qed simp

text \<open>When the address of one peer cannot be found, the server returns without starting the next accept.
  It serves the connections it has, and no client is ever accepted again.\<close>

lemma iocp_goes_deaf:
  assumes "possible co s" "okay co" "opt_ok co" "\<not> peer_ok co" "key co = listenfd s" "run possible (co # cs) s = Inr s'"
  shows "accepting s' = None \<and> (conns s p = None \<longrightarrow> conns s' p = None)"
proof -
  have "run possible cs (s\<lparr>accepting := None\<rparr>) = Inr s'"
    using assms by (simp add: main_turn_def kernel_completes_def handle_new_connection_def DIE_def)
  from deaf_run [OF _ this, of p] show ?thesis by simp
qed

end
