(* ===== verification/VMem.thy ===== *)
theory VMem
  imports Channels "HOL-Library.While_Combinator" "HOL-Library.Signed_Division"
begin

text \<open>
  The programs of the sixth laboratory on virtual memory: pages whose protection is raised by the
  handler of the fault (\<^verbatim>\<open>lin/5-prot/prot.c\<close>, \<^verbatim>\<open>win/4-prot/libvm.c\<close>), an allocator whose blocks end at
  a guard page (\<^verbatim>\<open>win/5-my_efence/my_efence.c\<close>), and copying a file through mappings
  (\<^verbatim>\<open>lin/4-cp/mycp.c\<close>).
\<close>

section \<open>Protected pages\<close>

text \<open>
  Three pages from the address \<open>base\<close>: the array \<^verbatim>\<open>how\<close> of the program, the protections the
  hardware knows, the bytes, and what was printed.
\<close>

record 'p vm =
  base :: int
  pageSize :: int
  how :: "'p list"
  mmu :: "'p list"
  bytes :: "int \<Rightarrow> byte"
  log :: "('p \<times> int) list"

datatype access = Load | Store byte

definition page_at :: "'p vm \<Rightarrow> int \<Rightarrow> nat option" where
  "page_at s addr =
     (if base s \<le> addr \<and> addr < base s + 3 * pageSize s then Some (nat ((addr - base s) div pageSize s)) else None)"

definition faults :: "('p \<Rightarrow> access \<Rightarrow> bool) \<Rightarrow> access \<Rightarrow> int \<Rightarrow> 'p vm \<Rightarrow> bool" where
  "faults allowed acc addr s = (case page_at s addr of None \<Rightarrow> True | Some i \<Rightarrow> \<not> allowed (mmu s ! i) acc)"

text \<open>\<^verbatim>\<open>mprotect(p + page * pageSize, pageSize, prot)\<close>.\<close>

definition mprotect :: "int \<Rightarrow> 'p \<Rightarrow> 'p vm \<Rightarrow> 'p vm" where
  "mprotect page pr s = s\<lparr>mmu := (mmu s)[nat page := pr]\<rparr>"

text \<open>
  An instruction that faults is tried again when the handler returns; \<^const>\<open>None\<close> means that
  this never ends.
\<close>

definition retry :: "(int \<Rightarrow> 'p vm \<Rightarrow> 'p vm outcome) \<Rightarrow> ('p \<Rightarrow> access \<Rightarrow> bool) \<Rightarrow> access \<Rightarrow> int \<Rightarrow> 'p vm \<Rightarrow> 'p vm outcome option" where
  "retry handler allowed acc addr s =
     while_option (\<lambda>r. case r of Inl e \<Rightarrow> False | Inr s \<Rightarrow> faults allowed acc addr s)
       (\<lambda>r. obind r (handler addr)) (Inr s)"

definition perform :: "access \<Rightarrow> int \<Rightarrow> 'p vm \<Rightarrow> 'p vm" where
  "perform acc addr s = (case acc of Load \<Rightarrow> s | Store b \<Rightarrow> s\<lparr>bytes := (bytes s)(addr := b)\<rparr>)"

definition access :: "(int \<Rightarrow> 'p vm \<Rightarrow> 'p vm outcome) \<Rightarrow> ('p \<Rightarrow> access \<Rightarrow> bool) \<Rightarrow> access \<Rightarrow> int \<Rightarrow> 'p vm \<Rightarrow> 'p vm outcome option" where
  "access handler allowed acc addr s =
     map_option (\<lambda>r. obind r (\<lambda>s. Inr (perform acc addr s))) (retry handler allowed acc addr s)"

subsection \<open>Linux\<close>

datatype prot = PROT_NONE | PROT_READ | PROT_WRITE

text \<open>On the machines of the course a page that can be written can be read.\<close>

fun prot_allows :: "prot \<Rightarrow> access \<Rightarrow> bool" where
  "prot_allows PROT_NONE a = False"
| "prot_allows PROT_READ a = (a = Load)"
| "prot_allows PROT_WRITE a = True"

text \<open>
  The handler gets only \<^verbatim>\<open>SIGSEGV\<close>, the one signal it is installed for.  The handler it
  replaced is the default, a null pointer, so calling it is not a return.
\<close>

definition segv_handler :: "int \<Rightarrow> prot vm \<Rightarrow> prot vm outcome" where
  "segv_handler addr s =
     (let page = (addr - base s) sdiv pageSize s in
      if \<not> (page \<ge> 0 \<and> page < 3) then Inl Undefined
      else if how s ! nat page = PROT_NONE then
        let s = mprotect page PROT_READ (s\<lparr>how := (how s)[nat page := PROT_READ]\<rparr>)
        in Inr (s\<lparr>log := log s @ [(PROT_READ, page)]\<rparr>)
      else
        let s = mprotect page PROT_WRITE (s\<lparr>how := (how s)[nat page := PROT_WRITE]\<rparr>)
        in Inr (s\<lparr>log := log s @ [(PROT_WRITE, page)]\<rparr>))"

definition prot_start :: "int \<Rightarrow> int \<Rightarrow> prot vm" where
  "prot_start p ps =
     mprotect 2 PROT_WRITE (mprotect 1 PROT_READ (mprotect 0 PROT_NONE
       \<lparr>base = p, pageSize = ps, how = [PROT_NONE, PROT_READ, PROT_WRITE], mmu = replicate 3 PROT_NONE,
        bytes = \<lambda>_. 0, log = []\<rparr>))"

text \<open>A list of accesses, each at a page and an offset in it.\<close>

fun accesses :: "(int \<Rightarrow> 'p vm \<Rightarrow> 'p vm outcome) \<Rightarrow> ('p \<Rightarrow> access \<Rightarrow> bool) \<Rightarrow> (access \<times> int) list \<Rightarrow> 'p vm \<Rightarrow> 'p vm outcome option" where
  "accesses handler allowed [] s = Some (Inr s)"
| "accesses handler allowed ((acc, addr) # as) s =
     (case access handler allowed acc addr s of
        None \<Rightarrow> None
      | Some (Inl e) \<Rightarrow> Some (Inl e)
      | Some (Inr s') \<Rightarrow> accesses handler allowed as s')"

text \<open>The accesses of \<^verbatim>\<open>main\<close>: each of the three pages is read and written.\<close>

definition six_accesses :: "int \<Rightarrow> int \<Rightarrow> (access \<times> int) list" where
  "six_accesses p ps =
     [(Load, p + 0 * ps), (Store 97, p + 0 * ps), (Load, p + 1 * ps), (Store 97, p + 1 * ps),
      (Load, p + 2 * ps), (Store 97, p + 2 * ps)]"

definition prot_main :: "int \<Rightarrow> int \<Rightarrow> prot vm outcome option" where
  "prot_main p ps = accesses segv_handler prot_allows (six_accesses p ps) (prot_start p ps)"

subsection \<open>Windows\<close>

datatype page_prot = PAGE_NOACCESS | PAGE_READONLY | PAGE_READWRITE

fun page_allows :: "page_prot \<Rightarrow> access \<Rightarrow> bool" where
  "page_allows PAGE_NOACCESS a = False"
| "page_allows PAGE_READONLY a = (a = Load)"
| "page_allows PAGE_READWRITE a = True"

text \<open>\<^verbatim>\<open>EXCEPTION_CONTINUE_SEARCH\<close> finds no other handler, and the process ends.\<close>

definition access_violation :: "int \<Rightarrow> page_prot vm \<Rightarrow> page_prot vm outcome" where
  "access_violation addr s =
     (let pageNo = (addr - base s) sdiv pageSize s in
      if \<not> (pageNo \<ge> 0 \<and> pageNo < 3) then Inl Undefined
      else if how s ! nat pageNo = PAGE_NOACCESS then
        let s = mprotect pageNo PAGE_READONLY (s\<lparr>how := (how s)[nat pageNo := PAGE_READONLY]\<rparr>)
        in Inr (s\<lparr>log := log s @ [(PAGE_READONLY, pageNo)]\<rparr>)
      else
        let s = mprotect pageNo PAGE_READWRITE (s\<lparr>how := (how s)[nat pageNo := PAGE_READWRITE]\<rparr>)
        in Inr (s\<lparr>log := log s @ [(PAGE_READWRITE, pageNo)]\<rparr>))"

definition libvm_start :: "int \<Rightarrow> page_prot vm" where
  "libvm_start p =
     mprotect 2 PAGE_READWRITE (mprotect 1 PAGE_READONLY (mprotect 0 PAGE_NOACCESS
       \<lparr>base = p, pageSize = 4096, how = [PAGE_NOACCESS, PAGE_READONLY, PAGE_READWRITE], mmu = replicate 3 PAGE_NOACCESS,
        bytes = \<lambda>_. 0, log = []\<rparr>))"

definition libvm_main :: "int \<Rightarrow> page_prot vm outcome option" where
  "libvm_main p = accesses access_violation page_allows (six_accesses p 4096) (libvm_start p)"

section \<open>Raising a protection\<close>

definition vm_ok :: "'p vm \<Rightarrow> bool" where
  "vm_ok s \<longleftrightarrow> length (how s) = 3 \<and> mmu s = how s \<and> 0 < pageSize s"

text \<open>Page \<open>i\<close> gets protection \<open>q\<close>, and this is printed.\<close>

definition raised :: "nat \<Rightarrow> 'p \<Rightarrow> 'p vm \<Rightarrow> 'p vm" where
  "raised i q s = s\<lparr>how := (how s)[i := q], mmu := (mmu s)[i := q], log := log s @ [(q, int i)]\<rparr>"

text \<open>The state in which an access at page \<open>i\<close> succeeds: after at most two faults.\<close>

definition after_faults :: "('p \<Rightarrow> access \<Rightarrow> bool) \<Rightarrow> 'p \<Rightarrow> 'p \<Rightarrow> 'p \<Rightarrow> access \<Rightarrow> nat \<Rightarrow> 'p vm \<Rightarrow> 'p vm" where
  "after_faults allowed none rd wr acc i s =
     (if allowed (how s ! i) acc then s
      else if how s ! i = none then (if acc = Load then raised i rd s else raised i wr (raised i rd s))
      else raised i wr s)"

text \<open>
  What a list of accesses should do to one page and to the bytes: a write needs the highest protection, a read any but
  the lowest, and the last byte written to an address stays.  \<open>climbs\<close> are the levels passed from one protection to
  another.
\<close>

definition raise_for :: "'p \<Rightarrow> 'p \<Rightarrow> 'p \<Rightarrow> access \<Rightarrow> 'p \<Rightarrow> 'p" where
  "raise_for none rd wr acc q = (case acc of Store _ \<Rightarrow> wr | Load \<Rightarrow> if q = none then rd else q)"

definition on_page :: "int \<Rightarrow> int \<Rightarrow> nat \<Rightarrow> (access \<times> int) list \<Rightarrow> (access \<times> int) list" where
  "on_page p ps i as = filter (\<lambda>(acc, addr). (addr - p) div ps = int i) as"

definition climbs :: "'p \<Rightarrow> 'p \<Rightarrow> 'p \<Rightarrow> 'p \<Rightarrow> 'p \<Rightarrow> 'p list" where
  "climbs none rd wr q q' =
     (if q = q' then [] else if q = none then (if q' = rd then [rd] else [rd, wr]) else [wr])"

definition written :: "(access \<times> int) list \<Rightarrow> (int \<Rightarrow> byte) \<Rightarrow> int \<Rightarrow> byte" where
  "written as m = fold (\<lambda>(acc, addr) m. case acc of Load \<Rightarrow> m | Store b \<Rightarrow> m(addr := b)) as m"

definition served :: "'p \<Rightarrow> 'p \<Rightarrow> 'p \<Rightarrow> (access \<times> int) list \<Rightarrow> 'p vm \<Rightarrow> 'p vm \<Rightarrow> bool" where
  "served none rd wr as s s' \<longleftrightarrow>
     base s' = base s \<and> pageSize s' = pageSize s \<and> bytes s' = written as (bytes s) \<and> mmu s' = how s' \<and> length (how s') = 3
     \<and> (\<forall>i < 3. how s' ! i = fold (raise_for none rd wr) (map fst (on_page (base s) (pageSize s) i as)) (how s ! i)
          \<and> map fst (filter (\<lambda>e. snd e = int i) (log s'))
            = map fst (filter (\<lambda>e. snd e = int i) (log s)) @ climbs none rd wr (how s ! i) (how s' ! i))"

lemma sdiv_page:
  fixes a b :: int
  assumes "0 < b"
  shows "0 \<le> a \<Longrightarrow> a sdiv b = a div b" and "- b < a \<Longrightarrow> a < 0 \<Longrightarrow> a sdiv b = 0"
    and "a \<le> - b \<Longrightarrow> a sdiv b < 0" and "3 * b \<le> a \<Longrightarrow> 3 \<le> a sdiv b"
proof -
  show 1: "a sdiv b = a div b" if "0 \<le> a" for a using assms that by (cases "a = 0") (auto simp: signed_divide_int_def)
  show "a sdiv b = 0" if "- b < a" "a < 0" using assms that by (simp add: signed_divide_int_def)
  show "a sdiv b < 0" if "a \<le> - b"
  proof -
    have "1 \<le> (- a) div b" using that assms zdiv_mono1 [of b "- a" b] by simp
    with assms that show ?thesis by (simp add: signed_divide_int_def sgn_if)
  qed
  show "3 \<le> a sdiv b" if "3 * b \<le> a"
    using that assms 1 [of a] zdiv_mono1 [of "3 * b" a b] by simp
qed

lemma page_div_less:
  fixes a b :: int
  assumes "0 < b" "a < 3 * b" shows "a div b < 3"
proof (rule ccontr)
  assume "\<not> ?thesis"
  then have "3 * b \<le> a div b * b" using assms(1) by (intro mult_right_mono) auto
  also have "\<dots> \<le> a" using pos_mod_sign [OF assms(1), of a] minus_mod_eq_div_mult [of a b] by linarith
  finally show False using assms(2) by simp
qed

text \<open>The page a handler computes: rounded towards zero, so that just below the first page it is the first.\<close>

lemma fault_page:
  assumes "vm_ok s" "base s - pageSize s < addr" "addr < base s + 3 * pageSize s"
    and "i = (if addr < base s then 0 else nat ((addr - base s) div pageSize s))"
  shows "(addr - base s) sdiv pageSize s = int i \<and> i < 3"
proof -
  have ps: "0 < pageSize s" using assms(1) by (simp add: vm_ok_def)
  show ?thesis
  proof (cases "addr < base s")
    case True
    with assms sdiv_page(2) [OF ps] show ?thesis by simp
  next
    case False
    with assms sdiv_page(1) [OF ps] page_div_less [OF ps, of "addr - base s"] ps show ?thesis
      by (simp add: pos_imp_zdiv_nonneg_iff)
  qed
qed

lemma no_page:
  assumes "vm_ok s" "addr \<le> base s - pageSize s \<or> base s + 3 * pageSize s \<le> addr"
  shows "\<not> (0 \<le> (addr - base s) sdiv pageSize s \<and> (addr - base s) sdiv pageSize s < 3)"
  using assms sdiv_page(3,4) [of "pageSize s" "addr - base s"] by (auto simp: vm_ok_def)

locale granting =
  fixes handler :: "int \<Rightarrow> 'p vm \<Rightarrow> 'p vm outcome" and allowed :: "'p \<Rightarrow> access \<Rightarrow> bool" and none rd wr :: 'p
  assumes levels: "distinct [none, rd, wr]"
    and allows: "allowed none a = False" "allowed rd a = (a = Load)" "allowed wr a = True"
    and grants: "vm_ok s \<Longrightarrow> base s - pageSize s < addr \<Longrightarrow> addr < base s + 3 * pageSize s \<Longrightarrow>
      i = (if addr < base s then 0 else nat ((addr - base s) div pageSize s)) \<Longrightarrow>
      handler addr s = Inr (raised i (if how s ! i = none then rd else wr) s)"
    and passes_on: "vm_ok s \<Longrightarrow> addr \<le> base s - pageSize s \<or> base s + 3 * pageSize s \<le> addr \<Longrightarrow> handler addr s = Inl Undefined"
begin

lemma raised_ok: "vm_ok s \<Longrightarrow> vm_ok (raised i q s)"
  by (simp add: vm_ok_def raised_def)

lemma page_at_bounds: "vm_ok s \<Longrightarrow> page_at s addr = Some i \<Longrightarrow> i < 3 \<and> base s \<le> addr \<and> addr < base s + 3 * pageSize s
    \<and> i = nat ((addr - base s) div pageSize s)"
  using page_div_less [of "pageSize s" "addr - base s"] by (auto simp: vm_ok_def page_at_def split: if_splits)

lemma handler_inside: "vm_ok s \<Longrightarrow> page_at s addr = Some i \<Longrightarrow> handler addr s = Inr (raised i (if how s ! i = none then rd else wr) s)"
  using page_at_bounds [of s addr i] grants [of s addr i] by (auto simp: vm_ok_def)

lemma retry_step:
  "retry handler allowed acc addr s =
     (if faults allowed acc addr s
      then case handler addr s of Inl e \<Rightarrow> Some (Inl e) | Inr s' \<Rightarrow> retry handler allowed acc addr s'
      else Some (Inr s))"
  by (cases "handler addr s")
    (simp_all add: retry_def while_option_unfold [of _ _ "Inr s"] while_option_unfold [of _ _ "Inl _"])

lemma page_at_raised [simp]: "page_at (raised i q s) addr = page_at s addr"
  by (simp add: page_at_def raised_def)

lemma retry_inside:
  assumes "vm_ok s" "page_at s addr = Some i"
  shows "retry handler allowed acc addr s = Some (Inr (after_faults allowed none rd wr acc i s))"
proof -
  have i: "i < 3" using page_at_bounds [OF assms] by simp
  have f: "faults allowed acc addr s' \<longleftrightarrow> \<not> allowed (how s' ! i) acc" if "vm_ok s'" "page_at s' addr = Some i" for s'
    using that by (simp add: faults_def vm_ok_def)
  have h: "how (raised i q s') ! i = q" if "vm_ok s'" for q s' using that i by (simp add: raised_def vm_ok_def)
  have wr: "retry handler allowed acc addr (raised i wr s') = Some (Inr (raised i wr s'))" if "vm_ok s'" "page_at s' addr = Some i" for s'
    using retry_step [of acc addr "raised i wr s'"] f [of "raised i wr s'"] h [OF that(1)] raised_ok [OF that(1)] that allows by simp
  have up: "retry handler allowed acc addr s' = Some (Inr (raised i wr s'))"
    if "vm_ok s'" "page_at s' addr = Some i" "\<not> allowed (how s' ! i) acc" "how s' ! i \<noteq> none" for s'
    using retry_step [of acc addr s'] f [of s'] wr handler_inside that by simp
  show ?thesis
  proof (cases "allowed (how s ! i) acc")
    case True
    then show ?thesis using retry_step [of acc addr s] f [OF assms] by (simp add: after_faults_def)
  next
    case no: False
    show ?thesis
    proof (cases "how s ! i = none")
      case True
      let ?t = "raised i rd s"
      have t: "vm_ok ?t" "page_at ?t addr = Some i" "how ?t ! i = rd" using raised_ok assms h by auto
      have 1: "retry handler allowed acc addr s = retry handler allowed acc addr ?t"
        using retry_step [of acc addr s] f [OF assms] no handler_inside [OF assms] True by simp
      have 2: "retry handler allowed acc addr ?t = Some (Inr (if acc = Load then ?t else raised i wr ?t))"
        using retry_step [of acc addr ?t] f [OF t(1,2)] t allows up [OF t(1,2)] levels by auto
      show ?thesis using 1 2 no True by (simp add: after_faults_def)
    next
      case False
      then show ?thesis using up [OF assms no] no by (simp add: after_faults_def)
    qed
  qed
qed

lemma levels_differ [simp]: "none \<noteq> rd" "none \<noteq> wr" "rd \<noteq> wr" "rd \<noteq> none" "wr \<noteq> none" "wr \<noteq> rd"
  using levels by auto

lemma raise_level: "q \<in> {none, rd, wr} \<Longrightarrow> fold (raise_for none rd wr) as q \<in> {none, rd, wr}"
  by (induction as arbitrary: q) (auto simp: raise_for_def split: access.splits)

lemma raise_level_up: "fold (raise_for none rd wr) as wr = wr" "fold (raise_for none rd wr) as rd \<in> {rd, wr}"
proof -
  have step: "raise_for none rd wr Load q = (if q = none then rd else q)" "raise_for none rd wr (Store b) q = wr" for q b
    by (simp_all add: raise_for_def)
  have wr: "fold (raise_for none rd wr) xs wr = wr" for xs
  proof (induction xs)
    case (Cons x xs)
    then show ?case by (cases x) (simp_all add: step)
  qed simp
  then show "fold (raise_for none rd wr) as wr = wr" .
  show "fold (raise_for none rd wr) as rd \<in> {rd, wr}"
  proof (induction as)
    case (Cons x xs)
    then show ?case by (cases x) (simp_all add: step wr)
  qed simp
qed

lemma climbs_on:
  "q \<in> {none, rd, wr} \<Longrightarrow>
    climbs none rd wr q (raise_for none rd wr acc q) @ climbs none rd wr (raise_for none rd wr acc q) (fold (raise_for none rd wr) as (raise_for none rd wr acc q))
      = climbs none rd wr q (fold (raise_for none rd wr) as (raise_for none rd wr acc q))"
  using raise_level [of none as] raise_level_up [of as]
  by (cases acc) (auto simp: climbs_def raise_for_def)

text \<open>One access inside, from levels that are among the three.\<close>

lemma access_inside:
  fixes acc
  assumes "vm_ok s" "set (how s) \<subseteq> {none, rd, wr}" "page_at s addr = Some i"
  defines "s' \<equiv> perform acc addr (after_faults allowed none rd wr acc i s)"
  shows "access handler allowed acc addr s = Some (Inr s')" "vm_ok s'" "base s' = base s" "pageSize s' = pageSize s"
    "how s' = (how s)[i := raise_for none rd wr acc (how s ! i)]" "bytes s' = written [(acc, addr)] (bytes s)"
    "log s' = log s @ map (\<lambda>q. (q, int i)) (climbs none rd wr (how s ! i) (raise_for none rd wr acc (how s ! i)))"
proof -
  show "access handler allowed acc addr s = Some (Inr s')"
    using retry_inside [OF assms(1,3), of acc] by (simp add: access_def s'_def)
  have i: "i < length (how s)" using page_at_bounds [OF assms(1,3)] assms(1) by (simp add: vm_ok_def)
  then have q: "how s ! i \<in> {none, rd, wr}" using assms(2) nth_mem by blast
  have m: "mmu s = how s" "length (how s) = 3" using assms(1) by (simp_all add: vm_ok_def)
  let ?q = "raise_for none rd wr acc (how s ! i)"
  have fields: "bytes (perform acc addr t) = written [(acc, addr)] (bytes t)" "how (perform acc addr t) = how t" "mmu (perform acc addr t) = mmu t"
    "base (perform acc addr t) = base t" "pageSize (perform acc addr t) = pageSize t" "log (perform acc addr t) = log t" for acc addr and t :: "'p vm"
    by (auto simp: perform_def written_def split: access.splits)
  have "vm_ok s' \<and> base s' = base s \<and> pageSize s' = pageSize s \<and> how s' = (how s)[i := ?q] \<and> bytes s' = written [(acc, addr)] (bytes s)
    \<and> log s' = log s @ map (\<lambda>q. (q, int i)) (climbs none rd wr (how s ! i) ?q)"
  proof (cases "allowed (how s ! i) acc")
    case True
    from q have "how s ! i = none \<or> how s ! i = rd \<or> how s ! i = wr" by auto
    with True have "?q = how s ! i" by (elim disjE; cases acc) (simp_all add: raise_for_def allows)
    with True show ?thesis using m assms(1) by (simp add: s'_def after_faults_def fields vm_ok_def climbs_def)
  next
    case False
    from q have "how s ! i = none \<or> how s ! i = rd \<or> how s ! i = wr" by auto
    with False consider "how s ! i = none" "acc = Load" | b where "how s ! i = none" "acc = Store b" | b where "how s ! i = rd" "acc = Store b"
      by (elim disjE; cases acc) (simp_all add: allows)
    then show ?thesis using m assms(1) False i
      by cases (simp_all add: s'_def after_faults_def fields vm_ok_def climbs_def raise_for_def raised_def)
  qed
  then show "vm_ok s'" "base s' = base s" "pageSize s' = pageSize s" "how s' = (how s)[i := ?q]" "bytes s' = written [(acc, addr)] (bytes s)"
    "log s' = log s @ map (\<lambda>q. (q, int i)) (climbs none rd wr (how s ! i) ?q)" by simp_all
qed

lemma accesses_inside:
  assumes "vm_ok s" "set (how s) \<subseteq> {none, rd, wr}" "\<forall>(acc, addr) \<in> set as. base s \<le> addr \<and> addr < base s + 3 * pageSize s"
  shows "\<exists>s'. accesses handler allowed as s = Some (Inr s') \<and> served none rd wr as s s'"
  using assms
proof (induction as arbitrary: s)
  case Nil
  then show ?case by (simp add: served_def on_page_def written_def climbs_def vm_ok_def)
next
  case (Cons a as)
  obtain acc addr where a: "a = (acc, addr)" by (cases a)
  obtain j where at: "page_at s addr = Some j" using Cons.prems(3) a by (auto simp: page_at_def)
  note one = access_inside [OF Cons.prems(1,2) at, of acc]
  define s1 where "s1 = perform acc addr (after_faults allowed none rd wr acc j s)"
  note one = one [folded s1_def]
  have j: "j < 3" "int j = (addr - base s) div pageSize s" "length (how s) = 3"
    using page_at_bounds [OF Cons.prems(1) at] Cons.prems(1) a Cons.prems(3) by (auto simp: vm_ok_def pos_imp_zdiv_nonneg_iff)
  then have q: "how s ! i \<in> {none, rd, wr}" if "i < 3" for i using Cons.prems(2) nth_mem that by (metis subsetD)
  have "raise_for none rd wr acc (how s ! j) \<in> {none, rd, wr}" using raise_level [of "how s ! j" "[acc]"] q j(1) by simp
  then have "set (how s1) \<subseteq> {none, rd, wr}" using Cons.prems(2) set_update_subset_insert unfolding one(5) by fastforce
  then obtain s' where s': "accesses handler allowed as s1 = Some (Inr s')" "served none rd wr as s1 s'"
    using Cons.IH [of s1] one(2-4) Cons.prems(3) by auto
  have pages: "on_page (base s) (pageSize s) i (a # as) = (if i = j then [a] else []) @ on_page (base s) (pageSize s) i as" for i
    using j(2) by (auto simp: on_page_def a)
  have "how s' ! i = fold (raise_for none rd wr) (map fst (on_page (base s) (pageSize s) i (a # as))) (how s ! i)
      \<and> map fst (filter (\<lambda>e. snd e = int i) (log s'))
        = map fst (filter (\<lambda>e. snd e = int i) (log s)) @ climbs none rd wr (how s ! i) (how s' ! i)" if "i < 3" for i
  proof (cases "i = j")
    case True
    have f: "filter (\<lambda>e. snd e = int i) (map (\<lambda>q. (q, int i)) qs) = map (\<lambda>q. (q, int i)) qs" for qs :: "'p list"
      by (induction qs) auto
    show ?thesis
      using s'(2) that one(3-7) pages [of i] True a j(3) f climbs_on [OF q [OF that]] by (simp add: served_def comp_def)
  next
    case False
    have f: "filter (\<lambda>e. snd e = int i) (map (\<lambda>q. (q, int j)) qs) = []" for qs :: "'p list"
      using False by (induction qs) auto
    show ?thesis using s'(2) that one(3-7) pages [of i] False f by (simp add: served_def)
  qed
  with s' one(1,3,4,6) show ?case by (simp add: a served_def written_def)
qed

lemma retry_outside:
  assumes "vm_ok s" "addr \<le> base s - pageSize s \<or> base s + 3 * pageSize s \<le> addr"
  shows "retry handler allowed acc addr s = Some (Inl Undefined)"
proof -
  have "faults allowed acc addr s" using assms by (auto simp: faults_def page_at_def vm_ok_def)
  with passes_on [OF assms] show ?thesis by (simp add: retry_step [of acc addr s])
qed

text \<open>Just below the first page the quotient is rounded to page 0: the handler raises that and the access faults again.\<close>

lemma retry_below:
  assumes "vm_ok s" "base s - pageSize s < addr" "addr < base s"
  shows "retry handler allowed acc addr s = None"
proof (rule ccontr)
  let ?b = "\<lambda>r. case r of Inl e \<Rightarrow> False | Inr s \<Rightarrow> faults allowed acc addr s"
  let ?P = "\<lambda>r :: 'p vm outcome. \<exists>t. r = Inr t \<and> vm_ok t \<and> base t = base s \<and> pageSize t = pageSize s"
  assume "retry handler allowed acc addr s \<noteq> None"
  then obtain r where r: "while_option ?b (\<lambda>r. obind r (handler addr)) (Inr s) = Some r" by (auto simp: retry_def)
  have "?P r"
  proof (rule while_option_rule [where P = ?P, OF _ r])
    fix u assume "?P u"
    then obtain t where t: "u = Inr t" "vm_ok t" "base t = base s" "pageSize t = pageSize s" by blast
    then have "handler addr t = Inr (raised 0 (if how t ! 0 = none then rd else wr) t)"
      using assms by (intro grants) auto
    with t show "?P (obind u (handler addr))" by (auto simp: raised_ok) (simp_all add: raised_def)
  qed (use assms in auto)
  then have "?b r" using assms(3) by (auto simp: faults_def page_at_def)
  with while_option_stop [OF r] show False by simp
qed

end

interpretation lx: granting segv_handler prot_allows PROT_NONE PROT_READ PROT_WRITE
proof
  fix s :: "prot vm" and addr i
  assume ok: "vm_ok s"
  show "segv_handler addr s = Inr (raised i (if how s ! i = PROT_NONE then PROT_READ else PROT_WRITE) s)"
    if "base s - pageSize s < addr" "addr < base s + 3 * pageSize s"
      "i = (if addr < base s then 0 else nat ((addr - base s) div pageSize s))"
    using fault_page [OF ok that] by (simp add: segv_handler_def mprotect_def raised_def)
  show "segv_handler addr s = Inl Undefined" if "addr \<le> base s - pageSize s \<or> base s + 3 * pageSize s \<le> addr"
    using no_page [OF ok that] by (auto simp: segv_handler_def)
qed simp_all

interpretation win: granting access_violation page_allows PAGE_NOACCESS PAGE_READONLY PAGE_READWRITE
proof
  fix s :: "page_prot vm" and addr i
  assume ok: "vm_ok s"
  show "access_violation addr s = Inr (raised i (if how s ! i = PAGE_NOACCESS then PAGE_READONLY else PAGE_READWRITE) s)"
    if "base s - pageSize s < addr" "addr < base s + 3 * pageSize s"
      "i = (if addr < base s then 0 else nat ((addr - base s) div pageSize s))"
    using fault_page [OF ok that] by (simp add: access_violation_def mprotect_def raised_def)
  show "access_violation addr s = Inl Undefined" if "addr \<le> base s - pageSize s \<or> base s + 3 * pageSize s \<le> addr"
    using no_page [OF ok that] by (auto simp: access_violation_def)
qed simp_all

section \<open>The pages of the two programs\<close>

lemma prot_start_ok: "0 < ps \<Longrightarrow> vm_ok (prot_start p ps)"
  by (simp add: vm_ok_def prot_start_def mprotect_def numeral_3_eq_3)

lemma libvm_start_ok: "vm_ok (libvm_start p)"
  by (simp add: vm_ok_def libvm_start_def mprotect_def numeral_3_eq_3)

lemma start_page:
  "0 \<le> d \<Longrightarrow> d < ps \<Longrightarrow> page_at (prot_start p ps) (p + d) = Some 0"
  "0 \<le> d \<Longrightarrow> d < 4096 \<Longrightarrow> page_at (libvm_start p) (p + d) = Some 0"
  by (simp_all add: page_at_def prot_start_def libvm_start_def mprotect_def)

lemma start_base:
  "base (prot_start p ps) = p" "pageSize (prot_start p ps) = ps" "base (libvm_start p) = p" "pageSize (libvm_start p) = 4096"
  by (simp_all add: prot_start_def libvm_start_def mprotect_def)

lemma page_at_multiple:
  "0 < pageSize s \<Longrightarrow> k < 3 \<Longrightarrow> page_at s (base s + int k * pageSize s) = Some k"
  by (simp add: page_at_def)

lemma start_how:
  "how (prot_start p ps) = [PROT_NONE, PROT_READ, PROT_WRITE]" "log (prot_start p ps) = []" "bytes (prot_start p ps) = (\<lambda>_. 0)"
  "how (libvm_start p) = [PAGE_NOACCESS, PAGE_READONLY, PAGE_READWRITE]" "log (libvm_start p) = []" "bytes (libvm_start p) = (\<lambda>_. 0)"
  by (simp_all add: prot_start_def libvm_start_def mprotect_def)

text \<open>C31: From the start of the two programs any list of reads and writes inside the three pages ends, with every access
  served: on Linux and on Windows each address holds the last byte written to it, each page has the protection that the accesses to it
  need and the one it began with if that is higher, and what was printed is, for each page, the levels that it was raised through,
  one at a time, and no other.\<close>

theorem accesses_are_granted:
  assumes "0 < ps" "\<forall>(acc, addr) \<in> set as. p \<le> addr \<and> addr < p + 3 * ps"
    and "\<forall>(acc, addr) \<in> set bs. q \<le> addr \<and> addr < q + 3 * 4096"
  shows "(\<exists>s. accesses segv_handler prot_allows as (prot_start p ps) = Some (Inr s)
      \<and> served PROT_NONE PROT_READ PROT_WRITE as (prot_start p ps) s)
    \<and> (\<exists>t. accesses access_violation page_allows bs (libvm_start q) = Some (Inr t)
      \<and> served PAGE_NOACCESS PAGE_READONLY PAGE_READWRITE bs (libvm_start q) t)"
  using lx.accesses_inside [OF prot_start_ok [OF assms(1), of p], of as] win.accesses_inside [OF libvm_start_ok [of q], of bs] assms(2,3)
  by (simp add: start_how start_base)

text \<open>A write to the first page, a read of the second and a write to the third.\<close>

theorem accesses_are_granted_witness:
  "\<exists>s. accesses segv_handler prot_allows [(Store 97, 4096), (Load, 8193), (Store 98, 12289)] (prot_start 4096 4096) = Some (Inr s)
    \<and> how s = [PROT_WRITE, PROT_READ, PROT_WRITE] \<and> bytes s 4096 = 97 \<and> bytes s 12289 = 98
    \<and> map fst (filter (\<lambda>e. snd e = 0) (log s)) = [PROT_READ, PROT_WRITE]"
proof -
  let ?as = "[(Store 97, 4096), (Load, 8193), (Store 98, 12289)] :: (access \<times> int) list"
  obtain s where s: "accesses segv_handler prot_allows ?as (prot_start 4096 4096) = Some (Inr s)"
    "served PROT_NONE PROT_READ PROT_WRITE ?as (prot_start 4096 4096) s"
    using accesses_are_granted [of 4096 ?as 4096 "[]" 4096] by auto
  have pages: "on_page 4096 4096 0 ?as = [(Store 97, 4096)]" "on_page 4096 4096 1 ?as = [(Load, 8193)]"
    "on_page 4096 4096 2 ?as = [(Store 98, 12289)]" by (simp_all add: on_page_def)
  have how: "how s ! 0 = PROT_WRITE" "how s ! 1 = PROT_READ" "how s ! 2 = PROT_WRITE" "length (how s) = 3"
    using s(2) pages by (auto simp: served_def start_base start_how raise_for_def)
  then have "how s = [PROT_WRITE, PROT_READ, PROT_WRITE]"
    by (auto simp: numeral_3_eq_3 numeral_2_eq_2 length_Suc_conv)
  moreover have "bytes s 4096 = 97" "bytes s 12289 = 98" using s(2) by (simp_all add: served_def written_def start_how)
  moreover have "map fst (filter (\<lambda>e. snd e = int 0) (log s)) = [PROT_READ, PROT_WRITE]"
    using s(2) how(1) by (auto simp: served_def start_how climbs_def dest: spec [of _ 0])
  ultimately show ?thesis using s(1) by auto
qed

text \<open>A byte less than a page below the first page belongs to none, but both handlers take it for a byte of
  the first page, because the division rounds towards zero.  The access never returns, and
  the first page ends up writable.\<close>

theorem below_the_pages:
  assumes "vm_ok s" "base s - pageSize s < addr" "addr < base s"
    and "vm_ok t" "base t - pageSize t < addr" "addr < base t"
  shows "access segv_handler prot_allows acc addr s = None \<and> access access_violation page_allows acc addr t = None"
  using lx.retry_below [OF assms(1-3)] win.retry_below [OF assms(4-6)] by (simp add: access_def)

theorem below_the_pages_witness:
  "access segv_handler prot_allows Load 8191 (prot_start 8192 4096) = None"
  using below_the_pages [of "prot_start 8192 4096" 8191 "libvm_start 8192" Load]
    prot_start_ok [of 4096 8192] libvm_start_ok [of 8192] by (simp add: start_base)

text \<open>The run of \<^verbatim>\<open>main\<close>: three faults, and every page is writable at the end.\<close>

lemma access_page:
  assumes "vm_ok s" "base s = p" "pageSize s = ps" "k < 3"
  shows "access segv_handler prot_allows acc (p + int k * ps) s
    = Some (Inr (perform acc (p + int k * ps) (after_faults prot_allows PROT_NONE PROT_READ PROT_WRITE acc k s)))"
  using lx.retry_inside [OF assms(1) page_at_multiple, of k acc] assms by (auto simp: access_def vm_ok_def)

lemma prot_main_result:
  assumes "0 < ps"
  shows "\<exists>s. prot_main p ps = Some (Inr s) \<and> how s = [PROT_WRITE, PROT_WRITE, PROT_WRITE]
    \<and> log s = [(PROT_READ, 0), (PROT_WRITE, 0), (PROT_WRITE, 1)]
    \<and> bytes s p = 97 \<and> bytes s (p + ps) = 97 \<and> bytes s (p + 2 * ps) = 97"
proof -
  note go = access_page [of _ p ps 0, simplified] access_page [of _ p ps 1, simplified] access_page [of _ p ps 2, simplified]
  have three: "replicate 3 x = [x, x, x]" for x :: prot by (simp add: numeral_3_eq_3)
  show ?thesis using assms
    by (simp add: prot_main_def six_accesses_def prot_start_def mprotect_def three go vm_ok_def after_faults_def raised_def
        perform_def)
qed

section \<open>The guard page\<close>

type_synonym dword = "32 word"

text \<open>A block, all as offsets from \<^verbatim>\<open>lpMem\<close>: how much is mapped, where the guard page begins, what is returned.\<close>

record block =
  mapped :: dword
  guard :: dword
  ptr :: dword

text \<open>\<^verbatim>\<open>VirtualAlloc\<close> refuses a size of zero, \<^verbatim>\<open>VirtualProtect\<close> a page that is not mapped.\<close>

definition MyMalloc :: "dword \<Rightarrow> dword \<Rightarrow> block outcome" where
  "MyMalloc dwPageSize dwSize =
     (let dwNoPages = dwSize div dwPageSize + 1;
          total = dwPageSize * (dwNoPages + 1);
          protected = dwNoPages * dwPageSize;
          dwOffset = dwPageSize - dwSize mod dwPageSize
      in if total = 0 then Inl (ExitWith 1)
         else if total \<le> protected then Inl (ExitWith 1)
         else Inr \<lparr>mapped = total, guard = protected, ptr = dwOffset\<rparr>)"

definition accessible :: "dword \<Rightarrow> block \<Rightarrow> nat \<Rightarrow> bool" where
  "accessible dwPageSize b off \<longleftrightarrow> off < unat (mapped b) \<and> \<not> (unat (guard b) \<le> off \<and> off < unat (guard b) + unat dwPageSize)"

text \<open>
  \<^verbatim>\<open>main\<close> stores eleven integers of four bytes into a block for ten; the result is the index
  whose store ends the process.
\<close>

definition efence_main :: "dword \<Rightarrow> nat option outcome" where
  "efence_main dwPageSize =
     obind (MyMalloc dwPageSize (10 * 4)) (\<lambda>v.
     Inr (List.find (\<lambda>i. \<not> list_all (\<lambda>j. accessible dwPageSize v (unat (ptr v) + 4 * i + j)) [0..<4]) [0..<11]))"

text \<open>C32: Unless the sizes overflow, a block of \<^verbatim>\<open>MyMalloc\<close> ends exactly where the guard page begins: every byte
  of the block can be used, and no byte of the page behind it.\<close>

theorem efence_exact:
  assumes "0 < ps" "(unat d div unat ps + 2) * unat ps < 2 ^ 32"
  shows "\<exists>b. MyMalloc ps d = Inr b \<and> unat (ptr b) + unat d = unat (guard b)
    \<and> (\<forall>k. k < unat d + unat ps \<longrightarrow> accessible ps b (unat (ptr b) + k) = (k < unat d))"
proof -
  define p q r where "p = unat ps" and "q = unat d div p" and "r = unat d mod p"
  have p: "0 < p" using assms(1) by (simp add: word_less_nat_alt p_def)
  have d: "unat d = q * p + r" "r < p" using p by (simp_all add: q_def r_def)
  have tot: "(q + 2) * p < 4294967296" using assms(2) by (simp add: p_def q_def)
  have "q + 2 \<le> (q + 2) * p" using mult_le_mono2 [of 1 p "q + 2"] p by simp
  then have q: "q + 2 < 4294967296" using tot by (rule le_less_trans)
  have mul: "(q + 1) * p < 4294967296" using tot by simp
  have n1: "unat (d div ps + 1) = q + 1" using q by (simp add: unat_word_ariths unat_div_distrib p_def q_def)
  have n2: "unat (d div ps + 1 + 1) = q + 2"
    using q unat_word_ariths(1) [of "d div ps + 1" 1] by (simp only: n1) simp
  have t: "unat (ps * (d div ps + 1 + 1)) = (q + 2) * p" using tot n2 by (simp only: unat_word_ariths) (simp add: p_def mult.commute)
  have g: "unat ((d div ps + 1) * ps) = (q + 1) * p" using mul n1 by (simp only: unat_word_ariths) (simp add: p_def)
  have m: "unat (d mod ps) = r" by (simp add: unat_mod_distrib r_def p_def)
  have "d mod ps \<le> ps" using m d(2) by (simp add: word_le_nat_alt p_def)
  then have o: "unat (ps - d mod ps) = p - r" using m by (simp add: unat_sub p_def)
  have "ps * (d div ps + 1 + 1) \<noteq> 0" using t p by auto
  moreover have "\<not> ps * (d div ps + 1 + 1) \<le> (d div ps + 1) * ps" using t g p by (simp add: word_le_nat_alt)
  ultimately have run: "MyMalloc ps d = Inr \<lparr>mapped = ps * (d div ps + 1 + 1), guard = (d div ps + 1) * ps, ptr = ps - d mod ps\<rparr>"
    by (simp add: MyMalloc_def Let_def)
  have "p - r + unat d = (q + 1) * p" using d by simp
  moreover have "accessible ps \<lparr>mapped = ps * (d div ps + 1 + 1), guard = (d div ps + 1) * ps, ptr = ps - d mod ps\<rparr> (p - r + k) = (k < unat d)"
    if "k < unat d + p" for k
    using that d t g by (auto simp: accessible_def p_def [symmetric])
  ultimately show ?thesis using run t g o by (simp add: p_def)
qed

theorem efence_exact_witness:
  "\<exists>b. MyMalloc 4096 40 = Inr b \<and> unat (ptr b) + 40 = unat (guard b)
    \<and> (\<forall>k. k < 4136 \<longrightarrow> accessible 4096 b (unat (ptr b) + k) = (k < 40))"
  using efence_exact [of 4096 40] by simp

text \<open>The eleventh store of \<^verbatim>\<open>main\<close> is the one that is caught.\<close>

lemma efence_main_result: "efence_main 4096 = Inr (Some 10)"
  by (simp add: efence_main_def MyMalloc_def accessible_def upt_rec)

text \<open>Near four gigabytes the number of pages wraps around: one page is mapped, and it is the guard page.\<close>

lemma efence_wraps:
  "\<exists>b. MyMalloc 4096 0xFFFFFFFF = Inr b \<and> mapped b = 4096 \<and> (\<forall>k. \<not> accessible 4096 b k)"
  by (simp add: MyMalloc_def accessible_def)

section \<open>Copying through mappings\<close>

text \<open>
  \<^verbatim>\<open>mycp.c\<close> on the files of the system: both are opened, the target is emptied and given the length of
  the source, both are mapped, which fails for a length of zero, and the bytes are copied.  The
  calls on descriptors and mappings that are there succeed.
\<close>

type_synonym files = "string \<Rightarrow> byte list option"

definition ftruncate :: "string \<Rightarrow> nat \<Rightarrow> files \<Rightarrow> files" where
  "ftruncate f n fs = (case fs f of None \<Rightarrow> fs | Some c \<Rightarrow> fs(f \<mapsto> take n c @ replicate (n - length c) 0))"

definition mmap_ok :: "nat \<Rightarrow> bool" where
  "mmap_ok n \<longleftrightarrow> 0 < n"

definition mycp_main :: "string list \<Rightarrow> files \<Rightarrow> int \<times> files" where
  "mycp_main argv fs =
     (if length argv \<noteq> 3 then (1, fs)
      else case fs (argv ! 1) of
             None \<Rightarrow> (1, fs)
           | Some _ \<Rightarrow>
               let fs = fs(argv ! 2 \<mapsto> []);
                   st_size = length (the (fs (argv ! 1)));
                   fs = ftruncate (argv ! 2) st_size fs
               in if \<not> mmap_ok st_size then (1, fs)
                  else (0, fs(argv ! 2 \<mapsto> the (fs (argv ! 1)))))"

text \<open>A file that is not empty is copied, and nothing else changes.  Copying an empty file makes
  the target empty but reports a failure, because a mapping cannot be empty; and copying a file to
  itself destroys it.\<close>

theorem mapped_copy:
  assumes "fs from = Some bs" "bs \<noteq> []" "to \<noteq> from" "fs void = Some []"
  shows "mycp_main [prog, from, to] fs = (0, fs(to \<mapsto> bs))
    \<and> mycp_main [prog, from, from] fs = (1, fs(from \<mapsto> []))
    \<and> mycp_main [prog, void, from] fs = (1, fs(from \<mapsto> []))"
proof -
  have "void \<noteq> from" using assms by auto
  with assms show ?thesis
    by (simp add: mycp_main_def ftruncate_def mmap_ok_def)
qed

theorem mapped_copy_witness:
  "mycp_main [''mycp'', ''a'', ''b''] [''a'' \<mapsto> [1, 2], ''e'' \<mapsto> []] = (0, [''a'' \<mapsto> [1, 2], ''e'' \<mapsto> [], ''b'' \<mapsto> [1, 2]])"
  using mapped_copy [of "[''a'' \<mapsto> [1, 2], ''e'' \<mapsto> []]" "''a''" "[1, 2]" "''b''" "''e''" "''mycp''"] by simp

end
