(* ===== verification/Once.thy ===== *)
theory Once
  imports Prelude
begin

text \<open>
  \<^verbatim>\<open>labs/lab08/sol/lin/6-once/once.c\<close>: ten threads that share a resource counted by \<^verbatim>\<open>refcount\<close>; the
  first that comes sets it up, the last that leaves takes it down, both under a mutex.  A step of a thread
  is to take the mutex, the body of the critical section up to its release, or to print a character; a body is one step
  because the mutex keeps every other body out.
\<close>

definition NUM_THREADS :: nat where "NUM_THREADS = 10"

definition NUM_CHARS :: nat where "NUM_CHARS = 1000"

section \<open>State\<close>

text \<open>
  Where a thread is: before \<^verbatim>\<open>one_time_init\<close>, inside it, at the \<open>i\<close>-th round of \<^verbatim>\<open>thread_work\<close>, inside
  \<^verbatim>\<open>one_time_deinit\<close>, at the end.
\<close>

datatype place = Fresh | Initializing | Works nat | Deinitializing | Ended

datatype event = Init_func nat | Prints nat | Deinit_func nat

record once_struct =
  mutex :: "nat option"
  refcount :: int
  places :: "place list"
  events :: "event list"

definition once_start :: once_struct where
  "once_start = \<lparr>mutex = None, refcount = 0, places = replicate NUM_THREADS Fresh, events = []\<rparr>"

section \<open>Steps\<close>

definition at_place :: "nat \<Rightarrow> place \<Rightarrow> once_struct \<Rightarrow> once_struct" where
  "at_place t p s = s\<lparr>places := (places s)[t := p]\<rparr>"

definition pthread_mutex_lock :: "nat \<Rightarrow> once_struct \<Rightarrow> once_struct option" where
  "pthread_mutex_lock t s = (if mutex s = None then Some (s\<lparr>mutex := Some t\<rparr>) else None)"

definition pthread_mutex_unlock :: "once_struct \<Rightarrow> once_struct" where
  "pthread_mutex_unlock s = s\<lparr>mutex := None\<rparr>"

text \<open>The bodies of the two functions after the mutex was taken.\<close>

definition one_time_init :: "nat \<Rightarrow> once_struct \<Rightarrow> once_struct" where
  "one_time_init t s =
     (let s = (if refcount s = 0 then s\<lparr>events := events s @ [Init_func t]\<rparr> else s);
          s = s\<lparr>refcount := refcount s + 1\<rparr>
      in pthread_mutex_unlock s)"

definition one_time_deinit :: "nat \<Rightarrow> once_struct \<Rightarrow> once_struct" where
  "one_time_deinit t s =
     (let s = s\<lparr>refcount := refcount s - 1\<rparr>;
          s = (if refcount s = 0 then s\<lparr>events := events s @ [Deinit_func t]\<rparr> else s)
      in pthread_mutex_unlock s)"

text \<open>\<^verbatim>\<open>thread_func\<close>; \<^const>\<open>None\<close> when the thread cannot move.\<close>

definition thread_step :: "nat \<Rightarrow> once_struct \<Rightarrow> once_struct option" where
  "thread_step t s =
     (if t < length (places s) then
        (case places s ! t of
           Fresh \<Rightarrow> map_option (at_place t Initializing) (pthread_mutex_lock t s)
         | Initializing \<Rightarrow> Some (at_place t (Works 0) (one_time_init t s))
         | Works i \<Rightarrow>
             if i < NUM_CHARS then Some (at_place t (Works (i + 1)) (s\<lparr>events := events s @ [Prints t]\<rparr>))
             else map_option (at_place t Deinitializing) (pthread_mutex_lock t s)
         | Deinitializing \<Rightarrow> Some (at_place t Ended (one_time_deinit t s))
         | Ended \<Rightarrow> None)
      else None)"

text \<open>A schedule names the thread that moves next; a thread that cannot move is passed over.\<close>

fun run :: "nat list \<Rightarrow> once_struct \<Rightarrow> once_struct" where
  "run [] s = s"
| "run (t # ts) s = (case thread_step t s of None \<Rightarrow> run ts s | Some s' \<Rightarrow> run ts s')"

section \<open>The resource is up when it is used\<close>

text \<open>
  Whether the resource is up after these events; \<^const>\<open>None\<close> when it was set up twice in a row, taken down
  when it was not up, or used when it was not up.
\<close>

fun resource :: "event list \<Rightarrow> bool \<Rightarrow> bool option" where
  "resource [] u = Some u"
| "resource (Init_func t # es) u = (if u then None else resource es True)"
| "resource (Prints t # es) u = (if u then resource es True else None)"
| "resource (Deinit_func t # es) u = (if u then resource es False else None)"

lemma resource_append: "resource (es @ fs) u = (case resource es u of None \<Rightarrow> None | Some v \<Rightarrow> resource fs v)"
  by (induction es u rule: resource.induct) auto

fun holding :: "place \<Rightarrow> bool" where
  "holding (Works i) = True"
| "holding Deinitializing = True"
| "holding p = False"

fun critical :: "place \<Rightarrow> bool" where
  "critical Initializing = True"
| "critical Deinitializing = True"
| "critical p = False"

text \<open>How many threads are between the two functions.\<close>

definition holds :: "place \<Rightarrow> int" where
  "holds p = (if holding p then 1 else 0)"

definition users :: "place list \<Rightarrow> int" where
  "users ps = sum_list (map holds ps)"

lemma users_update: "i < length ps \<Longrightarrow> users (ps[i := p]) = users ps + holds p - holds (ps ! i)"
  unfolding users_def
proof (induction ps arbitrary: i)
  case (Cons x xs)
  then show ?case by (cases i) auto
qed simp

lemma users_pos: "0 \<le> users ps" "i < length ps \<Longrightarrow> holding (ps ! i) \<Longrightarrow> 1 \<le> users ps"
proof -
  show n: "0 \<le> users ps" for ps by (induction ps) (auto simp: users_def holds_def)
  show "1 \<le> users ps" if "i < length ps" "holding (ps ! i)"
    using users_update [OF that(1), of Ended] n [of "ps[i := Ended]"] that(2) by (simp add: holds_def)
qed

definition once_inv :: "once_struct \<Rightarrow> bool" where
  "once_inv s \<longleftrightarrow> length (places s) = NUM_THREADS \<and> refcount s = users (places s)
     \<and> resource (events s) False = Some (refcount s \<noteq> 0)
     \<and> (\<forall>t<length (places s). critical (places s ! t) = (mutex s = Some t))
     \<and> (\<forall>t. mutex s = Some t \<longrightarrow> t < length (places s))"

lemma once_inv_start: "once_inv once_start"
  by (auto simp: once_inv_def once_start_def users_def holds_def map_replicate sum_list_replicate)

lemma thread_stepE:
  assumes "thread_step t s = Some s'"
  obtains (lock_init) "t < length (places s)" "places s ! t = Fresh" "mutex s = None"
      "s' = s\<lparr>mutex := Some t, places := (places s)[t := Initializing]\<rparr>"
  | (init) "t < length (places s)" "places s ! t = Initializing" "s' = at_place t (Works 0) (one_time_init t s)"
  | (work) i where "t < length (places s)" "places s ! t = Works i" "i < NUM_CHARS"
      "s' = s\<lparr>events := events s @ [Prints t], places := (places s)[t := Works (i + 1)]\<rparr>"
  | (lock_deinit) i where "t < length (places s)" "places s ! t = Works i" "i \<ge> NUM_CHARS" "mutex s = None"
      "s' = s\<lparr>mutex := Some t, places := (places s)[t := Deinitializing]\<rparr>"
  | (deinit) "t < length (places s)" "places s ! t = Deinitializing" "s' = at_place t Ended (one_time_deinit t s)"
proof -
  have t: "t < length (places s)" using assms by (auto simp: thread_step_def split: if_splits)
  show ?thesis
    by (cases "places s ! t")
      (use assms t that in \<open>auto simp: thread_step_def pthread_mutex_lock_def at_place_def not_less split: if_splits\<close>)
qed

lemma once_inv_move:
  assumes "once_inv s" "t < length (places s)" "places s' = (places s)[t := p]"
    and "refcount s' = refcount s + holds p - holds (places s ! t)"
    and "resource (events s') False = Some (refcount s' \<noteq> 0)"
    and "critical p = (mutex s' = Some t)"
    and "mutex s' = mutex s \<or> (critical (places s ! t) \<or> mutex s = None) \<and> (mutex s' = None \<or> mutex s' = Some t)"
  shows "once_inv s'"
  unfolding once_inv_def
proof (intro conjI allI impI)
  note inv = assms(1) [unfolded once_inv_def]
  show "length (places s') = NUM_THREADS" using inv assms(3) by simp
  show "refcount s' = users (places s')" using inv assms(2-4) users_update by simp
  show "resource (events s') False = Some (refcount s' \<noteq> 0)" by (rule assms(5))
  show "u < length (places s')" if "mutex s' = Some u" for u using that inv assms(2,3,7) by auto
  show "critical (places s' ! u) = (mutex s' = Some u)" if "u < length (places s')" for u
  proof (cases "u = t")
    case False
    then have "mutex s' = Some u \<longleftrightarrow> mutex s = Some u" using inv assms(2,7) by auto
    with inv that assms(3) False show ?thesis by simp
  qed (use assms in simp)
qed

lemma once_inv_step:
  assumes inv: "once_inv s" and step: "thread_step t s = Some s'"
  shows "once_inv s'"
proof -
  note i = inv [unfolded once_inv_def]
  from step show ?thesis
  proof (cases rule: thread_stepE)
    case lock_init
    with i show ?thesis by (intro once_inv_move [OF inv]) (auto simp: holds_def)
  next
    case init
    with i users_pos(1) [of "places s"] show ?thesis
      by (intro once_inv_move [OF inv])
        (auto simp: at_place_def one_time_init_def pthread_mutex_unlock_def holds_def resource_append Let_def)
  next
    case (work k)
    with i users_pos(2) [of t "places s"] show ?thesis
      by (intro once_inv_move [OF inv, of t _ "Works (k + 1)"]) (auto simp: holds_def resource_append)
  next
    case (lock_deinit k)
    with i show ?thesis by (intro once_inv_move [OF inv]) (auto simp: holds_def)
  next
    case deinit
    with i users_pos(2) [of t "places s"] show ?thesis
      by (intro once_inv_move [OF inv])
        (auto simp: at_place_def one_time_deinit_def pthread_mutex_unlock_def holds_def resource_append Let_def)
  qed
qed

lemma once_inv_run: "once_inv s \<Longrightarrow> once_inv (run ts s)"
  by (induction ts arbitrary: s) (auto split: option.split dest: once_inv_step)

lemma once_run_append: "run (ts @ us) s = run us (run ts s)"
  by (induction ts arbitrary: s) (auto split: option.split)

section \<open>Every thread gets through\<close>

fun remaining :: "place \<Rightarrow> nat" where
  "remaining Fresh = NUM_CHARS + 4"
| "remaining Initializing = NUM_CHARS + 3"
| "remaining (Works i) = NUM_CHARS - i + 2"
| "remaining Deinitializing = 1"
| "remaining Ended = 0"

definition steps_left :: "once_struct \<Rightarrow> nat" where
  "steps_left s = sum_list (map remaining (places s))"

lemma steps_left_update:
  "t < length (places s) \<Longrightarrow> places s' = (places s)[t := p] \<Longrightarrow> remaining p < remaining (places s ! t) \<Longrightarrow> steps_left s' < steps_left s"
proof -
  have "i < length ps \<Longrightarrow> remaining p < remaining (ps ! i) \<Longrightarrow>
      sum_list (map remaining (ps[i := p])) < sum_list (map remaining ps)" for i ps
  proof (induction ps arbitrary: i)
    case (Cons x xs)
    then show ?case by (cases i) auto
  qed simp
  then show "t < length (places s) \<Longrightarrow> places s' = (places s)[t := p] \<Longrightarrow> remaining p < remaining (places s ! t) \<Longrightarrow> steps_left s' < steps_left s"
    by (simp add: steps_left_def)
qed

lemma step_uses_up:
  assumes "thread_step t s = Some s'"
  shows "steps_left s' < steps_left s"
  using assms
  by (cases rule: thread_stepE)
    (auto intro!: steps_left_update simp: at_place_def one_time_init_def one_time_deinit_def pthread_mutex_unlock_def Let_def)

lemma someone_moves:
  assumes "once_inv s" "t < length (places s)" "places s ! t \<noteq> Ended"
  shows "\<exists>u s'. thread_step u s = Some s'"
proof (cases "mutex s")
  case None
  with assms show ?thesis by (cases "places s ! t") (auto simp: thread_step_def pthread_mutex_lock_def intro!: exI [of _ t])
next
  case (Some u)
  with assms(1) have "u < length (places s)" "critical (places s ! u)" by (auto simp: once_inv_def)
  then show ?thesis by (cases "places s ! u") (auto simp: thread_step_def intro!: exI [of _ u])
qed

lemma once_can_finish:
  "once_inv s \<Longrightarrow> \<exists>ts. length ts \<le> steps_left s \<and> (\<forall>p\<in>set (places (run ts s)). p = Ended)"
proof (induction "steps_left s" arbitrary: s rule: less_induct)
  case less
  show ?case
  proof (cases "\<forall>p\<in>set (places s). p = Ended")
    case True
    then show ?thesis by (intro exI [of _ "[]"]) simp
  next
    case False
    then obtain t where "t < length (places s)" "places s ! t \<noteq> Ended" by (metis in_set_conv_nth)
    from someone_moves [OF less.prems this] obtain u s' where s': "thread_step u s = Some s'" by blast
    from less.hyps [OF step_uses_up [OF s'] once_inv_step [OF less.prems s']] obtain ts where
      "length ts \<le> steps_left s'" "\<forall>p\<in>set (places (run ts s')). p = Ended" by blast
    with s' step_uses_up [OF s'] show ?thesis by (intro exI [of _ "u # ts"]) auto
  qed
qed

lemma users_ended: "\<forall>p\<in>set ps. p = Ended \<Longrightarrow> users ps = 0"
  by (induction ps) (auto simp: users_def holds_def)

text \<open>C33: In every interleaving of the ten threads the resource is set up before it is used, is never set up twice in
  a row, and is taken down only when nobody uses it: the counter is the number of threads between the
  two functions, and the resource is up exactly when it is not zero.  From everywhere the threads can come to
  their ends, in at most 10040 steps, and then the resource is down.\<close>

theorem once_resource_is_up:
  "resource (events (run ts once_start)) False = Some (refcount (run ts once_start) \<noteq> 0)
   \<and> refcount (run ts once_start) = users (places (run ts once_start))
   \<and> (\<exists>us s. length us \<le> 10040 \<and> s = run (ts @ us) once_start \<and> list_all (\<lambda>p. p = Ended) (places s)
        \<and> refcount s = 0 \<and> resource (events s) False = Some False)"
proof -
  let ?s = "run ts once_start"
  have inv: "once_inv ?s" by (rule once_inv_run [OF once_inv_start])
  have le: "steps_left (run us s) \<le> steps_left s" for us s
  proof (induction us arbitrary: s)
    case (Cons u us)
    show ?case
    proof (cases "thread_step u s")
      case (Some s')
      with Cons [of s'] step_uses_up [OF Some] show ?thesis by simp
    qed (use Cons in simp)
  qed simp
  have "steps_left once_start = 10040"
    by (simp add: steps_left_def once_start_def NUM_THREADS_def NUM_CHARS_def map_replicate sum_list_replicate)
  with le [of ts once_start] have bound: "steps_left ?s \<le> 10040" by simp
  obtain us where us: "length us \<le> steps_left ?s" "\<forall>p\<in>set (places (run us ?s)). p = Ended"
    using once_can_finish [OF inv] by blast
  have "once_inv (run us ?s)" by (rule once_inv_run [OF inv])
  with users_ended [OF us(2)] have "refcount (run us ?s) = 0" "resource (events (run us ?s)) False = Some False"
    by (auto simp: once_inv_def)
  with us bound inv show ?thesis
    by (auto simp: once_inv_def once_run_append list_all_iff intro!: exI [of _ us])
qed

text \<open>The messages say that the resource is set up only once, however often \<^verbatim>\<open>one_time_init\<close> is called.  When a
  thread ends before the next one begins, it is set up again.\<close>

lemma works_alone:
  "t < length (places s) \<Longrightarrow> places s ! t = Works i \<Longrightarrow> i + k \<le> NUM_CHARS \<Longrightarrow>
   run (replicate k t @ ts) s = run ts (s\<lparr>places := (places s)[t := Works (i + k)], events := events s @ replicate k (Prints t)\<rparr>)"
proof (induction k arbitrary: i s)
  case (Suc k)
  let ?s = "s\<lparr>events := events s @ [Prints t], places := (places s)[t := Works (i + 1)]\<rparr>"
  have "run (replicate (Suc k) t @ ts) s = run (replicate k t @ ts) ?s"
    using Suc.prems by (simp add: thread_step_def at_place_def)
  also have "\<dots> = run ts (?s\<lparr>places := (places ?s)[t := Works (i + 1 + k)], events := events ?s @ replicate k (Prints t)\<rparr>)"
    using Suc.prems by (intro Suc.IH) auto
  finally show ?case by (simp add: replicate_app_Cons_same)
qed (simp add: list_update_same_conv [THEN iffD2])

lemma initialized_twice:
  "events (run ([0, 0] @ replicate NUM_CHARS 0 @ [0, 0, 1, 1]) once_start)
   = Init_func 0 # replicate NUM_CHARS (Prints 0) @ [Deinit_func 0, Init_func 1]"
proof -
  let ?s = "\<lparr>mutex = None, refcount = 1, places = (replicate NUM_THREADS Fresh)[0 := Works 0], events = [Init_func 0]\<rparr>"
  have "run ([0, 0] @ replicate NUM_CHARS 0 @ [0, 0, 1, 1]) once_start = run (replicate NUM_CHARS 0 @ [0, 0, 1, 1]) ?s"
    by (simp add: once_start_def NUM_THREADS_def thread_step_def pthread_mutex_lock_def pthread_mutex_unlock_def at_place_def
        one_time_init_def Let_def)
  also have "\<dots> = run [0, 0, 1, 1] (?s\<lparr>places := (places ?s)[0 := Works (0 + NUM_CHARS)],
      events := events ?s @ replicate NUM_CHARS (Prints 0)\<rparr>)"
    by (rule works_alone) (simp_all add: NUM_THREADS_def)
  finally show ?thesis
    by (simp add: NUM_THREADS_def thread_step_def pthread_mutex_lock_def pthread_mutex_unlock_def at_place_def
        one_time_init_def one_time_deinit_def Let_def)
qed

end
