(* ===== verification/Critical.thy ===== *)
theory Critical
  imports Prelude
begin

text \<open>
  \<^verbatim>\<open>labs/lab08/sol/lin/3-safety\<close>: ten threads and \<^verbatim>\<open>main\<close> increment shared counters under a lock
  (\<^verbatim>\<open>malloc.c\<close>) that is a mutex or a spin lock (\<^verbatim>\<open>critical.c\<close>).  An increment is two steps here, a
  read and a write, so that without the lock updates would be lost.
\<close>

definition NUM_THREADS :: nat where "NUM_THREADS = 10"

definition NUM_ROUNDS :: nat where "NUM_ROUNDS = 10000"

section \<open>State\<close>

text \<open>
  A thread is outside the critical section after \<open>i\<close> rounds, or inside in round \<open>i\<close> after \<open>k\<close> steps
  of \<^verbatim>\<open>increase_numbers\<close>, with the value last read; or its loop is over.  The threads
  \<open>0\<close> to \<open>9\<close> run \<^verbatim>\<open>thread_function\<close>, the last one is \<^verbatim>\<open>main\<close>.
\<close>

datatype place = Outside nat | Inside nat nat int | Finished

record counters =
  lock :: bool
  global_storage :: int
  thread_storage :: int
  main_storage :: int
  specific_storage :: "int list"
  places :: "place list"

definition counters_start :: counters where
  "counters_start = \<lparr>lock = False, global_storage = 0, thread_storage = 0, main_storage = 0,
     specific_storage = replicate (NUM_THREADS + 1) 0, places = replicate (NUM_THREADS + 1) (Outside 0)\<rparr>"

section \<open>Steps\<close>

text \<open>One attempt to take the lock, an atomic test and set.\<close>

definition acquire_lock :: "counters \<Rightarrow> bool \<times> counters" where
  "acquire_lock s = (\<not> lock s, s\<lparr>lock := True\<rparr>)"

definition release_lock :: "counters \<Rightarrow> counters" where
  "release_lock s = s\<lparr>lock := False\<rparr>"

text \<open>
  The six steps of \<^verbatim>\<open>increase_numbers\<close> on the addresses that thread \<open>t\<close> passes: \<^verbatim>\<open>function_global_storage\<close> is
  a static variable of each of the two functions.
\<close>

definition increase_numbers :: "nat \<Rightarrow> nat \<Rightarrow> int \<Rightarrow> counters \<Rightarrow> int \<times> counters" where
  "increase_numbers t k r s =
     (if k = 0 then (global_storage s, s)
      else if k = 1 then (r, s\<lparr>global_storage := r + 1\<rparr>)
      else if k = 2 then (if t < NUM_THREADS then thread_storage s else main_storage s, s)
      else if k = 3 then (r, if t < NUM_THREADS then s\<lparr>thread_storage := r + 1\<rparr> else s\<lparr>main_storage := r + 1\<rparr>)
      else if k = 4 then (specific_storage s ! t, s)
      else (r, s\<lparr>specific_storage := (specific_storage s)[t := r + 1]\<rparr>))"

definition goes :: "nat \<Rightarrow> place \<Rightarrow> counters \<Rightarrow> counters" where
  "goes t p s = s\<lparr>places := (places s)[t := p]\<rparr>"

definition thread_step :: "nat \<Rightarrow> counters \<Rightarrow> counters" where
  "thread_step t s =
     (if t < length (places s) then
        (case places s ! t of
           Outside i \<Rightarrow>
             if i < NUM_ROUNDS then
               (let (got, s') = acquire_lock s in if got then goes t (Inside i 0 0) s' else s')
             else goes t Finished s
         | Inside i k r \<Rightarrow>
             if k < 6 then (let (r', s') = increase_numbers t k r s in goes t (Inside i (k + 1) r') s')
             else goes t (Outside (i + 1)) (release_lock s)
         | Finished \<Rightarrow> s)
      else s)"

definition run :: "nat list \<Rightarrow> counters \<Rightarrow> counters" where
  "run ts s = fold thread_step ts s"

section \<open>No increment is lost\<close>

fun rounds :: "place \<Rightarrow> int" where
  "rounds (Outside i) = int i"
| "rounds (Inside i k r) = int i"
| "rounds Finished = int NUM_ROUNDS"

text \<open>The part of an increment that is done inside: the counter \<open>j\<close> is written by step \<open>2 * j + 1\<close>.\<close>

fun ahead :: "nat \<Rightarrow> place \<Rightarrow> int" where
  "ahead j (Inside i k r) = (if 2 * j + 1 < k then 1 else 0)"
| "ahead j p = 0"

definition made :: "nat \<Rightarrow> place \<Rightarrow> int" where
  "made j p = rounds p + ahead j p"

fun inside :: "place \<Rightarrow> bool" where
  "inside (Inside i k r) = True"
| "inside p = False"

text \<open>What the thread inside has read is still what is stored.\<close>

fun fresh_read :: "counters \<Rightarrow> nat \<Rightarrow> place \<Rightarrow> bool" where
  "fresh_read s t (Inside i k r) = (k \<le> 6 \<and> i < NUM_ROUNDS \<and> (k = 1 \<longrightarrow> r = global_storage s)
     \<and> (k = 3 \<longrightarrow> r = (if t < NUM_THREADS then thread_storage s else main_storage s))
     \<and> (k = 5 \<longrightarrow> r = specific_storage s ! t))"
| "fresh_read s t (Outside i) = (i \<le> NUM_ROUNDS)"
| "fresh_read s t Finished = True"

definition counted :: "nat \<Rightarrow> nat \<Rightarrow> nat \<Rightarrow> place list \<Rightarrow> int" where
  "counted j a b ps = (\<Sum>t\<in>{a..<b}. made j (ps ! t))"

definition critical_inv :: "counters \<Rightarrow> bool" where
  "critical_inv s \<longleftrightarrow> length (places s) = NUM_THREADS + 1 \<and> length (specific_storage s) = NUM_THREADS + 1
     \<and> (\<forall>t u. t < length (places s) \<longrightarrow> u < length (places s) \<longrightarrow> inside (places s ! t) \<longrightarrow> inside (places s ! u) \<longrightarrow> t = u)
     \<and> (\<forall>t<length (places s). inside (places s ! t) \<longrightarrow> lock s)
     \<and> (lock s \<longrightarrow> (\<exists>t<length (places s). inside (places s ! t)))
     \<and> (\<forall>t<length (places s). fresh_read s t (places s ! t))
     \<and> global_storage s = counted 0 0 (NUM_THREADS + 1) (places s)
     \<and> thread_storage s = counted 1 0 NUM_THREADS (places s)
     \<and> main_storage s = counted 1 NUM_THREADS (NUM_THREADS + 1) (places s)
     \<and> (\<forall>t<length (places s). specific_storage s ! t = made 2 (places s ! t))"

lemma counted_update:
  assumes "t < length ps"
  shows "counted j a b (ps[t := p]) = counted j a b ps + (if a \<le> t \<and> t < b then made j p - made j (ps ! t) else 0)"
proof (cases "t \<in> {a..<b}")
  case True
  have "counted j a b (ps[t := p]) = made j p + (\<Sum>u\<in>{a..<b} - {t}. made j (ps ! u))"
    using assms True unfolding counted_def by (subst sum.remove [where x = t]) auto
  moreover have "counted j a b ps = made j (ps ! t) + (\<Sum>u\<in>{a..<b} - {t}. made j (ps ! u))"
    using True unfolding counted_def by (subst sum.remove [where x = t]) auto
  ultimately show ?thesis using True by simp
next
  case False
  then show ?thesis unfolding counted_def by (auto intro: sum.cong)
qed

lemma critical_inv_start: "critical_inv counters_start"
  by (auto simp: critical_inv_def counters_start_def counted_def made_def
      simp del: replicate.simps sum.op_ivl_Suc)

lemma critical_inv_move:
  assumes inv: "critical_inv s" and t: "t < length (places s)" and ps: "places s' = (places s)[t := p]"
    and glob: "global_storage s' = global_storage s + made 0 p - made 0 (places s ! t)"
    and thr: "thread_storage s' = thread_storage s + (if t < NUM_THREADS then made 1 p - made 1 (places s ! t) else 0)"
    and mn: "main_storage s' = main_storage s + (if t < NUM_THREADS then 0 else made 1 p - made 1 (places s ! t))"
    and spec: "specific_storage s' = (specific_storage s)[t := made 2 p]"
    and lk: "inside p \<Longrightarrow> lock s' \<and> (inside (places s ! t) \<or> \<not> lock s)" "\<not> inside p \<Longrightarrow> (if inside (places s ! t) then \<not> lock s' else lock s' = lock s)"
    and fr: "fresh_read s' t p"
    and out: "inside (places s ! t) \<or> global_storage s' = global_storage s \<and> thread_storage s' = thread_storage s
      \<and> main_storage s' = main_storage s"
  shows "critical_inv s'"
proof -
  note i = inv [unfolded critical_inv_def]
  have len: "length (places s) = NUM_THREADS + 1" "length (specific_storage s) = NUM_THREADS + 1" using i by auto
  have alone: "\<not> inside (places s ! u)" if "u < length (places s)" "u \<noteq> t" "inside p \<or> inside (places s ! t)" for u
    using that lk(1) i t by blast
  have at_t: "places s' ! t = p" using ps t by simp
  have other: "inside (places s ! u) \<and> \<not> inside p" if "u < length (places s')" "u \<noteq> t" "inside (places s' ! u)" for u
    using that alone [of u] ps by auto
  have "t1 = t2" if "t1 < length (places s')" "t2 < length (places s')" "inside (places s' ! t1)" "inside (places s' ! t2)" for t1 t2
  proof (cases "t1 = t \<or> t2 = t")
    case True
    then show ?thesis using that other [of t1] other [of t2] at_t by metis
  next
    case False
    have "t1 < length (places s)" "t2 < length (places s)" using that ps by simp_all
    then show ?thesis using False that other [of t1] other [of t2] i by blast
  qed
  moreover have "lock s'" if "u < length (places s')" "inside (places s' ! u)" for u
  proof (cases "u = t")
    case True
    then show ?thesis using that at_t lk(1) by simp
  next
    case False
    then have "u < length (places s)" "inside (places s ! u)" "\<not> inside p" using that other ps by auto
    moreover from this False alone [of u] have "\<not> inside (places s ! t)" by blast
    ultimately show ?thesis using i lk(2) by (metis (full_types))
  qed
  moreover have "\<exists>u<length (places s'). inside (places s' ! u)" if "lock s'"
  proof (cases "inside p")
    case True
    then show ?thesis using at_t t ps by auto
  next
    case False
    with lk(2) that have n: "\<not> inside (places s ! t)" "lock s" by (auto split: if_splits)
    then obtain u where "u < length (places s)" "inside (places s ! u)" using i by blast
    moreover from this n have "u \<noteq> t" by blast
    ultimately show ?thesis using ps by (intro exI [of _ u]) simp
  qed
  moreover have "fresh_read s' u (places s' ! u)" if "u < length (places s')" for u
  proof (cases "u = t")
    case False
    with that ps i have f: "fresh_read s u (places s ! u)" "u < length (places s)" by auto
    with False ps out alone [OF f(2) False] spec show ?thesis by (cases "places s ! u") auto
  qed (use ps t fr in simp)
  moreover have "specific_storage s' ! u = made 2 (places s' ! u)" if "u < length (places s')" for u
    using that ps spec i len by (cases "u = t") auto
  ultimately show ?thesis
    using i t ps glob thr mn spec len counted_update [OF t] by (auto simp: critical_inv_def not_less)
qed

lemma critical_inv_step:
  assumes inv: "critical_inv s"
  shows "critical_inv (thread_step t s)"
proof (cases "t < length (places s)")
  case False
  with inv show ?thesis by (simp add: thread_step_def)
next
  case t: True
  note i = inv [unfolded critical_inv_def]
  have len: "length (places s) = NUM_THREADS + 1" "length (specific_storage s) = NUM_THREADS + 1" using i by auto
  have f: "fresh_read s t (places s ! t)" "specific_storage s ! t = made 2 (places s ! t)" using i t by auto
  have same: "(specific_storage s)[t := made 2 (places s ! t)] = specific_storage s"
    using f(2) by (metis list_update_id)
  show ?thesis
  proof (cases "places s ! t")
    case (Outside n)
    show ?thesis
    proof (cases "n < NUM_ROUNDS")
      case True
      show ?thesis
      proof (cases "lock s")
        case False
        with True Outside t f same show ?thesis
          by (intro critical_inv_move [OF inv t, of _ "Inside n 0 0"])
            (auto simp: thread_step_def acquire_lock_def goes_def made_def)
      next
        case locked: True
        then have "thread_step t s = s" using True Outside t by (simp add: thread_step_def acquire_lock_def)
        with inv show ?thesis by simp
      qed
    next
      case False
      with Outside t f same show ?thesis
        by (intro critical_inv_move [OF inv t, of _ Finished])
          (auto simp: thread_step_def goes_def made_def)
    qed
  next
    case (Inside n k r)
    then have lock: "lock s" using i t by auto
    have k: "k \<le> 6" "n < NUM_ROUNDS" using f Inside by auto
    show ?thesis
    proof (cases "k = 6")
      case True
      with Inside t f same k show ?thesis
        by (intro critical_inv_move [OF inv t, of _ "Outside (n + 1)"])
          (auto simp: thread_step_def release_lock_def goes_def made_def add.commute)
    next
      case False
      with k have "k = 0 \<or> k = 1 \<or> k = 2 \<or> k = 3 \<or> k = 4 \<or> k = 5" by auto
      with Inside t f same k lock len show ?thesis
        by (intro critical_inv_move [OF inv t, of _ "Inside n (k + 1) (fst (increase_numbers t k r s))"])
          (auto simp: thread_step_def increase_numbers_def goes_def made_def)
    qed
  next
    case Finished
    then have "thread_step t s = s" using t by (simp add: thread_step_def)
    with inv show ?thesis by simp
  qed
qed

lemma critical_inv_run: "critical_inv s \<Longrightarrow> critical_inv (run ts s)"
  by (induction ts arbitrary: s) (auto simp: run_def critical_inv_step)

lemma counting_run_append: "run (ts @ us) s = run us (run ts s)"
  by (simp add: run_def)

section \<open>Every thread gets through\<close>

fun remaining :: "place \<Rightarrow> nat" where
  "remaining (Outside i) = 8 * (NUM_ROUNDS - i) + 1"
| "remaining (Inside i k r) = 8 * (NUM_ROUNDS - i) - k"
| "remaining Finished = 0"

definition steps_left :: "counters \<Rightarrow> nat" where
  "steps_left s = sum_list (map remaining (places s))"

lemma remaining_update:
  "i < length ps \<Longrightarrow> remaining p < remaining (ps ! i) \<Longrightarrow> sum_list (map remaining (ps[i := p])) < sum_list (map remaining ps)"
proof (induction ps arbitrary: i)
  case (Cons x xs)
  then show ?case by (cases i) auto
qed simp

lemma increase_places: "places (snd (increase_numbers t k r s)) = places s"
  by (simp add: increase_numbers_def)

lemma inside_step:
  assumes "t < length (places s)" "places s ! t = Inside i k r" "k \<le> 6"
  shows "\<exists>p. places (thread_step t s) = (places s)[t := p] \<and> (p = Outside (i + 1) \<and> k = 6 \<or> (\<exists>r'. p = Inside i (k + 1) r') \<and> k < 6)"
proof (cases "k < 6")
  case True
  with assms increase_places [of t k r s] show ?thesis
    by (cases "increase_numbers t k r s") (auto simp: thread_step_def goes_def)
next
  case False
  with assms show ?thesis by (simp add: thread_step_def goes_def release_lock_def)
qed

text \<open>The thread that holds the lock moves, or any other when the lock is free.\<close>

lemma mover_uses_up:
  assumes "critical_inv s" "t < length (places s)" "places s ! t \<noteq> Finished" "inside (places s ! t) \<or> \<not> lock s"
  shows "steps_left (thread_step t s) < steps_left s"
proof -
  have f: "fresh_read s t (places s ! t)" using assms(1,2) unfolding critical_inv_def by blast
  have "\<exists>p. places (thread_step t s) = (places s)[t := p] \<and> remaining p < remaining (places s ! t)"
  proof (cases "places s ! t")
    case (Outside i)
    with assms(2,4) show ?thesis
      by (intro exI [of _ "if i < NUM_ROUNDS then Inside i 0 0 else Finished"])
        (simp add: thread_step_def goes_def acquire_lock_def)
  next
    case (Inside i k r)
    with f have k: "k \<le> 6" "i < NUM_ROUNDS" by simp_all
    from inside_step [OF assms(2) Inside k(1)] obtain p where p: "places (thread_step t s) = (places s)[t := p]"
      "p = Outside (i + 1) \<and> k = 6 \<or> (\<exists>r'. p = Inside i (k + 1) r') \<and> k < 6" by blast
    from k(2) obtain d where "NUM_ROUNDS = Suc (i + d)" using less_iff_Suc_add by blast
    with p(2) Inside have "remaining p < remaining (places s ! t)" by auto
    with p(1) show ?thesis by blast
  qed (use assms(3) in simp)
  with remaining_update [OF assms(2)] show ?thesis by (auto simp: steps_left_def)
qed

lemma threads_can_finish: "critical_inv s \<Longrightarrow> \<exists>us. \<forall>p\<in>set (places (run us s)). p = Finished"
proof (induction "steps_left s" arbitrary: s rule: less_induct)
  case less
  show ?case
  proof (cases "\<forall>p\<in>set (places s). p = Finished")
    case True
    then show ?thesis by (intro exI [of _ "[]"]) (simp add: run_def)
  next
    case False
    have "\<exists>t<length (places s). places s ! t \<noteq> Finished \<and> (inside (places s ! t) \<or> \<not> lock s)"
    proof (cases "lock s")
      case True
      with less.prems obtain t where "t < length (places s)" "inside (places s ! t)" unfolding critical_inv_def by blast
      then show ?thesis by (intro exI [of _ t]) auto
    next
      case free: False
      with False show ?thesis by (auto simp: in_set_conv_nth)
    qed
    then obtain t where t: "t < length (places s)" "places s ! t \<noteq> Finished" "inside (places s ! t) \<or> \<not> lock s" by blast
    from less.hyps [OF mover_uses_up [OF less.prems t] critical_inv_step [OF less.prems]] obtain us where
      "\<forall>p\<in>set (places (run us (thread_step t s))). p = Finished" by blast
    then show ?thesis by (intro exI [of _ "t # us"]) (simp add: run_def)
  qed
qed

lemma counted_finished:
  assumes "\<forall>p\<in>set ps. p = Finished" "b \<le> length ps"
  shows "counted j a b ps = int (b - a) * int NUM_ROUNDS"
proof -
  have "made j (ps ! t) = int NUM_ROUNDS" if "t \<in> {a..<b}" for t
  proof -
    have "ps ! t = Finished" using assms that by auto
    then show ?thesis by (simp add: made_def)
  qed
  then show ?thesis unfolding counted_def by simp
qed

text \<open>C34: No increment is lost.  At every moment, in every interleaving of the ten threads and \<^verbatim>\<open>main\<close>, with a
  mutex or a spin lock, each counter is the number of increments of it that were written; and from
  every such moment all loops can end, with the shared counter at 110000, that of the threads at 100000 and
  that of \<^verbatim>\<open>main\<close> at 10000.\<close>

theorem no_increment_lost:
  "global_storage (run ts counters_start) = counted 0 0 (NUM_THREADS + 1) (places (run ts counters_start))
   \<and> thread_storage (run ts counters_start) = counted 1 0 NUM_THREADS (places (run ts counters_start))
   \<and> (\<exists>us s. s = run (ts @ us) counters_start \<and> list_all (\<lambda>p. p = Finished) (places s)
        \<and> global_storage s = 110000 \<and> thread_storage s = 100000 \<and> main_storage s = 10000
        \<and> specific_storage s = replicate 11 10000)"
proof -
  have inv: "critical_inv (run ts counters_start)" by (rule critical_inv_run [OF critical_inv_start])
  obtain us where us: "\<forall>p\<in>set (places (run us (run ts counters_start))). p = Finished" using threads_can_finish [OF inv] by blast
  let ?s = "run us (run ts counters_start)"
  have i: "critical_inv ?s" by (rule critical_inv_run [OF inv])
  then have len: "length (places ?s) = 11" "length (specific_storage ?s) = 11" by (auto simp: critical_inv_def NUM_THREADS_def)
  have "specific_storage ?s = replicate 11 10000"
  proof (rule nth_equalityI)
    fix t assume "t < length (specific_storage ?s)"
    with len i have "specific_storage ?s ! t = made 2 (places ?s ! t)" "t < 11" by (auto simp: critical_inv_def)
    moreover have "places ?s ! t = Finished" using us len \<open>t < 11\<close> by auto
    ultimately show "specific_storage ?s ! t = replicate 11 10000 ! t" by (simp add: made_def NUM_ROUNDS_def)
  qed (use len in simp)
  moreover have "global_storage ?s = 110000" "thread_storage ?s = 100000" "main_storage ?s = 10000"
    using i counted_finished [OF us] len by (simp_all add: critical_inv_def NUM_THREADS_def NUM_ROUNDS_def)
  ultimately show ?thesis
    using inv us by (auto simp: critical_inv_def counting_run_append list_all_iff intro!: exI [of _ us])
qed

end
