(* ===== verification/PollPipe.thy ===== *)
theory PollPipe
  imports Prelude "HOL-Library.Word" "HOL-Library.Multiset"
begin

text \<open>
  Two programs of the eleventh laboratory in which ten child processes send one message each to their
  parent over pipes: \<^verbatim>\<open>lin/1-pollpipe/poll.c\<close> waits with \<^verbatim>\<open>poll\<close>, \<^verbatim>\<open>lin/2-epollpipe/epoll.c\<close> with \<^verbatim>\<open>epoll\<close> and an
  \<^verbatim>\<open>eventfd\<close> on which a child announces its end.  A schedule names who moves next; one that
  has to wait stays where it is.
\<close>

definition CLIENT_COUNT :: nat where "CLIENT_COUNT = 10"

definition MSG_SIZE :: nat where "MSG_SIZE = 32"

section \<open>Messages\<close>

fun decimal :: "nat \<Rightarrow> string" where
  "decimal n = (if n < 10 then [char_of (48 + n)] else decimal (n div 10) @ [char_of (48 + n mod 10)])"

declare decimal.simps [simp del]

text \<open>\<^verbatim>\<open>sprintf(msg, "<%i>:<%c>", getpid(), 'a' + rand_no)\<close>.\<close>

definition message :: "nat \<Rightarrow> nat \<Rightarrow> string" where
  "message pid rand_no = ''<'' @ decimal pid @ ''>:<'' @ [char_of (97 + rand_no)] @ ''>''"

text \<open>\<^verbatim>\<open>msg[recv_count] = 0\<close> in an array of \<^verbatim>\<open>MSG_SIZE\<close> characters.\<close>

definition terminate :: "nat \<Rightarrow> unit outcome" where
  "terminate recv_count = (if recv_count < MSG_SIZE then Inr () else Inl Undefined)"

section \<open>poll.c\<close>

datatype client = Sleeping | Written | Exited

text \<open>
  The server waits in \<^verbatim>\<open>poll\<close>, goes through the answers at index \<open>i\<close>, waits for its
  children, or has ended.
\<close>

datatype server = Polling | Reading nat "bool list" | Waiting nat | Ended

record system =
  clients :: "client list"
  pipes :: "string list"
  server :: server
  recv_msgs :: nat
  received :: "string list"

definition system_start :: system where
  "system_start = \<lparr>clients = replicate CLIENT_COUNT Sleeping, pipes = replicate CLIENT_COUNT [],
     server = Polling, recv_msgs = 0, received = []\<rparr>"

text \<open>A child writes its message, then closes the pipe and exits.\<close>

definition client_step :: "(nat \<Rightarrow> string) \<Rightarrow> nat \<Rightarrow> system \<Rightarrow> system" where
  "client_step msgs i s =
     (case clients s ! i of
        Sleeping \<Rightarrow> s\<lparr>pipes := (pipes s)[i := pipes s ! i @ msgs i], clients := (clients s)[i := Written]\<rparr>
      | Written \<Rightarrow> s\<lparr>clients := (clients s)[i := Exited]\<rparr>
      | Exited \<Rightarrow> s)"

text \<open>
  \<^verbatim>\<open>POLLIN\<close> is reported for a pipe with data.  The end of a pipe is not reported before every child has
  exited, because each holds the write ends of all pipes but its own.
\<close>

definition server_step :: "system \<Rightarrow> system outcome" where
  "server_step s =
     (case server s of
        Polling \<Rightarrow>
          if recv_msgs s < CLIENT_COUNT then
            (let revents = map (\<lambda>p. p \<noteq> []) (pipes s) in
             if True \<in> set revents then Inr (s\<lparr>server := Reading 0 revents\<rparr>) else Inr s)
          else Inr (s\<lparr>server := Waiting 0\<rparr>)
      | Reading i revents \<Rightarrow>
          if i < CLIENT_COUNT then
            (if revents ! i then
               (if pipes s ! i = [] then Inr s
                else
                  let msg = take MSG_SIZE (pipes s ! i);
                      s = s\<lparr>recv_msgs := recv_msgs s + 1, pipes := (pipes s)[i := drop MSG_SIZE (pipes s ! i)]\<rparr>
                  in obind (terminate (length msg)) (\<lambda>_.
                     Inr (s\<lparr>received := received s @ [msg], server := Reading (i + 1) revents\<rparr>)))
             else Inr (s\<lparr>server := Reading (i + 1) revents\<rparr>))
          else Inr (s\<lparr>server := Polling\<rparr>)
      | Waiting n \<Rightarrow>
          if n < CLIENT_COUNT then
            (if n < length (filter (\<lambda>c. c = Exited) (clients s)) then Inr (s\<lparr>server := Waiting (n + 1)\<rparr>) else Inr s)
          else Inr (s\<lparr>server := Ended\<rparr>)
      | Ended \<Rightarrow> Inr s)"

text \<open>The numbers below ten are the children, any other is the server.\<close>

fun run :: "(nat \<Rightarrow> string) \<Rightarrow> nat list \<Rightarrow> system \<Rightarrow> system outcome" where
  "run msgs [] s = Inr s"
| "run msgs (t # ts) s =
     obind (if t < CLIENT_COUNT then Inr (client_step msgs t s) else server_step s) (run msgs ts)"

section \<open>Every message is received once\<close>

definition fits :: "(nat \<Rightarrow> string) \<Rightarrow> bool" where
  "fits msgs \<longleftrightarrow> (\<forall>i. msgs i \<noteq> [] \<and> length (msgs i) < MSG_SIZE)"

text \<open>What client \<open>i\<close> has in its pipe and what of it was received.\<close>

definition pipe_ok :: "(nat \<Rightarrow> string) \<Rightarrow> system \<Rightarrow> nat \<Rightarrow> bool" where
  "pipe_ok msgs s i \<longleftrightarrow> pipes s ! i = [] \<or> pipes s ! i = msgs i \<and> clients s ! i \<noteq> Sleeping"

definition contrib :: "(nat \<Rightarrow> string) \<Rightarrow> system \<Rightarrow> nat \<Rightarrow> string multiset" where
  "contrib msgs s i = (if clients s ! i \<noteq> Sleeping \<and> pipes s ! i = [] then {#msgs i#} else {#})"

definition taken :: "(nat \<Rightarrow> string) \<Rightarrow> system \<Rightarrow> string multiset" where
  "taken msgs s = (\<Sum>i<CLIENT_COUNT. contrib msgs s i)"

fun phase_ok :: "system \<Rightarrow> server \<Rightarrow> bool" where
  "phase_ok s Polling = True"
| "phase_ok s (Reading i rs) = (length rs = CLIENT_COUNT \<and> i \<le> CLIENT_COUNT
     \<and> (\<forall>j. i \<le> j \<longrightarrow> j < CLIENT_COUNT \<longrightarrow> rs ! j \<longrightarrow> pipes s ! j \<noteq> []))"
| "phase_ok s (Waiting n) = (recv_msgs s \<ge> CLIENT_COUNT \<and> n \<le> CLIENT_COUNT)"
| "phase_ok s Ended = (recv_msgs s \<ge> CLIENT_COUNT)"

definition system_ok :: "(nat \<Rightarrow> string) \<Rightarrow> system \<Rightarrow> bool" where
  "system_ok msgs s \<longleftrightarrow> length (clients s) = CLIENT_COUNT \<and> length (pipes s) = CLIENT_COUNT
     \<and> (\<forall>i<CLIENT_COUNT. pipe_ok msgs s i) \<and> mset (received s) = taken msgs s
     \<and> recv_msgs s = length (received s) \<and> phase_ok s (server s)"

lemma taken_change:
  assumes "i < CLIENT_COUNT" "\<And>j. j \<noteq> i \<Longrightarrow> contrib msgs s' j = contrib msgs s j"
  shows "taken msgs s' + contrib msgs s i = taken msgs s + contrib msgs s' i"
proof -
  have "taken msgs t = contrib msgs t i + (\<Sum>j\<in>{..<CLIENT_COUNT} - {i}. contrib msgs t j)" for t
    unfolding taken_def using assms(1) by (subst sum.remove [where x = i]) auto
  moreover have "(\<Sum>j\<in>{..<CLIENT_COUNT} - {i}. contrib msgs s' j) = (\<Sum>j\<in>{..<CLIENT_COUNT} - {i}. contrib msgs s j)"
    using assms(2) by (intro sum.cong) auto
  ultimately show ?thesis by (simp add: ac_simps)
qed

lemma system_ok_start: "system_ok msgs system_start"
  by (auto simp: system_ok_def system_start_def taken_def contrib_def pipe_ok_def
      simp del: replicate.simps)

lemma client_step_ok:
  assumes ok: "system_ok msgs s" and fit: "fits msgs" and i: "i < CLIENT_COUNT"
  shows "system_ok msgs (client_step msgs i s)"
proof -
  let ?s = "client_step msgs i s"
  have len: "length (clients s) = CLIENT_COUNT" "length (pipes s) = CLIENT_COUNT" and pi: "pipe_ok msgs s i"
    using ok i by (auto simp: system_ok_def)
  have msg: "msgs i \<noteq> []" using fit by (simp add: fits_def)
  have other: "clients ?s ! j = clients s ! j \<and> pipes ?s ! j = pipes s ! j" if "j \<noteq> i" for j
    using that by (auto simp: client_step_def split: client.split)
  have new: "pipe_ok msgs ?s i" "contrib msgs ?s i = contrib msgs s i" "pipes s ! i \<noteq> [] \<Longrightarrow> pipes ?s ! i \<noteq> []"
    using pi len i msg by (auto simp: client_step_def pipe_ok_def contrib_def split: client.split)
  have "taken msgs ?s + contrib msgs s i = taken msgs s + contrib msgs ?s i"
    by (rule taken_change [OF i]) (use other in \<open>auto simp: contrib_def\<close>)
  then have "taken msgs ?s = taken msgs s" using new(2) by simp
  moreover have "pipe_ok msgs ?s j" if "j < CLIENT_COUNT" for j
    using that ok new(1) other [of j] by (cases "j = i") (auto simp: system_ok_def pipe_ok_def)
  moreover have "pipes ?s ! j \<noteq> []" if "pipes s ! j \<noteq> []" for j using that new(3) other [of j] by (cases "j = i") auto
  moreover have "server ?s = server s" "received ?s = received s" "recv_msgs ?s = recv_msgs s"
    "length (clients ?s) = CLIENT_COUNT" "length (pipes ?s) = CLIENT_COUNT"
    using len by (auto simp: client_step_def split: client.split)
  ultimately show ?thesis
    using ok unfolding system_ok_def by (cases "server s") auto
qed

lemma server_reads:
  assumes ok: "system_ok msgs s" and fit: "fits msgs" and r: "server s = Reading i rs" "i < CLIENT_COUNT" "rs ! i"
  defines "s' \<equiv> s\<lparr>recv_msgs := recv_msgs s + 1, pipes := (pipes s)[i := []], received := received s @ [msgs i],
    server := Reading (i + 1) rs\<rparr>"
  shows "server_step s = Inr s'" and "system_ok msgs s'"
proof -
  have len: "length (clients s) = CLIENT_COUNT" "length (pipes s) = CLIENT_COUNT" using ok by (auto simp: system_ok_def)
  have ph: "phase_ok s (Reading i rs)" using ok r(1) by (simp add: system_ok_def)
  have "pipe_ok msgs s i" using ok r(2) by (simp add: system_ok_def)
  with ph r(2,3) have p: "pipes s ! i = msgs i" "clients s ! i \<noteq> Sleeping" "msgs i \<noteq> []" by (auto simp: pipe_ok_def)
  have fi: "length (msgs i) < MSG_SIZE" using fit by (simp add: fits_def)
  show "server_step s = Inr s'" using r p fi by (simp add: server_step_def terminate_def s'_def)
  have "taken msgs s' + contrib msgs s i = taken msgs s + contrib msgs s' i"
    by (rule taken_change [OF r(2)]) (auto simp: contrib_def s'_def)
  moreover have "contrib msgs s i = {#}" "contrib msgs s' i = {#msgs i#}"
    using p r(2) len by (auto simp: contrib_def s'_def)
  ultimately have "mset (received s') = taken msgs s'" using ok by (simp add: system_ok_def s'_def)
  moreover have "pipe_ok msgs s' j" if "j < CLIENT_COUNT" for j
    using ok that len by (cases "j = i") (auto simp: system_ok_def pipe_ok_def s'_def)
  ultimately show "system_ok msgs s'"
    using ok ph r by (auto simp: system_ok_def s'_def nth_list_update)
qed

lemma server_step_ok:
  assumes ok: "system_ok msgs s" and fit: "fits msgs"
  shows "\<exists>s'. server_step s = Inr s' \<and> system_ok msgs s'"
proof (cases "server s")
  case Polling
  have "length (pipes s) = CLIENT_COUNT" using ok by (simp add: system_ok_def)
  then have "system_ok msgs (s\<lparr>server := Reading 0 (map (\<lambda>p. p \<noteq> []) (pipes s))\<rparr>)"
    using ok Polling by (simp add: system_ok_def pipe_ok_def taken_def contrib_def)
  moreover have "system_ok msgs (s\<lparr>server := Waiting 0\<rparr>)" if "\<not> recv_msgs s < CLIENT_COUNT"
    using ok that by (simp add: system_ok_def pipe_ok_def taken_def contrib_def)
  ultimately show ?thesis using ok Polling by (auto simp: server_step_def Let_def)
next
  case (Reading i rs)
  have ph: "phase_ok s (Reading i rs)" using ok Reading by (simp add: system_ok_def)
  show ?thesis
  proof (cases "i < CLIENT_COUNT \<and> rs ! i")
    case True
    with server_reads [OF ok fit Reading] show ?thesis by blast
  next
    case False
    have "system_ok msgs (s\<lparr>server := Reading (i + 1) rs\<rparr>)" if "i < CLIENT_COUNT"
      using ok that ph by (auto simp: system_ok_def pipe_ok_def taken_def contrib_def)
    moreover have "system_ok msgs (s\<lparr>server := Polling\<rparr>)"
      using ok by (simp add: system_ok_def pipe_ok_def taken_def contrib_def)
    ultimately show ?thesis using Reading False by (auto simp: server_step_def)
  qed
next
  case (Waiting n)
  have "system_ok msgs (s\<lparr>server := Waiting (n + 1)\<rparr>)" if "n < CLIENT_COUNT"
    using ok that Waiting by (simp add: system_ok_def pipe_ok_def taken_def contrib_def)
  moreover have "system_ok msgs (s\<lparr>server := Ended\<rparr>)"
    using ok Waiting by (simp add: system_ok_def pipe_ok_def taken_def contrib_def)
  ultimately show ?thesis using ok Waiting by (auto simp: server_step_def)
qed (use ok in \<open>simp add: server_step_def\<close>)

lemma poll_run_ok:
  "system_ok msgs s \<Longrightarrow> fits msgs \<Longrightarrow> \<exists>s'. run msgs ts s = Inr s' \<and> system_ok msgs s'"
proof (induction ts arbitrary: s)
  case (Cons t ts)
  show ?case
  proof (cases "t < CLIENT_COUNT")
    case True
    with Cons.IH [OF client_step_ok [OF Cons.prems True] Cons.prems(2)] show ?thesis by simp
  next
    case False
    from server_step_ok [OF Cons.prems] obtain s' where "server_step s = Inr s'" "system_ok msgs s'" by blast
    with False Cons.IH [OF this(2) Cons.prems(2)] show ?thesis by simp
  qed
qed simp

lemma poll_run_append: "run msgs (ts @ us) s = obind (run msgs ts s) (run msgs us)"
  by (induction ts arbitrary: s) (auto simp: obind_def split: sum.splits)

lemma mset_upt_sum: "mset (map f [0..<n]) = (\<Sum>i<n. {#f i#})"
  by (induction n) simp_all

lemma sum_upt_subset: "(\<And>i. f i \<subseteq># g i) \<Longrightarrow> (\<Sum>i<n. f i) \<subseteq># (\<Sum>i<n. g i)" for f g :: "nat \<Rightarrow> 'a multiset"
  by (induction n) (simp_all add: subset_mset.add_mono)

lemma taken_bound: "taken msgs s \<subseteq># mset (map msgs [0..<CLIENT_COUNT])" "size (taken msgs s) \<le> CLIENT_COUNT"
  "size (taken msgs s) = CLIENT_COUNT \<Longrightarrow> taken msgs s = mset (map msgs [0..<CLIENT_COUNT])"
proof -
  have all: "mset (map msgs [0..<CLIENT_COUNT]) = (\<Sum>i<CLIENT_COUNT. {#msgs i#})"
    by (rule mset_upt_sum)
  show 1: "taken msgs s \<subseteq># mset (map msgs [0..<CLIENT_COUNT])"
    unfolding all taken_def by (rule sum_upt_subset) (auto simp: contrib_def)
  then show 2: "size (taken msgs s) \<le> CLIENT_COUNT" using size_mset_mono by fastforce
  show "taken msgs s = mset (map msgs [0..<CLIENT_COUNT])" if "size (taken msgs s) = CLIENT_COUNT"
    using 1 that by (metis size_mset mset_subset_eqD subset_mset.le_less mset_subset_size length_map length_upt diff_zero less_irrefl)
qed

section \<open>The server ends\<close>

fun client_rank :: "client \<Rightarrow> nat" where
  "client_rank Sleeping = 2"
| "client_rank Written = 1"
| "client_rank Exited = 0"

fun server_rank :: "server \<Rightarrow> nat" where
  "server_rank Polling = 20"
| "server_rank (Reading i rs) = (if \<exists>j\<in>{i..<CLIENT_COUNT}. rs ! j then 19 - i else 40 - i)"
| "server_rank (Waiting n) = 12 - n"
| "server_rank Ended = 0"

definition rank :: "system \<Rightarrow> nat" where
  "rank s = sum_list (map client_rank (clients s)) + 40 * (CLIENT_COUNT - recv_msgs s) + server_rank (server s)"

lemma recv_size: "system_ok msgs s \<Longrightarrow> recv_msgs s = size (taken msgs s)"
  by (metis size_mset system_ok_def)

lemma rank_client:
  assumes "i < length (clients s)" "clients s ! i \<noteq> Exited"
  shows "rank (client_step msgs i s) < rank s"
proof -
  have "j < length cs \<Longrightarrow> client_rank c < client_rank (cs ! j) \<Longrightarrow>
      sum_list (map client_rank (cs[j := c])) < sum_list (map client_rank cs)" for j c cs
  proof (induction cs arbitrary: j)
    case (Cons x xs)
    then show ?case by (cases j) auto
  qed simp
  from this [OF assms(1)] assms show ?thesis
    by (cases "clients s ! i") (auto simp: rank_def client_step_def)
qed

text \<open>When all children have exited the server never waits.\<close>

lemma server_moves:
  assumes ok: "system_ok msgs s" and fit: "fits msgs" and ex: "\<forall>i<CLIENT_COUNT. clients s ! i = Exited"
    and run: "server s \<noteq> Ended" and step: "server_step s = Inr s'"
  shows "rank s' < rank s"
proof -
  have len: "length (clients s) = CLIENT_COUNT" "length (pipes s) = CLIENT_COUNT" using ok by (auto simp: system_ok_def)
  have recv: "recv_msgs s = size (taken msgs s)" using ok by (rule recv_size)
  show ?thesis
  proof (cases "server s")
    case Polling
    show ?thesis
    proof (cases "recv_msgs s < CLIENT_COUNT")
      case False
      with Polling step show ?thesis by (auto simp: server_step_def rank_def)
    next
      case True
      have "\<exists>i<CLIENT_COUNT. pipes s ! i \<noteq> []"
      proof (rule ccontr)
        assume "\<not> ?thesis"
        then have "taken msgs s = (\<Sum>i<CLIENT_COUNT. {#msgs i#})"
          unfolding taken_def using ex by (intro sum.cong) (auto simp: contrib_def)
        then have "size (taken msgs s) = CLIENT_COUNT" by (simp flip: mset_upt_sum)
        with recv True show False by simp
      qed
      then obtain i where i: "i < CLIENT_COUNT" "pipes s ! i \<noteq> []" by blast
      let ?rs = "map (\<lambda>p. p \<noteq> []) (pipes s)"
      have rs: "?rs ! i" "i < length ?rs" using i len by auto
      then have "True \<in> set ?rs" by (metis nth_mem)
      with Polling True step have s': "s' = s\<lparr>server := Reading 0 ?rs\<rparr>" by (simp add: server_step_def Let_def)
      have "\<exists>j\<in>{0..<CLIENT_COUNT}. ?rs ! j" using i rs by (intro bexI [of _ i]) auto
      then have "server_rank (Reading 0 ?rs) = 19" by (simp only: server_rank.simps if_True)
      then show ?thesis using s' Polling unfolding rank_def by simp
    qed
  next
    case (Reading i rs)
    have ph: "i \<le> CLIENT_COUNT" using ok Reading by (simp add: system_ok_def)
    show ?thesis
    proof (cases "i < CLIENT_COUNT \<and> rs ! i")
      case True
      let ?s = "s\<lparr>recv_msgs := recv_msgs s + 1, pipes := (pipes s)[i := []], received := received s @ [msgs i], server := Reading (i + 1) rs\<rparr>"
      have s': "s' = ?s" using server_reads(1) [OF ok fit Reading] True step by simp
      have "system_ok msgs ?s" using server_reads(2) [OF ok fit Reading] True by simp
      then have "recv_msgs ?s = size (taken msgs ?s)" by (rule recv_size)
      then have r: "recv_msgs s + 1 \<le> CLIENT_COUNT" using taken_bound(2) [of msgs ?s] by simp
      then have "40 * (CLIENT_COUNT - recv_msgs s) = 40 * (CLIENT_COUNT - (recv_msgs s + 1)) + 40" by simp
      moreover have "server_rank (Reading i rs) = 19 - i" using True by auto
      moreover have "server_rank (Reading (i + 1) rs) \<le> 39 - i" by (simp add: diff_le_mono)
      ultimately show ?thesis using s' Reading True
        by (simp add: rank_def CLIENT_COUNT_def del: server_rank.simps) linarith
    next
      case False
      show ?thesis
      proof (cases "i < CLIENT_COUNT")
        case True
        with False Reading step have s': "s' = s\<lparr>server := Reading (i + 1) rs\<rparr>" by (simp add: server_step_def)
        have "{i..<CLIENT_COUNT} = insert i {i + 1..<CLIENT_COUNT}" using True by auto
        with False True have "(\<exists>j\<in>{i..<CLIENT_COUNT}. rs ! j) = (\<exists>j\<in>{i + 1..<CLIENT_COUNT}. rs ! j)" by auto
        then have "server_rank (Reading (i + 1) rs) < server_rank (Reading i rs)"
          using True by (auto simp: CLIENT_COUNT_def)
        with s' Reading show ?thesis by (simp add: rank_def del: server_rank.simps)
      next
        case f: False
        with Reading step ph have "s' = s\<lparr>server := Polling\<rparr>" "i = CLIENT_COUNT" by (simp_all add: server_step_def)
        with Reading show ?thesis by (simp add: rank_def CLIENT_COUNT_def)
      qed
    qed
  next
    case (Waiting n)
    have "filter (\<lambda>c. c = Exited) (clients s) = clients s" using ex len by (auto simp: filter_id_conv in_set_conv_nth)
    then have "length (filter (\<lambda>c. c = Exited) (clients s)) = CLIENT_COUNT" using len by simp
    moreover have "n \<le> CLIENT_COUNT" using ok Waiting by (simp add: system_ok_def)
    ultimately show ?thesis using Waiting step by (auto simp: server_step_def rank_def CLIENT_COUNT_def split: if_splits)
  qed (use run in simp)
qed

lemma server_can_finish:
  "system_ok msgs s \<Longrightarrow> fits msgs \<Longrightarrow> \<exists>us s'. run msgs us s = Inr s' \<and> server s' = Ended \<and> system_ok msgs s'"
proof (induction "rank s" arbitrary: s rule: less_induct)
  case less
  note ok = less.prems(1)
  have len: "length (clients s) = CLIENT_COUNT" using ok by (simp add: system_ok_def)
  show ?case
  proof (cases "\<forall>i<CLIENT_COUNT. clients s ! i = Exited")
    case False
    then obtain i where i: "i < CLIENT_COUNT" "clients s ! i \<noteq> Exited" by blast
    from less.hyps [OF rank_client client_step_ok [OF ok less.prems(2) i(1)] less.prems(2)] i len obtain us s' where
      "run msgs us (client_step msgs i s) = Inr s'" "server s' = Ended" "system_ok msgs s'" by auto
    with i show ?thesis by (intro exI [of _ "i # us"]) simp
  next
    case True
    show ?thesis
    proof (cases "server s = Ended")
      case False
      obtain t where t: "server_step s = Inr t" "system_ok msgs t" using server_step_ok [OF ok less.prems(2)] by blast
      from less.hyps [OF server_moves [OF ok less.prems(2) True False t(1)] t(2) less.prems(2)] obtain us s' where
        "run msgs us t = Inr s'" "server s' = Ended" "system_ok msgs s'" by blast
      with t(1) show ?thesis by (intro exI [of _ "CLIENT_COUNT # us"]) simp
    qed (use ok in \<open>auto intro!: exI [of _ "[]"]\<close>)
  qed
qed

lemma decimal_length: "n < 10 ^ k \<Longrightarrow> 0 < k \<Longrightarrow> length (decimal n) \<le> k"
proof (induction k arbitrary: n)
  case (Suc k)
  show ?case
  proof (cases "n < 10")
    case False
    with Suc.prems have "n div 10 < 10 ^ k" by (simp add: div_less_iff_less_mult)
    moreover have "0 < k" using False Suc.prems by (cases k) auto
    ultimately show ?thesis using Suc.IH False by (simp add: decimal.simps [of n])
  qed (simp add: decimal.simps)
qed simp

text \<open>Linux numbers processes up to 4194304.\<close>

lemma messages_fit: "(\<And>i. pids i \<le> 4194304) \<Longrightarrow> fits (\<lambda>i. message (pids i) (rands i))"
proof -
  assume p: "\<And>i. pids i \<le> (4194304 :: nat)"
  have "length (decimal (pids i)) \<le> 7" for i by (rule decimal_length) (use p [of i] in simp_all)
  then have "length (decimal (pids i)) + 6 < MSG_SIZE" for i unfolding MSG_SIZE_def by (rule le_less_trans [OF add_right_mono]) simp
  then have "\<forall>i. length (decimal (pids i)) + 6 < MSG_SIZE" by blast
  then show ?thesis by (simp add: fits_def message_def eval_nat_numeral)
qed

definition messages :: "(nat \<Rightarrow> nat) \<Rightarrow> (nat \<Rightarrow> nat) \<Rightarrow> nat \<Rightarrow> string" where
  "messages pids rands i = message (pids i) (rands i)"

text \<open>C35: In every interleaving of the ten children and the server, no message is received twice or cut,
  the array for a message is never exceeded, and when the server ends it has received the message of
  every child exactly once.  From every moment the server can still come to its end.\<close>

theorem poll_receives_each_once:
  assumes "\<And>i. pids i \<le> 4194304"
  shows "\<exists>s. run (messages pids rands) ts system_start = Inr s
    \<and> mset (received s) \<subseteq># mset (map (messages pids rands) [0..<CLIENT_COUNT])
    \<and> (if server s = Ended then mset (received s) = mset (map (messages pids rands) [0..<CLIENT_COUNT]) else True)
    \<and> (\<exists>us s'. run (messages pids rands) (ts @ us) system_start = Inr s' \<and> server s' = Ended)"
proof -
  let ?m = "messages pids rands"
  have "?m = (\<lambda>i. message (pids i) (rands i))" by (rule ext) (simp add: messages_def)
  then have fit: "fits ?m" using messages_fit [OF assms] by simp
  obtain s where s: "run ?m ts system_start = Inr s" "system_ok ?m s"
    using poll_run_ok [OF system_ok_start fit] by blast
  have "mset (received s) = mset (map ?m [0..<CLIENT_COUNT])" if "server s = Ended"
  proof -
    from s(2) that have "CLIENT_COUNT \<le> recv_msgs s" by (simp add: system_ok_def)
    then have "CLIENT_COUNT \<le> size (taken ?m s)" using recv_size [OF s(2)] by simp
    with taken_bound(2,3) [of ?m s] s(2) show ?thesis by (simp add: system_ok_def)
  qed
  moreover have "mset (received s) \<subseteq># mset (map ?m [0..<CLIENT_COUNT])"
    using taken_bound(1) [of ?m s] s(2) by (simp add: system_ok_def)
  moreover obtain us s' where "run ?m us s = Inr s'" "server s' = Ended" using server_can_finish [OF s(2) fit] by blast
  ultimately show ?thesis using s(1) by (auto simp: poll_run_append)
qed

theorem poll_receives_each_once_witness:
  "\<exists>us s'. run (messages (\<lambda>i. 1000 + i mod 10) (\<lambda>i. i)) us system_start = Inr s' \<and> server s' = Ended"
proof -
  have "1000 + i mod 10 \<le> (4194304 :: nat)" for i using mod_less_divisor [of 10 i] by linarith
  from poll_receives_each_once [of "\<lambda>i. 1000 + i mod 10" "\<lambda>i. i" "[]", OF this] show ?thesis by auto
qed

section \<open>epoll.c\<close>

definition MAGIC_EXIT :: "64 word" where "MAGIC_EXIT = push_bit 63 1"

definition MAGIC_MASK :: "64 word" where "MAGIC_MASK = 0xFF"

definition set_event :: "nat \<Rightarrow> 64 word" where
  "set_event index = or MAGIC_EXIT (of_nat index)"

definition get_index :: "64 word \<Rightarrow> nat" where
  "get_index event = unat (and MAGIC_MASK event)"

text \<open>A child writes a message, announces its end, closes its pipe.\<close>

datatype child = Begins | Sent | Announced | Gone

record epoll_system =
  children :: "child list"
  epipes :: "string list"
  read_open :: "bool list"
  event_fd :: "64 word"
  ereceived :: nat

definition epoll_start :: epoll_system where
  "epoll_start = \<lparr>children = replicate CLIENT_COUNT Begins, epipes = replicate CLIENT_COUNT [],
     read_open = replicate CLIENT_COUNT True, event_fd = 0, ereceived = 0\<rparr>"

text \<open>The child sends the whole array, whatever the length of the text in it.\<close>

definition padded :: "string \<Rightarrow> string" where
  "padded m = m @ replicate (MSG_SIZE - length m) (char_of (0 :: nat))"

text \<open>A write to an \<^verbatim>\<open>eventfd\<close> adds to its counter, and waits while that would exceed the largest value but one.\<close>

definition eventfd_write :: "64 word \<Rightarrow> epoll_system \<Rightarrow> epoll_system option" where
  "eventfd_write v s =
     (if unat (event_fd s) + unat v \<le> 2 ^ 64 - 2 then Some (s\<lparr>event_fd := event_fd s + v\<rparr>) else None)"

definition child_step :: "(nat \<Rightarrow> string) \<Rightarrow> nat \<Rightarrow> epoll_system \<Rightarrow> epoll_system" where
  "child_step msgs i s =
     (case children s ! i of
        Begins \<Rightarrow> s\<lparr>epipes := (epipes s)[i := epipes s ! i @ padded (msgs i)], children := (children s)[i := Sent]\<rparr>
      | Sent \<Rightarrow>
          (case eventfd_write (set_event i) s of
             None \<Rightarrow> s
           | Some s' \<Rightarrow> s'\<lparr>children := (children s')[i := Announced]\<rparr>)
      | Announced \<Rightarrow> s\<lparr>children := (children s)[i := Gone]\<rparr>
      | Gone \<Rightarrow> s)"

text \<open>
  What \<^verbatim>\<open>epoll_wait\<close> may report: the \<^verbatim>\<open>eventfd\<close>, or a pipe with data.  A pipe that the server has closed
  stays registered while other children hold its read end.
\<close>

datatype report = Child nat | Pipe nat | Eventfd

definition epoll_server_step :: "report \<Rightarrow> epoll_system \<Rightarrow> epoll_system outcome" where
  "epoll_server_step r s =
     (case r of
        Child i \<Rightarrow> Inr s
      | Eventfd \<Rightarrow>
          if event_fd s = 0 then Inr s
          else Inr (s\<lparr>event_fd := 0, read_open := (read_open s)[get_index (event_fd s) := False]\<rparr>)
      | Pipe i \<Rightarrow>
          if \<not> (i < CLIENT_COUNT \<and> epipes s ! i \<noteq> []) then Inr s
          else
            let s = s\<lparr>ereceived := ereceived s + 1\<rparr> in
            if \<not> read_open s ! i then Inl (ExitWith 1)
            else
              let msg = take MSG_SIZE (epipes s ! i);
                  s = s\<lparr>epipes := (epipes s)[i := drop MSG_SIZE (epipes s ! i)]\<rparr>
              in obind (terminate (length msg)) (\<lambda>_. Inr s))"

text \<open>The loop ends when as many messages were received as there are children.\<close>

fun epoll_run :: "(nat \<Rightarrow> string) \<Rightarrow> report list \<Rightarrow> epoll_system \<Rightarrow> epoll_system outcome" where
  "epoll_run msgs [] s = Inr s"
| "epoll_run msgs (r # rs) s =
     (case r of
        Child i \<Rightarrow> epoll_run msgs rs (if i < CLIENT_COUNT then child_step msgs i s else s)
      | _ \<Rightarrow> if ereceived s < CLIENT_COUNT then obind (epoll_server_step r s) (epoll_run msgs rs) else Inr s)"

lemma event_codes:
  assumes "i < CLIENT_COUNT"
  shows "get_index (set_event i) = i" and "unat (set_event i) = 2 ^ 63 + i" and "set_event i \<noteq> 0"
proof -
  have "i \<in> {0, 1, 2, 3, 4, 5, 6, 7, 8, 9}" using assms by (auto simp: CLIENT_COUNT_def)
  then show "get_index (set_event i) = i" "unat (set_event i) = 2 ^ 63 + i" "set_event i \<noteq> 0"
    by (auto simp: get_index_def set_event_def MAGIC_EXIT_def MAGIC_MASK_def)
qed

definition epoll_ok :: "(nat \<Rightarrow> string) \<Rightarrow> epoll_system \<Rightarrow> bool" where
  "epoll_ok msgs s \<longleftrightarrow> length (children s) = CLIENT_COUNT \<and> length (epipes s) = CLIENT_COUNT \<and> ereceived s = 0
     \<and> (\<forall>i<CLIENT_COUNT. epipes s ! i = (if children s ! i = Begins then [] else padded (msgs i)))
     \<and> (event_fd s = 0 \<or> (\<exists>i<CLIENT_COUNT. event_fd s = set_event i \<and> children s ! i \<in> {Announced, Gone}))"

lemma epoll_ok_start: "epoll_ok msgs epoll_start"
  by (auto simp: epoll_ok_def epoll_start_def simp del: replicate.simps)

lemma child_step_ok:
  assumes ok: "epoll_ok msgs s" and i: "i < CLIENT_COUNT"
  shows "epoll_ok msgs (child_step msgs i s)"
proof (cases "children s ! i = Sent \<and> event_fd s \<noteq> 0")
  case True
  with ok obtain j where j: "j < CLIENT_COUNT" "event_fd s = set_event j" by (auto simp: epoll_ok_def)
  then have "eventfd_write (set_event i) s = None" using event_codes(2) i by (simp add: eventfd_write_def)
  with True ok show ?thesis by (simp add: child_step_def)
next
  case False
  have "unat (set_event i) \<le> 2 ^ 64 - 2" using i event_codes(2) [OF i] by (simp add: CLIENT_COUNT_def)
  then have w: "event_fd s = 0 \<Longrightarrow> eventfd_write (set_event i) s = Some (s\<lparr>event_fd := set_event i\<rparr>)"
    by (simp add: eventfd_write_def)
  show ?thesis
  proof (cases "event_fd s = 0")
    case True
    with ok i w show ?thesis
      by (cases "children s ! i") (auto simp: epoll_ok_def child_step_def nth_list_update)
  next
    case busy: False
    with ok obtain j where "j < CLIENT_COUNT" "event_fd s = set_event j" "children s ! j \<in> {Announced, Gone}"
      by (auto simp: epoll_ok_def)
    with busy False ok i show ?thesis
      by (cases "children s ! i") (auto simp: epoll_ok_def child_step_def nth_list_update intro!: exI [of _ j])
  qed
qed

lemma epoll_server_ok:
  assumes ok: "epoll_ok msgs s" and fit: "\<And>i. length (msgs i) < MSG_SIZE"
  shows "case epoll_server_step r s of Inr s' \<Rightarrow> epoll_ok msgs s' | Inl f \<Rightarrow> f = Undefined \<or> f = ExitWith 1"
proof -
  have "length (padded (msgs i)) = MSG_SIZE" for i using fit [of i] by (simp add: padded_def)
  then show ?thesis using ok
    by (cases r) (auto simp: epoll_server_step_def epoll_ok_def terminate_def Let_def)
qed

lemma epoll_run_ok:
  assumes "epoll_ok msgs s" and fit: "\<And>i. length (msgs i) < MSG_SIZE"
  shows "case epoll_run msgs rs s of Inr s' \<Rightarrow> epoll_ok msgs s' | Inl f \<Rightarrow> f = Undefined \<or> f = ExitWith 1"
  using assms(1)
proof (induction rs arbitrary: s)
  case (Cons r rs)
  have srv: "case obind (epoll_server_step r s) (epoll_run msgs rs) of
      Inr s' \<Rightarrow> epoll_ok msgs s' | Inl f \<Rightarrow> f = Undefined \<or> f = ExitWith 1"
  proof (cases "epoll_server_step r s")
    case (Inl f)
    with epoll_server_ok [OF Cons.prems fit, of r] show ?thesis by simp
  next
    case (Inr s')
    with epoll_server_ok [OF Cons.prems fit, of r] Cons.IH [of s'] show ?thesis by simp
  qed
  show ?case
  proof (cases r)
    case (Child i)
    with Cons.IH child_step_ok Cons.prems show ?thesis by simp
  qed (use srv Cons.prems in simp_all)
qed simp

text \<open>C36: The counter of the \<^verbatim>\<open>eventfd\<close> is always zero or the announcement of one child that has sent its
  message, never a mixture, because a second announcement would exceed what the counter can
  hold and waits.  But no message is ever received: each child sends all 32 bytes of its array, and the
  server writes the terminating zero behind the end of its own; or, when the announcement of a child is
  reported before its message, it reads from a pipe it has closed and exits.\<close>

theorem epoll_never_receives:
  assumes "\<And>i. pids i \<le> 4194304"
  shows "(case epoll_run (messages pids rands) rs epoll_start of
      Inr s \<Rightarrow> ereceived s = 0 \<and> (event_fd s = 0 \<or> (\<exists>i. event_fd s = set_event i \<and> get_index (event_fd s) = i \<and> children s ! i \<in> {Announced, Gone}))
    | Inl f \<Rightarrow> f = Undefined \<or> f = ExitWith 1)
    \<and> epoll_run (messages pids rands) [Child 0, Pipe 0] epoll_start = Inl Undefined
    \<and> epoll_run (messages pids rands) [Child 0, Child 0, Eventfd, Pipe 0] epoll_start = Inl (ExitWith 1)"
proof -
  let ?m = "messages pids rands"
  have "?m = (\<lambda>i. message (pids i) (rands i))" by (rule ext) (simp add: messages_def)
  then have "fits ?m" using messages_fit [OF assms] by simp
  then have fit: "length (?m i) < MSG_SIZE" for i by (simp add: fits_def)
  then have pad: "length (padded (?m i)) = MSG_SIZE" for i by (simp add: padded_def less_imp_le)
  then have ne: "padded (?m i) \<noteq> []" for i by (metis MSG_SIZE_def list.size(3) zero_neq_numeral)
  have "epoll_run ?m [Child 0, Pipe 0] epoll_start = Inl Undefined"
    using pad ne by (simp add: epoll_start_def child_step_def epoll_server_step_def CLIENT_COUNT_def terminate_def Let_def)
  moreover have "epoll_run ?m [Child 0, Child 0, Eventfd, Pipe 0] epoll_start = Inl (ExitWith 1)"
    using ne event_codes [of 0]
    by (simp add: epoll_start_def child_step_def epoll_server_step_def CLIENT_COUNT_def eventfd_write_def Let_def)
  moreover have "case epoll_run ?m rs epoll_start of
      Inr s \<Rightarrow> ereceived s = 0 \<and> (event_fd s = 0 \<or> (\<exists>i. event_fd s = set_event i \<and> get_index (event_fd s) = i \<and> children s ! i \<in> {Announced, Gone}))
    | Inl f \<Rightarrow> f = Undefined \<or> f = ExitWith 1"
  proof (cases "epoll_run ?m rs epoll_start")
    case (Inl f)
    with epoll_run_ok [where msgs = ?m and rs = rs, OF epoll_ok_start fit] show ?thesis by simp
  next
    case (Inr s)
    with epoll_run_ok [where msgs = ?m and rs = rs, OF epoll_ok_start fit] have "epoll_ok ?m s" by simp
    then have "ereceived s = 0"
      and "event_fd s = 0 \<or> (\<exists>i<CLIENT_COUNT. event_fd s = set_event i \<and> children s ! i \<in> {Announced, Gone})"
      unfolding epoll_ok_def by blast+
    then show ?thesis unfolding Inr sum.case using event_codes(1) by metis
  qed
  ultimately show ?thesis by (intro conjI)
qed

theorem epoll_never_receives_witness:
  "epoll_run (messages (\<lambda>i. 1000) (\<lambda>i. 0)) [Child 0, Pipe 0] epoll_start = Inl Undefined"
  using epoll_never_receives [where pids = "\<lambda>i. 1000" and rands = "\<lambda>i. 0" and rs = "[]"] by simp

end
