(* ===== verification/DirList.thy ===== *)
theory DirList
  imports Prelude "HOL-Library.Word"
begin

text \<open>
  Two programs that list directories: the file utility of the twelfth laboratory,
  \<^verbatim>\<open>lab12/sol/lin/1-mini/mini.c\<close>, a shell of file commands of which \<^verbatim>\<open>ls\<close> is the one with
  a loop, and \<^verbatim>\<open>lab02/sol/win/3-ls/ls.c\<close>.  The directories of the system are a function from paths to
  their entries; a path that cannot be opened is \<^const>\<open>None\<close>.
\<close>

section \<open>mini.c: list_dir\<close>

text \<open>The types of entries of \<^verbatim>\<open>dirent.h\<close>.\<close>

definition DT_DIR :: "8 word" where "DT_DIR = 4"

definition DT_BLK :: "8 word" where "DT_BLK = 6"

definition DT_REG :: "8 word" where "DT_REG = 8"

definition DT_LNK :: "8 word" where "DT_LNK = 10"

definition DT_SOCK :: "8 word" where "DT_SOCK = 12"

type_synonym dirents = "string \<Rightarrow> (string \<times> 8 word) list option"

text \<open>What was printed, and how many directories are open; the system allows \<open>limit\<close> of them.\<close>

type_synonym listing = "string list \<times> nat"

text \<open>\<^verbatim>\<open>snprintf(path, 1024, "%s/%s", dirname, name)\<close>.\<close>

definition join :: "string \<Rightarrow> string \<Rightarrow> string" where
  "join dirname name = take 1023 (dirname @ ''/'' @ name)"

definition hidden :: "string \<Rightarrow> bool" where
  "hidden name \<longleftrightarrow> starts_with ''.'' name \<or> starts_with ''..'' name"

text \<open>The loop over the entries; \<open>rec\<close> is the recursive call.\<close>

fun entries_loop :: "(string \<Rightarrow> listing \<Rightarrow> listing outcome) \<Rightarrow> string \<Rightarrow> (string \<times> 8 word) list \<Rightarrow> listing \<Rightarrow> listing outcome" where
  "entries_loop rec dirname [] st = Inr st"
| "entries_loop rec dirname ((d_name, d_type) # es) (out, n) =
     (if hidden d_name then entries_loop rec dirname es (out, n)
      else
        let out = out @ [d_name] in
        if and d_type DT_DIR \<noteq> 0
        then obind (rec (join dirname d_name) (out, n)) (entries_loop rec dirname es)
        else entries_loop rec dirname es (out, n))"

text \<open>
  \<^verbatim>\<open>list_dir\<close>, with a bound on the depth of the recursion.  A directory that was opened is
  never closed.
\<close>

fun list_dir :: "dirents \<Rightarrow> nat \<Rightarrow> nat \<Rightarrow> string \<Rightarrow> listing \<Rightarrow> listing outcome" where
  "list_dir fs limit 0 dirname st = Inl NoFuel"
| "list_dir fs limit (Suc k) dirname (out, n) =
     (if n \<ge> limit then Inl (ExitWith 1)
      else case fs dirname of
             None \<Rightarrow> Inl (ExitWith 1)
           | Some es \<Rightarrow> entries_loop (list_dir fs limit k) dirname es (out, n + 1))"

section \<open>Trees\<close>

text \<open>What a user sees: directories with their contents, and anything else.\<close>

datatype entry = Dir string "entry list" | Leaf string "8 word"

fun entry_name :: "entry \<Rightarrow> string" where
  "entry_name (Dir n es) = n"
| "entry_name (Leaf n t) = n"

fun entry_type :: "entry \<Rightarrow> 8 word" where
  "entry_type (Dir n es) = DT_DIR"
| "entry_type (Leaf n t) = t"

text \<open>The names in the order of a depth-first walk; hidden entries are left out with all they contain.\<close>

fun preorder :: "entry \<Rightarrow> string list" where
  "preorder (Dir n es) = (if hidden n then [] else n # concat (map preorder es))"
| "preorder (Leaf n t) = (if hidden n then [] else [n])"

fun dirs :: "entry \<Rightarrow> nat" where
  "dirs (Dir n es) = (if hidden n then 0 else 1 + sum_list (map dirs es))"
| "dirs (Leaf n t) = 0"

fun depth :: "entry \<Rightarrow> nat" where
  "depth (Dir n es) = Suc (foldr max (map depth es) 0)"
| "depth (Leaf n t) = 0"

text \<open>The system holds the entry below the path \<open>d\<close>, no path is cut, and what is no directory has none of its bits.\<close>

fun holds :: "dirents \<Rightarrow> string \<Rightarrow> entry \<Rightarrow> bool" where
  "holds fs d (Dir n es) = (if hidden n then True
     else length d + length n + 1 < 1024 \<and> fs (d @ ''/'' @ n) = Some (map (\<lambda>e. (entry_name e, entry_type e)) es)
       \<and> list_all (holds fs (d @ ''/'' @ n)) es)"
| "holds fs d (Leaf n t) = (if hidden n then True else and t DT_DIR = 0)"

lemma le_foldr_max: "x \<in> set xs \<Longrightarrow> x \<le> foldr max xs (0 :: nat)"
  by (induction xs) (auto simp: le_max_iff_disj)

text \<open>The result when only so many directories may be open.\<close>

definition listed :: "nat \<Rightarrow> string list \<Rightarrow> nat \<Rightarrow> listing outcome" where
  "listed limit out n = (if n \<le> limit then Inr (out, n) else Inl (ExitWith 1))"

lemma entries_loop_tree:
  assumes "\<And>n sub out m. Dir n sub \<in> set es \<Longrightarrow> \<not> hidden n \<Longrightarrow> m \<le> limit \<Longrightarrow>
      rec (join d n) (out, m) = listed limit (out @ concat (map preorder sub)) (m + dirs (Dir n sub))"
    and "list_all (holds fs d) es" "m \<le> limit"
  shows "entries_loop rec d (map (\<lambda>e. (entry_name e, entry_type e)) es) (out, m)
    = listed limit (out @ concat (map preorder es)) (m + sum_list (map dirs es))"
  using assms
proof (induction es arbitrary: out m)
  case (Cons e es)
  show ?case
  proof (cases e)
    case (Dir n sub)
    show ?thesis
    proof (cases "hidden n")
      case True
      with Dir Cons.prems Cons.IH show ?thesis by simp
    next
      case False
      let ?out = "(out @ [n]) @ concat (map preorder sub)" and ?m = "m + dirs (Dir n sub)"
      have r: "rec (join d n) (out @ [n], m) = listed limit ?out ?m"
        by (rule Cons.prems(1)) (use Dir False Cons.prems(3) in auto)
      show ?thesis
      proof (cases "?m \<le> limit")
        case True
        have "entries_loop rec d (map (\<lambda>e. (entry_name e, entry_type e)) es) (?out, ?m)
          = listed limit (?out @ concat (map preorder es)) (?m + sum_list (map dirs es))"
          by (rule Cons.IH) (use Cons.prems Dir True in auto)
        with r Dir False True show ?thesis by (simp add: DT_DIR_def listed_def add.assoc del: dirs.simps)
      next
        case no: False
        with r Dir False show ?thesis by (simp add: DT_DIR_def listed_def del: dirs.simps)
      qed
    qed
  next
    case (Leaf n t)
    with Cons.prems Cons.IH show ?thesis by (auto simp: Let_def)
  qed
qed (simp add: listed_def)

lemma list_dir_tree:
  "fs p = Some (map (\<lambda>e. (entry_name e, entry_type e)) es) \<Longrightarrow> list_all (holds fs p) es \<Longrightarrow> \<forall>e\<in>set es. depth e < k \<Longrightarrow>
   list_dir fs limit (Suc k) p (out, m) = listed limit (out @ concat (map preorder es)) (m + 1 + sum_list (map dirs es))"
proof (induction k arbitrary: p es out m)
  case 0
  then have "es = []" by (cases es) auto
  with 0 show ?case by (simp add: listed_def)
next
  case (Suc k)
  show ?case
  proof (cases "m < limit")
    case False
    with Suc.prems(1) show ?thesis by (simp add: listed_def)
  next
    case True
    have rec: "list_dir fs limit (Suc k) (join p n) (o', m') = listed limit (o' @ concat (map preorder sub)) (m' + dirs (Dir n sub))"
      if "Dir n sub \<in> set es" "\<not> hidden n" "m' \<le> limit" for n sub o' m'
    proof -
      have h: "holds fs p (Dir n sub)" using Suc.prems(2) that(1) by (auto simp: list_all_iff)
      with that(2) have "length (p @ ''/'' @ n) \<le> 1023" by simp
      then have "join p n = p @ ''/'' @ n" unfolding join_def by (rule take_all)
      moreover have "\<forall>e\<in>set sub. depth e < k"
      proof
        fix e assume "e \<in> set sub"
        then have "depth e \<le> foldr max (map depth sub) 0" by (intro le_foldr_max) simp
        with Suc.prems(3) that(1) show "depth e < k" by force
      qed
      ultimately show ?thesis using h that(2) Suc.IH [of "p @ ''/'' @ n" sub o' m'] by (simp add: ac_simps del: list_dir.simps)
    qed
    from entries_loop_tree [where rec = "list_dir fs limit (Suc k)" and d = p and es = es and limit = limit and fs = fs and m = "m + 1" and out = out,
        OF rec Suc.prems(2)] True Suc.prems(1)
    show ?thesis by (simp add: list_dir.simps(2) [of fs limit "Suc k"] del: list_dir.simps(2))
  qed
qed

text \<open>C37: Listing a directory prints the names of a depth-first walk, without the hidden entries and what is below
  them.  No directory is ever closed, so this holds while the walk has no more
  directories than may be open at once; beyond that, however shallow the tree, the program exits.\<close>

theorem list_dir_walks:
  assumes "fs p = Some (map (\<lambda>e. (entry_name e, entry_type e)) es)" "list_all (holds fs p) es"
    and "foldr max (map depth es) 0 < k"
  shows "list_dir fs limit (Suc k) p ([], 0)
    = (if 1 + sum_list (map dirs es) \<le> limit then Inr (concat (map preorder es), 1 + sum_list (map dirs es))
       else Inl (ExitWith 1))"
proof -
  have "\<forall>e\<in>set es. depth e < k"
  proof
    fix e assume "e \<in> set es"
    then have "depth e \<le> foldr max (map depth es) 0" by (intro le_foldr_max) simp
    with assms(3) show "depth e < k" by simp
  qed
  from list_dir_tree [OF assms(1,2) this, of limit "[]" 0] show ?thesis by (simp add: listed_def)
qed

theorem list_dir_walks_witness:
  "list_dir [''d'' \<mapsto> [(''.git'', DT_DIR), (''a'', DT_DIR), (''f'', DT_REG)], ''d/a'' \<mapsto> [(''g'', DT_REG)]] 1021 3 ''d'' ([], 0)
    = Inr ([''a'', ''g'', ''f''], 2)"
  using list_dir_walks [of "[''d'' \<mapsto> [(''.git'', DT_DIR), (''a'', DT_DIR), (''f'', DT_REG)], ''d/a'' \<mapsto> [(''g'', DT_REG)]]" "''d''"
      "[Dir ''.git'' [], Dir ''a'' [Leaf ''g'' DT_REG], Leaf ''f'' DT_REG]" 2 1021]
  by (simp add: hidden_def starts_with_def DT_DIR_def DT_REG_def numeral_3_eq_3 numeral_2_eq_2)

text \<open>The test of one bit also takes block devices and sockets for directories, which cannot be opened.\<close>

lemma sockets_end_the_listing:
  assumes "fs p = Some [(n, t)]" "t \<in> {DT_BLK, DT_SOCK}" "fs (join p n) = None" "\<not> hidden n" "1 < limit"
  shows "list_dir fs limit (Suc (Suc k)) p ([], 0) = Inl (ExitWith 1)"
  using assms by (auto simp: DT_BLK_def DT_SOCK_def DT_DIR_def)

section \<open>mini.c: the commands\<close>

text \<open>
  Each command is one call; its result comes from the system, and a failure ends the program.  A missing
  argument is a null pointer, which every call but \<^verbatim>\<open>list\<close> is given as it is.
\<close>

datatype call =
    Stat string
  | Mount "string option" "string option" "string option"
  | Umount "string option"
  | Symlink "string option" "string option"
  | Unlink "string option"
  | Mkdir "string option" nat
  | Rmdir "string option"
  | Chdir "string option"
  | Getcwd
  | List_dir "string option"

datatype line_result = Quits | Fails "call list" | Continues "call list"

definition delim :: string where "delim = '' '' @ [char_of (9 :: nat), char_of (10 :: nat)]"

text \<open>One call after the other, up to the first that fails.\<close>

fun calls :: "(call \<Rightarrow> bool) \<Rightarrow> call list \<Rightarrow> call list \<Rightarrow> line_result" where
  "calls ok made [] = Continues made"
| "calls ok made (c # cs) = (if ok c then calls ok (made @ [c]) cs else Fails (made @ [c]))"

text \<open>
  The tests of the command, each on its first letters only.  In the code they follow one another without
  \<^verbatim>\<open>else\<close>; as none of the names is a beginning of another, at most one of them holds.
\<close>

definition mini_line :: "(call \<Rightarrow> bool) \<Rightarrow> string \<Rightarrow> line_result" where
  "mini_line ok line =
     (let (cmd, r0) = strtok line delim;
          (arg1, r1) = strtok r0 delim;
          (arg2, r2) = strtok r1 delim;
          (arg3, r3) = strtok r2 delim
      in case cmd of
           None \<Rightarrow> Continues []
         | Some cmd \<Rightarrow>
             if starts_with ''quit'' cmd then Quits
             else if starts_with ''list'' cmd then
               (case arg1 of None \<Rightarrow> Continues [] | Some a \<Rightarrow> calls ok [] [Stat a])
             else if starts_with ''mount'' cmd then calls ok [] [Mount arg1 arg2 arg3]
             else if starts_with ''umount'' cmd then calls ok [] [Umount arg1]
             else if starts_with ''symlink'' cmd then calls ok [] [Symlink arg1 arg2]
             else if starts_with ''unlink'' cmd then calls ok [] [Unlink arg1]
             else if starts_with ''mkdir'' cmd then calls ok [] [Mkdir arg1 493]
             else if starts_with ''rmdir'' cmd then calls ok [] [Rmdir arg1]
             else if starts_with ''ls'' cmd then calls ok [] [List_dir arg1]
             else if starts_with ''chdir'' cmd then calls ok [] [Chdir arg1]
             else if starts_with ''pwd'' cmd then calls ok [] [Getcwd]
             else Continues [])"

text \<open>The loop of \<^verbatim>\<open>main\<close> over the lines that \<^verbatim>\<open>fgets\<close> returns: the exit code and the calls made.\<close>

fun mini_main :: "(call \<Rightarrow> bool) \<Rightarrow> string list \<Rightarrow> int \<times> call list" where
  "mini_main ok [] = (0, [])"
| "mini_main ok (l # ls) =
     (case mini_line ok l of
        Quits \<Rightarrow> (0, [])
      | Fails cs \<Rightarrow> (1, cs)
      | Continues cs \<Rightarrow> (let (rc, rest) = mini_main ok ls in (rc, cs @ rest)))"

text \<open>The mode that the comment on \<^verbatim>\<open>mkdir\<close> describes as its second argument is not read.\<close>

lemma mkdir_ignores_mode:
  "mini_line (\<lambda>_. True) ''mkdir food 0777'' = Continues [Mkdir (Some ''food'') 493]"
  by code_simp

section \<open>ls.c\<close>

definition MAXPATH :: nat where "MAXPATH = 256"

definition MAX_FILE_NAME :: nat where "MAX_FILE_NAME = 48"

text \<open>An entry as \<^verbatim>\<open>FindNextFile\<close> describes it: the attribute of a directory, the name, the time, both halves of the size.\<close>

record find_data =
  is_directory :: bool
  cFileName :: string
  ftLastWriteTime :: nat
  nFileSizeLow :: "32 word"
  nFileSizeHigh :: "32 word"

text \<open>
  A printed line: whether it begins with \<^verbatim>\<open><DIR>\<close>, the name, the number of blanks behind it, and with \<^verbatim>\<open>-a\<close> the time
  and the size; or the heading of a directory.
\<close>

datatype out_line = Heading string | Line bool string "32 word" "(nat \<times> int) option"

text \<open>\<^verbatim>\<open>PrintPadding(MAX_FILE_NAME - strlen(name))\<close> takes an unsigned number.\<close>

definition padding :: "string \<Rightarrow> 32 word" where
  "padding name = of_nat MAX_FILE_NAME - of_nat (length name)"

definition file_size :: "find_data \<Rightarrow> int" where
  "file_size ffd = (let q = unat (nFileSizeHigh ffd) * 2 ^ 32 + unat (nFileSizeLow ffd)
     in if q < 2 ^ 63 then int q else int q - 2 ^ 64)"

text \<open>\<^verbatim>\<open>sprintf_s\<close> ends the program when the result does not fit.\<close>

definition sprintf_s :: "nat \<Rightarrow> string \<Rightarrow> string outcome" where
  "sprintf_s sz s = (if length s < sz then Inr s else Inl Undefined)"

type_synonym finds = "string \<Rightarrow> find_data list option"

definition is_dot :: "string \<Rightarrow> bool" where
  "is_dot name \<longleftrightarrow> \<not> (\<not> starts_with ''.'' name \<and> \<not> starts_with ''..'' name)"

fun find_loop :: "(string \<Rightarrow> out_line list outcome) \<Rightarrow> bool \<Rightarrow> bool \<Rightarrow> string \<Rightarrow> find_data list \<Rightarrow> out_line list outcome" where
  "find_loop rec bRecursive bAll path [] = Inr []"
| "find_loop rec bRecursive bAll path (ffd # rest) =
     (if is_directory ffd then
        obind (if bRecursive \<and> \<not> is_dot (cFileName ffd)
               then obind (sprintf_s MAXPATH (path @ [char_of (92 :: nat)] @ cFileName ffd)) rec
               else Inr []) (\<lambda>sub.
        obind (find_loop rec bRecursive bAll path rest) (\<lambda>ls.
        Inr (Line True (cFileName ffd) (padding (cFileName ffd)) None # sub @ ls)))
      else
        obind (find_loop rec bRecursive bAll path rest) (\<lambda>ls.
        Inr (Line False (cFileName ffd) (padding (cFileName ffd))
               (if bAll then Some (ftLastWriteTime ffd, file_size ffd) else None) # ls)))"

text \<open>\<^verbatim>\<open>ListFiles\<close>, with a bound on the depth of the recursion.\<close>

fun ListFiles :: "finds \<Rightarrow> bool \<Rightarrow> bool \<Rightarrow> nat \<Rightarrow> string \<Rightarrow> out_line list outcome" where
  "ListFiles fs bRecursive bAll 0 path = Inl NoFuel"
| "ListFiles fs bRecursive bAll (Suc k) path =
     obind (sprintf_s MAXPATH (path @ [char_of (92 :: nat), CHR ''*''])) (\<lambda>extendedPath.
     case fs path of
       None \<Rightarrow> Inl (ExitWith 1)
     | Some es \<Rightarrow>
         obind (find_loop (ListFiles fs bRecursive bAll k) bRecursive bAll path es) (\<lambda>ls.
         Inr (Heading path # ls)))"

text \<open>The arguments: options anywhere, and of several paths the last.  \<^const>\<open>None\<close>: the usage is printed.\<close>

fun parse_args :: "string list \<Rightarrow> bool \<Rightarrow> bool \<Rightarrow> string option \<Rightarrow> (bool \<times> bool \<times> string option) outcome" where
  "parse_args [] r a p = Inr (r, a, p)"
| "parse_args (x # xs) r a p =
     (if x = ''-a'' then parse_args xs r True p
      else if x = ''-R'' then parse_args xs True a p
      else obind (sprintf_s MAXPATH x) (\<lambda>q. parse_args xs r a (Some q)))"

definition ls_main :: "finds \<Rightarrow> nat \<Rightarrow> string list \<Rightarrow> (int \<times> out_line list option) outcome" where
  "ls_main fs k argv =
     (if length argv < 2 \<or> 4 < length argv then Inr (-1, None)
      else obind (parse_args (tl argv) False False None) (\<lambda>(r, a, p).
        case p of
          None \<Rightarrow> Inr (0, None)
        | Some path \<Rightarrow> obind (ListFiles fs r a k path) (\<lambda>ls. Inr (0, Some ls))))"

text \<open>A name of more than 48 characters is followed by some four thousand million blanks.\<close>

lemma padding_wraps:
  assumes "length name < MAXPATH"
  shows "unat (padding name)
    = (if length name \<le> MAX_FILE_NAME then MAX_FILE_NAME - length name else 2 ^ 32 - (length name - MAX_FILE_NAME))"
  using assms by (simp add: padding_def MAX_FILE_NAME_def MAXPATH_def unat_sub_if_size word_size unsigned_of_nat take_bit_nat_eq_self)

text \<open>Without \<^verbatim>\<open>-R\<close> one directory is listed, a line for each entry.\<close>

definition plain_line :: "bool \<Rightarrow> find_data \<Rightarrow> out_line" where
  "plain_line bAll ffd = Line (is_directory ffd) (cFileName ffd) (padding (cFileName ffd))
     (if \<not> is_directory ffd \<and> bAll then Some (ftLastWriteTime ffd, file_size ffd) else None)"

lemma find_loop_flat: "find_loop rec False bAll path es = Inr (map (plain_line bAll) es)"
  by (induction es) (auto simp: plain_line_def)

lemma ls_flat:
  "fs path = Some es \<Longrightarrow> length path + 2 < MAXPATH \<Longrightarrow>
   ListFiles fs False bAll (Suc k) path = Inr (Heading path # map (plain_line bAll) es)"
  by (simp add: sprintf_s_def find_loop_flat)

section \<open>Recursive listing\<close>

text \<open>Directories with their contents as \<^verbatim>\<open>ls -R\<close> shows them: its line, then the directory itself unless its name begins with a dot.\<close>

datatype wentry = WDir find_data "wentry list" | WFile find_data

fun wdata :: "wentry \<Rightarrow> find_data" where
  "wdata (WDir d es) = d"
| "wdata (WFile d) = d"

definition wjoin :: "string \<Rightarrow> string \<Rightarrow> string" where
  "wjoin path name = path @ [char_of (92 :: nat)] @ name"

fun wlines :: "bool \<Rightarrow> string \<Rightarrow> wentry \<Rightarrow> out_line list" where
  "wlines bAll path (WDir d es) = plain_line bAll d #
     (if is_dot (cFileName d) then []
      else Heading (wjoin path (cFileName d)) # concat (map (wlines bAll (wjoin path (cFileName d))) es))"
| "wlines bAll path (WFile d) = [plain_line bAll d]"

fun wholds :: "finds \<Rightarrow> string \<Rightarrow> wentry \<Rightarrow> bool" where
  "wholds fs path (WDir d es) = (is_directory d \<and> (if is_dot (cFileName d) then True
     else length (wjoin path (cFileName d)) + 2 < MAXPATH \<and> fs (wjoin path (cFileName d)) = Some (map wdata es)
       \<and> list_all (wholds fs (wjoin path (cFileName d))) es))"
| "wholds fs path (WFile d) = (\<not> is_directory d)"

fun wdepth :: "wentry \<Rightarrow> nat" where
  "wdepth (WDir d es) = Suc (foldr max (map wdepth es) 0)"
| "wdepth (WFile d) = 0"

lemma find_loop_tree:
  assumes "\<And>d sub. WDir d sub \<in> set es \<Longrightarrow> \<not> is_dot (cFileName d) \<Longrightarrow>
      rec (wjoin path (cFileName d)) = Inr (Heading (wjoin path (cFileName d)) # concat (map (wlines bAll (wjoin path (cFileName d))) sub))"
    and "list_all (wholds fs path) es"
  shows "find_loop rec True bAll path (map wdata es) = Inr (concat (map (wlines bAll path) es))"
  using assms
proof (induction es)
  case (Cons e es)
  from Cons have IH: "find_loop rec True bAll path (map wdata es) = Inr (concat (map (wlines bAll path) es))" by simp
  show ?case
  proof (cases e)
    case (WFile d)
    with IH Cons.prems(2) show ?thesis by (simp add: plain_line_def)
  next
    case (WDir d sub)
    show ?thesis
    proof (cases "is_dot (cFileName d)")
      case True
      with IH WDir Cons.prems(2) show ?thesis by (simp add: plain_line_def)
    next
      case False
      have "rec (wjoin path (cFileName d)) = Inr (Heading (wjoin path (cFileName d)) # concat (map (wlines bAll (wjoin path (cFileName d))) sub))"
        by (rule Cons.prems(1)) (use WDir False in auto)
      with False IH WDir Cons.prems(2) show ?thesis by (simp add: plain_line_def sprintf_s_def wjoin_def)
    qed
  qed
qed simp

text \<open>With \<^verbatim>\<open>-R\<close> the program lists a tree of directories completely and once: each directory with its
  heading, under it a line for each entry, in the order of a depth-first walk, as long as the paths fit
  into their array.\<close>

theorem ls_recursive:
  assumes "fs path = Some (map wdata es)" "list_all (wholds fs path) es" "length path + 2 < MAXPATH" "\<forall>e\<in>set es. wdepth e < k"
  shows "ListFiles fs True bAll (Suc k) path = Inr (Heading path # concat (map (wlines bAll path) es))"
  using assms
proof (induction k arbitrary: path es)
  case 0
  then have "es = []" by (cases es) auto
  with 0 show ?case by (simp add: sprintf_s_def)
next
  case (Suc k)
  have rec: "ListFiles fs True bAll (Suc k) (wjoin path (cFileName d))
      = Inr (Heading (wjoin path (cFileName d)) # concat (map (wlines bAll (wjoin path (cFileName d))) sub))"
    if "WDir d sub \<in> set es" "\<not> is_dot (cFileName d)" for d sub
  proof (rule Suc.IH)
    have h: "wholds fs path (WDir d sub)" using Suc.prems(2) that(1) by (auto simp: list_all_iff)
    with that(2) show "fs (wjoin path (cFileName d)) = Some (map wdata sub)"
      "list_all (wholds fs (wjoin path (cFileName d))) sub" "length (wjoin path (cFileName d)) + 2 < MAXPATH" by simp_all
    show "\<forall>e\<in>set sub. wdepth e < k"
    proof
      fix e assume "e \<in> set sub"
      then have "wdepth e \<le> foldr max (map wdepth sub) 0" by (intro le_foldr_max) simp
      with Suc.prems(4) that(1) show "wdepth e < k" by force
    qed
  qed
  from find_loop_tree [where rec = "ListFiles fs True bAll (Suc k)", OF rec Suc.prems(2)] Suc.prems(1,3)
  show ?case by (simp add: ListFiles.simps(2) [of fs True bAll "Suc k"] sprintf_s_def del: ListFiles.simps(2))
qed

end
