(* ===== verification/WordHash.thy ===== *)
theory WordHash
  imports Prelude "HOL-Library.Word" "HOL-Library.While_Combinator"
begin

text \<open>
  The hash table of the seventh laboratory, \<^verbatim>\<open>labs/lab07/skel/lin/1-custom/hash.c\<close>: open addressing
  with linear probing in an array that is never full, because at most half as many words are added.
\<close>

definition HASH_SIZE :: nat where "HASH_SIZE = 131072"

definition MAX_WORDS :: nat where "MAX_WORDS = 65536"

section \<open>State and operations\<close>

text \<open>A slot with a key; the null key of an empty slot is \<^const>\<open>None\<close>.\<close>

record 'v slot =
  key :: string
  key_hash :: nat
  val :: 'v

type_synonym 'v table = "nat \<Rightarrow> 'v slot option"

text \<open>\<^verbatim>\<open>*key\<close> is a signed character; the sum is an unsigned 32-bit number.\<close>

definition char_value :: "char \<Rightarrow> 32 word" where
  "char_value c = (if of_char c < (128 :: nat) then of_nat (of_char c) else of_nat (of_char c) - 256)"

definition hash_func :: "string \<Rightarrow> nat" where
  "hash_func k = unat (fold (\<lambda>c sum. (sum + char_value c) mod of_nat HASH_SIZE) k (0 :: 32 word))"

definition hash_init :: "'v table" where
  "hash_init = (\<lambda>_. None)"

definition hash_done :: "'v table \<Rightarrow> 'v table" where
  "hash_done t = (\<lambda>i. if i < HASH_SIZE then None else t i)"

text \<open>\<^verbatim>\<open>if (++index == HASH_SIZE) index = 0\<close>.\<close>

definition advance :: "nat \<Rightarrow> nat" where
  "advance i = (if i + 1 = HASH_SIZE then 0 else i + 1)"

text \<open>A loop that never ends, as in a full table, is \<^const>\<open>None\<close>.\<close>

definition hash_add :: "string \<Rightarrow> 'v \<Rightarrow> 'v table \<Rightarrow> 'v table option" where
  "hash_add k v t =
     (let h = hash_func k in
      case while_option (\<lambda>i. t i \<noteq> None) advance h of
        None \<Rightarrow> None
      | Some i \<Rightarrow> Some (t(i \<mapsto> \<lparr>key = k, key_hash = h, val = v\<rparr>)))"

definition hash_search_index :: "string \<Rightarrow> 'v table \<Rightarrow> nat option" where
  "hash_search_index k t =
     (let h = hash_func k in
      case while_option (\<lambda>i. case t i of None \<Rightarrow> False | Some s \<Rightarrow> key_hash s \<noteq> h \<or> key s \<noteq> k) advance h of
        None \<Rightarrow> None
      | Some i \<Rightarrow> Some (if t i \<noteq> None then i else HASH_SIZE))"

definition hash_search :: "string \<Rightarrow> 'v table \<Rightarrow> 'v option option" where
  "hash_search k t =
     (case hash_search_index k t of
        None \<Rightarrow> None
      | Some i \<Rightarrow> Some (if i = HASH_SIZE then None else map_option val (t i)))"

fun add_all :: "(string \<times> 'v) list \<Rightarrow> 'v table \<Rightarrow> 'v table option" where
  "add_all [] t = Some t"
| "add_all ((k, v) # kvs) t = (case hash_add k v t of None \<Rightarrow> None | Some t' \<Rightarrow> add_all kvs t')"

text \<open>The part of \<^verbatim>\<open>main\<close> that adds the words, each with itself as its value.\<close>

definition add_words :: "string list \<Rightarrow> string table option" where
  "add_words words = add_all (map (\<lambda>w. (w, w)) words) hash_init"

section \<open>Probing\<close>

definition cyc :: "nat \<Rightarrow> nat \<Rightarrow> nat" where
  "cyc h n = (h + n) mod HASH_SIZE"

lemma HASH_SIZE_pos [simp]: "0 < HASH_SIZE" by (simp add: HASH_SIZE_def)

lemma cyc_less [simp]: "cyc h n < HASH_SIZE" by (simp add: cyc_def)

lemma advance_cyc: "advance (cyc h n) = cyc h (Suc n)"
  by (simp add: advance_def cyc_def mod_Suc)

lemma cyc_0: "h < HASH_SIZE \<Longrightarrow> cyc h 0 = h"
  by (simp add: cyc_def)

lemma cyc_inj: "cyc h m = cyc h n \<Longrightarrow> m < HASH_SIZE \<Longrightarrow> n < HASH_SIZE \<Longrightarrow> m = n"
proof (induction m n rule: linorder_wlog)
  case (le m n)
  then have "(h + m) mod HASH_SIZE = (h + n) mod HASH_SIZE" by (simp add: cyc_def)
  then have "HASH_SIZE dvd (h + n) - (h + m)" using le(1) by (metis add_left_mono mod_eq_dvd_iff_nat)
  then have "HASH_SIZE dvd n - m" by simp
  with le show ?case by (metis diff_is_0_eq dvd_imp_le le_antisym less_imp_diff_less linorder_not_le not_gr_zero)
qed simp

lemma cyc_onto: "h < HASH_SIZE \<Longrightarrow> j < HASH_SIZE \<Longrightarrow> \<exists>n<HASH_SIZE. cyc h n = j"
proof (cases "h \<le> j")
  case True
  moreover assume "j < HASH_SIZE"
  ultimately show ?thesis by (intro exI [of _ "j - h"]) (simp add: cyc_def)
next
  case False
  moreover assume "h < HASH_SIZE" "j < HASH_SIZE"
  ultimately show ?thesis by (intro exI [of _ "HASH_SIZE + j - h"]) (simp add: cyc_def)
qed

text \<open>The loop stops at the first place where its condition fails.\<close>

lemma probe:
  assumes "h < HASH_SIZE" "\<And>m. m < n \<Longrightarrow> b (cyc h m)" "\<not> b (cyc h n)"
  shows "while_option b advance h = Some (cyc h n)"
proof -
  have "while_option b advance (cyc h k) = Some (cyc h n)" if "k \<le> n" for k
    using that
  proof (induction k rule: inc_induct)
    case base
    then show ?case using assms(3) by (simp add: while_option_unfold)
  next
    case (step k)
    then show ?case using assms(2) [of k] by (simp add: while_option_unfold [of b advance "cyc h k"] advance_cyc)
  qed
  from this [of 0] show ?thesis by (simp add: cyc_0 [OF assms(1)])
qed

lemma hash_func_less: "hash_func k < HASH_SIZE"
proof -
  have "unat (fold (\<lambda>c sum. (sum + char_value c) mod of_nat HASH_SIZE) k s) < HASH_SIZE" if "unat s < HASH_SIZE" for s :: "32 word"
    using that
  proof (induction k arbitrary: s)
    case (Cons c k)
    have "unat ((s + char_value c) mod of_nat HASH_SIZE) < HASH_SIZE" by (simp add: unat_mod HASH_SIZE_def)
    from Cons.IH [OF this] show ?case by simp
  qed simp
  from this [of 0] show ?thesis by (simp add: hash_func_def)
qed

section \<open>The invariant\<close>

text \<open>Every key sits at its own place or behind places that are all taken.\<close>

definition reached :: "'v table \<Rightarrow> string \<Rightarrow> nat \<Rightarrow> bool" where
  "reached t k j \<longleftrightarrow> (\<exists>n<HASH_SIZE. cyc (hash_func k) n = j \<and> (\<forall>m<n. t (cyc (hash_func k) m) \<noteq> None))"

definition table_ok :: "'v table \<Rightarrow> bool" where
  "table_ok t \<longleftrightarrow> (\<forall>j s. t j = Some s \<longrightarrow> key_hash s = hash_func (key s) \<and> reached t (key s) j)"

definition used :: "'v table \<Rightarrow> nat" where
  "used t = card {j. j < HASH_SIZE \<and> t j \<noteq> None}"

lemma free_slot: "used t < HASH_SIZE \<Longrightarrow> \<exists>j<HASH_SIZE. t j = None"
proof (rule ccontr)
  assume "used t < HASH_SIZE" and "\<not> (\<exists>j<HASH_SIZE. t j = None)"
  then have "{j. j < HASH_SIZE \<and> t j \<noteq> None} = {..<HASH_SIZE}" by auto
  with \<open>used t < HASH_SIZE\<close> show False by (simp add: used_def)
qed

text \<open>The first place on the way of a key that is empty, or that satisfies another condition.\<close>

lemma first_place:
  assumes "used t < HASH_SIZE" "\<And>j. t j = None \<Longrightarrow> \<not> b j"
  shows "\<exists>n<HASH_SIZE. (\<forall>m<n. b (cyc (hash_func k) m)) \<and> \<not> b (cyc (hash_func k) n)"
proof -
  obtain j where "j < HASH_SIZE" "t j = None" using free_slot [OF assms(1)] by blast
  moreover obtain n where "n < HASH_SIZE" "cyc (hash_func k) n = j" using cyc_onto [OF hash_func_less \<open>j < HASH_SIZE\<close>] by blast
  ultimately have ex: "n < HASH_SIZE \<and> \<not> b (cyc (hash_func k) n)" using assms(2) by simp
  define l where "l = (LEAST n. \<not> b (cyc (hash_func k) n))"
  have "\<not> b (cyc (hash_func k) l)" unfolding l_def by (rule LeastI [of _ n]) (use ex in blast)
  moreover have "l \<le> n" unfolding l_def by (rule Least_le) (use ex in blast)
  moreover have "b (cyc (hash_func k) m)" if "m < l" for m using not_less_Least [OF that [unfolded l_def]] by blast
  moreover have "l < HASH_SIZE" using \<open>l \<le> n\<close> ex by linarith
  ultimately show ?thesis by blast
qed

text \<open>Where a search ends.\<close>

definition stops :: "'v table \<Rightarrow> string \<Rightarrow> nat \<Rightarrow> bool" where
  "stops t k n \<longleftrightarrow> n < HASH_SIZE \<and> (\<forall>m<n. \<exists>s. t (cyc (hash_func k) m) = Some s \<and> key s \<noteq> k)
     \<and> (case t (cyc (hash_func k) n) of None \<Rightarrow> True | Some s \<Rightarrow> key s = k)"

lemma stops_exists: "used t < HASH_SIZE \<Longrightarrow> \<exists>n. stops t k n"
  using first_place [of t "\<lambda>j. \<exists>s. t j = Some s \<and> key s \<noteq> k" k] by (auto simp: stops_def split: option.split)

lemma search_stops:
  assumes ok: "table_ok t" and st: "stops t k n"
  shows "hash_search k t = Some (map_option val (t (cyc (hash_func k) n)))"
proof -
  let ?b = "\<lambda>i. case t i of None \<Rightarrow> False | Some s \<Rightarrow> key_hash s \<noteq> hash_func k \<or> key s \<noteq> k"
  have "while_option ?b advance (hash_func k) = Some (cyc (hash_func k) n)"
  proof (rule probe [OF hash_func_less])
    show "?b (cyc (hash_func k) m)" if "m < n" for m using st that by (auto simp: stops_def)
    show "\<not> ?b (cyc (hash_func k) n)" using st ok by (auto simp: stops_def table_ok_def split: option.splits)
  qed
  then show ?thesis by (cases "t (cyc (hash_func k) n)") (auto simp: hash_search_def hash_search_index_def Let_def less_imp_neq [OF cyc_less])
qed

lemma hash_add_place:
  assumes "used t < HASH_SIZE"
  obtains n where "n < HASH_SIZE" "\<forall>m<n. t (cyc (hash_func k) m) \<noteq> None" "t (cyc (hash_func k) n) = None"
    "hash_add k v t = Some (t(cyc (hash_func k) n \<mapsto> \<lparr>key = k, key_hash = hash_func k, val = v\<rparr>))"
proof -
  from first_place [OF assms, of "\<lambda>j. t j \<noteq> None" k] obtain n where
    n: "n < HASH_SIZE" "\<forall>m<n. t (cyc (hash_func k) m) \<noteq> None" "t (cyc (hash_func k) n) = None" by auto
  have "while_option (\<lambda>i. t i \<noteq> None) advance (hash_func k) = Some (cyc (hash_func k) n)"
    by (rule probe [OF hash_func_less]) (use n in auto)
  with n that show ?thesis by (simp add: hash_add_def Let_def)
qed

lemma table_ok_add:
  assumes ok: "table_ok t" and n: "n < HASH_SIZE" "\<forall>m<n. t (cyc (hash_func k) m) \<noteq> None" "t (cyc (hash_func k) n) = None"
  shows "table_ok (t(cyc (hash_func k) n \<mapsto> \<lparr>key = k, key_hash = hash_func k, val = v\<rparr>))" (is "table_ok ?t")
  unfolding table_ok_def
proof (intro allI impI conjI)
  have mono: "reached t q j \<Longrightarrow> reached ?t q j" for q j unfolding reached_def by fastforce
  fix j s assume s: "?t j = Some s"
  show "key_hash s = hash_func (key s)" using s ok by (auto simp: table_ok_def split: if_splits)
  show "reached ?t (key s) j"
  proof (cases "j = cyc (hash_func k) n")
    case True
    with s n show ?thesis by (auto simp: reached_def)
  next
    case False
    with s ok have "reached t (key s) j" by (simp add: table_ok_def)
    then show ?thesis by (rule mono)
  qed
qed

lemma used_add: "t j = None \<Longrightarrow> j < HASH_SIZE \<Longrightarrow> used (t(j \<mapsto> s)) = used t + 1"
proof -
  assume "t j = None" "j < HASH_SIZE"
  moreover from this have "{i. i < HASH_SIZE \<and> (t(j \<mapsto> s)) i \<noteq> None} = insert j {i. i < HASH_SIZE \<and> t i \<noteq> None}" by auto
  ultimately show ?thesis by (simp add: used_def)
qed

section \<open>The first word wins\<close>

text \<open>Adding changes the answer for the key that is added only, and only if it had none.\<close>

lemma search_after_add:
  assumes ok: "table_ok t" and room: "used t + 1 < HASH_SIZE" and add: "hash_add k v t = Some t'"
    and old: "hash_search q t = Some r"
  shows "hash_search q t' = Some (if q = k \<and> r = None then Some v else r)"
proof -
  from room have "used t < HASH_SIZE" by simp
  then obtain n where n: "n < HASH_SIZE" "\<forall>m<n. t (cyc (hash_func k) m) \<noteq> None" "t (cyc (hash_func k) n) = None"
    and t': "t' = t(cyc (hash_func k) n \<mapsto> \<lparr>key = k, key_hash = hash_func k, val = v\<rparr>)"
    using add by (rule_tac hash_add_place [of t k v]) auto
  have ok': "table_ok t'" unfolding t' by (rule table_ok_add [OF ok n])
  have "used t' = used t + 1" unfolding t' by (rule used_add [of t "cyc (hash_func k) n", OF n(3) cyc_less])
  then have free': "used t' < HASH_SIZE" using room by simp
  obtain m where m: "stops t q m" using stops_exists [OF \<open>used t < HASH_SIZE\<close>] by blast
  have r: "r = map_option val (t (cyc (hash_func q) m))" using search_stops [OF ok m] old by simp
  have before: "cyc (hash_func q) l \<noteq> cyc (hash_func k) n" if "l < m" for l
    using m that n(3) unfolding stops_def by force
  show ?thesis
  proof (cases "cyc (hash_func q) m = cyc (hash_func k) n")
    case False
    then have same: "t' (cyc (hash_func q) m) = t (cyc (hash_func q) m)" by (simp add: t')
    have "stops t' q m" using m before same unfolding stops_def t' by auto
    from search_stops [OF ok' this] have "hash_search q t' = Some r" using same r by simp
    moreover have "r \<noteq> None" if "q = k"
    proof
      assume "r = None"
      then have empty: "t (cyc (hash_func k) m) = None" using r that by simp
      have "\<not> m < n" using n(2) empty by blast
      moreover have "\<not> n < m"
      proof
        assume "n < m"
        then obtain s where "t (cyc (hash_func k) n) = Some s" using m \<open>q = k\<close> unfolding stops_def by blast
        with n(3) show False by simp
      qed
      ultimately show False using False that by (simp add: linorder_neq_iff)
    qed
    ultimately show ?thesis by auto
  next
    case True
    then have none: "r = None" using r n(3) by simp
    show ?thesis
    proof (cases "q = k")
      case True
      then have "stops t' q m" using m before \<open>cyc (hash_func q) m = cyc (hash_func k) n\<close> unfolding stops_def t' by auto
      from search_stops [OF ok' this] True none \<open>cyc (hash_func q) m = cyc (hash_func k) n\<close> show ?thesis by (simp add: t')
    next
      case no: False
      obtain l where l: "stops t' q l" using stops_exists [OF free'] by blast
      have "t' (cyc (hash_func q) l) = None"
      proof (rule ccontr)
        assume "t' (cyc (hash_func q) l) \<noteq> None"
        then obtain s where s: "t' (cyc (hash_func q) l) = Some s" "key s = q" using l by (auto simp: stops_def split: option.splits)
        then have "t (cyc (hash_func q) l) = Some s" using no by (auto simp: t' split: if_splits)
        then have "reached t q (cyc (hash_func q) l)" using ok s(2) unfolding table_ok_def by blast
        then obtain l' where l': "l' < HASH_SIZE" "cyc (hash_func q) l' = cyc (hash_func q) l" "\<forall>i<l'. t (cyc (hash_func q) i) \<noteq> None"
          unfolding reached_def by blast
        have "l' = l" using cyc_inj [OF l'(2,1)] l by (simp add: stops_def)
        then have "l \<le> m" using l'(3) True n(3) not_le_imp_less by metis
        moreover have "l \<noteq> m" using \<open>t (cyc (hash_func q) l) = Some s\<close> True n(3) by auto
        ultimately have "l < m" by simp
        then show False using m \<open>t (cyc (hash_func q) l) = Some s\<close> s(2) unfolding stops_def by force
      qed
      with search_stops [OF ok' l] no none show ?thesis by simp
    qed
  qed
qed

lemma add_all_finds:
  "table_ok t \<Longrightarrow> used t + length kvs < HASH_SIZE \<Longrightarrow> (\<And>k. hash_search k t = Some (f k)) \<Longrightarrow>
   \<exists>t'. add_all kvs t = Some t' \<and> (\<forall>k. hash_search k t' = Some (case f k of None \<Rightarrow> map_of kvs k | Some v \<Rightarrow> Some v))"
proof (induction kvs arbitrary: t f)
  case Nil
  then show ?case by (auto split: option.split)
next
  case (Cons kv kvs)
  obtain k v where kv: "kv = (k, v)" by (cases kv)
  have "used t < HASH_SIZE" using Cons.prems(2) by simp
  then obtain n where n: "n < HASH_SIZE" "\<forall>m<n. t (cyc (hash_func k) m) \<noteq> None" "t (cyc (hash_func k) n) = None"
    "hash_add k v t = Some (t(cyc (hash_func k) n \<mapsto> \<lparr>key = k, key_hash = hash_func k, val = v\<rparr>))" (is "_ = Some ?t")
    by (rule hash_add_place)
  have "table_ok ?t" by (rule table_ok_add [OF Cons.prems(1) n(1-3)])
  moreover have "used ?t + length kvs < HASH_SIZE" using used_add [of t "cyc (hash_func k) n", OF n(3) cyc_less] Cons.prems(2) by simp
  moreover have "hash_search q ?t = Some (if q = k \<and> f q = None then Some v else f q)" for q
    by (rule search_after_add [OF Cons.prems(1) _ n(4) Cons.prems(3)]) (use Cons.prems(2) in simp)
  ultimately have "\<exists>t'. add_all kvs ?t = Some t' \<and>
    (\<forall>q. hash_search q t' = Some (case if q = k \<and> f q = None then Some v else f q of None \<Rightarrow> map_of kvs q | Some v \<Rightarrow> Some v))"
    by (rule Cons.IH)
  then obtain t' where "add_all kvs ?t = Some t'"
    "\<forall>q. hash_search q t' = Some (case if q = k \<and> f q = None then Some v else f q of None \<Rightarrow> map_of kvs q | Some v \<Rightarrow> Some v)"
    by blast
  then show ?case using n(4) kv by (auto split: option.split)
qed

lemma hash_init_ok: "table_ok hash_init" "used hash_init = 0" "hash_search k hash_init = Some None"
proof -
  show ok: "table_ok hash_init" by (simp add: table_ok_def hash_init_def)
  show "used hash_init = 0" by (simp add: used_def hash_init_def)
  have "stops hash_init k 0" by (simp add: stops_def hash_init_def)
  from search_stops [OF ok this] show "hash_search k hash_init = Some None" by (simp add: hash_init_def)
qed

lemma finds_from_start:
  assumes "length kvs < HASH_SIZE"
  shows "\<exists>t. add_all kvs hash_init = Some t \<and> (\<forall>k. hash_search k t = Some (map_of kvs k))"
proof -
  have "\<exists>t. add_all kvs hash_init = Some t \<and> (\<forall>k. hash_search k t = Some (case None of None \<Rightarrow> map_of kvs k | Some v \<Rightarrow> Some v))"
    by (rule add_all_finds [OF hash_init_ok(1) _ hash_init_ok(3)]) (use assms in \<open>simp add: hash_init_ok(2)\<close>)
  then show ?thesis by simp
qed

text \<open>C38: The table is the association list of what was added: up to 65536 pairs, in any order and with
  repetitions, every loop of \<^verbatim>\<open>hash_add\<close> and \<^verbatim>\<open>hash_search\<close> ends, and a search returns the
  first value that was added for the key, or that there is none.\<close>

theorem hash_is_first_binding:
  assumes "length kvs \<le> MAX_WORDS"
  shows "\<exists>t. add_all kvs hash_init = Some t \<and> (\<forall>k. hash_search k t = Some (map_of kvs k))"
  by (rule finds_from_start) (use assms in \<open>simp add: MAX_WORDS_def HASH_SIZE_def\<close>)

theorem hash_is_first_binding_witness:
  "\<exists>t. add_all [(''b'', 1), (''a'', 2), (''b'', 3 :: nat)] hash_init = Some t \<and> hash_search ''b'' t = Some (Some 1)"
  using hash_is_first_binding [of "[(''b'', 1), (''a'', 2), (''b'', 3 :: nat)]"] by (auto simp: MAX_WORDS_def)

text \<open>The words of \<^verbatim>\<open>main\<close> are found, and other words are not.\<close>

lemma words_found:
  assumes "length words \<le> MAX_WORDS"
  shows "\<exists>t. add_words words = Some t \<and> (\<forall>w. hash_search w t = Some (if w \<in> set words then Some w else None))"
proof -
  have "map_of (map (\<lambda>w. (w, w)) words) w = (if w \<in> set words then Some w else None)" for w by (induction words) auto
  with finds_from_start [of "map (\<lambda>w. (w, w)) words"] assms show ?thesis
    by (simp add: add_words_def MAX_WORDS_def HASH_SIZE_def)
qed

end
