(* ===== verification/Interlocked.thy ===== *)
theory Interlocked
  imports Prelude
begin

text \<open>
  \<^verbatim>\<open>win/3-interlocked/interlocked.c\<close> of the ninth laboratory: threads that count modulo ten, with interlocked
  operations or under a mutex.
\<close>

definition LIMIT :: int where "LIMIT = 10"

definition NO_THREADS :: nat where "NO_THREADS = 23"

definition NO_ROUNDS :: nat where "NO_ROUNDS = 1000001"

section \<open>interlocked.c\<close>

text \<open>
  Where a thread is in a round: before it, after the increment, or, in the version with the mutex, with the mutex
  before and after the increment.  The counter has 32 bits; no run reaches its largest value, see \<open>counter_fits\<close>.
\<close>

datatype place = Before nat | Between nat | Locked nat | Counted nat | Ended

record counting =
  count :: int
  hMutex :: "nat option"
  places :: "place list"

definition counting_start :: counting where
  "counting_start = \<lparr>count = 0, hMutex = None, places = replicate NO_THREADS (Before 0)\<rparr>"

definition InterlockedIncrement :: "counting \<Rightarrow> counting" where
  "InterlockedIncrement s = s\<lparr>count := count s + 1\<rparr>"

definition InterlockedCompareExchange :: "int \<Rightarrow> int \<Rightarrow> counting \<Rightarrow> counting" where
  "InterlockedCompareExchange new old s = (if count s = old then s\<lparr>count := new\<rparr> else s)"

definition goes :: "nat \<Rightarrow> place \<Rightarrow> counting \<Rightarrow> counting" where
  "goes t p s = s\<lparr>places := (places s)[t := p]\<rparr>"

text \<open>The loop of a thread; the yield to other threads is where another can be scheduled.\<close>

definition thread_function :: "nat \<Rightarrow> counting \<Rightarrow> counting" where
  "thread_function t s =
     (if t < length (places s) then
        (case places s ! t of
           Before i \<Rightarrow> if i < NO_ROUNDS then goes t (Between i) (InterlockedIncrement s) else goes t Ended s
         | Between i \<Rightarrow> goes t (Before (i + 1)) (InterlockedCompareExchange 0 LIMIT s)
         | _ \<Rightarrow> s)
      else s)"

definition thread_function_mutex :: "nat \<Rightarrow> counting \<Rightarrow> counting" where
  "thread_function_mutex t s =
     (if t < length (places s) then
        (case places s ! t of
           Before i \<Rightarrow>
             if i < NO_ROUNDS then (if hMutex s = None then goes t (Locked i) (s\<lparr>hMutex := Some t\<rparr>) else s)
             else goes t Ended s
         | Locked i \<Rightarrow> goes t (Counted i) (s\<lparr>count := count s + 1\<rparr>)
         | Counted i \<Rightarrow>
             (let s = (if count s = LIMIT then s\<lparr>count := 0\<rparr> else s)
              in goes t (Before (i + 1)) (s\<lparr>hMutex := None\<rparr>))
         | _ \<Rightarrow> s)
      else s)"

definition run :: "nat list \<Rightarrow> counting \<Rightarrow> counting" where
  "run ts s = fold thread_function ts s"

definition run_mutex :: "nat list \<Rightarrow> counting \<Rightarrow> counting" where
  "run_mutex ts s = fold thread_function_mutex ts s"

section \<open>Counting modulo the limit\<close>

fun increments :: "place \<Rightarrow> int" where
  "increments (Before i) = int i"
| "increments (Between i) = int i + 1"
| "increments (Locked i) = int i"
| "increments (Counted i) = int i + 1"
| "increments Ended = int NO_ROUNDS"

fun in_bounds :: "place \<Rightarrow> bool" where
  "in_bounds (Before i) = (i \<le> NO_ROUNDS)"
| "in_bounds (Between i) = (i < NO_ROUNDS)"
| "in_bounds (Locked i) = (i < NO_ROUNDS)"
| "in_bounds (Counted i) = (i < NO_ROUNDS)"
| "in_bounds Ended = True"

definition total :: "place list \<Rightarrow> int" where
  "total ps = sum_list (map increments ps)"

lemma total_update: "t < length ps \<Longrightarrow> total (ps[t := p]) = total ps + increments p - increments (ps ! t)"
  unfolding total_def
proof (induction ps arbitrary: t)
  case (Cons x xs)
  then show ?case by (cases t) auto
qed simp

definition counting_ok :: "counting \<Rightarrow> bool" where
  "counting_ok s \<longleftrightarrow> length (places s) = NO_THREADS \<and> (\<forall>p\<in>set (places s). in_bounds p)
     \<and> 0 \<le> count s \<and> count s \<le> total (places s) \<and> (total (places s) - count s) mod LIMIT = 0"

lemma counting_ok_move:
  assumes "counting_ok s" "t < length (places s)" "places s' = (places s)[t := p]" "in_bounds p"
    and "count s' = count s + (increments p - increments (places s ! t)) \<or> count s' = 0 \<and> count s = LIMIT \<and> increments p = increments (places s ! t)"
    and "increments (places s ! t) \<le> increments p"
  shows "counting_ok s'"
proof -
  have len: "length (places s') = NO_THREADS" and b: "\<forall>q\<in>set (places s'). in_bounds q"
    using assms(1-4) set_update_subset_insert [of "places s" t p] by (auto simp: counting_ok_def)
  have tot: "total (places s') = total (places s) + (increments p - increments (places s ! t))"
    using total_update [OF assms(2)] assms(3) by simp
  have old: "0 \<le> count s" "count s \<le> total (places s)" "(total (places s) - count s) mod LIMIT = 0"
    using assms(1) by (auto simp: counting_ok_def)
  from assms(5) show ?thesis
  proof
    assume c: "count s' = count s + (increments p - increments (places s ! t))"
    then have "total (places s') - count s' = total (places s) - count s" using tot by simp
    then have "(total (places s') - count s') mod LIMIT = 0" using old(3) by simp
    moreover have "0 \<le> count s'" "count s' \<le> total (places s')" using old c assms(6) tot by simp_all
    ultimately show ?thesis using len b by (simp add: counting_ok_def)
  next
    assume c: "count s' = 0 \<and> count s = LIMIT \<and> increments p = increments (places s ! t)"
    then have "total (places s') - count s' = (total (places s) - count s) + LIMIT" using tot by simp
    then have "(total (places s') - count s') mod LIMIT = 0" using old(3) by (simp add: LIMIT_def)
    moreover have "count s' \<le> total (places s')" using old c tot by simp
    ultimately show ?thesis using len b c by (simp add: counting_ok_def)
  qed
qed

lemma increments_nonneg: "0 \<le> increments p"
  by (cases p) auto

lemma counting_ok_start: "counting_ok counting_start"
  by (auto simp: counting_ok_def counting_start_def total_def map_replicate sum_list_replicate)

lemma in_bounds_nth: "counting_ok s \<Longrightarrow> t < length (places s) \<Longrightarrow> in_bounds (places s ! t)"
  by (simp add: counting_ok_def)

lemma counting_ok_step: "counting_ok s \<Longrightarrow> counting_ok (thread_function t s)"
proof (cases "t < length (places s)")
  case t: True
  assume ok: "counting_ok s"
  note b = in_bounds_nth [OF ok t]
  show ?thesis
  proof (cases "places s ! t")
    case (Before i)
    show ?thesis
    proof (cases "i < NO_ROUNDS")
      case True
      with Before t b show ?thesis
        by (intro counting_ok_move [OF ok t, of _ "Between i"]) (auto simp: thread_function_def goes_def InterlockedIncrement_def)
    next
      case False
      with Before t b show ?thesis
        by (intro counting_ok_move [OF ok t, of _ Ended]) (auto simp: thread_function_def goes_def)
    qed
  next
    case (Between i)
    with t b show ?thesis
      by (intro counting_ok_move [OF ok t, of _ "Before (i + 1)"])
        (auto simp: thread_function_def goes_def InterlockedCompareExchange_def)
  qed (use ok t in \<open>simp_all add: thread_function_def\<close>)
qed (simp add: thread_function_def)

section \<open>The mutex keeps the counter below the limit\<close>

fun holds :: "place \<Rightarrow> bool" where
  "holds (Locked i) = True"
| "holds (Counted i) = True"
| "holds p = False"

fun room :: "int \<Rightarrow> place \<Rightarrow> bool" where
  "room c (Locked i) = (c < LIMIT)"
| "room c p = True"

definition mutex_ok :: "counting \<Rightarrow> bool" where
  "mutex_ok s \<longleftrightarrow> counting_ok s \<and> count s \<le> LIMIT \<and> (hMutex s = None \<longrightarrow> count s < LIMIT)
     \<and> (\<forall>t. hMutex s = Some t \<longrightarrow> t < length (places s))
     \<and> (\<forall>t<length (places s). holds (places s ! t) = (hMutex s = Some t) \<and> room (count s) (places s ! t)
          \<and> (\<forall>i. places s ! t \<noteq> Between i))"

lemma mutex_ok_start: "mutex_ok counting_start"
  unfolding mutex_ok_def using counting_ok_start
  by (auto simp: counting_start_def LIMIT_def simp del: replicate.simps)

lemma mutex_ok_step: "mutex_ok s \<Longrightarrow> mutex_ok (thread_function_mutex t s)"
proof (cases "t < length (places s)")
  case t: True
  assume mok: "mutex_ok s"
  then have ok: "counting_ok s" and all: "\<And>u. u < length (places s) \<Longrightarrow> holds (places s ! u) = (hMutex s = Some u) \<and> room (count s) (places s ! u) \<and> (\<forall>i. places s ! u \<noteq> Between i)"
    and c: "count s \<le> LIMIT" "hMutex s = None \<Longrightarrow> count s < LIMIT" "\<And>u. hMutex s = Some u \<Longrightarrow> u < length (places s)" by (auto simp: mutex_ok_def)
  note b = in_bounds_nth [OF ok t]
  have others: "room c' (places s ! u)" if "u < length (places s)" "u \<noteq> t" "hMutex s = Some t" for u c'
    using all [OF that(1)] that(2,3) by (cases "places s ! u") auto
  show ?thesis
  proof (cases "places s ! t")
    case (Before i)
    show ?thesis
    proof (cases "i < NO_ROUNDS")
      case True
      show ?thesis
      proof (cases "hMutex s")
        case None
        have "counting_ok (goes t (Locked i) (s\<lparr>hMutex := Some t\<rparr>))"
          using Before t True by (intro counting_ok_move [OF ok t, of _ "Locked i"]) (auto simp: goes_def)
        with None True Before t all c show ?thesis
          by (auto simp: thread_function_mutex_def goes_def mutex_ok_def nth_list_update)
      next
        case (Some u)
        with True Before t mok show ?thesis by (simp add: thread_function_mutex_def)
      qed
    next
      case False
      have "counting_ok (goes t Ended s)"
        using Before t False b by (intro counting_ok_move [OF ok t, of _ Ended]) (auto simp: goes_def)
      with False Before t all c all [OF t] show ?thesis
        by (auto simp: thread_function_mutex_def goes_def mutex_ok_def nth_list_update)
    qed
  next
    case (Locked i)
    then have h: "hMutex s = Some t" "count s < LIMIT" using all [OF t] by auto
    have "counting_ok (goes t (Counted i) (s\<lparr>count := count s + 1\<rparr>))"
      using Locked t b by (intro counting_ok_move [OF ok t, of _ "Counted i"]) (auto simp: goes_def)
    with h Locked t all others show ?thesis
      by (auto simp: thread_function_mutex_def goes_def mutex_ok_def nth_list_update)
  next
    case (Counted i)
    then have h: "hMutex s = Some t" using all [OF t] by auto
    have "counting_ok (thread_function_mutex t s)"
      using Counted t b by (intro counting_ok_move [OF ok t, of _ "Before (i + 1)"]) (auto simp: thread_function_mutex_def goes_def Let_def)
    with h Counted t all others c show ?thesis
      by (auto simp: thread_function_mutex_def goes_def mutex_ok_def nth_list_update Let_def LIMIT_def)
  qed (use mok t in \<open>simp_all add: thread_function_mutex_def\<close>)
qed (simp add: thread_function_mutex_def)

section \<open>What the two versions guarantee\<close>

lemma interlocked_run_ok: "counting_ok (run ts counting_start)"
  using counting_ok_start unfolding run_def
  by (induction ts rule: rev_induct) (auto intro: counting_ok_step)

lemma run_mutex_ok: "mutex_ok (run_mutex ts counting_start)"
  using mutex_ok_start unfolding run_mutex_def
  by (induction ts rule: rev_induct) (auto intro: mutex_ok_step)

lemma total_bound: "(\<forall>p\<in>set ps. in_bounds p) \<Longrightarrow> total ps \<le> int (length ps) * int NO_ROUNDS"
  unfolding total_def
proof (induction ps)
  case (Cons p ps)
  have "increments p \<le> int NO_ROUNDS" using Cons.prems by (cases p) auto
  with Cons show ?case by (simp add: algebra_simps)
qed simp

lemma counter_fits: "counting_ok s \<Longrightarrow> count s < 2 ^ 31"
  using total_bound [of "places s"] by (simp add: counting_ok_def NO_THREADS_def NO_ROUNDS_def)

text \<open>An increment past the limit is never undone: the exchange compares for equality.\<close>

lemma above_stays: "LIMIT < count s \<Longrightarrow> LIMIT < count (run us s)"
proof (induction us arbitrary: s)
  case (Cons u us)
  from Cons.prems have "LIMIT < count (thread_function u s)"
    by (auto simp: thread_function_def goes_def InterlockedIncrement_def InterlockedCompareExchange_def split: place.splits)
  from Cons.IH [OF this] show ?case by (simp add: run_def)
qed (simp add: run_def)

lemma rounds_alone:
  "k < 10 \<Longrightarrow> run (replicate (2 * k) 0) counting_start
     = counting_start\<lparr>count := int k, places := (places counting_start)[0 := Before k]\<rparr>"
proof (induction k)
  case 0
  show ?case by (simp add: run_def counting_start_def NO_THREADS_def numeral_eq_Suc)
next
  case (Suc k)
  have "replicate (2 * Suc k) (0::nat) = replicate (2 * k) 0 @ [0, 0]"
    by (simp add: replicate_app_Cons_same)
  with Suc show ?case
    by (simp add: run_def thread_function_def goes_def InterlockedIncrement_def InterlockedCompareExchange_def
      counting_start_def LIMIT_def NO_ROUNDS_def NO_THREADS_def)
qed

lemma gets_above: "LIMIT < count (run (replicate (2 * 9) 0 @ [0, 1]) counting_start)"
proof -
  have "run (replicate (2 * 9) 0 @ [0, 1]) counting_start
      = run [0, 1] (counting_start\<lparr>count := int 9, places := (places counting_start)[0 := Before 9]\<rparr>)"
    using rounds_alone [of 9] by (simp add: run_def)
  then show ?thesis
    by (simp add: run_def thread_function_def goes_def InterlockedIncrement_def
      counting_start_def LIMIT_def NO_ROUNDS_def NO_THREADS_def)
qed

text \<open>The mutex keeps the counter of interlocked.c a number modulo ten.  However the threads are scheduled, whenever
no thread holds the mutex the counter is the number of increments made so far modulo the limit; and when all the
threads have ended it is 3, the remainder of 23 times 1000001.\<close>

theorem mutex_counts_modulo:
  "(let s = run_mutex ts counting_start in
      (case hMutex s of None \<Rightarrow> count s = total (places s) mod LIMIT | Some t \<Rightarrow> count s \<le> LIMIT)
      \<and> (if set (places s) = {Ended} then count s = 3 else True))"
proof -
  define s where "s = run_mutex ts counting_start"
  have ok: "mutex_ok s" unfolding s_def by (rule run_mutex_ok)
  then have c: "counting_ok s" by (simp add: mutex_ok_def)
  have free: "count s = total (places s) mod LIMIT" if "hMutex s = None"
  proof -
    have "0 \<le> count s" "count s < LIMIT" "(total (places s) - count s) mod LIMIT = 0"
      using ok c that by (simp_all add: mutex_ok_def counting_ok_def)
    then have "total (places s) mod LIMIT = count s mod LIMIT" by (metis mod_eq_dvd_iff mod_0_imp_dvd)
    with \<open>0 \<le> count s\<close> \<open>count s < LIMIT\<close> show ?thesis by simp
  qed
  have ended: "count s = 3" if e: "set (places s) = {Ended}"
  proof -
    have len: "length (places s) = NO_THREADS" using c by (simp add: counting_ok_def)
    with e have r: "places s = replicate NO_THREADS Ended" by (metis replicate_eqI singletonD)
    have "hMutex s = None"
    proof (rule ccontr)
      assume "hMutex s \<noteq> None"
      then obtain t where "hMutex s = Some t" by auto
      with ok r show False by (auto simp: mutex_ok_def)
    qed
    from free [OF this] r show ?thesis
      by (simp add: total_def sum_list_replicate NO_THREADS_def NO_ROUNDS_def LIMIT_def)
  qed
  show ?thesis using free ended ok by (fold s_def) (auto simp: Let_def mutex_ok_def split: option.split)
qed

text \<open>The interlocked version is only right modulo the limit: there is a schedule after which the counter stays above the
limit for ever, because two threads incremented it before either compared it.\<close>

lemma interlocked_can_overshoot: "\<exists>ts. \<forall>us. LIMIT < count (run (ts @ us) counting_start)"
proof (intro exI allI)
  fix us
  show "LIMIT < count (run ((replicate (2 * 9) 0 @ [0, 1]) @ us) counting_start)"
    using above_stays [OF gets_above, of us] by (simp add: run_def)
qed

lemma interlocked_counts_modulo:
  "count (run ts counting_start) mod LIMIT = total (places (run ts counting_start)) mod LIMIT"
  using interlocked_run_ok [of ts] by (metis counting_ok_def mod_eq_dvd_iff mod_0_imp_dvd)

end
