(* ===== verification/Waiting.thy ===== *)
theory Waiting
  imports Prelude
begin

text \<open>
  Programs whose parts take turns in an order that is not known: a step function on outcomes, a
  run over a list of events, and what it takes for such a program to be able to come to its end.
\<close>

fun play :: "('e \<Rightarrow> 's \<Rightarrow> 's outcome) \<Rightarrow> 'e list \<Rightarrow> 's \<Rightarrow> 's outcome" where
  "play step [] s = Inr s"
| "play step (e # es) s = obind (step e s) (play step es)"

text \<open>A program that waits: it can always go on until it is over.\<close>

locale waiting =
  fixes step :: "'e \<Rightarrow> 's \<Rightarrow> 's outcome" and inv :: "'s \<Rightarrow> bool" and over :: "'s \<Rightarrow> bool" and rank :: "'s \<Rightarrow> nat"
  assumes keeps: "inv s \<Longrightarrow> step e s = Inr s' \<Longrightarrow> inv s'"
    and exits: "inv s \<Longrightarrow> step e s = Inl f \<Longrightarrow> f = ExitWith 1"
    and moves: "inv s \<Longrightarrow> \<not> over s \<Longrightarrow> \<exists>e. case step e s of Inl f \<Rightarrow> True | Inr s' \<Rightarrow> rank s' < rank s"
begin

lemma play_inv: "inv s \<Longrightarrow> (case play step es s of Inl f \<Rightarrow> f = ExitWith 1 | Inr s' \<Rightarrow> inv s')"
proof (induction es arbitrary: s)
  case (Cons e es)
  then show ?case by (cases "step e s") (auto dest: keeps exits)
qed simp

lemma can_end: "inv s \<Longrightarrow> \<exists>es. case play step es s of Inl f \<Rightarrow> True | Inr s' \<Rightarrow> over s'"
proof (induction "rank s" arbitrary: s rule: less_induct)
  case less
  show ?case
  proof (cases "over s")
    case True
    then show ?thesis by (intro exI [of _ "[]"]) simp
  next
    case False
    from moves [OF less.prems False] obtain e where e: "case step e s of Inl f \<Rightarrow> True | Inr s' \<Rightarrow> rank s' < rank s" by blast
    show ?thesis
    proof (cases "step e s")
      case (Inl f)
      then show ?thesis by (intro exI [of _ "[e]"]) simp
    next
      case (Inr s1)
      with e less.hyps [OF _ keeps [OF less.prems Inr]] obtain es where
        "case play step es s1 of Inl f \<Rightarrow> True | Inr s' \<Rightarrow> over s'" by auto
      with Inr show ?thesis by (intro exI [of _ "e # es"]) simp
    qed
  qed
qed

end

end
