(* ===== verification/AioFiles.thy ===== *)
theory AioFiles
  imports Channels Waiting
begin

text \<open>
  Three programs that write one buffer into four files at once and then wait: with the asynchronous interface
  of Linux and an \<^verbatim>\<open>eventfd\<close> (\<^verbatim>\<open>lab11/sol/lin/4-kaio/kaio.c\<close>), with overlapped writes (\<^verbatim>\<open>lab10/sol/3-aio/aio.c\<close>) and
  with a completion port (\<^verbatim>\<open>lab10/sol/4-iocp/aio.c\<close>, \<^verbatim>\<open>iocp.c\<close>).  An event is the completion of a write, in any order
  and with any result, or a call of the program that waits.
\<close>

definition n_files :: nat where "n_files = 4"

section \<open>What the programs share\<close>

text \<open>\<open>pending\<close>: the writes under way; \<open>contents\<close>: the files.\<close>

record aio =
  contents :: "byte list list"
  pending :: "bool list"

definition open_files :: "(nat \<Rightarrow> bool) \<Rightarrow> byte list list outcome" where
  "open_files opens = (if list_all opens [0..<n_files] then Inr (replicate n_files []) else Inl (ExitWith 1))"

definition init_buffer :: "nat \<Rightarrow> (nat \<Rightarrow> nat) \<Rightarrow> byte list" where
  "init_buffer n rand = map (\<lambda>i. of_nat (rand i)) [0..<n]"

text \<open>The write to file \<open>j\<close> ends with \<open>k\<close> bytes written.\<close>

definition written :: "byte list \<Rightarrow> nat \<Rightarrow> nat \<Rightarrow> 'a aio_scheme \<Rightarrow> 'a aio_scheme" where
  "written buf j k s = s\<lparr>contents := (contents s)[j := take k buf], pending := (pending s)[j := False]\<rparr>"

definition under_way :: "nat \<Rightarrow> 'a aio_scheme \<Rightarrow> bool" where
  "under_way j s \<longleftrightarrow> j < length (pending s) \<and> pending s ! j"

section \<open>kaio.c\<close>

text \<open>The counter of the \<^verbatim>\<open>eventfd\<close>, and \<open>i\<close> of the loop of \<^verbatim>\<open>wait_aio\<close>.\<close>

record kaio = aio +
  efd :: nat
  ops_seen :: nat

text \<open>\<open>setup_rc\<close> is the result of \<^verbatim>\<open>io_setup\<close>; \<^verbatim>\<open>io_submit\<close> returns how many operations it has taken, which may be fewer than were asked for.\<close>

definition kaio_submit :: "int \<Rightarrow> int \<Rightarrow> byte list list \<Rightarrow> kaio outcome" where
  "kaio_submit setup_rc n_aio_ops fs =
     (if setup_rc < 0 \<or> n_aio_ops < 0 then Inl (ExitWith 1)
      else Inr \<lparr>contents = fs, pending = map (\<lambda>j. int j < n_aio_ops) [0..<n_files], efd = 0, ops_seen = 0\<rparr>)"

datatype kaio_event = Completes nat nat | Reads_efd

text \<open>A read of the \<^verbatim>\<open>eventfd\<close> waits while its counter is zero, and sets it to zero.\<close>

fun kaio_step :: "byte list \<Rightarrow> kaio_event \<Rightarrow> kaio \<Rightarrow> kaio outcome" where
  "kaio_step buf (Completes j k) s =
     Inr (if under_way j s then (written buf j k s)\<lparr>efd := efd s + 1\<rparr> else s)"
| "kaio_step buf Reads_efd s =
     Inr (if ops_seen s < n_files \<and> efd s \<noteq> 0 then s\<lparr>ops_seen := ops_seen s + efd s, efd := 0\<rparr> else s)"

definition kaio_over :: "kaio \<Rightarrow> bool" where
  "kaio_over s \<longleftrightarrow> n_files \<le> ops_seen s"

section \<open>lab10: overlapped writes\<close>

text \<open>The result of each write that has ended, \<^const>\<open>None\<close> inside for a failure; the \<open>i\<close> of the waiting loop.\<close>

record overlapped = aio +
  results :: "nat option option list"
  index :: nat

definition overlapped_submit :: "byte list list \<Rightarrow> overlapped" where
  "overlapped_submit fs =
     \<lparr>contents = fs, pending = replicate n_files True, results = replicate n_files None, index = 0\<rparr>"

datatype win_event = Ends nat "nat option" | Waits

definition settle :: "byte list \<Rightarrow> nat \<Rightarrow> nat option \<Rightarrow> 'a aio_scheme \<Rightarrow> 'a aio_scheme" where
  "settle buf j r s = (case r of None \<Rightarrow> s\<lparr>pending := (pending s)[j := False]\<rparr> | Some k \<Rightarrow> written buf j k s)"

text \<open>\<^verbatim>\<open>GetOverlappedResult\<close> waits for the write of its file; a failure ends the program.\<close>

fun overlapped_step :: "byte list \<Rightarrow> win_event \<Rightarrow> overlapped \<Rightarrow> overlapped outcome" where
  "overlapped_step buf (Ends j r) s =
     Inr (if under_way j s then (settle buf j r s)\<lparr>results := (results s)[j := Some r]\<rparr> else s)"
| "overlapped_step buf Waits s =
     (if index s < n_files then
        (case results s ! index s of
           None \<Rightarrow> Inr s
         | Some None \<Rightarrow> Inl (ExitWith 1)
         | Some (Some bytes_written) \<Rightarrow> Inr (s\<lparr>index := index s + 1\<rparr>))
      else Inr s)"

section \<open>lab10: a completion port\<close>

text \<open>What the port holds, in the order in which the writes have ended.\<close>

record port = aio +
  queue :: "(nat \<times> nat option) list"
  waits :: nat

definition port_submit :: "byte list list \<Rightarrow> port" where
  "port_submit fs = \<lparr>contents = fs, pending = replicate n_files True, queue = [], waits = 0\<rparr>"

definition iocp_wait :: "port \<Rightarrow> ((nat \<times> nat option) \<times> port) option" where
  "iocp_wait s = (case queue s of [] \<Rightarrow> None | c # cs \<Rightarrow> Some (c, s\<lparr>queue := cs\<rparr>))"

fun port_step :: "byte list \<Rightarrow> win_event \<Rightarrow> port \<Rightarrow> port outcome" where
  "port_step buf (Ends j r) s =
     Inr (if under_way j s then (settle buf j r s)\<lparr>queue := queue s @ [(j, r)]\<rparr> else s)"
| "port_step buf Waits s =
     (if waits s < n_files then
        (case iocp_wait s of
           None \<Rightarrow> Inr s
         | Some ((j, None), s) \<Rightarrow> Inl (ExitWith 1)
         | Some ((j, Some bytes), s) \<Rightarrow> Inr (s\<lparr>waits := waits s + 1\<rparr>))
      else Inr s)"

section \<open>When the wait is over, so are the writes\<close>

definition in_flight :: "'a aio_scheme \<Rightarrow> nat" where
  "in_flight s = length (filter (\<lambda>x. x) (pending s))"

lemma filter_update_False: "j < length xs \<Longrightarrow> xs ! j \<Longrightarrow> Suc (length (filter (\<lambda>x. x) (xs[j := False]))) = length (filter (\<lambda>x. x) xs)"
proof (induction xs arbitrary: j)
  case (Cons x xs)
  then show ?case by (cases j) auto
qed simp

lemma in_flight_update: "under_way j s \<Longrightarrow> pending s' = (pending s)[j := False] \<Longrightarrow> Suc (in_flight s') = in_flight s"
  by (simp add: in_flight_def under_way_def filter_update_False)

lemma in_flight_zero: "in_flight s = 0 \<Longrightarrow> j < length (pending s) \<Longrightarrow> \<not> pending s ! j"
  by (metis filter_empty_conv in_flight_def length_0_conv nth_mem)

lemma in_flight_some:
  assumes "0 < in_flight s"
  shows "\<exists>j. under_way j s"
proof -
  from assms have "\<not> (\<forall>x\<in>set (pending s). \<not> x)" unfolding in_flight_def filter_empty_conv [symmetric] by simp
  then show ?thesis by (auto simp: in_set_conv_nth under_way_def)
qed

text \<open>Every file holds a beginning of the buffer.\<close>

definition beginnings :: "byte list \<Rightarrow> byte list list \<Rightarrow> bool" where
  "beginnings buf fs \<longleftrightarrow> length fs = n_files \<and> (\<forall>f\<in>set fs. \<exists>k. f = take k buf)"

lemma beginnings_update: "beginnings buf fs \<Longrightarrow> beginnings buf (fs[j := take k buf])"
  using set_update_subset_insert [of fs j "take k buf"] unfolding beginnings_def by auto

lemma beginnings_settle: "beginnings buf (contents s) \<Longrightarrow> beginnings buf (contents (settle buf j r s))"
  by (auto simp: settle_def written_def beginnings_update split: option.split)

text \<open>Every write has ended, and what is in a file is a beginning of the buffer.\<close>

definition all_written :: "byte list \<Rightarrow> 'a aio_scheme \<Rightarrow> bool" where
  "all_written buf s \<longleftrightarrow> beginnings buf (contents s) \<and> length (pending s) = n_files \<and> (\<forall>j<n_files. \<not> pending s ! j)"

definition kaio_inv :: "byte list \<Rightarrow> nat \<Rightarrow> kaio \<Rightarrow> bool" where
  "kaio_inv buf n s \<longleftrightarrow> length (pending s) = n_files \<and> beginnings buf (contents s)
     \<and> ops_seen s + efd s + in_flight s = n"

lemma kaio_inv_step: "kaio_inv buf n s \<Longrightarrow> kaio_step buf e s = Inr s' \<Longrightarrow> kaio_inv buf n s'"
proof (cases e)
  case (Completes j k)
  assume inv: "kaio_inv buf n s" and st: "kaio_step buf e s = Inr s'"
  show ?thesis
  proof (cases "under_way j s")
    case True
    with st Completes have s': "s' = (written buf j k s)\<lparr>efd := efd s + 1\<rparr>" by simp
    then have "Suc (in_flight s') = in_flight s" by (intro in_flight_update [OF True]) (simp add: written_def)
    with inv s' show ?thesis by (simp add: kaio_inv_def written_def beginnings_update)
  qed (use inv st Completes in simp)
qed (auto simp: kaio_inv_def in_flight_def split: if_splits)

interpretation ka: waiting "kaio_step buf" "kaio_inv buf n_files" kaio_over "\<lambda>s. 2 * in_flight s + efd s"
proof
  fix s assume inv: "kaio_inv buf n_files s" and no: "\<not> kaio_over s"
  show "\<exists>e. case kaio_step buf e s of Inl f \<Rightarrow> True | Inr s' \<Rightarrow> 2 * in_flight s' + efd s' < 2 * in_flight s + efd s"
  proof (cases "efd s")
    case 0
    with inv no have "0 < in_flight s" by (simp add: kaio_inv_def kaio_over_def)
    then obtain j where j: "under_way j s" using in_flight_some by blast
    then have "Suc (in_flight ((written buf j 0 s)\<lparr>efd := efd s + 1\<rparr>)) = in_flight s"
      by (intro in_flight_update [OF j]) (simp add: written_def)
    with j show ?thesis by (intro exI [of _ "Completes j 0"]) (auto simp: written_def)
  next
    case (Suc m)
    with no show ?thesis by (intro exI [of _ Reads_efd]) (simp add: kaio_over_def in_flight_def)
  qed
next
  fix s e f show "kaio_inv buf n_files s \<Longrightarrow> kaio_step buf e s = Inl f \<Longrightarrow> f = ExitWith 1" by (cases e) auto
qed (rule kaio_inv_step)

lemma kaio_over_written: "kaio_inv buf n s \<Longrightarrow> n \<le> n_files \<Longrightarrow> kaio_over s \<Longrightarrow> n = n_files \<and> all_written buf s"
  by (auto simp: kaio_inv_def kaio_over_def all_written_def in_flight_zero)

definition overlapped_inv :: "byte list \<Rightarrow> overlapped \<Rightarrow> bool" where
  "overlapped_inv buf s \<longleftrightarrow> length (pending s) = n_files \<and> beginnings buf (contents s) \<and> length (results s) = n_files
     \<and> index s \<le> n_files \<and> (\<forall>j<n_files. pending s ! j = (results s ! j = None))
     \<and> (\<forall>j<index s. results s ! j \<noteq> None)"

lemma overlapped_inv_step: "overlapped_inv buf s \<Longrightarrow> overlapped_step buf e s = Inr s' \<Longrightarrow> overlapped_inv buf s'"
  by (cases e) (auto simp: overlapped_inv_def settle_def written_def under_way_def nth_list_update less_Suc_eq beginnings_update
      split: if_splits option.splits)

interpretation ov: waiting "overlapped_step buf" "overlapped_inv buf" "\<lambda>s. n_files \<le> index s" "\<lambda>s. in_flight s + (n_files - index s)"
proof
  fix s assume inv: "overlapped_inv buf s" and no: "\<not> n_files \<le> index s"
  show "\<exists>e. case overlapped_step buf e s of Inl f \<Rightarrow> True
    | Inr s' \<Rightarrow> in_flight s' + (n_files - index s') < in_flight s + (n_files - index s)"
  proof (cases "results s ! index s")
    case None
    with inv no have j: "under_way (index s) s" by (simp add: overlapped_inv_def under_way_def)
    then have "Suc (in_flight ((settle buf (index s) None s)\<lparr>results := (results s)[index s := Some None]\<rparr>)) = in_flight s"
      by (intro in_flight_update [OF j]) (simp add: settle_def)
    with j show ?thesis by (intro exI [of _ "Ends (index s) None"]) (auto simp: settle_def)
  next
    case (Some r)
    with no show ?thesis by (intro exI [of _ Waits]) (auto simp: in_flight_def split: option.splits)
  qed
next
  fix s e f show "overlapped_inv buf s \<Longrightarrow> overlapped_step buf e s = Inl f \<Longrightarrow> f = ExitWith 1"
    by (cases e) (auto split: if_splits option.splits)
qed (rule overlapped_inv_step)

definition port_inv :: "byte list \<Rightarrow> port \<Rightarrow> bool" where
  "port_inv buf s \<longleftrightarrow> length (pending s) = n_files \<and> beginnings buf (contents s)
     \<and> waits s + length (queue s) + in_flight s = n_files"

lemma port_inv_step: "port_inv buf s \<Longrightarrow> port_step buf e s = Inr s' \<Longrightarrow> port_inv buf s'"
proof (cases e)
  case (Ends j r)
  assume inv: "port_inv buf s" and st: "port_step buf e s = Inr s'"
  show ?thesis
  proof (cases "under_way j s")
    case True
    with st Ends have s': "s' = (settle buf j r s)\<lparr>queue := queue s @ [(j, r)]\<rparr>" by simp
    then have "Suc (in_flight s') = in_flight s"
      by (intro in_flight_update [OF True]) (auto simp: settle_def written_def split: option.split)
    with inv s' show ?thesis
      by (auto simp: port_inv_def settle_def written_def beginnings_update split: option.split)
  qed (use inv st Ends in simp)
qed (auto simp: port_inv_def iocp_wait_def in_flight_def split: if_splits option.splits list.splits)

interpretation pt: waiting "port_step buf" "port_inv buf" "\<lambda>s. n_files \<le> waits s" "\<lambda>s. 2 * in_flight s + length (queue s)"
proof
  fix s assume inv: "port_inv buf s" and no: "\<not> n_files \<le> waits s"
  show "\<exists>e. case port_step buf e s of Inl f \<Rightarrow> True
    | Inr s' \<Rightarrow> 2 * in_flight s' + length (queue s') < 2 * in_flight s + length (queue s)"
  proof (cases "queue s")
    case Nil
    with inv no have "0 < in_flight s" by (simp add: port_inv_def)
    then obtain j where j: "under_way j s" using in_flight_some by blast
    then have "Suc (in_flight ((settle buf j None s)\<lparr>queue := queue s @ [(j, None)]\<rparr>)) = in_flight s"
      by (intro in_flight_update [OF j]) (simp add: settle_def)
    with j show ?thesis by (intro exI [of _ "Ends j None"]) (auto simp: settle_def)
  next
    case (Cons c cs)
    with no show ?thesis
      by (intro exI [of _ Waits]) (cases c, auto simp: iocp_wait_def in_flight_def split: option.splits)
  qed
next
  fix s e f show "port_inv buf s \<Longrightarrow> port_step buf e s = Inl f \<Longrightarrow> f = ExitWith 1"
    by (cases e) (auto simp: iocp_wait_def split: if_splits option.splits list.splits)
qed (rule port_inv_step)

section \<open>What the wait is worth\<close>

lemma overlapped_over_written: "overlapped_inv buf s \<Longrightarrow> n_files \<le> index s \<Longrightarrow> all_written buf s"
  by (auto simp: overlapped_inv_def all_written_def)

lemma port_over_written: "port_inv buf s \<Longrightarrow> n_files \<le> waits s \<Longrightarrow> all_written buf s"
  by (auto simp: port_inv_def all_written_def in_flight_zero)

lemma beginnings_start: "beginnings buf (replicate n_files [])"
  by (auto simp: beginnings_def n_files_def intro: exI [of _ 0])

lemma kaio_submit_inv:
  assumes "kaio_submit rc m (replicate n_files []) = Inr s"
  shows "\<exists>n\<le>n_files. kaio_inv buf n s \<and> (n = n_files \<longleftrightarrow> int n_files \<le> m)"
proof -
  have s: "s = \<lparr>contents = replicate n_files [], pending = map (\<lambda>j. int j < m) [0..<n_files], efd = 0, ops_seen = 0\<rparr>"
    using assms by (auto simp: kaio_submit_def split: if_splits)
  have "in_flight s = length (filter (\<lambda>j. int j < m) [0..<n_files])"
    by (simp add: s in_flight_def filter_map comp_def)
  then have "in_flight s \<le> n_files \<and> (in_flight s = n_files \<longleftrightarrow> int n_files \<le> m)"
    by (auto simp: n_files_def upt_rec split: if_splits)
  moreover have "kaio_inv buf (in_flight s) s"
    unfolding kaio_inv_def using beginnings_start [of buf] by (simp add: s)
  ultimately show ?thesis by blast
qed

lemma overlapped_submit_inv: "overlapped_inv buf (overlapped_submit (replicate n_files []))"
  using beginnings_start [of buf] by (simp add: overlapped_inv_def overlapped_submit_def)

lemma port_submit_inv: "port_inv buf (port_submit (replicate n_files []))"
  using beginnings_start [of buf] by (simp add: port_inv_def port_submit_def in_flight_def)

text \<open>In all three programs, whatever the order of the completions, no write is under way any more when the wait is over,
and from every moment the wait can still come to its end, or the program exits because a write has failed.\<close>

theorem waits_cover_writes:
  assumes "kaio_submit rc (int n_files) (replicate n_files []) = Inr s0"
  shows "(case play (kaio_step buf) ks s0 of Inl f \<Rightarrow> f = ExitWith 1
      | Inr s \<Rightarrow> (kaio_over s \<longrightarrow> all_written buf s) \<and> (\<exists>es. case play (kaio_step buf) es s of Inl f \<Rightarrow> True | Inr s' \<Rightarrow> kaio_over s'))"
    and "(case play (overlapped_step buf) os (overlapped_submit (replicate n_files [])) of Inl f \<Rightarrow> f = ExitWith 1
      | Inr s \<Rightarrow> (n_files \<le> index s \<longrightarrow> all_written buf s)
          \<and> (\<exists>es. case play (overlapped_step buf) es s of Inl f \<Rightarrow> True | Inr s' \<Rightarrow> n_files \<le> index s'))"
    and "(case play (port_step buf) ps (port_submit (replicate n_files [])) of Inl f \<Rightarrow> f = ExitWith 1
      | Inr s \<Rightarrow> (n_files \<le> waits s \<longrightarrow> all_written buf s)
          \<and> (\<exists>es. case play (port_step buf) es s of Inl f \<Rightarrow> True | Inr s' \<Rightarrow> n_files \<le> waits s'))"
proof -
  have "kaio_inv buf n_files s0" using kaio_submit_inv [OF assms, of buf] by auto
  from ka.play_inv [OF this, of ks] show "(case play (kaio_step buf) ks s0 of Inl f \<Rightarrow> f = ExitWith 1
      | Inr s \<Rightarrow> (kaio_over s \<longrightarrow> all_written buf s) \<and> (\<exists>es. case play (kaio_step buf) es s of Inl f \<Rightarrow> True | Inr s' \<Rightarrow> kaio_over s'))"
    using ka.can_end kaio_over_written by (fastforce split: sum.splits)
  from ov.play_inv [OF overlapped_submit_inv, of buf os] show "(case play (overlapped_step buf) os (overlapped_submit (replicate n_files [])) of Inl f \<Rightarrow> f = ExitWith 1
      | Inr s \<Rightarrow> (n_files \<le> index s \<longrightarrow> all_written buf s)
          \<and> (\<exists>es. case play (overlapped_step buf) es s of Inl f \<Rightarrow> True | Inr s' \<Rightarrow> n_files \<le> index s'))"
    using ov.can_end overlapped_over_written by (fastforce split: sum.splits)
  from pt.play_inv [OF port_submit_inv, of buf ps] show "(case play (port_step buf) ps (port_submit (replicate n_files [])) of Inl f \<Rightarrow> f = ExitWith 1
      | Inr s \<Rightarrow> (n_files \<le> waits s \<longrightarrow> all_written buf s)
          \<and> (\<exists>es. case play (port_step buf) es s of Inl f \<Rightarrow> True | Inr s' \<Rightarrow> n_files \<le> waits s'))"
    using pt.can_end port_over_written by (fastforce split: sum.splits)
qed

text \<open>kaio.c waits for four operations even when the kernel has taken fewer: then it never ends.\<close>

lemma short_submit_hangs:
  assumes "0 \<le> rc" "0 \<le> m" "m < int n_files"
  shows "\<exists>s. kaio_submit rc m (replicate n_files []) = Inr s \<and> (\<forall>es. \<exists>s'. play (kaio_step buf) es s = Inr s' \<and> \<not> kaio_over s')"
proof -
  obtain s where s: "kaio_submit rc m (replicate n_files []) = Inr s" using assms(1,2) by (simp add: kaio_submit_def)
  obtain n where n: "n < n_files" "kaio_inv buf n s" using kaio_submit_inv [OF s, of buf] assms(3)
    by (metis le_neq_implies_less not_less)
  have "\<exists>s'. play (kaio_step buf) es s = Inr s' \<and> kaio_inv buf n s'" for es
    using n(2)
  proof (induction es arbitrary: s)
    case (Cons e es)
    obtain s1 where "kaio_step buf e s = Inr s1" by (cases e) auto
    with Cons kaio_inv_step show ?case by (metis obind_simps(2) play.simps(2))
  qed simp
  with s n(1) show ?thesis by (metis kaio_over_written less_imp_le nat_neq_iff)
qed

text \<open>It never looks at the result of an operation: a write that ended with nothing written counts as the others.\<close>

lemma failed_write_unnoticed:
  "\<exists>s s'. kaio_submit 0 4 (replicate n_files []) = Inr s
     \<and> play (kaio_step buf) [Completes 0 0, Completes 1 0, Completes 2 0, Completes 3 0, Reads_efd] s = Inr s'
     \<and> kaio_over s' \<and> contents s' = replicate n_files []"
  by (simp add: kaio_submit_def n_files_def upt_rec under_way_def written_def kaio_over_def numeral_eq_Suc)

end
