(* ===== verification/Blocked.thy ===== *)
theory Blocked
  imports Prelude
begin

text \<open>
  Two threads that search for a number and look whether the other has found one,
  \<^verbatim>\<open>lab08/sol/lin/5-blocked/blocked.c\<close>: each takes its own mutex to publish a result and the mutex of the
  other to look at its.  Thread 0 is \<^verbatim>\<open>thread_routine_x\<close>, thread 1 \<^verbatim>\<open>thread_routine_y\<close>; they differ in the data they
  use, and in a delay.
\<close>

section \<open>The numbers\<close>

text \<open>The loop of \<^verbatim>\<open>factorial\<close> multiplies by 0 first, so that no product leaves the range of an \<^verbatim>\<open>int\<close>.\<close>

definition factorial :: "nat \<Rightarrow> int" where
  "factorial n = fold (\<lambda>i p. p * int i) [0..<n] 1"

definition is_super_number :: "nat \<Rightarrow> bool" where
  "is_super_number n \<longleftrightarrow> factorial n mod 123123 = 12345"

section \<open>The threads\<close>

record thd_data =
  mutex :: "nat option"
  found :: bool
  val :: int
  start :: nat
  stop :: nat

definition data_x :: thd_data where
  "data_x = \<lparr>mutex = None, found = False, val = -1, start = 10000, stop = 20000\<rparr>"

definition data_y :: thd_data where
  "data_y = \<lparr>mutex = None, found = False, val = -1, start = 20000, stop = 30000\<rparr>"

text \<open>
  At the test of the loop, with \<open>i\<close> and \<^verbatim>\<open>finished\<close>; about to take a mutex; inside the critical section of its
  own data or of the other's; at the end.
\<close>

datatype place = Top nat bool | Wants_own nat | Publishing nat | Wants_other nat | Looking nat | Ended

record threads =
  data :: "thd_data list"
  places :: "place list"

definition threads_start :: threads where
  "threads_start = \<lparr>data = [data_x, data_y], places = [Top (start data_x) False, Top (start data_y) False]\<rparr>"

definition goes :: "nat \<Rightarrow> place \<Rightarrow> threads \<Rightarrow> threads" where
  "goes t p s = s\<lparr>places := (places s)[t := p]\<rparr>"

definition pthread_mutex_lock :: "nat \<Rightarrow> nat \<Rightarrow> threads \<Rightarrow> threads option" where
  "pthread_mutex_lock t d s =
     (if mutex (data s ! d) = None then Some (s\<lparr>data := (data s)[d := (data s ! d)\<lparr>mutex := Some t\<rparr>]\<rparr>) else None)"

definition pthread_mutex_unlock :: "nat \<Rightarrow> threads \<Rightarrow> threads" where
  "pthread_mutex_unlock d s = s\<lparr>data := (data s)[d := (data s ! d)\<lparr>mutex := None\<rparr>]\<rparr>"

text \<open>One step of thread \<open>t\<close>; \<^const>\<open>None\<close> when it waits for a mutex or has ended.\<close>

definition thread_step :: "nat \<Rightarrow> threads \<Rightarrow> threads option" where
  "thread_step t s =
     (if 2 \<le> t then None
      else case places s ! t of
        Top i finished \<Rightarrow>
          if i < stop (data s ! t) \<and> \<not> finished
          then Some (goes t (if is_super_number i then Wants_own i else Wants_other i) s)
          else Some (goes t Ended s)
      | Wants_own i \<Rightarrow> map_option (goes t (Publishing i)) (pthread_mutex_lock t t s)
      | Publishing i \<Rightarrow>
          let s = s\<lparr>data := (data s)[t := (data s ! t)\<lparr>found := True, val := int i\<rparr>]\<rparr>
          in Some (goes t (Top (i + 1) True) (pthread_mutex_unlock t s))
      | Wants_other i \<Rightarrow> map_option (goes t (Looking i)) (pthread_mutex_lock t (1 - t) s)
      | Looking i \<Rightarrow> Some (goes t (Top (i + 1) (found (data s ! (1 - t)))) (pthread_mutex_unlock (1 - t) s))
      | Ended \<Rightarrow> None)"

fun run :: "nat list \<Rightarrow> threads \<Rightarrow> threads" where
  "run [] s = s"
| "run (t # ts) s = (case thread_step t s of None \<Rightarrow> run ts s | Some s' \<Rightarrow> run ts s')"

text \<open>What \<^verbatim>\<open>main\<close> reports after both threads have ended: the thread and its number.\<close>

definition report :: "threads \<Rightarrow> (nat \<times> int) option" where
  "report s = (if found (data s ! 0) then Some (0, val (data s ! 0))
     else if found (data s ! 1) then Some (1, val (data s ! 1)) else None)"

section \<open>Nothing is found, nobody is blocked\<close>

lemma factorial_zero: "0 < n \<Longrightarrow> factorial n = 0"
proof -
  have zero: "fold (\<lambda>i p. p * int i) xs 0 = 0" for xs :: "nat list" by (induction xs) auto
  assume "0 < n"
  then have "[0..<n] = 0 # [1..<n]" by (simp add: upt_conv_Cons)
  then show ?thesis by (simp add: factorial_def zero)
qed

lemma no_super_number: "0 < n \<Longrightarrow> \<not> is_super_number n"
  by (simp add: is_super_number_def factorial_zero)

fun looks :: "place \<Rightarrow> bool" where
  "looks (Looking i) = True"
| "looks p = False"

fun on_the_way :: "nat \<Rightarrow> nat \<Rightarrow> place \<Rightarrow> bool" where
  "on_the_way a b (Top i f) = (a \<le> i \<and> i \<le> b \<and> \<not> f)"
| "on_the_way a b (Wants_other i) = (a \<le> i \<and> i < b)"
| "on_the_way a b (Looking i) = (a \<le> i \<and> i < b)"
| "on_the_way a b Ended = True"
| "on_the_way a b p = False"

definition thread_ok :: "threads \<Rightarrow> nat \<Rightarrow> bool" where
  "thread_ok s t \<longleftrightarrow> (case data s ! t of d \<Rightarrow> \<not> found d \<and> start d = 10000 + 10000 * t \<and> stop d = 20000 + 10000 * t
     \<and> on_the_way (start d) (stop d) (places s ! t) \<and> (mutex d = (if looks (places s ! (1 - t)) then Some (1 - t) else None)))"

definition threads_ok :: "threads \<Rightarrow> bool" where
  "threads_ok s \<longleftrightarrow> length (data s) = 2 \<and> length (places s) = 2 \<and> thread_ok s 0 \<and> thread_ok s 1"

lemma threads_ok_start: "threads_ok threads_start"
  by (simp add: threads_ok_def threads_start_def thread_ok_def data_x_def data_y_def)

text \<open>The four kinds of steps that a thread can make; the two others would publish a number.\<close>

lemma thread_step_cases:
  assumes ok: "threads_ok s" and st: "thread_step t s = Some s'"
  obtains (search) i where "t < 2" "places s ! t = Top i False" "i < stop (data s ! t)" "s' = goes t (Wants_other i) s"
  | (ends) i where "t < 2" "places s ! t = Top i False" "s' = goes t Ended s"
  | (lock) i where "t < 2" "places s ! t = Wants_other i" "mutex (data s ! (1 - t)) = None"
      "s' = goes t (Looking i) (s\<lparr>data := (data s)[1 - t := (data s ! (1 - t))\<lparr>mutex := Some t\<rparr>]\<rparr>)"
  | (look) i where "t < 2" "places s ! t = Looking i"
      "s' = goes t (Top (i + 1) False) (s\<lparr>data := (data s)[1 - t := (data s ! (1 - t))\<lparr>mutex := None\<rparr>]\<rparr>)"
proof -
  have t: "t < 2" using st by (simp add: thread_step_def split: if_splits)
  then have th: "thread_ok s t" "thread_ok s (1 - t)" using ok by (auto simp: threads_ok_def less_2_cases_iff)
  show thesis
  proof (cases "places s ! t")
    case (Top i f)
    with th have "\<not> f" "\<not> is_super_number i" using no_super_number [of i] by (auto simp: thread_ok_def)
    with Top t st search ends show thesis by (auto simp: thread_step_def split: if_splits)
  next
    case (Wants_other i)
    with t st lock show thesis by (auto simp: thread_step_def pthread_mutex_lock_def split: if_splits)
  next
    case (Looking i)
    with t st look th show thesis by (auto simp: thread_step_def pthread_mutex_unlock_def thread_ok_def)
  qed (use th st t in \<open>auto simp: thread_ok_def thread_step_def\<close>)
qed

lemma thread_okD:
  "thread_ok s t \<Longrightarrow> on_the_way (10000 + 10000 * t) (20000 + 10000 * t) (places s ! t)
     \<and> stop (data s ! t) = 20000 + 10000 * t"
  by (auto simp: thread_ok_def)

lemma threads_ok_step: "threads_ok s \<Longrightarrow> thread_step t s = Some s' \<Longrightarrow> threads_ok s'"
proof -
  assume ok: "threads_ok s" and st: "thread_step t s = Some s'"
  obtain u where u: "u = 1 - t" by blast
  have both: "threads_ok r \<longleftrightarrow> length (data r) = 2 \<and> length (places r) = 2 \<and> thread_ok r t \<and> thread_ok r u" if "t < 2" for r
    using that u by (auto simp: threads_ok_def less_2_cases_iff)
  from ok st show ?thesis
  proof (cases rule: thread_step_cases)
    case (search i)
    then show ?thesis using ok both u by (auto simp: goes_def thread_ok_def nth_list_update less_2_cases_iff)
  next
    case (ends i)
    then show ?thesis using ok both u by (auto simp: goes_def thread_ok_def nth_list_update less_2_cases_iff)
  next
    case (lock i)
    then show ?thesis using ok both u by (auto simp: goes_def thread_ok_def nth_list_update less_2_cases_iff)
  next
    case (look i)
    then show ?thesis using ok both u by (auto simp: goes_def thread_ok_def nth_list_update less_2_cases_iff)
  qed
qed

lemma threads_ok_run: "threads_ok s \<Longrightarrow> threads_ok (run ts s)"
  by (induction ts arbitrary: s) (auto split: option.splits dest: threads_ok_step)

text \<open>What is left to do.\<close>

fun remaining :: "nat \<Rightarrow> place \<Rightarrow> nat" where
  "remaining b (Top i f) = 3 * (b - i) + 1"
| "remaining b (Wants_other i) = 3 * (b - i)"
| "remaining b (Looking i) = 3 * (b - i) - 1"
| "remaining b p = 0"

definition steps_left :: "threads \<Rightarrow> nat" where
  "steps_left s = remaining 20000 (places s ! 0) + remaining 30000 (places s ! 1)"

lemma step_left: "threads_ok s \<Longrightarrow> thread_step t s = Some s' \<Longrightarrow> steps_left s' < steps_left s"
proof -
  assume ok: "threads_ok s" and st: "thread_step t s = Some s'"
  have len: "length (places s) = 2" using ok by (simp add: threads_ok_def)
  have way: "on_the_way (10000 + 10000 * t) (20000 + 10000 * t) (places s ! t)" "stop (data s ! t) = 20000 + 10000 * t" if "t < 2"
    using that ok thread_okD [of s t] by (auto simp: threads_ok_def less_2_cases_iff)
  from ok st show ?thesis
    by (cases rule: thread_step_cases) (use way len in \<open>auto simp: steps_left_def goes_def nth_list_update less_2_cases_iff\<close>)
qed

text \<open>A mutex is only held by a thread that can go on, as nobody takes a second one.\<close>

lemma somebody_moves:
  assumes ok: "threads_ok s" and no: "places s \<noteq> [Ended, Ended]"
  shows "\<exists>t s'. thread_step t s = Some s'"
proof (rule ccontr)
  assume none: "\<nexists>t s'. thread_step t s = Some s'"
  then have "thread_step 0 s = None" "thread_step 1 s = None" by simp_all
  moreover from ok obtain d0 d1 p0 p1 where s: "data s = [d0, d1]" "places s = [p0, p1]"
    by (auto simp: threads_ok_def length_Suc_conv eval_nat_numeral)
  ultimately show False using ok no
    by (cases p0; cases p1) (auto simp: threads_ok_def thread_ok_def thread_step_def pthread_mutex_lock_def Let_def split: if_splits)
qed

lemma threads_can_end: "threads_ok s \<Longrightarrow> \<exists>us. places (run us s) = [Ended, Ended]"
proof (induction "steps_left s" arbitrary: s rule: less_induct)
  case less
  show ?case
  proof (cases "places s = [Ended, Ended]")
    case True
    then show ?thesis by (intro exI [of _ "[]"]) simp
  next
    case False
    from somebody_moves [OF less.prems False] obtain t s' where s': "thread_step t s = Some s'" by blast
    from less.hyps [OF step_left [OF less.prems s'] threads_ok_step [OF less.prems s']] obtain us where
      "places (run us s') = [Ended, Ended]" by blast
    with s' show ?thesis by (intro exI [of _ "t # us"]) simp
  qed
qed

text \<open>In every interleaving the threads are never blocked for good, and \<^verbatim>\<open>main\<close> reports that nothing was found.\<close>

theorem blocked_ends_without_result:
  "report (run ts threads_start) = None \<and> (\<exists>us. places (run (ts @ us) threads_start) = [Ended, Ended])"
proof -
  have ok: "threads_ok (run ts threads_start)" by (rule threads_ok_run [OF threads_ok_start])
  have "run (ts @ us) s = run us (run ts s)" for us s by (induction ts arbitrary: s) (auto split: option.split)
  with threads_can_end [OF ok] ok show ?thesis by (simp add: threads_ok_def thread_ok_def report_def)
qed

end
