(* ===== verification/PipeWords.thy ===== *)
theory PipeWords
  imports Waiting
begin

text \<open>
  \<^verbatim>\<open>lab03/sol/lin/6-pipe/pipe.c\<close>: the parent reads words and sends each through a pipe in an array of
  \<^verbatim>\<open>BUFSIZE\<close> characters; the child prints what it receives.  Parent and child take turns in any order.
\<close>

definition BUFSIZE :: nat where "BUFSIZE = 100"

definition EXIT_STR :: string where "EXIT_STR = ''exit''"

abbreviation NUL :: char where "NUL \<equiv> char_of (0 :: nat)"

text \<open>The words of the standard input, the pipe with its capacity, which ends are done, \<^verbatim>\<open>output\<close> of the child.\<close>

record piping =
  words :: "string list"
  capacity :: nat
  pipe :: string
  parent_done :: bool
  child_done :: bool
  output_buf :: string
  printed :: "string list"

definition piping_start :: "string list \<Rightarrow> nat \<Rightarrow> string \<Rightarrow> piping" where
  "piping_start ws cap junk = \<lparr>words = ws, capacity = cap, pipe = [], parent_done = False, child_done = False,
     output_buf = take BUFSIZE (junk @ replicate BUFSIZE NUL), printed = []\<rparr>"

definition check_for_exit :: "string \<Rightarrow> bool" where
  "check_for_exit input \<longleftrightarrow> input = EXIT_STR"

text \<open>\<^verbatim>\<open>scanf\<close> has no bound on the length of a word, and at the end of the input leaves the array cleared.\<close>

definition scan_word :: "string list \<Rightarrow> (string \<times> string list) outcome" where
  "scan_word ws = (case ws of
     [] \<Rightarrow> Inr ([], [])
   | w # rest \<Rightarrow> if length w < BUFSIZE then Inr (w, rest) else Inl Undefined)"

definition padded :: "string \<Rightarrow> string" where
  "padded w = w @ replicate (BUFSIZE - length w) NUL"

text \<open>One round of \<^verbatim>\<open>parent_loop\<close>; it waits while the pipe has no room for the whole array.\<close>

definition parent_step :: "piping \<Rightarrow> piping outcome" where
  "parent_step s =
     (if parent_done s \<or> capacity s < length (pipe s) + BUFSIZE then Inr s
      else obind (scan_word (words s)) (\<lambda>(input, rest).
        if check_for_exit input then Inr (s\<lparr>words := rest, parent_done := True\<rparr>)
        else Inr (s\<lparr>words := rest, pipe := pipe s @ padded input\<rparr>)))"

text \<open>\<^verbatim>\<open>printf\<close> with \<^verbatim>\<open>%s\<close>.\<close>

definition until_zero :: "string \<Rightarrow> string outcome" where
  "until_zero buf = (if NUL \<in> set buf then Inr (takeWhile (\<lambda>c. c \<noteq> NUL) buf) else Inl Undefined)"

text \<open>One round of \<^verbatim>\<open>child_loop\<close>; \<^verbatim>\<open>read\<close> waits while the pipe is empty and the parent has not closed it.\<close>

definition child_step :: "piping \<Rightarrow> piping outcome" where
  "child_step s =
     (if child_done s then Inr s
      else if pipe s = [] then Inr (if parent_done s then s\<lparr>child_done := True\<rparr> else s)
      else
        let got = take BUFSIZE (pipe s);
            out = got @ drop (length got) (output_buf s)
        in obind (until_zero out) (\<lambda>text.
           Inr (s\<lparr>pipe := drop BUFSIZE (pipe s), output_buf := out, printed := printed s @ [text]\<rparr>)))"

text \<open>A turn of the parent, or of the child.\<close>

definition turn :: "bool \<Rightarrow> piping \<Rightarrow> piping outcome" where
  "turn parents s = (if parents then parent_step s else child_step s)"

section \<open>The child prints the words\<close>

definition plain_word :: "string \<Rightarrow> bool" where
  "plain_word w \<longleftrightarrow> length w < BUFSIZE \<and> w \<noteq> EXIT_STR \<and> NUL \<notin> set w"

text \<open>What was printed, what is in the pipe and what was not yet read make up the words before \<^verbatim>\<open>exit\<close>.\<close>

definition piping_ok :: "string list \<Rightarrow> piping \<Rightarrow> bool" where
  "piping_ok ws s \<longleftrightarrow> BUFSIZE \<le> capacity s \<and> (\<forall>w\<in>set ws. plain_word w)
     \<and> (\<exists>sent todo. ws = printed s @ sent @ todo \<and> pipe s = concat (map padded sent)
          \<and> (if parent_done s then todo = [] else \<exists>later. words s = todo @ EXIT_STR # later)
          \<and> (child_done s \<longrightarrow> parent_done s \<and> sent = []))"

lemma piping_okI:
  assumes "BUFSIZE \<le> capacity s" "\<forall>w\<in>set ws. plain_word w" "ws = printed s @ sent @ todo"
    "pipe s = concat (map padded sent)" "if parent_done s then todo = [] else words s = todo @ EXIT_STR # later"
    "child_done s \<longrightarrow> parent_done s \<and> sent = []"
  shows "piping_ok ws s"
proof -
  have "if parent_done s then todo = [] else \<exists>later. words s = todo @ EXIT_STR # later" using assms(5) by (auto split: if_splits)
  with assms show ?thesis unfolding piping_ok_def by blast
qed

lemma length_padded: "plain_word w \<Longrightarrow> length (padded w) = BUFSIZE"
  by (simp add: plain_word_def padded_def)

lemma padded_read: "plain_word w \<Longrightarrow> until_zero (padded w @ rest) = Inr w"
proof -
  assume w: "plain_word w"
  then have "replicate (BUFSIZE - length w) NUL = NUL # replicate (BUFSIZE - length w - 1) NUL"
    by (simp add: plain_word_def Suc_diff_Suc flip: replicate_Suc)
  with w show ?thesis by (auto simp: until_zero_def padded_def plain_word_def takeWhile_append)
qed

lemma parent_keeps:
  assumes ok: "piping_ok ws s"
  shows "\<exists>s'. parent_step s = Inr s' \<and> piping_ok ws s'"
proof (cases "parent_done s \<or> capacity s < length (pipe s) + BUFSIZE")
  case True
  with ok show ?thesis by (simp add: parent_step_def)
next
  case False
  with ok obtain sent todo later where w: "ws = printed s @ sent @ todo" "pipe s = concat (map padded sent)"
    "words s = todo @ EXIT_STR # later" and c: "BUFSIZE \<le> capacity s" "\<forall>w\<in>set ws. plain_word w" "\<not> child_done s"
    by (auto simp: piping_ok_def)
  show ?thesis
  proof (cases todo)
    case Nil
    have "piping_ok ws (s\<lparr>words := later, parent_done := True\<rparr>)"
      by (rule piping_okI [where sent = sent and todo = "[]"]) (use w c Nil in simp_all)
    with False w(3) Nil show ?thesis
      by (simp add: parent_step_def scan_word_def check_for_exit_def EXIT_STR_def BUFSIZE_def)
  next
    case (Cons v rest)
    have v: "plain_word v" using c(2) w(1) Cons by simp
    then have "parent_step s = Inr (s\<lparr>words := rest @ EXIT_STR # later, pipe := pipe s @ padded v\<rparr>)"
      using False w(3) Cons by (simp add: parent_step_def scan_word_def check_for_exit_def plain_word_def)
    moreover have "piping_ok ws (s\<lparr>words := rest @ EXIT_STR # later, pipe := pipe s @ padded v\<rparr>)"
      by (rule piping_okI [where sent = "sent @ [v]" and todo = rest and later = later]) (use w c False Cons in simp_all)
    ultimately show ?thesis by blast
  qed
qed

lemma child_keeps:
  assumes ok: "piping_ok ws s"
  shows "\<exists>s'. child_step s = Inr s' \<and> piping_ok ws s'"
proof -
  from ok obtain sent todo where w: "ws = printed s @ sent @ todo" "pipe s = concat (map padded sent)"
    "if parent_done s then todo = [] else \<exists>later. words s = todo @ EXIT_STR # later"
    "child_done s \<longrightarrow> parent_done s \<and> sent = []" and c: "BUFSIZE \<le> capacity s" "\<forall>w\<in>set ws. plain_word w"
    by (auto simp: piping_ok_def)
  show ?thesis
  proof (cases "child_done s \<or> sent = []")
    case True
    show ?thesis
    proof (cases "\<not> child_done s \<and> parent_done s")
      case close: True
      have "piping_ok ws (s\<lparr>child_done := True\<rparr>)"
        by (rule piping_okI [where sent = "[]" and todo = "[]"]) (use w c True close in auto)
      with True close w(2) show ?thesis by (simp add: child_step_def)
    next
      case False
      with True w(2) ok show ?thesis by (auto simp: child_step_def)
    qed
  next
    case False
    then obtain v rest where sent: "sent = v # rest" by (cases sent) auto
    have v: "plain_word v" using c(2) w(1) sent by simp
    have l: "take BUFSIZE (pipe s) = padded v" "drop BUFSIZE (pipe s) = concat (map padded rest)"
      using length_padded [OF v] w(2) sent by simp_all
    have ne: "pipe s \<noteq> []" using length_padded [OF v] w(2) sent by (auto simp: BUFSIZE_def)
    obtain s' where s': "s' = s\<lparr>pipe := concat (map padded rest),
      output_buf := padded v @ drop (length (padded v)) (output_buf s), printed := printed s @ [v]\<rparr>" by blast
    have "child_step s = Inr s'"
      using False ne l padded_read [OF v] by (simp add: child_step_def Let_def s')
    moreover have "piping_ok ws s'"
    proof (cases "parent_done s")
      case True
      then show ?thesis by (intro piping_okI [where sent = rest and todo = todo]) (use w c False sent in \<open>simp_all add: s'\<close>)
    next
      case no: False
      with w(3) obtain later where "words s = todo @ EXIT_STR # later" by auto
      with no show ?thesis
        by (intro piping_okI [where sent = rest and todo = todo and later = later]) (use w c False sent in \<open>simp_all add: s'\<close>)
    qed
    ultimately show ?thesis by blast
  qed
qed

definition piping_rank :: "piping \<Rightarrow> nat" where
  "piping_rank s = (if parent_done s then 0 else 1 + 200 * length (takeWhile (\<lambda>w. w \<noteq> EXIT_STR) (words s)))
     + length (pipe s) + (if child_done s then 0 else 1)"

lemma piping_moves:
  assumes ok: "piping_ok ws s" and no: "\<not> child_done s"
  shows "\<exists>e s'. turn e s = Inr s' \<and> piping_rank s' < piping_rank s"
proof (cases "pipe s = []")
  case False
  from child_keeps [OF ok] obtain s' where s': "child_step s = Inr s'" by blast
  then have "words s' = words s" "parent_done s' = parent_done s" "child_done s' = child_done s" "pipe s' = drop BUFSIZE (pipe s)"
    using no False by (auto simp: child_step_def Let_def obind_eq_Inr)
  then have "piping_rank s' < piping_rank s" using False by (simp add: piping_rank_def BUFSIZE_def)
  with s' show ?thesis by (intro exI [of _ False] exI [of _ s']) (simp add: turn_def)
next
  case empty: True
  show ?thesis
  proof (cases "parent_done s")
    case True
    with empty no show ?thesis by (intro exI [of _ False]) (simp add: turn_def child_step_def piping_rank_def)
  next
    case False
    with ok obtain todo later where w: "words s = todo @ EXIT_STR # later" "\<forall>w\<in>set todo. plain_word w" "BUFSIZE \<le> capacity s"
      by (auto simp: piping_ok_def)
    show ?thesis
    proof (cases todo)
      case Nil
      with w False empty show ?thesis
        by (intro exI [of _ True]) (simp add: turn_def parent_step_def scan_word_def check_for_exit_def piping_rank_def EXIT_STR_def BUFSIZE_def)
    next
      case (Cons v rest)
      with w have v: "plain_word v" by simp
      with w False empty Cons length_padded [OF v] show ?thesis
        by (intro exI [of _ True])
          (simp add: turn_def parent_step_def scan_word_def check_for_exit_def piping_rank_def plain_word_def BUFSIZE_def)
    qed
  qed
qed

interpretation pw: waiting turn "piping_ok ws" child_done piping_rank
proof
  fix s e s' assume "piping_ok ws s" "turn e s = Inr s'"
  then show "piping_ok ws s'" using parent_keeps [of ws s] child_keeps [of ws s] by (auto simp: turn_def split: if_splits)
next
  fix s e f assume "piping_ok ws s" "turn e s = Inl f"
  then show "f = ExitWith 1" using parent_keeps [of ws s] child_keeps [of ws s] by (auto simp: turn_def split: if_splits)
next
  fix s assume "piping_ok ws s" "\<not> child_done s"
  from piping_moves [OF this] show "\<exists>e. case turn e s of Inl f \<Rightarrow> True | Inr s' \<Rightarrow> piping_rank s' < piping_rank s"
    by (metis sum.case(2))
qed

text \<open>Whoever moves when, the child prints the words before \<^verbatim>\<open>exit\<close> in their order, and both come to their end.\<close>

theorem child_prints_words:
  assumes "\<forall>w\<in>set ws. plain_word w" "BUFSIZE \<le> cap"
  shows "\<exists>s. play turn es (piping_start (ws @ EXIT_STR # later) cap junk) = Inr s \<and> (\<exists>rest. ws = printed s @ rest)
    \<and> (child_done s \<longrightarrow> printed s = ws) \<and> (\<exists>us s'. play turn us s = Inr s' \<and> child_done s')"
proof -
  let ?s0 = "piping_start (ws @ EXIT_STR # later) cap junk"
  have total: "\<exists>s'. play turn es s = Inr s'" if "piping_ok ws s" for es s
    using that
  proof (induction es arbitrary: s)
    case (Cons e es)
    then obtain s1 where s1: "turn e s = Inr s1" "piping_ok ws s1"
      using parent_keeps [of ws s] child_keeps [of ws s] unfolding turn_def by (cases e) auto
    with Cons.IH [OF s1(2)] show ?case by simp
  qed simp
  have start: "piping_ok ws ?s0"
    by (rule piping_okI [where sent = "[]" and todo = ws and later = later]) (use assms in \<open>simp_all add: piping_start_def\<close>)
  from total [OF start] obtain s where s: "play turn es ?s0 = Inr s" by blast
  have ok: "piping_ok ws s" using pw.play_inv [OF start, of es] s by simp
  then have "\<exists>rest. ws = printed s @ rest" "child_done s \<longrightarrow> printed s = ws" by (auto simp: piping_ok_def)
  moreover obtain us where "case play turn us s of Inl f \<Rightarrow> True | Inr s' \<Rightarrow> child_done s'" using pw.can_end [OF ok] by blast
  moreover obtain s' where "play turn us s = Inr s'" using total [OF ok] by blast
  ultimately show ?thesis using s by auto
qed

text \<open>A word of a hundred characters overflows the array; at the end of the input the parent sends empty words for ever.\<close>

lemma long_word_overflows:
  assumes "BUFSIZE \<le> length w" "BUFSIZE \<le> cap"
  shows "play turn [True] (piping_start (w # ws) cap junk) = Inl Undefined"
  using assms by (simp add: turn_def piping_start_def parent_step_def scan_word_def)

lemma parent_at_end: "parent_step s = Inr s' \<Longrightarrow> words s = [] \<Longrightarrow> \<not> parent_done s \<Longrightarrow>
    words s' = [] \<and> \<not> parent_done s' \<and> child_done s' = child_done s"
  by (auto simp: parent_step_def scan_word_def check_for_exit_def EXIT_STR_def split: if_splits)

lemma child_at_end: "child_step s = Inr s' \<Longrightarrow> \<not> parent_done s \<Longrightarrow>
    words s' = words s \<and> \<not> parent_done s' \<and> child_done s' = child_done s"
  by (auto simp: child_step_def Let_def obind_eq_Inr split: if_splits)

lemma end_of_input_never_ends:
  assumes "words s = []" "\<not> parent_done s" "\<not> child_done s"
  shows "\<forall>s'. play turn es s = Inr s' \<longrightarrow> words s' = [] \<and> \<not> parent_done s' \<and> \<not> child_done s'"
  using assms
proof (induction es arbitrary: s)
  case (Cons e es)
  show ?case
  proof (cases "turn e s")
    case (Inr s1)
    have "words s1 = [] \<and> \<not> parent_done s1 \<and> \<not> child_done s1"
    proof (cases e)
      case True
      from Inr True parent_at_end [OF _ Cons.prems(1,2)] Cons.prems(3) show ?thesis by (simp add: turn_def)
    next
      case False
      from Inr False child_at_end [OF _ Cons.prems(2)] Cons.prems(1,3) show ?thesis by (simp add: turn_def)
    qed
    with Cons.IH [of s1] Inr show ?thesis by simp
  qed simp
qed simp

end
