(* ===== verification/HttpOnce.thy ===== *)
theory HttpOnce
  imports Channels
begin

text \<open>
  \<^verbatim>\<open>5-aws/util/lin/samples/http_reply_once.c\<close>: a server that accepts one connection, reads a request without
  looking at it, and sends a fixed reply.
\<close>

definition BUFSIZ :: nat where "BUFSIZ = 8192"

text \<open>
  The connection: whether the descriptor is open, whether the peer is known, what has come and whether more will,
  how the two calls are limited; what was sent, and how often the descriptor was closed.
\<close>

record link =
  is_open :: bool
  up :: bool
  inbox :: "byte list"
  recv_limit :: limit
  send_limit :: limit
  sent :: "byte list"
  closes :: nat

definition sys_close :: "link \<Rightarrow> link" where
  "sys_close s = s\<lparr>is_open := False, closes := closes s + 1\<rparr>"

definition get_peer_address :: "link \<Rightarrow> int" where
  "get_peer_address s = (if is_open s \<and> up s then 0 else -1)"

definition sys_recv :: "nat \<Rightarrow> link \<Rightarrow> byte list option" where
  "sys_recv n s = (if \<not> is_open s then None
     else case recv_limit s of Fails \<Rightarrow> None | AtMost m \<Rightarrow> Some (take (min (max 1 m) n) (inbox s)))"

definition sys_send :: "byte list \<Rightarrow> link \<Rightarrow> int \<times> link" where
  "sys_send bs s = (if \<not> is_open s then (-1, s)
     else case send_limit s of Fails \<Rightarrow> (-1, s) | AtMost m \<Rightarrow> (int (min m (length bs)), s\<lparr>sent := sent s @ take m bs\<rparr>))"

text \<open>\<^verbatim>\<open>buffer\<close> is an array without initial values: behind the received bytes it holds \<open>junk\<close>, which \<^verbatim>\<open>printf\<close> also reads.\<close>

definition receive_request :: "byte list \<Rightarrow> link \<Rightarrow> link outcome" where
  "receive_request junk s =
     (if get_peer_address s < 0 then Inr (sys_close s)
      else case sys_recv BUFSIZ s of
             None \<Rightarrow> Inr (sys_close s)
           | Some bs \<Rightarrow>
               if bs = [] then Inr (sys_close s)
               else if 0 \<in> set (bs @ drop (length bs) junk) then Inr (s\<lparr>inbox := drop (length bs) (inbox s)\<rparr>)
               else Inl Undefined)"

definition bytes_of :: "string \<Rightarrow> byte list" where
  "bytes_of = map of_char"

definition CRLF :: string where "CRLF = [char_of (13 :: nat), char_of (10 :: nat)]"

definition quot :: string where "quot = [char_of (34 :: nat)]"

definition reply_header :: string where
  "reply_header =
     ''HTTP/1.1 200 OK'' @ CRLF
     @ ''Date: Sun, 08 May 2011 09:26:16 GMT'' @ CRLF
     @ ''Server: Apache/2.2.9'' @ CRLF
     @ ''Last-Modified: Mon, 02 Aug 2010 17:55:28 GMT'' @ CRLF
     @ ''Accept-Ranges: bytes'' @ CRLF
     @ ''Content-Length: 153'' @ CRLF
     @ ''Vary: Accept-Encoding'' @ CRLF
     @ ''Connection: close'' @ CRLF
     @ ''Content-Type: text/html'' @ CRLF
     @ CRLF"

definition reply_body :: string where
  "reply_body =
     ''<html><head><meta name='' @ quot @ ''google-site-verification'' @ quot @ '' content='' @ quot
     @ ''gTsIxyV43HSJraRPl6X1A5jzGFgQ3N__hKAcuL2QsO8'' @ quot @ '' /></head>''
     @ ''<body><h1>It works!</h1></body></html>'' @ CRLF"

definition send_reply :: "link \<Rightarrow> link" where
  "send_reply s =
     (if get_peer_address s < 0 then sys_close s
      else let (bytes_sent, s) = sys_send (bytes_of (reply_header @ reply_body)) s in
        if bytes_sent < 0 then sys_close s
        else if bytes_sent = 0 then sys_close s
        else sys_close s)"

definition http_main :: "byte list \<Rightarrow> link \<Rightarrow> link outcome" where
  "http_main junk s = obind (receive_request junk s) (\<lambda>s. Inr (send_reply s))"

section \<open>One reply\<close>

text \<open>The length that the header announces is that of the body.\<close>

lemma content_length: "length reply_body = 153"
  by (simp add: reply_body_def quot_def CRLF_def)

definition accepted :: "byte list \<Rightarrow> limit \<Rightarrow> limit \<Rightarrow> link" where
  "accepted req r t = \<lparr>is_open = True, up = True, inbox = req, recv_limit = r, send_limit = t, sent = [], closes = 0\<rparr>"

text \<open>
  Whatever the request, the client gets the whole reply when \<^verbatim>\<open>send\<close> takes it at once; when it takes less the rest is
  never sent.  Without a request nothing is sent, and the descriptor is closed twice.
\<close>

theorem replies_once:
  assumes "length junk = BUFSIZ" "last junk = 0" "length req < BUFSIZ"
  shows "\<exists>s. http_main junk (accepted req (AtMost (length req)) (AtMost m)) = Inr s \<and> \<not> is_open s
    \<and> sent s = (if req = [] then [] else take m (bytes_of (reply_header @ reply_body)))
    \<and> closes s = (if req = [] then 2 else 1)"
proof -
  have "junk \<noteq> []" using assms(1) by (auto simp: BUFSIZ_def)
  then have "0 \<in> set (drop (length req) junk)"
    using last_in_set [of "drop (length req) junk"] assms by (simp add: last_drop)
  then show ?thesis using assms
    by (cases "req = []")
      (auto simp: http_main_def receive_request_def send_reply_def get_peer_address_def sys_recv_def sys_send_def
        sys_close_def accepted_def min_def max_def Let_def not_le Suc_le_eq)
qed

lemma unterminated_request:
  assumes "length req = BUFSIZ" "0 \<notin> set req" "length junk = BUFSIZ"
  shows "http_main junk (accepted req (AtMost BUFSIZ) t) = Inl Undefined"
  using assms by (auto simp: http_main_def receive_request_def get_peer_address_def sys_recv_def accepted_def BUFSIZ_def)

end
