(* ===== verification/HttpTables.thy ===== *)
theory HttpTables
  imports Prelude "HOL-Library.Word"
begin

text \<open>
  The tables, enumerations and structures of \<^verbatim>\<open>5-aws/util/http-parser/http_parser.c\<close> and
  \<^verbatim>\<open>http_parser.h\<close>, the parser of HTTP messages that the web-server assignment is built on.  Its copy in the
  repository is not the published one: \<^verbatim>\<open>content_length\<close> is a \<^verbatim>\<open>size_t\<close>, which has 64 bits here.
\<close>

section \<open>Constants and tables\<close>

definition HTTP_MAX_HEADER_SIZE :: nat where "HTTP_MAX_HEADER_SIZE = 80 * 1024"

definition PROXY_CONNECTION :: string where "PROXY_CONNECTION = ''proxy-connection''"

definition CONNECTION :: string where "CONNECTION = ''connection''"

definition CONTENT_LENGTH :: string where "CONTENT_LENGTH = ''content-length''"

definition TRANSFER_ENCODING :: string where "TRANSFER_ENCODING = ''transfer-encoding''"

definition UPGRADE :: string where "UPGRADE = ''upgrade''"

definition CHUNKED :: string where "CHUNKED = ''chunked''"

definition KEEP_ALIVE :: string where "KEEP_ALIVE = ''keep-alive''"

definition CLOSE :: string where "CLOSE = ''close''"

definition CR :: char where "CR = char_of (13 :: nat)"

definition LF :: char where "LF = char_of (10 :: nat)"

definition NUL :: char where "NUL = char_of (0 :: nat)"

text \<open>The arrays have 256 elements; those that are not listed are zero.\<close>

definition tokens :: "nat list" where
  "tokens =
     [0, 0, 0, 0, 0, 0, 0, 0, 0, 0, 0, 0, 0, 0, 0, 0,
      0, 0, 0, 0, 0, 0, 0, 0, 0, 0, 0, 0, 0, 0, 0, 0,
      32, 33, 34, 35, 36, 37, 38, 39, 0, 0, 42, 43, 0, 45, 46, 47,
      48, 49, 50, 51, 52, 53, 54, 55, 56, 57, 0, 0, 0, 0, 0, 0,
      0, 97, 98, 99, 100, 101, 102, 103, 104, 105, 106, 107, 108, 109, 110, 111,
      112, 113, 114, 115, 116, 117, 118, 119, 120, 121, 122, 0, 0, 0, 94, 95,
      96, 97, 98, 99, 100, 101, 102, 103, 104, 105, 106, 107, 108, 109, 110, 111,
      112, 113, 114, 115, 116, 117, 118, 119, 120, 121, 122, 0, 124, 125, 126, 0]"

definition unhex :: "int list" where
  "unhex =
     [-1, -1, -1, -1, -1, -1, -1, -1, -1, -1, -1, -1, -1, -1, -1, -1,
      -1, -1, -1, -1, -1, -1, -1, -1, -1, -1, -1, -1, -1, -1, -1, -1,
      -1, -1, -1, -1, -1, -1, -1, -1, -1, -1, -1, -1, -1, -1, -1, -1,
      0, 1, 2, 3, 4, 5, 6, 7, 8, 9, -1, -1, -1, -1, -1, -1,
      -1, 10, 11, 12, 13, 14, 15, -1, -1, -1, -1, -1, -1, -1, -1, -1,
      -1, -1, -1, -1, -1, -1, -1, -1, -1, -1, -1, -1, -1, -1, -1, -1,
      -1, 10, 11, 12, 13, 14, 15, -1, -1, -1, -1, -1, -1, -1, -1, -1,
      -1, -1, -1, -1, -1, -1, -1, -1, -1, -1, -1, -1, -1, -1, -1, -1]"

definition normal_url_char :: "nat list" where
  "normal_url_char =
     [0, 0, 0, 0, 0, 0, 0, 0, 0, 0, 0, 0, 0, 0, 0, 0,
      0, 0, 0, 0, 0, 0, 0, 0, 0, 0, 0, 0, 0, 0, 0, 0,
      0, 1, 1, 0, 1, 1, 1, 1, 1, 1, 1, 1, 1, 1, 1, 1,
      1, 1, 1, 1, 1, 1, 1, 1, 1, 1, 1, 1, 1, 1, 1, 0,
      1, 1, 1, 1, 1, 1, 1, 1, 1, 1, 1, 1, 1, 1, 1, 1,
      1, 1, 1, 1, 1, 1, 1, 1, 1, 1, 1, 1, 1, 1, 1, 1,
      1, 1, 1, 1, 1, 1, 1, 1, 1, 1, 1, 1, 1, 1, 1, 1,
      1, 1, 1, 1, 1, 1, 1, 1, 1, 1, 1, 1, 1, 1, 1, 0]"

definition entry :: "'a list \<Rightarrow> 'a \<Rightarrow> char \<Rightarrow> 'a" where
  "entry tab z ch = (let i = of_char ch in if i < length tab then tab ! i else z)"

text \<open>\<^verbatim>\<open>LOWER\<close> sets the bit of value 32.\<close>

fun LOWER :: "char \<Rightarrow> char" where
  "LOWER (Char b0 b1 b2 b3 b4 b5 b6 b7) = Char b0 b1 b2 b3 b4 True b6 b7"

definition TOKEN :: "char \<Rightarrow> char" where
  "TOKEN ch = char_of (entry tokens 0 ch)"

definition unhex_digit :: "char \<Rightarrow> int" where
  "unhex_digit ch = entry unhex 0 ch"

definition url_char :: "char \<Rightarrow> bool" where
  "url_char ch \<longleftrightarrow> entry normal_url_char 0 ch \<noteq> 0"

text \<open>\<^verbatim>\<open>a <= ch && ch <= b\<close> for characters below 128; a \<^verbatim>\<open>char\<close> that is negative is in no such range.\<close>

definition between :: "char \<Rightarrow> char \<Rightarrow> char \<Rightarrow> bool" where
  "between a b ch \<longleftrightarrow> (of_char a :: nat) \<le> of_char ch \<and> of_char ch \<le> (of_char b :: nat)"

definition digit :: "char \<Rightarrow> bool" where
  "digit ch \<longleftrightarrow> between (CHR ''0'') (CHR ''9'') ch"

text \<open>\<^verbatim>\<open>ch - '0'\<close>\<close>

definition digit_value :: "char \<Rightarrow> nat" where
  "digit_value ch = of_char ch - 48"

section \<open>Enumerations\<close>

datatype (plugins only: code size) http_method =
    HTTP_DELETE | HTTP_GET | HTTP_HEAD | HTTP_POST | HTTP_PUT
  | HTTP_CONNECT | HTTP_OPTIONS | HTTP_TRACE | HTTP_COPY | HTTP_LOCK
  | HTTP_MKCOL | HTTP_MOVE | HTTP_PROPFIND | HTTP_PROPPATCH | HTTP_UNLOCK
  | HTTP_REPORT | HTTP_MKACTIVITY | HTTP_CHECKOUT | HTTP_MERGE | HTTP_MSEARCH
  | HTTP_NOTIFY | HTTP_SUBSCRIBE | HTTP_UNSUBSCRIBE

fun method_strings :: "http_method \<Rightarrow> string" where
  "method_strings HTTP_DELETE = ''DELETE''"
| "method_strings HTTP_GET = ''GET''"
| "method_strings HTTP_HEAD = ''HEAD''"
| "method_strings HTTP_POST = ''POST''"
| "method_strings HTTP_PUT = ''PUT''"
| "method_strings HTTP_CONNECT = ''CONNECT''"
| "method_strings HTTP_OPTIONS = ''OPTIONS''"
| "method_strings HTTP_TRACE = ''TRACE''"
| "method_strings HTTP_COPY = ''COPY''"
| "method_strings HTTP_LOCK = ''LOCK''"
| "method_strings HTTP_MKCOL = ''MKCOL''"
| "method_strings HTTP_MOVE = ''MOVE''"
| "method_strings HTTP_PROPFIND = ''PROPFIND''"
| "method_strings HTTP_PROPPATCH = ''PROPPATCH''"
| "method_strings HTTP_UNLOCK = ''UNLOCK''"
| "method_strings HTTP_REPORT = ''REPORT''"
| "method_strings HTTP_MKACTIVITY = ''MKACTIVITY''"
| "method_strings HTTP_CHECKOUT = ''CHECKOUT''"
| "method_strings HTTP_MERGE = ''MERGE''"
| "method_strings HTTP_MSEARCH = ''M-SEARCH''"
| "method_strings HTTP_NOTIFY = ''NOTIFY''"
| "method_strings HTTP_SUBSCRIBE = ''SUBSCRIBE''"
| "method_strings HTTP_UNSUBSCRIBE = ''UNSUBSCRIBE''"

datatype http_parser_type = HTTP_REQUEST | HTTP_RESPONSE | HTTP_BOTH

datatype (plugins only: code size) state =
    s_dead | s_start_req_or_res | s_res_or_resp_H | s_start_res
  | s_res_H | s_res_HT | s_res_HTT | s_res_HTTP
  | s_res_first_http_major | s_res_http_major | s_res_first_http_minor | s_res_http_minor
  | s_res_first_status_code | s_res_status_code | s_res_status | s_res_line_almost_done
  | s_start_req | s_req_method | s_req_spaces_before_url | s_req_schema
  | s_req_schema_slash | s_req_schema_slash_slash | s_req_host | s_req_port
  | s_req_path | s_req_query_string_start | s_req_query_string | s_req_fragment_start
  | s_req_fragment | s_req_http_start | s_req_http_H | s_req_http_HT
  | s_req_http_HTT | s_req_http_HTTP | s_req_first_http_major | s_req_http_major
  | s_req_first_http_minor | s_req_http_minor | s_req_line_almost_done | s_header_field_start
  | s_header_field | s_header_value_start | s_header_value | s_header_almost_done
  | s_chunk_size_start | s_chunk_size | s_chunk_parameters | s_chunk_size_almost_done
  | s_headers_almost_done | s_chunk_data | s_chunk_data_almost_done | s_chunk_data_done
  | s_body_identity | s_body_identity_eof

text \<open>The comparison \<^verbatim>\<open>state <= s_headers_almost_done\<close>: all but the states of the enumeration after it.\<close>

definition PARSING_HEADER :: "state \<Rightarrow> bool" where
  "PARSING_HEADER s \<longleftrightarrow>
     s \<notin> {s_chunk_data, s_chunk_data_almost_done, s_chunk_data_done, s_body_identity, s_body_identity_eof}"

datatype header_states =
    h_general | h_C | h_CO | h_CON
  | h_matching_connection | h_matching_proxy_connection | h_matching_content_length | h_matching_transfer_encoding
  | h_matching_upgrade | h_connection | h_content_length | h_transfer_encoding
  | h_upgrade | h_matching_transfer_encoding_chunked | h_matching_connection_keep_alive | h_matching_connection_close
  | h_transfer_encoding_chunked | h_connection_keep_alive | h_connection_close

datatype flag = F_CHUNKED | F_CONNECTION_KEEP_ALIVE | F_CONNECTION_CLOSE | F_TRAILING | F_UPGRADE | F_SKIPBODY

section \<open>The parser\<close>

text \<open>\<open>flags\<close> is the set of the bits of \<^verbatim>\<open>enum flags\<close>, which fit into the six bits of the field.  \<open>index\<close> and \<open>nread\<close> are what
  is kept between calls.\<close>

record http_parser =
  ptype :: http_parser_type
  flags :: "flag set"
  pstate :: state
  pheader_state :: header_states
  pindex :: nat
  pnread :: nat
  content_length :: "64 word"
  http_major :: nat
  http_minor :: nat
  status_code :: nat
  pmethod :: http_method
  upgrade :: bool

text \<open>Not all fields get a value.\<close>

definition http_parser_init :: "http_parser_type \<Rightarrow> http_parser \<Rightarrow> http_parser" where
  "http_parser_init t parser = parser
     \<lparr>ptype := t,
      pstate := (if t = HTTP_REQUEST then s_start_req else if t = HTTP_RESPONSE then s_start_res else s_start_req_or_res),
      pnread := 0, upgrade := False, flags := {}, pmethod := HTTP_DELETE\<rparr>"

definition http_should_keep_alive :: "http_parser \<Rightarrow> bool" where
  "http_should_keep_alive parser =
     (if 0 < http_major parser \<and> 0 < http_minor parser then F_CONNECTION_CLOSE \<notin> flags parser
      else F_CONNECTION_KEEP_ALIVE \<in> flags parser)"

definition http_method_str :: "http_method \<Rightarrow> string" where
  "http_method_str m = method_strings m"

text \<open>\<open>strict\<close> says whether the parser was compiled with \<^verbatim>\<open>HTTP_PARSER_STRICT\<close>, as it is unless the option defines it.\<close>

definition start_state :: "http_parser \<Rightarrow> state" where
  "start_state parser = (if ptype parser = HTTP_REQUEST then s_start_req else s_start_res)"

definition NEW_MESSAGE :: "bool \<Rightarrow> http_parser \<Rightarrow> state" where
  "NEW_MESSAGE strict parser =
     (if strict then (if http_should_keep_alive parser then start_state parser else s_dead) else start_state parser)"

end
