(* ===== verification/HttpParser.thy ===== *)
theory HttpParser
  imports HttpTables
begin

text \<open>
  \<^verbatim>\<open>http_parser_execute\<close> of \<^verbatim>\<open>5-aws/util/http-parser/http_parser.c\<close>: the macros, one definition for each
  group of states of its \<^verbatim>\<open>switch\<close>, the loop over the data, and what is done at its ends.
\<close>

section \<open>A call under way\<close>

datatype data_cb = Header_field | Header_value | Fragment | Query_string | Path | Url

text \<open>
  The callbacks: each may be missing.  They see the parser and a state \<^typ>\<open>'u\<close> of their own, which
  stands for what the \<^verbatim>\<open>data\<close> field of the parser points to, and return an integer.
\<close>

record 'u http_parser_settings =
  on_message_begin :: "(http_parser \<Rightarrow> 'u \<Rightarrow> int \<times> 'u) option"
  on_data :: "data_cb \<Rightarrow> (http_parser \<Rightarrow> string \<Rightarrow> 'u \<Rightarrow> int \<times> 'u) option"
  on_headers_complete :: "(http_parser \<Rightarrow> 'u \<Rightarrow> int \<times> 'u) option"
  on_body :: "(http_parser \<Rightarrow> string \<Rightarrow> 'u \<Rightarrow> int \<times> 'u) option"
  on_message_complete :: "(http_parser \<Rightarrow> 'u \<Rightarrow> int \<times> 'u) option"

text \<open>The variables of the function; \<open>pos\<close> is \<^verbatim>\<open>p - data\<close>, and so are the marks.\<close>

record 'u run =
  parser :: http_parser
  cur :: state
  hstate :: header_states
  index :: nat
  nread :: nat
  pos :: nat
  marks :: "data_cb \<Rightarrow> nat option"
  user :: 'u

text \<open>It goes on, has returned, or has run into a failed assertion or an access without a meaning.\<close>

datatype 'u flow = Runs "'u run" | Returns nat http_parser 'u | Faults fault

definition andthen :: "'u flow \<Rightarrow> ('u run \<Rightarrow> 'u flow) \<Rightarrow> 'u flow" where
  "andthen f g = (case f of Runs r \<Rightarrow> g r | Returns n p u \<Rightarrow> Returns n p u | Faults e \<Rightarrow> Faults e)"

lemma andthen_simps [simp]:
  "andthen (Runs r) g = g r"
  "andthen (Returns n p u) g = Returns n p u"
  "andthen (Faults e) g = Faults e"
  by (simp_all add: andthen_def)

lemma andthen_cong [fundef_cong]: "f = f' \<Longrightarrow> (\<And>r. f' = Runs r \<Longrightarrow> g r = g' r) \<Longrightarrow> andthen f g = andthen f' g'"
  by (cases f') simp_all

section \<open>The macros\<close>

definition ABORT :: fault where "ABORT = ExitWith 134"

definition error :: "'u run \<Rightarrow> 'u flow" where
  "error r = Returns (pos r) ((parser r)\<lparr>pstate := s_dead\<rparr>) (user r)"

definition assertion :: "bool \<Rightarrow> 'u flow \<Rightarrow> 'u flow" where
  "assertion b f = (if b then f else Faults ABORT)"

definition STRICT_CHECK :: "bool \<Rightarrow> bool \<Rightarrow> 'u run \<Rightarrow> 'u flow \<Rightarrow> 'u flow" where
  "STRICT_CHECK strict cond r f = (if strict \<and> cond then error r else f)"

definition goes :: "state \<Rightarrow> 'u run \<Rightarrow> 'u flow" where
  "goes st r = Runs (r\<lparr>cur := st\<rparr>)"

definition upd :: "(http_parser \<Rightarrow> http_parser) \<Rightarrow> 'u run \<Rightarrow> 'u run" where
  "upd f r = r\<lparr>parser := f (parser r)\<rparr>"

definition CALLBACK2 :: "(http_parser \<Rightarrow> 'u \<Rightarrow> int \<times> 'u) option \<Rightarrow> 'u run \<Rightarrow> 'u flow" where
  "CALLBACK2 cb r =
     (case cb of
        None \<Rightarrow> Runs r
      | Some f \<Rightarrow>
          (case f (parser r) (user r) of
             (rc, u) \<Rightarrow> if rc \<noteq> 0 then Returns (pos r) (parser r) u else Runs (r\<lparr>user := u\<rparr>)))"

definition MARK :: "data_cb \<Rightarrow> 'u run \<Rightarrow> 'u run" where
  "MARK k r = r\<lparr>marks := (marks r)(k \<mapsto> pos r)\<rparr>"

definition slice :: "string \<Rightarrow> nat \<Rightarrow> nat \<Rightarrow> string" where
  "slice data m p = take (p - m) (drop m data)"

definition CALLBACK_NOCLEAR :: "'u http_parser_settings \<Rightarrow> string \<Rightarrow> data_cb \<Rightarrow> 'u run \<Rightarrow> 'u flow" where
  "CALLBACK_NOCLEAR settings data k r =
     (case marks r k of
        None \<Rightarrow> Runs r
      | Some m \<Rightarrow>
          (case on_data settings k of
             None \<Rightarrow> Runs r
           | Some f \<Rightarrow>
               (case f (parser r) (slice data m (pos r)) (user r) of
                  (rc, u) \<Rightarrow> if rc \<noteq> 0 then Returns (pos r) (parser r) u else Runs (r\<lparr>user := u\<rparr>))))"

definition CALLBACK :: "'u http_parser_settings \<Rightarrow> string \<Rightarrow> data_cb \<Rightarrow> 'u run \<Rightarrow> 'u flow" where
  "CALLBACK settings data k r =
     andthen (CALLBACK_NOCLEAR settings data k r) (\<lambda>r. Runs (r\<lparr>marks := (marks r)(k := None)\<rparr>))"

text \<open>The result of \<^verbatim>\<open>on_body\<close> is ignored.\<close>

definition call_on_body :: "'u http_parser_settings \<Rightarrow> string \<Rightarrow> 'u run \<Rightarrow> 'u run" where
  "call_on_body settings bytes r =
     (case on_body settings of None \<Rightarrow> r | Some f \<Rightarrow> r\<lparr>user := snd (f (parser r) bytes (user r))\<rparr>)"

section \<open>The status line of a response\<close>

text \<open>A new message: \<^verbatim>\<open>content_length = -1\<close> is the largest value of its type.\<close>

definition fresh_message :: "'u run \<Rightarrow> 'u run" where
  "fresh_message r = upd (\<lambda>p. p\<lparr>flags := {}, content_length := - 1\<rparr>) r"

text \<open>The label \<^verbatim>\<open>start_req_method_assign\<close>.\<close>

definition first_method :: "char \<Rightarrow> http_method option" where
  "first_method ch =
     (if ch = CHR ''C'' then Some HTTP_CONNECT
      else if ch = CHR ''D'' then Some HTTP_DELETE
      else if ch = CHR ''G'' then Some HTTP_GET
      else if ch = CHR ''H'' then Some HTTP_HEAD
      else if ch = CHR ''L'' then Some HTTP_LOCK
      else if ch = CHR ''M'' then Some HTTP_MKCOL
      else if ch = CHR ''N'' then Some HTTP_NOTIFY
      else if ch = CHR ''O'' then Some HTTP_OPTIONS
      else if ch = CHR ''P'' then Some HTTP_POST
      else if ch = CHR ''R'' then Some HTTP_REPORT
      else if ch = CHR ''S'' then Some HTTP_SUBSCRIBE
      else if ch = CHR ''T'' then Some HTTP_TRACE
      else if ch = CHR ''U'' then Some HTTP_UNLOCK
      else None)"

definition start_req_method_assign :: "char \<Rightarrow> 'u run \<Rightarrow> 'u flow" where
  "start_req_method_assign ch r =
     (let r = (upd (\<lambda>p. p\<lparr>pmethod := HTTP_DELETE\<rparr>) r)\<lparr>index := 1\<rparr> in
      case first_method ch of
        None \<Rightarrow> error r
      | Some m \<Rightarrow> goes s_req_method (upd (\<lambda>p. p\<lparr>pmethod := m\<rparr>) r))"

definition on_start_req_or_res :: "'u http_parser_settings \<Rightarrow> char \<Rightarrow> 'u run \<Rightarrow> 'u flow" where
  "on_start_req_or_res settings ch r =
     (if ch = CR \<or> ch = LF then Runs r
      else andthen (CALLBACK2 (on_message_begin settings) (fresh_message r)) (\<lambda>r.
        if ch = CHR ''H'' then goes s_res_or_resp_H r
        else start_req_method_assign ch (upd (\<lambda>p. p\<lparr>ptype := HTTP_REQUEST\<rparr>) r)))"

definition on_res_or_resp_H :: "char \<Rightarrow> 'u run \<Rightarrow> 'u flow" where
  "on_res_or_resp_H ch r =
     (if ch = CHR ''T'' then goes s_res_HT (upd (\<lambda>p. p\<lparr>ptype := HTTP_RESPONSE\<rparr>) r)
      else if ch \<noteq> CHR ''E'' then error r
      else goes s_req_method ((upd (\<lambda>p. p\<lparr>ptype := HTTP_REQUEST, pmethod := HTTP_HEAD\<rparr>) r)\<lparr>index := 2\<rparr>))"

definition on_start_res :: "'u http_parser_settings \<Rightarrow> char \<Rightarrow> 'u run \<Rightarrow> 'u flow" where
  "on_start_res settings ch r =
     andthen (CALLBACK2 (on_message_begin settings) (fresh_message r)) (\<lambda>r.
       if ch = CHR ''H'' then goes s_res_H r
       else if ch = CR \<or> ch = LF then Runs r
       else error r)"

text \<open>A state in which exactly one character is expected, which is only checked when strict.\<close>

definition expects :: "bool \<Rightarrow> char \<Rightarrow> state \<Rightarrow> char \<Rightarrow> 'u run \<Rightarrow> 'u flow" where
  "expects strict c next_state ch r = STRICT_CHECK strict (ch \<noteq> c) r (goes next_state r)"

definition on_first_http_major :: "state \<Rightarrow> char \<Rightarrow> 'u run \<Rightarrow> 'u flow" where
  "on_first_http_major next_state ch r =
     (if \<not> between (CHR ''1'') (CHR ''9'') ch then error r
      else goes next_state (upd (\<lambda>p. p\<lparr>http_major := digit_value ch\<rparr>) r))"

definition on_http_major :: "state \<Rightarrow> char \<Rightarrow> 'u run \<Rightarrow> 'u flow" where
  "on_http_major next_state ch r =
     (if ch = CHR ''.'' then goes next_state r
      else if \<not> digit ch then error r
      else
        let r = upd (\<lambda>p. p\<lparr>http_major := http_major p * 10 + digit_value ch\<rparr>) r
        in if 999 < http_major (parser r) then error r else Runs r)"

definition on_first_http_minor :: "state \<Rightarrow> char \<Rightarrow> 'u run \<Rightarrow> 'u flow" where
  "on_first_http_minor next_state ch r =
     (if \<not> digit ch then error r
      else goes next_state (upd (\<lambda>p. p\<lparr>http_minor := digit_value ch\<rparr>) r))"

definition http_minor_digit :: "char \<Rightarrow> 'u run \<Rightarrow> 'u flow" where
  "http_minor_digit ch r =
     (if \<not> digit ch then error r
      else
        let r = upd (\<lambda>p. p\<lparr>http_minor := http_minor p * 10 + digit_value ch\<rparr>) r
        in if 999 < http_minor (parser r) then error r else Runs r)"

definition on_res_http_minor :: "char \<Rightarrow> 'u run \<Rightarrow> 'u flow" where
  "on_res_http_minor ch r =
     (if ch = CHR '' '' then goes s_res_first_status_code r else http_minor_digit ch r)"

definition on_res_first_status_code :: "char \<Rightarrow> 'u run \<Rightarrow> 'u flow" where
  "on_res_first_status_code ch r =
     (if \<not> digit ch then (if ch = CHR '' '' then Runs r else error r)
      else goes s_res_status_code (upd (\<lambda>p. p\<lparr>status_code := digit_value ch\<rparr>) r))"

definition on_res_status_code :: "char \<Rightarrow> 'u run \<Rightarrow> 'u flow" where
  "on_res_status_code ch r =
     (if \<not> digit ch then
        (if ch = CHR '' '' then goes s_res_status r
         else if ch = CR then goes s_res_line_almost_done r
         else if ch = LF then goes s_header_field_start r
         else error r)
      else
        let r = upd (\<lambda>p. p\<lparr>status_code := status_code p * 10 + digit_value ch\<rparr>) r
        in if 999 < status_code (parser r) then error r else Runs r)"

definition on_res_status :: "char \<Rightarrow> 'u run \<Rightarrow> 'u flow" where
  "on_res_status ch r =
     (if ch = CR then goes s_res_line_almost_done r
      else if ch = LF then goes s_header_field_start r
      else Runs r)"

section \<open>The request line\<close>

definition on_start_req :: "'u http_parser_settings \<Rightarrow> char \<Rightarrow> 'u run \<Rightarrow> 'u flow" where
  "on_start_req settings ch r =
     (if ch = CR \<or> ch = LF then Runs r
      else andthen (CALLBACK2 (on_message_begin settings) (fresh_message r)) (\<lambda>r.
        if \<not> between (CHR ''A'') (CHR ''Z'') ch then error r
        else start_req_method_assign ch r))"

text \<open>A method whose name goes on differently from the one that was taken.  \<^const>\<open>None\<close> is the error.\<close>

definition other_method :: "http_method \<Rightarrow> nat \<Rightarrow> char \<Rightarrow> http_method option" where
  "other_method m i ch =
     (if m = HTTP_CONNECT then
        (if i = 1 \<and> ch = CHR ''H'' then Some HTTP_CHECKOUT
         else if i = 2 \<and> ch = CHR ''P'' then Some HTTP_COPY
         else Some m)
      else if m = HTTP_MKCOL then
        (if i = 1 \<and> ch = CHR ''O'' then Some HTTP_MOVE
         else if i = 1 \<and> ch = CHR ''E'' then Some HTTP_MERGE
         else if i = 1 \<and> ch = CHR ''-'' then Some HTTP_MSEARCH
         else if i = 2 \<and> ch = CHR ''A'' then Some HTTP_MKACTIVITY
         else Some m)
      else if i = 1 \<and> m = HTTP_POST \<and> ch = CHR ''R'' then Some HTTP_PROPFIND
      else if i = 1 \<and> m = HTTP_POST \<and> ch = CHR ''U'' then Some HTTP_PUT
      else if i = 2 \<and> m = HTTP_UNLOCK \<and> ch = CHR ''S'' then Some HTTP_UNSUBSCRIBE
      else if i = 4 \<and> m = HTTP_PROPFIND \<and> ch = CHR ''P'' then Some HTTP_PROPPATCH
      else None)"

text \<open>\<^verbatim>\<open>matcher[index]\<close> is the terminating zero at the length of the name, and outside of the array beyond.\<close>

definition on_req_method :: "char \<Rightarrow> 'u run \<Rightarrow> 'u flow" where
  "on_req_method ch r =
     (if ch = NUL then error r
      else
        let m = pmethod (parser r); matcher = method_strings m; i = index r in
        if length matcher < i then Faults Undefined
        else
          let c = (if i = length matcher then NUL else matcher ! i) in
          if ch = CHR '' '' \<and> c = NUL then goes s_req_spaces_before_url (r\<lparr>index := i + 1\<rparr>)
          else if ch = c then Runs (r\<lparr>index := i + 1\<rparr>)
          else
            case other_method m i ch of
              None \<Rightarrow> error r
            | Some m' \<Rightarrow> Runs ((upd (\<lambda>p. p\<lparr>pmethod := m'\<rparr>) r)\<lparr>index := i + 1\<rparr>))"

definition letter :: "char \<Rightarrow> bool" where
  "letter ch \<longleftrightarrow> between (CHR ''a'') (CHR ''z'') (LOWER ch)"

definition on_req_spaces_before_url :: "char \<Rightarrow> 'u run \<Rightarrow> 'u flow" where
  "on_req_spaces_before_url ch r =
     (if ch = CHR '' '' then Runs r
      else if ch = CHR ''/'' \<or> ch = CHR ''*'' then goes s_req_path (MARK Path (MARK Url r))
      else if letter ch then goes s_req_schema (MARK Url r)
      else error r)"

definition on_req_schema :: "char \<Rightarrow> 'u run \<Rightarrow> 'u flow" where
  "on_req_schema ch r =
     (if letter ch then Runs r
      else if ch = CHR '':'' then goes s_req_schema_slash r
      else if ch = CHR ''.'' then goes s_req_host r
      else if digit ch then goes s_req_host r
      else error r)"

definition on_req_host :: "'u http_parser_settings \<Rightarrow> string \<Rightarrow> char \<Rightarrow> 'u run \<Rightarrow> 'u flow" where
  "on_req_host settings data ch r =
     (if letter ch then Runs r
      else if digit ch \<or> ch = CHR ''.'' \<or> ch = CHR ''-'' then Runs r
      else if ch = CHR '':'' then goes s_req_port r
      else if ch = CHR ''/'' then goes s_req_path (MARK Path r)
      else if ch = CHR '' '' then andthen (CALLBACK settings data Url r) (goes s_req_http_start)
      else error r)"

definition on_req_port :: "'u http_parser_settings \<Rightarrow> string \<Rightarrow> char \<Rightarrow> 'u run \<Rightarrow> 'u flow" where
  "on_req_port settings data ch r =
     (if digit ch then Runs r
      else if ch = CHR ''/'' then goes s_req_path (MARK Path r)
      else if ch = CHR '' '' then andthen (CALLBACK settings data Url r) (goes s_req_http_start)
      else error r)"

text \<open>
  The ends of the URL that are common to the next states: \<open>last_cb\<close> is the callback that follows the one for the
  URL.  A line without a version is one of HTTP 0.9.
\<close>

definition http_0_9 :: "'u run \<Rightarrow> 'u run" where
  "http_0_9 r = upd (\<lambda>p. p\<lparr>http_major := 0, http_minor := 9\<rparr>) r"

definition url_ends :: "'u http_parser_settings \<Rightarrow> string \<Rightarrow> ('u run \<Rightarrow> 'u flow) \<Rightarrow> char \<Rightarrow> 'u run \<Rightarrow> 'u flow \<Rightarrow> 'u flow" where
  "url_ends settings data last_cb ch r otherwise =
     (let done = andthen (CALLBACK settings data Url r) last_cb in
      if ch = CHR '' '' then andthen done (goes s_req_http_start)
      else if ch = CR then andthen done (\<lambda>r. goes s_req_line_almost_done (http_0_9 r))
      else if ch = LF then andthen done (\<lambda>r. goes s_header_field_start (http_0_9 r))
      else otherwise)"

definition on_req_path :: "'u http_parser_settings \<Rightarrow> string \<Rightarrow> char \<Rightarrow> 'u run \<Rightarrow> 'u flow" where
  "on_req_path settings data ch r =
     (if url_char ch then Runs r
      else url_ends settings data (CALLBACK settings data Path) ch r
        (if ch = CHR ''?'' then andthen (CALLBACK settings data Path r) (goes s_req_query_string_start)
         else if ch = CHR ''#'' then andthen (CALLBACK settings data Path r) (goes s_req_fragment_start)
         else error r))"

definition on_req_query_string_start :: "'u http_parser_settings \<Rightarrow> string \<Rightarrow> char \<Rightarrow> 'u run \<Rightarrow> 'u flow" where
  "on_req_query_string_start settings data ch r =
     (if url_char ch then goes s_req_query_string (MARK Query_string r)
      else if ch = CHR ''?'' then Runs r
      else url_ends settings data Runs ch r
        (if ch = CHR ''#'' then goes s_req_fragment_start r else error r))"

definition on_req_query_string :: "'u http_parser_settings \<Rightarrow> string \<Rightarrow> char \<Rightarrow> 'u run \<Rightarrow> 'u flow" where
  "on_req_query_string settings data ch r =
     (if url_char ch then Runs r
      else if ch = CHR ''?'' then Runs r
      else url_ends settings data (CALLBACK settings data Query_string) ch r
        (if ch = CHR ''#'' then andthen (CALLBACK settings data Query_string r) (goes s_req_fragment_start)
         else error r))"

definition on_req_fragment_start :: "'u http_parser_settings \<Rightarrow> string \<Rightarrow> char \<Rightarrow> 'u run \<Rightarrow> 'u flow" where
  "on_req_fragment_start settings data ch r =
     (if url_char ch then goes s_req_fragment (MARK Fragment r)
      else url_ends settings data Runs ch r
        (if ch = CHR ''?'' then goes s_req_fragment (MARK Fragment r)
         else if ch = CHR ''#'' then Runs r
         else error r))"

definition on_req_fragment :: "'u http_parser_settings \<Rightarrow> string \<Rightarrow> char \<Rightarrow> 'u run \<Rightarrow> 'u flow" where
  "on_req_fragment settings data ch r =
     (if url_char ch then Runs r
      else url_ends settings data (CALLBACK settings data Fragment) ch r
        (if ch = CHR ''?'' \<or> ch = CHR ''#'' then Runs r else error r))"

definition on_req_http_start :: "char \<Rightarrow> 'u run \<Rightarrow> 'u flow" where
  "on_req_http_start ch r =
     (if ch = CHR ''H'' then goes s_req_http_H r else if ch = CHR '' '' then Runs r else error r)"

definition on_req_http_minor :: "char \<Rightarrow> 'u run \<Rightarrow> 'u flow" where
  "on_req_http_minor ch r =
     (if ch = CR then goes s_req_line_almost_done r
      else if ch = LF then goes s_header_field_start r
      else http_minor_digit ch r)"

definition on_req_line_almost_done :: "char \<Rightarrow> 'u run \<Rightarrow> 'u flow" where
  "on_req_line_almost_done ch r = (if ch \<noteq> LF then error r else goes s_header_field_start r)"

section \<open>Header lines\<close>

text \<open>\<^verbatim>\<open>NAME[index]\<close> of a constant, where \<open>index\<close> is at most its length.\<close>

definition c_at :: "string \<Rightarrow> nat \<Rightarrow> char" where
  "c_at s i = (if i < length s then s ! i else NUL)"

definition hgoes :: "header_states \<Rightarrow> 'u run \<Rightarrow> 'u run" where
  "hgoes h r = r\<lparr>hstate := h\<rparr>"

text \<open>One more character of a name that is being compared; \<open>whole\<close> is the state when it has matched.\<close>

definition matching :: "string \<Rightarrow> header_states \<Rightarrow> char \<Rightarrow> 'u run \<Rightarrow> 'u run" where
  "matching name whole c r =
     (let r = r\<lparr>index := index r + 1\<rparr> in
      if index r > length name \<or> c \<noteq> c_at name (index r) then hgoes h_general r
      else if index r = length name - 1 then hgoes whole r
      else r)"

definition field_state :: "char \<Rightarrow> header_states" where
  "field_state c =
     (if c = CHR ''c'' then h_C
      else if c = CHR ''p'' then h_matching_proxy_connection
      else if c = CHR ''t'' then h_matching_transfer_encoding
      else if c = CHR ''u'' then h_matching_upgrade
      else h_general)"

text \<open>The part of \<^verbatim>\<open>s_header_field\<close> for a character of a token.\<close>

definition header_field_char :: "char \<Rightarrow> char \<Rightarrow> 'u run \<Rightarrow> 'u flow" where
  "header_field_char c ch r =
     (case hstate r of
        h_general \<Rightarrow> Runs r
      | h_C \<Rightarrow> Runs (hgoes (if c = CHR ''o'' then h_CO else h_general) (r\<lparr>index := index r + 1\<rparr>))
      | h_CO \<Rightarrow> Runs (hgoes (if c = CHR ''n'' then h_CON else h_general) (r\<lparr>index := index r + 1\<rparr>))
      | h_CON \<Rightarrow> Runs (hgoes (if c = CHR ''n'' then h_matching_connection
                              else if c = CHR ''t'' then h_matching_content_length else h_general)
                            (r\<lparr>index := index r + 1\<rparr>))
      | h_matching_connection \<Rightarrow> Runs (matching CONNECTION h_connection c r)
      | h_matching_proxy_connection \<Rightarrow> Runs (matching PROXY_CONNECTION h_connection c r)
      | h_matching_content_length \<Rightarrow> Runs (matching CONTENT_LENGTH h_content_length c r)
      | h_matching_transfer_encoding \<Rightarrow> Runs (matching TRANSFER_ENCODING h_transfer_encoding c r)
      | h_matching_upgrade \<Rightarrow> Runs (matching UPGRADE h_upgrade c r)
      | h_connection \<Rightarrow> Runs (if ch \<noteq> CHR '' '' then hgoes h_general r else r)
      | h_content_length \<Rightarrow> Runs (if ch \<noteq> CHR '' '' then hgoes h_general r else r)
      | h_transfer_encoding \<Rightarrow> Runs (if ch \<noteq> CHR '' '' then hgoes h_general r else r)
      | h_upgrade \<Rightarrow> Runs (if ch \<noteq> CHR '' '' then hgoes h_general r else r)
      | _ \<Rightarrow> Faults ABORT)"

definition on_header_field :: "'u http_parser_settings \<Rightarrow> string \<Rightarrow> char \<Rightarrow> 'u run \<Rightarrow> 'u flow" where
  "on_header_field settings data ch r =
     (if TOKEN ch \<noteq> NUL then header_field_char (TOKEN ch) ch r
      else if ch = CHR '':'' then andthen (CALLBACK settings data Header_field r) (goes s_header_value_start)
      else if ch = CR then CALLBACK settings data Header_field (r\<lparr>cur := s_header_almost_done\<rparr>)
      else if ch = LF then andthen (CALLBACK settings data Header_field r) (goes s_header_field_start)
      else error r)"

text \<open>The first character of a value decides which values it can become.\<close>

definition value_state :: "char \<Rightarrow> 'u run \<Rightarrow> 'u flow" where
  "value_state ch r =
     (case hstate r of
        h_upgrade \<Rightarrow> Runs (hgoes h_general (upd (\<lambda>p. p\<lparr>flags := insert F_UPGRADE (flags p)\<rparr>) r))
      | h_transfer_encoding \<Rightarrow>
          Runs (hgoes (if LOWER ch = CHR ''c'' then h_matching_transfer_encoding_chunked else h_general) r)
      | h_content_length \<Rightarrow>
          if \<not> digit ch then error r
          else Runs (upd (\<lambda>p. p\<lparr>content_length := of_nat (digit_value ch)\<rparr>) r)
      | h_connection \<Rightarrow>
          Runs (hgoes (if LOWER ch = CHR ''k'' then h_matching_connection_keep_alive
                       else if LOWER ch = CHR ''c'' then h_matching_connection_close else h_general) r)
      | _ \<Rightarrow> Runs (hgoes h_general r))"

definition on_header_value_start :: "'u http_parser_settings \<Rightarrow> string \<Rightarrow> char \<Rightarrow> 'u run \<Rightarrow> 'u flow" where
  "on_header_value_start settings data ch r =
     (if ch = CHR '' '' then Runs r
      else
        let r = (MARK Header_value r)\<lparr>cur := s_header_value, index := 0\<rparr> in
        if ch = CR then
          andthen (CALLBACK settings data Header_value r) (\<lambda>r. goes s_header_almost_done (hgoes h_general r))
        else if ch = LF then andthen (CALLBACK settings data Header_value r) (goes s_header_field_start)
        else value_state ch r)"

text \<open>The label \<^verbatim>\<open>header_almost_done\<close>.\<close>

definition on_header_almost_done :: "bool \<Rightarrow> char \<Rightarrow> 'u run \<Rightarrow> 'u flow" where
  "on_header_almost_done strict ch r =
     STRICT_CHECK strict (ch \<noteq> LF) r
       (let r = r\<lparr>cur := s_header_field_start\<rparr> in
        case hstate r of
          h_connection_keep_alive \<Rightarrow> Runs (upd (\<lambda>p. p\<lparr>flags := insert F_CONNECTION_KEEP_ALIVE (flags p)\<rparr>) r)
        | h_connection_close \<Rightarrow> Runs (upd (\<lambda>p. p\<lparr>flags := insert F_CONNECTION_CLOSE (flags p)\<rparr>) r)
        | h_transfer_encoding_chunked \<Rightarrow> Runs (upd (\<lambda>p. p\<lparr>flags := insert F_CHUNKED (flags p)\<rparr>) r)
        | _ \<Rightarrow> Runs r)"

text \<open>A further character of a value; lengths are added up in 64 bits.\<close>

definition header_value_char :: "char \<Rightarrow> 'u run \<Rightarrow> 'u flow" where
  "header_value_char ch r =
     (let c = LOWER ch in
      case hstate r of
        h_general \<Rightarrow> Runs r
      | h_connection \<Rightarrow> Faults ABORT
      | h_transfer_encoding \<Rightarrow> Faults ABORT
      | h_content_length \<Rightarrow>
          if ch = CHR '' '' then Runs r
          else if \<not> digit ch then error r
          else Runs (upd (\<lambda>p. p\<lparr>content_length := content_length p * 10 + of_nat (digit_value ch)\<rparr>) r)
      | h_matching_transfer_encoding_chunked \<Rightarrow> Runs (matching CHUNKED h_transfer_encoding_chunked c r)
      | h_matching_connection_keep_alive \<Rightarrow> Runs (matching KEEP_ALIVE h_connection_keep_alive c r)
      | h_matching_connection_close \<Rightarrow> Runs (matching CLOSE h_connection_close c r)
      | h_transfer_encoding_chunked \<Rightarrow> Runs (if ch \<noteq> CHR '' '' then hgoes h_general r else r)
      | h_connection_keep_alive \<Rightarrow> Runs (if ch \<noteq> CHR '' '' then hgoes h_general r else r)
      | h_connection_close \<Rightarrow> Runs (if ch \<noteq> CHR '' '' then hgoes h_general r else r)
      | _ \<Rightarrow> Runs (hgoes h_general (r\<lparr>cur := s_header_value\<rparr>)))"

definition on_header_value :: "bool \<Rightarrow> 'u http_parser_settings \<Rightarrow> string \<Rightarrow> char \<Rightarrow> 'u run \<Rightarrow> 'u flow" where
  "on_header_value strict settings data ch r =
     (if ch = CR then andthen (CALLBACK settings data Header_value r) (goes s_header_almost_done)
      else if ch = LF then andthen (CALLBACK settings data Header_value r) (on_header_almost_done strict ch)
      else header_value_char ch r)"

section \<open>The end of the headers\<close>

definition message_done :: "bool \<Rightarrow> 'u http_parser_settings \<Rightarrow> 'u run \<Rightarrow> 'u flow" where
  "message_done strict settings r =
     andthen (CALLBACK2 (on_message_complete settings) r) (\<lambda>r. goes (NEW_MESSAGE strict (parser r)) r)"

text \<open>\<^verbatim>\<open>on_headers_complete\<close> answers 1 when there is no body; another number ends the call.\<close>

definition call_on_headers_complete :: "'u http_parser_settings \<Rightarrow> 'u run \<Rightarrow> 'u flow" where
  "call_on_headers_complete settings r =
     (case on_headers_complete settings of
        None \<Rightarrow> Runs r
      | Some f \<Rightarrow>
          (case f (parser r) (user r) of
             (rc, u) \<Rightarrow>
               if rc = 0 then Runs (r\<lparr>user := u\<rparr>)
               else if rc = 1 then Runs (upd (\<lambda>p. p\<lparr>flags := insert F_SKIPBODY (flags p)\<rparr>) (r\<lparr>user := u\<rparr>))
               else Returns (pos r) ((parser r)\<lparr>pstate := cur r\<rparr>) u))"

text \<open>What follows the headers.  The last branch is never taken, because the length is not negative.\<close>

definition body_follows :: "bool \<Rightarrow> 'u http_parser_settings \<Rightarrow> 'u run \<Rightarrow> 'u flow" where
  "body_follows strict settings r =
     (let p = parser r in
      if F_SKIPBODY \<in> flags p then message_done strict settings r
      else if F_CHUNKED \<in> flags p then goes s_chunk_size_start r
      else if content_length p = 0 then message_done strict settings r
      else if 0 < content_length p then goes s_body_identity r
      else if ptype p = HTTP_REQUEST \<or> http_should_keep_alive p then message_done strict settings r
      else goes s_body_identity_eof r)"

text \<open>The label \<^verbatim>\<open>headers_almost_done\<close>.  The return for another protocol does not save the state.\<close>

definition on_headers_almost_done :: "bool \<Rightarrow> 'u http_parser_settings \<Rightarrow> char \<Rightarrow> 'u run \<Rightarrow> 'u flow" where
  "on_headers_almost_done strict settings ch r =
     STRICT_CHECK strict (ch \<noteq> LF) r
       (if F_TRAILING \<in> flags (parser r) then message_done strict settings r
        else
          let r = r\<lparr>nread := 0\<rparr>;
              r = (if F_UPGRADE \<in> flags (parser r) \<or> pmethod (parser r) = HTTP_CONNECT
                   then upd (\<lambda>p. p\<lparr>upgrade := True\<rparr>) r else r)
          in andthen (call_on_headers_complete settings r) (\<lambda>r.
             if upgrade (parser r)
             then andthen (CALLBACK2 (on_message_complete settings) r) (\<lambda>r. Returns (pos r) (parser r) (user r))
             else body_follows strict settings r))"

definition on_header_field_start :: "bool \<Rightarrow> 'u http_parser_settings \<Rightarrow> char \<Rightarrow> 'u run \<Rightarrow> 'u flow" where
  "on_header_field_start strict settings ch r =
     (if ch = CR then goes s_headers_almost_done r
      else if ch = LF then on_headers_almost_done strict settings ch (r\<lparr>cur := s_headers_almost_done\<rparr>)
      else if TOKEN ch = NUL then error r
      else goes s_header_field (hgoes (field_state (TOKEN ch)) ((MARK Header_field r)\<lparr>index := 0\<rparr>)))"

section \<open>The body\<close>

text \<open>\<open>to_read\<close> bytes at once: \<^verbatim>\<open>p += to_read - 1\<close>, the loop adds one.\<close>

definition read_body :: "'u http_parser_settings \<Rightarrow> string \<Rightarrow> nat \<Rightarrow> 'u run \<Rightarrow> 'u run" where
  "read_body settings data to_read r =
     (let r = call_on_body settings (slice data (pos r) (pos r + to_read)) r
      in r\<lparr>pos := pos r + to_read - 1\<rparr>)"

definition on_body_identity :: "bool \<Rightarrow> 'u http_parser_settings \<Rightarrow> string \<Rightarrow> 'u run \<Rightarrow> 'u flow" where
  "on_body_identity strict settings data r =
     (let to_read = min (length data - pos r) (unat (content_length (parser r))) in
      if 0 < to_read then
        let r = read_body settings data to_read r;
            r = upd (\<lambda>p. p\<lparr>content_length := content_length p - of_nat to_read\<rparr>) r
        in if content_length (parser r) = 0 then message_done strict settings r else Runs r
      else Runs r)"

definition on_body_identity_eof :: "'u http_parser_settings \<Rightarrow> string \<Rightarrow> 'u run \<Rightarrow> 'u flow" where
  "on_body_identity_eof settings data r =
     (let to_read = length data - pos r in Runs (if 0 < to_read then read_body settings data to_read r else r))"

definition chunked :: "'u run \<Rightarrow> bool" where
  "chunked r \<longleftrightarrow> F_CHUNKED \<in> flags (parser r)"

definition on_chunk_size_start :: "char \<Rightarrow> 'u run \<Rightarrow> 'u flow" where
  "on_chunk_size_start ch r =
     assertion (nread r = 1) (assertion (chunked r)
       (let c = unhex_digit ch in
        if c = -1 then error r
        else goes s_chunk_size (upd (\<lambda>p. p\<lparr>content_length := of_int c\<rparr>) r)))"

definition on_chunk_size :: "char \<Rightarrow> 'u run \<Rightarrow> 'u flow" where
  "on_chunk_size ch r =
     assertion (chunked r)
       (if ch = CR then goes s_chunk_size_almost_done r
        else
          let c = unhex_digit ch in
          if c = -1 then (if ch = CHR '';'' \<or> ch = CHR '' '' then goes s_chunk_parameters r else error r)
          else Runs (upd (\<lambda>p. p\<lparr>content_length := content_length p * 16 + of_int c\<rparr>) r))"

definition on_chunk_parameters :: "char \<Rightarrow> 'u run \<Rightarrow> 'u flow" where
  "on_chunk_parameters ch r =
     assertion (chunked r) (if ch = CR then goes s_chunk_size_almost_done r else Runs r)"

definition on_chunk_size_almost_done :: "bool \<Rightarrow> char \<Rightarrow> 'u run \<Rightarrow> 'u flow" where
  "on_chunk_size_almost_done strict ch r =
     assertion (chunked r) (STRICT_CHECK strict (ch \<noteq> LF) r
       (let r = r\<lparr>nread := 0\<rparr> in
        if content_length (parser r) = 0
        then goes s_header_field_start (upd (\<lambda>p. p\<lparr>flags := insert F_TRAILING (flags p)\<rparr>) r)
        else goes s_chunk_data r))"

text \<open>
  Here the lengths are compared as signed numbers and the smaller is stored in a \<^verbatim>\<open>size_t\<close>.  A length with the
  highest bit set is negative when it is compared, and large when it is used: \<^verbatim>\<open>on_body\<close> is given
  that many bytes from \<^verbatim>\<open>p\<close> on, and it is added to \<^verbatim>\<open>p\<close>.  Both have a meaning only for a part
  of the data; no object is as large as half of the memory.
\<close>

definition part_of_data :: "string \<Rightarrow> 'u run \<Rightarrow> nat \<Rightarrow> bool" where
  "part_of_data data r n \<longleftrightarrow> n < 2 ^ 63 \<and> n \<le> length data - pos r"

definition on_chunk_data :: "'u http_parser_settings \<Rightarrow> string \<Rightarrow> 'u run \<Rightarrow> 'u flow" where
  "on_chunk_data settings data r =
     assertion (chunked r)
       (let to_read = word_of_int (min (int (length data - pos r)) (sint (content_length (parser r)))) :: 64 word in
        if 0 < to_read \<and> \<not> part_of_data data r (unat to_read) then Faults Undefined
        else
          let r = (if 0 < to_read then read_body settings data (unat to_read) r else r);
              r = (if to_read = content_length (parser r) then r\<lparr>cur := s_chunk_data_almost_done\<rparr> else r)
          in Runs (upd (\<lambda>p. p\<lparr>content_length := content_length p - to_read\<rparr>) r))"

definition on_chunk_data_almost_done :: "bool \<Rightarrow> char \<Rightarrow> 'u run \<Rightarrow> 'u flow" where
  "on_chunk_data_almost_done strict ch r = assertion (chunked r) (expects strict CR s_chunk_data_done ch r)"

definition on_chunk_data_done :: "bool \<Rightarrow> char \<Rightarrow> 'u run \<Rightarrow> 'u flow" where
  "on_chunk_data_done strict ch r = assertion (chunked r) (expects strict LF s_chunk_size_start ch r)"

section \<open>The function\<close>

text \<open>The \<^verbatim>\<open>switch\<close>.\<close>

definition on_state :: "bool \<Rightarrow> 'u http_parser_settings \<Rightarrow> string \<Rightarrow> char \<Rightarrow> 'u run \<Rightarrow> 'u flow" where
  "on_state strict settings data ch r =
     (case cur r of
        s_dead \<Rightarrow> error r
      | s_start_req_or_res \<Rightarrow> on_start_req_or_res settings ch r
      | s_res_or_resp_H \<Rightarrow> on_res_or_resp_H ch r
      | s_start_res \<Rightarrow> on_start_res settings ch r
      | s_res_H \<Rightarrow> expects strict (CHR ''T'') s_res_HT ch r
      | s_res_HT \<Rightarrow> expects strict (CHR ''T'') s_res_HTT ch r
      | s_res_HTT \<Rightarrow> expects strict (CHR ''P'') s_res_HTTP ch r
      | s_res_HTTP \<Rightarrow> expects strict (CHR ''/'') s_res_first_http_major ch r
      | s_res_first_http_major \<Rightarrow> on_first_http_major s_res_http_major ch r
      | s_res_http_major \<Rightarrow> on_http_major s_res_first_http_minor ch r
      | s_res_first_http_minor \<Rightarrow> on_first_http_minor s_res_http_minor ch r
      | s_res_http_minor \<Rightarrow> on_res_http_minor ch r
      | s_res_first_status_code \<Rightarrow> on_res_first_status_code ch r
      | s_res_status_code \<Rightarrow> on_res_status_code ch r
      | s_res_status \<Rightarrow> on_res_status ch r
      | s_res_line_almost_done \<Rightarrow> expects strict LF s_header_field_start ch r
      | s_start_req \<Rightarrow> on_start_req settings ch r
      | s_req_method \<Rightarrow> on_req_method ch r
      | s_req_spaces_before_url \<Rightarrow> on_req_spaces_before_url ch r
      | s_req_schema \<Rightarrow> on_req_schema ch r
      | s_req_schema_slash \<Rightarrow> expects strict (CHR ''/'') s_req_schema_slash_slash ch r
      | s_req_schema_slash_slash \<Rightarrow> expects strict (CHR ''/'') s_req_host ch r
      | s_req_host \<Rightarrow> on_req_host settings data ch r
      | s_req_port \<Rightarrow> on_req_port settings data ch r
      | s_req_path \<Rightarrow> on_req_path settings data ch r
      | s_req_query_string_start \<Rightarrow> on_req_query_string_start settings data ch r
      | s_req_query_string \<Rightarrow> on_req_query_string settings data ch r
      | s_req_fragment_start \<Rightarrow> on_req_fragment_start settings data ch r
      | s_req_fragment \<Rightarrow> on_req_fragment settings data ch r
      | s_req_http_start \<Rightarrow> on_req_http_start ch r
      | s_req_http_H \<Rightarrow> expects strict (CHR ''T'') s_req_http_HT ch r
      | s_req_http_HT \<Rightarrow> expects strict (CHR ''T'') s_req_http_HTT ch r
      | s_req_http_HTT \<Rightarrow> expects strict (CHR ''P'') s_req_http_HTTP ch r
      | s_req_http_HTTP \<Rightarrow> expects strict (CHR ''/'') s_req_first_http_major ch r
      | s_req_first_http_major \<Rightarrow> on_first_http_major s_req_http_major ch r
      | s_req_http_major \<Rightarrow> on_http_major s_req_first_http_minor ch r
      | s_req_first_http_minor \<Rightarrow> on_first_http_minor s_req_http_minor ch r
      | s_req_http_minor \<Rightarrow> on_req_http_minor ch r
      | s_req_line_almost_done \<Rightarrow> on_req_line_almost_done ch r
      | s_header_field_start \<Rightarrow> on_header_field_start strict settings ch r
      | s_header_field \<Rightarrow> on_header_field settings data ch r
      | s_header_value_start \<Rightarrow> on_header_value_start settings data ch r
      | s_header_value \<Rightarrow> on_header_value strict settings data ch r
      | s_header_almost_done \<Rightarrow> on_header_almost_done strict ch r
      | s_headers_almost_done \<Rightarrow> on_headers_almost_done strict settings ch r
      | s_body_identity \<Rightarrow> on_body_identity strict settings data r
      | s_body_identity_eof \<Rightarrow> on_body_identity_eof settings data r
      | s_chunk_size_start \<Rightarrow> on_chunk_size_start ch r
      | s_chunk_size \<Rightarrow> on_chunk_size ch r
      | s_chunk_parameters \<Rightarrow> on_chunk_parameters ch r
      | s_chunk_size_almost_done \<Rightarrow> on_chunk_size_almost_done strict ch r
      | s_chunk_data \<Rightarrow> on_chunk_data settings data r
      | s_chunk_data_almost_done \<Rightarrow> on_chunk_data_almost_done strict ch r
      | s_chunk_data_done \<Rightarrow> on_chunk_data_done strict ch r)"

text \<open>The body of the loop: the headers of a message are counted, then the state decides.\<close>

definition iteration :: "bool \<Rightarrow> 'u http_parser_settings \<Rightarrow> string \<Rightarrow> 'u run \<Rightarrow> 'u flow" where
  "iteration strict settings data r =
     (let r = (if PARSING_HEADER (cur r) then r\<lparr>nread := nread r + 1\<rparr> else r) in
      if PARSING_HEADER (cur r) \<and> HTTP_MAX_HEADER_SIZE < nread r then error r
      else on_state strict settings data (data ! pos r) r)"

section \<open>Chunks by their signed length\<close>

lemma sint_large: "sint (w :: 64 word) < 0 \<Longrightarrow> 2 ^ 63 \<le> unat w"
proof (rule ccontr)
  assume s: "sint w < 0" and "\<not> 2 ^ 63 \<le> unat w"
  define k where "k = int (unat w)"
  have "k < int (2 ^ 63)" using \<open>\<not> 2 ^ 63 \<le> unat w\<close> unfolding k_def by (simp only: of_nat_less_iff not_le)
  then have "0 \<le> k" "k < 2 ^ 63" "w = word_of_int k" by (simp_all add: k_def)
  then have "signed_take_bit 63 k = k" by (intro signed_take_bit_int_eq_self) auto
  then have "sint w = k" unfolding \<open>w = word_of_int k\<close> by (simp only: sint_sbintrunc') simp
  with s \<open>0 \<le> k\<close> show False by simp
qed

text \<open>So a length that is negative is the only one that is not of a part of the data.\<close>

lemma on_chunk_data_signed:
  "on_chunk_data settings data r =
     assertion (chunked r)
       (let to_read = min (int (length data - pos r)) (sint (content_length (parser r))) in
        if to_read < 0 then Faults Undefined
        else
          let n = nat to_read;
              r = (if 0 < n then read_body settings data n r else r);
              r = (if of_nat n = content_length (parser r) then r\<lparr>cur := s_chunk_data_almost_done\<rparr> else r)
          in Runs (upd (\<lambda>p. p\<lparr>content_length := content_length p - of_nat n\<rparr>) r))"
proof -
  let ?c = "content_length (parser r)"
  define m where "m = min (int (length data - pos r)) (sint ?c)"
  show ?thesis
  proof (cases "m < 0")
    case True
    then have c: "m = sint ?c" "sint ?c < 0" by (auto simp: m_def)
    then have w: "word_of_int m = ?c" by simp
    have "2 ^ 63 \<le> unat ?c" by (rule sint_large [OF c(2)])
    moreover from this have "0 < ?c" by (cases "?c = 0") (auto simp: word_gt_0)
    ultimately show ?thesis
      using True by (simp add: on_chunk_data_def m_def [symmetric] w part_of_data_def Let_def)
  next
    case False
    define n and w :: "64 word" where "n = nat m" and "w = word_of_int m"
    have m: "m < 2 ^ 63" using sint_lt [of ?c] by (simp add: m_def)
    have u: "unat w = n" using m False by (simp add: n_def w_def unat_eq_nat_uint uint_word_of_int)
    have "of_nat n = w" using False by (simp add: n_def w_def)
    moreover have "part_of_data data r n" using False m by (auto simp: part_of_data_def n_def m_def)
    moreover have "0 < w \<longleftrightarrow> 0 < n" using u by (metis unat_gt_0 word_gt_0)
    ultimately show ?thesis
      unfolding on_chunk_data_def m_def [symmetric] w_def [symmetric] using False by (simp only: u n_def [symmetric] Let_def) simp
  qed
qed

end
