(* ===== verification/HttpExec.thy ===== *)
theory HttpExec
  imports HttpParser
begin

text \<open>
  \<^verbatim>\<open>http_parser_execute\<close> as a whole: the case of no data, the marks the call begins with, the loop over the
  characters, and what is called and saved at the end.  The loop ends because no step goes back in the data.
\<close>

section \<open>What holds after a step\<close>

text \<open>\<open>A\<close> of the run that goes on, \<open>B\<close> of the values that are returned, \<open>E\<close> of a fault.\<close>

definition after :: "('u run \<Rightarrow> bool) \<Rightarrow> (nat \<Rightarrow> http_parser \<Rightarrow> 'u \<Rightarrow> bool) \<Rightarrow> (fault \<Rightarrow> bool) \<Rightarrow> 'u flow \<Rightarrow> bool" where
  "after A B E f = (case f of Runs r \<Rightarrow> A r | Returns n p u \<Rightarrow> B n p u | Faults e \<Rightarrow> E e)"

lemma after_simps [simp]:
  "after A B E (Runs r) = A r"
  "after A B E (Returns n p u) = B n p u"
  "after A B E (Faults e) = E e"
  by (simp_all add: after_def)

lemma after_andthen: "after A' B E f \<Longrightarrow> (\<And>r. A' r \<Longrightarrow> after A B E (g r)) \<Longrightarrow> after A B E (andthen f g)"
  by (cases f) auto

lemma after_mono: "after A B E f \<Longrightarrow> (\<And>r. A r \<Longrightarrow> A' r) \<Longrightarrow> (\<And>n p u. B n p u \<Longrightarrow> B' n p u) \<Longrightarrow> (\<And>e. E e \<Longrightarrow> E' e)
    \<Longrightarrow> after A' B' E' f"
  by (cases f) auto

lemmas macro_defs = goes_def error_def STRICT_CHECK_def expects_def assertion_def upd_def MARK_def hgoes_def

lemma after_CALLBACK2:
  assumes "\<And>u. A (r\<lparr>user := u\<rparr>)" "\<And>u. B (pos r) (parser r) u"
  shows "after A B E (CALLBACK2 cb r)"
  using assms(1)[of "user r"] assms by (auto simp: CALLBACK2_def split: option.split prod.split)

lemma after_CALLBACK:
  assumes "\<And>u. A (r\<lparr>user := u, marks := (marks r)(k := None)\<rparr>)" "\<And>u. B (pos r) (parser r) u"
  shows "after A B E (CALLBACK settings data k r)"
  using assms(1)[of "user r"] assms
  by (auto simp: CALLBACK_def CALLBACK_NOCLEAR_def split: option.split prod.split)

section \<open>The position\<close>

text \<open>A step that looks at one character leaves the position where it is, for the loop to add one.\<close>

abbreviation at :: "nat \<Rightarrow> 'u flow \<Rightarrow> bool" where
  "at i \<equiv> after (\<lambda>r. pos r = i) (\<lambda>n p u. n = i) (\<lambda>e. True)"

named_theorems at "steps that stay at their character"

lemma at_error [at]: "at (pos r) (error r)" by (simp add: error_def)

lemma at_goes [at]: "at (pos r) (goes st r)" by (simp add: goes_def)

lemma pos_simps [simp]: "pos (upd f r) = pos r" "pos (MARK k r) = pos r" "pos (hgoes h r) = pos r"
    "pos (fresh_message r) = pos r" "pos (http_0_9 r) = pos r" "pos (matching name w c r) = pos r"
    "pos (call_on_body settings bytes r) = pos r"
  by (simp_all add: upd_def MARK_def hgoes_def fresh_message_def http_0_9_def matching_def Let_def call_on_body_def
      split: option.split)

lemma at_Runs [at]: "pos r = i \<Longrightarrow> at i (Runs r)" by simp

lemma at_errors [at]: "pos r = i \<Longrightarrow> at i (error r)" "pos r = i \<Longrightarrow> at i (goes st r)"
  using at_error at_goes by blast+

lemma at_CALLBACK2 [at]: "pos r = i \<Longrightarrow> at i (CALLBACK2 cb r)"
  by (rule after_CALLBACK2) simp_all

lemma at_CALLBACK [at]: "pos r = i \<Longrightarrow> at i (CALLBACK settings data k r)"
  by (rule after_CALLBACK) simp_all

lemma at_andthen [at]: "at i f \<Longrightarrow> (\<And>r. pos r = i \<Longrightarrow> at i (g r)) \<Longrightarrow> at i (andthen f g)"
  by (rule after_andthen)

lemma at_STRICT_CHECK [at]: "pos r = i \<Longrightarrow> at i f \<Longrightarrow> at i (STRICT_CHECK strict b r f)"
  by (simp add: STRICT_CHECK_def error_def)

lemma at_assertion [at]: "at i f \<Longrightarrow> at i (assertion b f)"
  by (simp add: assertion_def)

lemma at_message_done [at]: "pos r = i \<Longrightarrow> at i (message_done strict settings r)"
  by (simp add: message_done_def at)

lemma at_call_on_headers_complete [at]: "pos r = i \<Longrightarrow> at i (call_on_headers_complete settings r)"
  by (auto simp: call_on_headers_complete_def split: option.split prod.split)

lemma at_body_follows [at]: "pos r = i \<Longrightarrow> at i (body_follows strict settings r)"
  by (simp add: body_follows_def Let_def at)

lemma at_start_req_method_assign [at]: "pos r = i \<Longrightarrow> at i (start_req_method_assign ch r)"
  by (auto simp: start_req_method_assign_def Let_def intro!: at split: option.split)

lemma at_url_ends [at]:
  "pos r = i \<Longrightarrow> at i otherwise \<Longrightarrow> (\<And>r. pos r = i \<Longrightarrow> at i (last_cb r)) \<Longrightarrow> at i (url_ends settings data last_cb ch r otherwise)"
  by (simp add: url_ends_def Let_def at)

lemma at_header_value_char [at]: "pos r = i \<Longrightarrow> at i (header_value_char ch r)"
  by (cases "hstate r") (simp_all add: header_value_char_def Let_def at)

lemma at_header_field_char [at]: "pos r = i \<Longrightarrow> at i (header_field_char c ch r)"
  by (cases "hstate r") (simp_all add: header_field_char_def Let_def at)

lemma at_value_state [at]: "pos r = i \<Longrightarrow> at i (value_state ch r)"
  by (cases "hstate r") (simp_all add: value_state_def Let_def at)

lemma at_on_header_almost_done [at]: "pos r = i \<Longrightarrow> at i (on_header_almost_done strict ch r)"
  by (cases "hstate r") (simp_all add: on_header_almost_done_def Let_def at)

lemma at_on_headers_almost_done [at]: "pos r = i \<Longrightarrow> at i (on_headers_almost_done strict settings ch r)"
  by (simp add: on_headers_almost_done_def Let_def at)

lemma at_on_req_method [at]: "pos r = i \<Longrightarrow> at i (on_req_method ch r)"
  by (auto simp: on_req_method_def Let_def intro!: at split: option.split)

lemma at_http_minor_digit [at]: "pos r = i \<Longrightarrow> at i (http_minor_digit ch r)"
  by (simp add: http_minor_digit_def Let_def at)

lemmas line_defs = on_start_req_or_res_def on_res_or_resp_H_def on_start_res_def expects_def on_first_http_major_def
  on_http_major_def on_first_http_minor_def on_res_http_minor_def on_res_first_status_code_def on_res_status_code_def
  on_res_status_def on_start_req_def on_req_spaces_before_url_def on_req_schema_def on_req_host_def on_req_port_def
  on_req_path_def on_req_query_string_start_def on_req_query_string_def on_req_fragment_start_def on_req_fragment_def
  on_req_http_start_def on_req_http_minor_def on_req_line_almost_done_def

lemmas field_defs = on_header_field_def on_header_value_start_def on_header_value_def on_header_field_start_def

lemmas chunk_defs = on_chunk_size_start_def on_chunk_size_def on_chunk_parameters_def on_chunk_size_almost_done_def
  on_chunk_data_almost_done_def on_chunk_data_done_def

text \<open>The states that read many bytes at once.\<close>

definition bulk :: "state \<Rightarrow> bool" where
  "bulk s \<longleftrightarrow> s \<in> {s_body_identity, s_body_identity_eof, s_chunk_data}"

lemma at_on_state: "\<not> bulk (cur r) \<Longrightarrow> pos r = i \<Longrightarrow> at i (on_state strict settings data ch r)"
  by (cases "cur r") (simp_all add: on_state_def bulk_def line_defs field_defs chunk_defs Let_def at)

section \<open>The loop\<close>

text \<open>A step ends inside the data.\<close>

abbreviation inside :: "string \<Rightarrow> nat \<Rightarrow> 'u flow \<Rightarrow> bool" where
  "inside data i \<equiv> after (\<lambda>r. i \<le> pos r \<and> pos r < length data) (\<lambda>n p u. i \<le> n \<and> n < length data) (\<lambda>e. True)"

lemma at_inside: "at i f \<Longrightarrow> i < length data \<Longrightarrow> inside data i f"
  by (erule after_mono) simp_all

lemma pos_read_body [simp]: "pos (read_body settings data n r) = pos r + n - 1"
  by (simp add: read_body_def Let_def)

lemma inside_message_done: "i \<le> pos r \<Longrightarrow> pos r < length data \<Longrightarrow> inside data i (message_done strict settings r)"
  by (rule after_mono [OF at_message_done [OF refl]]) simp_all

lemma inside_on_state: "pos r < length data \<Longrightarrow> inside data (pos r) (on_state strict settings data ch r)"
proof (cases "bulk (cur r)")
  case False
  assume "pos r < length data"
  then show ?thesis by (rule at_inside [OF at_on_state [OF False refl]])
next
  case True
  assume "pos r < length data"
  with True show ?thesis
    by (auto simp: bulk_def on_state_def on_body_identity_def on_body_identity_eof_def on_chunk_data_signed assertion_def Let_def
        intro!: inside_message_done split: if_splits)
qed

lemma inside_iteration: "pos r < length data \<Longrightarrow> inside data (pos r) (iteration strict settings data r)"
  using inside_on_state [of "r\<lparr>nread := nread r + 1\<rparr>" data] inside_on_state [of r data]
  by (simp add: iteration_def Let_def error_def)

lemma iteration_forward: "iteration strict settings data r = Runs r' \<Longrightarrow> pos r < length data \<Longrightarrow> pos r \<le> pos r' \<and> pos r' < length data"
  using inside_iteration [of r data strict settings] by simp

text \<open>The callbacks for what is still marked, then the state is saved; \<^verbatim>\<open>index\<close> and \<^verbatim>\<open>nread\<close> into a byte each.\<close>

definition save :: "'u run \<Rightarrow> http_parser" where
  "save r = (parser r)\<lparr>pstate := cur r, pheader_state := hstate r, pindex := index r mod 256, pnread := nread r mod 256\<rparr>"

definition finish :: "'u http_parser_settings \<Rightarrow> string \<Rightarrow> 'u run \<Rightarrow> 'u flow" where
  "finish settings data r =
     andthen (CALLBACK_NOCLEAR settings data Header_field r) (\<lambda>r.
     andthen (CALLBACK_NOCLEAR settings data Header_value r) (\<lambda>r.
     andthen (CALLBACK_NOCLEAR settings data Fragment r) (\<lambda>r.
     andthen (CALLBACK_NOCLEAR settings data Query_string r) (\<lambda>r.
     andthen (CALLBACK_NOCLEAR settings data Path r) (\<lambda>r.
     andthen (CALLBACK_NOCLEAR settings data Url r) (\<lambda>r.
       Returns (length data) (save r) (user r)))))))"

function loop :: "bool \<Rightarrow> 'u http_parser_settings \<Rightarrow> string \<Rightarrow> 'u run \<Rightarrow> 'u flow" where
  "loop strict settings data r =
     (if pos r < length data
      then andthen (iteration strict settings data r) (\<lambda>r. loop strict settings data (r\<lparr>pos := pos r + 1\<rparr>))
      else finish settings data r)"
  by pat_completeness auto
termination
  by (relation "measure (\<lambda>(strict, settings, data, r). length data - pos r)") (auto dest!: iteration_forward)

declare loop.simps [simp del]

text \<open>What the state says was being read when the last call ended goes on at the beginning of the data.\<close>

definition pending :: "state \<Rightarrow> data_cb \<Rightarrow> bool" where
  "pending s k =
     (case k of
        Header_field \<Rightarrow> s = s_header_field
      | Header_value \<Rightarrow> s = s_header_value
      | Fragment \<Rightarrow> s = s_req_fragment
      | Query_string \<Rightarrow> s = s_req_query_string
      | Path \<Rightarrow> s = s_req_path
      | Url \<Rightarrow>
          s \<in> {s_req_path, s_req_schema, s_req_schema_slash, s_req_schema_slash_slash, s_req_port, s_req_query_string_start,
            s_req_query_string, s_req_host, s_req_fragment_start, s_req_fragment})"

definition enter :: "http_parser \<Rightarrow> 'u \<Rightarrow> 'u run" where
  "enter p u =
     \<lparr>parser = p, cur = pstate p, hstate = pheader_state p, index = pindex p, nread = pnread p, pos = 0,
      marks = (\<lambda>k. if pending (pstate p) k then Some 0 else None), user = u\<rparr>"

text \<open>No data stands for the end of the connection.\<close>

definition at_eof :: "'u http_parser_settings \<Rightarrow> http_parser \<Rightarrow> 'u \<Rightarrow> 'u flow" where
  "at_eof settings p u =
     (if pstate p = s_body_identity_eof
      then andthen (CALLBACK2 (on_message_complete settings) (enter p u)) (\<lambda>r. Returns 0 (parser r) (user r))
      else if pstate p \<in> {s_dead, s_start_req_or_res, s_start_res, s_start_req} then Returns 0 p u
      else Returns 1 p u)"

definition http_parser_execute :: "bool \<Rightarrow> 'u http_parser_settings \<Rightarrow> string \<Rightarrow> http_parser \<Rightarrow> 'u \<Rightarrow> 'u flow" where
  "http_parser_execute strict settings data p u =
     (if data = [] then at_eof settings p u else loop strict settings data (enter p u))"

lemma loop_step: "pos r < length data \<Longrightarrow> loop strict settings data r =
    andthen (iteration strict settings data r) (\<lambda>r. loop strict settings data (r\<lparr>pos := pos r + 1\<rparr>))"
  by (simp add: loop.simps [of strict settings data r])

lemma loop_end: "\<not> pos r < length data \<Longrightarrow> loop strict settings data r = finish settings data r"
  by (simp add: loop.simps [of strict settings data r])

text \<open>Rule for a property that every step keeps.\<close>

lemma loop_keeps:
  assumes step: "\<And>r. I r \<Longrightarrow> pos r < length data \<Longrightarrow> after (\<lambda>r'. I (r'\<lparr>pos := pos r' + 1\<rparr>)) B E (iteration strict settings data r)"
    and stop: "\<And>r. I r \<Longrightarrow> \<not> pos r < length data \<Longrightarrow> after (\<lambda>r. True) B E (finish settings data r)"
    and start: "I r"
  shows "after (\<lambda>r. True) B E (loop strict settings data r)"
  using start
proof (induction "length data - pos r" arbitrary: r rule: less_induct)
  case less
  show ?case
  proof (cases "pos r < length data")
    case True
    have "after (\<lambda>r'. (I (r'\<lparr>pos := pos r' + 1\<rparr>)) \<and> pos r \<le> pos r') B E (iteration strict settings data r)"
      using step [OF less.prems True] inside_iteration [OF True, of strict settings] by (cases "iteration strict settings data r") auto
    with less True show ?thesis
      by (auto simp: loop_step elim!: after_andthen)
  next
    case False
    with stop [OF less.prems] show ?thesis by (simp add: loop_end)
  qed
qed

end
