(* ===== verification/HttpSound.thy ===== *)
theory HttpSound
  imports HttpExec
begin

text \<open>
  What holds of a parser between the calls of \<^verbatim>\<open>http_parser_execute\<close>, and of its variables between the
  characters: the marks that are set are those of the state, a name that is compared is shorter than the constant
  it is compared with, and chunks are only read when the flag says so.  No assertion of the parser fails.
\<close>

section \<open>The invariant\<close>

text \<open>What \<^verbatim>\<open>header_state\<close> and \<^verbatim>\<open>index\<close> can be.\<close>

definition scan_ok :: "state \<Rightarrow> header_states \<Rightarrow> nat \<Rightarrow> bool" where
  "scan_ok s h i =
     (if s = s_req_method then i \<le> 12
      else if s = s_header_field then
        (case h of
           h_general \<Rightarrow> True | h_C \<Rightarrow> i = 0 | h_CO \<Rightarrow> i = 1 | h_CON \<Rightarrow> i = 2
         | h_matching_connection \<Rightarrow> i < length CONNECTION - 1
         | h_matching_proxy_connection \<Rightarrow> i < length PROXY_CONNECTION - 1
         | h_matching_content_length \<Rightarrow> i < length CONTENT_LENGTH - 1
         | h_matching_transfer_encoding \<Rightarrow> i < length TRANSFER_ENCODING - 1
         | h_matching_upgrade \<Rightarrow> i < length UPGRADE - 1
         | h_connection \<Rightarrow> True | h_content_length \<Rightarrow> True | h_transfer_encoding \<Rightarrow> True | h_upgrade \<Rightarrow> True
         | _ \<Rightarrow> False)
      else if s = s_header_value then
        (case h of
           h_connection \<Rightarrow> False | h_transfer_encoding \<Rightarrow> False
         | h_matching_transfer_encoding_chunked \<Rightarrow> i < length CHUNKED - 1
         | h_matching_connection_keep_alive \<Rightarrow> i < length KEEP_ALIVE - 1
         | h_matching_connection_close \<Rightarrow> i < length CLOSE - 1
         | _ \<Rightarrow> True)
      else True)"

definition chunk_state :: "state \<Rightarrow> bool" where
  "chunk_state s \<longleftrightarrow> s \<in> {s_chunk_size_start, s_chunk_size, s_chunk_parameters, s_chunk_size_almost_done, s_chunk_data,
     s_chunk_data_almost_done, s_chunk_data_done}"

text \<open>Where nothing of the next header has been counted.\<close>

definition uncounted :: "state \<Rightarrow> bool" where
  "uncounted s \<longleftrightarrow> s \<in> {s_chunk_size_start, s_chunk_data, s_chunk_data_almost_done, s_chunk_data_done}"

definition sound :: "http_parser \<Rightarrow> bool" where
  "sound p \<longleftrightarrow>
     scan_ok (pstate p) (pheader_state p) (pindex p) \<and> pindex p < 256 \<and> pnread p < 256 \<and>
     (chunk_state (pstate p) \<longrightarrow> F_CHUNKED \<in> flags p) \<and> (uncounted (pstate p) \<longrightarrow> pnread p = 0)"

text \<open>A mark and whether it should be there.\<close>

definition fits :: "bool \<Rightarrow> nat \<Rightarrow> nat option \<Rightarrow> bool" where
  "fits pend i mark = (case mark of None \<Rightarrow> \<not> pend | Some m \<Rightarrow> pend \<and> m \<le> i)"

lemma fits_simps [simp]: "fits pend i None = (\<not> pend)" "fits pend i (Some m) = (pend \<and> m \<le> i)"
    "fits False i mark = (mark = None)"
  by (simp_all add: fits_def split: option.split)

lemma fits_mono: "fits pend i mark \<Longrightarrow> i \<le> j \<Longrightarrow> fits pend j mark"
  by (auto simp: fits_def split: option.splits)

definition matches :: "'u run \<Rightarrow> bool" where
  "matches r \<longleftrightarrow> (\<forall>k. fits (pending (cur r) k) (pos r) (marks r k))"

text \<open>What is kept in a byte of the structure.\<close>

definition bytes :: "'u run \<Rightarrow> bool" where
  "bytes r \<longleftrightarrow> index r < 256 \<and> pindex (parser r) < 256 \<and> pnread (parser r) < 256"

text \<open>\<open>n\<close> is what \<^verbatim>\<open>nread\<close> is in the states where nothing is counted.\<close>

definition good :: "nat \<Rightarrow> 'u run \<Rightarrow> bool" where
  "good n r \<longleftrightarrow>
     matches r \<and> bytes r \<and> scan_ok (cur r) (hstate r) (index r) \<and>
     (chunk_state (cur r) \<longrightarrow> F_CHUNKED \<in> flags (parser r)) \<and> (uncounted (cur r) \<longrightarrow> nread r = n)"

lemma all_data_cb: "(\<forall>k. P k) \<longleftrightarrow> P Header_field \<and> P Header_value \<and> P Fragment \<and> P Query_string \<and> P Path \<and> P Url"
  by (metis data_cb.exhaust)

lemma sound_init: "pindex p < 256 \<Longrightarrow> sound (http_parser_init t p)"
  by (auto simp: sound_def http_parser_init_def scan_ok_def chunk_state_def uncounted_def)

lemma good_enter: "sound p \<Longrightarrow> good 0 (enter p u)"
  by (simp add: sound_def good_def enter_def bytes_def matches_def)

lemma sound_save: "good 0 r \<Longrightarrow> sound (save r)"
  by (auto simp: sound_def good_def save_def bytes_def)

lemma good_next: "good n r \<Longrightarrow> good n (r\<lparr>pos := pos r + 1\<rparr>)"
  using fits_mono [of _ "pos r" _ "pos r + 1"] by (auto simp: good_def matches_def bytes_def)

section \<open>The steps keep it\<close>

abbreviation keeps :: "'u flow \<Rightarrow> bool" where
  "keeps \<equiv> after (good 0) (\<lambda>n p u. pindex p < 256 \<and> pnread p < 256) (\<lambda>e. e = Undefined)"

text \<open>The parts of the invariant, for the simplifier.\<close>

lemmas parts = good_def matches_def all_data_cb pending_def scan_ok_def chunk_state_def uncounted_def

lemma keeps_CALLBACK:
  "pindex (parser r) < 256 \<Longrightarrow> pnread (parser r) < 256 \<Longrightarrow> (\<And>u. keeps (g (r\<lparr>user := u, marks := (marks r)(k := None)\<rparr>)))
    \<Longrightarrow> keeps (andthen (CALLBACK settings data k r) g)"
  by (rule after_andthen [OF after_CALLBACK [where A = "\<lambda>r'. \<exists>u. r' = r\<lparr>user := u, marks := (marks r)(k := None)\<rparr>"]]) auto

lemma keeps_CALLBACK2:
  "pindex (parser r) < 256 \<Longrightarrow> pnread (parser r) < 256 \<Longrightarrow> (\<And>u. keeps (g (r\<lparr>user := u\<rparr>)))
    \<Longrightarrow> keeps (andthen (CALLBACK2 cb r) g)"
  by (rule after_andthen [OF after_CALLBACK2 [where A = "\<lambda>r'. \<exists>u. r' = r\<lparr>user := u\<rparr>"]]) auto

text \<open>The states in which nothing is compared and chunks are of no concern.\<close>

definition plain :: "state \<Rightarrow> bool" where
  "plain s \<longleftrightarrow> s \<notin> {s_header_field, s_header_value, s_req_method} \<and> \<not> chunk_state s"

lemma good_plain: "plain (cur r) \<Longrightarrow> good n r \<longleftrightarrow> matches r \<and> bytes r"
  by (auto simp: good_def plain_def scan_ok_def uncounted_def chunk_state_def)

text \<open>Nothing is pending in most of them.\<close>

definition idle :: "state \<Rightarrow> bool" where
  "idle s \<longleftrightarrow> plain s \<and> \<not> pending s Url"

lemma good_idle: "idle (cur r) \<Longrightarrow> good n r \<longleftrightarrow> marks r = (\<lambda>k. None) \<and> bytes r"
proof -
  assume idle: "idle (cur r)"
  have none: "\<not> pending (cur r) k" for k
    using idle by (cases k) (auto simp: idle_def plain_def pending_def)
  then have "matches r \<longleftrightarrow> marks r = (\<lambda>k. None)"
    by (auto simp: matches_def fun_eq_iff)
  with idle show ?thesis by (simp add: good_plain idle_def)
qed

lemma idle_states [simp]:
    "idle s_dead" "idle s_start_req_or_res" "idle s_res_or_resp_H" "idle s_start_res" "idle s_res_H" "idle s_res_HT"
    "idle s_res_HTT" "idle s_res_HTTP" "idle s_res_first_http_major" "idle s_res_http_major"
    "idle s_res_first_http_minor" "idle s_res_http_minor" "idle s_res_first_status_code" "idle s_res_status_code"
    "idle s_res_status" "idle s_res_line_almost_done" "idle s_start_req" "idle s_req_spaces_before_url"
    "idle s_req_http_start" "idle s_req_http_H" "idle s_req_http_HT" "idle s_req_http_HTT" "idle s_req_http_HTTP"
    "idle s_req_first_http_major" "idle s_req_http_major" "idle s_req_first_http_minor" "idle s_req_http_minor"
    "idle s_req_line_almost_done" "idle s_header_field_start" "idle s_header_value_start" "idle s_header_almost_done"
    "idle s_headers_almost_done" "idle s_body_identity" "idle s_body_identity_eof"
  by (simp_all add: idle_def plain_def pending_def chunk_state_def)

lemma bytes_update [simp]: "bytes (r\<lparr>cur := st\<rparr>) = bytes r" "bytes (r\<lparr>hstate := h\<rparr>) = bytes r"
    "bytes (r\<lparr>nread := n\<rparr>) = bytes r" "bytes (r\<lparr>pos := n\<rparr>) = bytes r" "bytes (r\<lparr>marks := ms\<rparr>) = bytes r"
    "bytes (r\<lparr>user := u\<rparr>) = bytes r"
    "bytes (r\<lparr>index := i\<rparr>) = (i < 256 \<and> pindex (parser r) < 256 \<and> pnread (parser r) < 256)"
    "bytes (r\<lparr>parser := p\<rparr>) = (index r < 256 \<and> pindex p < 256 \<and> pnread p < 256)"
  by (simp_all add: bytes_def)

lemma bytesD: "bytes r \<Longrightarrow> index r < 256" "bytes r \<Longrightarrow> pindex (parser r) < 256" "bytes r \<Longrightarrow> pnread (parser r) < 256"
  by (simp_all add: bytes_def)

lemma keeps_line:
  assumes "good n r" "cur r \<in> {s_dead, s_res_or_resp_H, s_res_H, s_res_HT, s_res_HTT, s_res_HTTP,
    s_res_first_http_major, s_res_http_major, s_res_first_http_minor, s_res_http_minor, s_res_first_status_code,
    s_res_status_code, s_res_status, s_res_line_almost_done, s_req_http_start, s_req_http_H, s_req_http_HT,
    s_req_http_HTT, s_req_http_HTTP, s_req_first_http_major, s_req_http_major, s_req_first_http_minor,
    s_req_http_minor, s_req_line_almost_done}"
  shows "keeps (on_state strict settings data ch r)"
proof -
  have "idle (cur r)"
    using assms(2) by auto
  with assms(1) have *: "marks r = (\<lambda>k. None)" "bytes r"
    by (auto simp: good_idle)
  have req: "marks r = (\<lambda>k. None) \<Longrightarrow> bytes r \<Longrightarrow> cur r = s_req_method \<Longrightarrow> index r \<le> 12 \<Longrightarrow> good 0 r" for r :: "'a run"
    by (auto simp: parts bytes_def)
  show ?thesis
    using assms(2) *
    by (auto simp: on_state_def line_defs http_minor_digit_def Let_def macro_defs good_idle bytesD intro!: req)
qed

lemma andthen_assoc: "andthen (andthen f g) h = andthen f (\<lambda>r. andthen (g r) h)"
  by (cases f) simp_all

lemma no_marks: "ms = (\<lambda>k. None) \<longleftrightarrow> ms Header_field = None \<and> ms Header_value = None \<and> ms Fragment = None \<and>
    ms Query_string = None \<and> ms Path = None \<and> ms Url = None"
  by (simp add: fun_eq_iff all_data_cb)


lemma good_req_method: "marks r = (\<lambda>k. None) \<Longrightarrow> bytes r \<Longrightarrow> cur r = s_req_method \<Longrightarrow> index r \<le> 12 \<Longrightarrow> good n r"
  by (auto simp: parts bytes_def)

lemma keeps_start:
  assumes "good n r" "cur r \<in> {s_start_req_or_res, s_start_res, s_start_req}"
  shows "keeps (on_state strict settings data ch r)"
proof -
  have "idle (cur r)"
    using assms(2) by auto
  with assms(1) have *: "marks r = (\<lambda>k. None)" "bytes r"
    by (auto simp: good_idle)
  show ?thesis
    using assms(2) *
    by (auto simp: on_state_def line_defs fresh_message_def start_req_method_assign_def Let_def macro_defs good_idle bytesD
        intro!: keeps_CALLBACK2 good_req_method split: option.split)
qed

lemma length_method: "length (method_strings m) \<le> 11"
  by (cases m) simp_all

lemma keeps_req_method:
  assumes "good n r" "cur r = s_req_method"
  shows "keeps (on_state strict settings data ch r)"
proof -
  from assms have *: "marks r = (\<lambda>k. None)" "bytes r"
    by (simp_all add: parts no_marks)
  have longer: "good 0 (r\<lparr>index := j\<rparr>)" "good 0 (r\<lparr>parser := (parser r)\<lparr>pmethod := m\<rparr>, index := j\<rparr>)"
      "good 0 (r\<lparr>index := j, cur := s_req_spaces_before_url\<rparr>)" if "j \<le> 12" for m j
    using that * assms(2) by (auto intro!: good_req_method simp: bytesD good_idle)
  show ?thesis
  proof (cases "length (method_strings (pmethod (parser r))) < index r")
    case True
    then show ?thesis using *(2) by (simp add: assms(2) on_state_def on_req_method_def Let_def error_def bytesD)
  next
    case False
    with length_method [of "pmethod (parser r)"] have "Suc (index r) \<le> 12" by simp
    with False *(2) show ?thesis
      by (simp only: assms(2) on_state_def on_req_method_def Let_def macro_defs state.case if_False)
        (auto simp: bytesD longer split: option.split)
  qed
qed

lemma url_plain: "pending s Url \<Longrightarrow> plain s"
  by (auto simp: pending_def plain_def chunk_state_def)

lemma plain_states [simp]: "plain s_req_path" "plain s_req_schema" "plain s_req_schema_slash" "plain s_req_schema_slash_slash"
    "plain s_req_port" "plain s_req_query_string_start" "plain s_req_query_string" "plain s_req_host"
    "plain s_req_fragment_start" "plain s_req_fragment"
  by (simp_all add: plain_def chunk_state_def)

lemmas url_targets = good_idle good_plain matches_def all_data_cb pending_def no_marks

lemma keeps_url_line:
  assumes "matches r" "bytes r"
    "cur r \<in> {s_req_spaces_before_url, s_req_schema, s_req_schema_slash, s_req_schema_slash_slash, s_req_host, s_req_port}"
  shows "keeps (on_state strict settings data ch r)"
  using assms
  by (auto simp: on_state_def line_defs Let_def macro_defs bytesD url_targets andthen_assoc
      intro!: keeps_CALLBACK)

lemma keeps_if: "(b \<Longrightarrow> keeps f) \<Longrightarrow> (\<not> b \<Longrightarrow> keeps g) \<Longrightarrow> keeps (if b then f else g)"
  by simp

lemma keeps_url_part:
  assumes "matches r" "bytes r"
    "cur r \<in> {s_req_path, s_req_query_string_start, s_req_query_string, s_req_fragment_start, s_req_fragment}"
  shows "keeps (on_state strict settings data ch r)"
  using assms
  by (auto simp: on_state_def line_defs url_ends_def http_0_9_def Let_def macro_defs bytesD url_targets andthen_assoc
      intro!: keeps_CALLBACK keeps_if split del: if_split)

section \<open>Header lines\<close>

lemma matches_update [simp]: "matches (r\<lparr>hstate := h\<rparr>) = matches r" "matches (r\<lparr>nread := n\<rparr>) = matches r"
    "matches (r\<lparr>index := i\<rparr>) = matches r" "matches (r\<lparr>parser := p\<rparr>) = matches r" "matches (r\<lparr>user := u\<rparr>) = matches r"
  by (simp_all add: matches_def)

lemma good_scanned: "cur r \<in> {s_header_field, s_header_value} \<Longrightarrow>
    good n r \<longleftrightarrow> matches r \<and> bytes r \<and> scan_ok (cur r) (hstate r) (index r)"
  by (auto simp: good_def chunk_state_def uncounted_def)

lemma matches_same [simp]: "cur r = st \<Longrightarrow> matches (r\<lparr>cur := st\<rparr>) = matches r"
  by (simp add: matches_def)

lemma name_lengths [simp]: "length CONNECTION = 10" "length PROXY_CONNECTION = 16" "length CONTENT_LENGTH = 14"
    "length TRANSFER_ENCODING = 17" "length UPGRADE = 7" "length CHUNKED = 7" "length KEEP_ALIVE = 10" "length CLOSE = 5"
  by (simp_all add: CONNECTION_def PROXY_CONNECTION_def CONTENT_LENGTH_def TRANSFER_ENCODING_def UPGRADE_def
    CHUNKED_def KEEP_ALIVE_def CLOSE_def)

lemma keeps_header_field_char: "good n r \<Longrightarrow> cur r = s_header_field \<Longrightarrow> keeps (header_field_char c ch r)"
  by (cases "hstate r")
    (auto simp: header_field_char_def good_scanned scan_ok_def matching_def macro_defs bytesD Let_def)

lemma keeps_header_field:
  assumes "good n r" "cur r = s_header_field"
  shows "keeps (on_state strict settings data ch r)"
proof -
  from assms have "bytes r" "matches r" by (auto simp: good_scanned)
  with keeps_header_field_char [OF assms] assms(2) show ?thesis
    by (auto simp: on_state_def on_header_field_def macro_defs bytesD url_targets intro!: keeps_CALLBACK keeps_if
        intro: after_CALLBACK split del: if_split)
qed

lemma keeps_header_value_char: "good n r \<Longrightarrow> cur r = s_header_value \<Longrightarrow> keeps (header_value_char ch r)"
  by (cases "hstate r")
    (auto simp: header_value_char_def good_scanned scan_ok_def matching_def macro_defs bytesD Let_def)

lemma keeps_header_almost_done:
  "marks r = (\<lambda>k. None) \<Longrightarrow> bytes r \<Longrightarrow> keeps (on_header_almost_done strict ch r)"
  by (cases "hstate r") (simp_all add: on_header_almost_done_def macro_defs Let_def good_idle bytesD)

lemma keeps_header_value:
  assumes "good n r" "cur r = s_header_value"
  shows "keeps (on_state strict settings data ch r)"
proof -
  from assms have "bytes r" "matches r" by (auto simp: good_scanned)
  with keeps_header_value_char [OF assms] assms(2) show ?thesis
    by (auto simp: on_state_def on_header_value_def goes_def bytesD url_targets
        intro!: keeps_CALLBACK keeps_if keeps_header_almost_done split del: if_split)
qed

lemma keeps_header_value_start:
  assumes "good n r" "cur r = s_header_value_start"
  shows "keeps (on_state strict settings data ch r)"
proof -
  from assms have *: "marks r = (\<lambda>k. None)" "bytes r" by (auto simp: good_idle)
  have "keeps (value_state ch (r\<lparr>marks := (marks r)(Header_value \<mapsto> pos r), cur := s_header_value, index := 0\<rparr>))"
    using * by (cases "hstate r")
      (auto simp: value_state_def macro_defs good_scanned scan_ok_def bytesD matches_def all_data_cb pending_def)
  with * assms(2) show ?thesis
    by (auto simp: on_state_def on_header_value_start_def macro_defs Let_def bytesD url_targets
        intro!: keeps_CALLBACK keeps_if split del: if_split)
qed

section \<open>The end of the headers and the body\<close>

lemma keeps_message_done:
  assumes "marks r = (\<lambda>k. None)" "bytes r"
  shows "keeps (message_done strict settings r)"
  using assms by (auto simp: message_done_def goes_def NEW_MESSAGE_def start_state_def bytesD intro!: keeps_CALLBACK2
      split: if_splits) (simp_all add: good_idle)

lemma good_chunk: "chunk_state (cur r) \<Longrightarrow> good n r \<longleftrightarrow>
    marks r = (\<lambda>k. None) \<and> bytes r \<and> F_CHUNKED \<in> flags (parser r) \<and> (uncounted (cur r) \<longrightarrow> nread r = n)"
  by (auto simp: good_def matches_def all_data_cb no_marks chunk_state_def pending_def scan_ok_def)

lemma chunk_states [simp]: "chunk_state s_chunk_size_start" "chunk_state s_chunk_size" "chunk_state s_chunk_parameters"
    "chunk_state s_chunk_size_almost_done" "chunk_state s_chunk_data" "chunk_state s_chunk_data_almost_done"
    "chunk_state s_chunk_data_done"
  by (simp_all add: chunk_state_def)

lemma keeps_body_follows:
  assumes "marks r = (\<lambda>k. None)" "bytes r" "nread r = 0"
  shows "keeps (body_follows strict settings r)"
  using assms by (auto simp: body_follows_def goes_def Let_def good_idle good_chunk keeps_message_done)

lemma keeps_headers_almost_done:
  assumes "marks r = (\<lambda>k. None)" "bytes r"
  shows "keeps (on_headers_almost_done strict settings ch r)"
proof -
  have hc: "after (\<lambda>r. marks r = (\<lambda>k. None) \<and> bytes r \<and> nread r = 0) (\<lambda>n p u. pindex p < 256 \<and> pnread p < 256)
      (\<lambda>e. e = Undefined) (call_on_headers_complete settings r')"
    if "marks r' = (\<lambda>k. None)" "bytes r'" "nread r' = 0" for r'
    using that by (auto simp: call_on_headers_complete_def macro_defs bytesD split: option.split prod.split)
  have up: "keeps (andthen (CALLBACK2 cb r') (\<lambda>r. Returns (pos r) (parser r) (user r)))" if "bytes r'" for cb r'
    using that by (auto intro!: keeps_CALLBACK2 simp: bytesD)
  show ?thesis
    using assms by (auto simp: on_headers_almost_done_def macro_defs Let_def bytesD up keeps_message_done keeps_body_follows
        intro!: after_andthen [OF hc])
qed

lemma keeps_chunk:
  assumes "good 0 (r\<lparr>nread := m\<rparr>)" "nread r = (if cur r = s_chunk_size_start then 1 else m)"
    "cur r \<in> {s_chunk_size_start, s_chunk_size, s_chunk_parameters, s_chunk_size_almost_done, s_chunk_data_almost_done,
      s_chunk_data_done}"
  shows "keeps (on_state strict settings data ch r)"
proof -
  from assms have "marks r = (\<lambda>k. None)" "bytes r" "F_CHUNKED \<in> flags (parser r)" "uncounted (cur r) \<longrightarrow> m = 0"
    by (auto simp: good_chunk)
  with assms(2,3) show ?thesis
    by (auto simp: on_state_def chunk_defs chunked_def macro_defs Let_def good_chunk good_idle bytesD uncounted_def)
qed

lemma read_body_simps [simp]: "marks (read_body settings data n r) = marks r" "bytes (read_body settings data n r) = bytes r"
    "parser (read_body settings data n r) = parser r" "cur (read_body settings data n r) = cur r"
    "nread (read_body settings data n r) = nread r"
  by (simp_all add: read_body_def call_on_body_def Let_def split: option.split)

lemma keeps_body:
  assumes "good 0 r" "bulk (cur r)"
  shows "keeps (on_state strict settings data ch r)"
proof -
  have *: "marks r = (\<lambda>k. None)" "bytes r"
    using assms by (auto simp: bulk_def good_idle good_chunk)
  show ?thesis
  proof (cases "cur r = s_chunk_data")
    case True
    with assms(1) have "F_CHUNKED \<in> flags (parser r)" "nread r = 0"
      by (auto simp: good_chunk uncounted_def)
    with True * show ?thesis
      by (auto simp: on_state_def on_chunk_data_signed chunked_def macro_defs Let_def good_chunk uncounted_def bytesD)
  next
    case False
    with assms(2) * show ?thesis
      by (auto simp: on_state_def on_body_identity_def on_body_identity_eof_def bulk_def Let_def upd_def good_idle bytesD
          intro!: keeps_message_done)
  qed
qed

section \<open>Every step, and the call\<close>

lemma good_count: "good n r \<Longrightarrow> \<not> uncounted (cur r) \<Longrightarrow> good 0 (r\<lparr>nread := m\<rparr>)"
  by (simp add: good_def)

lemma keeps_header_field_start:
  assumes "marks r = (\<lambda>k. None)" "bytes r"
  shows "keeps (on_header_field_start strict settings ch r)"
  using assms
  by (auto simp: on_header_field_start_def field_state_def macro_defs good_idle good_scanned matches_def all_data_cb
      pending_def scan_ok_def bytesD intro!: keeps_headers_almost_done)

lemma idle_matches: "marks r = (\<lambda>k. None) \<Longrightarrow> bytes r \<Longrightarrow> idle (cur r) \<Longrightarrow> matches r"
  using good_idle [of r 0] by (simp add: good_def)

lemma keeps_other:
  assumes "good n r" "\<not> chunk_state (cur r)" "\<not> bulk (cur r)"
  shows "keeps (on_state strict settings data ch r)"
  using assms keeps_line [OF assms(1)] keeps_start [OF assms(1)] keeps_req_method [OF assms(1)]
    keeps_url_line [of r] keeps_url_part [of r] keeps_header_field [OF assms(1)] keeps_header_value [OF assms(1)]
    keeps_header_value_start [OF assms(1)] keeps_headers_almost_done [of r strict settings ch]
    keeps_header_almost_done [of r strict ch] keeps_header_field_start [of r] idle_matches [of r]
  by (cases "cur r") (simp_all add: good_idle good_plain bulk_def on_state_def)

lemma keeps_iteration:
  assumes "good 0 r"
  shows "keeps (iteration strict settings data r)"
proof -
  have bytes: "bytes r" using assms by (simp add: good_def)
  let ?r = "r\<lparr>nread := nread r + 1\<rparr>"
  have "keeps (on_state strict settings data ch ?r)" if "PARSING_HEADER (cur r)" for ch
  proof (cases "chunk_state (cur r)")
    case True
    with that show ?thesis
      using assms by (intro keeps_chunk [where m = "if cur r = s_chunk_size_start then 0 else nread r + 1"])
        (auto simp: PARSING_HEADER_def chunk_state_def good_chunk uncounted_def)
  next
    case False
    with that assms show ?thesis
      by (intro keeps_other [of "nread r + 1"]) (auto simp: good_def PARSING_HEADER_def bulk_def uncounted_def chunk_state_def matches_def)
  qed
  moreover have "keeps (on_state strict settings data ch r)" if "\<not> PARSING_HEADER (cur r)" for ch
    using that assms keeps_body [OF assms] keeps_chunk [where r = r and m = 0]
    by (auto simp: PARSING_HEADER_def bulk_def good_chunk uncounted_def)
  ultimately show ?thesis
    using bytes by (auto simp: iteration_def Let_def error_def bytesD)
qed

text \<open>The callbacks for data all answer 0.\<close>

definition obedient :: "'u http_parser_settings \<Rightarrow> bool" where
  "obedient settings \<longleftrightarrow> (\<forall>k f p s u. on_data settings k = Some f \<longrightarrow> fst (f p s u) = 0)"

lemma sound_dead: "pstate p = s_dead \<Longrightarrow> pindex p < 256 \<Longrightarrow> pnread p < 256 \<Longrightarrow> sound p"
  by (simp add: sound_def scan_ok_def chunk_state_def uncounted_def)

text \<open>What a call may return: \<open>n\<close> of the data, and a parser that can be used again.\<close>

definition usable :: "'u http_parser_settings \<Rightarrow> string \<Rightarrow> nat \<Rightarrow> http_parser \<Rightarrow> bool" where
  "usable settings data n p \<longleftrightarrow> n \<le> length data \<and> (obedient settings \<longrightarrow> n = length data \<or> pstate p = s_dead \<longrightarrow> sound p)"

lemma after_conj: "after A B E f \<Longrightarrow> after A' B' E' f \<Longrightarrow>
    after (\<lambda>r. A r \<and> A' r) (\<lambda>n p u. B n p u \<and> B' n p u) (\<lambda>e. E e \<and> E' e) f"
  by (cases f) simp_all

lemma after_NOCLEAR:
  "after (\<lambda>r'. \<exists>u. r' = r\<lparr>user := u\<rparr>) (\<lambda>n p u. n = pos r \<and> \<not> obedient settings) E (CALLBACK_NOCLEAR settings data k r)"
proof -
  have "\<exists>u. r = r\<lparr>user := u\<rparr>" by (rule exI [of _ "user r"]) simp
  then show ?thesis
    by (auto simp: CALLBACK_NOCLEAR_def obedient_def split: option.split prod.split) (metis fst_conv)
qed

lemma finish_NOCLEAR:
  assumes "pos r = n" "\<And>u. after A (\<lambda>m p u. m = n \<and> (\<not> obedient settings \<or> Q p)) E (g (r\<lparr>user := u\<rparr>))"
  shows "after A (\<lambda>m p u. m = n \<and> (\<not> obedient settings \<or> Q p)) E (andthen (CALLBACK_NOCLEAR settings data k r) g)"
proof (rule after_andthen)
  show "after (\<lambda>r'. \<exists>u. r' = r\<lparr>user := u\<rparr>) (\<lambda>m p u. m = n \<and> (\<not> obedient settings \<or> Q p)) E
      (CALLBACK_NOCLEAR settings data k r)"
    by (rule after_mono [OF after_NOCLEAR]) (use assms(1) in auto)
qed (use assms(2) in auto)

lemma finish_saves:
  assumes "pos r = length data"
  shows "after (\<lambda>r. True) (\<lambda>m p u. m = length data \<and> (\<not> obedient settings \<or> p = save r)) E (finish settings data r)"
  unfolding finish_def using assms
  by (intro finish_NOCLEAR) (simp_all add: save_def)

lemma loop_usable:
  assumes "good 0 r" "pos r \<le> length data"
  shows "after (\<lambda>r. True) (\<lambda>n p u. usable settings data n p) (\<lambda>e. e = Undefined) (loop strict settings data r)"
proof (rule loop_keeps [where I = "\<lambda>r. good 0 r \<and> pos r \<le> length data"])
  fix r :: "'a run" assume r: "good 0 r \<and> pos r \<le> length data"
  { assume "pos r < length data"
    with r show "after (\<lambda>r'. good 0 (r'\<lparr>pos := pos r' + 1\<rparr>) \<and> pos (r'\<lparr>pos := pos r' + 1\<rparr>) \<le> length data)
        (\<lambda>n p u. usable settings data n p) (\<lambda>e. e = Undefined) (iteration strict settings data r)"
      using after_conj [OF keeps_iteration inside_iteration, of r data strict settings]
      by (auto elim!: after_mono dest: good_next simp: usable_def sound_dead) }
  { assume "\<not> pos r < length data"
    with r have "pos r = length data" by simp
    from finish_saves [OF this, of settings "\<lambda>e. e = Undefined"] show "after (\<lambda>r. True) (\<lambda>n p u. usable settings data n p)
        (\<lambda>e. e = Undefined) (finish settings data r)"
      by (rule after_mono) (use sound_save r in \<open>auto simp: usable_def\<close>) }
qed (use assms in auto)

lemma execute_usable:
  assumes "sound p" "data \<noteq> []"
  shows "after (\<lambda>r. False) (\<lambda>n p' u'. usable settings data n p') (\<lambda>e. e = Undefined)
    (http_parser_execute strict settings data p u)"
proof -
  have "after (\<lambda>r. False) (\<lambda>n p u. True) (\<lambda>e. True) (loop strict settings data r)" for r :: "'a run"
  proof -
    have "after (\<lambda>r. False) (\<lambda>n p u. True) (\<lambda>e. True) (finish settings data r)" for r :: "'a run"
      unfolding finish_def andthen_def by (auto split: flow.split)
    then show ?thesis
    proof (induction "length data - pos r" arbitrary: r rule: less_induct)
      case less
      show ?case
        using less inside_iteration [of r data strict settings]
        by (cases "iteration strict settings data r"; cases "pos r < length data") (auto simp: loop_step loop_end)
    qed
  qed
  moreover have "after (\<lambda>r. True) (\<lambda>n p u. usable settings data n p) (\<lambda>e. e = Undefined) (loop strict settings data (enter p u))"
    by (rule loop_usable [OF good_enter [OF assms(1)]]) (simp add: enter_def)
  ultimately have "after (\<lambda>r. False \<and> True) (\<lambda>n p u. True \<and> usable settings data n p) (\<lambda>e. True \<and> e = Undefined)
      (loop strict settings data (enter p u))"
    by (rule after_conj)
  with assms(2) show ?thesis
    by (simp add: http_parser_execute_def)
qed

text \<open>A parser whose fields are all zero.\<close>

definition blank_parser :: http_parser where
  "blank_parser =
     \<lparr>ptype = HTTP_REQUEST, flags = {}, pstate = s_dead, pheader_state = h_general, pindex = 0, pnread = 0, content_length = 0,
      http_major = 0, http_minor = 0, status_code = 0, pmethod = HTTP_DELETE, upgrade = False\<rparr>"


lemma sound_blank: "sound (http_parser_init t blank_parser)"
  by (rule sound_init) (simp add: blank_parser_def)


end
