(* ===== verification/HttpViews.thy ===== *)
theory HttpViews
  imports HttpSound
begin

text \<open>
  Callbacks that write down what they are given, and what of it does not depend on how the data of a connection is cut into
  pieces: a name, a value or a body may be given in several parts, so parts that follow each other are put together.
\<close>

section \<open>A recorder\<close>

text \<open>The fields that a program reads; the others belong to the parser.\<close>

definition public :: "http_parser \<Rightarrow> http_parser" where
  "public p = p\<lparr>pstate := s_dead, pheader_state := h_general, pindex := 0, pnread := 0\<rparr>"

datatype event = Begin http_parser | Data data_cb string | Headers http_parser | Body string | Complete http_parser

text \<open>\<open>answer\<close> is what \<^verbatim>\<open>on_headers_complete\<close> returns; the others return 0.\<close>

definition recorder :: "(http_parser \<Rightarrow> int) \<Rightarrow> event list http_parser_settings" where
  "recorder answer =
     \<lparr>on_message_begin = Some (\<lambda>p tr. (0, tr @ [Begin (public p)])),
      on_data = (\<lambda>k. Some (\<lambda>p s tr. (0, tr @ [Data k s]))),
      on_headers_complete = Some (\<lambda>p tr. (answer (public p), tr @ [Headers (public p)])),
      on_body = Some (\<lambda>p s tr. (0, tr @ [Body s])),
      on_message_complete = Some (\<lambda>p tr. (0, tr @ [Complete (public p)]))\<rparr>"

text \<open>The URL is given as a whole besides its parts, so there are three sequences in which something has an order.\<close>

datatype topic = Head | Parts | Whole

fun topic_of :: "data_cb \<Rightarrow> topic" where
  "topic_of Header_field = Head"
| "topic_of Header_value = Head"
| "topic_of Fragment = Parts"
| "topic_of Query_string = Parts"
| "topic_of Path = Parts"
| "topic_of Url = Whole"

text \<open>One event more, the latest first.\<close>

fun push :: "topic \<Rightarrow> event list \<Rightarrow> event \<Rightarrow> event list" where
  "push c v (Data k s) =
     (if topic_of k \<noteq> c then v
      else case v of Data k' s' # w \<Rightarrow> if k = k' then Data k (s' @ s) # w else Data k s # v | _ \<Rightarrow> Data k s # v)"
| "push c v (Body s) = (case v of Body s' # w \<Rightarrow> Body (s' @ s) # w | _ \<Rightarrow> Body s # v)"
| "push c v (Begin p) = Begin p # v"
| "push c v (Headers p) = Headers p # v"
| "push c v (Complete p) = Complete p # v"

definition view :: "topic \<Rightarrow> event list \<Rightarrow> event list" where
  "view c tr = foldl (push c) [] tr"

lemma view_append: "view c (tr @ tr') = foldl (push c) (view c tr) tr'"
  by (simp add: view_def)

lemma view_snoc [simp]: "view c (tr @ [e]) = push c (view c tr) e"
  by (simp add: view_append)

lemma push_Data: "push c (push c v (Data k s)) (Data k t) = push c v (Data k (s @ t))"
  by (cases v rule: list.exhaust) (auto split: event.split)

lemma push_Body: "push c (push c v (Body s)) (Body t) = push c v (Body (s @ t))"
  by (cases v rule: list.exhaust) (auto split: event.split)

section \<open>The steps with it\<close>

definition flush :: "string \<Rightarrow> data_cb \<Rightarrow> event list run \<Rightarrow> event list run" where
  "flush data k r =
     (case marks r k of
        None \<Rightarrow> r
      | Some m \<Rightarrow> r\<lparr>user := user r @ [Data k (slice data m (pos r))], marks := (marks r)(k := None)\<rparr>)"

definition note_event :: "event \<Rightarrow> event list run \<Rightarrow> event list run" where
  "note_event e r = r\<lparr>user := user r @ [e]\<rparr>"

lemma CALLBACK_recorder [simp]: "CALLBACK (recorder answer) data k r = Runs (flush data k r)"
proof -
  have "r\<lparr>marks := (marks r)(k := None)\<rparr> = r" if "marks r k = None"
    using that by (cases r) auto
  then show ?thesis
    by (auto simp: CALLBACK_def CALLBACK_NOCLEAR_def recorder_def flush_def split: option.split)
qed

lemma CALLBACK2_recorder [simp]:
  "CALLBACK2 (on_message_begin (recorder answer)) r = Runs (note_event (Begin (public (parser r))) r)"
  "CALLBACK2 (on_message_complete (recorder answer)) r = Runs (note_event (Complete (public (parser r))) r)"
  by (simp_all add: CALLBACK2_def recorder_def note_event_def)

lemma call_on_body_recorder [simp]: "call_on_body (recorder answer) s r = note_event (Body s) r"
  by (simp add: call_on_body_def recorder_def note_event_def)

lemma on_headers_complete_recorder [simp]:
  "call_on_headers_complete (recorder answer) r =
     (let r' = note_event (Headers (public (parser r))) r; rc = answer (public (parser r)) in
      if rc = 0 then Runs r'
      else if rc = 1 then Runs (upd (\<lambda>p. p\<lparr>flags := insert F_SKIPBODY (flags p)\<rparr>) r')
      else Returns (pos r) ((parser r)\<lparr>pstate := cur r\<rparr>) (user r'))"
  by (simp add: call_on_headers_complete_def recorder_def note_event_def Let_def)

text \<open>What is called when the data ends.\<close>

definition piece :: "string \<Rightarrow> event list run \<Rightarrow> data_cb \<Rightarrow> event list" where
  "piece data r k = (case marks r k of None \<Rightarrow> [] | Some m \<Rightarrow> [Data k (slice data m (pos r))])"

definition pieces :: "string \<Rightarrow> event list run \<Rightarrow> event list" where
  "pieces data r = piece data r Header_field @ piece data r Header_value @ piece data r Fragment @
     piece data r Query_string @ piece data r Path @ piece data r Url"

lemma NOCLEAR_recorder: "CALLBACK_NOCLEAR (recorder answer) data k r = Runs (r\<lparr>user := user r @ piece data r k\<rparr>)"
  by (simp add: CALLBACK_NOCLEAR_def recorder_def piece_def split: option.split)

lemma piece_user [simp]: "piece data (r\<lparr>user := u\<rparr>) k = piece data r k"
  by (simp add: piece_def split: option.split)

lemma finish_recorder: "finish (recorder answer) data r = Returns (length data) (save r) (user r @ pieces data r)"
  by (simp add: finish_def NOCLEAR_recorder pieces_def save_def)

lemma obedient_recorder: "obedient (recorder answer)"
  by (simp add: obedient_def recorder_def)

text \<open>What the view is when the pieces that are marked are counted in.\<close>

definition settled :: "topic \<Rightarrow> string \<Rightarrow> event list run \<Rightarrow> event list" where
  "settled c data r = view c (user r @ pieces data r)"

declare push.simps(1) [simp del]

lemma push_other [simp]: "topic_of k \<noteq> c \<Longrightarrow> push c v (Data k s) = v"
  by (simp add: push.simps)

definition put :: "topic \<Rightarrow> string \<Rightarrow> event list run \<Rightarrow> data_cb \<Rightarrow> event list \<Rightarrow> event list" where
  "put c data r k v = (case marks r k of None \<Rightarrow> v | Some m \<Rightarrow> push c v (Data k (slice data m (pos r))))"

lemma put_None: "marks r k = None \<Longrightarrow> put c data r k v = v"
  by (simp add: put_def)

lemma put_Some: "marks r k = Some m \<Longrightarrow> put c data r k v = push c v (Data k (slice data m (pos r)))"
  by (simp add: put_def)

lemma put_other: "topic_of k \<noteq> c \<Longrightarrow> put c data r k v = v"
  by (simp add: put_def split: option.split)

lemma fold_piece: "foldl (push c) v (piece data r k) = put c data r k v"
  by (simp add: piece_def put_def split: option.split)

lemma settled_put:
  "settled Head data r = put Head data r Header_value (put Head data r Header_field (view Head (user r)))"
  "settled Parts data r =
     put Parts data r Path (put Parts data r Query_string (put Parts data r Fragment (view Parts (user r))))"
  "settled Whole data r = put Whole data r Url (view Whole (user r))"
  by (simp_all add: settled_def view_append pieces_def fold_piece put_other)

lemma all_topics: "(\<forall>c. P c) \<longleftrightarrow> P Head \<and> P Parts \<and> P Whole"
  by (metis topic.exhaust)

text \<open>At most one mark of a topic.\<close>

definition alone :: "'u run \<Rightarrow> bool" where
  "alone r \<longleftrightarrow> (marks r Header_field = None \<or> marks r Header_value = None) \<and>
     (marks r Fragment = None \<or> marks r Query_string = None) \<and> (marks r Fragment = None \<or> marks r Path = None) \<and>
     (marks r Query_string = None \<or> marks r Path = None)"

lemma flush_None: "marks r k = None \<Longrightarrow> flush data k r = r"
  by (simp add: flush_def)

lemma flush_Some: "marks r k = Some m \<Longrightarrow>
    flush data k r = r\<lparr>user := user r @ [Data k (slice data m (pos r))], marks := (marks r)(k := None)\<rparr>"
  by (simp add: flush_def)

lemma put_update: "put c data (r\<lparr>user := u, marks := ms\<rparr>) k v = put c data (r\<lparr>marks := ms\<rparr>) k v"
    "j \<noteq> k \<Longrightarrow> put c data (r\<lparr>marks := (marks r)(j := x)\<rparr>) k v = put c data r k v"
    "put c data (r\<lparr>marks := (marks r)(k := None)\<rparr>) k v = v"
    "put c data (r\<lparr>marks := (marks r)(k \<mapsto> pos r)\<rparr>) k v = push c v (Data k [])"
  by (simp_all add: put_def slice_def split: option.split)

lemma settled_flush:
  assumes "alone r"
  shows "settled c data (flush data k r) = settled c data r"
proof (cases "marks r k")
  case None
  then show ?thesis by (simp add: flush_None)
next
  case (Some m)
  with assms show ?thesis
    by (cases c; cases k) (auto simp: alone_def settled_put flush_Some put_update put_None put_Some)
qed

text \<open>A mark that is set anew stands for an empty piece.\<close>

definition free :: "topic \<Rightarrow> 'u run \<Rightarrow> bool" where
  "free c r \<longleftrightarrow> (\<forall>k. topic_of k = c \<longrightarrow> marks r k = None)"

lemma free_iff: "free Head r \<longleftrightarrow> marks r Header_field = None \<and> marks r Header_value = None"
    "free Parts r \<longleftrightarrow> marks r Fragment = None \<and> marks r Query_string = None \<and> marks r Path = None"
    "free Whole r \<longleftrightarrow> marks r Url = None"
  by (auto simp: free_def all_data_cb)

lemma settled_MARK:
  "free (topic_of k) r \<Longrightarrow> settled c data (MARK k r) = push c (settled c data r) (Data k [])"
  by (cases c; cases k) (auto simp: free_iff settled_put MARK_def put_update put_None)

text \<open>Where nothing is marked, the view is that of the events.\<close>

lemma settled_none: "marks r = (\<lambda>k. None) \<Longrightarrow> settled c data r = view c (user r)"
  by (simp add: settled_def pieces_def piece_def)

text \<open>A further character belongs to the pieces that are marked.\<close>

lemma slice_Suc: "m \<le> i \<Longrightarrow> i < length data \<Longrightarrow> slice data m (Suc i) = slice data m i @ [data ! i]"
  by (simp add: slice_def Suc_diff_le take_Suc_conv_app_nth)

definition give :: "topic \<Rightarrow> 'u run \<Rightarrow> char \<Rightarrow> data_cb \<Rightarrow> event list \<Rightarrow> event list" where
  "give c r ch k v = (if marks r k = None then v else push c v (Data k [ch]))"

lemma give_same: "marks r k = None \<Longrightarrow> give c r ch k v = v" "topic_of k \<noteq> c \<Longrightarrow> give c r ch k v = v"
  by (simp_all add: give_def)

definition feed_char :: "topic \<Rightarrow> 'u run \<Rightarrow> char \<Rightarrow> event list \<Rightarrow> event list" where
  "feed_char c r ch v = give c r ch Url (give c r ch Path (give c r ch Query_string (give c r ch Fragment
     (give c r ch Header_value (give c r ch Header_field v)))))"

lemma settled_next:
  assumes "alone r" "\<And>k m. marks r k = Some m \<Longrightarrow> m \<le> pos r" "pos r < length data"
  shows "settled c data (r\<lparr>pos := pos r + 1\<rparr>) = feed_char c r (data ! pos r) (settled c data r)"
proof -
  have *: "put c data (r\<lparr>pos := pos r + 1\<rparr>) k v = give c r (data ! pos r) k (put c data r k v)" for c k v
    using assms(2) [of k] assms(3) by (auto simp: put_def give_def slice_Suc push_Data split: option.split)
  show ?thesis
    using assms(1) unfolding alone_def
    by (cases c; elim conjE disjE; simp add: settled_put feed_char_def put_None * [simplified] give_same)
qed

end
