(* ===== verification/HttpLike.thy ===== *)
theory HttpLike
  imports HttpViews
begin

text \<open>
  Two calls that have the same data before them, one of which has read more behind it: the steps of the one are the steps
  of the other.
\<close>

section \<open>The relation\<close>

definition frame :: "'u run \<Rightarrow> http_parser \<times> state \<times> header_states \<times> nat \<times> nat" where
  "frame r = (public (parser r), cur r, hstate r, index r, nread r mod 256)"

text \<open>What is counted is bounded, and neither call was begun by a dead parser.\<close>

definition limits :: "nat \<Rightarrow> nat \<Rightarrow> 'u run \<Rightarrow> 'u run \<Rightarrow> bool" where
  "limits n1 n2 r1 r2 \<longleftrightarrow> nread r1 \<le> n1 \<and> nread r2 \<le> n2 \<and> pstate (parser r1) \<noteq> s_dead \<and> pstate (parser r2) \<noteq> s_dead"

definition tracks :: "string \<Rightarrow> string \<Rightarrow> event list run \<Rightarrow> event list run \<Rightarrow> bool" where
  "tracks D1 D2 r1 r2 \<longleftrightarrow>
     drop (pos r1) D1 = drop (pos r2) D2 \<and> pos r1 \<le> length D1 \<and> pos r2 \<le> length D2 \<and> alone r1 \<and>
     (\<forall>k. marks r1 k = None \<longleftrightarrow> marks r2 k = None) \<and>
     (\<forall>k m. marks r1 k = Some m \<longrightarrow> m \<le> pos r1) \<and> (\<forall>k m. marks r2 k = Some m \<longrightarrow> m \<le> pos r2) \<and>
     (\<forall>c. settled c D1 r1 = settled c D2 r2)"

definition like :: "string \<Rightarrow> string \<Rightarrow> nat \<Rightarrow> nat \<Rightarrow> event list run \<Rightarrow> event list run \<Rightarrow> bool" where
  "like D1 D2 n1 n2 r1 r2 \<longleftrightarrow> frame r1 = frame r2 \<and> limits n1 n2 r1 r2 \<and> tracks D1 D2 r1 r2"

text \<open>The end of a step: what is pending when an error is found has been given by neither or by one of them.\<close>

fun alike_flow :: "string \<Rightarrow> string \<Rightarrow> nat \<Rightarrow> nat \<Rightarrow> event list flow \<Rightarrow> event list flow \<Rightarrow> bool" where
  "alike_flow D1 D2 n1 n2 (Runs r1) (Runs r2) = like D1 D2 n1 n2 r1 r2"
| "alike_flow D1 D2 n1 n2 (Returns m1 p1 u1) (Returns m2 p2 u2) =
     (m1 + length D2 = m2 + length D1 \<and> m1 < length D1 \<and> m2 < length D2 \<and> public p1 = public p2 \<and>
      (pstate p1 = s_dead \<longleftrightarrow> pstate p2 = s_dead) \<and> (pstate p1 \<noteq> s_dead \<longrightarrow> (\<forall>c. view c u1 = view c u2)))"
| "alike_flow D1 D2 n1 n2 (Faults e1) (Faults e2) = (e1 = e2)"
| "alike_flow D1 D2 n1 n2 f1 f2 = False"

lemma public_update [simp]:
  "public (p\<lparr>ptype := t\<rparr>) = (public p)\<lparr>ptype := t\<rparr>" "public (p\<lparr>flags := fl\<rparr>) = (public p)\<lparr>flags := fl\<rparr>"
  "public (p\<lparr>content_length := n\<rparr>) = (public p)\<lparr>content_length := n\<rparr>"
  "public (p\<lparr>http_major := i\<rparr>) = (public p)\<lparr>http_major := i\<rparr>" "public (p\<lparr>http_minor := i\<rparr>) = (public p)\<lparr>http_minor := i\<rparr>"
  "public (p\<lparr>status_code := i\<rparr>) = (public p)\<lparr>status_code := i\<rparr>" "public (p\<lparr>pmethod := m\<rparr>) = (public p)\<lparr>pmethod := m\<rparr>"
  "public (p\<lparr>upgrade := b\<rparr>) = (public p)\<lparr>upgrade := b\<rparr>" "public (p\<lparr>pstate := s\<rparr>) = public p"
  "public (public p) = public p"
  by (simp_all add: public_def)

lemma public_fields: "public p = public q \<Longrightarrow> ptype p = ptype q \<and> flags p = flags q \<and> content_length p = content_length q \<and>
    http_major p = http_major q \<and> http_minor p = http_minor q \<and> status_code p = status_code q \<and> pmethod p = pmethod q \<and>
    upgrade p = upgrade q"
  by (cases p; cases q) (auto simp: public_def)

lemma same_frame:
  assumes "frame r1 = frame r2"
  shows "cur r1 = cur r2" "hstate r1 = hstate r2" "index r1 = index r2" "public (parser r1) = public (parser r2)"
    "nread r1 mod 256 = nread r2 mod 256" "ptype (parser r1) = ptype (parser r2)" "flags (parser r1) = flags (parser r2)"
    "content_length (parser r1) = content_length (parser r2)" "http_major (parser r1) = http_major (parser r2)"
    "http_minor (parser r1) = http_minor (parser r2)" "status_code (parser r1) = status_code (parser r2)"
    "pmethod (parser r1) = pmethod (parser r2)" "upgrade (parser r1) = upgrade (parser r2)"
  using assms public_fields [of "parser r1" "parser r2"] by (simp_all add: frame_def)

text \<open>It is only about the marks, the positions and what was recorded.\<close>

lemma settled_same: "marks r' = marks r \<Longrightarrow> pos r' = pos r \<Longrightarrow> user r' = user r \<Longrightarrow> settled c data r' = settled c data r"
  by (simp add: settled_def pieces_def piece_def cong: option.case_cong)

lemma tracks_same:
  assumes "marks r1' = marks r1" "pos r1' = pos r1" "user r1' = user r1"
    "marks r2' = marks r2" "pos r2' = pos r2" "user r2' = user r2"
  shows "tracks D1 D2 r1' r2' = tracks D1 D2 r1 r2"
  using assms settled_same [of r1' r1] settled_same [of r2' r2] by (simp add: tracks_def alone_def)

lemma tracks_update [simp]:
  "tracks D1 D2 (r1\<lparr>parser := p1\<rparr>) r2 = tracks D1 D2 r1 r2" "tracks D1 D2 r1 (r2\<lparr>parser := p2\<rparr>) = tracks D1 D2 r1 r2"
  "tracks D1 D2 (r1\<lparr>cur := s1\<rparr>) r2 = tracks D1 D2 r1 r2" "tracks D1 D2 r1 (r2\<lparr>cur := s2\<rparr>) = tracks D1 D2 r1 r2"
  "tracks D1 D2 (r1\<lparr>hstate := h1\<rparr>) r2 = tracks D1 D2 r1 r2" "tracks D1 D2 r1 (r2\<lparr>hstate := h2\<rparr>) = tracks D1 D2 r1 r2"
  "tracks D1 D2 (r1\<lparr>index := i1\<rparr>) r2 = tracks D1 D2 r1 r2" "tracks D1 D2 r1 (r2\<lparr>index := i2\<rparr>) = tracks D1 D2 r1 r2"
  "tracks D1 D2 (r1\<lparr>nread := i1\<rparr>) r2 = tracks D1 D2 r1 r2" "tracks D1 D2 r1 (r2\<lparr>nread := i2\<rparr>) = tracks D1 D2 r1 r2"
  by (rule tracks_same; simp)+

lemma flush_fields [simp]: "parser (flush data k r) = parser r" "cur (flush data k r) = cur r" "pos (flush data k r) = pos r"
    "hstate (flush data k r) = hstate r" "index (flush data k r) = index r" "nread (flush data k r) = nread r"
  by (simp_all add: flush_def split: option.split)

lemma marks_flush: "marks (flush data k r) = (marks r)(k := None)"
  by (cases "marks r k") (auto simp: flush_None flush_Some)

lemma alone_less: "alone r \<Longrightarrow> (\<And>j. marks r' j = None \<or> marks r' j = marks r j) \<Longrightarrow> alone r'"
  unfolding alone_def by metis

lemma tracks_flush: "tracks D1 D2 r1 r2 \<Longrightarrow> tracks D1 D2 (flush D1 k r1) (flush D2 k r2)"
proof -
  assume tracks: "tracks D1 D2 r1 r2"
  then have "alone r1" by (simp add: tracks_def)
  moreover from this tracks have "alone r2" by (simp add: tracks_def alone_def)
  moreover from \<open>alone r1\<close> have "alone (flush D1 k r1)"
    by (rule alone_less) (simp add: marks_flush)
  ultimately show ?thesis
    using tracks by (simp add: tracks_def settled_flush marks_flush)
qed

lemma tracks_MARK:
  "tracks D1 D2 r1 r2 \<Longrightarrow> free (topic_of k) r1 \<Longrightarrow> tracks D1 D2 (MARK k r1) (MARK k r2)"
proof -
  assume tracks: "tracks D1 D2 r1 r2" and free: "free (topic_of k) r1"
  then have "free (topic_of k) r2"
    by (auto simp: tracks_def free_def)
  with tracks free have "settled c D1 (MARK k r1) = settled c D2 (MARK k r2)" for c
    by (simp add: settled_MARK tracks_def)
  with tracks free show ?thesis
    by (cases k) (auto simp: tracks_def MARK_def alone_def free_iff)
qed

text \<open>Where nothing is marked the views are those of the events.\<close>

lemma tracks_none: "marks r1 = (\<lambda>k. None) \<Longrightarrow> tracks D1 D2 r1 r2 \<longleftrightarrow>
    drop (pos r1) D1 = drop (pos r2) D2 \<and> pos r1 \<le> length D1 \<and> pos r2 \<le> length D2 \<and> marks r2 = (\<lambda>k. None) \<and>
    (\<forall>c. view c (user r1) = view c (user r2))"
  by (auto simp: tracks_def alone_def settled_none fun_eq_iff)

lemma tracks_event: "marks r1 = (\<lambda>k. None) \<Longrightarrow> tracks D1 D2 r1 r2 \<Longrightarrow> tracks D1 D2 (note_event e r1) (note_event e r2)"
  by (simp add: tracks_none note_event_def)

lemma event_fields [simp]: "parser (note_event e r) = parser r" "cur (note_event e r) = cur r" "pos (note_event e r) = pos r"
    "hstate (note_event e r) = hstate r" "index (note_event e r) = index r" "nread (note_event e r) = nread r"
    "marks (note_event e r) = marks r"
  by (simp_all add: note_event_def)

lemma MARK_fields [simp]: "parser (MARK k r) = parser r" "cur (MARK k r) = cur r"
    "hstate (MARK k r) = hstate r" "index (MARK k r) = index r" "nread (MARK k r) = nread r"
  by (simp_all add: MARK_def)

section \<open>The steps\<close>

lemma tracks_pos: "tracks D1 D2 r1 r2 \<Longrightarrow> pos r1 + length D2 = pos r2 + length D1"
  unfolding tracks_def by (metis add.commute add_diff_inverse_nat length_drop not_less diff_add_inverse2 add.assoc le_add_diff_inverse)

lemma tracks_less: "tracks D1 D2 r1 r2 \<Longrightarrow> pos r1 < length D1 \<Longrightarrow> pos r2 < length D2"
  using tracks_pos [of D1 D2 r1 r2] by simp

text \<open>What is known of the two at the beginning of a step, for the simplifier.\<close>

lemma like_known:
  assumes "like D1 D2 n1 n2 r1 r2"
  shows "frame r1 = frame r2" "tracks D1 D2 r1 r2" "nread r1 \<le> n1" "nread r2 \<le> n2" "pstate (parser r1) \<noteq> s_dead"
    "pstate (parser r2) \<noteq> s_dead" "pos r1 + length D2 = pos r2 + length D1"
  using assms tracks_pos [of D1 D2 r1 r2] by (auto simp: like_def limits_def)

lemma like_error:
  assumes "like D1 D2 n1 n2 r1 r2" "pos r1 < length D1"
  shows "alike_flow D1 D2 n1 n2 (error r1) (error r2)"
  using like_known [OF assms(1)] same_frame [OF like_known(1) [OF assms(1)]] assms(2) tracks_less [of D1 D2 r1 r2]
  by (simp add: error_def)

lemma like_if: "b1 = b2 \<Longrightarrow> (b2 \<Longrightarrow> alike_flow D1 D2 n1 n2 f1 f2) \<Longrightarrow> (\<not> b2 \<Longrightarrow> alike_flow D1 D2 n1 n2 g1 g2)
    \<Longrightarrow> alike_flow D1 D2 n1 n2 (if b1 then f1 else g1) (if b2 then f2 else g2)"
  by simp

lemma like_when: "b1 = b2 \<Longrightarrow> like D1 D2 n1 n2 s1 s2 \<Longrightarrow> like D1 D2 n1 n2 t1 t2
    \<Longrightarrow> like D1 D2 n1 n2 (if b1 then s1 else t1) (if b2 then s2 else t2)"
  by simp

text \<open>The macros.\<close>

lemma like_cur: "like D1 D2 n1 n2 r1 r2 \<Longrightarrow> like D1 D2 n1 n2 (r1\<lparr>cur := st\<rparr>) (r2\<lparr>cur := st\<rparr>)"
  by (simp add: like_def frame_def limits_def)

lemma like_hgoes: "like D1 D2 n1 n2 r1 r2 \<Longrightarrow> like D1 D2 n1 n2 (hgoes h r1) (hgoes h r2)"
  by (simp add: like_def frame_def limits_def hgoes_def)

lemma like_index: "like D1 D2 n1 n2 r1 r2 \<Longrightarrow> i1 = i2 \<Longrightarrow> like D1 D2 n1 n2 (r1\<lparr>index := i1\<rparr>) (r2\<lparr>index := i2\<rparr>)"
  by (simp add: like_def frame_def limits_def)

lemma like_reset: "like D1 D2 n1 n2 r1 r2 \<Longrightarrow> like D1 D2 n1 n2 (r1\<lparr>nread := 0\<rparr>) (r2\<lparr>nread := 0\<rparr>)"
  by (simp add: like_def frame_def limits_def)

lemma like_upd: "like D1 D2 n1 n2 r1 r2 \<Longrightarrow> public (f (parser r1)) = public (f (parser r2)) \<Longrightarrow> (\<And>p. pstate (f p) = pstate p)
    \<Longrightarrow> like D1 D2 n1 n2 (upd f r1) (upd f r2)"
  by (simp add: like_def frame_def limits_def upd_def)

lemma like_MARK: "like D1 D2 n1 n2 r1 r2 \<Longrightarrow> free (topic_of k) r1 \<Longrightarrow> like D1 D2 n1 n2 (MARK k r1) (MARK k r2)"
  by (simp add: like_def frame_def limits_def tracks_MARK)

lemma like_flush: "like D1 D2 n1 n2 r1 r2 \<Longrightarrow> like D1 D2 n1 n2 (flush D1 k r1) (flush D2 k r2)"
  by (simp add: like_def frame_def limits_def tracks_flush)

lemma like_event: "like D1 D2 n1 n2 r1 r2 \<Longrightarrow> marks r1 = (\<lambda>k. None) \<Longrightarrow> e1 = e2
    \<Longrightarrow> like D1 D2 n1 n2 (note_event e1 r1) (note_event e2 r2)"
  by (simp add: like_def frame_def limits_def tracks_event)

lemma like_goes: "like D1 D2 n1 n2 r1 r2 \<Longrightarrow> alike_flow D1 D2 n1 n2 (goes st r1) (goes st r2)"
  by (simp add: goes_def like_cur)

lemma like_Runs: "like D1 D2 n1 n2 r1 r2 \<Longrightarrow> alike_flow D1 D2 n1 n2 (Runs r1) (Runs r2)"
  by simp

lemma like_strict: "like D1 D2 n1 n2 r1 r2 \<Longrightarrow> pos r1 < length D1 \<Longrightarrow> alike_flow D1 D2 n1 n2 f1 f2
    \<Longrightarrow> alike_flow D1 D2 n1 n2 (STRICT_CHECK strict b r1 f1) (STRICT_CHECK strict b r2 f2)"
  by (simp add: STRICT_CHECK_def like_error)

lemma upd_fields [simp]: "parser (upd f r) = f (parser r)" "cur (upd f r) = cur r" "hstate (upd f r) = hstate r"
    "index (upd f r) = index r" "nread (upd f r) = nread r" "marks (upd f r) = marks r" "user (upd f r) = user r"
  by (simp_all add: upd_def)

lemma hgoes_fields [simp]: "parser (hgoes h r) = parser r" "cur (hgoes h r) = cur r" "hstate (hgoes h r) = h"
    "index (hgoes h r) = index r" "nread (hgoes h r) = nread r" "marks (hgoes h r) = marks r"
  by (simp_all add: hgoes_def)

lemmas like_rules = like_if like_error like_cur like_hgoes like_index like_reset like_upd like_MARK like_flush like_event
  like_goes like_strict

lemma like_line:
  assumes like: "like D1 D2 n1 n2 r1 r2" and "pos r1 < length D1"
    "cur r2 \<in> {s_dead, s_res_or_resp_H, s_res_H, s_res_HT, s_res_HTT, s_res_HTTP,
    s_res_first_http_major, s_res_http_major, s_res_first_http_minor, s_res_http_minor, s_res_first_status_code,
    s_res_status_code, s_res_status, s_res_line_almost_done, s_req_http_start, s_req_http_H, s_req_http_HT,
    s_req_http_HTT, s_req_http_HTTP, s_req_first_http_major, s_req_http_major, s_req_first_http_minor,
    s_req_http_minor, s_req_line_almost_done}"
  shows "alike_flow D1 D2 n1 n2 (on_state strict (recorder answer) D1 ch r1) (on_state strict (recorder answer) D2 ch r2)"
proof -
  note known = same_frame [OF like_known(1) [OF like]]
  show ?thesis
    using assms(2-) like
    by (auto simp: on_state_def known line_defs http_minor_digit_def Let_def intro!: like_rules split del: if_split)
qed

lemma marks_simps [simp]: "marks (fresh_message r) = marks r" "marks (http_0_9 r) = marks r"
    "marks (MARK k r) = (marks r)(k \<mapsto> pos r)"
  by (simp_all add: fresh_message_def http_0_9_def MARK_def)

lemma like_message: "like D1 D2 n1 n2 r1 r2 \<Longrightarrow> like D1 D2 n1 n2 (fresh_message r1) (fresh_message r2)"
  by (simp add: fresh_message_def like_upd same_frame(4) [OF like_known(1)])

lemma like_start_req_method_assign:
  assumes like: "like D1 D2 n1 n2 r1 r2" and "pos r1 < length D1"
  shows "alike_flow D1 D2 n1 n2 (start_req_method_assign ch r1) (start_req_method_assign ch r2)"
  using assms same_frame(4) [OF like_known(1) [OF like]]
  by (auto simp: start_req_method_assign_def Let_def intro!: like_rules split: option.split)

lemma like_start:
  assumes like: "like D1 D2 n1 n2 r1 r2" and "pos r1 < length D1" "marks r1 = (\<lambda>k. None)"
    "cur r2 \<in> {s_start_req_or_res, s_start_res, s_start_req}"
  shows "alike_flow D1 D2 n1 n2 (on_state strict (recorder answer) D1 ch r1) (on_state strict (recorder answer) D2 ch r2)"
proof -
  have pub: "public (parser (fresh_message r1)) = public (parser (fresh_message r2))"
    using like_message [OF like] by (simp add: like_def frame_def)
  note known = same_frame [OF like_known(1) [OF like]]
  show ?thesis
    using assms(2-) like pub
    by (auto simp: on_state_def known line_defs intro!: like_rules like_start_req_method_assign like_message split del: if_split)
qed

lemma like_req_method:
  assumes like: "like D1 D2 n1 n2 r1 r2" and "pos r1 < length D1"
  shows "alike_flow D1 D2 n1 n2 (on_req_method ch r1) (on_req_method ch r2)"
  using assms same_frame [OF like_known(1) [OF like]]
  by (auto simp: on_req_method_def Let_def intro!: like_rules split: option.split split del: if_split)

text \<open>The URL: what is not pending is free to be marked.\<close>

lemma like_http_0_9: "like D1 D2 n1 n2 r1 r2 \<Longrightarrow> like D1 D2 n1 n2 (http_0_9 r1) (http_0_9 r2)"
  by (simp add: http_0_9_def like_upd same_frame(4) [OF like_known(1)])

lemma free_pending: "matches r \<Longrightarrow> (\<And>k. topic_of k = c \<Longrightarrow> \<not> pending (cur r) k) \<Longrightarrow> free c r"
  by (simp add: free_def matches_def) (metis fits_simps(3))

lemma like_url_line:
  assumes like: "like D1 D2 n1 n2 r1 r2" and "pos r1 < length D1" and matches: "matches r1"
    and cur: "cur r2 \<in> {s_req_spaces_before_url, s_req_schema, s_req_schema_slash, s_req_schema_slash_slash, s_req_host, s_req_port}"
  shows "alike_flow D1 D2 n1 n2 (on_state strict (recorder answer) D1 ch r1) (on_state strict (recorder answer) D2 ch r2)"
proof -
  note known = same_frame [OF like_known(1) [OF like]]
  have free: "free Parts r1"
    by (rule free_pending [OF matches]) (use cur known(1) in \<open>auto simp: pending_def split: data_cb.splits\<close>)
  have free': "free Whole r1" if "cur r2 = s_req_spaces_before_url"
    by (rule free_pending [OF matches]) (use that known(1) in \<open>auto simp: pending_def split: data_cb.splits\<close>)
  have free_MARK: "free Parts (MARK Url r1)"
    using free by (simp add: free_iff)
  show ?thesis
    using assms(2) cur like free free' free_MARK
    by (auto simp: on_state_def known line_defs intro!: like_rules split del: if_split)
qed

lemma like_url_ends:
  assumes like: "like D1 D2 n1 n2 r1 r2"
    and "alike_flow D1 D2 n1 n2 o1 o2"
    and last: "\<And>s1 s2. like D1 D2 n1 n2 s1 s2 \<Longrightarrow> \<exists>t1 t2. cb1 s1 = Runs t1 \<and> cb2 s2 = Runs t2 \<and> like D1 D2 n1 n2 t1 t2"
  shows "alike_flow D1 D2 n1 n2 (url_ends (recorder answer) D1 cb1 ch r1 o1) (url_ends (recorder answer) D2 cb2 ch r2 o2)"
proof -
  from last [OF like_flush [OF like]] obtain t1 t2
    where "cb1 (flush D1 Url r1) = Runs t1" "cb2 (flush D2 Url r2) = Runs t2" "like D1 D2 n1 n2 t1 t2" by blast
  with assms(2) show ?thesis
    by (auto simp: url_ends_def Let_def intro!: like_rules like_http_0_9)
qed

lemma like_last: "like D1 D2 n1 n2 s1 s2 \<Longrightarrow> \<exists>t1 t2. CALLBACK (recorder answer) D1 k s1 = Runs t1 \<and>
    CALLBACK (recorder answer) D2 k s2 = Runs t2 \<and> like D1 D2 n1 n2 t1 t2"
    "like D1 D2 n1 n2 s1 s2 \<Longrightarrow> \<exists>t1 t2. Runs s1 = Runs t1 \<and> Runs s2 = Runs t2 \<and> like D1 D2 n1 n2 t1 t2"
  by (simp_all add: like_flush)

lemma like_url_part:
  assumes like: "like D1 D2 n1 n2 r1 r2" and "pos r1 < length D1" and matches: "matches r1"
    and cur: "cur r2 \<in> {s_req_path, s_req_query_string_start, s_req_query_string, s_req_fragment_start, s_req_fragment}"
  shows "alike_flow D1 D2 n1 n2 (on_state strict (recorder answer) D1 ch r1) (on_state strict (recorder answer) D2 ch r2)"
proof -
  note known = same_frame [OF like_known(1) [OF like]]
  have free: "free Parts r1" if "cur r2 \<in> {s_req_query_string_start, s_req_fragment_start}"
    by (rule free_pending [OF matches]) (use that known(1) in \<open>auto simp: pending_def split: data_cb.splits\<close>)
  have "alike_flow D1 D2 n1 n2 (on_req_path (recorder answer) D1 ch r1) (on_req_path (recorder answer) D2 ch r2)"
      "alike_flow D1 D2 n1 n2 (on_req_query_string (recorder answer) D1 ch r1) (on_req_query_string (recorder answer) D2 ch r2)"
      "alike_flow D1 D2 n1 n2 (on_req_fragment (recorder answer) D1 ch r1) (on_req_fragment (recorder answer) D2 ch r2)"
    unfolding on_req_path_def on_req_query_string_def on_req_fragment_def using like
    by (intro like_if like_url_ends [OF _ _ like_last(1)] refl; simp add: like_goes like_flush like_error assms(2))+
  moreover have "alike_flow D1 D2 n1 n2 (on_req_query_string_start (recorder answer) D1 ch r1)
        (on_req_query_string_start (recorder answer) D2 ch r2)"
      "alike_flow D1 D2 n1 n2 (on_req_fragment_start (recorder answer) D1 ch r1) (on_req_fragment_start (recorder answer) D2 ch r2)"
    if "cur r2 \<in> {s_req_query_string_start, s_req_fragment_start}"
    unfolding on_req_query_string_start_def on_req_fragment_start_def using like free [OF that]
    by (intro like_if like_url_ends [OF _ _ like_last(2)] refl; simp add: like_goes like_MARK like_error assms(2))+
  ultimately show ?thesis
    using cur by (auto simp: on_state_def known)
qed

text \<open>Header lines.\<close>

lemma like_matching:
  assumes like: "like D1 D2 n1 n2 r1 r2"
  shows "like D1 D2 n1 n2 (matching name w c r1) (matching name w c r2)"
  using like same_frame(3) [OF like_known(1) [OF like]] by (simp add: matching_def Let_def like_index like_hgoes)

lemma like_header_field_char:
  assumes like: "like D1 D2 n1 n2 r1 r2"
  shows "alike_flow D1 D2 n1 n2 (header_field_char c ch r1) (header_field_char c ch r2)"
  using like same_frame(2,3) [OF like_known(1) [OF like]]
  by (cases "hstate r2") (auto simp: header_field_char_def intro!: like_rules like_matching)

lemma like_header_value_char:
  assumes like: "like D1 D2 n1 n2 r1 r2" and "pos r1 < length D1"
  shows "alike_flow D1 D2 n1 n2 (header_value_char ch r1) (header_value_char ch r2)"
  using assms same_frame(2,3,4,8) [OF like_known(1) [OF like]]
  by (cases "hstate r2") (auto simp: header_value_char_def Let_def intro!: like_rules like_matching)

lemma like_header_almost_done:
  assumes like: "like D1 D2 n1 n2 r1 r2" and "pos r1 < length D1"
  shows "alike_flow D1 D2 n1 n2 (on_header_almost_done strict ch r1) (on_header_almost_done strict ch r2)"
  using assms same_frame(2,4,7) [OF like_known(1) [OF like]]
  by (cases "hstate r2") (auto simp: on_header_almost_done_def Let_def intro!: like_rules)

lemma like_value_state:
  assumes like: "like D1 D2 n1 n2 r1 r2" and "pos r1 < length D1"
  shows "alike_flow D1 D2 n1 n2 (value_state ch r1) (value_state ch r2)"
  using assms same_frame(2,4,7) [OF like_known(1) [OF like]]
  by (cases "hstate r2") (auto simp: value_state_def intro!: like_rules)

lemma like_header_field:
  assumes like: "like D1 D2 n1 n2 r1 r2" and "pos r1 < length D1"
  shows "alike_flow D1 D2 n1 n2 (on_header_field (recorder answer) D1 ch r1) (on_header_field (recorder answer) D2 ch r2)"
  using assms by (auto simp: on_header_field_def intro!: like_rules like_header_field_char split del: if_split)

lemma like_header_value:
  assumes like: "like D1 D2 n1 n2 r1 r2" and "pos r1 < length D1"
  shows "alike_flow D1 D2 n1 n2 (on_header_value strict (recorder answer) D1 ch r1) (on_header_value strict (recorder answer) D2 ch r2)"
  using assms by (auto simp: on_header_value_def intro!: like_rules like_header_value_char like_header_almost_done
      split del: if_split)

lemma like_header_value_start:
  assumes like: "like D1 D2 n1 n2 r1 r2" and "pos r1 < length D1" and free: "free Head r1"
  shows "alike_flow D1 D2 n1 n2 (on_header_value_start (recorder answer) D1 ch r1) (on_header_value_start (recorder answer) D2 ch r2)"
  using assms by (auto simp: on_header_value_start_def Let_def intro!: like_rules like_value_state split del: if_split)

text \<open>The end of the headers.\<close>

lemma NEW_MESSAGE_public: "public p = public q \<Longrightarrow> NEW_MESSAGE strict p = NEW_MESSAGE strict q"
  using public_fields [of p q] by (simp add: NEW_MESSAGE_def start_state_def http_should_keep_alive_def)

lemma like_message_done:
  assumes like: "like D1 D2 n1 n2 r1 r2" and "marks r1 = (\<lambda>k. None)"
  shows "alike_flow D1 D2 n1 n2 (message_done strict (recorder answer) r1) (message_done strict (recorder answer) r2)"
proof -
  have pub: "public (parser r1) = public (parser r2)" by (rule same_frame(4) [OF like_known(1) [OF like]])
  with NEW_MESSAGE_public [OF pub, of strict] like_goes [OF like_event [OF assms refl]] show ?thesis
    by (simp add: message_done_def)
qed

lemma like_body_follows:
  assumes like: "like D1 D2 n1 n2 r1 r2" and "marks r1 = (\<lambda>k. None)"
  shows "alike_flow D1 D2 n1 n2 (body_follows strict (recorder answer) r1) (body_follows strict (recorder answer) r2)"
proof -
  note known = same_frame [OF like_known(1) [OF like]]
  have "http_should_keep_alive (parser r1) = http_should_keep_alive (parser r2)"
    by (simp add: http_should_keep_alive_def known)
  note known = known this
  show ?thesis
    unfolding body_follows_def Let_def
    by (intro like_if like_message_done like_goes assms) (simp_all add: known)
qed

lemma like_return:
  assumes like: "like D1 D2 n1 n2 r1 r2" and "marks r1 = (\<lambda>k. None)" "pos r1 < length D1"
  shows "alike_flow D1 D2 n1 n2 (Returns (pos r1) (parser r1) (user r1)) (Returns (pos r2) (parser r2) (user r2))"
    "s \<noteq> s_dead \<Longrightarrow> alike_flow D1 D2 n1 n2 (Returns (pos r1) ((parser r1)\<lparr>pstate := s\<rparr>) (user r1))
       (Returns (pos r2) ((parser r2)\<lparr>pstate := s\<rparr>) (user r2))"
  using like_known [OF like] same_frame(4) [OF like_known(1) [OF like]] assms(2,3)
  by (simp_all add: tracks_less [of D1 D2 r1 r2] tracks_none)

lemma like_headers_complete:
  assumes like: "like D1 D2 n1 n2 r1 r2" and marks: "marks r1 = (\<lambda>k. None)" and pos: "pos r1 < length D1"
    and cur: "cur r2 = s_headers_almost_done"
    and continues: "\<And>w1 w2. like D1 D2 n1 n2 w1 w2 \<Longrightarrow> marks w1 = (\<lambda>k. None) \<Longrightarrow> pos w1 < length D1 \<Longrightarrow>
      alike_flow D1 D2 n1 n2 (g1 w1) (g2 w2)"
  shows "alike_flow D1 D2 n1 n2 (andthen (call_on_headers_complete (recorder answer) r1) g1)
    (andthen (call_on_headers_complete (recorder answer) r2) g2)"
proof -
  note known = same_frame [OF like_known(1) [OF like]]
  let ?e = "Headers (public (parser r2))" and ?f = "\<lambda>p. p\<lparr>flags := insert F_SKIPBODY (flags p)\<rparr>"
  have e: "like D1 D2 n1 n2 (note_event ?e r1) (note_event ?e r2)"
    by (rule like_event [OF like marks refl])
  have skip: "like D1 D2 n1 n2 (upd ?f (note_event ?e r1)) (upd ?f (note_event ?e r2))"
    by (rule like_upd [OF e]) (simp_all add: known)
  show ?thesis
    using like_return(2) [OF e, of s_headers_almost_done] continues [OF e] continues [OF skip] marks pos cur
    by (simp add: known Let_def)
qed

lemma like_headers_almost_done:
  assumes like: "like D1 D2 n1 n2 r1 r2" and marks: "marks r1 = (\<lambda>k. None)" and pos: "pos r1 < length D1"
    and cur: "cur r2 = s_headers_almost_done"
  shows "alike_flow D1 D2 n1 n2 (on_headers_almost_done strict (recorder answer) ch r1)
    (on_headers_almost_done strict (recorder answer) ch r2)"
proof -
  note known = same_frame [OF like_known(1) [OF like]]
  have finishes: "alike_flow D1 D2 n1 n2
      (if upgrade (parser w1)
       then andthen (CALLBACK2 (on_message_complete (recorder answer)) w1) (\<lambda>r. Returns (pos r) (parser r) (user r))
       else body_follows strict (recorder answer) w1)
      (if upgrade (parser w2)
       then andthen (CALLBACK2 (on_message_complete (recorder answer)) w2) (\<lambda>r. Returns (pos r) (parser r) (user r))
       else body_follows strict (recorder answer) w2)"
    if w: "like D1 D2 n1 n2 w1 w2" "marks w1 = (\<lambda>k. None)" "pos w1 < length D1" for w1 w2
    using like_return(1) [OF like_event [OF w(1,2) refl]] w like_body_follows [OF w(1,2)]
      same_frame(4,13) [OF like_known(1) [OF w(1)]]
    by simp
  have up: "public ((parser r1)\<lparr>upgrade := True\<rparr>) = public ((parser r2)\<lparr>upgrade := True\<rparr>)"
    by (simp add: known)
  show ?thesis
    unfolding on_headers_almost_done_def Let_def
    by (intro like_strict like pos like_if like_message_done marks like_headers_complete finishes)
      (auto simp: known marks pos cur intro!: like like_reset like_upd finishes)
qed

lemma like_header_field_start:
  assumes like: "like D1 D2 n1 n2 r1 r2" and marks: "marks r1 = (\<lambda>k. None)" and pos: "pos r1 < length D1"
  shows "alike_flow D1 D2 n1 n2 (on_header_field_start strict (recorder answer) ch r1)
    (on_header_field_start strict (recorder answer) ch r2)"
proof -
  have "free Head r1" using marks by (simp add: free_iff)
  then show ?thesis
    using assms unfolding on_header_field_start_def
    by (intro like_if refl) (auto intro!: like_rules like_headers_almost_done)
qed

section \<open>The body\<close>

lemma read_body_recorder: "read_body (recorder answer) data n r =
    (note_event (Body (take n (drop (pos r) data))) r)\<lparr>pos := pos r + n - 1\<rparr>"
  by (simp add: read_body_def Let_def slice_def)

lemma like_read_body:
  assumes like: "like D1 D2 n1 n2 r1 r2" and marks: "marks r1 = (\<lambda>k. None)" and "0 < n" "n \<le> length D1 - pos r1"
  shows "like D1 D2 n1 n2 (read_body (recorder answer) D1 n r1) (read_body (recorder answer) D2 n r2)"
proof -
  have tracks: "tracks D1 D2 r1 r2" by (rule like_known(2) [OF like])
  have rest: "drop (pos r1) D1 = drop (pos r2) D2" using tracks by (simp add: tracks_def)
  have "drop (pos r1 + n - 1) D1 = drop (pos r2 + n - 1) D2"
    using arg_cong [OF rest, of "drop (n - 1)"] assms(3) by (cases n) (simp_all add: add.commute)
  with assms tracks rest tracks_pos [OF tracks]
  have "tracks D1 D2 (read_body (recorder answer) D1 n r1) (read_body (recorder answer) D2 n r2)"
    by (auto simp: tracks_none read_body_recorder note_event_def)
  with like show ?thesis
    by (simp add: like_def read_body_recorder frame_def limits_def)
qed

lemma like_left: "like D1 D2 n1 n2 r1 r2 \<Longrightarrow> length D1 - pos r1 = length D2 - pos r2"
  by (drule like_known(2)) (metis tracks_def length_drop)

lemma like_bulk:
  assumes like: "like D1 D2 n1 n2 r1 r2" and marks: "marks r1 = (\<lambda>k. None)" and bulk: "bulk (cur r2)"
  shows "alike_flow D1 D2 n1 n2 (on_state strict (recorder answer) D1 ch r1) (on_state strict (recorder answer) D2 ch' r2)"
proof -
  note known = same_frame [OF like_known(1) [OF like]] like_left [OF like]
  let ?read = "\<lambda>D n r. upd (\<lambda>p. p\<lparr>content_length := content_length p - of_nat n\<rparr>) (read_body (recorder answer) D n r)"
  have read: "like D1 D2 n1 n2 (?read D1 n r1) (?read D2 n r2)" if "0 < n" "n \<le> length D2 - pos r2" for n
    by (rule like_upd [OF like_read_body [OF like marks that(1)]]) (use that known in simp_all)
  have identity: "alike_flow D1 D2 n1 n2 (on_body_identity strict (recorder answer) D1 r1)
      (on_body_identity strict (recorder answer) D2 r2)"
  proof -
    define n where "n = min (length D2 - pos r2) (unat (content_length (parser r2)))"
    have n: "n \<le> length D2 - pos r2" by (simp add: n_def)
    show ?thesis
      unfolding on_body_identity_def Let_def known n_def [symmetric]
      by (intro like_if refl like_message_done read like_Runs like)
        (use n marks known in \<open>simp_all add: read_body_recorder\<close>)
  qed
  have eof: "alike_flow D1 D2 n1 n2 (on_body_identity_eof (recorder answer) D1 r1) (on_body_identity_eof (recorder answer) D2 r2)"
    using like like_read_body [OF like marks, of "length D1 - pos r1"] by (simp add: on_body_identity_eof_def Let_def known)
  have "alike_flow D1 D2 n1 n2 (on_chunk_data (recorder answer) D1 r1) (on_chunk_data (recorder answer) D2 r2)"
  proof -
    define m where "m = min (int (length D2 - pos r2)) (sint (content_length (parser r2)))"
    have "like D1 D2 n1 n2 (read_body (recorder answer) D1 (nat m) r1) (read_body (recorder answer) D2 (nat m) r2)" if "0 < m"
      by (rule like_read_body [OF like marks]) (use that known in \<open>simp_all add: m_def\<close>)
    then have body: "like D1 D2 n1 n2 (if 0 < nat m then read_body (recorder answer) D1 (nat m) r1 else r1)
        (if 0 < nat m then read_body (recorder answer) D2 (nat m) r2 else r2)"
      using like by simp
    have "alike_flow D1 D2 n1 n2 (Faults ABORT) (Faults ABORT)" "alike_flow D1 D2 n1 n2 (Faults Undefined) (Faults Undefined)"
      by simp_all
    note * = this like_cur [OF body] body
    show ?thesis
      unfolding on_chunk_data_signed Let_def chunked_def assertion_def known m_def [symmetric]
      by (intro like_if refl like_Runs like_upd like_when * ) (simp_all add: known read_body_recorder)
  qed
  with identity eof bulk show ?thesis
    by (auto simp: bulk_def on_state_def known)
qed

lemma like_chunk:
  assumes like: "like D1 D2 n1 n2 r1 r2" and pos: "pos r1 < length D1"
    and cur: "cur r2 \<in> {s_chunk_size_start, s_chunk_size, s_chunk_parameters, s_chunk_size_almost_done,
      s_chunk_data_almost_done, s_chunk_data_done}"
    and first: "cur r2 = s_chunk_size_start \<Longrightarrow> nread r1 = 1 \<and> nread r2 = 1"
  shows "alike_flow D1 D2 n1 n2 (on_state strict (recorder answer) D1 ch r1) (on_state strict (recorder answer) D2 ch r2)"
proof -
  note known = same_frame [OF like_known(1) [OF like]]
  show ?thesis
    using assms(2-) like
    by (auto simp: on_state_def known chunk_defs expects_def chunked_def assertion_def Let_def intro!: like_rules
        split del: if_split)
qed

section \<open>Every step\<close>

lemma like_other:
  assumes like: "like D1 D2 n1 n2 r1 r2" and pos: "pos r1 < length D1" and good: "good m r1"
    and cur: "\<not> chunk_state (cur r2)" "\<not> bulk (cur r2)"
  shows "alike_flow D1 D2 n1 n2 (on_state strict (recorder answer) D1 ch r1) (on_state strict (recorder answer) D2 ch r2)"
proof -
  have cur1: "cur r1 = cur r2" by (rule same_frame(1) [OF like_known(1) [OF like]])
  have matches: "matches r1" using good by (simp add: good_def)
  have idle: "marks r1 = (\<lambda>k. None)" if "idle (cur r2)" using good that cur1 by (simp add: good_idle)
  have head: "free Head r1" if "cur r2 = s_header_value_start" using idle that by (simp add: free_iff)
  note steps = like_line [OF like pos] like_start [OF like pos] like_req_method [OF like pos]
    like_url_line [OF like pos matches] like_url_part [OF like pos matches] like_header_field [OF like pos]
    like_header_value [OF like pos] like_header_value_start [OF like pos head] like_header_field_start [OF like _ pos]
    like_headers_almost_done [OF like _ pos] like_header_almost_done [OF like pos]
  show ?thesis
    using steps idle cur cur1 by (cases "cur r2") (simp_all add: bulk_def on_state_def)
qed

lemma like_state:
  assumes like: "like D1 D2 n1 n2 r1 r2" and pos: "pos r1 < length D1" and good: "good m r1"
    and first: "cur r2 = s_chunk_size_start \<Longrightarrow> nread r1 = 1 \<and> nread r2 = 1"
  shows "alike_flow D1 D2 n1 n2 (on_state strict (recorder answer) D1 ch r1) (on_state strict (recorder answer) D2 ch r2)"
proof -
  have cur1: "cur r1 = cur r2" by (rule same_frame(1) [OF like_known(1) [OF like]])
  consider "bulk (cur r2)" | "chunk_state (cur r2)" "\<not> bulk (cur r2)" | "\<not> chunk_state (cur r2)" "\<not> bulk (cur r2)" by blast
  then show ?thesis
  proof cases
    case 1
    have "marks r1 = (\<lambda>k. None)"
      using good cur1 1 by (auto simp: bulk_def good_idle good_chunk)
    from like_bulk [OF like this 1] show ?thesis .
  next
    case 2
    then show ?thesis by (intro like_chunk [OF like pos _ first]) (auto simp: chunk_state_def bulk_def)
  next
    case 3
    then show ?thesis by (rule like_other [OF like pos good])
  qed
qed

lemma like_iteration:
  assumes like: "like D1 D2 n1 n2 r1 r2" and pos: "pos r1 < length D1" and good: "good 0 r1" "good 0 r2"
    and room: "n1 < HTTP_MAX_HEADER_SIZE" "n2 < HTTP_MAX_HEADER_SIZE"
  shows "alike_flow D1 D2 (Suc n1) (Suc n2) (iteration strict (recorder answer) D1 r1) (iteration strict (recorder answer) D2 r2)"
proof -
  note known = same_frame [OF like_known(1) [OF like]]
  let ?c = "\<lambda>r. if PARSING_HEADER (cur r) then r\<lparr>nread := nread r + 1\<rparr> else r"
  have c: "like D1 D2 (Suc n1) (Suc n2) (?c r1) (?c r2)"
    using like known(5) by (auto simp: like_def limits_def frame_def known(1) mod_Suc)
  have "good (nread (?c r1)) (?c r1)"
    using good(1) by (auto simp: good_def matches_def)
  moreover have "nread (?c r1) = 1 \<and> nread (?c r2) = 1" if "cur (?c r2) = s_chunk_size_start"
    using that good by (auto simp: good_chunk known(1) PARSING_HEADER_def uncounted_def split: if_splits)
  ultimately have state: "alike_flow D1 D2 (Suc n1) (Suc n2) (on_state strict (recorder answer) D1 ch (?c r1))
      (on_state strict (recorder answer) D2 ch (?c r2))" for ch
    by (intro like_state [OF c]) (use pos in simp_all)
  have "D1 ! pos r1 = D2 ! pos r2"
  proof -
    have "drop (pos r1) D1 = drop (pos r2) D2" using like_known(2) [OF like] by (simp add: tracks_def)
    then have "hd (drop (pos r1) D1) = hd (drop (pos r2) D2)" by simp
    then show ?thesis using pos tracks_less [OF like_known(2) [OF like] pos] by (simp add: hd_drop_conv_nth)
  qed
  moreover have "\<not> HTTP_MAX_HEADER_SIZE < nread (?c r1)" "\<not> HTTP_MAX_HEADER_SIZE < nread (?c r2)"
    using room like_known(3,4) [OF like] by auto
  ultimately show ?thesis
    using state [of "D2 ! pos r2"] known(1) by (cases "PARSING_HEADER (cur r2)") (simp_all add: iteration_def Let_def)
qed

end
