(* ===== verification/HttpSplit.thy ===== *)
theory HttpSplit
  imports HttpLike
begin

text \<open>
  A connection gives its data in pieces of any length.  \<^verbatim>\<open>http_parser_execute\<close> on the pieces, one after
  the other, does what it does on all of the data at once.
\<close>

section \<open>Calls that end alike\<close>

text \<open>
  \<open>N\<close> is the length of all the data.  When an error is found, what was pending has been given to
  the one or to the other; else the views are the same.  At the end of the data the parsers are the same.
\<close>

fun alike :: "nat \<Rightarrow> event list flow \<Rightarrow> event list flow \<Rightarrow> bool" where
  "alike N (Returns n1 p1 u1) (Returns n2 p2 u2) =
     (n1 = n2 \<and> public p1 = public p2 \<and> (pstate p1 = s_dead \<longleftrightarrow> pstate p2 = s_dead) \<and> (n1 = N \<longrightarrow> p1 = p2) \<and>
      (n1 = N \<or> pstate p1 \<noteq> s_dead \<longrightarrow> (\<forall>c. view c u1 = view c u2)))"
| "alike N (Faults e1) (Faults e2) = (e1 = e2)"
| "alike N f1 f2 = False"

lemma alike_trans: "alike N f g \<Longrightarrow> alike N g h \<Longrightarrow> alike N f h"
  by (cases f; cases g; cases h) auto

fun shift :: "nat \<Rightarrow> 'u flow \<Rightarrow> 'u flow" where
  "shift d (Returns n p u) = Returns (d + n) p u"
| "shift d f = f"

section \<open>The loops\<close>

lemma feed_char_like: "(\<And>k. marks r1 k = None \<longleftrightarrow> marks r2 k = None) \<Longrightarrow> feed_char c r1 ch v = feed_char c r2 ch v"
  by (simp add: feed_char_def give_def)

lemma tracks_next:
  assumes tracks: "tracks D1 D2 r1 r2" and pos: "pos r1 < length D1"
  shows "tracks D1 D2 (r1\<lparr>pos := pos r1 + 1\<rparr>) (r2\<lparr>pos := pos r2 + 1\<rparr>)"
proof -
  have pos2: "pos r2 < length D2" by (rule tracks_less [OF tracks pos])
  have rest: "drop (pos r1) D1 = drop (pos r2) D2" and alone: "alone r1" "alone r2"
    using tracks by (auto simp: tracks_def alone_def)
  from rest have "hd (drop (pos r1) D1) = hd (drop (pos r2) D2)" "tl (drop (pos r1) D1) = tl (drop (pos r2) D2)" by simp_all
  then have "D1 ! pos r1 = D2 ! pos r2" "drop (Suc (pos r1)) D1 = drop (Suc (pos r2)) D2"
    using pos pos2 by (simp_all add: hd_drop_conv_nth drop_Suc drop_tl)
  moreover have "settled c D1 (r1\<lparr>pos := pos r1 + 1\<rparr>) = settled c D2 (r2\<lparr>pos := pos r2 + 1\<rparr>)" for c
  proof -
    have "settled c D1 (r1\<lparr>pos := pos r1 + 1\<rparr>) = feed_char c r1 (D1 ! pos r1) (settled c D1 r1)"
      by (rule settled_next [OF alone(1) _ pos]) (use tracks in \<open>simp add: tracks_def\<close>)
    moreover have "settled c D2 (r2\<lparr>pos := pos r2 + 1\<rparr>) = feed_char c r2 (D2 ! pos r2) (settled c D2 r2)"
      by (rule settled_next [OF alone(2) _ pos2]) (use tracks in \<open>simp add: tracks_def\<close>)
    moreover have "feed_char c r1 ch v = feed_char c r2 ch v" for ch v
      by (rule feed_char_like) (use tracks in \<open>simp add: tracks_def\<close>)
    moreover have "settled c D1 r1 = settled c D2 r2"
      using tracks by (simp add: tracks_def)
    ultimately show ?thesis
      using \<open>D1 ! pos r1 = D2 ! pos r2\<close> by simp
  qed
  ultimately show ?thesis
    using tracks pos pos2 by (simp add: tracks_def le_SucI alone_less [of r1])
qed

lemma like_next:
  assumes like: "like D1 D2 n1 n2 r1 r2" and pos: "pos r1 < length D1"
  shows "like D1 D2 n1 n2 (r1\<lparr>pos := pos r1 + 1\<rparr>) (r2\<lparr>pos := pos r2 + 1\<rparr>)"
  using like tracks_next [OF like_known(2) [OF like] pos] unfolding like_def by (simp add: frame_def limits_def)

lemma same_save:
  assumes "frame r1 = frame r2"
  shows "save r1 = save r2"
proof -
  have "p\<lparr>pstate := s, pheader_state := h, pindex := i, pnread := n\<rparr> = q\<lparr>pstate := s, pheader_state := h, pindex := i, pnread := n\<rparr>"
    if "public p = public q" for p q s h i n
    using public_fields [OF that] by (intro http_parser.equality) simp_all
  from this [OF same_frame(4) [OF assms]] same_frame(1-3,5) [OF assms] show ?thesis by (simp add: save_def)
qed

lemma good_iteration: "good 0 r \<Longrightarrow> iteration strict settings data r = Runs r' \<Longrightarrow> good 0 (r'\<lparr>pos := pos r' + 1\<rparr>)"
  using keeps_iteration [of r strict settings data] good_next [of 0 r'] by simp

text \<open>The rest of two calls after a step that was alike.\<close>

lemma loop_after_step:
  assumes step: "alike_flow D1 D2 n1 n2 (iteration strict (recorder answer) D1 r1) (iteration strict (recorder answer) D2 r2)"
    and pos: "pos r1 < length D1" "pos r2 < length D2" and D: "length D1 = d + length D2"
    and rest: "\<And>s1 s2. iteration strict (recorder answer) D1 r1 = Runs s1 \<Longrightarrow> iteration strict (recorder answer) D2 r2 = Runs s2 \<Longrightarrow>
      like D1 D2 n1 n2 (s1\<lparr>pos := pos s1 + 1\<rparr>) (s2\<lparr>pos := pos s2 + 1\<rparr>) \<Longrightarrow>
      alike (length D1) (loop strict (recorder answer) D1 (s1\<lparr>pos := pos s1 + 1\<rparr>))
        (shift d (loop strict (recorder answer) D2 (s2\<lparr>pos := pos s2 + 1\<rparr>)))"
  shows "alike (length D1) (loop strict (recorder answer) D1 r1) (shift d (loop strict (recorder answer) D2 r2))"
proof (cases "iteration strict (recorder answer) D1 r1")
  case (Runs s1)
  with step obtain s2 where s2: "iteration strict (recorder answer) D2 r2 = Runs s2"
    by (cases "iteration strict (recorder answer) D2 r2") auto
  with step Runs have "like D1 D2 n1 n2 s1 s2" by simp
  from like_next [OF this] rest [OF Runs s2] iteration_forward [OF Runs pos(1)] show ?thesis
    by (simp add: loop_step [OF pos(1)] loop_step [OF pos(2)] Runs s2)
next
  case (Returns m1 p1 u1)
  with step D show ?thesis
    by (cases "iteration strict (recorder answer) D2 r2") (auto simp: loop_step [OF pos(1)] loop_step [OF pos(2)])
next
  case (Faults e)
  with step show ?thesis
    by (cases "iteration strict (recorder answer) D2 r2") (auto simp: loop_step [OF pos(1)] loop_step [OF pos(2)])
qed

lemma like_loop:
  assumes "like D1 D2 n1 n2 r1 r2" "good 0 r1" "good 0 r2" "length D1 = d + length D2"
    "n1 + (length D1 - pos r1) \<le> HTTP_MAX_HEADER_SIZE" "n2 + (length D2 - pos r2) \<le> HTTP_MAX_HEADER_SIZE"
  shows "alike (length D1) (loop strict (recorder answer) D1 r1) (shift d (loop strict (recorder answer) D2 r2))"
  using assms
proof (induction "length D1 - pos r1" arbitrary: r1 r2 n1 n2 rule: less_induct)
  case less
  note tracks = like_known(2) [OF less.prems(1)]
  show ?case
  proof (cases "pos r1 < length D1")
    case True
    have pos2: "pos r2 < length D2" by (rule tracks_less [OF tracks True])
    have "alike_flow D1 D2 (Suc n1) (Suc n2) (iteration strict (recorder answer) D1 r1) (iteration strict (recorder answer) D2 r2)"
      by (rule like_iteration [OF less.prems(1) True less.prems(2,3)]) (use less.prems(5,6) True pos2 in auto)
    then show ?thesis
    proof (rule loop_after_step [OF _ True pos2 less.prems(4)])
      fix s1 s2
      assume s: "iteration strict (recorder answer) D1 r1 = Runs s1" "iteration strict (recorder answer) D2 r2 = Runs s2"
        "like D1 D2 (Suc n1) (Suc n2) (s1\<lparr>pos := pos s1 + 1\<rparr>) (s2\<lparr>pos := pos s2 + 1\<rparr>)"
      note forward = iteration_forward [OF s(1) True] iteration_forward [OF s(2) pos2]
      show "alike (length D1) (loop strict (recorder answer) D1 (s1\<lparr>pos := pos s1 + 1\<rparr>))
          (shift d (loop strict (recorder answer) D2 (s2\<lparr>pos := pos s2 + 1\<rparr>)))"
        by (rule less.hyps [OF _ s(3) good_iteration [OF less.prems(2) s(1)] good_iteration [OF less.prems(3) s(2)] less.prems(4)])
          (use less.prems(5,6) forward True in auto)
    qed
  next
    case False
    then have "\<not> pos r2 < length D2" using tracks_pos [OF tracks] by simp
    with False same_save [OF like_known(1) [OF less.prems(1)]] tracks less.prems(4) show ?thesis
      by (simp add: loop_end finish_recorder tracks_def settled_def)
  qed
qed

section \<open>Where the data is cut\<close>

lemma good_marks: "matches r \<Longrightarrow> marks r k = Some m \<Longrightarrow> m \<le> pos r"
  unfolding matches_def by (metis fits_simps(2))

lemma good_pending: "matches r \<Longrightarrow> (marks r k = None) = (\<not> pending (cur r) k)"
  unfolding matches_def by (metis fits_simps(1,3))

lemma good_alone: "matches r \<Longrightarrow> alone r"
  by (auto simp: alone_def good_pending pending_def)

text \<open>The call on the second piece goes on where the call on both is when it has read the first.\<close>

lemma like_cut:
  assumes good: "good 0 r" and pos: "pos r = length a" and live: "pstate (parser r) \<noteq> s_dead" "cur r \<noteq> s_dead"
  shows "like (a @ b) b (nread r) (nread r mod 256) r (enter (save r) (user r @ pieces a r))"
proof -
  have matches: "matches r" and bytes: "bytes r" using good by (auto simp: good_def)
  let ?s = "enter (save r) (user r @ pieces a r)"
  have marks: "marks ?s = (\<lambda>k. if marks r k = None then None else Some 0)"
    by (auto simp: enter_def save_def good_pending [OF matches])
  have alone: "alone r" "alone ?s"
    using good_alone [OF matches] by (auto simp: marks alone_def)
  have put: "put c b ?s k (put c a r k v) = put c (a @ b) r k v" for c k v
  proof (cases "marks r k")
    case None
    then show ?thesis by (simp add: put_def marks)
  next
    case (Some m)
    with good_marks [OF matches Some] pos show ?thesis
      by (simp add: put_def marks push_Data slice_def enter_def)
  qed
  have "settled c (a @ b) r = settled c b ?s" for c
  proof -
    have "view c (user ?s) = settled c a r" by (simp add: settled_def enter_def)
    moreover have none: "put c b ?s k v = v" if "marks r k = None" for k v using that by (simp add: put_def marks)
    ultimately show ?thesis
      using alone(1) unfolding alone_def
      by (cases c; elim conjE disjE; simp only: settled_put put_None none put [symmetric])
  qed
  then have "tracks (a @ b) b r ?s"
    unfolding tracks_def using pos alone(1) good_marks [OF matches] by (simp add: marks) (simp add: enter_def)
  moreover have "frame r = frame ?s"
    using bytes by (auto simp: frame_def enter_def save_def public_def bytes_def)
  moreover have "limits (nread r) (nread r mod 256) r ?s"
    using live by (simp add: limits_def enter_def save_def)
  ultimately show ?thesis by (simp add: like_def)
qed

section \<open>Before the cut\<close>

lemma flush_append: "pos r \<le> length a \<Longrightarrow> flush (a @ b) k r = flush a k r"
  by (auto simp: flush_def slice_def split: option.split)

text \<open>A step that does not look at the end of the data.\<close>

lemma on_state_append:
  assumes "\<not> bulk (cur r)" "pos r < length a"
  shows "on_state strict (recorder answer) (a @ b) ch r = on_state strict (recorder answer) a ch r"
  using assms
  by (cases "cur r") (simp_all add: on_state_def bulk_def line_defs field_defs url_ends_def Let_def flush_append)

text \<open>The body reaches over the end of the data.\<close>

definition crosses :: "string \<Rightarrow> 'u run \<Rightarrow> bool" where
  "crosses a r \<longleftrightarrow>
     cur r = s_body_identity_eof \<or>
     cur r = s_body_identity \<and> length a - pos r < unat (content_length (parser r)) \<or>
     cur r = s_chunk_data \<and> F_CHUNKED \<in> flags (parser r) \<and> int (length a - pos r) < sint (content_length (parser r))"

lemma read_body_append: "pos r + n \<le> length a \<Longrightarrow> read_body (recorder answer) (a @ b) n r = read_body (recorder answer) a n r"
  by (simp add: read_body_recorder)

lemma bulk_append:
  assumes "bulk (cur r)" "pos r < length a" "\<not> crosses a r"
  shows "on_state strict (recorder answer) (a @ b) ch r = on_state strict (recorder answer) a ch r"
proof -
  consider "cur r = s_body_identity" "unat (content_length (parser r)) \<le> length a - pos r"
    | "cur r = s_chunk_data" "F_CHUNKED \<notin> flags (parser r)"
    | "cur r = s_chunk_data" "sint (content_length (parser r)) \<le> int (length a - pos r)"
    using assms by (auto simp: bulk_def crosses_def)
  then show ?thesis
  proof cases
    case 1
    then have "min (length (a @ b) - pos r) (unat (content_length (parser r))) = unat (content_length (parser r))"
        "min (length a - pos r) (unat (content_length (parser r))) = unat (content_length (parser r))"
        "pos r + unat (content_length (parser r)) \<le> length a"
      using assms(2) by auto
    with 1(1) show ?thesis
      unfolding on_state_def on_body_identity_def by (simp add: read_body_append Let_def)
  next
    case 2
    then show ?thesis by (simp add: on_state_def on_chunk_data_signed chunked_def assertion_def)
  next
    case 3
    then have "min (int (length (a @ b) - pos r)) (sint (content_length (parser r))) = sint (content_length (parser r))"
        "min (int (length a - pos r)) (sint (content_length (parser r))) = sint (content_length (parser r))"
      using assms(2) by auto
    moreover have "pos r + nat (sint (content_length (parser r))) \<le> length a" 
      using 3(2) assms(2) by linarith
    ultimately show ?thesis
      using 3(1) unfolding on_state_def on_chunk_data_signed by (simp add: read_body_append Let_def)
  qed
qed

lemma iteration_append:
  assumes "pos r < length a" "\<not> crosses a r"
  shows "iteration strict (recorder answer) (a @ b) r = iteration strict (recorder answer) a r"
proof -
  let ?c = "if PARSING_HEADER (cur r) then r\<lparr>nread := nread r + 1\<rparr> else r"
  have "on_state strict (recorder answer) (a @ b) ch ?c = on_state strict (recorder answer) a ch ?c" for ch
    using assms on_state_append [of ?c a] bulk_append [of ?c a]
    by (cases "bulk (cur r)") (auto simp: crosses_def bulk_def PARSING_HEADER_def)
  then show ?thesis
    using assms(1) by (simp add: iteration_def Let_def nth_append)
qed

section \<open>A body over the cut\<close>

lemma two_reads:
  assumes marks: "marks r = (\<lambda>k. None)" "marks s = (\<lambda>k. None)" and pos: "pos r + k = length a" "pos s = length a"
    and user: "user s = user r @ [Body (drop (pos r) a)]" and n: "k < n" "n \<le> length (a @ b) - pos r"
  shows "tracks (a @ b) (a @ b) (read_body (recorder answer) (a @ b) n r) (read_body (recorder answer) (a @ b) (n - k) s)"
proof -
  have "take n (drop (pos r) (a @ b)) = drop (pos r) a @ take (n - k) b"
  proof -
    have "n + pos r - length a = n - k" "length a - pos r \<le> n" using pos n by auto
    then show ?thesis by simp
  qed
  moreover have "pos r + n - 1 = length a + (n - k) - 1"
    using pos n by simp
  ultimately show ?thesis
    using assms by (simp add: tracks_none read_body_recorder note_event_def view_append push_Body del: push.simps)
qed

lemma two_reads_length:
  assumes pos: "pos r + k = length a" "pos s = length a" and n: "k < n" "n \<le> length (a @ b) - pos r"
  shows "length (a @ b) - pos s = length (a @ b) - pos r - k"
  using assms by simp

text \<open>The body is read at once, or to the end of the first piece and then on.\<close>

definition first_read :: "string \<Rightarrow> event list run \<Rightarrow> event list run" where
  "first_read a r =
     (let k = length a - pos r; s = (note_event (Body (drop (pos r) a)) r)\<lparr>pos := length a\<rparr> in
      if cur r = s_body_identity_eof then s else upd (\<lambda>p. p\<lparr>content_length := content_length p - of_nat k\<rparr>) s)"

lemma first_read_fields [simp]: "marks (first_read a r) = marks r" "pos (first_read a r) = length a"
    "user (first_read a r) = user r @ [Body (drop (pos r) a)]" "cur (first_read a r) = cur r" "nread (first_read a r) = nread r"
    "hstate (first_read a r) = hstate r" "index (first_read a r) = index r"
    "flags (parser (first_read a r)) = flags (parser r)" "pstate (parser (first_read a r)) = pstate (parser r)"
    "bytes (first_read a r) = bytes r"
  by (simp_all add: first_read_def Let_def note_event_def upd_def bytes_def)

lemma unat_of_less: "k < unat w \<Longrightarrow> unat (of_nat k :: 64 word) = k" for w :: "64 word"
proof -
  assume "k < unat w"
  moreover have "unat w < 2 ^ LENGTH(64)" by (rule unsigned_less)
  ultimately show ?thesis by (simp add: unat_of_nat)
qed

lemma unat_diff_less: "k < unat w \<Longrightarrow> unat (w - of_nat k) = unat w - k" for w :: "64 word"
  by (simp add: unat_sub unat_of_less word_le_nat_alt)

lemma sint_of_less: "int k < sint w \<Longrightarrow> sint (of_nat k :: 64 word) = int k" for w :: "64 word"
proof -
  assume "int k < sint w"
  moreover have "sint w < 2 ^ 63" using sint_lt [of w] by simp
  ultimately have "signed_take_bit 63 (int k) = int k"
    by (intro signed_take_bit_int_eq_self) auto
  moreover have "(of_nat k :: 64 word) = of_int (int k)" by simp
  ultimately show ?thesis by (simp only: sint_sbintrunc') simp
qed

lemma sint_diff_less: "int k < sint w \<Longrightarrow> sint (w - of_nat k) = sint w - int k" for w :: "64 word"
proof -
  assume k: "int k < sint w"
  moreover have "sint w < 2 ^ 63" using sint_lt [of w] by simp
  ultimately have "signed_take_bit 63 (sint w - int k) = sint w - int k"
    by (intro signed_take_bit_int_eq_self) auto
  then show ?thesis by (simp add: sint_word_diff sint_of_less [OF k])
qed

lemma bulk_iteration: "bulk (cur r) \<Longrightarrow> iteration strict settings data r = on_state strict settings data (data ! pos r) r"
  by (auto simp: iteration_def bulk_def PARSING_HEADER_def Let_def)

lemma crosses_bulk: "crosses a r \<Longrightarrow> bulk (cur r)"
  by (auto simp: crosses_def bulk_def)

lemma crossing_first:
  assumes pos: "pos r < length a" and crosses: "crosses a r"
  shows "\<exists>s. iteration strict (recorder answer) a r = Runs s \<and> s\<lparr>pos := pos s + 1\<rparr> = first_read a r"
proof -
  let ?k = "length a - pos r" and ?cl = "content_length (parser r)"
  have k: "0 < ?k" "pos r + ?k = length a" using pos by auto
  note step = bulk_iteration [OF crosses_bulk [OF crosses]]
  consider (eof) "cur r = s_body_identity_eof" | (identity) "cur r = s_body_identity" "?k < unat ?cl"
    | (chunk) "cur r = s_chunk_data" "F_CHUNKED \<in> flags (parser r)" "int ?k < sint ?cl"
    using crosses by (auto simp: crosses_def)
  then show ?thesis
  proof cases
    case eof
    then show ?thesis using pos
      by (simp add: step on_state_def on_body_identity_eof_def Let_def read_body_recorder first_read_def note_event_def)
  next
    case identity
    then have "min ?k (unat ?cl) = ?k" "?cl - of_nat ?k \<noteq> 0"
      using unat_diff_less [OF identity(2)] by auto
    with identity(1) pos show ?thesis
      unfolding step on_state_def on_body_identity_def Let_def
      by (simp add: read_body_recorder first_read_def note_event_def upd_def Let_def)
  next
    case chunk
    then have "min (int ?k) (sint ?cl) = int ?k" "of_nat ?k \<noteq> ?cl"
      using sint_of_less [OF chunk(3)] by auto
    with chunk(1,2) pos show ?thesis
      unfolding step on_state_def on_chunk_data_signed Let_def chunked_def assertion_def
      by (simp add: read_body_recorder first_read_def note_event_def upd_def Let_def)
  qed
qed

lemma like_two_reads:
  assumes marks: "marks r = (\<lambda>k. None)" and pos: "pos r < length a" and live: "pstate (parser r) \<noteq> s_dead"
    and n: "length a - pos r < n" "n \<le> length (a @ b) - pos r"
    and f: "public (f (parser r)) = public (g (parser (first_read a r)))" "\<And>p. pstate (f p) = pstate p" "\<And>p. pstate (g p) = pstate p"
  shows "like (a @ b) (a @ b) (nread r) (nread r) (upd f (read_body (recorder answer) (a @ b) n r))
    (upd g (read_body (recorder answer) (a @ b) (n - (length a - pos r)) (first_read a r)))"
proof -
  have "tracks (a @ b) (a @ b) (read_body (recorder answer) (a @ b) n r)
      (read_body (recorder answer) (a @ b) (n - (length a - pos r)) (first_read a r))"
    by (rule two_reads) (use marks pos n in simp_all)
  with live f show ?thesis
    by (simp add: like_def frame_def limits_def upd_def read_body_recorder)
qed

lemma crossing_both:
  assumes marks: "marks r = (\<lambda>k. None)" and pos: "pos r < length a" and crosses: "crosses a r"
    and live: "pstate (parser r) \<noteq> s_dead" and b: "b \<noteq> []"
  shows "alike_flow (a @ b) (a @ b) (nread r) (nread r) (iteration strict (recorder answer) (a @ b) r)
    (iteration strict (recorder answer) (a @ b) (first_read a r))"
proof -
  let ?k = "length a - pos r" and ?cl = "content_length (parser r)" and ?N = "length (a @ b)"
  note step = bulk_iteration [OF crosses_bulk [OF crosses]]
  have "bulk (cur (first_read a r))" using crosses_bulk [OF crosses] by simp
  note step = step bulk_iteration [OF this]
  have more: "?k < ?N - pos r" "?N - length a = ?N - pos r - ?k"
  proof -
    have "0 < length b" using b by simp
    with pos show "?k < ?N - pos r" "?N - length a = ?N - pos r - ?k" unfolding length_append by linarith+
  qed
  have down: "c - of_nat ?k - of_nat (n - ?k) = c - of_nat n" if "?k < n" for n and c :: "64 word"
    using that by (simp add: of_nat_diff)
  consider (eof) "cur r = s_body_identity_eof" | (identity) "cur r = s_body_identity" "?k < unat ?cl"
    | (chunk) "cur r = s_chunk_data" "F_CHUNKED \<in> flags (parser r)" "int ?k < sint ?cl"
    using crosses by (auto simp: crosses_def)
  then show ?thesis
  proof cases
    case eof
    then have "parser (first_read a r) = parser r" by (simp add: first_read_def Let_def note_event_def)
    moreover have same: "upd (\<lambda>p. p) s = s" for s :: "event list run" by (simp add: upd_def)
    ultimately show ?thesis
      unfolding step using eof like_two_reads [OF marks pos live more(1) order.refl, of "\<lambda>p. p" "\<lambda>p. p" answer] b pos
      by (simp add: same on_state_def on_body_identity_eof_def Let_def)
  next
    case identity
    define n where "n = min (?N - pos r) (unat ?cl)"
    have n: "?k < n" "n \<le> ?N - pos r" using more(1) identity(2) by (auto simp: n_def)
    have cl: "content_length (parser (first_read a r)) = ?cl - of_nat ?k"
      using identity(1) by (simp add: first_read_def Let_def upd_def note_event_def)
    have n': "min (?N - pos (first_read a r)) (unat (content_length (parser (first_read a r)))) = n - ?k"
      unfolding cl unat_diff_less [OF identity(2)] first_read_fields more(2) n_def by simp
    let ?f = "\<lambda>n p. p\<lparr>content_length := content_length p - of_nat n\<rparr>"
    have like: "like (a @ b) (a @ b) (nread r) (nread r) (upd (?f n) (read_body (recorder answer) (a @ b) n r))
        (upd (?f (n - ?k)) (read_body (recorder answer) (a @ b) (n - ?k) (first_read a r)))"
      by (rule like_two_reads [OF marks pos live n])
        (use down [OF n(1)] identity(1) in \<open>simp_all add: first_read_def Let_def upd_def note_event_def\<close>)
    have "iteration strict (recorder answer) (a @ b) r =
        (let s = upd (?f n) (read_body (recorder answer) (a @ b) n r) in
         if ?cl - of_nat n = 0 then message_done strict (recorder answer) s else Runs s)"
      unfolding step(1) on_state_def on_body_identity_def Let_def n_def [symmetric]
      using identity(1) n(1) by simp
    moreover have "iteration strict (recorder answer) (a @ b) (first_read a r) =
        (let s = upd (?f (n - ?k)) (read_body (recorder answer) (a @ b) (n - ?k) (first_read a r)) in
         if ?cl - of_nat n = 0 then message_done strict (recorder answer) s else Runs s)"
      unfolding step(2) on_state_def on_body_identity_def Let_def n'
      using identity(1) n(1) by (simp add: cl down [OF n(1)])
    ultimately show ?thesis
      using like_message_done [OF like] marks like by (simp add: Let_def)
  next
    case chunk
    define m where "m = min (int (?N - pos r)) (sint ?cl)"
    define n where "n = nat m"
    have m: "int ?k < m" using more(1) chunk(3) by (auto simp: m_def)
    have n: "?k < n" "n \<le> ?N - pos r" "m = int n" using m by (auto simp: n_def m_def)
    have cl: "content_length (parser (first_read a r)) = ?cl - of_nat ?k"
      using chunk(1) by (simp add: first_read_def Let_def upd_def note_event_def)
    have m': "min (int (?N - pos (first_read a r))) (sint (content_length (parser (first_read a r)))) = m - int ?k"
      unfolding cl sint_diff_less [OF chunk(3)] first_read_fields more(2) m_def using more(1) by simp
    have whole: "of_nat (n - ?k) = ?cl - of_nat ?k \<longleftrightarrow> of_nat n = ?cl"
      using n(1) by (simp add: of_nat_diff)
    let ?f = "\<lambda>n p. p\<lparr>content_length := content_length p - of_nat n\<rparr>"
    have like: "like (a @ b) (a @ b) (nread r) (nread r) (upd (?f n) (read_body (recorder answer) (a @ b) n r))
        (upd (?f (n - ?k)) (read_body (recorder answer) (a @ b) (n - ?k) (first_read a r)))"
      by (rule like_two_reads [OF marks pos live n(1,2)])
        (use down [OF n(1)] chunk(1) in \<open>simp_all add: first_read_def Let_def upd_def note_event_def\<close>)
    have swap: "upd f (s\<lparr>cur := st\<rparr>) = (upd f s)\<lparr>cur := st\<rparr>" for f st and s :: "event list run"
      by (simp add: upd_def)
    have "iteration strict (recorder answer) (a @ b) r =
        (let s = upd (?f n) (read_body (recorder answer) (a @ b) n r) in
         Runs (if of_nat n = ?cl then s\<lparr>cur := s_chunk_data_almost_done\<rparr> else s))"
      unfolding step(1) on_state_def on_chunk_data_signed Let_def m_def [symmetric] n(3)
      using chunk(1,2) n(1) by (simp add: chunked_def assertion_def swap)
    moreover have "iteration strict (recorder answer) (a @ b) (first_read a r) =
        (let s = upd (?f (n - ?k)) (read_body (recorder answer) (a @ b) (n - ?k) (first_read a r)) in
         Runs (if of_nat n = ?cl then s\<lparr>cur := s_chunk_data_almost_done\<rparr> else s))"
      unfolding step(2) on_state_def on_chunk_data_signed Let_def m' n(3)
      using chunk(1,2) n(1) whole by (simp add: chunked_def assertion_def swap cl nat_diff_distrib)
    ultimately show ?thesis
      by (simp only: Let_def alike_flow.simps) (rule like_when [OF refl like_cur [OF like] like])
  qed
qed

section \<open>The call on both pieces\<close>

definition carry :: "bool \<Rightarrow> (http_parser \<Rightarrow> int) \<Rightarrow> string \<Rightarrow> string \<Rightarrow> event list flow \<Rightarrow> event list flow" where
  "carry strict answer a b f =
     (case f of
        Returns n p u \<Rightarrow> if n = length a then shift n (loop strict (recorder answer) b (enter p u)) else Returns n p u
      | _ \<Rightarrow> f)"

lemma like_refl:
  assumes "good 0 r" "pos r \<le> length D" "pstate (parser r) \<noteq> s_dead"
  shows "like D D (nread r) (nread r) r r"
  using assms good_alone [of r] good_marks [of r] by (auto simp: like_def limits_def tracks_def good_def)

lemma live_iteration:
  assumes "good 0 r" "pos r < length D" "pstate (parser r) \<noteq> s_dead" "nread r < HTTP_MAX_HEADER_SIZE"
    and "iteration strict (recorder answer) D r = Runs s"
  shows "pstate (parser s) \<noteq> s_dead \<and> nread s \<le> Suc (nread r)"
  using like_iteration [OF like_refl [OF assms(1) _ assms(3)] assms(2,1,1,4,4), of strict answer] assms(2,5)
  by (simp add: like_def limits_def)

lemma loop_at_cut:
  assumes good: "good 0 r" and pos: "pos r = length a" and live: "pstate (parser r) \<noteq> s_dead" and b: "b \<noteq> []"
    and room: "nread r + length b \<le> HTTP_MAX_HEADER_SIZE"
  shows "alike (length (a @ b)) (loop strict (recorder answer) (a @ b) r) (carry strict answer a b (loop strict (recorder answer) a r))"
proof -
  let ?s = "enter (save r) (user r @ pieces a r)"
  have carry: "carry strict answer a b (loop strict (recorder answer) a r) =
      shift (length a) (loop strict (recorder answer) b ?s)"
    using pos by (simp add: carry_def loop_end finish_recorder)
  have small: "nread r mod 256 + length b \<le> HTTP_MAX_HEADER_SIZE"
    using room mod_less_eq_dividend [of "nread r" 256] by linarith
  show ?thesis
  proof (cases "cur r = s_dead")
    case False
    show ?thesis
      unfolding carry
      by (rule like_loop [OF like_cut [OF good pos live False] good good_enter [OF sound_save [OF good]]])
        (use pos room small in \<open>simp_all add: enter_def\<close>)
  next
    case True
    have dead: "iteration strict (recorder answer) D s = error (s\<lparr>nread := nread s + 1\<rparr>)" if "cur s = s_dead" for D s
      using that by (simp add: iteration_def on_state_def PARSING_HEADER_def Let_def)
    have "0 < length b" using b by simp
    with True pos show ?thesis
      unfolding carry by (simp add: loop_step dead enter_def save_def error_def public_def)
  qed
qed

lemma loop_cut:
  assumes "good 0 r" "pos r \<le> length a" "pstate (parser r) \<noteq> s_dead" "b \<noteq> []"
    "nread r + (length (a @ b) - pos r) \<le> HTTP_MAX_HEADER_SIZE"
  shows "alike (length (a @ b)) (loop strict (recorder answer) (a @ b) r) (carry strict answer a b (loop strict (recorder answer) a r))"
  using assms
proof (induction "length a - pos r" arbitrary: r rule: less_induct)
  case less
  show ?case
  proof (cases "pos r < length a")
    case False
    with less.prems show ?thesis by (intro loop_at_cut) auto
  next
    case pos: True
    then have pos': "pos r < length (a @ b)" by simp
    have room: "nread r < HTTP_MAX_HEADER_SIZE" using less.prems(5) pos' by linarith
    show ?thesis
    proof (cases "crosses a r")
      case crosses: True
      have marks: "marks r = (\<lambda>k. None)"
        using less.prems(1) crosses by (auto simp: crosses_def good_idle good_chunk)
      obtain s where s: "iteration strict (recorder answer) a r = Runs s" "s\<lparr>pos := pos s + 1\<rparr> = first_read a r"
        using crossing_first [OF pos crosses, of strict answer] by blast
      have t: "good 0 (first_read a r)" using good_iteration [OF less.prems(1) s(1)] s(2) by simp
      have "alike (length (a @ b)) (loop strict (recorder answer) (a @ b) r)
          (shift 0 (loop strict (recorder answer) (a @ b) (first_read a r)))"
      proof (rule loop_after_step [OF crossing_both [OF marks pos crosses less.prems(3,4)] pos'])
        show "pos (first_read a r) < length (a @ b)" using less.prems(4) by simp
        fix s1 s2
        assume s1: "iteration strict (recorder answer) (a @ b) r = Runs s1"
          and s2: "iteration strict (recorder answer) (a @ b) (first_read a r) = Runs s2"
          and like: "like (a @ b) (a @ b) (nread r) (nread r) (s1\<lparr>pos := pos s1 + 1\<rparr>) (s2\<lparr>pos := pos s2 + 1\<rparr>)"
        have "pos (first_read a r) < length (a @ b)" using less.prems(4) by simp
        note forward = iteration_forward [OF s1 pos'] iteration_forward [OF s2 this]
        show "alike (length (a @ b)) (loop strict (recorder answer) (a @ b) (s1\<lparr>pos := pos s1 + 1\<rparr>))
            (shift 0 (loop strict (recorder answer) (a @ b) (s2\<lparr>pos := pos s2 + 1\<rparr>)))"
          by (rule like_loop [OF like good_iteration [OF less.prems(1) s1] good_iteration [OF t s2]])
            (use less.prems(5) forward pos in auto)
      qed simp
      moreover have "shift 0 f = f" for f :: "event list flow" by (cases f) simp_all
      moreover have "loop strict (recorder answer) a r = loop strict (recorder answer) a (first_read a r)"
        using pos s by (simp add: loop_step)
      moreover have "alike (length (a @ b)) (loop strict (recorder answer) (a @ b) (first_read a r))
          (carry strict answer a b (loop strict (recorder answer) a (first_read a r)))"
        by (rule loop_at_cut [OF t]) (use less.prems(3,4,5) pos in auto)
      ultimately show ?thesis by (metis alike_trans)
    next
      case False
      note same = iteration_append [OF pos False, of strict answer b]
      show ?thesis
      proof (cases "iteration strict (recorder answer) a r")
        case (Runs s)
        note forward = iteration_forward [OF Runs pos]
        note live = live_iteration [OF less.prems(1) pos less.prems(3) room Runs]
        have "alike (length (a @ b)) (loop strict (recorder answer) (a @ b) (s\<lparr>pos := pos s + 1\<rparr>))
            (carry strict answer a b (loop strict (recorder answer) a (s\<lparr>pos := pos s + 1\<rparr>)))"
          by (rule less.hyps) (use forward live pos less.prems(4,5) good_iteration [OF less.prems(1) Runs] in auto)
        then show ?thesis using pos Runs same by (simp add: loop_step)
      next
        case (Returns n p u)
        with inside_iteration [OF pos, of strict "recorder answer"] have "n < length a" by simp
        then show ?thesis using pos same by (simp add: loop_step Returns carry_def)
      next
        case (Faults e)
        then show ?thesis using pos same by (simp add: loop_step carry_def)
      qed
    qed
  qed
qed

section \<open>All the pieces\<close>

text \<open>The calls for the pieces, for as long as all of a piece is taken.\<close>

fun feed :: "bool \<Rightarrow> 'u http_parser_settings \<Rightarrow> string list \<Rightarrow> http_parser \<Rightarrow> 'u \<Rightarrow> 'u flow" where
  "feed strict settings [] p u = Returns 0 p u"
| "feed strict settings (d # ds) p u =
     (case http_parser_execute strict settings d p u of
        Returns n p' u' \<Rightarrow> if n = length d then shift n (feed strict settings ds p' u') else Returns n p' u'
      | f \<Rightarrow> f)"

lemma execute_cut:
  assumes "sound p" "a \<noteq> []" "b \<noteq> []" "256 + length (a @ b) \<le> HTTP_MAX_HEADER_SIZE"
  shows "alike (length (a @ b)) (http_parser_execute strict (recorder answer) (a @ b) p u)
    (case http_parser_execute strict (recorder answer) a p u of
       Returns n p' u' \<Rightarrow> if n = length a then shift n (http_parser_execute strict (recorder answer) b p' u') else Returns n p' u'
     | f \<Rightarrow> f)"
proof (cases "pstate p = s_dead")
  case False
  have "alike (length (a @ b)) (loop strict (recorder answer) (a @ b) (enter p u))
      (carry strict answer a b (loop strict (recorder answer) a (enter p u)))"
    by (rule loop_cut [OF good_enter [OF assms(1)]])
      (use False assms in \<open>auto simp: enter_def sound_def\<close>)
  with assms(2,3) show ?thesis
    by (cases "loop strict (recorder answer) a (enter p u)") (auto simp: http_parser_execute_def carry_def split: if_splits)
next
  case True
  have "iteration strict (recorder answer) D (enter p u) = error ((enter p u)\<lparr>nread := pnread p + 1\<rparr>)" for D
    using True by (simp add: iteration_def on_state_def PARSING_HEADER_def Let_def enter_def)
  with assms(2,3) show ?thesis
    by (simp add: http_parser_execute_def loop_step error_def enter_def)
qed

lemma alike_refl: "after (\<lambda>r. False) (\<lambda>n p u. True) (\<lambda>e. True) f \<Longrightarrow> alike N f f"
  by (cases f) simp_all

lemma alike_shift: "alike N f g \<Longrightarrow> alike (n + N) (shift n f) (shift n g)"
  by (cases f; cases g) auto

text \<open>C3: the callbacks get the same from the pieces of the data as from all of it at once.  For a parser between two calls and pieces
  of any length but zero, the calls stop at the same character, with the same fields, dead or alive; if they take all of the data the
  parsers are the same in everything, and what was written down is the same when adjacent parts of one name, value or body are joined.
  The data are less than the headers may have, because \<^verbatim>\<open>nread\<close> is cut to a byte between the calls, so a longer header is found
  only when it comes at once.
\<close>

theorem pieces_are_the_whole:
  assumes "sound p" "ds \<noteq> []" "\<forall>d\<in>set ds. d \<noteq> []" "256 + length (concat ds) \<le> HTTP_MAX_HEADER_SIZE"
  shows "alike (length (concat ds)) (http_parser_execute strict (recorder answer) (concat ds) p u)
    (feed strict (recorder answer) ds p u)"
  using assms
proof (induction ds arbitrary: p u)
  case (Cons d ds)
  have d: "d \<noteq> []" using Cons.prems(3) by simp
  note usable = execute_usable [OF Cons.prems(1) d, of "recorder answer" strict u]
  show ?case
  proof (cases "ds = []")
    case True
    have "alike (length d) (http_parser_execute strict (recorder answer) d p u) (http_parser_execute strict (recorder answer) d p u)"
      by (rule alike_refl) (rule after_mono [OF usable], simp_all)
    with True usable show ?thesis
      by (cases "http_parser_execute strict (recorder answer) d p u") auto
  next
    case False
    then have rest: "concat ds \<noteq> []" using Cons.prems(3) by (cases ds) auto
    have "alike (length (d @ concat ds)) (http_parser_execute strict (recorder answer) (d @ concat ds) p u)
      (case http_parser_execute strict (recorder answer) d p u of
         Returns n p' u' \<Rightarrow>
           if n = length d then shift n (http_parser_execute strict (recorder answer) (concat ds) p' u') else Returns n p' u'
       | f \<Rightarrow> f)"
      by (rule execute_cut [OF Cons.prems(1) d rest]) (use Cons.prems(4) in simp)
    note * = this
    show ?thesis
    proof (cases "http_parser_execute strict (recorder answer) d p u")
      case (Returns n p' u')
      show ?thesis
      proof (cases "n = length d")
        case whole: True
        then have "sound p'" using usable Returns obedient_recorder by (simp add: usable_def)
        then have "alike (length (concat ds)) (http_parser_execute strict (recorder answer) (concat ds) p' u')
            (feed strict (recorder answer) ds p' u')"
          by (rule Cons.IH [OF _ False]) (use Cons.prems(3,4) in auto)
        from alike_shift [OF this, of n] * whole Returns show ?thesis
          by (simp add: alike_trans)
      qed (use * Returns in simp)
    qed (use * usable in auto)
  qed
qed simp

lemma pieces_are_the_whole_witness:
  "alike 18 (http_parser_execute True (recorder (\<lambda>p. 0)) (''GET / HTTP/1.1'' @ [CR, LF, CR, LF])
      (http_parser_init HTTP_REQUEST blank_parser) [])
    (feed True (recorder (\<lambda>p. 0)) [''GE'', ''T / HT'', ''TP/1.1'' @ [CR], [LF, CR], [LF]]
      (http_parser_init HTTP_REQUEST blank_parser) [])"
proof -
  let ?ds = "[''GE'', ''T / HT'', ''TP/1.1'' @ [CR], [LF, CR], [LF]]" and ?p = "http_parser_init HTTP_REQUEST blank_parser"
  have "alike (length (concat ?ds)) (http_parser_execute True (recorder (\<lambda>p. 0)) (concat ?ds) ?p [])
      (feed True (recorder (\<lambda>p. 0)) ?ds ?p [])"
    by (rule pieces_are_the_whole [OF sound_blank]) (simp_all add: HTTP_MAX_HEADER_SIZE_def)
  then show ?thesis by (simp add: numeral_eq_Suc del: feed.simps)
qed

end
