(* ===== verification/HttpRequest.thy ===== *)
theory HttpRequest
  imports HttpSplit
begin

text \<open>
  What \<^verbatim>\<open>http_parser_execute\<close> does with a request for a path, and with a method that it does not know.
\<close>

section \<open>Some steps of the loop\<close>

text \<open>The first \<open>k\<close> steps, for the simplifier.\<close>

fun steps :: "nat \<Rightarrow> bool \<Rightarrow> 'u http_parser_settings \<Rightarrow> string \<Rightarrow> 'u run \<Rightarrow> 'u flow" where
  "steps 0 strict settings data r = Runs r"
| "steps (Suc k) strict settings data r =
     (if pos r < length data
      then andthen (iteration strict settings data r) (\<lambda>r. steps k strict settings data (r\<lparr>pos := pos r + 1\<rparr>))
      else Runs r)"

lemma loop_steps: "loop strict settings data r = andthen (steps k strict settings data r) (loop strict settings data)"
proof (induction k arbitrary: r)
  case (Suc k)
  then show ?case
    by (cases "pos r < length data") (simp_all add: loop_step andthen_assoc flip: Suc)
qed simp

lemma steps_loop: "steps k strict settings data r = Runs s \<Longrightarrow> loop strict settings data r = loop strict settings data s"
  by (subst loop_steps [of strict settings data r k]) simp

lemma header_iteration: "PARSING_HEADER (cur r) \<Longrightarrow> nread r < HTTP_MAX_HEADER_SIZE \<Longrightarrow>
    iteration strict settings data r = on_state strict settings data (data ! pos r) (r\<lparr>nread := nread r + 1\<rparr>)"
  by (simp add: iteration_def Let_def)

text \<open>The steps are simplified one after the other.\<close>

lemma andthen_weak_cong: "f = f' \<Longrightarrow> andthen f g = andthen f' g"
  by simp

lemmas step_simps = header_iteration PARSING_HEADER_def on_state_def goes_def upd_def STRICT_CHECK_def

lemma char_values: "CR = CHR 0x0D" "LF = CHR 0x0A" "NUL = CHR 0x00"
  unfolding CR_def LF_def NUL_def by code_simp+

section \<open>A request\<close>

definition get_message :: "string \<Rightarrow> string" where
  "get_message path = ''GET '' @ path @ '' HTTP/1.1'' @ [CR, LF, CR, LF]"

lemma get_message_nth:
  "get_message path ! 0 = CHR ''G''" "get_message path ! Suc 0 = CHR ''E''" "get_message path ! Suc (Suc 0) = CHR ''T''"
  "get_message path ! Suc (Suc (Suc 0)) = CHR '' ''"
  "length (get_message path) = length path + 17"
  "j < length path \<Longrightarrow> get_message path ! (j + 4) = path ! j"
  "get_message path ! (length path + 4 + j) = ('' HTTP/1.1'' @ [CR, LF, CR, LF]) ! j"
  by (simp_all add: get_message_def nth_append)

lemma version_nth:
  "get_message path ! (4 + length path) = CHR '' ''"
  "get_message path ! (5 + length path) = CHR ''H''"
  "get_message path ! (6 + length path) = CHR ''T''"
  "get_message path ! (7 + length path) = CHR ''T''"
  "get_message path ! (8 + length path) = CHR ''P''"
  "get_message path ! (9 + length path) = CHR ''/''"
  "get_message path ! (10 + length path) = CHR ''1''"
  "get_message path ! (11 + length path) = CHR ''.''"
  "get_message path ! (12 + length path) = CHR ''1''"
  "get_message path ! (13 + length path) = CR"
  "get_message path ! (14 + length path) = LF"
  "get_message path ! (15 + length path) = CR"
  "get_message path ! (16 + length path) = LF"
  by (simp_all add: get_message_def nth_append)

lemma get_slice: "slice (get_message path) 4 (4 + length path) = path"
  by (simp add: slice_def get_message_def)

text \<open>The parser at the beginning of the message, when the method is known, and at the end.\<close>

definition begun :: "http_parser \<Rightarrow> http_parser" where
  "begun p = p\<lparr>flags := {}, content_length := - 1\<rparr>"

definition get_begun :: "http_parser \<Rightarrow> http_parser" where
  "get_begun p = p\<lparr>flags := {}, content_length := - 1, pmethod := HTTP_GET\<rparr>"

definition get_ended :: "http_parser \<Rightarrow> http_parser" where
  "get_ended p = p\<lparr>flags := {}, content_length := - 1, http_major := 1, http_minor := 1, pmethod := HTTP_GET\<rparr>"

text \<open>The run before the path, after \<open>k\<close> characters of it, after it, after the version and at the end.\<close>

definition before_path :: "http_parser \<Rightarrow> event list \<Rightarrow> event list run" where
  "before_path p u =
     \<lparr>parser = get_begun p, cur = s_req_spaces_before_url, hstate = pheader_state p, index = 4, nread = 4, pos = 4,
      marks = (\<lambda>k. None), user = u @ [Begin (public (begun p))]\<rparr>"

definition in_path :: "http_parser \<Rightarrow> event list \<Rightarrow> nat \<Rightarrow> event list run" where
  "in_path p u k = (before_path p u)
     \<lparr>cur := s_req_path, nread := 4 + k, pos := 4 + k, marks := [Url \<mapsto> 4, Path \<mapsto> 4]\<rparr>"

definition after_path :: "http_parser \<Rightarrow> event list \<Rightarrow> string \<Rightarrow> event list run" where
  "after_path p u path = (before_path p u)
     \<lparr>cur := s_req_http_start, nread := Suc (4 + length path), pos := Suc (4 + length path),
      user := u @ [Begin (public (begun p)), Data Url path, Data Path path]\<rparr>"

definition after_version :: "http_parser \<Rightarrow> event list \<Rightarrow> string \<Rightarrow> event list run" where
  "after_version p u path = (after_path p u path)
     \<lparr>parser := get_ended p, cur := s_req_http_minor, nread := 13 + length path, pos := 13 + length path\<rparr>"

definition after_headers :: "http_parser \<Rightarrow> event list \<Rightarrow> string \<Rightarrow> event list run" where
  "after_headers p u path = (after_version p u path)
     \<lparr>cur := s_body_identity, nread := 0, pos := 17 + length path,
      user := u @ [Begin (public (begun p)), Data Url path, Data Path path, Headers (public (get_ended p))]\<rparr>"

lemmas parser_defs = begun_def get_begun_def get_ended_def

lemma start_marks: "(\<lambda>k. if pending s_start_req k then Some 0 else None) = (\<lambda>k. None)"
  by (auto simp: pending_def split: data_cb.split)

lemma method_read:
  assumes "HTTP_MAX_HEADER_SIZE = m" "10 < m" "pstate p = s_start_req" "pnread p = 0"
  shows "steps (Suc (Suc (Suc (Suc 0)))) strict (recorder answer) (get_message path) (enter p u) = Runs (before_path p u)"
  using assms(2-)
  by (simp add: enter_def start_marks step_simps get_message_nth on_start_req_def char_values assms(1) fresh_message_def
      note_event_def between_def start_req_method_assign_def first_method_def Let_def on_req_method_def before_path_def
      parser_defs cong: andthen_weak_cong del: public_update)

lemma path_begins:
  "4 < HTTP_MAX_HEADER_SIZE \<Longrightarrow> path = CHR ''/'' # rest \<Longrightarrow>
    steps (Suc 0) strict (recorder answer) (get_message path) (before_path p u) = Runs (in_path p u 1)"
  using get_message_nth(6) [of 0 path]
  by (simp add: before_path_def in_path_def step_simps get_message_nth on_req_spaces_before_url_def MARK_def)

lemma path_continues:
  assumes "k < length path" "4 + k < HTTP_MAX_HEADER_SIZE" "url_char (path ! k)"
  shows "loop strict (recorder answer) (get_message path) (in_path p u k) =
    loop strict (recorder answer) (get_message path) (in_path p u (Suc k))"
  using assms get_message_nth(6) [OF assms(1)]
  by (simp add: before_path_def in_path_def loop_step step_simps get_message_nth on_req_path_def add.commute)

lemma path_read:
  assumes "length path + 4 < HTTP_MAX_HEADER_SIZE" "1 \<le> k" "k \<le> length path"
    "\<And>j. 1 \<le> j \<Longrightarrow> j < length path \<Longrightarrow> url_char (path ! j)"
  shows "loop strict (recorder answer) (get_message path) (in_path p u 1) =
    loop strict (recorder answer) (get_message path) (in_path p u k)"
  using assms(2,3)
proof (induction k rule: dec_induct)
  case (step k)
  then show ?case using path_continues [of k path strict answer p u] assms by simp
qed simp

lemma space_ends: "\<not> url_char CHR '' ''"
  by code_simp

lemma path_ends:
  assumes "4 + length path < HTTP_MAX_HEADER_SIZE"
  shows "steps (Suc 0) strict (recorder answer) (get_message path) (in_path p u (length path)) = Runs (after_path p u path)"
  using assms
  by (simp add: in_path_def before_path_def step_simps get_message_nth(5) version_nth on_req_path_def space_ends url_ends_def
      Let_def flush_Some get_slice after_path_def fun_eq_iff)

lemma version_chars: "between CHR ''1'' CHR ''9'' CHR ''1''" "digit CHR ''1''" "digit_value CHR ''1'' = 1" "\<not> digit CHR ''.''"
  by code_simp+

lemma version_read:
  assumes "HTTP_MAX_HEADER_SIZE = m" "length path + 17 \<le> m"
  shows "steps (Suc (Suc (Suc (Suc (Suc (Suc (Suc (Suc 0)))))))) strict (recorder answer) (get_message path) (after_path p u path)
     = Runs (after_version p u path)"
  using assms(2-)
  by (simp add: after_path_def before_path_def after_version_def get_message_nth(5) version_nth step_simps assms(1) line_defs
      char_values version_chars parser_defs cong: andthen_weak_cong)

text \<open>No length was given: the largest length is taken for one that was.\<close>

lemma largest_length: "(0 :: 64 word) < - 1"
  by (simp add: word_gt_0)

lemma headers_read:
  assumes "HTTP_MAX_HEADER_SIZE = m" "length path + 17 \<le> m" "\<not> upgrade p" "answer (public (get_ended p)) = 0"
  shows "steps (Suc (Suc (Suc (Suc 0)))) strict (recorder answer) (get_message path) (after_version p u path)
     = Runs (after_headers p u path)"
  using assms(2-)
  by (simp add: before_path_def after_path_def after_version_def after_headers_def get_message_nth(5) version_nth step_simps
      assms(1) on_req_http_minor_def on_req_line_almost_done_def on_header_field_start_def on_headers_almost_done_def
      char_values Let_def note_event_def body_follows_def parser_defs largest_length cong: andthen_weak_cong del: public_update)

lemma get_loop:
  assumes "path = CHR ''/'' # rest" "\<forall>c\<in>set rest. url_char c" "length path + 17 \<le> HTTP_MAX_HEADER_SIZE"
    "pstate p = s_start_req" "pnread p = 0" "\<not> upgrade p" "answer (public (get_ended p)) = 0"
  shows "loop strict (recorder answer) (get_message path) (enter p u) =
    Returns (length path + 17) (save (after_headers p u path)) (user (after_headers p u path))"
proof -
  have "url_char (path ! j)" if "1 \<le> j" "j < length path" for j
    using that assms(1,2) by (cases j) auto
  note read = path_read [OF _ _ order.refl this, of strict answer p u]
  have "marks (after_headers p u path) = (\<lambda>k. None)"
    by (simp add: after_headers_def after_version_def after_path_def before_path_def)
  then have "loop strict (recorder answer) (get_message path) (after_headers p u path) =
      Returns (length path + 17) (save (after_headers p u path)) (user (after_headers p u path))"
    by (simp add: loop_end after_headers_def get_message_nth(5) finish_recorder pieces_def piece_def)
  moreover have "1 \<le> length path" using assms(1) by simp
  moreover have "4 < HTTP_MAX_HEADER_SIZE" "10 < HTTP_MAX_HEADER_SIZE" "length path + 4 < HTTP_MAX_HEADER_SIZE"
    using assms(3) by (simp_all add: HTTP_MAX_HEADER_SIZE_def)
  ultimately show ?thesis
    using steps_loop [OF method_read [OF refl _ assms(4,5)], of strict answer path u]
      steps_loop [OF path_begins [OF _ assms(1)], of strict answer p u] read
      steps_loop [OF path_ends, of path strict answer p u] steps_loop [OF version_read [OF refl assms(3)], of strict answer p u]
      steps_loop [OF headers_read [where answer = answer and p = p, OF refl assms(3,6,7)], of strict u]
    by (simp add: add.commute)
qed

lemma get_execute:
  assumes "path = CHR ''/'' # rest" "\<forall>c\<in>set rest. url_char c" "length path + 17 \<le> HTTP_MAX_HEADER_SIZE"
    and "p = http_parser_init HTTP_REQUEST q" and "answer (public (get_ended p)) = 0"
  shows "http_parser_execute strict (recorder answer) (get_message path) p u =
    Returns (length (get_message path))
      ((get_ended p)\<lparr>pstate := s_body_identity, pheader_state := pheader_state q, pindex := 4, pnread := 0\<rparr>)
      (u @ [Begin (public (begun p)), Data Url path, Data Path path, Headers (public (get_ended p))])"
proof -
  have "pstate p = s_start_req" "pnread p = 0" "\<not> upgrade p" "pheader_state p = pheader_state q"
    using assms(4) by (simp_all add: http_parser_init_def)
  moreover have "get_message path \<noteq> []" by (simp add: get_message_def)
  ultimately show ?thesis
    using get_loop [where answer = answer and p = p, OF assms(1-3) _ _ _ assms(5), of strict u]
    by (simp add: http_parser_execute_def get_message_nth(5) save_def after_headers_def after_version_def after_path_def before_path_def)
qed

section \<open>What follows it\<close>

lemma body_loop:
  assumes "pstate p = s_body_identity" "data \<noteq> []" "length data < unat (content_length p)" "pindex p < 256" "pnread p < 256"
  shows "http_parser_execute strict (recorder answer) data p u =
    Returns (length data) (p\<lparr>content_length := content_length p - of_nat (length data)\<rparr>) (u @ [Body data])"
proof -
  let ?r = "enter p u"
  have r: "pos ?r = 0" "cur ?r = s_body_identity" "parser ?r = p" "marks ?r = (\<lambda>k. None)" "user ?r = u"
      "hstate ?r = pheader_state p" "index ?r = pindex p" "nread ?r = pnread p"
    using assms(1) by (auto simp: enter_def pending_def split: data_cb.split)
  have "crosses data ?r" using assms(3) r by (simp add: crosses_def)
  then obtain s where s: "iteration strict (recorder answer) data ?r = Runs s" "s\<lparr>pos := pos s + 1\<rparr> = first_read data ?r"
    using crossing_first [of ?r data strict answer] assms(2) r by auto
  have "save (first_read data ?r) = p\<lparr>content_length := content_length p - of_nat (length data)\<rparr>"
    using r assms(1,4,5) by (simp add: save_def first_read_def Let_def upd_def note_event_def)
  moreover have "pieces data (first_read data ?r) = []"
    using r by (simp add: pieces_def piece_def)
  moreover have "loop strict (recorder answer) data ?r = finish (recorder answer) data (first_read data ?r)"
    using s assms(2) r by (simp add: loop_step loop_end)
  ultimately show ?thesis
    using assms(2) r by (simp add: http_parser_execute_def finish_recorder)
qed

text \<open>C8: a request for a path on a new connection is read as it should be: the callbacks get the beginning of a message, the URL, the
  path and the headers of version 1.1, in this order, and all of the data is taken.  But as no length was given, the parser then waits
  for a body of the largest length there is: \<^verbatim>\<open>on_message_complete\<close> is not called, and whatever the client
  sends next, a second request as well, is given to \<^verbatim>\<open>on_body\<close>.
\<close>

theorem get_request:
  assumes "path = CHR ''/'' # rest" "\<forall>c\<in>set rest. url_char c" "length path + 17 \<le> HTTP_MAX_HEADER_SIZE"
    and "p = http_parser_init HTTP_REQUEST q" and "answer (public (get_ended p)) = 0"
    and "data \<noteq> []" "length data < 2 ^ 64 - 1"
  shows "http_parser_execute strict (recorder answer) (get_message path) p u =
      Returns (length (get_message path))
        ((get_ended p)\<lparr>pstate := s_body_identity, pheader_state := pheader_state q, pindex := 4, pnread := 0\<rparr>)
        (u @ [Begin (public (begun p)), Data Url path, Data Path path, Headers (public (get_ended p))]) \<and>
    (\<exists>p'. feed strict (recorder answer) [get_message path, data] p u =
      Returns (length (get_message path) + length data) p'
        (u @ [Begin (public (begun p)), Data Url path, Data Path path, Headers (public (get_ended p)), Body data]))"
proof -
  have "unat (- 1 :: 64 word) = 2 ^ 64 - 1"
    by (simp add: unsigned_minus_1_eq_mask mask_eq_exp_minus_1)
  with assms(6,7) get_execute [where answer = answer and p = p, OF assms(1-5), of strict u] show ?thesis
    by (simp add: body_loop get_ended_def)
qed

lemma get_request_witness:
  "\<exists>p'. feed True (recorder (\<lambda>p. 0)) [get_message ''/a'', get_message ''/b''] (http_parser_init HTTP_REQUEST blank_parser) [] =
    (let p = http_parser_init HTTP_REQUEST blank_parser in
     Returns 38 p' [Begin (public (begun p)), Data Url ''/a'', Data Path ''/a'', Headers (public (get_ended p)),
       Body (get_message ''/b'')])"
proof -
  have "url_char CHR ''a''" by code_simp
  moreover have "get_message ''/b'' \<noteq> []" by (simp add: get_message_def)
  ultimately show ?thesis
    using get_request [of "''/a''" "''a''" "http_parser_init HTTP_REQUEST blank_parser" blank_parser "\<lambda>p. 0"
      "get_message ''/b''" True "[]"]
    by (simp add: HTTP_MAX_HEADER_SIZE_def get_message_nth(5) Let_def del: feed.simps)
qed

section \<open>A method that is not known\<close>

text \<open>\<open>k\<close> characters of it have been taken for those of \<^verbatim>\<open>CONNECT\<close>.\<close>

definition in_method :: "http_parser \<Rightarrow> event list \<Rightarrow> nat \<Rightarrow> event list run" where
  "in_method p u k =
     \<lparr>parser = p\<lparr>flags := {}, content_length := - 1, pmethod := HTTP_CONNECT\<rparr>, cur = s_req_method, hstate = pheader_state p,
      index = k, nread = k, pos = k, marks = (\<lambda>k. None), user = u @ [Begin (public (begun p))]\<rparr>"

lemma method_begins:
  assumes "pstate p = s_start_req" "pnread p = 0"
  shows "steps (Suc 0) strict (recorder answer) (CHR ''C'' # s) (enter p u) = Runs (in_method p u 1)"
  using assms
  by (simp add: enter_def start_marks step_simps HTTP_MAX_HEADER_SIZE_def on_start_req_def char_values fresh_message_def
      note_event_def between_def start_req_method_assign_def first_method_def Let_def in_method_def begun_def del: public_update)

text \<open>The characters behind the first, as far as they are compared, leave the method what it is.\<close>

definition stays_connect :: "string \<Rightarrow> bool" where
  "stays_connect w \<longleftrightarrow> 8 \<le> length w \<and> NUL \<notin> set (take 8 w) \<and> w ! 0 \<noteq> CHR ''H'' \<and> w ! 1 \<noteq> CHR ''P'' \<and> w ! 6 \<noteq> CHR '' ''"

lemma stays_connect_nth:
  assumes "stays_connect w" "1 \<le> k" "k \<le> 8"
  shows "k < Suc (length w) \<and> (CHR ''C'' # w) ! k \<noteq> NUL"
proof -
  have "k - 1 < length (take 8 w)" "k - 1 < 8" using assms by (auto simp: stays_connect_def)
  from nth_mem [OF this(1)] this have "w ! (k - 1) \<in> set (take 8 w)" by simp
  then show ?thesis using assms by (auto simp: stays_connect_def nth_Cons')
qed

lemma method_continues:
  assumes "stays_connect w" "1 \<le> k" "k \<le> 7"
  shows "loop strict (recorder answer) (CHR ''C'' # w) (in_method p u k) =
    loop strict (recorder answer) (CHR ''C'' # w) (in_method p u (Suc k))"
proof -
  define ch where "ch = (CHR ''C'' # w) ! k"
  define c where "c = (if k = 7 then NUL else ''CONNECT'' ! k)"
  have n: "k < Suc (length w)" "ch \<noteq> NUL" using stays_connect_nth assms by (auto simp: ch_def)
  have "k = 1 \<longrightarrow> ch \<noteq> CHR ''H''" "k = 2 \<longrightarrow> ch \<noteq> CHR ''P''" "k = 7 \<longrightarrow> ch \<noteq> CHR '' ''"
    using assms(1) by (auto simp: stays_connect_def ch_def)
  note other = this
  have "NUL \<notin> set ''CONNECT''" by code_simp
  then have "''CONNECT'' ! k \<noteq> NUL" if "k < 7"
    using that nth_mem [of k "''CONNECT''"] by auto
  with other(3) assms(3) have space: "\<not> (ch = CHR '' '' \<and> c = NUL)" by (auto simp: c_def)
  have m: "pmethod (parser ((in_method p u k)\<lparr>nread := Suc k\<rparr>)) = HTTP_CONNECT"
      "index ((in_method p u k)\<lparr>nread := Suc k\<rparr>) = k" by (simp_all add: in_method_def)
  have c: "(if k = length ''CONNECT'' then NUL else ''CONNECT'' ! k) = c" by (simp add: c_def)
  have "other_method HTTP_CONNECT k ch = Some HTTP_CONNECT" using other by (auto simp: other_method_def)
  then have "on_req_method ch ((in_method p u k)\<lparr>nread := Suc k\<rparr>) = Runs ((in_method p u k)\<lparr>nread := Suc k, index := Suc k\<rparr>)"
    using n(2) space assms(3) unfolding on_req_method_def Let_def m method_strings.simps c
    by (cases "ch = c") (auto simp: upd_def in_method_def)
  then show ?thesis
    using n assms(3) by (simp add: in_method_def loop_step step_simps HTTP_MAX_HEADER_SIZE_def ch_def [symmetric])
qed

lemma method_runs:
  assumes "stays_connect w" "1 \<le> k" "k \<le> 8"
  shows "loop strict (recorder answer) (CHR ''C'' # w) (in_method p u 1) = loop strict (recorder answer) (CHR ''C'' # w) (in_method p u k)"
  using assms(2,3)
proof (induction k rule: dec_induct)
  case (step k)
  then show ?case using method_continues [OF assms(1) step(1)] by simp
qed simp

text \<open>C39: a word that begins with C and is not taken for \<^verbatim>\<open>CHECKOUT\<close>, for \<^verbatim>\<open>COPY\<close> or, at a blank behind seven characters, for
  \<^verbatim>\<open>CONNECT\<close> is not found to be wrong.  Whatever its other characters are, but for the zero, they are compared with those of
  \<^verbatim>\<open>CONNECT\<close> until they are longer than the name, and the ninth with what lies in memory behind it.
\<close>

theorem unknown_method_overreads:
  assumes "stays_connect w"
  shows "http_parser_execute strict (recorder answer) (CHR ''C'' # w) (http_parser_init HTTP_REQUEST p) u = Faults Undefined"
proof -
  let ?p = "http_parser_init HTTP_REQUEST p"
  have "loop strict (recorder answer) (CHR ''C'' # w) (in_method ?p u 8) = Faults Undefined"
    using stays_connect_nth [OF assms, of 8]
    by (simp add: in_method_def loop_step step_simps HTTP_MAX_HEADER_SIZE_def on_req_method_def Let_def)
  moreover have "pstate ?p = s_start_req" "pnread ?p = 0" by (simp_all add: http_parser_init_def)
  ultimately show ?thesis
    using steps_loop [OF method_begins, of ?p strict answer w u] method_runs [OF assms, of 8 strict answer ?p u]
    by (simp add: http_parser_execute_def)
qed

lemma unknown_method_overreads_witness:
  "http_parser_execute True (recorder (\<lambda>p. 0)) ''CONNECTIONS'' (http_parser_init HTTP_REQUEST blank_parser) [] = Faults Undefined \<and>
   http_parser_execute True (recorder (\<lambda>p. 0)) ''CREATE /a HTTP/1.1'' (http_parser_init HTTP_REQUEST blank_parser) [] = Faults Undefined"
proof -
  have "stays_connect ''ONNECTIONS''" "stays_connect ''REATE /a HTTP/1.1''" by code_simp+
  then show ?thesis using unknown_method_overreads [of _ True "\<lambda>p. 0" blank_parser "[]"] by blast
qed

end
