(* ===== verification/HttpChunks.thy ===== *)
theory HttpChunks
  imports HttpSplit
begin

text \<open>
  A body in chunks, as the client writes it and as \<^verbatim>\<open>http_parser_execute\<close> reads it.
\<close>

section \<open>Writing chunks\<close>

fun hex_digits :: "nat \<Rightarrow> nat list" where
  "hex_digits n = (if n < 16 then [n] else hex_digits (n div 16) @ [n mod 16])"

declare hex_digits.simps [simp del]

definition hex_char :: "nat \<Rightarrow> char" where
  "hex_char d = ''0123456789abcdef'' ! d"

definition to_hex :: "nat \<Rightarrow> string" where
  "to_hex n = map hex_char (hex_digits n)"

definition encode_chunk :: "string \<Rightarrow> string" where
  "encode_chunk b = to_hex (length b) @ [CR, LF] @ b @ [CR, LF]"

definition encode_chunks :: "string list \<Rightarrow> string" where
  "encode_chunks bs = concat (map encode_chunk bs) @ CHR ''0'' # [CR, LF, CR, LF]"

lemma hex_digits_less: "d \<in> set (hex_digits n) \<Longrightarrow> d < 16"
proof (induction n rule: hex_digits.induct)
  case (1 n)
  then show ?case by (auto simp: hex_digits.simps [of n] split: if_splits)
qed

lemma hex_digits_value: "foldl (\<lambda>a d. a * 16 + d) 0 (hex_digits n) = n"
proof (induction n rule: hex_digits.induct)
  case (1 n)
  then show ?case by (subst hex_digits.simps) auto
qed

lemma hex_digits_length: "n < 16 ^ Suc k \<Longrightarrow> length (hex_digits n) \<le> Suc k"
proof (induction k arbitrary: n)
  case (Suc k)
  show ?case
  proof (cases "n < 16")
    case False
    from Suc.prems have "n div 16 < 16 ^ Suc k" by (simp add: less_mult_imp_div_less mult.commute)
    from Suc.IH [OF this] False show ?thesis by (subst hex_digits.simps) simp
  qed (subst hex_digits.simps, simp)
qed (subst hex_digits.simps, simp)

lemma hex_digits_not_Nil: "hex_digits n \<noteq> []"
  by (subst hex_digits.simps) simp

lemma unhex_hex: "d < 16 \<Longrightarrow> unhex_digit (hex_char d) = int d \<and> hex_char d \<noteq> CR"
proof -
  have "list_all (\<lambda>d. unhex_digit (hex_char d) = int d \<and> hex_char d \<noteq> CR) [0..<16]" by code_simp
  then show "d < 16 \<Longrightarrow> ?thesis" by (simp add: list_all_iff)
qed

text \<open>The value of digits in the 64 bits of the field.\<close>

definition hex_word :: "64 word \<Rightarrow> nat list \<Rightarrow> 64 word" where
  "hex_word = foldl (\<lambda>w d. w * 16 + of_nat d)"

lemma hex_word_value: "hex_word (of_nat a) ds = of_nat (foldl (\<lambda>a d. a * 16 + d) a ds)"
proof (induction ds arbitrary: a)
  case (Cons d ds)
  from Cons [of "a * 16 + d"] show ?case by (simp add: hex_word_def)
qed (simp add: hex_word_def)

lemma hex_word_digits: "hex_word 0 (hex_digits n) = of_nat n"
  using hex_word_value [of 0 "hex_digits n"] by (simp add: hex_digits_value)

section \<open>Reading the size\<close>

text \<open>A run in a body of chunks: \<open>c\<close> is the length and \<open>n\<close> what is counted of the line.\<close>

definition chunk_run :: "http_parser \<Rightarrow> event list \<Rightarrow> state \<Rightarrow> 64 word \<Rightarrow> nat \<Rightarrow> nat \<Rightarrow> event list run" where
  "chunk_run p u s c n i =
     \<lparr>parser = p\<lparr>content_length := c\<rparr>, cur = s, hstate = pheader_state p, index = pindex p, nread = n, pos = i,
      marks = (\<lambda>k. None), user = u\<rparr>"

text \<open>After the last chunk, which is empty.\<close>

definition trailing :: "http_parser \<Rightarrow> http_parser" where
  "trailing p = p\<lparr>content_length := 0, flags := insert F_TRAILING (flags p)\<rparr>"

definition trailing_run :: "http_parser \<Rightarrow> event list \<Rightarrow> state \<Rightarrow> nat \<Rightarrow> nat \<Rightarrow> event list run" where
  "trailing_run p u s n i = (chunk_run p u s 0 n i)\<lparr>parser := trailing p\<rparr>"

lemma drop_char: "drop i data = c # cs \<Longrightarrow> i < length data \<and> data ! i = c \<and> drop (Suc i) data = cs"
  by (metis drop_eq_Nil2 list.discI linorder_not_le Cons_nth_drop_Suc list.inject)

lemma loop_header:
  assumes "drop (pos r) data = ch # cs" "PARSING_HEADER (cur r)" "nread r < HTTP_MAX_HEADER_SIZE"
  shows "loop strict settings data r =
    andthen (on_state strict settings data ch (r\<lparr>nread := nread r + 1\<rparr>)) (\<lambda>r. loop strict settings data (r\<lparr>pos := pos r + 1\<rparr>))"
  using drop_char [OF assms(1)] assms(2,3) by (simp add: loop_step iteration_def Let_def)

lemma loop_body:
  assumes "drop (pos r) data = ch # cs" "\<not> PARSING_HEADER (cur r)"
  shows "loop strict settings data r =
    andthen (on_state strict settings data ch r) (\<lambda>r. loop strict settings data (r\<lparr>pos := pos r + 1\<rparr>))"
  using drop_char [OF assms(1)] assms(2) by (simp add: loop_step iteration_def Let_def)

lemmas chunk_simps = chunk_run_def trailing_run_def trailing_def on_state_def chunk_defs chunked_def assertion_def goes_def upd_def expects_def
  STRICT_CHECK_def PARSING_HEADER_def Let_def

lemma size_begins:
  assumes "drop i data = hex_char d # cs" "d < 16" "F_CHUNKED \<in> flags p"
  shows "loop strict settings data (chunk_run p u s_chunk_size_start c 0 i) =
    loop strict settings data (chunk_run p u s_chunk_size (of_nat d) 1 (Suc i))"
  using assms(3) unhex_hex [OF assms(2)] loop_header [of "chunk_run p u s_chunk_size_start c 0 i" data _ _ strict settings] assms(1)
  by (simp add: chunk_simps HTTP_MAX_HEADER_SIZE_def)

lemma size_continues:
  assumes "drop i data = hex_char d # cs" "d < 16" "F_CHUNKED \<in> flags p" "n < HTTP_MAX_HEADER_SIZE"
  shows "loop strict settings data (chunk_run p u s_chunk_size c n i) =
    loop strict settings data (chunk_run p u s_chunk_size (c * 16 + of_nat d) (Suc n) (Suc i))"
  using assms(3,4) unhex_hex [OF assms(2)] loop_header [of "chunk_run p u s_chunk_size c n i" data _ _ strict settings] assms(1)
  by (simp add: chunk_simps)

lemma size_digits:
  assumes "drop i data = map hex_char ds @ cs" "\<forall>d\<in>set ds. d < 16" "F_CHUNKED \<in> flags p" "n + length ds \<le> HTTP_MAX_HEADER_SIZE"
  shows "loop strict settings data (chunk_run p u s_chunk_size c n i) =
    loop strict settings data (chunk_run p u s_chunk_size (hex_word c ds) (n + length ds) (i + length ds))"
  using assms
proof (induction ds arbitrary: c n i)
  case (Cons d ds)
  then have "drop i data = hex_char d # map hex_char ds @ cs" by simp
  from size_continues [OF this, of p n] Cons.IH [of "Suc i" "Suc n" "c * 16 + of_nat d"] drop_char [OF this] Cons.prems
  show ?case by (simp add: hex_word_def)
qed (simp add: hex_word_def)

text \<open>The line with the size, up to the data.\<close>

lemma size_ends:
  assumes "drop i data = CR # LF # cs" "F_CHUNKED \<in> flags p" "Suc n < HTTP_MAX_HEADER_SIZE"
  shows "loop strict settings data (chunk_run p u s_chunk_size c n i) =
    loop strict settings data
      (if c = 0 then trailing_run p u s_header_field_start 0 (i + 2)
       else chunk_run p u s_chunk_data c 0 (i + 2))"
proof -
  have "drop (Suc i) data = LF # cs" using drop_char [OF assms(1)] by simp
  then have "loop strict settings data (chunk_run p u s_chunk_size_almost_done c (Suc n) (Suc i)) =
    loop strict settings data
      (if c = 0 then trailing_run p u s_header_field_start 0 (i + 2)
       else chunk_run p u s_chunk_data c 0 (i + 2))"
    using loop_header [of "chunk_run p u s_chunk_size_almost_done c (Suc n) (Suc i)" data LF cs strict settings] assms(2,3)
    by (simp add: chunk_simps)
  moreover have "loop strict settings data (chunk_run p u s_chunk_size c n i) =
      loop strict settings data (chunk_run p u s_chunk_size_almost_done c (Suc n) (Suc i))"
    using loop_header [of "chunk_run p u s_chunk_size c n i" data CR "LF # cs" strict settings] assms
    by (simp add: chunk_simps)
  ultimately show ?thesis by simp
qed

lemma size_read:
  assumes "drop i data = to_hex m @ CR # LF # cs" "m < 2 ^ 64" "F_CHUNKED \<in> flags p"
  shows "loop strict settings data (chunk_run p u s_chunk_size_start c 0 i) =
    loop strict settings data
      (if m = 0 then trailing_run p u s_header_field_start 0 (i + length (to_hex m) + 2)
       else chunk_run p u s_chunk_data (of_nat m) 0 (i + length (to_hex m) + 2))"
proof -
  obtain d ds where ds: "hex_digits m = d # ds"
    using hex_digits_not_Nil [of m] by (cases "hex_digits m") auto
  have less: "d < 16" "\<forall>e\<in>set ds. e < 16"
    using hex_digits_less [of _ m] ds by auto
  have "length (hex_digits m) \<le> Suc 15"
    by (rule hex_digits_length) (use assms(2) in simp)
  then have room: "1 + length ds \<le> HTTP_MAX_HEADER_SIZE" "Suc (1 + length ds) < HTTP_MAX_HEADER_SIZE"
    using ds by (simp_all add: HTTP_MAX_HEADER_SIZE_def)
  have val: "hex_word (of_nat d) ds = of_nat m"
    using hex_word_digits [of m] by (simp add: ds hex_word_def)
  have zero: "(of_nat m :: 64 word) = 0 \<longleftrightarrow> m = 0"
    using assms(2) by (simp add: word_of_nat_eq_0_iff nat_dvd_not_less) (metis dvd_0_right nat_dvd_not_less neq0_conv)
  have size: "length (to_hex m) = Suc (length ds)"
    by (simp add: to_hex_def ds)
  have start: "drop i data = hex_char d # map hex_char ds @ CR # LF # cs"
    using assms(1) by (simp add: to_hex_def ds)
  have digits: "drop (Suc i) data = map hex_char ds @ CR # LF # cs"
    using drop_char [OF start] by simp
  then have "drop (Suc i + length ds) data = CR # LF # cs"
    by (metis append_eq_conv_conj drop_drop length_map add.commute)
  from size_begins [OF start less(1) assms(3)] size_digits [OF digits less(2) assms(3) room(1)] size_ends [OF this assms(3) room(2)]
  show ?thesis unfolding size by (simp add: val zero)
qed

section \<open>Reading the chunk\<close>

lemma sint_of_nat_small: "k < 2 ^ 63 \<Longrightarrow> sint (of_nat k :: 64 word) = int k"
proof -
  assume k: "k < 2 ^ 63"
  then have "int k < 2 ^ 63" by simp
  then have "signed_take_bit 63 (int k) = int k"
    by (intro signed_take_bit_int_eq_self) auto
  moreover have "(of_nat k :: 64 word) = of_int (int k)" by simp
  ultimately show ?thesis by (simp only: sint_sbintrunc') simp
qed

lemma data_read:
  assumes "drop i data = b @ cs" "b \<noteq> []" "length b < 2 ^ 63" "F_CHUNKED \<in> flags p"
  shows "loop strict (recorder answer) data (chunk_run p u s_chunk_data (of_nat (length b)) 0 i) =
    loop strict (recorder answer) data (chunk_run p (u @ [Body b]) s_chunk_data_almost_done 0 0 (i + length b))"
proof -
  obtain ch bs where "b = ch # bs" using assms(2) by (cases b) auto
  with assms(1) have char: "drop i data = ch # bs @ cs" by simp
  have "length (drop i data) = length b + length cs" "take (length b) (drop i data) = b"
    using assms(1) by simp_all
  then have left: "length data - i = length b + length cs" "take (length b) (drop i data) = b" by simp_all
  have "sint (of_nat (length b) :: 64 word) = int (length b)"
    by (rule sint_of_nat_small [OF assms(3)])
  then have "min (int (length data - i)) (sint (of_nat (length b) :: 64 word)) = int (length b)"
    using left by simp
  moreover have "0 < length b" using assms(2) by simp
  ultimately show ?thesis
    using loop_body [of "chunk_run p u s_chunk_data (of_nat (length b)) 0 i" data ch "bs @ cs" strict "recorder answer"] char assms(4) left
    by (simp add: chunk_run_def on_state_def on_chunk_data_signed chunked_def assertion_def PARSING_HEADER_def Let_def
        read_body_recorder note_event_def upd_def)
qed

lemma chunk_read:
  assumes "drop i data = encode_chunk b @ cs" "b \<noteq> []" "length b < 2 ^ 63" "F_CHUNKED \<in> flags p"
  shows "loop strict (recorder answer) data (chunk_run p u s_chunk_size_start c 0 i) =
    loop strict (recorder answer) data (chunk_run p (u @ [Body b]) s_chunk_size_start 0 0 (i + length (encode_chunk b)))"
proof -
  let ?h = "length (to_hex (length b))"
  have at_size: "drop i data = to_hex (length b) @ CR # LF # b @ CR # LF # cs"
    using assms(1) by (simp add: encode_chunk_def)
  have at_data: "drop (i + ?h + 2) data = b @ CR # LF # cs"
    using arg_cong [OF at_size, of "drop (?h + 2)"] by (simp add: add.commute add.left_commute)
  have at_end: "drop (i + ?h + 2 + length b) data = CR # LF # cs"
    using arg_cong [OF at_data, of "drop (length b)"] by (simp add: add.commute add.left_commute)
  let ?j = "i + ?h + 2 + length b"
  have at_LF: "drop (Suc ?j) data = LF # cs" using drop_char [OF at_end] by simp
  have "loop strict (recorder answer) data (chunk_run p (u @ [Body b]) s_chunk_data_almost_done 0 0 ?j) =
      loop strict (recorder answer) data (chunk_run p (u @ [Body b]) s_chunk_data_done 0 0 (Suc ?j))"
    using loop_body [of "chunk_run p (u @ [Body b]) s_chunk_data_almost_done 0 0 ?j" data CR "LF # cs" strict "recorder answer"]
      at_end assms(4)
    by (simp add: chunk_simps)
  moreover have "loop strict (recorder answer) data (chunk_run p (u @ [Body b]) s_chunk_data_done 0 0 (Suc ?j)) =
      loop strict (recorder answer) data (chunk_run p (u @ [Body b]) s_chunk_size_start 0 0 (Suc (Suc ?j)))"
    using loop_body [of "chunk_run p (u @ [Body b]) s_chunk_data_done 0 0 (Suc ?j)" data LF cs strict "recorder answer"]
      at_LF assms(4)
    by (simp add: chunk_simps)
  moreover have "length b < 2 ^ 64" using assms(3) by simp
  moreover have whole: "i + length (encode_chunk b) = Suc (Suc ?j)" by (simp add: encode_chunk_def)
  ultimately show ?thesis
    unfolding whole using size_read [OF at_size _ assms(4), of strict "recorder answer" u c] data_read [OF at_data assms(2-4), of strict answer u]
      assms(2)
    by simp
qed

lemma chunks_read:
  assumes "drop i data = concat (map encode_chunk bs) @ cs" "\<forall>b\<in>set bs. b \<noteq> [] \<and> length b < 2 ^ 63" "F_CHUNKED \<in> flags p"
  shows "\<exists>c'. loop strict (recorder answer) data (chunk_run p u s_chunk_size_start c 0 i) =
    loop strict (recorder answer) data
      (chunk_run p (u @ map Body bs) s_chunk_size_start c' 0 (i + length (concat (map encode_chunk bs))))"
  using assms
proof (induction bs arbitrary: i u c)
  case (Cons b bs)
  let ?i = "i + length (encode_chunk b)"
  have at: "drop i data = encode_chunk b @ concat (map encode_chunk bs) @ cs" using Cons.prems(1) by simp
  have "drop ?i data = concat (map encode_chunk bs) @ cs"
    using arg_cong [OF at, of "drop (length (encode_chunk b))"] by (simp add: add.commute)
  from Cons.IH [OF this, of "u @ [Body b]" 0] chunk_read [OF at _ _ Cons.prems(3), of strict answer u c] Cons.prems(2,3)
  show ?case by (simp add: add.assoc)
qed auto

text \<open>The empty chunk and the empty line after it.\<close>

lemma end_read:
  assumes "drop i data = CHR ''0'' # [CR, LF, CR, LF]" "F_CHUNKED \<in> flags p"
  shows "loop strict (recorder answer) data (chunk_run p u s_chunk_size_start c 0 i) =
    Returns (length data)
      ((trailing p)\<lparr>pstate := NEW_MESSAGE strict (trailing p), pheader_state := pheader_state p, pindex := pindex p mod 256,
        pnread := 2\<rparr>)
      (u @ [Complete (public (trailing p))])"
proof -
  have "hex_digits 0 = [0]" by (subst hex_digits.simps) simp
  then have "to_hex 0 = ''0''" by (simp add: to_hex_def hex_char_def)
  then have at: "drop i data = to_hex 0 @ CR # LF # [CR, LF]" "length (to_hex 0) = 1" using assms(1) by simp_all
  have cr: "drop (i + 3) data = [CR, LF]" and lf: "drop (Suc (i + 3)) data = [LF]" and over: "length data = i + 5"
    using arg_cong [OF assms(1), of "drop 3"] arg_cong [OF assms(1), of "drop 4"] arg_cong [OF assms(1), of length]
    by (simp_all add: eval_nat_numeral)
  have "loop strict (recorder answer) data (trailing_run p u s_header_field_start 0 (i + 3)) =
      loop strict (recorder answer) data (trailing_run p u s_headers_almost_done 1 (Suc (i + 3)))"
    using loop_header [of "trailing_run p u s_header_field_start 0 (i + 3)" data CR "[LF]" strict "recorder answer"] cr
    by (simp add: trailing_run_def chunk_run_def PARSING_HEADER_def HTTP_MAX_HEADER_SIZE_def on_state_def on_header_field_start_def
        goes_def)
  moreover have "loop strict (recorder answer) data (trailing_run p u s_headers_almost_done 1 (Suc (i + 3))) =
      loop strict (recorder answer) data
        (trailing_run p (u @ [Complete (public (trailing p))]) (NEW_MESSAGE strict (trailing p)) 2 (i + 5))"
    using loop_header [of "trailing_run p u s_headers_almost_done 1 (Suc (i + 3))" data LF "[]" strict "recorder answer"] lf
    by (simp add: trailing_run_def chunk_run_def PARSING_HEADER_def HTTP_MAX_HEADER_SIZE_def on_state_def
        on_headers_almost_done_def STRICT_CHECK_def message_done_def note_event_def goes_def trailing_def numeral_2_eq_2 add.commute)
  moreover have "loop strict (recorder answer) data (chunk_run p u s_chunk_size_start c 0 i) =
      loop strict (recorder answer) data (trailing_run p u s_header_field_start 0 (i + 3))"
    using size_read [OF at(1) _ assms(2), of strict "recorder answer" u c] at(2) by (simp add: numeral_3_eq_3)
  moreover have "loop strict (recorder answer) data
        (trailing_run p (u @ [Complete (public (trailing p))]) (NEW_MESSAGE strict (trailing p)) 2 (i + 5)) =
      Returns (length data)
      ((trailing p)\<lparr>pstate := NEW_MESSAGE strict (trailing p), pheader_state := pheader_state p, pindex := pindex p mod 256,
        pnread := 2\<rparr>)
      (u @ [Complete (public (trailing p))])"
    using over by (simp add: loop_end trailing_run_def chunk_run_def finish_recorder pieces_def piece_def save_def)
  ultimately show ?thesis by simp
qed

section \<open>The round trip\<close>

text \<open>C4: what is written in chunks is read back.  The body of a message that is in chunks gives each of them to
  \<^verbatim>\<open>on_body\<close> as it was written, in order and whole, and then ends the message; all of the data is taken, and the
  parser is ready for the next message or, when it was compiled to be strict and the connection does not stay, dead.
\<close>

theorem chunks_round_trip:
  assumes "pstate p = s_chunk_size_start" "F_CHUNKED \<in> flags p" "pnread p = 0" "pindex p < 256"
    and "\<forall>b\<in>set bs. b \<noteq> [] \<and> length b < 2 ^ 63"
  shows "http_parser_execute strict (recorder answer) (encode_chunks bs) p u =
    Returns (length (encode_chunks bs)) ((trailing p)\<lparr>pstate := NEW_MESSAGE strict (trailing p), pnread := 2\<rparr>)
      (u @ map Body bs @ [Complete (public (trailing p))])"
proof -
  let ?i = "length (concat (map encode_chunk bs))"
  have "enter p u = chunk_run p u s_chunk_size_start (content_length p) 0 0"
    using assms(1,3) by (auto simp: enter_def chunk_run_def pending_def split: data_cb.split)
  moreover obtain c' where "loop strict (recorder answer) (encode_chunks bs) (chunk_run p u s_chunk_size_start (content_length p) 0 0) =
      loop strict (recorder answer) (encode_chunks bs) (chunk_run p (u @ map Body bs) s_chunk_size_start c' 0 ?i)"
    using chunks_read [of 0 "encode_chunks bs" bs "CHR ''0'' # [CR, LF, CR, LF]" p strict answer u "content_length p"] assms(2,5)
    by (auto simp: encode_chunks_def)
  moreover have "drop ?i (encode_chunks bs) = CHR ''0'' # [CR, LF, CR, LF]" "encode_chunks bs \<noteq> []"
    by (simp_all add: encode_chunks_def)
  ultimately show ?thesis
    using end_read [of ?i "encode_chunks bs" p strict answer "u @ map Body bs" c'] assms(2,4)
    by (simp add: http_parser_execute_def trailing_def)
qed

text \<open>Responses, with the fields as they are when the headers of a body in chunks have been read.\<close>

definition chunked_parser :: http_parser where
  "chunked_parser =
     \<lparr>ptype = HTTP_RESPONSE, flags = {F_CHUNKED}, pstate = s_chunk_size_start, pheader_state = h_general, pindex = 6, pnread = 0,
      content_length = - 1, http_major = 1, http_minor = 1, status_code = 200, pmethod = HTTP_DELETE, upgrade = False\<rparr>"

lemma chunks_round_trip_witness:
  "http_parser_execute True (recorder (\<lambda>p. 0)) (encode_chunks [''hello'', ''you'']) chunked_parser [] =
    Returns 23 ((trailing chunked_parser)\<lparr>pstate := s_start_res, pnread := 2\<rparr>)
      [Body ''hello'', Body ''you'', Complete (public (trailing chunked_parser))]"
proof -
  have "length (encode_chunks [''hello'', ''you'']) = 23" by code_simp
  moreover have "NEW_MESSAGE True (trailing chunked_parser) = s_start_res"
    by (simp add: NEW_MESSAGE_def http_should_keep_alive_def start_state_def trailing_def chunked_parser_def)
  ultimately show ?thesis
    using chunks_round_trip [of chunked_parser "[''hello'', ''you'']" True "\<lambda>p. 0" "[]"]
    by (simp add: chunked_parser_def)
qed

section \<open>A length that is too large\<close>

lemma sint_negative: "2 ^ 63 \<le> m \<Longrightarrow> m < 2 ^ 64 \<Longrightarrow> sint (of_nat m :: 64 word) < 0"
proof (rule ccontr)
  let ?w = "of_nat m :: 64 word"
  assume m: "2 ^ 63 \<le> m" "m < 2 ^ 64" and "\<not> sint ?w < 0"
  then have "0 \<le> sint ?w" by simp
  moreover have "sint ?w < 2 ^ 63" using sint_lt [of ?w] by simp
  ultimately have "uint ?w = sint ?w"
    by (simp add: uint_sint take_bit_int_eq_self)
  moreover have "uint ?w = int m"
    using m(2) by (simp add: uint_nat unat_of_nat)
  ultimately show False using m(1) \<open>sint ?w < 2 ^ 63\<close> by simp
qed

text \<open>C40: a chunk whose length needs all of the 64 bits makes the parser leave the data at its first byte: a length of
  \<^term>\<open>2 ^ 63 :: nat\<close> or more, and less than \<^term>\<open>2 ^ 64 :: nat\<close>, is compared as a negative number with the bytes that are left, is the
  smaller, and is used as an unsigned one.  So \<^verbatim>\<open>on_body\<close> is told of a part that no data can have.
\<close>

theorem large_chunk_overreads:
  assumes "pstate p = s_chunk_size_start" "F_CHUNKED \<in> flags p" "pnread p = 0" "2 ^ 63 \<le> m" "m < 2 ^ 64" "rest \<noteq> []"
  shows "http_parser_execute strict (recorder answer) (to_hex m @ [CR, LF] @ rest) p u = Faults Undefined"
proof -
  let ?data = "to_hex m @ CR # LF # rest" and ?i = "length (to_hex m) + 2"
  obtain ch cs where "rest = ch # cs" using assms(6) by (cases rest) auto
  then have "drop ?i ?data = ch # cs" by simp
  then have "loop strict (recorder answer) ?data (chunk_run p u s_chunk_data (of_nat m) 0 ?i) = Faults Undefined"
    using loop_body [of "chunk_run p u s_chunk_data (of_nat m) 0 ?i" ?data ch cs strict "recorder answer"] assms(2)
      sint_negative [OF assms(4,5)]
    by (simp add: chunk_run_def PARSING_HEADER_def on_state_def on_chunk_data_signed chunked_def assertion_def Let_def min_less_iff_disj)
  moreover have "enter p u = chunk_run p u s_chunk_size_start (content_length p) 0 0"
    using assms(1,3) by (auto simp: enter_def chunk_run_def pending_def split: data_cb.split)
  moreover have "m \<noteq> 0" using assms(4) by auto
  ultimately show ?thesis
    using size_read [of 0 ?data m rest p strict "recorder answer" u "content_length p"] assms(2,5)
    by (simp add: http_parser_execute_def)
qed

lemma large_chunk_overreads_witness:
  "http_parser_execute True (recorder (\<lambda>p. 0)) (''8000000000000000'' @ [CR, LF] @ ''x'') chunked_parser [] = Faults Undefined"
proof -
  have "to_hex (2 ^ 63) = ''8000000000000000''"
    by (simp add: to_hex_def hex_digits.simps hex_char_def)
  then show ?thesis
    using large_chunk_overreads [of chunked_parser "2 ^ 63" "''x''" True "\<lambda>p. 0" "[]"]
    by (simp add: chunked_parser_def)
qed

end
