(* ===== verification/Spec2Isabelle.thy ===== *)
theory Spec2Isabelle
  imports PpMacros PpArgs PpEnds SoRead LogOs LoaderPe CrcTool ParSort ProdCons IpcTable Fgrep DormRoom Barrier Mcat TinyWin
    EchoServer IocpEcho VMem Once Critical PollPipe DirList WordHash Interlocked
    AioFiles Blocked PipeWords HttpOnce HttpRequest HttpChunks
begin

text \<open>
  A model of the C programs of a course on operating systems, and the theorems that make them
  correct.  The repository is not one program: each assignment and each laboratory under
  \<^verbatim>\<open>src/\<close> is a program of its own, for Linux, for Windows or for both.  They meet in what they do
  with the operating system, and that is what the theories share: how a computation of C can end,
  a file with short reads and writes, the loops that repeat a transfer until it is complete, and
  threads as step relations whose interleavings are quantified over.

  \<^bold>\<open>Shared theories.\<close>  \<^verbatim>\<open>Prelude\<close> holds the ways a computation ends (\<^verbatim>\<open>outcome\<close>: a value, an exit code,
  an access without a meaning, a loop that never ends), \<^verbatim>\<open>strtok\<close> and \<^verbatim>\<open>strncmp\<close>, and list lemmas.
  \<^verbatim>\<open>Channels\<close> holds the loops around \<^verbatim>\<open>write\<close>, \<^verbatim>\<open>send\<close> and \<^verbatim>\<open>recv\<close>, with the locales \<^verbatim>\<open>sink\<close>,
  \<^verbatim>\<open>reliable_sink\<close> and \<^verbatim>\<open>reliable_source\<close> that say what a channel has to promise for such a loop to move
  everything.  \<^verbatim>\<open>OsFile\<close> is an open file under a plan of failing and short calls; it interprets these
  locales (\<^verbatim>\<open>wr\<close>, \<^verbatim>\<open>wr_ok\<close>, \<^verbatim>\<open>rd\<close>), and the socket of \<^verbatim>\<open>LogWire\<close> does so again (\<^verbatim>\<open>snd_all\<close>, \<^verbatim>\<open>snd_ok\<close>, \<^verbatim>\<open>rcv\<close>).

  \<^bold>\<open>assignments/1-multi, the preprocessor.\<close>  \<^verbatim>\<open>Hashmap\<close>: \<^verbatim>\<open>hashmap.c\<close>, an open-addressing table that
  grows; the locales \<^verbatim>\<open>bounded_store\<close> and \<^verbatim>\<open>store\<close> state its contract as a map, interpreted on the
  operations of the code (\<^verbatim>\<open>raw\<close>, \<^verbatim>\<open>hm\<close>).  \<^verbatim>\<open>PpText\<close>: lines, tokens, paths and the replacement of macros
  from \<^verbatim>\<open>helper.c\<close>.  \<^verbatim>\<open>Preproc\<close>: the directives and the main loop \<^verbatim>\<open>parseFile\<close>, which passes the unread
  input and the table along.  \<^verbatim>\<open>PpMain\<close>: the options of the command line and \<^verbatim>\<open>main\<close>.  \<^verbatim>\<open>PpFuel\<close>,
  \<^verbatim>\<open>PpProps\<close>, \<^verbatim>\<open>PpMacros\<close> and \<^verbatim>\<open>PpArgs\<close> show that conditionals select the branch they should, that
  macros are replaced, that every directive keeps the invariant of the table, and that the command line
  is read as it is meant.  \<^verbatim>\<open>PpEnds\<close>: the preprocessor ends when no macro is defined in terms of itself or of one that
  is; otherwise it can follow values for ever.  Recursive inclusion is bounded by fuel: \<^verbatim>\<open>fuel_is_enough\<close> shows that
  fuel above the length of the input is never exhausted when no file is included; with
  inclusions \<^verbatim>\<open>more_fuel\<close> shows that a result, once there, does not depend on the fuel, and a file that
  includes itself exhausts any.

  \<^bold>\<open>assignments/2-stdio, buffered streams.\<close>  \<^verbatim>\<open>SoStdio\<close>: every function of \<^verbatim>\<open>libso_stdio.c\<close> over an
  open file.  \<^verbatim>\<open>SoProps\<close> is about writing (what was written is in the file after \<^verbatim>\<open>so_fclose\<close>), \<^verbatim>\<open>SoRead\<close> about
  reading and positioning.  The loops of the library need not end; they are partial functions, where
  \<^const>\<open>None\<close> means that the call does not return, and the theorems state that it does.

  \<^bold>\<open>assignments/3-loader.\<close>  \<^verbatim>\<open>LoaderElf\<close>: the ELF parser of \<^verbatim>\<open>skel-lin/loader/exec_parser.c\<close>, from the
  bytes of the file to the segments and the start of the program.  \<^verbatim>\<open>LoaderPe\<close>: the PE parser of
  \<^verbatim>\<open>skel-win\<close>, with its read loop and the binding of imports in the memory of the process.

  \<^bold>\<open>hackathon, a log cache.\<close>  \<^verbatim>\<open>LogWire\<close>: the table of operations and the messages with their length in front.
  \<^verbatim>\<open>LogServer\<close>: the commands, a session, the accept loop; \<^verbatim>\<open>LogClient\<close>: the client library; \<^verbatim>\<open>LogOs\<close>:
  files, time and the Windows variants.  \<^verbatim>\<open>LogProps\<close> and \<^verbatim>\<open>LogClient\<close> compose both sides: a request of the
  library is answered by the server over one socket model.

  \<^bold>\<open>assignments/5-aws, the samples.\<close>  \<^verbatim>\<open>EchoServer\<close>: the echo server over \<^verbatim>\<open>epoll\<close> with its wrappers \<^verbatim>\<open>w_epoll.h\<close>.  Connections
  live on a heap, so that the use of a freed one is visible; a schedule says which client acts and which event
  is reported.  Its tables are well typed in every run, clients that wait for their echo
  get it, and clients that do not can lose messages or the server.  \<^verbatim>\<open>IocpEcho\<close>: its counterpart over a completion port; the
  state lists the operations that the kernel still holds for each connection, and no structure is written, used again or freed
  under one.  \<^verbatim>\<open>HttpOnce\<close>: a server that
  sends one fixed reply.

  \<^bold>\<open>assignments/5-aws, the HTTP parser.\<close>  \<^verbatim>\<open>util/http-parser/http_parser.c\<close> parses a message that arrives in
  pieces; what it knows between two pieces is a \<^verbatim>\<open>struct http_parser\<close>.  \<^verbatim>\<open>HttpTables\<close>: the states, methods, errors and character tables, and
  \<^verbatim>\<open>parse_url_char\<close>.  \<^verbatim>\<open>HttpParser\<close>: one definition per group of cases of the big switch; the record \<^verbatim>\<open>run\<close> is the
  struct with the local variables of \<^verbatim>\<open>http_parser_execute\<close>, the marks and the callbacks made so far.
  \<^verbatim>\<open>HttpExec\<close>: the switch, the loop over the bytes and the calls after it.  \<^verbatim>\<open>HttpSound\<close>: an invariant that every case
  keeps, from which no assertion of the code fails and no callback gets a part that is not in the data, whatever bytes arrive, as long as the two
  accesses outside the tables that the code allows do not happen.  \<^verbatim>\<open>HttpViews\<close> says what the parts that the callbacks get
  add up to; \<^verbatim>\<open>HttpLike\<close> and \<^verbatim>\<open>HttpSplit\<close> show that a message in pieces is parsed like the same bytes in one.
  \<^verbatim>\<open>HttpRequest\<close>: a request for a path is parsed to that method and path; \<^verbatim>\<open>HttpChunks\<close>: what a chunked encoder writes is
  given back by the parser.  Both also show one access outside a table that bytes from the network can bring about.

  \<^bold>\<open>labs.\<close>  \<^verbatim>\<open>Mcat\<close> (lab02): cat and cp with full reads and writes.  \<^verbatim>\<open>Crc32\<close>, \<^verbatim>\<open>CrcTool\<close> (lab02): the
  table-driven checksum equals division of polynomials bit by bit, and the program that compares
  files.  \<^verbatim>\<open>Tiny\<close>, \<^verbatim>\<open>TinyWin\<close> (lab03): the two shells; a command line is built from items and read
  back.  \<^verbatim>\<open>IpcTable\<close> (lab05.ipc): the shared table of words, its server and client; the locale
  \<^verbatim>\<open>word_store\<close> is its contract as a multiset, interpreted on the server (\<^verbatim>\<open>ipc\<close>).  \<^verbatim>\<open>ProdCons\<close> (lab08):
  producer and consumer over a mutex and two condition variables.  \<^verbatim>\<open>Fgrep\<close> (lab08): the search
  divided among four threads equals one search.  \<^verbatim>\<open>ParSort\<close> (lab09): the parallel merge sort; every schedule
  sorts, and every schedule ends.  \<^verbatim>\<open>Barrier\<close>, \<^verbatim>\<open>DormRoom\<close> (lab09): a barrier that can be
  used again, and the dean and any number of students (the second test starts one more than the first).  \<^verbatim>\<open>DirList\<close> (lab12, lab02): recursive listings and the command
  loop of the file utility.  \<^verbatim>\<open>VMem\<close> (lab06): fault handlers that raise the protection of a page, the
  locale \<^verbatim>\<open>granting\<close> being what both promise (\<^verbatim>\<open>lx\<close>, \<^verbatim>\<open>win\<close>), so that any list of accesses is served; a block before a guard page; a copy through mappings.
  \<^verbatim>\<open>WordHash\<close> (lab07): a table with open addressing refines a list of bindings.  \<^verbatim>\<open>Once\<close>, \<^verbatim>\<open>Critical\<close> (lab08): one-time
  initialisation, and increments under a spin lock.  \<^verbatim>\<open>Interlocked\<close> (lab09): counting modulo ten with and
  without a mutex.  \<^verbatim>\<open>PollPipe\<close> (lab11): children that write to pipes, and servers that wait with \<^verbatim>\<open>poll\<close> and \<^verbatim>\<open>epoll\<close>.
  \<^verbatim>\<open>Waiting\<close> has the locale \<^verbatim>\<open>waiting\<close>: a program whose parts take turns can come to its end.  It is interpreted on
  the three programs of \<^verbatim>\<open>AioFiles\<close> (lab10, lab11; \<^verbatim>\<open>ka\<close>, \<^verbatim>\<open>ov\<close>, \<^verbatim>\<open>pt\<close>), which start four writes and wait for them, and on
  \<^verbatim>\<open>PipeWords\<close> (lab03; \<^verbatim>\<open>pw\<close>), words sent through a pipe.  \<^verbatim>\<open>Blocked\<close> (lab08): two threads with two mutexes never block
  each other.

  \<^bold>\<open>How state and operations correspond to the code.\<close>  A C struct or the globals of a file are a record, an
  enumeration a datatype, a function a definition of the same name that takes and returns the state; a
  null pointer is \<^const>\<open>None\<close>, a C string a list of characters without the terminator.  Machine words are
  used where the width matters (checksums, ELF and PE fields, message lengths, the sizes of \<^verbatim>\<open>Fgrep\<close>); other
  integers are \<^typ>\<open>int\<close> or \<^typ>\<open>nat\<close> with the bounds of the code.  Threads are inductive step relations or
  a step function with a schedule; a step is what happens between two points at which other threads
  can interfere.  The callbacks of the HTTP parser are a parameter that gives the results of the calls, which the record lists;
  they do not change the parser themselves.

  \<^bold>\<open>Bounds.\<close>  \<^verbatim>\<open>Hashmap\<close>: counters without the overflow that a table of half a billion slots would have.  \<^verbatim>\<open>ParSort\<close>: at most 136 steps in any schedule.  \<^verbatim>\<open>Barrier\<close>: at most 40.  \<^verbatim>\<open>Fgrep\<close>: files below
  two gigabytes.  \<^verbatim>\<open>ProdCons\<close> and \<^verbatim>\<open>DormRoom\<close> wait in loops and have no bound; the theorems there say that no
  reachable state is a deadlock, for \<^verbatim>\<open>DormRoom\<close> that all threads can still reach their end.  A body of a critical section
  is one step in \<^verbatim>\<open>Once\<close> and \<^verbatim>\<open>Barrier\<close>, because the mutex keeps others out.  \<^verbatim>\<open>Once\<close> and
  \<^verbatim>\<open>Critical\<close> bound the steps that move by a measure of the rounds that are left.  The recursion of \<^verbatim>\<open>DirList\<close> has the depth
  of the tree as its fuel, and the theorems are about any fuel above it; retried accesses of \<^verbatim>\<open>VMem\<close> and the probing
  loops of \<^verbatim>\<open>WordHash\<close> are \<^const>\<open>None\<close> when they do not end, and shown to end.  The loop of \<^verbatim>\<open>HttpExec\<close> ends by a measure of
  the bytes that are left.  \<^verbatim>\<open>HttpSplit\<close> is about data that is shorter than the limit on headers by the length of the longest
  name that is compared, so that the limit is not what ends the message; \<^verbatim>\<open>HttpChunks\<close> is about chunks below \<^term>\<open>2 ^ 63 :: nat\<close> bytes.

  \<^bold>\<open>Hypotheses about code that is not here.\<close>  Parameters stand for the files that can be opened, the limits
  of system calls, the addresses that \<^verbatim>\<open>GetProcAddress\<close> returns, the programs a shell can start, and
  whether \<^verbatim>\<open>SignalObjectAndWait\<close> is atomic.  Memory allocation and the creation of threads are taken
  to succeed.

  \<^bold>\<open>Not modelled.\<close>  The checkers and the bytes of their test files; the scheduler and the web server
  of assignments 4 and 5, of which the repository holds only interfaces, tests, samples and the HTTP parser; the
  sample programs around that parser and its own test program; printing for the user; laboratories that show one system call each (signals, timers, paging,
  FIFOs, thread-local storage, mounts); programs that contain errors on
  purpose for the use of a debugger or profiler; the functions of lab05.ipc that are left empty for the student.
\<close>

end
